(* ===== verification/Prelude.thy ===== *)
theory Prelude
  imports Main "HOL-Library.Word" "HOL-Library.Monad_Syntax" "HOL-Library.Signed_Division"
begin

unbundle bit_operations_syntax

section \<open>Memory, pointers and C strings\<close>

text \<open>
  The C code reads and writes bytes through pointers. Memory is a partial map from block
  numbers to the bytes of one allocated object (a static array, a local array or an
  \<open>Alloc\<close>ed block); a pointer is \<open>Null\<close> or an offset into a block. Every access
  goes through \<open>rd\<close> and \<open>wr\<close>, which answer \<open>None\<close> for an access the C
  standard leaves undefined: through \<open>Null\<close>, through a dangling block or outside the
  bounds of the block. Every model of a C function that touches memory has an
  \<open>option\<close> result, so \<open>Some\<close> in a theorem also says that the call makes no
  such access.
\<close>

type_synonym byte = "8 word"

datatype ptr = Null | Ptr (blk: nat) (off: nat)

type_synonym mem = "nat \<Rightarrow> byte list option"

text \<open>Facts for reading C strings, for writing through pointers, and for closed evaluation.\<close>

named_theorems cstr_simps "unfolding of a C string at a pointer"
named_theorems store_simps "what a sequence of byte writes does to memory"

fun padd :: "ptr \<Rightarrow> nat \<Rightarrow> ptr" where
  "padd Null n = Null"
| "padd (Ptr b i) n = Ptr b (i + n)"

fun rd :: "mem \<Rightarrow> ptr \<Rightarrow> byte option" where
  "rd m Null = None"
| "rd m (Ptr b i) =
     (case m b of None \<Rightarrow> None
      | Some bs \<Rightarrow> if i < length bs then Some (bs ! i) else None)"

fun wr :: "mem \<Rightarrow> ptr \<Rightarrow> byte \<Rightarrow> mem option" where
  "wr m Null c = None"
| "wr m (Ptr b i) c =
     (case m b of None \<Rightarrow> None
      | Some bs \<Rightarrow> if i < length bs then Some (m(b \<mapsto> bs[i := c])) else None)"

text \<open>Bytes left in the block from a pointer on: the measure of every pointer loop.\<close>

fun room :: "mem \<Rightarrow> ptr \<Rightarrow> nat" where
  "room m Null = 0"
| "room m (Ptr b i) = (case m b of None \<Rightarrow> 0 | Some bs \<Rightarrow> length bs - i)"

lemma padd_0 [simp]: "padd p 0 = p"
  by (cases p) auto

lemma padd_padd [simp]: "padd (padd p i) j = padd p (i + j)"
  by (cases p) auto

lemma padd_Null_iff [simp]: "padd p n = Null \<longleftrightarrow> p = Null"
  by (cases p) auto

lemma room_less [termination_simp]: "rd m p = Some c \<Longrightarrow> room m (padd p (Suc 0)) < room m p"
  by (cases p) (auto split: option.splits if_splits)

lemma rd_room: "rd m p \<noteq> None \<longleftrightarrow> 0 < room m p"
  by (cases p) (auto split: option.splits)

lemma rd_SomeD: "rd m p = Some c \<Longrightarrow> room m p - Suc 0 < room m p"
  using rd_room [of m p] by auto

lemma rd_None_room: "rd m p = None \<longleftrightarrow> room m p = 0"
  using rd_room [of m p] by auto

lemma room_padd [simp]: "room m (padd p n) = room m p - n"
  by (cases p) (auto split: option.splits)

lemma wr_SomeD:
  assumes "wr m p c = Some m'"
  obtains b i bs where "p = Ptr b i" "m b = Some bs" "i < length bs" "m' = m(b \<mapsto> bs[i := c])"
  using assms by (cases p) (auto split: option.splits if_splits)

lemma wr_room: "wr m p c \<noteq> None \<longleftrightarrow> 0 < room m p"
  by (cases p) (auto split: option.splits)

lemma room_wr: "wr m p c = Some m' \<Longrightarrow> room m' q = room m q"
  by (cases q) (auto elim!: wr_SomeD)

lemma rd_wr_same: "wr m p c = Some m' \<Longrightarrow> rd m' p = Some c"
  by (auto elim!: wr_SomeD)

lemma rd_wr_other: "wr m p c = Some m' \<Longrightarrow> q \<noteq> p \<Longrightarrow> rd m' q = rd m q"
  by (cases q; cases p) (auto split: option.splits if_splits)

subsection \<open>C strings\<close>

text \<open>
  \<open>cstr m p\<close> is the NUL-terminated string at \<open>p\<close>, without its terminator;
  \<open>None\<close> when the block ends before a NUL byte.
\<close>

function cstr :: "mem \<Rightarrow> ptr \<Rightarrow> byte list option" where
  "cstr m p =
     (case rd m p of None \<Rightarrow> None
      | Some c \<Rightarrow> if c = 0 then Some [] else map_option ((#) c) (cstr m (padd p 1)))"
  by pat_completeness auto
termination
  by (relation "measure (\<lambda>(m, p). room m p)") (auto simp: rd_SomeD)

declare cstr.simps [simp del]

lemma cstr_Nil [cstr_simps]: "cstr m p = Some [] \<longleftrightarrow> rd m p = Some 0"
  by (subst cstr.simps) (auto split: option.splits)

lemma cstr_Cons [cstr_simps]:
  "cstr m p = Some (c # s) \<longleftrightarrow> c \<noteq> 0 \<and> rd m p = Some c \<and> cstr m (padd p 1) = Some s"
  by (subst cstr.simps) (auto split: option.splits)

lemma cstr_Null [simp]: "cstr m Null = None"
  by (subst cstr.simps) simp

lemma cstr_no_nul: "cstr m p = Some s \<Longrightarrow> 0 \<notin> set s"
  by (induction s arbitrary: p) (auto simp: cstr_simps)

lemma cstr_drop: "cstr m p = Some s \<Longrightarrow> n \<le> length s \<Longrightarrow> cstr m (padd p n) = Some (drop n s)"
proof (induction s arbitrary: p n)
  case Nil
  then show ?case by simp
next
  case (Cons c s)
  then show ?case
    by (cases n) (force simp: cstr_simps)+
qed

lemma cstr_rd:
  assumes "cstr m p = Some s" "n \<le> length s"
  shows "rd m (padd p n) = Some (if n < length s then s ! n else 0)"
proof -
  have *: "cstr m (padd p n) = Some (drop n s)"
    using assms by (rule cstr_drop)
  show ?thesis
  proof (cases "n < length s")
    case True
    then have "drop n s = s ! n # drop (Suc n) s" by (simp add: Cons_nth_drop_Suc)
    with * True show ?thesis by (simp add: cstr_simps)
  next
    case False
    with * show ?thesis by (simp add: cstr_simps)
  qed
qed

lemma cstr_room: "cstr m p = Some s \<Longrightarrow> length s < room m p"
  using cstr_rd [of m p s "length s"] rd_room [of m "padd p (length s)"] by auto

lemma takeWhile_nul [simp]: "0 \<notin> set s \<Longrightarrow> takeWhile (\<lambda>c. c \<noteq> 0) (s @ 0 # t) = s"
  by (induction s) auto

text \<open>The string laid out in a block, to build concrete memories and to read results.\<close>

lemma cstr_block:
  assumes "m b = Some (pre @ s @ 0 # post)" "0 \<notin> set s"
  shows "cstr m (Ptr b (length pre)) = Some s"
  using assms
proof (induction s arbitrary: pre)
  case Nil
  then show ?case by (simp add: cstr_simps)
next
  case (Cons c s)
  from Cons.IH [of "pre @ [c]"] Cons.prems show ?case
    by (auto simp: cstr_simps nth_append)
qed

subsection \<open>Sequences of byte writes\<close>

primrec store :: "mem \<Rightarrow> ptr \<Rightarrow> byte list \<Rightarrow> mem option" where
  "store m p [] = Some m"
| "store m p (c # cs) = wr m p c \<bind> (\<lambda>m'. store m' (padd p 1) cs)"

lemma store_append: "store m p (xs @ ys) = store m p xs \<bind> (\<lambda>m'. store m' (padd p (length xs)) ys)"
  by (induction xs arbitrary: m p) (auto simp: bind_assoc)

lemma store_block [store_simps]:
  assumes "m b = Some bs" "i + length xs \<le> length bs"
  shows "store m (Ptr b i) xs = Some (m(b \<mapsto> take i bs @ xs @ drop (i + length xs) bs))"
  using assms
proof (induction xs arbitrary: m i bs)
  case Nil
  then show ?case by (auto simp: fun_upd_idem)
next
  case (Cons x xs)
  let ?m = "m(b \<mapsto> bs[i := x])"
  from Cons.prems have "store ?m (Ptr b (Suc i)) xs =
      Some (?m(b \<mapsto> take (Suc i) (bs[i := x]) @ xs @ drop (Suc i + length xs) (bs[i := x])))"
    by (intro Cons.IH) auto
  moreover from Cons.prems have "take (Suc i) (bs[i := x]) = take i bs @ [x]"
    by (simp add: take_Suc_conv_app_nth)
  ultimately show ?case using Cons.prems by (simp add: fun_eq_iff)
qed

lemma store_fits: "store m p xs \<noteq> None \<longleftrightarrow> xs = [] \<or> length xs \<le> room m p"
proof (induction xs arbitrary: m p)
  case Nil
  then show ?case by simp
next
  case (Cons x xs)
  show ?case
  proof (cases "wr m p x")
    case None
    with wr_room [of m p x] show ?thesis by auto
  next
    case (Some m')
    with wr_room [of m p x] room_wr [OF Some] Cons.IH [of m' "padd p 1"] show ?thesis
      by (cases xs) auto
  qed
qed

lemma store_room: "store m p xs = Some m' \<Longrightarrow> room m' q = room m q"
proof (induction xs arbitrary: m p)
  case (Cons x xs)
  from Cons.prems obtain m1 where "wr m p x = Some m1" "store m1 (padd p 1) xs = Some m'"
    by (auto split: bind_splits)
  then show ?case using Cons.IH room_wr by metis
qed simp

lemma rd_store_other:
  assumes "store m p xs = Some m'" "\<And>k. k < length xs \<Longrightarrow> q \<noteq> padd p k"
  shows "rd m' q = rd m q"
  using assms
proof (induction xs arbitrary: m p)
  case (Cons x xs)
  from Cons.prems(1) obtain m1 where m1: "wr m p x = Some m1" "store m1 (padd p 1) xs = Some m'"
    by (auto split: bind_splits)
  have "rd m' q = rd m1 q"
    using m1(2) Cons.prems(2) by (intro Cons.IH) fastforce+
  also have "\<dots> = rd m q"
    using rd_wr_other [OF m1(1)] Cons.prems(2) [of 0] by simp
  finally show ?case .
qed simp

text \<open>Writing to one block leaves the strings of every other block alone.\<close>

definition same_blocks :: "mem \<Rightarrow> mem \<Rightarrow> nat \<Rightarrow> bool" where
  "same_blocks m m' b \<longleftrightarrow> (\<forall>b'. b' \<noteq> b \<longrightarrow> m' b' = m b')"

lemma cstr_cong_block:
  assumes "m' b = m b"
  shows "cstr m' (Ptr b i) = cstr m (Ptr b i)"
  using assms
proof (induction "room m (Ptr b i)" arbitrary: i rule: less_induct)
  case less
  have rd: "rd m' (Ptr b i) = rd m (Ptr b i)" using less.prems by simp
  show ?case
  proof (cases "rd m (Ptr b i)")
    case None
    then show ?thesis using rd by (subst (1 2) cstr.simps) simp
  next
    case (Some c)
    then have "room m (Ptr b (i + 1)) < room m (Ptr b i)"
      using room_less [OF Some] by simp
    then have "cstr m' (Ptr b (i + 1)) = cstr m (Ptr b (i + 1))"
      using less by blast
    then show ?thesis using rd Some by (subst (1 2) cstr.simps) simp
  qed
qed

lemma wr_other_block: "wr m p c = Some m' \<Longrightarrow> b \<noteq> blk p \<Longrightarrow> m' b = m b"
  by (auto elim!: wr_SomeD)

lemma store_other_block: "store m p xs = Some m' \<Longrightarrow> b \<noteq> blk p \<Longrightarrow> m' b = m b"
proof (induction xs arbitrary: m p)
  case (Cons x xs)
  from Cons.prems obtain m1 where m1: "wr m p x = Some m1" "store m1 (padd p 1) xs = Some m'"
    by (auto split: bind_splits)
  have "blk (padd p 1) = blk p"
    using m1(1) by (cases p) auto
  then show ?case using m1 Cons.IH Cons.prems(2) wr_other_block by metis
qed simp

lemma cstr_wr_other_block:
  "wr m p c = Some m' \<Longrightarrow> blk q \<noteq> blk p \<Longrightarrow> cstr m' q = cstr m q"
  by (cases q) (auto simp: cstr_Null intro!: cstr_cong_block dest: wr_other_block)

lemma cstr_store_other_block:
  "store m p xs = Some m' \<Longrightarrow> blk q \<noteq> blk p \<Longrightarrow> cstr m' q = cstr m q"
  by (cases q) (auto simp: cstr_Null intro!: cstr_cong_block dest: store_other_block)

subsection \<open>Reading a range of bytes\<close>

primrec load :: "mem \<Rightarrow> ptr \<Rightarrow> nat \<Rightarrow> byte list option" where
  "load m p 0 = Some []"
| "load m p (Suc n) = rd m p \<bind> (\<lambda>c. map_option ((#) c) (load m (padd p 1) n))"

lemma load_length: "load m p n = Some xs \<Longrightarrow> length xs = n"
  by (induction n arbitrary: p xs) (auto split: bind_splits)

lemma load_Suc_Some:
  "load m p (Suc n) = Some xs \<longleftrightarrow>
     (\<exists>c cs. xs = c # cs \<and> rd m p = Some c \<and> load m (padd p 1) n = Some cs)"
  by (auto split: bind_splits)

lemma load_rd: "load m p n = Some xs \<Longrightarrow> k < n \<Longrightarrow> rd m (padd p k) = Some (xs ! k)"
proof (induction n arbitrary: p xs k)
  case (Suc n)
  from Suc.prems(1) obtain c cs where
    c: "xs = c # cs" "rd m p = Some c" "load m (padd p 1) n = Some cs"
    by (auto simp: load_Suc_Some simp del: load.simps)
  with Suc.IH [OF c(3)] Suc.prems(2) show ?case by (cases k) auto
qed simp

lemma load_block:
  "m b = Some bs \<Longrightarrow> i + n \<le> length bs \<Longrightarrow> load m (Ptr b i) n = Some (take n (drop i bs))"
proof (induction n arbitrary: i)
  case (Suc n)
  then have "drop i bs = bs ! i # drop (Suc i) bs" by (simp add: Cons_nth_drop_Suc)
  with Suc show ?case by simp
qed simp

text \<open>What is stored can be read back.\<close>

lemma rd_store_same:
  "store m p xs = Some m' \<Longrightarrow> k < length xs \<Longrightarrow> rd m' (padd p k) = Some (xs ! k)"
proof (induction xs arbitrary: m p k)
  case (Cons x xs)
  from Cons.prems obtain m1 where m1: "wr m p x = Some m1" "store m1 (padd p 1) xs = Some m'"
    by (auto split: bind_splits)
  show ?case
  proof (cases k)
    case 0
    have "p \<noteq> Null" using m1(1) by auto
    then have "rd m' p = rd m1 p"
      by (intro rd_store_other [OF m1(2)]) (cases p; auto)
    then show ?thesis using 0 rd_wr_same [OF m1(1)] by simp
  next
    case (Suc j)
    with Cons.IH [OF m1(2), of j] Cons.prems(2) show ?thesis by simp
  qed
qed simp

lemma cstr_intro:
  assumes "\<And>k. k < length s \<Longrightarrow> rd m (padd p k) = Some (s ! k)" "rd m (padd p (length s)) = Some 0"
    "0 \<notin> set s"
  shows "cstr m p = Some s"
  using assms
proof (induction s arbitrary: p)
  case Nil
  then show ?case by (simp add: cstr_simps)
next
  case (Cons c s)
  have "cstr m (padd p 1) = Some s"
    using Cons.prems(1) [of "Suc _"] Cons.prems(2,3) by (intro Cons.IH) auto
  then show ?case using Cons.prems(1) [of 0] Cons.prems(3) by (auto simp: cstr_simps)
qed

lemma cstr_store:
  assumes "store m p (s @ [0]) = Some m'" "0 \<notin> set s"
  shows "cstr m' p = Some s"
  using assms rd_store_same [OF assms(1)] by (intro cstr_intro) (auto simp: nth_append)

text \<open>Signed and unsigned readings of a byte.\<close>

abbreviation uchar :: "byte \<Rightarrow> int" where "uchar c \<equiv> uint c"
abbreviation schar :: "byte \<Rightarrow> int" where "schar c \<equiv> sint c"

lemma uint32_less: "uint (w :: 32 word) < 4294967296"
  using uint_range_size [of w] by (simp add: word_size)

lemma sint_cases:
  fixes w :: "'a::len word"
  shows "sint w = (if uint w < 2 ^ (LENGTH('a) - 1) then uint w else uint w - 2 ^ LENGTH('a))"
proof -
  obtain n where n: "LENGTH('a) = Suc n" using len_not_eq_0 [where 'a = 'a] by (cases "LENGTH('a)") auto
  have b: "0 \<le> uint w" "uint w < 2 ^ Suc n" using uint_range_size [of w] n by (auto simp: word_size)
  have "sint w = (uint w + 2 ^ n) mod 2 ^ Suc n - 2 ^ n"
    by (simp add: sint_uint n signed_take_bit_eq_take_bit_shift take_bit_eq_mod)
  moreover have "(uint w + 2 ^ n) mod 2 ^ Suc n = (if uint w < 2 ^ n then uint w + 2 ^ n else uint w - 2 ^ n)"
  proof (cases "uint w < 2 ^ n")
    case True
    with b show ?thesis by (simp add: mod_pos_pos_trivial)
  next
    case False
    then have "(uint w + 2 ^ n) mod 2 ^ Suc n = (uint w - 2 ^ n + 2 ^ Suc n) mod 2 ^ Suc n"
      by (simp add: add.commute)
    also have "\<dots> = uint w - 2 ^ n" using b False by (simp only: mod_add_self2) (simp add: mod_pos_pos_trivial)
    finally show ?thesis using False by simp
  qed
  ultimately show ?thesis using n by simp
qed

definition ascii :: "string \<Rightarrow> byte list" where
  "ascii s = map of_char s"

text \<open>
  Machine integers: an \<open>uint\<close> is kept modulo \<open>2 ^ 32\<close>; the result of an operation on signed
  integers of \<open>w\<close> bits is undefined when it does not fit.
\<close>

definition u32 :: "int \<Rightarrow> nat" where
  "u32 n = nat (n mod 2 ^ 32)"

definition in_int :: "nat \<Rightarrow> int \<Rightarrow> int option" where
  "in_int w v = (if - (2 ^ (w - 1)) \<le> v \<and> v < 2 ^ (w - 1) then Some v else None)"

text \<open>The division of C, which rounds towards zero, is that of HOL where nothing is negative.\<close>

lemma sdiv_pos: "0 \<le> a \<Longrightarrow> 0 < b \<Longrightarrow> a sdiv b = a div (b :: int)"
  by (cases "a = 0") (simp_all add: signed_divide_int_def)

lemma smod_pos: "0 \<le> a \<Longrightarrow> 0 < b \<Longrightarrow> a smod b = a mod (b :: int)"
  by (cases "a = 0") (simp_all add: signed_modulo_int_def)

end
