(* ===== verification/Unicode.thy ===== *)
theory Unicode
  imports Prelude
begin

section \<open>Width and case of code points\<close>

text \<open>
  \<open>utf8/utf8_width.c\<close> (two tables of intervals searched by bisection) and the code point
  part of \<open>utf8/utf8_case.c\<close>. A code point is a C \<open>int\<close>.
\<close>

subsection \<open>The interval tables\<close>

definition ZERO_WIDTH :: "(int \<times> int) list" where
  "ZERO_WIDTH = [
    (0x300, 0x36f), (0x483, 0x489), (0x591, 0x5bd), (0x5bf, 0x5bf), (0x5c1, 0x5c2), (0x5c4, 0x5c5),
    (0x5c7, 0x5c7), (0x610, 0x61a), (0x64b, 0x65f), (0x670, 0x670), (0x6d6, 0x6dc), (0x6df, 0x6e4),
    (0x6e7, 0x6e8), (0x6ea, 0x6ed), (0x711, 0x711), (0x730, 0x74a), (0x7a6, 0x7b0), (0x7eb, 0x7f3),
    (0x816, 0x819), (0x81b, 0x823), (0x825, 0x827), (0x829, 0x82d), (0x859, 0x85b), (0x8d4, 0x8e1),
    (0x8e3, 0x902), (0x93a, 0x93a), (0x93c, 0x93c), (0x941, 0x948), (0x94d, 0x94d), (0x951, 0x957),
    (0x962, 0x963), (0x981, 0x981), (0x9bc, 0x9bc), (0x9c1, 0x9c4), (0x9cd, 0x9cd), (0x9e2, 0x9e3),
    (0xa01, 0xa02), (0xa3c, 0xa3c), (0xa41, 0xa42), (0xa47, 0xa48), (0xa4b, 0xa4d), (0xa51, 0xa51),
    (0xa70, 0xa71), (0xa75, 0xa75), (0xa81, 0xa82), (0xabc, 0xabc), (0xac1, 0xac5), (0xac7, 0xac8),
    (0xacd, 0xacd), (0xae2, 0xae3), (0xb01, 0xb01), (0xb3c, 0xb3c), (0xb3f, 0xb3f), (0xb41, 0xb44),
    (0xb4d, 0xb4d), (0xb56, 0xb56), (0xb62, 0xb63), (0xb82, 0xb82), (0xbc0, 0xbc0), (0xbcd, 0xbcd),
    (0xc00, 0xc00), (0xc3e, 0xc40), (0xc46, 0xc48), (0xc4a, 0xc4d), (0xc55, 0xc56), (0xc62, 0xc63),
    (0xc81, 0xc81), (0xcbc, 0xcbc), (0xcbf, 0xcbf), (0xcc6, 0xcc6), (0xccc, 0xccd), (0xce2, 0xce3),
    (0xd01, 0xd01), (0xd41, 0xd44), (0xd4d, 0xd4d), (0xd62, 0xd63), (0xdca, 0xdca), (0xdd2, 0xdd4),
    (0xdd6, 0xdd6), (0xe31, 0xe31), (0xe34, 0xe3a), (0xe47, 0xe4e), (0xeb1, 0xeb1), (0xeb4, 0xeb9),
    (0xebb, 0xebc), (0xec8, 0xecd), (0xf18, 0xf19), (0xf35, 0xf35), (0xf37, 0xf37), (0xf39, 0xf39),
    (0xf71, 0xf7e), (0xf80, 0xf84), (0xf86, 0xf87), (0xf8d, 0xf97), (0xf99, 0xfbc), (0xfc6, 0xfc6),
    (0x102d, 0x1030), (0x1032, 0x1037), (0x1039, 0x103a), (0x103d, 0x103e), (0x1058, 0x1059),
    (0x105e, 0x1060), (0x1071, 0x1074), (0x1082, 0x1082), (0x1085, 0x1086), (0x108d, 0x108d),
    (0x109d, 0x109d), (0x135d, 0x135f), (0x1712, 0x1714), (0x1732, 0x1734), (0x1752, 0x1753),
    (0x1772, 0x1773), (0x17b4, 0x17b5), (0x17b7, 0x17bd), (0x17c6, 0x17c6), (0x17c9, 0x17d3),
    (0x17dd, 0x17dd), (0x180b, 0x180d), (0x1885, 0x1886), (0x18a9, 0x18a9), (0x1920, 0x1922),
    (0x1927, 0x1928), (0x1932, 0x1932), (0x1939, 0x193b), (0x1a17, 0x1a18), (0x1a1b, 0x1a1b),
    (0x1a56, 0x1a56), (0x1a58, 0x1a5e), (0x1a60, 0x1a60), (0x1a62, 0x1a62), (0x1a65, 0x1a6c),
    (0x1a73, 0x1a7c), (0x1a7f, 0x1a7f), (0x1ab0, 0x1abe), (0x1b00, 0x1b03), (0x1b34, 0x1b34),
    (0x1b36, 0x1b3a), (0x1b3c, 0x1b3c), (0x1b42, 0x1b42), (0x1b6b, 0x1b73), (0x1b80, 0x1b81),
    (0x1ba2, 0x1ba5), (0x1ba8, 0x1ba9), (0x1bab, 0x1bad), (0x1be6, 0x1be6), (0x1be8, 0x1be9),
    (0x1bed, 0x1bed), (0x1bef, 0x1bf1), (0x1c2c, 0x1c33), (0x1c36, 0x1c37), (0x1cd0, 0x1cd2),
    (0x1cd4, 0x1ce0), (0x1ce2, 0x1ce8), (0x1ced, 0x1ced), (0x1cf4, 0x1cf4), (0x1cf8, 0x1cf9),
    (0x1dc0, 0x1df5), (0x1dfb, 0x1dff), (0x20d0, 0x20f0), (0x2cef, 0x2cf1), (0x2d7f, 0x2d7f),
    (0x2de0, 0x2dff), (0x302a, 0x302d), (0x3099, 0x309a), (0xa66f, 0xa672), (0xa674, 0xa67d),
    (0xa69e, 0xa69f), (0xa6f0, 0xa6f1), (0xa802, 0xa802), (0xa806, 0xa806), (0xa80b, 0xa80b),
    (0xa825, 0xa826), (0xa8c4, 0xa8c5), (0xa8e0, 0xa8f1), (0xa926, 0xa92d), (0xa947, 0xa951),
    (0xa980, 0xa982), (0xa9b3, 0xa9b3), (0xa9b6, 0xa9b9), (0xa9bc, 0xa9bc), (0xa9e5, 0xa9e5),
    (0xaa29, 0xaa2e), (0xaa31, 0xaa32), (0xaa35, 0xaa36), (0xaa43, 0xaa43), (0xaa4c, 0xaa4c),
    (0xaa7c, 0xaa7c), (0xaab0, 0xaab0), (0xaab2, 0xaab4), (0xaab7, 0xaab8), (0xaabe, 0xaabf),
    (0xaac1, 0xaac1), (0xaaec, 0xaaed), (0xaaf6, 0xaaf6), (0xabe5, 0xabe5), (0xabe8, 0xabe8),
    (0xabed, 0xabed), (0xfb1e, 0xfb1e), (0xfe00, 0xfe0f), (0xfe20, 0xfe2f), (0x101fd, 0x101fd),
    (0x102e0, 0x102e0), (0x10376, 0x1037a), (0x10a01, 0x10a03), (0x10a05, 0x10a06),
    (0x10a0c, 0x10a0f), (0x10a38, 0x10a3a), (0x10a3f, 0x10a3f), (0x10ae5, 0x10ae6),
    (0x11001, 0x11001), (0x11038, 0x11046), (0x1107f, 0x11081), (0x110b3, 0x110b6),
    (0x110b9, 0x110ba), (0x11100, 0x11102), (0x11127, 0x1112b), (0x1112d, 0x11134),
    (0x11173, 0x11173), (0x11180, 0x11181), (0x111b6, 0x111be), (0x111ca, 0x111cc),
    (0x1122f, 0x11231), (0x11234, 0x11234), (0x11236, 0x11237), (0x1123e, 0x1123e),
    (0x112df, 0x112df), (0x112e3, 0x112ea), (0x11300, 0x11301), (0x1133c, 0x1133c),
    (0x11340, 0x11340), (0x11366, 0x1136c), (0x11370, 0x11374), (0x11438, 0x1143f),
    (0x11442, 0x11444), (0x11446, 0x11446), (0x114b3, 0x114b8), (0x114ba, 0x114ba),
    (0x114bf, 0x114c0), (0x114c2, 0x114c3), (0x115b2, 0x115b5), (0x115bc, 0x115bd),
    (0x115bf, 0x115c0), (0x115dc, 0x115dd), (0x11633, 0x1163a), (0x1163d, 0x1163d),
    (0x1163f, 0x11640), (0x116ab, 0x116ab), (0x116ad, 0x116ad), (0x116b0, 0x116b5),
    (0x116b7, 0x116b7), (0x1171d, 0x1171f), (0x11722, 0x11725), (0x11727, 0x1172b),
    (0x11c30, 0x11c36), (0x11c38, 0x11c3d), (0x11c3f, 0x11c3f), (0x11c92, 0x11ca7),
    (0x11caa, 0x11cb0), (0x11cb2, 0x11cb3), (0x11cb5, 0x11cb6), (0x16af0, 0x16af4),
    (0x16b30, 0x16b36), (0x16f8f, 0x16f92), (0x1bc9d, 0x1bc9e), (0x1d167, 0x1d169),
    (0x1d17b, 0x1d182), (0x1d185, 0x1d18b), (0x1d1aa, 0x1d1ad), (0x1d242, 0x1d244),
    (0x1da00, 0x1da36), (0x1da3b, 0x1da6c), (0x1da75, 0x1da75), (0x1da84, 0x1da84),
    (0x1da9b, 0x1da9f), (0x1daa1, 0x1daaf), (0x1e000, 0x1e006), (0x1e008, 0x1e018),
    (0x1e01b, 0x1e021), (0x1e023, 0x1e024), (0x1e026, 0x1e02a), (0x1e8d0, 0x1e8d6),
    (0x1e944, 0x1e94a), (0xe0100, 0xe01ef)]"

definition WIDE_EASTASIAN :: "(int \<times> int) list" where
  "WIDE_EASTASIAN = [
    (0x1100, 0x115f), (0x231a, 0x231b), (0x2329, 0x232a), (0x23e9, 0x23ec), (0x23f0, 0x23f0),
    (0x23f3, 0x23f3), (0x25fd, 0x25fe), (0x2614, 0x2615), (0x2648, 0x2653), (0x267f, 0x267f),
    (0x2693, 0x2693), (0x26a1, 0x26a1), (0x26aa, 0x26ab), (0x26bd, 0x26be), (0x26c4, 0x26c5),
    (0x26ce, 0x26ce), (0x26d4, 0x26d4), (0x26ea, 0x26ea), (0x26f2, 0x26f3), (0x26f5, 0x26f5),
    (0x26fa, 0x26fa), (0x26fd, 0x26fd), (0x2705, 0x2705), (0x270a, 0x270b), (0x2728, 0x2728),
    (0x274c, 0x274c), (0x274e, 0x274e), (0x2753, 0x2755), (0x2757, 0x2757), (0x2795, 0x2797),
    (0x27b0, 0x27b0), (0x27bf, 0x27bf), (0x2b1b, 0x2b1c), (0x2b50, 0x2b50), (0x2b55, 0x2b55),
    (0x2e80, 0x2e99), (0x2e9b, 0x2ef3), (0x2f00, 0x2fd5), (0x2ff0, 0x2ffb), (0x3000, 0x303e),
    (0x3041, 0x3096), (0x3099, 0x30ff), (0x3105, 0x312d), (0x3131, 0x318e), (0x3190, 0x31ba),
    (0x31c0, 0x31e3), (0x31f0, 0x321e), (0x3220, 0x3247), (0x3250, 0x32fe), (0x3300, 0x4dbf),
    (0x4e00, 0xa48c), (0xa490, 0xa4c6), (0xa960, 0xa97c), (0xac00, 0xd7a3), (0xf900, 0xfaff),
    (0xfe10, 0xfe19), (0xfe30, 0xfe52), (0xfe54, 0xfe66), (0xfe68, 0xfe6b), (0xff01, 0xff60),
    (0xffe0, 0xffe6), (0x16fe0, 0x16fe0), (0x17000, 0x187ec), (0x18800, 0x18af2),
    (0x1b000, 0x1b001), (0x1f004, 0x1f004), (0x1f0cf, 0x1f0cf), (0x1f18e, 0x1f18e),
    (0x1f191, 0x1f19a), (0x1f200, 0x1f202), (0x1f210, 0x1f23b), (0x1f240, 0x1f248),
    (0x1f250, 0x1f251), (0x1f300, 0x1f320), (0x1f32d, 0x1f335), (0x1f337, 0x1f37c),
    (0x1f37e, 0x1f393), (0x1f3a0, 0x1f3ca), (0x1f3cf, 0x1f3d3), (0x1f3e0, 0x1f3f0),
    (0x1f3f4, 0x1f3f4), (0x1f3f8, 0x1f43e), (0x1f440, 0x1f440), (0x1f442, 0x1f4fc),
    (0x1f4ff, 0x1f53d), (0x1f54b, 0x1f54e), (0x1f550, 0x1f567), (0x1f57a, 0x1f57a),
    (0x1f595, 0x1f596), (0x1f5a4, 0x1f5a4), (0x1f5fb, 0x1f64f), (0x1f680, 0x1f6c5),
    (0x1f6cc, 0x1f6cc), (0x1f6d0, 0x1f6d2), (0x1f6eb, 0x1f6ec), (0x1f6f4, 0x1f6f6),
    (0x1f910, 0x1f91e), (0x1f920, 0x1f927), (0x1f930, 0x1f930), (0x1f933, 0x1f93e),
    (0x1f940, 0x1f94b), (0x1f950, 0x1f95e), (0x1f980, 0x1f991), (0x1f9c0, 0x1f9c0),
    (0x20000, 0x2fffd), (0x30000, 0x3fffd)]"

text \<open>The bisection of \<open>intable\<close>; the bounds are \<open>int\<close>s because \<open>top\<close> may become -1.\<close>

function intable_loop :: "(int \<times> int) list \<Rightarrow> int \<Rightarrow> int \<Rightarrow> int \<Rightarrow> bool" where
  "intable_loop table c bt tp =
     (if tp \<ge> bt
      then (let mid = (bt + tp) div 2 in
            if snd (table ! nat mid) < c then intable_loop table c (mid + 1) tp
            else if fst (table ! nat mid) > c then intable_loop table c bt (mid - 1)
            else True)
      else False)"
  by pat_completeness auto
termination
  by (relation "measure (\<lambda>(table, c, bt, tp). nat (tp - bt + 1))") auto

declare intable_loop.simps [simp del]

definition intable :: "(int \<times> int) list \<Rightarrow> nat \<Rightarrow> int \<Rightarrow> bool" where
  "intable table table_length c =
     (if c < fst (table ! 0) then False
      else intable_loop table c 0 (int table_length - 1))"

definition utf8_char_width :: "int \<Rightarrow> int" where
  "utf8_char_width c =
     (if c = 0 \<or> c = 0x034F \<or> 0x200B \<le> c \<and> c \<le> 0x200F \<or> c = 0x2028 \<or> c = 0x2029 \<or>
         0x202A \<le> c \<and> c \<le> 0x202E \<or> 0x2060 \<le> c \<and> c \<le> 0x2063 then 0
      else if 0x07F \<le> c \<and> c < 0x0A0 then 0
      else if intable ZERO_WIDTH (length ZERO_WIDTH) c then 0
      else if intable WIDE_EASTASIAN (length WIDE_EASTASIAN) c then 2 else 1)"

subsection \<open>Case\<close>

definition lower_switch :: "(int \<times> int) list" where
  "lower_switch = [
    (0x178, 0xff), (0x243, 0x180), (0x18e, 0x1dd), (0x23d, 0x19a), (0x220, 0x19e), (0x1b7, 0x292),
    (0x1c4, 0x1c6), (0x1c7, 0x1c9), (0x1ca, 0x1cc), (0x1f1, 0x1f3), (0x1f7, 0x1bf), (0x187, 0x188),
    (0x18b, 0x18c), (0x191, 0x192), (0x198, 0x199), (0x1a7, 0x1a8), (0x1ac, 0x1ad), (0x1af, 0x1b0),
    (0x1b8, 0x1b9), (0x1bc, 0x1bd), (0x1f4, 0x1f5), (0x23b, 0x23c), (0x241, 0x242), (0x3fd, 0x37b),
    (0x3fe, 0x37c), (0x3ff, 0x37d), (0x37f, 0x3f3), (0x386, 0x3ac), (0x388, 0x3ad), (0x389, 0x3ae),
    (0x38a, 0x3af), (0x38c, 0x3cc), (0x38e, 0x3cd), (0x38f, 0x3ce), (0x370, 0x371), (0x372, 0x373),
    (0x376, 0x377), (0x3f4, 0x3d1), (0x3cf, 0x3d7), (0x3f9, 0x3f2), (0x3f7, 0x3f8), (0x3fa, 0x3fb)]"

definition utf8_to_lower :: "int \<Rightarrow> int" where
  "utf8_to_lower cp =
    (if
      0x41 \<le> cp \<and> 0x5a \<ge> cp \<or> 0xc0 \<le> cp \<and> 0xd6 \<ge> cp \<or> 0xd8 \<le> cp \<and> 0xde \<ge> cp \<or>
      0x391 \<le> cp \<and> 0x3a1 \<ge> cp \<or> 0x3a3 \<le> cp \<and> 0x3ab \<ge> cp
     then cp + 32
     else if
      0x100 \<le> cp \<and> 0x12f \<ge> cp \<or> 0x132 \<le> cp \<and> 0x137 \<ge> cp \<or> 0x14a \<le> cp \<and> 0x177 \<ge> cp \<or>
      0x182 \<le> cp \<and> 0x185 \<ge> cp \<or> 0x1a0 \<le> cp \<and> 0x1a5 \<ge> cp \<or> 0x1de \<le> cp \<and> 0x1ef \<ge> cp \<or>
      0x1f8 \<le> cp \<and> 0x21f \<ge> cp \<or> 0x222 \<le> cp \<and> 0x233 \<ge> cp \<or> 0x246 \<le> cp \<and> 0x24f \<ge> cp \<or>
      0x3d8 \<le> cp \<and> 0x3ef \<ge> cp
     then cp OR 1
     else if
      0x139 \<le> cp \<and> 0x148 \<ge> cp \<or> 0x179 \<le> cp \<and> 0x17e \<ge> cp \<or> 0x1af \<le> cp \<and> 0x1b0 \<ge> cp \<or>
      0x1b3 \<le> cp \<and> 0x1b6 \<ge> cp \<or> 0x1cd \<le> cp \<and> 0x1dc \<ge> cp
     then (cp + 1) AND NOT 1
     else (case map_of lower_switch cp of None \<Rightarrow> cp | Some cp' \<Rightarrow> cp'))"

definition upper_switch :: "(int \<times> int) list" where
  "upper_switch = [
    (0xff, 0x178), (0x180, 0x243), (0x1dd, 0x18e), (0x19a, 0x23d), (0x19e, 0x220), (0x292, 0x1b7),
    (0x1c6, 0x1c4), (0x1c9, 0x1c7), (0x1cc, 0x1ca), (0x1f3, 0x1f1), (0x1bf, 0x1f7), (0x188, 0x187),
    (0x18c, 0x18b), (0x192, 0x191), (0x199, 0x198), (0x1a8, 0x1a7), (0x1ad, 0x1ac), (0x1b0, 0x1af),
    (0x1b9, 0x1b8), (0x1bd, 0x1bc), (0x1f5, 0x1f4), (0x23c, 0x23b), (0x242, 0x241), (0x37b, 0x3fd),
    (0x37c, 0x3fe), (0x37d, 0x3ff), (0x3f3, 0x37f), (0x3ac, 0x386), (0x3ad, 0x388), (0x3ae, 0x389),
    (0x3af, 0x38a), (0x3cc, 0x38c), (0x3cd, 0x38e), (0x3ce, 0x38f), (0x371, 0x370), (0x373, 0x372),
    (0x377, 0x376), (0x3d1, 0x3f4), (0x3d7, 0x3cf), (0x3f2, 0x3f9), (0x3f8, 0x3f7), (0x3fb, 0x3fa)]"

definition utf8_to_upper :: "int \<Rightarrow> int" where
  "utf8_to_upper cp =
    (if
      0x61 \<le> cp \<and> 0x7a \<ge> cp \<or> 0xe0 \<le> cp \<and> 0xf6 \<ge> cp \<or> 0xf8 \<le> cp \<and> 0xfe \<ge> cp \<or>
      0x3b1 \<le> cp \<and> 0x3c1 \<ge> cp \<or> 0x3c3 \<le> cp \<and> 0x3cb \<ge> cp
     then cp - 32
     else if
      0x100 \<le> cp \<and> 0x12f \<ge> cp \<or> 0x132 \<le> cp \<and> 0x137 \<ge> cp \<or> 0x14a \<le> cp \<and> 0x177 \<ge> cp \<or>
      0x182 \<le> cp \<and> 0x185 \<ge> cp \<or> 0x1a0 \<le> cp \<and> 0x1a5 \<ge> cp \<or> 0x1de \<le> cp \<and> 0x1ef \<ge> cp \<or>
      0x1f8 \<le> cp \<and> 0x21f \<ge> cp \<or> 0x222 \<le> cp \<and> 0x233 \<ge> cp \<or> 0x246 \<le> cp \<and> 0x24f \<ge> cp \<or>
      0x3d8 \<le> cp \<and> 0x3ef \<ge> cp
     then cp AND NOT 1
     else if
      0x139 \<le> cp \<and> 0x148 \<ge> cp \<or> 0x179 \<le> cp \<and> 0x17e \<ge> cp \<or> 0x1af \<le> cp \<and> 0x1b0 \<ge> cp \<or>
      0x1b3 \<le> cp \<and> 0x1b6 \<ge> cp \<or> 0x1cd \<le> cp \<and> 0x1dc \<ge> cp
     then (cp - 1) OR 1
     else (case map_of upper_switch cp of None \<Rightarrow> cp | Some cp' \<Rightarrow> cp'))"

definition utf8_is_lower :: "int \<Rightarrow> bool" where
  "utf8_is_lower chr \<longleftrightarrow> chr \<noteq> utf8_to_upper chr"

definition utf8_is_upper :: "int \<Rightarrow> bool" where
  "utf8_is_upper chr \<longleftrightarrow> chr \<noteq> utf8_to_lower chr"

subsection \<open>The bisection is a membership test\<close>

definition in_intervals :: "(int \<times> int) list \<Rightarrow> int \<Rightarrow> bool" where
  "in_intervals table c \<longleftrightarrow> (\<exists>(a, b) \<in> set table. a \<le> c \<and> c \<le> b)"

text \<open>Intervals in order, without overlap.\<close>

fun ordered :: "(int \<times> int) list \<Rightarrow> bool" where
  "ordered [] = True"
| "ordered [(a, b)] = (a \<le> b)"
| "ordered ((a, b) # (c, d) # t) = (a \<le> b \<and> b < c \<and> ordered ((c, d) # t))"

lemma ordered_tail: "ordered (x # t) \<Longrightarrow> ordered t"
  by (cases x; cases t) auto

lemma ordered_le: "ordered ((a, b) # t) \<Longrightarrow> a \<le> b"
  by (cases t) auto

lemma ordered_head: "ordered ((a, b) # t) \<Longrightarrow> (c, d) \<in> set t \<Longrightarrow> b < c \<and> c \<le> d"
proof (induction t arbitrary: a b)
  case (Cons x t)
  obtain a' b' where x: "x = (a', b')" by (cases x)
  then have h: "b < a'" "ordered ((a', b') # t)" using Cons.prems(1) by auto
  then have "a' \<le> b'" using ordered_le by blast
  then show ?case using Cons.IH [OF h(2)] Cons.prems(2) x h by fastforce
qed simp

lemma ordered_nth:
  "ordered table \<Longrightarrow> i < j \<Longrightarrow> j < length table \<Longrightarrow> snd (table ! i) < fst (table ! j)"
proof (induction table arbitrary: i j)
  case (Cons x t)
  obtain a b where x: "x = (a, b)" by (cases x)
  show ?case
  proof (cases i)
    case 0
    then have "table' = t \<Longrightarrow> table' ! (j - 1) \<in> set t" for table' using Cons.prems by auto
    moreover have "(x # t) ! j = t ! (j - 1)" using Cons.prems 0 by (cases j) auto
    ultimately show ?thesis
      using ordered_head [of a b t "fst (t ! (j - 1))" "snd (t ! (j - 1))"] Cons.prems(1) x 0 by simp
  next
    case (Suc i')
    then obtain j' where "j = Suc j'" using Cons.prems(2) by (cases j) auto
    then show ?thesis using Cons.IH [of i' j'] Cons.prems ordered_tail [of x t] Suc by simp
  qed
qed simp

lemma ordered_pair: "ordered table \<Longrightarrow> i < length table \<Longrightarrow> fst (table ! i) \<le> snd (table ! i)"
proof (induction table arbitrary: i)
  case (Cons x t)
  then show ?case using ordered_tail [of x t] ordered_le [of "fst x" "snd x" t] by (cases i) auto
qed simp

lemma intable_loop_iff:
  assumes "ordered table" "0 \<le> bt" "tp < int (length table)"
    "\<And>i. i < length table \<Longrightarrow> int i < bt \<Longrightarrow> snd (table ! i) < c"
    "\<And>i. i < length table \<Longrightarrow> tp < int i \<Longrightarrow> c < fst (table ! i)"
  shows "intable_loop table c bt tp \<longleftrightarrow> (\<exists>i < length table. fst (table ! i) \<le> c \<and> c \<le> snd (table ! i))"
  using assms
proof (induction table c bt tp rule: intable_loop.induct)
  case (1 table c bt tp)
  show ?case
  proof (cases "tp \<ge> bt")
    case False
    have "\<not> (fst (table ! i) \<le> c \<and> c \<le> snd (table ! i))" if "i < length table" for i
      using "1.prems"(4) [OF that] "1.prems"(5) [OF that] False by (cases "int i < bt") auto
    then show ?thesis using False by (subst intable_loop.simps) auto
  next
    case True
    define mid where "mid = (bt + tp) div 2"
    have mid: "0 \<le> mid" "bt \<le> mid" "mid \<le> tp" "nat mid < length table"
      using True "1.prems"(2,3) by (auto simp: mid_def)
    let ?m = "table ! nat mid"
    consider "snd ?m < c" | "\<not> snd ?m < c" "fst ?m > c" | "fst ?m \<le> c" "c \<le> snd ?m" by linarith
    then show ?thesis
    proof cases
      case 1
      have "intable_loop table c (mid + 1) tp \<longleftrightarrow> (\<exists>i < length table. fst (table ! i) \<le> c \<and> c \<le> snd (table ! i))"
      proof (rule "1.IH"(1) [OF True mid_def])
        show "snd ?m < c" by fact
        fix i assume i: "i < length table" "int i < mid + 1"
        show "snd (table ! i) < c"
        proof (cases "i = nat mid")
          case False
          then have "i < nat mid" using i by linarith
          then show ?thesis
            using ordered_nth [OF "1.prems"(1), of i "nat mid"] ordered_pair [OF "1.prems"(1) mid(4)] mid(4) 1 by simp
        qed (use 1 in simp)
      qed (use "1.prems" mid in auto)
      then show ?thesis using True 1 by (subst intable_loop.simps) (simp add: mid_def [symmetric] Let_def)
    next
      case 2
      have "intable_loop table c bt (mid - 1) \<longleftrightarrow> (\<exists>i < length table. fst (table ! i) \<le> c \<and> c \<le> snd (table ! i))"
      proof (rule "1.IH"(2) [OF True mid_def])
        show "\<not> snd ?m < c" "c < fst ?m" by fact+
        fix i assume i: "i < length table" "mid - 1 < int i"
        show "c < fst (table ! i)"
        proof (cases "i = nat mid")
          case False
          then have "nat mid < i" using i mid(1) by linarith
          then show ?thesis
            using ordered_nth [OF "1.prems"(1), of "nat mid" i] ordered_pair [OF "1.prems"(1) mid(4)] i 2 by simp
        qed (use 2 in simp)
      qed (use "1.prems" mid in auto)
      then show ?thesis using True 2 by (subst intable_loop.simps) (simp add: mid_def [symmetric] Let_def)
    next
      case 3
      then have "intable_loop table c bt tp" using True
        by (subst intable_loop.simps) (simp add: mid_def [symmetric] Let_def)
      then show ?thesis using 3 mid(4) by blast
    qed
  qed
qed

lemma intable_iff:
  assumes "ordered table" "table \<noteq> []"
  shows "intable table (length table) c \<longleftrightarrow> in_intervals table c"
proof -
  have e: "in_intervals table c \<longleftrightarrow> (\<exists>i < length table. fst (table ! i) \<le> c \<and> c \<le> snd (table ! i))"
    by (auto simp: in_intervals_def set_conv_nth split: prod.splits) (metis fst_conv snd_conv surj_pair)+
  show ?thesis
  proof (cases "c < fst (table ! 0)")
    case True
    have "c < fst (table ! i)" if "i < length table" for i
      using ordered_nth [OF assms(1), of 0 i] ordered_pair [OF assms(1), of 0] that True by (cases i) force+
    then have "\<not> (\<exists>i < length table. fst (table ! i) \<le> c \<and> c \<le> snd (table ! i))" by (meson not_less)
    then show ?thesis using True e by (simp add: intable_def)
  next
    case False
    then show ?thesis using e intable_loop_iff [OF assms(1), of 0 "int (length table) - 1" c]
      by (simp add: intable_def)
  qed
qed

lemma ordered_tables: "ordered ZERO_WIDTH" "ordered WIDE_EASTASIAN"
  by (simp_all add: ZERO_WIDTH_def WIDE_EASTASIAN_def)

lemma tables_nonempty: "ZERO_WIDTH \<noteq> []" "WIDE_EASTASIAN \<noteq> []"
  by (simp_all add: ZERO_WIDTH_def WIDE_EASTASIAN_def)

lemmas intable_tables = intable_iff [OF ordered_tables(1) tables_nonempty(1)]
  intable_iff [OF ordered_tables(2) tables_nonempty(2)]

subsection \<open>Case mapping on the code points it changes\<close>

text \<open>The ranges of the two functions: the ones shifted by 32, and the alternating ones that both share.\<close>

definition upper_run :: "int \<Rightarrow> bool" where
  "upper_run cp \<longleftrightarrow>
     0x41 \<le> cp \<and> 0x5a \<ge> cp \<or> 0xc0 \<le> cp \<and> 0xd6 \<ge> cp \<or> 0xd8 \<le> cp \<and> 0xde \<ge> cp \<or>
     0x391 \<le> cp \<and> 0x3a1 \<ge> cp \<or> 0x3a3 \<le> cp \<and> 0x3ab \<ge> cp"

definition lower_run :: "int \<Rightarrow> bool" where
  "lower_run cp \<longleftrightarrow>
     0x61 \<le> cp \<and> 0x7a \<ge> cp \<or> 0xe0 \<le> cp \<and> 0xf6 \<ge> cp \<or> 0xf8 \<le> cp \<and> 0xfe \<ge> cp \<or>
     0x3b1 \<le> cp \<and> 0x3c1 \<ge> cp \<or> 0x3c3 \<le> cp \<and> 0x3cb \<ge> cp"

definition even_pairs :: "int \<Rightarrow> bool" where
  "even_pairs cp \<longleftrightarrow>
     0x100 \<le> cp \<and> 0x12f \<ge> cp \<or> 0x132 \<le> cp \<and> 0x137 \<ge> cp \<or> 0x14a \<le> cp \<and> 0x177 \<ge> cp \<or>
     0x182 \<le> cp \<and> 0x185 \<ge> cp \<or> 0x1a0 \<le> cp \<and> 0x1a5 \<ge> cp \<or> 0x1de \<le> cp \<and> 0x1ef \<ge> cp \<or>
     0x1f8 \<le> cp \<and> 0x21f \<ge> cp \<or> 0x222 \<le> cp \<and> 0x233 \<ge> cp \<or> 0x246 \<le> cp \<and> 0x24f \<ge> cp \<or>
     0x3d8 \<le> cp \<and> 0x3ef \<ge> cp"

definition odd_pairs :: "int \<Rightarrow> bool" where
  "odd_pairs cp \<longleftrightarrow>
     0x139 \<le> cp \<and> 0x148 \<ge> cp \<or> 0x179 \<le> cp \<and> 0x17e \<ge> cp \<or> 0x1af \<le> cp \<and> 0x1b0 \<ge> cp \<or>
     0x1b3 \<le> cp \<and> 0x1b6 \<ge> cp \<or> 0x1cd \<le> cp \<and> 0x1dc \<ge> cp"

lemmas run_defs = upper_run_def lower_run_def even_pairs_def odd_pairs_def

lemma to_lower_cases:
  "utf8_to_lower cp = (if upper_run cp then cp + 32 else if even_pairs cp then cp OR 1
     else if odd_pairs cp then (cp + 1) AND NOT 1
     else (case map_of lower_switch cp of None \<Rightarrow> cp | Some cp' \<Rightarrow> cp'))"
  unfolding utf8_to_lower_def upper_run_def even_pairs_def odd_pairs_def ..

lemma to_upper_cases:
  "utf8_to_upper cp = (if lower_run cp then cp - 32 else if even_pairs cp then cp AND NOT 1
     else if odd_pairs cp then (cp - 1) OR 1
     else (case map_of upper_switch cp of None \<Rightarrow> cp | Some cp' \<Rightarrow> cp'))"
  unfolding utf8_to_upper_def lower_run_def even_pairs_def odd_pairs_def ..

lemma or_1: "(c :: int) OR 1 = (if even c then c + 1 else c)"
  by (auto simp: or_one_eq)

lemma and_not_1: "(c :: int) AND - 2 = (if even c then c else c - 1)"
proof -
  have "c AND NOT 1 = 2 * (c div 2)"
    by (rule bit_eqI) (auto simp: bit_simps bit_double_iff simp flip: bit_Suc gr0_conv_Suc)
  moreover have "2 * (c div 2) = (if even c then c else c - 1)" by presburger
  ultimately show ?thesis by simp
qed

lemma run_shift: "upper_run c \<Longrightarrow> lower_run (c + 32)" "lower_run c \<Longrightarrow> upper_run (c - 32)"
  "upper_run c \<Longrightarrow> \<not> lower_run c" "upper_run c \<Longrightarrow> \<not> even_pairs c \<and> \<not> odd_pairs c"
  "lower_run c \<Longrightarrow> \<not> even_pairs c \<and> \<not> odd_pairs c"
  by (auto simp: run_defs)

lemma even_pairs_step:
  shows "even_pairs c \<Longrightarrow> even c \<Longrightarrow> even_pairs (c + 1)" and "even_pairs c \<Longrightarrow> odd c \<Longrightarrow> even_pairs (c - 1)"
  unfolding even_pairs_def by (smt (verit) evenE, smt (verit) oddE)

lemma even_pairs_only: "even_pairs c \<Longrightarrow> \<not> upper_run c \<and> \<not> lower_run c \<and> \<not> odd_pairs c \<and> 0x80 \<le> c \<and> c < 0x7ff"
  by (auto simp: run_defs)

lemma odd_pairs_step:
  shows "odd_pairs c \<Longrightarrow> odd c \<Longrightarrow> odd_pairs (c + 1)" and "odd_pairs c \<Longrightarrow> even c \<Longrightarrow> odd_pairs (c - 1)"
  unfolding odd_pairs_def by (smt (verit) oddE, smt (verit) evenE)

lemma odd_pairs_only: "odd_pairs c \<Longrightarrow> \<not> upper_run c \<and> \<not> lower_run c \<and> \<not> even_pairs c \<and> 0x81 \<le> c \<and> c < 0x7ff"
  by (auto simp: run_defs)

definition plain :: "int \<Rightarrow> bool" where
  "plain c \<longleftrightarrow> \<not> upper_run c \<and> \<not> lower_run c \<and> \<not> even_pairs c \<and> \<not> odd_pairs c"

definition switch_ok :: "(int \<times> int) list \<Rightarrow> (int \<times> int) list \<Rightarrow> int \<times> int \<Rightarrow> bool" where
  "switch_ok here there p \<longleftrightarrow> (case p of (a, b) \<Rightarrow> odd_pairs a \<or>
     plain a \<and> plain b \<and> map_of there b = Some a \<and> map_of here b = None \<and> 0x80 \<le> a \<and> 0x80 \<le> b \<and> b < 0x800)"

lemma switches_ok:
  "list_all (switch_ok lower_switch upper_switch) lower_switch"
  "list_all (switch_ok upper_switch lower_switch) upper_switch"
  unfolding switch_ok_def plain_def run_defs lower_switch_def upper_switch_def by simp_all

lemma switch_okD:
  "map_of lower_switch a = Some b \<Longrightarrow> switch_ok lower_switch upper_switch (a, b)"
  "map_of upper_switch a = Some b \<Longrightarrow> switch_ok upper_switch lower_switch (a, b)"
  using switches_ok by (auto simp: list_all_iff dest!: map_of_SomeD)

lemma lower_kind:
  assumes "utf8_to_lower c \<noteq> c"
  shows "utf8_to_upper (utf8_to_lower c) = c \<and> utf8_to_lower (utf8_to_lower c) = utf8_to_lower c \<and>
    (c < 0x80 \<longleftrightarrow> utf8_to_lower c < 0x80) \<and> 0 < utf8_to_lower c \<and> utf8_to_lower c < 0x800 \<and> 0 < c \<and> c < 0x800"
proof -
  consider "upper_run c" | "even_pairs c" | "odd_pairs c" | b where "map_of lower_switch c = Some b" "utf8_to_lower c = b"
      "\<not> upper_run c" "\<not> even_pairs c" "\<not> odd_pairs c"
    using assms by (auto simp: to_lower_cases [of c] split: if_splits option.splits)
  then show ?thesis
  proof cases
    case 1
    then have r: "lower_run (c + 32)" "\<not> upper_run (c + 32)" "\<not> even_pairs (c + 32)" "\<not> odd_pairs (c + 32)"
      using run_shift by blast+
    have "map_of lower_switch (c + 32) = None" using switch_okD(1) [of "c + 32"] r
      by (cases "map_of lower_switch (c + 32)") (auto simp: switch_ok_def plain_def)
    moreover have "c < 0x80 \<longleftrightarrow> c + 32 < 0x80" "0 < c" "c < 0x700" using 1 by (auto simp: upper_run_def)
    ultimately show ?thesis using 1 r by (simp add: to_lower_cases to_upper_cases)
  next
    case 2
    have e: "even c" using assms 2 even_pairs_only [OF 2] by (auto simp: to_lower_cases or_1 split: if_splits)
    have n: "even_pairs (c + 1)" using even_pairs_step(1) [OF 2 e] .
    show ?thesis using 2 n e even_pairs_only [OF 2] even_pairs_only [OF n]
      by (simp add: to_lower_cases to_upper_cases or_1 and_not_1)
  next
    case 3
    have e: "odd c" using assms 3 odd_pairs_only [OF 3] by (auto simp: to_lower_cases and_not_1 split: if_splits)
    have n: "odd_pairs (c + 1)" using odd_pairs_step(1) [OF 3 e] .
    show ?thesis using 3 n e odd_pairs_only [OF 3] odd_pairs_only [OF n]
      by (simp add: to_lower_cases to_upper_cases or_1 and_not_1)
  next
    case 4
    have "switch_ok lower_switch upper_switch (c, b)" using 4(1) by (rule switch_okD)
    then have "plain c" "plain b" "map_of upper_switch b = Some c" "map_of lower_switch b = None" "0x80 \<le> c" "0x80 \<le> b" "b < 0x800"
      using 4 by (auto simp: switch_ok_def)
    moreover from this have "switch_ok upper_switch lower_switch (b, c)" by (intro switch_okD)
    ultimately show ?thesis using 4 by (auto simp: to_lower_cases [of b] to_upper_cases [of b] plain_def switch_ok_def)
  qed
qed

lemma upper_kind:
  assumes "utf8_to_upper c \<noteq> c"
  shows "utf8_to_lower (utf8_to_upper c) = c \<and> utf8_to_upper (utf8_to_upper c) = utf8_to_upper c \<and>
    (c < 0x80 \<longleftrightarrow> utf8_to_upper c < 0x80) \<and> 0 < utf8_to_upper c \<and> utf8_to_upper c < 0x800 \<and> 0 < c \<and> c < 0x800"
proof -
  consider "lower_run c" | "even_pairs c" | "odd_pairs c" | b where "map_of upper_switch c = Some b" "utf8_to_upper c = b"
      "\<not> lower_run c" "\<not> even_pairs c" "\<not> odd_pairs c"
    using assms by (auto simp: to_upper_cases [of c] split: if_splits option.splits)
  then show ?thesis
  proof cases
    case 1
    then have r: "upper_run (c - 32)" "\<not> lower_run (c - 32)" "\<not> even_pairs (c - 32)" "\<not> odd_pairs (c - 32)"
      using run_shift by blast+
    have "map_of upper_switch (c - 32) = None" using switch_okD(2) [of "c - 32"] r
      by (cases "map_of upper_switch (c - 32)") (auto simp: switch_ok_def plain_def)
    moreover have "c < 0x80 \<longleftrightarrow> c - 32 < 0x80" "32 < c" "c < 0x700" using 1 by (auto simp: lower_run_def)
    ultimately show ?thesis using 1 r by (simp add: to_lower_cases to_upper_cases)
  next
    case 2
    have e: "odd c" using assms 2 even_pairs_only [OF 2] by (auto simp: to_upper_cases and_not_1 split: if_splits)
    have n: "even_pairs (c - 1)" using even_pairs_step(2) [OF 2 e] .
    show ?thesis using 2 n e even_pairs_only [OF 2] even_pairs_only [OF n]
      by (simp add: to_lower_cases to_upper_cases or_1 and_not_1)
  next
    case 3
    have e: "even c" using assms 3 odd_pairs_only [OF 3] by (auto simp: to_upper_cases or_1 split: if_splits)
    have n: "odd_pairs (c - 1)" using odd_pairs_step(2) [OF 3 e] .
    show ?thesis using 3 n e odd_pairs_only [OF 3] odd_pairs_only [OF n]
      by (simp add: to_lower_cases to_upper_cases or_1 and_not_1)
  next
    case 4
    have "switch_ok upper_switch lower_switch (c, b)" using 4(1) by (rule switch_okD)
    then have "plain c" "plain b" "map_of lower_switch b = Some c" "map_of upper_switch b = None" "0x80 \<le> c" "0x80 \<le> b" "b < 0x800"
      using 4 by (auto simp: switch_ok_def)
    moreover from this have "switch_ok lower_switch upper_switch (b, c)" by (intro switch_okD)
    ultimately show ?thesis using 4 by (auto simp: to_lower_cases [of b] to_upper_cases [of b] plain_def switch_ok_def)
  qed
qed
subsection \<open>Properties\<close>

text \<open>Property C20. The bisection of \<open>intable\<close> decides membership of a code point in the
  intervals of the two width tables, so \<open>utf8_char_width\<close> is 2 exactly for the wide code
  points that are neither of zero width nor control characters.\<close>

theorem utf8_char_width_wide:
  "utf8_char_width c \<in> {0, 1, 2} \<and>
   (utf8_char_width c = 2 \<longleftrightarrow>
     in_intervals WIDE_EASTASIAN c \<and> \<not> in_intervals ZERO_WIDTH c \<and>
     \<not> (c = 0 \<or> c = 0x034F \<or> 0x200B \<le> c \<and> c \<le> 0x200F \<or> 0x2028 \<le> c \<and> c \<le> 0x202E \<or>
        0x2060 \<le> c \<and> c \<le> 0x2063 \<or> 0x7F \<le> c \<and> c < 0xA0))"
proof -
  define z where "z \<longleftrightarrow> c = 0 \<or> c = 0x034F \<or> 0x200B \<le> c \<and> c \<le> 0x200F \<or> 0x2028 \<le> c \<and> c \<le> 0x202E \<or>
    0x2060 \<le> c \<and> c \<le> 0x2063 \<or> 0x7F \<le> c \<and> c < 0xA0"
  define a where "a \<longleftrightarrow> c = 0 \<or> c = 0x034F \<or> 0x200B \<le> c \<and> c \<le> 0x200F \<or> c = 0x2028 \<or> c = 0x2029 \<or>
    0x202A \<le> c \<and> c \<le> 0x202E \<or> 0x2060 \<le> c \<and> c \<le> 0x2063"
  define b where "b \<longleftrightarrow> 0x07F \<le> c \<and> c < 0x0A0"
  have r: "0x2028 \<le> c \<and> c \<le> 0x202E \<longleftrightarrow> c = 0x2028 \<or> c = 0x2029 \<or> 0x202A \<le> c \<and> c \<le> 0x202E" by auto
  have z: "z \<longleftrightarrow> a \<or> b" unfolding z_def a_def b_def r by (simp only: disj_assoc)
  have "utf8_char_width c = (if a then 0 else if b then 0 else if in_intervals ZERO_WIDTH c then 0
      else if in_intervals WIDE_EASTASIAN c then 2 else 1)"
    unfolding a_def b_def utf8_char_width_def intable_tables ..
  then have "utf8_char_width c = (if z then 0 else if in_intervals ZERO_WIDTH c then 0
      else if in_intervals WIDE_EASTASIAN c then 2 else 1)"
    by (simp add: z)
  then show ?thesis unfolding z_def [symmetric] by simp
qed

end
