(* ===== verification/Cstrings.thy ===== *)
theory Cstrings
  imports Prelude
begin

section \<open>The string routines of the C library\<close>

text \<open>
  The functions of \<open>y/pkg/libc/libc/string\<close> on NUL-terminated strings and raw
  memory: one definition per C function, loops as recursive functions over the moving
  pointer. Sizes (\<open>size_t\<close>) are \<open>nat\<close>; where the C subtracts one from a size that
  may be zero the wrap-around is written out (\<open>size_pred\<close>).
\<close>

definition size_pred :: "nat \<Rightarrow> nat" where
  "size_pred n = (if n = 0 then 2 ^ 64 - 1 else n - 1)"

fun pdec :: "ptr \<Rightarrow> ptr" where
  "pdec (Ptr b (Suc i)) = Ptr b i"
| "pdec p = Null"

fun pdiff :: "ptr \<Rightarrow> ptr \<Rightarrow> nat" where
  "pdiff (Ptr b j) (Ptr b' i) = j - i"
| "pdiff p q = 0"

subsection \<open>Length and search\<close>

function bytelen_loop :: "mem \<Rightarrow> ptr \<Rightarrow> ptr \<Rightarrow> nat option" where
  "bytelen_loop m str sp =
     (case rd m sp of None \<Rightarrow> None
      | Some c \<Rightarrow> if c \<noteq> 0 then bytelen_loop m str (padd sp 1) else Some (pdiff sp str))"
  by pat_completeness auto
termination
  by (relation "measure (\<lambda>(m, str, sp). room m sp)") (auto simp: rd_SomeD)

definition bytelen :: "mem \<Rightarrow> ptr \<Rightarrow> nat option" where
  "bytelen m str = bytelen_loop m str str"

function str_chr :: "mem \<Rightarrow> ptr \<Rightarrow> int \<Rightarrow> ptr option" where
  "str_chr m sp c =
     (case rd m sp of None \<Rightarrow> None
      | Some x \<Rightarrow> if schar x \<noteq> c
                  then (if x = 0 then Some Null else str_chr m (padd sp 1) c)
                  else Some sp)"
  by pat_completeness auto
termination
  by (relation "measure (\<lambda>(m, sp, c). room m sp)") (auto simp: rd_SomeD)

function str_chr_r_loop :: "mem \<Rightarrow> ptr \<Rightarrow> ptr \<Rightarrow> int \<Rightarrow> ptr option" where
  "str_chr_r_loop m s sp c =
     (let sp' = pdec sp in
      case rd m sp' of None \<Rightarrow> None
      | Some x \<Rightarrow> if schar x \<noteq> c
                  then (if sp' = s then Some Null else str_chr_r_loop m s sp' c)
                  else Some sp')"
  by pat_completeness auto
termination
proof (relation "measure (\<lambda>(m, s, sp, c). off sp)", goal_cases)
  case (2 m s sp c sp' x)
  then show ?case by (cases sp rule: pdec.cases) auto
qed simp

definition str_chr_r :: "mem \<Rightarrow> ptr \<Rightarrow> int \<Rightarrow> ptr option" where
  "str_chr_r m s c =
     (case str_chr m s 0 of None \<Rightarrow> None
      | Some sp \<Rightarrow> if sp = s then Some Null else str_chr_r_loop m s sp c)"

function in_reject :: "mem \<Rightarrow> byte \<Rightarrow> ptr \<Rightarrow> bool option" where
  "in_reject m a spb =
     (case rd m spb of None \<Rightarrow> None
      | Some b \<Rightarrow> if b \<noteq> 0 then (if a = b then Some True else in_reject m a (padd spb 1))
                  else Some False)"
  by pat_completeness auto
termination
  by (relation "measure (\<lambda>(m, a, spb). room m spb)") (auto simp: rd_SomeD)

function str_cspn_loop :: "mem \<Rightarrow> ptr \<Rightarrow> ptr \<Rightarrow> nat \<Rightarrow> nat option" where
  "str_cspn_loop m spa reject len =
     (case rd m spa of None \<Rightarrow> None
      | Some a \<Rightarrow> if a \<noteq> 0
          then (case in_reject m a reject of None \<Rightarrow> None
                | Some True \<Rightarrow> Some len
                | Some False \<Rightarrow> str_cspn_loop m (padd spa 1) reject (len + 1))
          else Some len)"
  by pat_completeness auto
termination
  by (relation "measure (\<lambda>(m, spa, reject, len). room m spa)") (auto simp: rd_SomeD)

definition str_cspn :: "mem \<Rightarrow> ptr \<Rightarrow> ptr \<Rightarrow> nat option" where
  "str_cspn m s reject = str_cspn_loop m s reject 0"

text \<open>\<open>str_str\<close>: the inner loop compares from the second byte on and yields the byte of
  the substring it stops at.\<close>

function str_str_inner :: "mem \<Rightarrow> ptr \<Rightarrow> ptr \<Rightarrow> byte option" where
  "str_str_inner m spa spb =
     (case rd m spa of None \<Rightarrow> None
      | Some a \<Rightarrow> (case rd m spb of None \<Rightarrow> None
         | Some b \<Rightarrow> if a \<noteq> 0 \<and> b \<noteq> 0
             then (if a \<noteq> b then Some b else str_str_inner m (padd spa 1) (padd spb 1))
             else Some b))"
  by pat_completeness auto
termination
  by (relation "measure (\<lambda>(m, spa, spb). room m spa)") (auto simp: rd_SomeD)

function str_str :: "mem \<Rightarrow> ptr \<Rightarrow> ptr \<Rightarrow> ptr option" where
  "str_str m str substr =
     (case rd m str of None \<Rightarrow> None
      | Some c \<Rightarrow> if c = 0 then Some Null
          else (case rd m substr of None \<Rightarrow> None
            | Some d \<Rightarrow> if c = d
                then (case str_str_inner m (padd str 1) (padd substr 1) of None \<Rightarrow> None
                      | Some b \<Rightarrow> if b = 0 then Some str else str_str m (padd str 1) substr)
                else str_str m (padd str 1) substr))"
  by pat_completeness auto
termination
  by (relation "measure (\<lambda>(m, str, substr). room m str)") (auto simp: rd_SomeD)

subsection \<open>Comparison and hashing\<close>

function str_cmp :: "mem \<Rightarrow> ptr \<Rightarrow> ptr \<Rightarrow> int option" where
  "str_cmp m spa spb =
     (case rd m spa of None \<Rightarrow> None
      | Some a \<Rightarrow> (case rd m spb of None \<Rightarrow> None
         | Some b \<Rightarrow> if a \<noteq> b then Some (uchar a - uchar b)
             else if a = 0 then Some 0
             else str_cmp m (padd spa 1) (padd spb 1)))"
  by pat_completeness auto
termination
  by (relation "measure (\<lambda>(m, spa, spb). room m spa)") (auto simp: rd_SomeD)

fun str_cmp_n :: "mem \<Rightarrow> ptr \<Rightarrow> ptr \<Rightarrow> nat \<Rightarrow> int option" where
  "str_cmp_n m spa spb 0 = Some 0"
| "str_cmp_n m spa spb (Suc n) =
     (case rd m spa of None \<Rightarrow> None
      | Some a \<Rightarrow> (case rd m spb of None \<Rightarrow> None
         | Some b \<Rightarrow> if a \<noteq> b then Some (uchar a - uchar b)
             else if a = 0 then Some 0
             else str_cmp_n m (padd spa 1) (padd spb 1) n))"

function str_eq :: "mem \<Rightarrow> ptr \<Rightarrow> ptr \<Rightarrow> bool option" where
  "str_eq m spa spb =
     (case rd m spa of None \<Rightarrow> None
      | Some a \<Rightarrow> (case rd m spb of None \<Rightarrow> None
         | Some b \<Rightarrow> if a = b
             then (if a = 0 then Some True else str_eq m (padd spa 1) (padd spb 1))
             else Some False))"
  by pat_completeness auto
termination
  by (relation "measure (\<lambda>(m, spa, spb). room m spa)") (auto simp: rd_SomeD)

definition str_eq_n :: "mem \<Rightarrow> ptr \<Rightarrow> ptr \<Rightarrow> nat \<Rightarrow> bool option" where
  "str_eq_n m sa sb n = map_option (\<lambda>r. r = 0) (str_cmp_n m sa sb n)"

text \<open>\<open>mem_cmp\<close> counts an \<open>int\<close> down to zero, so a negative count only stops at a
  difference (or at the end of the object).\<close>

function mem_cmp_loop :: "mem \<Rightarrow> ptr \<Rightarrow> ptr \<Rightarrow> int \<Rightarrow> int option" where
  "mem_cmp_loop m s1 s2 n =
     (if n = 0 then Some 0
      else (case rd m s1 of None \<Rightarrow> None
         | Some a \<Rightarrow> (case rd m s2 of None \<Rightarrow> None
            | Some b \<Rightarrow> if a = b then mem_cmp_loop m (padd s1 1) (padd s2 1) (n - 1)
                        else Some (uchar a - uchar b))))"
  by pat_completeness auto
termination
  by (relation "measure (\<lambda>(m, s1, s2, n). room m s1)") (auto simp: rd_SomeD)

definition mem_cmp :: "mem \<Rightarrow> ptr \<Rightarrow> ptr \<Rightarrow> int \<Rightarrow> int option" where
  "mem_cmp m lhs rhs n = (if lhs = rhs then Some 0 else mem_cmp_loop m lhs rhs n)"

function str_hash_32_loop :: "mem \<Rightarrow> ptr \<Rightarrow> 32 word \<Rightarrow> 32 word option" where
  "str_hash_32_loop m sp hash =
     (case rd m sp of None \<Rightarrow> None
      | Some c \<Rightarrow> if c \<noteq> 0
                  then str_hash_32_loop m (padd sp 1) ((hash XOR ucast c) * 0x01000193)
                  else Some hash)"
  by pat_completeness auto
termination
  by (relation "measure (\<lambda>(m, sp, h). room m sp)") (auto simp: rd_SomeD)

definition str_hash_32 :: "mem \<Rightarrow> ptr \<Rightarrow> 32 word option" where
  "str_hash_32 m bytes = str_hash_32_loop m bytes 0x811c9dc5"

function str_hash_64_loop :: "mem \<Rightarrow> ptr \<Rightarrow> 64 word \<Rightarrow> 64 word option" where
  "str_hash_64_loop m sp hash =
     (case rd m sp of None \<Rightarrow> None
      | Some c \<Rightarrow> if c \<noteq> 0
                  then str_hash_64_loop m (padd sp 1) ((hash XOR ucast c) * 0x00000100000001B3)
                  else Some hash)"
  by pat_completeness auto
termination
  by (relation "measure (\<lambda>(m, sp, h). room m sp)") (auto simp: rd_SomeD)

definition str_hash_64 :: "mem \<Rightarrow> ptr \<Rightarrow> 64 word option" where
  "str_hash_64 m bytes = str_hash_64_loop m bytes 0xcbf29ce484222325"

definition str_hash :: "mem \<Rightarrow> ptr \<Rightarrow> 32 word option" where
  "str_hash m bytes = str_hash_32 m bytes"

declare bytelen_loop.simps [simp del] str_chr.simps [simp del] str_chr_r_loop.simps [simp del]
declare in_reject.simps [simp del] str_cspn_loop.simps [simp del] str_str_inner.simps [simp del]
declare str_str.simps [simp del] str_cmp.simps [simp del] str_eq.simps [simp del]
declare mem_cmp_loop.simps [simp del] str_hash_32_loop.simps [simp del] str_hash_64_loop.simps [simp del]

subsection \<open>What the routines compute\<close>

text \<open>Positions in a byte string: the vocabulary of the search routines.\<close>

fun first_index :: "('a \<Rightarrow> bool) \<Rightarrow> 'a list \<Rightarrow> nat option" where
  "first_index P [] = None"
| "first_index P (x # xs) = (if P x then Some 0 else map_option Suc (first_index P xs))"

lemma first_index_Some:
  "first_index P xs = Some k \<longleftrightarrow> k < length xs \<and> P (xs ! k) \<and> (\<forall>j<k. \<not> P (xs ! j))"
proof (induction xs arbitrary: k)
  case (Cons x xs)
  then show ?case by (cases k) (auto simp: less_Suc_eq_0_disj)
qed simp

lemma first_index_None: "first_index P xs = None \<longleftrightarrow> (\<forall>x \<in> set xs. \<not> P x)"
  by (induction xs) auto

fun cmp_bytes :: "byte list \<Rightarrow> byte list \<Rightarrow> int" where
  "cmp_bytes [] [] = 0"
| "cmp_bytes [] (y # ys) = - uchar y"
| "cmp_bytes (x # xs) [] = uchar x"
| "cmp_bytes (x # xs) (y # ys) = (if x = y then cmp_bytes xs ys else uchar x - uchar y)"

lemma uchar_eq_iff: "uchar x = uchar y \<longleftrightarrow> x = y"
  by (simp add: word_uint_eq_iff)

lemma schar_0: "schar c = 0 \<longleftrightarrow> c = 0"
  by (simp add: signed_eq_0_iff)

lemma uchar_pos: "c \<noteq> 0 \<Longrightarrow> 0 < uchar c"
  using uint_ge_0 [of c] by (simp add: order_less_le uint_0_iff)

lemma cmp_bytes_0: "0 \<notin> set xs \<Longrightarrow> 0 \<notin> set ys \<Longrightarrow> cmp_bytes xs ys = 0 \<longleftrightarrow> xs = ys"
  by (induction xs ys rule: cmp_bytes.induct) (auto simp: uchar_eq_iff dest: uchar_pos)

lemma cmp_bytes_neg: "cmp_bytes ys xs = - cmp_bytes xs ys"
  by (induction xs ys rule: cmp_bytes.induct) auto

lemma cmp_bytes_less:
  "0 \<notin> set xs \<Longrightarrow> 0 \<notin> set ys \<Longrightarrow> cmp_bytes xs ys < 0 \<longleftrightarrow> ord_class.lexordp xs ys"
  by (induction xs ys rule: cmp_bytes.induct)
     (auto simp: word_less_def uchar_pos simp flip: uchar_eq_iff)

lemma bytelen_loop_eq:
  "bytelen_loop m (Ptr b i) (Ptr b (i + k)) = map_option (\<lambda>s. k + length s) (cstr m (Ptr b (i + k)))"
proof (induction "room m (Ptr b (i + k))" arbitrary: k rule: less_induct)
  case less
  show ?case
  proof (cases "rd m (Ptr b (i + k))")
    case None
    then show ?thesis by (subst bytelen_loop.simps, subst cstr.simps) simp
  next
    case (Some c)
    have "room m (Ptr b (i + Suc k)) < room m (Ptr b (i + k))"
      using rd_SomeD [OF Some] room_padd [of m "Ptr b (i + k)" 1] by (simp del: room.simps)
    from less [OF this] Some show ?thesis
      by (subst bytelen_loop.simps, subst cstr.simps) (simp add: option.map_comp comp_def)
  qed
qed

lemma bytelen_eq: "bytelen m p = map_option length (cstr m p)"
proof (cases p)
  case Null
  then show ?thesis by (simp add: bytelen_def bytelen_loop.simps)
next
  case (Ptr b i)
  with bytelen_loop_eq [of m b i 0] show ?thesis by (simp add: bytelen_def)
qed

lemma cstr_SomeE:
  assumes "cstr m p = Some s"
  obtains "s = []" "rd m p = Some 0"
  | c s' where "s = c # s'" "c \<noteq> 0" "rd m p = Some c" "cstr m (padd p 1) = Some s'"
  using assms by (cases s) (auto simp: cstr_simps)

lemma str_eq_cstr:
  "cstr m p = Some s \<Longrightarrow> cstr m q = Some t \<Longrightarrow> str_eq m p q = Some (s = t)"
proof (induction s arbitrary: p q t)
  case Nil
  then show ?case by (cases t; subst str_eq.simps) (auto simp: cstr_simps)
next
  case (Cons c s)
  then show ?case by (cases t; subst str_eq.simps) (auto simp: cstr_simps)
qed

lemma str_cmp_cstr:
  "cstr m p = Some s \<Longrightarrow> cstr m q = Some t \<Longrightarrow> str_cmp m p q = Some (cmp_bytes s t)"
proof (induction s arbitrary: p q t)
  case Nil
  then show ?case by (cases t; subst str_cmp.simps) (auto simp: cstr_simps)
next
  case (Cons c s)
  then show ?case by (cases t; subst str_cmp.simps) (auto simp: cstr_simps)
qed

lemma str_cmp_n_cstr:
  "cstr m p = Some s \<Longrightarrow> cstr m q = Some t \<Longrightarrow>
   str_cmp_n m p q n = Some (cmp_bytes (take n s) (take n t))"
proof (induction n arbitrary: p q s t)
  case (Suc n)
  then show ?case by (cases s; cases t) (auto simp: cstr_simps)
qed simp

lemma str_eq_n_cstr:
  assumes "cstr m p = Some s" "cstr m q = Some t"
  shows "str_eq_n m p q n = Some (take n s = take n t)"
proof -
  have "0 \<notin> set (take n s)" "0 \<notin> set (take n t)"
    using cstr_no_nul [OF assms(1)] cstr_no_nul [OF assms(2)] by (auto dest: in_set_takeD)
  then show ?thesis
    by (simp add: str_eq_n_def str_cmp_n_cstr [OF assms] cmp_bytes_0)
qed

lemma mem_cmp_loop_load:
  "load m p n = Some xs \<Longrightarrow> load m q n = Some ys \<Longrightarrow> mem_cmp_loop m p q (int n) = Some (cmp_bytes xs ys)"
proof (induction n arbitrary: p q xs ys)
  case 0
  then show ?case by (subst mem_cmp_loop.simps) simp
next
  case (Suc n)
  then show ?case
    by (subst mem_cmp_loop.simps) (auto simp: load_Suc_Some simp del: load.simps)
qed

lemma str_hash_32_loop_eq:
  "cstr m p = Some s \<Longrightarrow>
   str_hash_32_loop m p h = Some (fold (\<lambda>c h. (h XOR ucast c) * 0x01000193) s h)"
proof (induction s arbitrary: p h)
  case Nil
  then show ?case by (subst str_hash_32_loop.simps) (simp add: cstr_simps)
next
  case (Cons c s)
  then show ?case by (subst str_hash_32_loop.simps) (simp add: cstr_simps)
qed

lemma str_chr_cstr:
  "cstr m p = Some s \<Longrightarrow> str_chr m p c =
     Some (case first_index (\<lambda>x. schar x = c) (s @ [0]) of None \<Rightarrow> Null | Some k \<Rightarrow> padd p k)"
proof (induction s arbitrary: p)
  case Nil
  then show ?case by (subst str_chr.simps) (simp add: cstr_simps)
next
  case (Cons x s)
  then show ?case by (subst str_chr.simps) (simp add: cstr_simps split: option.splits)
qed

lemma str_chr_nul: "cstr m p = Some s \<Longrightarrow> str_chr m p 0 = Some (padd p (length s))"
proof -
  assume a: "cstr m p = Some s"
  have "first_index (\<lambda>x. schar x = 0) (s @ [0]) = Some (length s)"
    using cstr_no_nul [OF a] by (auto simp: first_index_Some nth_append in_set_conv_nth schar_0)
  then show ?thesis using str_chr_cstr [OF a] by simp
qed

fun last_index :: "('a \<Rightarrow> bool) \<Rightarrow> 'a list \<Rightarrow> nat option" where
  "last_index P [] = None"
| "last_index P (x # xs) =
     (case last_index P xs of Some k \<Rightarrow> Some (Suc k) | None \<Rightarrow> if P x then Some 0 else None)"

lemma last_index_None: "last_index P xs = None \<longleftrightarrow> (\<forall>x \<in> set xs. \<not> P x)"
  by (induction xs) (auto split: option.splits)

lemma last_index_snoc:
  "last_index P (xs @ [x]) = (if P x then Some (length xs) else last_index P xs)"
  by (induction xs) (auto split: option.splits)

lemma last_index_Some:
  "last_index P xs = Some k \<longleftrightarrow> k < length xs \<and> P (xs ! k) \<and> (\<forall>j<length xs. k < j \<longrightarrow> \<not> P (xs ! j))"
  by (induction xs rule: rev_induct) (auto simp: last_index_snoc nth_append less_Suc_eq)

lemma pdec_padd_Suc [simp]: "p \<noteq> Null \<Longrightarrow> pdec (padd p (Suc n)) = padd p n"
  by (cases p) auto

lemma padd_eq_self [simp]: "padd p n = p \<longleftrightarrow> p = Null \<or> n = 0"
  by (cases p) auto

lemma cstr_not_Null: "cstr m p = Some s \<Longrightarrow> p \<noteq> Null"
  by auto

text \<open>Scanning backwards from the end of a prefix finds its last match.\<close>

lemma str_chr_r_loop_cstr:
  assumes "cstr m p = Some s" "0 < n" "n \<le> length s"
  shows "str_chr_r_loop m p (padd p n) c =
    Some (case last_index (\<lambda>x. schar x = c) (take n s) of None \<Rightarrow> Null | Some k \<Rightarrow> padd p k)"
  using assms(2,3)
proof (induction n)
  case (Suc n)
  have p: "p \<noteq> Null" using assms(1) by (rule cstr_not_Null)
  have rd: "rd m (padd p n) = Some (s ! n)"
    using cstr_rd [OF assms(1), of n] Suc.prems by simp
  have take: "take (Suc n) s = take n s @ [s ! n]"
    using Suc.prems by (simp add: take_Suc_conv_app_nth)
  show ?case
  proof (cases "n = 0")
    case True
    then show ?thesis using p rd take
      by (subst str_chr_r_loop.simps) (simp add: last_index_snoc)
  next
    case False
    then show ?thesis using p rd take Suc
      by (subst str_chr_r_loop.simps) (simp add: last_index_snoc Let_def)
  qed
qed simp

lemma str_chr_r_cstr:
  assumes "cstr m p = Some s"
  shows "str_chr_r m p c =
    Some (case last_index (\<lambda>x. schar x = c) s of None \<Rightarrow> Null | Some k \<Rightarrow> padd p k)"
proof (cases s)
  case Nil
  then show ?thesis using str_chr_nul [OF assms] by (simp add: str_chr_r_def)
next
  case (Cons x s')
  then show ?thesis
    using str_chr_nul [OF assms] str_chr_r_loop_cstr [OF assms, of "length s"] cstr_not_Null [OF assms]
    by (simp add: str_chr_r_def)
qed

lemma in_reject_cstr: "cstr m q = Some t \<Longrightarrow> in_reject m a q = Some (a \<in> set t)"
proof (induction t arbitrary: q)
  case Nil
  then show ?case by (subst in_reject.simps) (simp add: cstr_simps)
next
  case (Cons b t)
  then show ?case by (subst in_reject.simps) (auto simp: cstr_simps)
qed

lemma str_cspn_loop_cstr:
  "cstr m p = Some s \<Longrightarrow> cstr m q = Some t \<Longrightarrow>
   str_cspn_loop m p q n = Some (n + length (takeWhile (\<lambda>c. c \<notin> set t) s))"
proof (induction s arbitrary: p n)
  case Nil
  then show ?case by (subst str_cspn_loop.simps) (simp add: cstr_simps)
next
  case (Cons c s)
  then show ?case by (subst str_cspn_loop.simps) (auto simp: cstr_simps in_reject_cstr)
qed

lemma str_cspn_cstr:
  "cstr m p = Some s \<Longrightarrow> cstr m q = Some t \<Longrightarrow>
   str_cspn m p q = Some (length (takeWhile (\<lambda>c. c \<notin> set t) s))"
  by (simp add: str_cspn_def str_cspn_loop_cstr)

text \<open>Substring search: the first position at which the substring is a prefix.\<close>

fun is_prefix :: "'a list \<Rightarrow> 'a list \<Rightarrow> bool" where
  "is_prefix [] ys = True"
| "is_prefix (x # xs) [] = False"
| "is_prefix (x # xs) (y # ys) = (x = y \<and> is_prefix xs ys)"

lemma is_prefix_iff: "is_prefix xs ys \<longleftrightarrow> (\<exists>zs. ys = xs @ zs)"
  by (induction xs ys rule: is_prefix.induct) auto

fun first_sub :: "'a list \<Rightarrow> 'a list \<Rightarrow> nat option" where
  "first_sub t [] = (if t = [] then Some 0 else None)"
| "first_sub t (c # s) = (if is_prefix t (c # s) then Some 0 else map_option Suc (first_sub t s))"

lemma first_sub_Some:
  "first_sub t s = Some k \<longleftrightarrow> k \<le> length s \<and> is_prefix t (drop k s) \<and> (\<forall>j<k. \<not> is_prefix t (drop j s))"
proof (induction s arbitrary: k)
  case Nil
  then show ?case by (cases t) auto
next
  case (Cons c s)
  then show ?case by (cases k) (auto simp: less_Suc_eq_0_disj)
qed

lemma first_sub_None: "first_sub t s = None \<longleftrightarrow> (\<forall>k < Suc (length s). \<not> is_prefix t (drop k s))"
proof (induction s)
  case Nil
  then show ?case by (cases t) auto
next
  case (Cons c s)
  then show ?case by (simp add: All_less_Suc2 del: is_prefix.simps)
qed

lemma str_str_inner_cstr:
  "cstr m p = Some s \<Longrightarrow> cstr m q = Some t \<Longrightarrow> \<exists>b. str_str_inner m p q = Some b \<and> (b = 0 \<longleftrightarrow> is_prefix t s)"
proof (induction t arbitrary: p q s)
  case Nil
  then show ?case by (cases s; subst str_str_inner.simps) (auto simp: cstr_simps)
next
  case (Cons c t)
  then show ?case by (cases s; subst str_str_inner.simps) (auto simp: cstr_simps)
qed

lemma str_str_cstr:
  "cstr m p = Some s \<Longrightarrow> cstr m q = Some t \<Longrightarrow> t \<noteq> [] \<Longrightarrow>
   str_str m p q = Some (case first_sub t s of None \<Rightarrow> Null | Some k \<Rightarrow> padd p k)"
proof (induction s arbitrary: p)
  case Nil
  then show ?case by (subst str_str.simps) (simp add: cstr_simps)
next
  case (Cons c s)
  then obtain d t' where t: "t = d # t'" by (cases t) auto
  from Cons.prems t have c: "rd m p = Some c" "c \<noteq> 0" "cstr m (padd p 1) = Some s"
    and d: "rd m q = Some d" "cstr m (padd q 1) = Some t'" by (auto simp: cstr_simps)
  obtain b where b: "str_str_inner m (padd p 1) (padd q 1) = Some b" "b = 0 \<longleftrightarrow> is_prefix t' s"
    using str_str_inner_cstr [OF c(3) d(2)] by blast
  have IH: "str_str m (padd p 1) q = Some (case first_sub t s of None \<Rightarrow> Null | Some k \<Rightarrow> padd (padd p 1) k)"
    using Cons.IH [OF c(3)] Cons.prems by blast
  show ?case
    using b c d IH t by (subst str_str.simps) (auto split: option.splits)
qed

text \<open>An empty substring is never found, not even at the start.\<close>

lemma str_str_empty: "cstr m p = Some s \<Longrightarrow> cstr m q = Some [] \<Longrightarrow> str_str m p q = Some Null"
proof (induction s arbitrary: p)
  case Nil
  then show ?case by (subst str_str.simps) (simp add: cstr_simps)
next
  case (Cons c s)
  then show ?case by (subst str_str.simps) (auto simp: cstr_simps)
qed

subsection \<open>Properties\<close>

text \<open>
  \<open>str_cmp\<close> is the lexicographic order of the unsigned bytes: negative,
  zero or positive as the first string is before, equal to or after the second.\<close>

theorem str_cmp_order:
  assumes "cstr m p = Some s" "cstr m q = Some t"
  shows "\<exists>r. str_cmp m p q = Some r \<and> (r < 0 \<longleftrightarrow> ord_class.lexordp s t) \<and> (r = 0 \<longleftrightarrow> s = t) \<and>
    (r > 0 \<longleftrightarrow> ord_class.lexordp t s)"
proof -
  note nn = cstr_no_nul [OF assms(1)] cstr_no_nul [OF assms(2)]
  have "cmp_bytes s t > 0 \<longleftrightarrow> ord_class.lexordp t s"
    using cmp_bytes_less [OF nn(2) nn(1)] cmp_bytes_neg [of s t] by simp
  then show ?thesis
    using str_cmp_cstr [OF assms] cmp_bytes_less [OF nn] cmp_bytes_0 [OF nn] by auto
qed

lemma str_cmp_order_witness:
  "\<exists>r. str_cmp (\<lambda>b. Some [97, 200, 0, 97, 98, 0]) (Ptr 0 0) (Ptr 0 3) = Some r \<and> r > 0"
proof -
  let ?m = "\<lambda>b. Some [97, 200, 0, 97, 98, 0 :: byte]"
  have "cstr ?m (Ptr 0 0) = Some [97, 200]" "cstr ?m (Ptr 0 3) = Some [97, 98]"
    by (simp_all add: cstr_simps)
  from str_cmp_order [OF this] show ?thesis by auto
qed

text \<open>
  \<open>str_str\<close> answers the first position at which the substring occurs, and
  null exactly when it occurs nowhere; for the empty substring, which occurs everywhere, it
  answers null too.\<close>

theorem str_str_first:
  assumes "cstr m p = Some s" "cstr m q = Some t"
  shows "\<exists>r. str_str m p q = Some r \<and>
    (if t = [] then r = Null
     else (case r of Null \<Rightarrow> \<not> (\<exists>u v. s = u @ t @ v)
           | Ptr b i \<Rightarrow> \<exists>u v. s = u @ t @ v \<and> r = padd p (length u) \<and>
               (\<forall>u' v'. s = u' @ t @ v' \<longrightarrow> length u \<le> length u')))"
proof (cases "t = []")
  case True
  then show ?thesis using str_str_empty [OF assms(1)] assms(2) by auto
next
  case False
  have pre: "is_prefix xs ys \<longleftrightarrow> (\<exists>zs. ys = xs @ zs)" for xs ys :: "byte list"
    by (induction xs ys rule: is_prefix.induct) auto
  have occ: "(\<exists>v. s = u @ t @ v) \<longleftrightarrow> length u \<le> length s \<and> take (length u) s = u \<and> is_prefix t (drop (length u) s)" for u
  proof
    show "\<exists>v. s = u @ t @ v \<Longrightarrow> length u \<le> length s \<and> take (length u) s = u \<and> is_prefix t (drop (length u) s)"
      by (auto simp: pre)
    show "length u \<le> length s \<and> take (length u) s = u \<and> is_prefix t (drop (length u) s) \<Longrightarrow> \<exists>v. s = u @ t @ v"
      unfolding pre by (metis append_take_drop_id)
  qed
  have p: "p \<noteq> Null" using assms(1) by auto
  show ?thesis
  proof (cases "first_sub t s")
    case None
    then have "\<not> (\<exists>v. s = u @ t @ v)" for u using occ [of u] by (simp add: first_sub_None less_Suc_eq_le)
    then have "\<not> (\<exists>u v. s = u @ t @ v)" by blast
    then show ?thesis using None False str_str_cstr [OF assms False] by auto
  next
    case (Some k)
    then have k: "k \<le> length s" "is_prefix t (drop k s)" "\<forall>j<k. \<not> is_prefix t (drop j s)"
      by (auto simp: first_sub_Some)
    then obtain v where "s = take k s @ t @ v" using occ [of "take k s"] by auto
    then obtain u where "s = u @ t @ v" "length u = k" using k(1) by (metis length_take min.absorb2)
    moreover have "s = u' @ t @ v' \<Longrightarrow> k \<le> length u'" for u' v'
      using occ [of u'] k(3) by (metis not_less)
    moreover obtain b i where "padd p k = Ptr b i" using p by (cases p) auto
    ultimately show ?thesis
      using Some False str_str_cstr [OF assms False] by (auto simp del: append_assoc)
  qed
qed

lemma str_str_first_witness:
  "str_str (\<lambda>b. Some [97, 98, 97, 98, 0, 98, 0]) (Ptr 0 0) (Ptr 0 5) \<noteq> Some Null"
proof -
  let ?m = "\<lambda>b. Some [97, 98, 97, 98, 0, 98, 0 :: byte]"
  have "cstr ?m (Ptr 0 0) = Some [97, 98, 97, 98]" "cstr ?m (Ptr 0 5) = Some [98]"
    by (simp_all add: cstr_simps)
  from str_str_first [OF this] have "str_str ?m (Ptr 0 0) (Ptr 0 5) = Some Null \<Longrightarrow>
    \<not> (\<exists>u v. [97, 98, 97, 98 :: byte] = u @ [98] @ v)" by auto
  moreover have "[97, 98, 97, 98 :: byte] = [97] @ [98] @ [97, 98]" by simp
  ultimately show ?thesis by metis
qed

text \<open>
  \<open>str_chr_r\<close> scans backwards from the end and answers the last occurrence
  of the character, or null when there is none.\<close>

theorem str_chr_r_last:
  assumes "cstr m p = Some s" "c \<noteq> 0"
  shows "str_chr_r m p c = Some Null \<and> (\<forall>x \<in> set s. schar x \<noteq> c) \<or>
    (\<exists>k < length s. str_chr_r m p c = Some (padd p k) \<and> schar (s ! k) = c \<and>
       (\<forall>j < length s. k < j \<longrightarrow> schar (s ! j) \<noteq> c))"
  using str_chr_r_cstr [OF assms(1), of c]
  by (cases "last_index (\<lambda>x. schar x = c) s") (auto simp: last_index_None last_index_Some)

lemma str_chr_r_last_witness:
  "str_chr_r (\<lambda>b. Some [47, 97, 47, 98, 0]) (Ptr 0 0) 47 = Some (Ptr 0 2)"
proof -
  let ?m = "\<lambda>b. Some [47, 97, 47, 98, 0 :: byte]"
  have "cstr ?m (Ptr 0 0) = Some [47, 97, 47, 98]" by (simp add: cstr_simps)
  from str_chr_r_last [OF this, of 47] show ?thesis
    by (auto simp: All_less_Suc less_Suc_eq numeral_eq_Suc)
qed

end
