(* ===== verification/Cmemory.thy ===== *)
theory Cmemory
  imports Cstrings
begin

section \<open>The routines that write memory\<close>

text \<open>
  \<open>mem_set\<close>, \<open>mem_copy\<close>, \<open>str_byte_copy\<close>, \<open>str_byte_move\<close>, \<open>str_copy\<close>,
  \<open>str_cat\<close>, \<open>str_get_substr_at\<close> and \<open>str_new_with_len\<close> of
  \<open>y/pkg/libc/libc/string\<close>. A writer returns the new memory (and its C result). What a
  writer should do is stated with \<open>store\<close>: the bytes that end up at the destination,
  everything else unchanged.
\<close>

fun psub :: "ptr \<Rightarrow> nat \<Rightarrow> ptr" where
  "psub Null n = Null"
| "psub (Ptr b i) n = (if n \<le> i then Ptr b (i - n) else Null)"

subsection \<open>\<open>mem_set\<close>\<close>

primrec mem_set_loop :: "nat \<Rightarrow> mem \<Rightarrow> ptr \<Rightarrow> byte \<Rightarrow> mem option" where
  "mem_set_loop 0 m p c = Some m"
| "mem_set_loop (Suc count) m p c = wr m p c \<bind> (\<lambda>m'. mem_set_loop count m' (padd p 1) c)"

definition mem_set :: "mem \<Rightarrow> ptr \<Rightarrow> int \<Rightarrow> nat \<Rightarrow> (mem \<times> ptr) option" where
  "mem_set m dest c count =
     (if count = 0 \<or> dest = Null then Some (m, dest)
      else map_option (\<lambda>m'. (m', dest)) (mem_set_loop count m dest (word_of_int c)))"

fun mem_set_s_loop :: "mem \<Rightarrow> ptr \<Rightarrow> byte \<Rightarrow> nat \<Rightarrow> nat \<Rightarrow> nat \<Rightarrow> mem option" where
  "mem_set_s_loop m p c i destsz count =
     (if i < destsz \<and> count \<noteq> 0
      then wr m p c \<bind> (\<lambda>m'. mem_set_s_loop m' (padd p 1) c (i + 1) destsz (count - 1))
      else Some m)"

declare mem_set_s_loop.simps [simp del]

definition mem_set_s :: "mem \<Rightarrow> ptr \<Rightarrow> nat \<Rightarrow> int \<Rightarrow> nat \<Rightarrow> (mem \<times> ptr) option" where
  "mem_set_s m dest destsz c count =
     (if count = 0 \<or> dest = Null \<or> destsz = 0 then Some (m, dest)
      else map_option (\<lambda>m'. (m', dest)) (mem_set_s_loop m dest (word_of_int c) 0 destsz count))"

subsection \<open>\<open>mem_copy\<close>\<close>

text \<open>
  The direction of the copy and the alignment tests look at addresses: \<open>base b\<close> is the
  address at which block \<open>b\<close> starts. The loops of the C are \<open>do .. while (--t)\<close>
  entered with a positive \<open>t\<close>.
\<close>

fun addr :: "(nat \<Rightarrow> nat) \<Rightarrow> ptr \<Rightarrow> nat" where
  "addr base Null = 0"
| "addr base (Ptr b i) = base b + i"

primrec fwd_bytes :: "nat \<Rightarrow> mem \<Rightarrow> ptr \<Rightarrow> ptr \<Rightarrow> (mem \<times> ptr \<times> ptr) option" where
  "fwd_bytes 0 m dst src = Some (m, dst, src)"
| "fwd_bytes (Suc t) m dst src =
     do { c \<leftarrow> rd m src; m' \<leftarrow> wr m dst c; fwd_bytes t m' (padd dst 1) (padd src 1) }"

definition copy_word :: "mem \<Rightarrow> ptr \<Rightarrow> ptr \<Rightarrow> mem option" where
  "copy_word m dst src = load m src 4 \<bind> store m dst"

primrec fwd_words :: "nat \<Rightarrow> mem \<Rightarrow> ptr \<Rightarrow> ptr \<Rightarrow> (mem \<times> ptr \<times> ptr) option" where
  "fwd_words 0 m dst src = Some (m, dst, src)"
| "fwd_words (Suc t) m dst src =
     do { m' \<leftarrow> copy_word m dst src; fwd_words t m' (padd dst 4) (padd src 4) }"

primrec back_bytes :: "nat \<Rightarrow> mem \<Rightarrow> ptr \<Rightarrow> ptr \<Rightarrow> (mem \<times> ptr \<times> ptr) option" where
  "back_bytes 0 m dst src = Some (m, dst, src)"
| "back_bytes (Suc t) m dst src =
     do { c \<leftarrow> rd m (psub src 1); m' \<leftarrow> wr m (psub dst 1) c;
          back_bytes t m' (psub dst 1) (psub src 1) }"

primrec back_words :: "nat \<Rightarrow> mem \<Rightarrow> ptr \<Rightarrow> ptr \<Rightarrow> (mem \<times> ptr \<times> ptr) option" where
  "back_words 0 m dst src = Some (m, dst, src)"
| "back_words (Suc t) m dst src =
     do { m' \<leftarrow> copy_word m (psub dst 4) (psub src 4);
          back_words t m' (psub dst 4) (psub src 4) }"

definition mem_copy :: "(nat \<Rightarrow> nat) \<Rightarrow> mem \<Rightarrow> ptr \<Rightarrow> ptr \<Rightarrow> nat \<Rightarrow> mem option" where
  "mem_copy base m dst0 src0 len =
     (if len = 0 \<or> dst0 = src0 then Some m
      else if addr base dst0 < addr base src0 then
        (let s = addr base src0; d = addr base dst0;
             t = (if (s OR d) AND 3 = 0 then 0
                  else if (s XOR d) AND 3 \<noteq> 0 \<or> len < 4 then len else 4 - (s AND 3)) in
         do { (m1, dst, src) \<leftarrow> fwd_bytes t m dst0 src0;
              (m2, dst, src) \<leftarrow> fwd_words ((len - t) div 4) m1 dst src;
              (m3, dst, src) \<leftarrow> fwd_bytes ((len - t) AND 3) m2 dst src;
              Some m3 })
      else
        (let s = addr base src0 + len; d = addr base dst0 + len;
             t = (if (s OR d) AND 3 = 0 then 0
                  else if (s XOR d) AND 3 \<noteq> 0 \<or> len \<le> 4 then len else s AND 3) in
         do { (m1, dst, src) \<leftarrow> back_bytes t m (padd dst0 len) (padd src0 len);
              (m2, dst, src) \<leftarrow> back_words ((len - t) div 4) m1 dst src;
              (m3, dst, src) \<leftarrow> back_bytes ((len - t) AND 3) m2 dst src;
              Some m3 }))"

subsection \<open>Bounded copies of strings\<close>

function str_byte_copy_loop :: "mem \<Rightarrow> ptr \<Rightarrow> ptr \<Rightarrow> nat \<Rightarrow> nat \<Rightarrow> (mem \<times> nat) option" where
  "str_byte_copy_loop m dest sp nbytes len =
     (if len < nbytes
      then (case rd m sp of None \<Rightarrow> None
            | Some c \<Rightarrow> if c \<noteq> 0
                then (case wr m (padd dest len) c of None \<Rightarrow> None
                      | Some m' \<Rightarrow> str_byte_copy_loop m' dest (padd sp 1) nbytes (len + 1))
                else Some (m, len))
      else Some (m, len))"
  by pat_completeness auto
termination
  by (relation "measure (\<lambda>(m, dest, sp, nbytes, len). nbytes - len)") auto

declare str_byte_copy_loop.simps [simp del]

definition str_byte_copy :: "mem \<Rightarrow> ptr \<Rightarrow> ptr \<Rightarrow> nat \<Rightarrow> (mem \<times> nat) option" where
  "str_byte_copy m dest src nbytes = str_byte_copy_loop m dest src nbytes 0"

definition str_copy :: "mem \<Rightarrow> ptr \<Rightarrow> nat \<Rightarrow> ptr \<Rightarrow> nat \<Rightarrow> (mem \<times> nat) option" where
  "str_copy m dest dest_len src nbytes =
     (let num = (if nbytes > size_pred dest_len then size_pred dest_len else nbytes) in
      do { (m1, len) \<leftarrow> (if src = Null then Some (m, 0) else str_byte_copy m dest src num);
           m2 \<leftarrow> wr m1 (padd dest len) 0;
           Some (m2, len) })"

function str_cat_loop :: "mem \<Rightarrow> ptr \<Rightarrow> ptr \<Rightarrow> nat \<Rightarrow> nat \<Rightarrow> nat \<Rightarrow> (mem \<times> ptr \<times> nat) option" where
  "str_cat_loop m sp src i len lim =
     (case rd m (padd src i) of None \<Rightarrow> None
      | Some c \<Rightarrow> if c \<noteq> 0 \<and> i + len < lim
          then (case wr m sp c of None \<Rightarrow> None
                | Some m' \<Rightarrow> str_cat_loop m' (padd sp 1) src (i + 1) len lim)
          else Some (m, sp, i))"
  by pat_completeness auto
termination
  by (relation "measure (\<lambda>(m, sp, src, i, len, lim). lim - i)") auto

declare str_cat_loop.simps [simp del]

definition str_cat :: "mem \<Rightarrow> ptr \<Rightarrow> nat \<Rightarrow> ptr \<Rightarrow> (mem \<times> nat) option" where
  "str_cat m dest dest_sz src =
     do { sp \<leftarrow> str_chr m dest 0;
          let len = pdiff sp dest;
          (m1, sp', i) \<leftarrow> str_cat_loop m sp src 0 len (size_pred dest_sz);
          m2 \<leftarrow> wr m1 sp' 0;
          Some (m2, len + i) }"

primrec substr_loop :: "nat \<Rightarrow> mem \<Rightarrow> ptr \<Rightarrow> ptr \<Rightarrow> nat \<Rightarrow> mem option" where
  "substr_loop 0 m dest src i = Some m"
| "substr_loop (Suc k) m dest src i =
     do { c \<leftarrow> rd m src; m' \<leftarrow> wr m (padd dest i) c; substr_loop k m' dest (padd src 1) (i + 1) }"

definition str_get_substr_at :: "mem \<Rightarrow> ptr \<Rightarrow> nat \<Rightarrow> ptr \<Rightarrow> nat \<Rightarrow> nat \<Rightarrow> (mem \<times> ptr) option" where
  "str_get_substr_at m dest len src src_len idx =
     (if src_len < idx + len then map_option (\<lambda>m'. (m', Null)) (wr m dest 0)
      else do { m1 \<leftarrow> substr_loop len m dest (padd src idx) 0;
                m2 \<leftarrow> wr m1 (padd dest len) 0;
                Some (m2, dest) })"

text \<open>The new block is what \<open>Alloc (len + 1)\<close> returned: \<open>new\<close> is its address.\<close>

definition str_new_with_len :: "mem \<Rightarrow> ptr \<Rightarrow> ptr \<Rightarrow> nat \<Rightarrow> (mem \<times> ptr) option" where
  "str_new_with_len m new source len =
     do { (m1, n) \<leftarrow> str_copy m new (len + 1) source len; Some (m1, new) }"

definition str_new_with :: "mem \<Rightarrow> ptr \<Rightarrow> ptr \<Rightarrow> (mem \<times> ptr) option" where
  "str_new_with m new source = bytelen m source \<bind> str_new_with_len m new source"

definition str_dup :: "mem \<Rightarrow> ptr \<Rightarrow> ptr \<Rightarrow> nat \<Rightarrow> (mem \<times> ptr) option" where
  "str_dup m new src len = str_new_with_len m new src len"

subsection \<open>\<open>str_byte_move\<close>\<close>

text \<open>
  The element count is first cut down until the move fits. When the destination index is
  beyond the length the unsigned counter would wrap below zero and the move leave the
  object: \<open>None\<close>.
\<close>

fun shrink :: "nat \<Rightarrow> nat \<Rightarrow> nat \<Rightarrow> nat option" where
  "shrink idx len nelem =
     (if idx + nelem > len then (if nelem = 0 then None else shrink idx len (nelem - 1))
      else Some nelem)"

declare shrink.simps [simp del]

primrec move_left_loop :: "nat \<Rightarrow> mem \<Rightarrow> ptr \<Rightarrow> ptr \<Rightarrow> (mem \<times> nat) option" where
  "move_left_loop 0 m dsp sp = Some (m, 0)"
| "move_left_loop (Suc nelem) m dsp sp =
     do { c \<leftarrow> rd m sp;
          m' \<leftarrow> wr m dsp c;
          if c = 0 then Some (m', Suc nelem)
          else move_left_loop nelem m' (padd dsp 1) (padd sp 1) }"

definition str_byte_move :: "mem \<Rightarrow> ptr \<Rightarrow> nat \<Rightarrow> nat \<Rightarrow> nat \<Rightarrow> nat \<Rightarrow> (mem \<times> nat) option" where
  "str_byte_move m str len to_idx from_idx nelem =
     (if from_idx = to_idx then Some (m, 0)
      else do { n \<leftarrow> shrink to_idx len nelem;
        if to_idx > from_idx
        then do { (m', dsp, sp) \<leftarrow> back_bytes n m (padd str (to_idx + n)) (padd str (from_idx + n));
                  Some (m', n) }
        else do { n' \<leftarrow> shrink from_idx len n;
                  (m', left) \<leftarrow> move_left_loop n' m (padd str to_idx) (padd str from_idx);
                  Some (m', n' - left) } })"

subsection \<open>Ranges of bytes and writes elsewhere\<close>

lemma load_append:
  "load m p (a + b) = do { x \<leftarrow> load m p a; y \<leftarrow> load m (padd p a) b; Some (x @ y) }"
  by (induction a arbitrary: p) (auto split: bind_splits)

lemma load_cong_rd:
  "(\<And>k. k < n \<Longrightarrow> rd m' (padd p k) = rd m (padd p k)) \<Longrightarrow> load m' p n = load m p n"
proof (induction n arbitrary: p)
  case (Suc n)
  have "load m' (padd p 1) n = load m (padd p 1) n"
    using Suc.prems [of "Suc _"] by (intro Suc.IH) simp
  then show ?case using Suc.prems [of 0] by simp
qed simp

text \<open>A forward copy is safe when the destination does not start inside the source.\<close>

definition fwd_ok :: "ptr \<Rightarrow> ptr \<Rightarrow> bool" where
  "fwd_ok d s \<longleftrightarrow> blk d \<noteq> blk s \<or> off d \<le> off s"

lemma load_after_store_fwd:
  assumes "store m d xs = Some m1" "d \<noteq> Null" "s \<noteq> Null" "fwd_ok d s"
  shows "load m1 (padd s (length xs)) n = load m (padd s (length xs)) n"
proof (rule load_cong_rd)
  fix k assume "k < n"
  show "rd m1 (padd (padd s (length xs)) k) = rd m (padd (padd s (length xs)) k)"
    using assms by (intro rd_store_other [OF assms(1)]) (cases d; cases s; auto simp: fwd_ok_def)
qed

lemma fwd_ok_padd: "d \<noteq> Null \<Longrightarrow> s \<noteq> Null \<Longrightarrow> fwd_ok d s \<Longrightarrow> fwd_ok (padd d n) (padd s n)"
  by (cases d; cases s) (auto simp: fwd_ok_def)

lemma store_Null_iff: "store m Null xs = Some m' \<longleftrightarrow> xs = [] \<and> m' = m"
  by (cases xs) auto

lemma load_Null_iff: "load m Null n = Some xs \<longleftrightarrow> n = 0 \<and> xs = []"
  by (cases n) auto

text \<open>Copying a first piece forward leaves the rest of the source ready to be copied.\<close>

lemma copy_split_fwd:
  assumes ld: "load m s (a + n) = Some xs" and st: "store m d xs = Some m'"
    and ok: "fwd_ok d s" and nn: "d \<noteq> Null" "s \<noteq> Null"
  obtains m1 where "load m s a = Some (take a xs)" "store m d (take a xs) = Some m1"
    "load m1 (padd s a) n = Some (drop a xs)" "store m1 (padd d a) (drop a xs) = Some m'"
proof -
  from ld obtain x y where x: "load m s a = Some x" "load m (padd s a) n = Some y" "xs = x @ y"
    by (auto simp: load_append split: bind_splits)
  have len: "length x = a" using load_length [OF x(1)] .
  from st x(3) obtain m1 where m1: "store m d x = Some m1" "store m1 (padd d (length x)) y = Some m'"
    by (auto simp: store_append split: bind_splits)
  have "load m1 (padd s a) n = Some y"
    using load_after_store_fwd [OF m1(1) nn ok, of n] x(2) len by simp
  with x m1 len show ?thesis by (intro that [of m1]) auto
qed

lemma fwd_bytes_store:
  assumes "load m s n = Some xs" "store m d xs = Some m'" "fwd_ok d s" "d \<noteq> Null" "s \<noteq> Null"
  shows "fwd_bytes n m d s = Some (m', padd d n, padd s n)"
  using assms
proof (induction n arbitrary: m d s xs)
  case (Suc n)
  obtain m1 where m1: "load m s 1 = Some (take 1 xs)" "store m d (take 1 xs) = Some m1"
    "load m1 (padd s 1) n = Some (drop 1 xs)" "store m1 (padd d 1) (drop 1 xs) = Some m'"
    using copy_split_fwd [of m s 1 n xs d m'] Suc.prems by auto
  from m1(1) obtain c where c: "rd m s = Some c" "take 1 xs = [c]"
    by (auto split: bind_splits)
  with m1(2) have w: "wr m d c = Some m1" by (auto split: bind_splits)
  have "fwd_bytes n m1 (padd d 1) (padd s 1) = Some (m', padd (padd d 1) n, padd (padd s 1) n)"
    using m1 Suc.prems by (intro Suc.IH) (auto intro: fwd_ok_padd)
  with c w show ?case by simp
qed simp

lemma fwd_words_store:
  assumes "load m s (4 * n) = Some xs" "store m d xs = Some m'" "fwd_ok d s" "d \<noteq> Null" "s \<noteq> Null"
  shows "fwd_words n m d s = Some (m', padd d (4 * n), padd s (4 * n))"
  using assms
proof (induction n arbitrary: m d s xs)
  case (Suc n)
  obtain m1 where m1: "load m s 4 = Some (take 4 xs)" "store m d (take 4 xs) = Some m1"
    "load m1 (padd s 4) (4 * n) = Some (drop 4 xs)" "store m1 (padd d 4) (drop 4 xs) = Some m'"
    using copy_split_fwd [of m s 4 "4 * n" xs d m'] Suc.prems by auto
  then have w: "copy_word m d s = Some m1" by (simp add: copy_word_def)
  have "fwd_words n m1 (padd d 4) (padd s 4) = Some (m', padd (padd d 4) (4 * n), padd (padd s 4) (4 * n))"
    using m1 Suc.prems by (intro Suc.IH) (auto intro: fwd_ok_padd)
  with w show ?case by simp
qed simp

text \<open>Backward copies: the last piece first, safe when the source does not start inside the
  destination.\<close>

definition back_ok :: "ptr \<Rightarrow> ptr \<Rightarrow> bool" where
  "back_ok d s \<longleftrightarrow> blk d \<noteq> blk s \<or> off s \<le> off d"

lemma store_SomeE_block:
  assumes "store m p xs = Some m'" "xs \<noteq> []"
  obtains b i bs where "p = Ptr b i" "m b = Some bs" "i + length xs \<le> length bs"
proof -
  have r: "length xs \<le> room m p" using store_fits [of m p xs] assms by auto
  with assms(2) obtain b i where p: "p = Ptr b i" by (cases p) auto
  with r assms(2) obtain bs where "m b = Some bs" by (cases "m b") auto
  with p r assms(2) show ?thesis by (intro that [of b i bs]) (cases xs; auto)+
qed

text \<open>Two adjacent writes can be made in either order.\<close>

lemma store_swap:
  assumes "store m p (xs @ ys) = Some m'"
  obtains m1 where "store m (padd p (length xs)) ys = Some m1" "store m1 p xs = Some m'"
proof (cases "xs @ ys = []")
  case True
  with assms show ?thesis by (intro that [of m]) auto
next
  case False
  from store_SomeE_block [OF assms this] obtain b i bs
    where p: "p = Ptr b i" and b: "m b = Some bs" and le: "i + length (xs @ ys) \<le> length bs" by metis
  let ?bs1 = "take (i + length xs) bs @ ys @ drop (i + length xs + length ys) bs"
  let ?m1 = "m(b \<mapsto> ?bs1)"
  have s1: "store m (padd p (length xs)) ys = Some ?m1"
    using store_block [where m = m and b = b and bs = bs and i = "i + length xs" and xs = ys] b le p by simp
  have "store ?m1 p xs = Some (?m1(b \<mapsto> take i ?bs1 @ xs @ drop (i + length xs) ?bs1))"
    using store_block [where m = ?m1 and b = b and bs = ?bs1 and i = i and xs = xs] le p by simp
  moreover have "take i ?bs1 @ xs @ drop (i + length xs) ?bs1 =
      take i bs @ (xs @ ys) @ drop (i + length (xs @ ys)) bs"
    using le by (simp add: add.assoc min_absorb1)
  moreover have "m' = m(b \<mapsto> take i bs @ (xs @ ys) @ drop (i + length (xs @ ys)) bs)"
    using store_block [where m = m and b = b and bs = bs and i = i and xs = "xs @ ys"] b le assms p by simp
  ultimately have "store ?m1 p xs = Some m'" by simp
  with s1 show ?thesis by (rule that)
qed

lemma psub_padd [simp]: "n \<le> k \<Longrightarrow> psub (padd p k) n = padd p (k - n)"
  by (cases p) auto

lemma copy_split_back:
  assumes ld: "load m s (n + a) = Some xs" and st: "store m d xs = Some m'"
    and ok: "back_ok d s" and nn: "d \<noteq> Null" "s \<noteq> Null"
  obtains m1 where "load m (padd s n) a = Some (drop n xs)" "store m (padd d n) (drop n xs) = Some m1"
    "load m1 s n = Some (take n xs)" "store m1 d (take n xs) = Some m'"
proof -
  from ld obtain x y where x: "load m s n = Some x" "load m (padd s n) a = Some y" "xs = x @ y"
    by (auto simp: load_append split: bind_splits)
  have len: "length x = n" using load_length [OF x(1)] .
  from st x(3) obtain m1 where m1: "store m (padd d n) y = Some m1" "store m1 d x = Some m'"
    using len by (auto elim: store_swap)
  have "load m1 s n = load m s n"
  proof (rule load_cong_rd)
    fix k assume "k < n"
    then show "rd m1 (padd s k) = rd m (padd s k)"
      using ok nn by (intro rd_store_other [OF m1(1)]) (cases d; cases s; auto simp: back_ok_def)
  qed
  with x m1 len show ?thesis by (intro that [of m1]) auto
qed

lemma back_bytes_store:
  assumes "load m s n = Some xs" "store m d xs = Some m'" "back_ok d s" "d \<noteq> Null" "s \<noteq> Null"
  shows "back_bytes n m (padd d n) (padd s n) = Some (m', d, s)"
  using assms
proof (induction n arbitrary: m xs)
  case (Suc n)
  obtain m1 where m1: "load m (padd s n) 1 = Some (drop n xs)" "store m (padd d n) (drop n xs) = Some m1"
    "load m1 s n = Some (take n xs)" "store m1 d (take n xs) = Some m'"
    using copy_split_back [of m s n 1 xs d m'] Suc.prems by auto
  from m1(1) obtain c where c: "rd m (padd s n) = Some c" "drop n xs = [c]"
    by (auto split: bind_splits)
  with m1(2) have w: "wr m (padd d n) c = Some m1" by (auto split: bind_splits)
  have "back_bytes n m1 (padd d n) (padd s n) = Some (m', d, s)"
    using m1 Suc.prems by (intro Suc.IH) auto
  with c w show ?case by simp
qed simp

lemma back_words_store:
  assumes "load m s (4 * n) = Some xs" "store m d xs = Some m'" "back_ok d s" "d \<noteq> Null" "s \<noteq> Null"
  shows "back_words n m (padd d (4 * n)) (padd s (4 * n)) = Some (m', d, s)"
  using assms
proof (induction n arbitrary: m xs)
  case (Suc n)
  obtain m1 where m1: "load m (padd s (4 * n)) 4 = Some (drop (4 * n) xs)"
    "store m (padd d (4 * n)) (drop (4 * n) xs) = Some m1"
    "load m1 s (4 * n) = Some (take (4 * n) xs)" "store m1 d (take (4 * n) xs) = Some m'"
    using copy_split_back [of m s "4 * n" 4 xs d m'] Suc.prems by (auto simp: add.commute)
  then have w: "copy_word m (padd d (4 * n)) (padd s (4 * n)) = Some m1" by (simp add: copy_word_def)
  have "back_words n m1 (padd d (4 * n)) (padd s (4 * n)) = Some (m', d, s)"
    using m1 Suc.prems by (intro Suc.IH) auto
  with w show ?case by simp
qed simp

lemma wr_same: "rd m p = Some c \<Longrightarrow> wr m p c = Some m"
  by (cases p) (auto split: option.splits if_splits simp: fun_upd_idem)

lemma store_load_id: "load m p n = Some xs \<Longrightarrow> store m p xs = Some m' \<Longrightarrow> m' = m"
proof (induction n arbitrary: p xs)
  case (Suc n)
  then show ?case by (auto simp: load_Suc_Some wr_same simp del: load.simps)
qed simp

lemma and_3: "(n :: nat) AND 3 = n mod 4"
  using take_bit_eq_mask [of 2 n] by (simp add: take_bit_eq_mod mask_eq_exp_minus_1)

lemma align_le:
  "(if P then 0 else if Q \<or> len < 4 then len else 4 - (s AND 3 :: nat)) \<le> len"
  "(if P then 0 else if Q \<or> len \<le> 4 then len else (s AND 3 :: nat)) \<le> len"
  by (auto simp: and_3)

text \<open>The three loops of a direction, put together.\<close>

lemma fwd_copy_store:
  assumes "load m s len = Some xs" "store m d xs = Some m'" "fwd_ok d s" "d \<noteq> Null" "s \<noteq> Null" "t \<le> len"
  shows "do { (m1, dst, src) \<leftarrow> fwd_bytes t m d s;
              (m2, dst, src) \<leftarrow> fwd_words ((len - t) div 4) m1 dst src;
              (m3, dst, src) \<leftarrow> fwd_bytes ((len - t) AND 3) m2 dst src;
              Some m3 } = Some m'"
proof -
  let ?w = "(len - t) div 4" and ?r = "(len - t) mod 4"
  have split: "4 * ?w + ?r = len - t" by simp
  obtain m1 where m1: "load m s t = Some (take t xs)" "store m d (take t xs) = Some m1"
    "load m1 (padd s t) (4 * ?w + ?r) = Some (drop t xs)" "store m1 (padd d t) (drop t xs) = Some m'"
    using copy_split_fwd [of m s t "4 * ?w + ?r" xs d m'] assms unfolding split by auto
  have ok1: "fwd_ok (padd d t) (padd s t)" using assms by (auto intro: fwd_ok_padd)
  obtain m2 where m2: "load m1 (padd s t) (4 * ?w) = Some (take (4 * ?w) (drop t xs))"
    "store m1 (padd d t) (take (4 * ?w) (drop t xs)) = Some m2"
    "load m2 (padd (padd s t) (4 * ?w)) ?r = Some (drop (4 * ?w) (drop t xs))"
    "store m2 (padd (padd d t) (4 * ?w)) (drop (4 * ?w) (drop t xs)) = Some m'"
    using copy_split_fwd [of m1 "padd s t" "4 * ?w" ?r "drop t xs" "padd d t" m'] m1 ok1 assms by auto
  have ok2: "fwd_ok (padd (padd d t) (4 * ?w)) (padd (padd s t) (4 * ?w))"
    using ok1 assms by (auto intro!: fwd_ok_padd simp del: padd_padd)
  have "fwd_bytes t m d s = Some (m1, padd d t, padd s t)"
    using m1 assms by (intro fwd_bytes_store)
  moreover have "fwd_words ?w m1 (padd d t) (padd s t) = Some (m2, padd (padd d t) (4 * ?w), padd (padd s t) (4 * ?w))"
    using m2 ok1 assms by (intro fwd_words_store) auto
  moreover have "fwd_bytes ?r m2 (padd (padd d t) (4 * ?w)) (padd (padd s t) (4 * ?w)) =
      Some (m', padd (padd (padd d t) (4 * ?w)) ?r, padd (padd (padd s t) (4 * ?w)) ?r)"
    using m2 ok2 assms by (intro fwd_bytes_store) auto
  ultimately show ?thesis by (simp add: and_3)
qed

lemma back_copy_store:
  assumes "load m s len = Some xs" "store m d xs = Some m'" "back_ok d s" "d \<noteq> Null" "s \<noteq> Null" "t \<le> len"
  shows "do { (m1, dst, src) \<leftarrow> back_bytes t m (padd d len) (padd s len);
              (m2, dst, src) \<leftarrow> back_words ((len - t) div 4) m1 dst src;
              (m3, dst, src) \<leftarrow> back_bytes ((len - t) AND 3) m2 dst src;
              Some m3 } = Some m'"
proof -
  let ?w = "(len - t) div 4" and ?r = "(len - t) mod 4"
  have split: "?r + 4 * ?w = len - t" by simp
  obtain m1 where m1: "load m (padd s (len - t)) t = Some (drop (len - t) xs)"
    "store m (padd d (len - t)) (drop (len - t) xs) = Some m1"
    "load m1 s (?r + 4 * ?w) = Some (take (len - t) xs)" "store m1 d (take (len - t) xs) = Some m'"
    using copy_split_back [of m s "len - t" t xs d m'] assms unfolding split by auto
  obtain m2 where m2: "load m1 (padd s ?r) (4 * ?w) = Some (drop ?r (take (len - t) xs))"
    "store m1 (padd d ?r) (drop ?r (take (len - t) xs)) = Some m2"
    "load m2 s ?r = Some (take ?r (take (len - t) xs))" "store m2 d (take ?r (take (len - t) xs)) = Some m'"
    using copy_split_back [OF m1(3,4) assms(3-5)] by auto
  have ok: "back_ok (padd d k) (padd s k)" for k
    using assms(3-5) by (cases d; cases s) (auto simp: back_ok_def)
  have "back_bytes t m (padd (padd d (len - t)) t) (padd (padd s (len - t)) t)
      = Some (m1, padd d (len - t), padd s (len - t))"
    using m1 assms ok by (intro back_bytes_store) auto
  then have 1: "back_bytes t m (padd d len) (padd s len) = Some (m1, padd d (len - t), padd s (len - t))"
    using assms(6) by simp
  have "back_words ?w m1 (padd (padd d ?r) (4 * ?w)) (padd (padd s ?r) (4 * ?w)) = Some (m2, padd d ?r, padd s ?r)"
    using m2 assms ok by (intro back_words_store) auto
  then have 2: "back_words ?w m1 (padd d (len - t)) (padd s (len - t)) = Some (m2, padd d ?r, padd s ?r)"
    by (simp only: padd_padd split)
  have 3: "back_bytes ?r m2 (padd d ?r) (padd s ?r) = Some (m', d, s)"
    using m2 assms by (intro back_bytes_store) auto
  show ?thesis using 1 2 3 by (simp add: and_3)
qed

text \<open>\<open>mem_copy\<close> is a memory move: whatever the placement, the alignment and the overlap.\<close>

lemma mem_copy_store:
  assumes ld: "load m src n = Some xs" and st: "store m dst xs = Some m'"
  shows "mem_copy base m dst src n = Some m'"
proof (cases "n = 0 \<or> dst = src")
  case True
  have "m' = m"
  proof (cases "n = 0")
    case True
    then show ?thesis using ld st by simp
  next
    case False
    with \<open>n = 0 \<or> dst = src\<close> have "dst = src" by simp
    with ld st show ?thesis using store_load_id by metis
  qed
  with True show ?thesis by (simp add: mem_copy_def)
next
  case False
  with ld st have nn: "dst \<noteq> Null" "src \<noteq> Null"
    using load_length [OF ld] by (auto simp: load_Null_iff store_Null_iff)
  show ?thesis
  proof (cases "addr base dst < addr base src")
    case True
    then have "fwd_ok dst src" using nn by (cases dst; cases src) (auto simp: fwd_ok_def)
    from fwd_copy_store [OF ld st this nn align_le(1)] False True show ?thesis
      by (simp add: mem_copy_def Let_def)
  next
    case F: False
    then have "back_ok dst src" using nn by (cases dst; cases src) (auto simp: back_ok_def)
    from back_copy_store [OF ld st this nn align_le(2)] False F show ?thesis
      by (simp add: mem_copy_def Let_def)
  qed
qed

subsection \<open>What the bounded copies write\<close>

text \<open>The at most \<open>n\<close> bytes of a string that a bounded copy reads.\<close>

primrec strn :: "mem \<Rightarrow> ptr \<Rightarrow> nat \<Rightarrow> byte list option" where
  "strn m p 0 = Some []"
| "strn m p (Suc n) =
     rd m p \<bind> (\<lambda>c. if c = 0 then Some [] else map_option ((#) c) (strn m (padd p 1) n))"

lemma strn_cstr: "cstr m p = Some s \<Longrightarrow> strn m p n = Some (take n s)"
proof (induction n arbitrary: p s)
  case (Suc n)
  then show ?case by (cases s) (auto simp: cstr_simps)
qed simp

lemma strn_load: "load m p n = Some xs \<Longrightarrow> strn m p n = Some (takeWhile (\<lambda>c. c \<noteq> 0) xs)"
proof (induction n arbitrary: p xs)
  case (Suc n)
  then show ?case by (auto simp: load_Suc_Some simp del: load.simps)
qed simp

lemma strn_cong_rd:
  "(\<And>k. k < n \<Longrightarrow> rd m' (padd p k) = rd m (padd p k)) \<Longrightarrow> strn m' p n = strn m p n"
proof (induction n arbitrary: p)
  case (Suc n)
  have "strn m' (padd p 1) n = strn m (padd p 1) n"
    using Suc.prems [of "Suc _"] by (intro Suc.IH) simp
  then show ?case using Suc.prems [of 0] by (simp cong: if_cong)
qed simp

lemma strn_length: "strn m p n = Some s \<Longrightarrow> length s \<le> n"
  by (induction n arbitrary: p s) (auto split: bind_splits if_splits)

lemma strn_no_nul: "strn m p n = Some s \<Longrightarrow> 0 \<notin> set s"
  by (induction n arbitrary: p s) (auto split: bind_splits if_splits)

lemma str_byte_copy_loop_store:
  assumes "strn m sp (n - len) = Some s" "store m (padd dest len) s = Some m'"
    "fwd_ok (padd dest len) sp"
  shows "str_byte_copy_loop m dest sp n len = Some (m', len + length s)"
  using assms
proof (induction "n - len" arbitrary: m sp len s)
  case 0
  then show ?case by (subst str_byte_copy_loop.simps) simp
next
  case (Suc k)
  then have lt: "len < n" and k: "n - len = Suc k" "n - Suc len = k" by auto
  from Suc.prems(1) k obtain c where c: "rd m sp = Some c" by (auto split: bind_splits)
  show ?case
  proof (cases "c = 0")
    case True
    then show ?thesis using Suc.prems k c lt by (subst str_byte_copy_loop.simps) simp
  next
    case False
    with Suc.prems(1) k c obtain s1 where s1: "s = c # s1" "strn m (padd sp 1) k = Some s1"
      by (auto split: bind_splits)
    with Suc.prems(2) obtain m1 where m1: "wr m (padd dest len) c = Some m1"
      "store m1 (padd dest (Suc len)) s1 = Some m'"
      by (auto split: bind_splits)
    have nn: "dest \<noteq> Null" "sp \<noteq> Null" using m1(1) c by auto
    have "strn m1 (padd sp 1) k = strn m (padd sp 1) k"
      using Suc.prems(3) nn
      by (intro strn_cong_rd rd_wr_other [OF m1(1)]) (cases dest; cases sp; auto simp: fwd_ok_def)
    moreover have "fwd_ok (padd dest (Suc len)) (padd sp 1)"
      using Suc.prems(3) nn by (cases dest; cases sp) (auto simp: fwd_ok_def)
    ultimately have "str_byte_copy_loop m1 dest (padd sp 1) n (Suc len) = Some (m', Suc len + length s1)"
      using Suc.hyps(1) [of "Suc len" m1 "padd sp 1" s1] k s1 m1 by simp
    then show ?thesis using lt c False m1 s1 by (subst str_byte_copy_loop.simps) simp
  qed
qed

lemma str_byte_copy_store:
  "strn m src n = Some s \<Longrightarrow> store m dest s = Some m' \<Longrightarrow> fwd_ok dest src \<Longrightarrow>
   str_byte_copy m dest src n = Some (m', length s)"
  using str_byte_copy_loop_store [of m src n 0 s dest m'] by (simp add: str_byte_copy_def)

lemma str_copy_store:
  assumes "strn m src (min n (size_pred dest_len)) = Some s" "store m dest (s @ [0]) = Some m'"
    "fwd_ok dest src" "src \<noteq> Null"
  shows "str_copy m dest dest_len src n = Some (m', length s)"
proof -
  from assms(2) obtain m1 where m1: "store m dest s = Some m1" "wr m1 (padd dest (length s)) 0 = Some m'"
    by (auto simp: store_append split: bind_splits)
  have "str_byte_copy m dest src (min n (size_pred dest_len)) = Some (m1, length s)"
    using assms m1 by (intro str_byte_copy_store)
  moreover have "(if n > size_pred dest_len then size_pred dest_len else n) = min n (size_pred dest_len)"
    by (simp add: min_def)
  ultimately show ?thesis using m1 assms(4) by (simp add: str_copy_def)
qed

lemma str_copy_Null:
  "wr m dest 0 = Some m' \<Longrightarrow> str_copy m dest dest_len Null n = Some (m', 0)"
  by (simp add: str_copy_def)

lemma str_new_with_len_store:
  assumes "strn m source len = Some s" "store m new (s @ [0]) = Some m'" "blk new \<noteq> blk source"
    "source \<noteq> Null"
  shows "str_new_with_len m new source len = Some (m', new)"
  using str_copy_store [of m source len "len + 1" s new m'] assms
  by (simp add: str_new_with_len_def size_pred_def fwd_ok_def)

lemma str_new_with_store:
  assumes "cstr m source = Some s" "store m new (s @ [0]) = Some m'" "blk new \<noteq> blk source"
  shows "str_new_with m new source = Some (m', new)" "cstr m' new = Some s"
proof -
  have "strn m source (length s) = Some s" using strn_cstr [OF assms(1), of "length s"] by simp
  then show "str_new_with m new source = Some (m', new)"
    using str_new_with_len_store [of m source "length s" s new m'] assms
      cstr_not_Null [OF assms(1)]
    by (auto simp: str_new_with_def bytelen_eq)
  show "cstr m' new = Some s"
    using cstr_store [OF assms(2)] cstr_no_nul [OF assms(1)] by simp
qed

lemma str_cat_loop_store:
  assumes "cstr m (padd src i) = Some s" "store m sp (take (lim - (i + len)) s) = Some m'"
    "blk sp \<noteq> blk src"
  shows "str_cat_loop m sp src i len lim =
    Some (m', padd sp (length (take (lim - (i + len)) s)), i + length (take (lim - (i + len)) s))"
  using assms
proof (induction s arbitrary: m sp i)
  case Nil
  then show ?case by (subst str_cat_loop.simps) (simp add: cstr_simps)
next
  case (Cons c s)
  have c: "rd m (padd src i) = Some c" "c \<noteq> 0" "cstr m (padd src (Suc i)) = Some s"
    using Cons.prems(1) by (auto simp: cstr_simps)
  show ?case
  proof (cases "i + len < lim")
    case False
    then show ?thesis using c Cons.prems(2) by (subst str_cat_loop.simps) simp
  next
    case True
    then obtain k where k: "lim - (i + len) = Suc k" by (metis Suc_diff_Suc)
    then have k': "lim - (Suc i + len) = k" by simp
    from Cons.prems(2) k obtain m1 where m1: "wr m sp c = Some m1" "store m1 (padd sp 1) (take k s) = Some m'"
      by (auto split: bind_splits)
    have b: "blk (padd src j) = blk src" "blk (padd sp 1) = blk sp" for j
      using c(1) m1(1) by (cases src; simp) (cases sp; simp)
    have "cstr m1 (padd src (Suc i)) = Some s"
      using cstr_wr_other_block [OF m1(1), of "padd src (Suc i)"] c(3) Cons.prems(3) b by simp
    then have "str_cat_loop m1 (padd sp 1) src (Suc i) len lim =
        Some (m', padd (padd sp 1) (length (take k s)), Suc i + length (take k s))"
      using Cons.IH [of m1 "Suc i" "padd sp 1"] m1 Cons.prems(3) k' b by simp
    then show ?thesis using c True m1 k by (subst str_cat_loop.simps) simp
  qed
qed

lemma str_cat_store:
  assumes d: "cstr m dest = Some d" and s: "cstr m src = Some s" and b: "blk dest \<noteq> blk src"
    and st: "store m (padd dest (length d)) (take (size_pred dest_sz - length d) s @ [0]) = Some m'"
  shows "str_cat m dest dest_sz src = Some (m', length d + length (take (size_pred dest_sz - length d) s))"
proof -
  let ?t = "take (size_pred dest_sz - length d) s"
  from st obtain m1 where m1: "store m (padd dest (length d)) ?t = Some m1"
    "wr m1 (padd (padd dest (length d)) (length ?t)) 0 = Some m'"
    by (auto simp: store_append split: bind_splits)
  obtain db di where dest: "dest = Ptr db di" using cstr_not_Null [OF d] by (cases dest) auto
  have "str_cat_loop m (padd dest (length d)) src 0 (length d) (size_pred dest_sz) =
      Some (m1, padd (padd dest (length d)) (length ?t), 0 + length ?t)"
    using str_cat_loop_store [of m src 0 s "padd dest (length d)" "size_pred dest_sz" "length d" m1]
      s m1(1) b dest by simp
  then show ?thesis
    using str_chr_nul [OF d] m1(2) by (simp add: str_cat_def dest Let_def)
qed

lemma substr_loop_store:
  assumes "load m src n = Some xs" "store m (padd dest i) xs = Some m'" "blk dest \<noteq> blk src"
  shows "substr_loop n m dest src i = Some m'"
  using assms
proof (induction n arbitrary: m src i xs)
  case (Suc n)
  from Suc.prems(1) obtain c cs where c: "xs = c # cs" "rd m src = Some c" "load m (padd src 1) n = Some cs"
    by (auto simp: load_Suc_Some simp del: load.simps)
  with Suc.prems(2) obtain m1 where m1: "wr m (padd dest i) c = Some m1" "store m1 (padd dest (Suc i)) cs = Some m'"
    by (auto split: bind_splits)
  have b: "blk (padd src 1) = blk src" "blk (padd dest i) = blk dest"
    using c(2) m1(1) by (cases src; simp) (cases dest; simp)
  have "load m1 (padd src 1) n = load m (padd src 1) n"
    using Suc.prems(3) b c(2) m1(1)
    by (intro load_cong_rd rd_wr_other [OF m1(1)]) (cases src; cases dest; auto)
  then have "substr_loop n m1 dest (padd src 1) (Suc i) = Some m'"
    using Suc.IH [of m1 "padd src 1" cs "Suc i"] c m1 Suc.prems(3) b by simp
  then show ?case using c m1 by simp
qed simp

lemma str_get_substr_at_store:
  assumes "load m (padd src idx) len = Some xs" "store m dest (xs @ [0]) = Some m'"
    "blk dest \<noteq> blk src" "idx + len \<le> src_len"
  shows "str_get_substr_at m dest len src src_len idx = Some (m', dest)"
proof (cases "src = Null")
  case True
  then show ?thesis using assms by (auto simp: str_get_substr_at_def load_Null_iff)
next
  case False
  then have b: "blk (padd src idx) = blk src" by (cases src) auto
  from assms(2) obtain m1 where m1: "store m dest xs = Some m1" "wr m1 (padd dest len) 0 = Some m'"
    using load_length [OF assms(1)] by (auto simp: store_append split: bind_splits)
  then have "substr_loop len m dest (padd src idx) 0 = Some m1"
    using substr_loop_store [of m "padd src idx" len xs dest 0 m1] assms b by simp
  then show ?thesis using m1 assms(4) by (simp add: str_get_substr_at_def)
qed

lemma shrink_eq: "shrink idx len n = (if idx \<le> len then Some (min n (len - idx)) else None)"
proof (induction n)
  case 0
  then show ?case by (subst shrink.simps) simp
next
  case (Suc n)
  then show ?case by (subst shrink.simps) (auto simp: min_def)
qed

text \<open>Moving to a higher index is a memory move of what fits.\<close>

lemma str_byte_move_right:
  assumes "from_idx < to_idx" "to_idx \<le> len" "n = min nelem (len - to_idx)"
    and "load m (padd str from_idx) n = Some xs" "store m (padd str to_idx) xs = Some m'" "str \<noteq> Null"
  shows "str_byte_move m str len to_idx from_idx nelem = Some (m', n)"
proof -
  have "back_ok (padd str to_idx) (padd str from_idx)"
    using assms by (cases str) (auto simp: back_ok_def)
  then have "back_bytes n m (padd (padd str to_idx) n) (padd (padd str from_idx) n)
      = Some (m', padd str to_idx, padd str from_idx)"
    using assms by (intro back_bytes_store) auto
  then show ?thesis using assms(1-3) by (simp add: str_byte_move_def shrink_eq)
qed

text \<open>Moving to a lower index stops after the first NUL byte, which it writes.\<close>

definition up_to_nul :: "byte list \<Rightarrow> byte list" where
  "up_to_nul xs = takeWhile (\<lambda>c. c \<noteq> 0) xs @ (if 0 \<in> set xs then [0] else [])"

lemma up_to_nul_simps [simp]:
  "up_to_nul [] = []"
  "up_to_nul (c # xs) = (if c = 0 then [0] else c # up_to_nul xs)"
  by (auto simp: up_to_nul_def)

lemma move_left_loop_store:
  assumes "load m s n = Some xs" "store m d (up_to_nul xs) = Some m'" "fwd_ok d s" "d \<noteq> Null" "s \<noteq> Null"
  shows "move_left_loop n m d s = Some (m', n - length (takeWhile (\<lambda>c. c \<noteq> 0) xs))"
  using assms
proof (induction n arbitrary: m d s xs)
  case (Suc n)
  from Suc.prems(1) obtain c cs where c: "xs = c # cs" "rd m s = Some c" "load m (padd s 1) n = Some cs"
    by (auto simp: load_Suc_Some simp del: load.simps)
  show ?case
  proof (cases "c = 0")
    case True
    then show ?thesis using c Suc.prems(2) by (auto split: bind_splits)
  next
    case False
    with c Suc.prems(2) obtain m1 where m1: "wr m d c = Some m1" "store m1 (padd d 1) (up_to_nul cs) = Some m'"
      by (auto split: bind_splits)
    have "load m1 (padd s 1) n = load m (padd s 1) n"
      using load_after_store_fwd [of m d "[c]" m1 s n] m1 Suc.prems by simp
    then have "move_left_loop n m1 (padd d 1) (padd s 1) = Some (m', n - length (takeWhile (\<lambda>c. c \<noteq> 0) cs))"
      using c m1 Suc.prems by (intro Suc.IH) (auto intro: fwd_ok_padd)
    then show ?thesis using c m1 False by simp
  qed
qed simp

lemma str_byte_move_left:
  assumes "to_idx < from_idx" "from_idx \<le> len" "n = min nelem (len - from_idx)"
    and "load m (padd str from_idx) n = Some xs" "store m (padd str to_idx) (up_to_nul xs) = Some m'" "str \<noteq> Null"
  shows "str_byte_move m str len to_idx from_idx nelem =
    Some (m', length (takeWhile (\<lambda>c. c \<noteq> 0) xs))"
proof -
  have l: "length (takeWhile (\<lambda>c. c \<noteq> 0) xs) \<le> n"
    using load_length [OF assms(4)] length_takeWhile_le by metis
  have "fwd_ok (padd str to_idx) (padd str from_idx)"
    using assms by (cases str) (auto simp: fwd_ok_def)
  then have "move_left_loop n m (padd str to_idx) (padd str from_idx) =
      Some (m', n - length (takeWhile (\<lambda>c. c \<noteq> 0) xs))"
    using assms by (intro move_left_loop_store) auto
  moreover have "min (min nelem (len - to_idx)) (len - from_idx) = n"
    using assms(1-3) by auto
  ultimately show ?thesis using assms(1,2) l by (simp add: str_byte_move_def shrink_eq)
qed

text \<open>\<open>mem_set\<close> fills, and its bounded form fills no more than the destination holds.\<close>

lemma mem_set_loop_store: "mem_set_loop n m p c = store m p (replicate n c)"
  by (induction n arbitrary: m p) auto

lemma mem_set_store:
  "dest \<noteq> Null \<Longrightarrow> store m dest (replicate n (word_of_int c)) = Some m' \<Longrightarrow> mem_set m dest c n = Some (m', dest)"
  by (auto simp: mem_set_def mem_set_loop_store)

lemma mem_set_s_loop_store:
  "mem_set_s_loop m p c i destsz count = store m p (replicate (min (destsz - i) count) c)"
proof (induction count arbitrary: m p i)
  case 0
  then show ?case by (subst mem_set_s_loop.simps) simp
next
  case (Suc count)
  show ?case
  proof (cases "i < destsz")
    case True
    then obtain k where k: "destsz - i = Suc k" by (metis Suc_diff_Suc)
    then have "destsz - Suc i = k" by simp
    then show ?thesis using Suc.IH True k by (subst mem_set_s_loop.simps) simp
  qed (subst mem_set_s_loop.simps, simp)
qed

lemma mem_set_s_store:
  "dest \<noteq> Null \<Longrightarrow> store m dest (replicate (min destsz n) (word_of_int c)) = Some m' \<Longrightarrow>
   mem_set_s m dest destsz c n = Some (m', dest)"
  by (auto simp: mem_set_s_def mem_set_s_loop_store)

lemma load_intro:
  "(\<And>k. k < length xs \<Longrightarrow> rd m (padd p k) = Some (xs ! k)) \<Longrightarrow> load m p (length xs) = Some xs"
proof (induction xs arbitrary: p)
  case (Cons x xs)
  have "load m (padd p 1) (length xs) = Some xs"
    using Cons.prems [of "Suc _"] by (intro Cons.IH) auto
  then show ?case using Cons.prems [of 0] by simp
qed simp

subsection \<open>Properties\<close>

text \<open>Property C1. \<open>mem_copy\<close> moves the \<open>n\<close> bytes correctly whatever the overlap and the
  alignment of the two ranges: the word-wise and byte-wise loops, forwards or backwards, leave
  the memory that storing the bytes read beforehand gives.\<close>

theorem mem_copy_moves:
  assumes "load m src n = Some xs" "store m dst xs = Some m'"
  shows "mem_copy base m dst src n = Some m' \<and> load m' dst n = Some xs"
proof -
  have "load m' dst n = Some xs"
  proof -
    have n: "length xs = n" using load_length [OF assms(1)] .
    have "\<forall>k < length xs. rd m' (padd dst k) = Some (xs ! k)" using rd_store_same [OF assms(2)] by blast
    then show ?thesis using n load_intro [of xs m' dst] by simp
  qed
  then show ?thesis using mem_copy_store [OF assms] by simp
qed

lemma mem_copy_moves_witness:
  "mem_copy (\<lambda>b. 0) (\<lambda>b. Some [1, 2, 3, 4]) (Ptr 0 1) (Ptr 0 0) 3 \<noteq> None"
proof -
  let ?m = "\<lambda>b. Some [1, 2, 3, 4 :: byte]"
  have l: "load ?m (Ptr 0 0) 3 = Some [1, 2, 3]" by (simp add: numeral_eq_Suc)
  have s: "store ?m (Ptr 0 1) [1, 2, 3] = Some (?m (0 \<mapsto> [1, 1, 2, 3]))"
    using store_block [of ?m 0 "[1, 2, 3, 4]" 1 "[1, 2, 3]"] by simp
  show ?thesis using mem_copy_moves [OF l s, of "\<lambda>b. 0"] by simp
qed

text \<open>
  \<open>str_copy\<close> copies as much of the source as the length and the size of the
  destination allow, always terminates the result, answers the number of bytes copied and
  writes to no other block.\<close>

theorem str_copy_bounded:
  assumes "cstr m src = Some s" "blk dest \<noteq> blk src" "0 < dest_len" "dest_len \<le> room m dest"
    "r = take (min n (dest_len - 1)) s"
  shows "\<exists>m'. str_copy m dest dest_len src n = Some (m', length r) \<and> cstr m' dest = Some r \<and>
    (\<forall>b. b \<noteq> blk dest \<longrightarrow> m' b = m b)"
proof -
  have r: "strn m src (min n (size_pred dest_len)) = Some r"
    using strn_cstr [OF assms(1)] assms(3) by (simp add: assms(5) size_pred_def)
  have "length (r @ [0]) \<le> room m dest" using assms(3,4) by (simp add: assms(5))
  then obtain m' where m': "store m dest (r @ [0]) = Some m'" using store_fits [of m dest "r @ [0]"] by auto
  have "0 \<notin> set r" using cstr_no_nul [OF assms(1)] by (auto simp: assms(5) dest: in_set_takeD)
  then show ?thesis
    using str_copy_store [OF r m' _ cstr_not_Null [OF assms(1)]] assms(2) cstr_store [OF m'] store_other_block [OF m']
    by (auto simp: fwd_ok_def)
qed

lemma str_copy_bounded_witness:
  "\<exists>m'. str_copy (\<lambda>b. Some [97, 98, 99, 0]) (Ptr 1 0) 3 (Ptr 0 0) 9 = Some (m', 2)"
proof -
  let ?m = "\<lambda>b. Some [97, 98, 99, 0 :: byte]"
  have "cstr ?m (Ptr 0 0) = Some [97, 98, 99]" by (simp add: cstr_simps)
  from str_copy_bounded [OF this, of "Ptr 1 0" 3 _ 9] show ?thesis by auto
qed

text \<open>
  \<open>str_cat\<close> appends what fits the destination's size, terminates the result
  and answers the new length.\<close>

theorem str_cat_bounded:
  assumes "cstr m dest = Some d" "cstr m src = Some s" "blk dest \<noteq> blk src"
    "length d < dest_sz" "dest_sz \<le> room m dest"
    "r = take (dest_sz - 1) (d @ s)"
  shows "\<exists>m'. str_cat m dest dest_sz src = Some (m', length r) \<and> cstr m' dest = Some r"
proof -
  let ?t = "take (size_pred dest_sz - length d) s"
  have sp: "size_pred dest_sz = dest_sz - 1" using assms(4) by (simp add: size_pred_def)
  have r: "r = d @ ?t" using assms(4) by (simp add: assms(6) sp)
  have "length (?t @ [0]) \<le> room m (padd dest (length d))" using assms(4,5) sp by simp
  then obtain m' where m': "store m (padd dest (length d)) (?t @ [0]) = Some m'"
    using store_fits [of m "padd dest (length d)" "?t @ [0]"] by auto
  have "cstr m' dest = Some r"
  proof (rule cstr_intro)
    fix k assume "k < length r"
    show "rd m' (padd dest k) = Some (r ! k)"
    proof (cases "k < length d")
      case True
      then have "rd m' (padd dest k) = rd m (padd dest k)"
        using cstr_not_Null [OF assms(1)] by (intro rd_store_other [OF m']) (cases dest; auto)
      then show ?thesis using cstr_rd [OF assms(1), of k] True by (simp add: r nth_append)
    next
      case False
      then have k: "k - length d < length ?t" using \<open>k < length r\<close> by (auto simp: r min_def split: if_splits)
      then have "rd m' (padd (padd dest (length d)) (k - length d)) = Some ((?t @ [0]) ! (k - length d))"
        by (intro rd_store_same [OF m']) (auto simp: min_def)
      then show ?thesis using False k by (simp add: r nth_append)
    qed
  next
    have "rd m' (padd (padd dest (length d)) (length ?t)) = Some ((?t @ [0]) ! length ?t)"
      by (intro rd_store_same [OF m']) simp
    then show "rd m' (padd dest (length r)) = Some 0" by (simp add: r nth_append)
  next
    show "0 \<notin> set r" using cstr_no_nul [OF assms(1)] cstr_no_nul [OF assms(2)] by (auto simp: r dest: in_set_takeD)
  qed
  then show ?thesis using str_cat_store [OF assms(1,2,3) m'] by (simp add: r)
qed

lemma str_cat_bounded_witness:
  "\<exists>m'. str_cat ((\<lambda>b. Some [97, 98, 99, 0])(1 \<mapsto> [120, 0, 0, 0])) (Ptr 1 0) 3 (Ptr 0 0) = Some (m', 2)"
proof -
  let ?m = "(\<lambda>b. Some [97, 98, 99, 0 :: byte])(1 \<mapsto> [120, 0, 0, 0])"
  have "cstr ?m (Ptr 1 0) = Some [120]" "cstr ?m (Ptr 0 0) = Some [97, 98, 99]" by (simp_all add: cstr_simps)
  from str_cat_bounded [OF this, of 3] show ?thesis by auto
qed

end
