(* ===== verification/Strbuf.thy ===== *)
theory Strbuf
  imports Cmemory
begin

section \<open>Growable strings\<close>

text \<open>
  \<open>string/string.c\<close> with \<open>string_alloc.c\<close>, \<open>string_insert_at_with_len.c\<close>,
  \<open>string_append_with_len.c\<close> and \<open>string_release_bytes.c\<close>: a byte buffer with its
  length and capacity, edited in place and reallocated when it is full.

  A call that allocates is given what the allocator grants: a block and its contents, at least
  as long as the request. The \<open>struct string\<close> itself is passed by value, so the block that
  \<open>string_new\<close> allocates for it is not in the memory. The formatted variants
  (\<open>_with_fmt\<close>) format into a local buffer first and are not modelled.
\<close>

record strbuf =
  sb_bytes :: ptr
  sb_num :: nat
  sb_size :: nat

definition MIN_STRING_SIZE :: nat where "MIN_STRING_SIZE = 8"

text \<open>The fields are \<open>uint\<close>: results are kept modulo $2^{32}$, and a cast to \<open>int\<close> reads
  the upper half as negative.\<close>

definition to_int :: "nat \<Rightarrow> int" where
  "to_int n = (if n < 2 ^ 31 then int n else int n - 2 ^ 32)"

subsection \<open>The allocator's answers\<close>

type_synonym grant = "nat \<times> byte list"

definition grant_alloc :: "mem \<Rightarrow> nat \<Rightarrow> grant \<Rightarrow> (mem \<times> ptr) option" where
  "grant_alloc m n g = (if n \<le> length (snd g) then Some (m(fst g \<mapsto> snd g), Ptr (fst g) 0) else None)"

definition grant_realloc :: "mem \<Rightarrow> ptr \<Rightarrow> nat \<Rightarrow> grant \<Rightarrow> (mem \<times> ptr) option" where
  "grant_realloc m p n g =
     (case p of Null \<Rightarrow> grant_alloc m n g
      | Ptr b i \<Rightarrow> (case m b of None \<Rightarrow> None
          | Some old \<Rightarrow>
              let new = take (length (snd g)) old @ drop (length old) (snd g) in
              if n \<le> length (snd g) then Some ((m(b := None))(fst g \<mapsto> new), Ptr (fst g) 0) else None))"

definition grant_free :: "mem \<Rightarrow> ptr \<Rightarrow> mem option" where
  "grant_free m p = (case p of Null \<Rightarrow> None | Ptr b i \<Rightarrow> if m b = None then None else Some (m(b := None)))"

text \<open>\<open>mem_get_actual_size\<close> is the length of the block.\<close>

definition string_alloc_bytes :: "mem \<Rightarrow> strbuf \<Rightarrow> nat \<Rightarrow> grant \<Rightarrow> (mem \<times> strbuf) option" where
  "string_alloc_bytes m this nsize g =
     (let sz = (if nsize = 0 then MIN_STRING_SIZE else nsize) in
      do { (m', p) \<leftarrow> grant_alloc m sz g;
           Some (m', this\<lparr>sb_bytes := p, sb_size := u32 (int (room m' p)), sb_num := 0\<rparr>) })"

definition string_realloc_bytes :: "mem \<Rightarrow> strbuf \<Rightarrow> nat \<Rightarrow> grant \<Rightarrow> (mem \<times> strbuf) option" where
  "string_realloc_bytes m this nsize g =
     (let sz = sb_size this + nsize + 1 in
      do { (m', p) \<leftarrow> grant_realloc m (sb_bytes this) sz g;
           Some (m', this\<lparr>sb_bytes := p, sb_size := u32 (int (room m' p))\<rparr>) })"

definition string_release_bytes :: "mem \<Rightarrow> strbuf \<Rightarrow> (mem \<times> strbuf) option" where
  "string_release_bytes m this =
     do { m' \<leftarrow> (if sb_size this \<noteq> 0 then grant_free m (sb_bytes this) else Some m);
          Some (m', this\<lparr>sb_size := 0, sb_num := 0\<rparr>) }"

definition string_release :: "mem \<Rightarrow> strbuf option \<Rightarrow> mem option" where
  "string_release m this =
     (case this of None \<Rightarrow> Some m | Some t \<Rightarrow> map_option fst (string_release_bytes m t))"

subsection \<open>Clearing\<close>

definition string_clear :: "mem \<Rightarrow> strbuf \<Rightarrow> (mem \<times> strbuf) option" where
  "string_clear m this =
     (if sb_num this = 0 then Some (m, this)
      else do { m' \<leftarrow> wr m (sb_bytes this) 0; Some (m', this\<lparr>sb_num := 0\<rparr>) })"

definition string_clear_at :: "mem \<Rightarrow> strbuf \<Rightarrow> int \<Rightarrow> (mem \<times> strbuf) option" where
  "string_clear_at m this idx =
     (let idx = (if 0 > idx then to_int (u32 (idx + int (sb_num this))) else idx) in
      if idx < 0 then Some (m, this)
      else (let idx = (if idx > to_int (sb_num this) then to_int (sb_num this) else idx) in
            if idx < 0 then None
            else do { m' \<leftarrow> wr m (padd (sb_bytes this) (nat idx)) 0;
                      Some (m', this\<lparr>sb_num := nat idx\<rparr>) }))"

subsection \<open>Construction\<close>

definition string_new :: "mem \<Rightarrow> nat \<Rightarrow> grant \<Rightarrow> (mem \<times> strbuf) option" where
  "string_new m nsize g =
     do { (m1, s) \<leftarrow> string_alloc_bytes m \<lparr>sb_bytes = Null, sb_num = 0, sb_size = 0\<rparr> nsize g;
          m2 \<leftarrow> wr m1 (sb_bytes s) 0;
          Some (m2, s) }"

definition string_new_with_len :: "mem \<Rightarrow> ptr \<Rightarrow> nat \<Rightarrow> grant \<Rightarrow> (mem \<times> strbuf) option" where
  "string_new_with_len m bytes len g =
     do { (m1, new) \<leftarrow> string_new m (len + 1) g;
          (m2, _) \<leftarrow> str_copy m1 (sb_bytes new) (sb_size new) bytes len;
          Some (m2, new\<lparr>sb_num := u32 (int len)\<rparr>) }"

definition string_new_with :: "mem \<Rightarrow> ptr \<Rightarrow> grant \<Rightarrow> (mem \<times> strbuf) option" where
  "string_new_with m bytes g =
     do { len \<leftarrow> (if bytes = Null then Some 0 else bytelen m bytes);
          string_new_with_len m bytes len g }"

definition string_dup :: "mem \<Rightarrow> strbuf \<Rightarrow> grant \<Rightarrow> (mem \<times> strbuf) option" where
  "string_dup m this g = string_new_with_len m (sb_bytes this) (sb_num this) g"

definition string_new_with_allocated :: "mem \<Rightarrow> ptr \<Rightarrow> nat \<Rightarrow> nat \<Rightarrow> (mem \<times> strbuf option) option" where
  "string_new_with_allocated m allocated len nsize =
     (if len > nsize then Some (m, None)
      else do { m' \<leftarrow> wr m (padd allocated len) 0;
                Some (m', Some \<lparr>sb_bytes = allocated, sb_num = u32 (int len), sb_size = u32 (int nsize)\<rparr>) })"

subsection \<open>Insertion\<close>

text \<open>An index that is negative, where it is not the count itself, is a pointer before the buffer.\<close>

definition string_insert_at_with_len ::
  "mem \<Rightarrow> strbuf \<Rightarrow> int \<Rightarrow> ptr \<Rightarrow> nat \<Rightarrow> grant \<Rightarrow> (mem \<times> strbuf) option" where
  "string_insert_at_with_len m this idx bytes len g =
     (let bts = sb_num this + len in
      do { (m1, this) \<leftarrow> (if bts \<ge> sb_size this
                         then string_realloc_bytes m this (bts - sb_size this + 1) g else Some (m, this));
           (m2, _) \<leftarrow>
             (if idx = to_int (sb_num this)
              then str_byte_copy m1 (padd (sb_bytes this) (sb_num this)) bytes len
              else if idx < 0 then None
              else do { (m2, _) \<leftarrow> str_byte_move m1 (sb_bytes this) (u32 (int (sb_size this) - 1))
                                   (nat idx + len) (nat idx) (u32 (int (sb_num this) - idx));
                        str_byte_copy m2 (padd (sb_bytes this) (nat idx)) bytes len });
           let this = this\<lparr>sb_num := u32 (int (sb_num this + len))\<rparr>;
           m3 \<leftarrow> wr m2 (padd (sb_bytes this) (sb_num this)) 0;
           Some (m3, this) })"

definition string_append_with_len :: "mem \<Rightarrow> strbuf \<Rightarrow> ptr \<Rightarrow> nat \<Rightarrow> grant \<Rightarrow> (mem \<times> strbuf) option" where
  "string_append_with_len m this bytes len g =
     string_insert_at_with_len m this (to_int (sb_num this)) bytes len g"

definition string_insert_at_with :: "mem \<Rightarrow> strbuf \<Rightarrow> int \<Rightarrow> ptr \<Rightarrow> grant \<Rightarrow> (mem \<times> strbuf) option" where
  "string_insert_at_with m this idx bytes g =
     (let idx = (if 0 > idx then to_int (u32 (int (sb_num this) + idx + 1)) else idx) in
      if idx < 0 \<or> idx > to_int (sb_num this) then Some (m, this)
      else do { len \<leftarrow> bytelen m bytes;
                if len = 0 then Some (m, this) else string_insert_at_with_len m this idx bytes len g })"

definition string_append_with :: "mem \<Rightarrow> strbuf \<Rightarrow> ptr \<Rightarrow> grant \<Rightarrow> (mem \<times> strbuf) option" where
  "string_append_with m this bytes g =
     do { len \<leftarrow> bytelen m bytes;
          string_insert_at_with_len m this (to_int (sb_num this)) bytes len g }"

definition string_prepend_with :: "mem \<Rightarrow> strbuf \<Rightarrow> ptr \<Rightarrow> grant \<Rightarrow> (mem \<times> strbuf) option" where
  "string_prepend_with m this bytes g = string_insert_at_with m this 0 bytes g"

text \<open>The two byte local buffer is a block of its own, \<open>buf\<close>, gone on return.\<close>

definition string_insert_byte_at :: "mem \<Rightarrow> strbuf \<Rightarrow> byte \<Rightarrow> int \<Rightarrow> nat \<Rightarrow> grant \<Rightarrow> (mem \<times> strbuf) option" where
  "string_insert_byte_at m this c idx buf g =
     do { (m', this) \<leftarrow> string_insert_at_with_len (m(buf \<mapsto> [c, 0])) this idx (Ptr buf 0) 1 g;
          Some (m'(buf := None), this) }"

definition string_append_byte :: "mem \<Rightarrow> strbuf \<Rightarrow> byte \<Rightarrow> grant \<Rightarrow> (mem \<times> strbuf) option" where
  "string_append_byte m this c g =
     (let bts = to_int (u32 (int (sb_size this) - (int (sb_num this) + 2))) in
      do { (m1, this) \<leftarrow> (if 1 > bts then string_realloc_bytes m this MIN_STRING_SIZE g else Some (m, this));
           m2 \<leftarrow> wr m1 (padd (sb_bytes this) (sb_num this)) c;
           let this = this\<lparr>sb_num := u32 (int (sb_num this + 1))\<rparr>;
           m3 \<leftarrow> wr m2 (padd (sb_bytes this) (sb_num this)) 0;
           Some (m3, this) })"

definition string_prepend_byte :: "mem \<Rightarrow> strbuf \<Rightarrow> byte \<Rightarrow> grant \<Rightarrow> (mem \<times> strbuf) option" where
  "string_prepend_byte m this c g =
     (let bts = to_int (u32 (int (sb_size this) - (int (sb_num this) + 2))) in
      do { (m1, this) \<leftarrow> (if 1 > bts then string_realloc_bytes m this MIN_STRING_SIZE g else Some (m, this));
           (m2, _) \<leftarrow> str_byte_move m1 (sb_bytes this) (u32 (int (sb_num this + 1))) 1 0 (sb_num this);
           m3 \<leftarrow> wr m2 (sb_bytes this) c;
           let this = this\<lparr>sb_num := u32 (int (sb_num this + 1))\<rparr>;
           m4 \<leftarrow> wr m3 (padd (sb_bytes this) (sb_num this)) 0;
           Some (m4, this) })"

subsection \<open>Deletion and replacement\<close>

text \<open>\<open>EINDEX\<close> is the error of an index out of range; its value is defined by the including
  program.\<close>

definition string_delete_numbytes_at :: "mem \<Rightarrow> strbuf \<Rightarrow> int \<Rightarrow> int \<Rightarrow> int \<Rightarrow> (mem \<times> strbuf \<times> int) option" where
  "string_delete_numbytes_at m this num idx EINDEX =
     (if num < 0 then Some (m, this, -1)
      else if num = 0 then Some (m, this, 0)
      else if idx < 0 \<or> idx \<ge> to_int (sb_num this) then Some (m, this, EINDEX)
      else if in_int 32 (idx + num) = None then None
      else if idx + num > to_int (sb_num this) then Some (m, this, EINDEX)
      else do { m1 \<leftarrow> (if idx + num \<noteq> to_int (sb_num this)
                       then map_option fst (str_byte_copy m (padd (sb_bytes this) (nat idx))
                              (padd (sb_bytes this) (nat (idx + num)))
                              (u32 (int (sb_num this) - (idx + num - 1))))
                       else Some m);
                let this = this\<lparr>sb_num := u32 (int (sb_num this) - num)\<rparr>;
                m2 \<leftarrow> wr m1 (padd (sb_bytes this) (sb_num this)) 0;
                Some (m2, this, 0) })"

definition string_replace_numbytes_at_with ::
  "mem \<Rightarrow> strbuf \<Rightarrow> int \<Rightarrow> int \<Rightarrow> ptr \<Rightarrow> int \<Rightarrow> grant \<Rightarrow> (mem \<times> strbuf) option" where
  "string_replace_numbytes_at_with m this num idx bytes EINDEX g =
     do { (m1, this, r) \<leftarrow> string_delete_numbytes_at m this num idx EINDEX;
          if r \<noteq> 0 then Some (m1, this) else string_insert_at_with m1 this idx bytes g }"

definition string_replace_with :: "mem \<Rightarrow> strbuf \<Rightarrow> ptr \<Rightarrow> grant \<Rightarrow> (mem \<times> strbuf) option" where
  "string_replace_with m this bytes g =
     do { (m1, this) \<leftarrow> string_clear m this; string_append_with m1 this bytes g }"

definition string_replace_with_len :: "mem \<Rightarrow> strbuf \<Rightarrow> ptr \<Rightarrow> nat \<Rightarrow> grant \<Rightarrow> (mem \<times> strbuf) option" where
  "string_replace_with_len m this bytes len g =
     do { (m1, this) \<leftarrow> string_clear m this; string_insert_at_with_len m1 this 0 bytes len g }"

text \<open>The loop reads before the buffer when the string is empty: undefined.\<close>

function string_trim_end_loop :: "mem \<Rightarrow> strbuf \<Rightarrow> ptr \<Rightarrow> byte \<Rightarrow> nat \<Rightarrow> (mem \<times> strbuf) option" where
  "string_trim_end_loop m this sp c fuel =
     (case rd m sp of None \<Rightarrow> None
      | Some x \<Rightarrow> if x \<noteq> c then Some (m, this)
          else (case string_clear_at m this (-1) of None \<Rightarrow> None
                | Some (m', this') \<Rightarrow>
                    if sb_num this' = 0 then Some (m', this')
                    else if fuel = 0 then None
                    else string_trim_end_loop m' this' (psub sp 1) c (fuel - 1)))"
  by pat_completeness auto
termination
  by (relation "measure (\<lambda>(m, this, sp, c, fuel). fuel)") auto

declare string_trim_end_loop.simps [simp del]

text \<open>Every turn shortens the string, so its length bounds the turns.\<close>

definition string_trim_end :: "mem \<Rightarrow> strbuf \<Rightarrow> byte \<Rightarrow> (mem \<times> strbuf) option" where
  "string_trim_end m this c =
     (if sb_num this = 0 then None
      else string_trim_end_loop m this (padd (sb_bytes this) (sb_num this - 1)) c (sb_num this))"

subsection \<open>What a buffer holds\<close>

definition sb_holds :: "mem \<Rightarrow> strbuf \<Rightarrow> byte list \<Rightarrow> bool" where
  "sb_holds m this s \<longleftrightarrow>
     (\<exists>b rest. sb_bytes this = Ptr b 0 \<and> m b = Some (s @ 0 # rest) \<and> sb_num this = length s \<and>
        sb_size this = length (s @ 0 # rest) \<and> 0 \<notin> set s \<and> length (s @ 0 # rest) < 2 ^ 31)"

lemma sb_holdsE:
  assumes "sb_holds m this s"
  obtains b rest where "sb_bytes this = Ptr b 0" "m b = Some (s @ 0 # rest)" "sb_num this = length s"
    "sb_size this = length s + Suc (length rest)" "0 \<notin> set s" "length s + Suc (length rest) < 2 ^ 31"
  using assms by (auto simp: sb_holds_def)

lemma u32_id: "0 \<le> n \<Longrightarrow> n < 2 ^ 32 \<Longrightarrow> u32 n = nat n"
  by (simp add: u32_def)

lemma u32_int [simp]: "n < 2 ^ 31 \<Longrightarrow> u32 (int n) = n"
  by (simp add: u32_id)

lemma to_int_id [simp]: "n < 2 ^ 31 \<Longrightarrow> to_int n = int n"
  by (simp add: to_int_def)

lemma sb_holds_cstr: "sb_holds m this s \<Longrightarrow> cstr m (sb_bytes this) = Some s"
  using cstr_block [of m _ "[]" s] by (auto simp: sb_holds_def)

lemma sb_holdsI:
  assumes "sb_bytes this = Ptr b 0" "m b = Some (s @ x # rest)" "sb_num this = length s"
    "sb_size this = length (s @ x # rest)" "0 \<notin> set s" "length (s @ x # rest) < 2 ^ 31"
  shows "sb_holds (m(b \<mapsto> s @ 0 # rest)) this s"
  using assms by (auto simp: sb_holds_def)

text \<open>Writing the terminator.\<close>

lemma wr_nul: "m b = Some (s @ x # rest) \<Longrightarrow> wr m (Ptr b (length s)) c = Some (m(b \<mapsto> s @ c # rest))"
  by (simp add: list_update_append)

lemma string_realloc_holds:
  assumes "sb_holds m this s" "m (fst g) = None" "sb_size this + n + 1 \<le> length (snd g)" "length (snd g) < 2 ^ 31"
  shows "\<exists>m' this'. string_realloc_bytes m this n g = Some (m', this') \<and> sb_holds m' this' s \<and>
    sb_bytes this' = Ptr (fst g) 0 \<and> sb_size this' = length (snd g) \<and>
    (\<forall>b. b \<noteq> blk (sb_bytes this) \<and> b \<noteq> fst g \<longrightarrow> m' b = m b)"
proof -
  obtain b rest where b: "sb_bytes this = Ptr b 0" "m b = Some (s @ 0 # rest)" "sb_num this = length s"
    "sb_size this = length s + Suc (length rest)" "0 \<notin> set s" using assms(1) by (rule sb_holdsE)
  let ?new = "s @ 0 # rest @ drop (length s + Suc (length rest)) (snd g)"
  let ?m = "(m(b := None))(fst g \<mapsto> ?new)"
  have "length ?new = length (snd g)" using assms(3) b(4) by simp
  then have "string_realloc_bytes m this n g =
      Some (?m, this\<lparr>sb_bytes := Ptr (fst g) 0, sb_size := length (snd g)\<rparr>)"
    using assms(3,4) b by (simp add: string_realloc_bytes_def grant_realloc_def Let_def)
  moreover have "sb_holds ?m (this\<lparr>sb_bytes := Ptr (fst g) 0, sb_size := length (snd g)\<rparr>) s"
    using b assms(3,4) \<open>length ?new = length (snd g)\<close> by (auto simp: sb_holds_def)
  ultimately show ?thesis using b(1) by auto
qed

lemma load_other_block: "m' (blk p) = m (blk p) \<Longrightarrow> load m' p n = load m p n"
  by (rule load_cong_rd) (cases p; simp)

lemma strn_load_id: "load m p n = Some t \<Longrightarrow> 0 \<notin> set t \<Longrightarrow> strn m p n = Some t"
  using strn_load [of m p n t] by (auto simp: takeWhile_eq_all_conv)

lemma str_byte_copy_block:
  assumes "load m src (length t) = Some t" "0 \<notin> set t" "blk src \<noteq> b" "m b = Some bs" "i + length t \<le> length bs"
  shows "str_byte_copy m (Ptr b i) src (length t) =
    Some (m(b \<mapsto> take i bs @ t @ drop (i + length t) bs), length t)"
  using assms strn_load_id [OF assms(1,2)]
  by (intro str_byte_copy_store) (auto simp: store_block fwd_ok_def)

text \<open>Making room inside the block and filling it.\<close>

lemma insert_in_block:
  assumes "m b = Some (s @ rest)" "load m src (length t) = Some t" "0 \<notin> set t" "blk src \<noteq> b"
    "i \<le> length s" "length t < length rest"
  shows "(if i = length s then str_byte_copy m (padd (Ptr b 0) (length s)) src (length t)
      else do { (m2, _) \<leftarrow> str_byte_move m (Ptr b 0) (length (s @ rest) - 1) (i + length t) i (length s - i);
                str_byte_copy m2 (padd (Ptr b 0) i) src (length t) }) =
    Some (m(b \<mapsto> take i s @ t @ drop i s @ drop (length t) rest), length t)"
proof (cases "i = length s")
  case True
  then show ?thesis using str_byte_copy_block [OF assms(2-4,1), of "length s"] assms(6) by simp
next
  case i: False
  show ?thesis
  proof (cases "t = []")
    case True
    then show ?thesis using i assms(1) by (simp add: str_byte_move_def str_byte_copy_def str_byte_copy_loop.simps fun_upd_idem)
  next
    case False
    define bs where "bs = take (i + length t) (s @ rest) @ drop i s @ drop (length t) rest"
    have bs: "take i bs = take i s" "drop (i + length t) bs = drop i s @ drop (length t) rest" "i + length t \<le> length bs"
      using assms(5,6) by (auto simp: bs_def)
    have "load m (padd (Ptr b 0) i) (length s - i) = Some (drop i s)"
      using load_block [of m b "s @ rest" i "length s - i"] assms(1,5) by simp
    moreover have "store m (padd (Ptr b 0) (i + length t)) (drop i s) = Some (m(b \<mapsto> bs))"
      using store_block [of m b "s @ rest" "i + length t" "drop i s"] assms(1,5,6) by (simp add: add.commute bs_def)
    ultimately have "str_byte_move m (Ptr b 0) (length (s @ rest) - 1) (i + length t) i (length s - i)
        = Some (m(b \<mapsto> bs), length s - i)"
      using False assms(5,6) by (intro str_byte_move_right) auto
    moreover have "str_byte_copy (m(b \<mapsto> bs)) (Ptr b i) src (length t) =
        Some ((m(b \<mapsto> bs))(b \<mapsto> take i bs @ t @ drop (i + length t) bs), length t)"
      using assms load_other_block [of "m(b \<mapsto> bs)" src m] bs(3) by (intro str_byte_copy_block) auto
    ultimately show ?thesis using i by (simp add: bs)
  qed
qed

lemma string_insert_holds:
  assumes "sb_holds m this s" "load m src (length t) = Some t" "0 \<notin> set t" "blk src \<noteq> blk (sb_bytes this)"
    "i \<le> length s"
    and g: "sb_size this \<le> length s + length t \<Longrightarrow>
      m (fst g) = None \<and> length s + length t + 2 \<le> length (snd g) \<and> length (snd g) < 2 ^ 31"
  shows "\<exists>m' this'. string_insert_at_with_len m this (int i) src (length t) g = Some (m', this') \<and>
    sb_holds m' this' (take i s @ t @ drop i s) \<and>
    (\<forall>b. b \<noteq> blk (sb_bytes this) \<and> b \<noteq> fst g \<longrightarrow> m' b = m b)"
proof -
  have num: "sb_num this = length s" using assms(1) by (auto elim: sb_holdsE)
  have "\<exists>m1 this1. (if sb_num this + length t \<ge> sb_size this
      then string_realloc_bytes m this (sb_num this + length t - sb_size this + 1) g else Some (m, this)) = Some (m1, this1) \<and>
    sb_holds m1 this1 s \<and> load m1 src (length t) = Some t \<and> blk src \<noteq> blk (sb_bytes this1) \<and>
    length s + length t < sb_size this1 \<and> blk (sb_bytes this1) \<in> {blk (sb_bytes this), fst g} \<and>
    (\<forall>b. b \<noteq> blk (sb_bytes this) \<and> b \<noteq> fst g \<longrightarrow> m1 b = m b)"
  proof (cases "sb_num this + length t \<ge> sb_size this")
    case True
    then have gg: "m (fst g) = None" "length s + length t + 2 \<le> length (snd g)" "length (snd g) < 2 ^ 31"
      using g num by auto
    obtain m1 this1 where r: "string_realloc_bytes m this (sb_num this + length t - sb_size this + 1) g = Some (m1, this1)"
      "sb_holds m1 this1 s" "sb_bytes this1 = Ptr (fst g) 0" "sb_size this1 = length (snd g)"
      "\<forall>b. b \<noteq> blk (sb_bytes this) \<and> b \<noteq> fst g \<longrightarrow> m1 b = m b"
      using string_realloc_holds [OF assms(1) gg(1), of "sb_num this + length t - sb_size this + 1"] gg True num by auto
    have "t \<noteq> []" using True num assms(1) by (auto elim: sb_holdsE)
    then have "rd m src \<noteq> None" using assms(2) by (cases t) (auto split: bind_splits)
    then have "m (blk src) \<noteq> None" by (cases src) (auto split: option.splits)
    then have src: "blk src \<noteq> fst g" using gg(1) by auto
    then have "load m1 src (length t) = Some t"
      using load_other_block [of m1 src m "length t"] r(5) assms(2,4) by simp
    then show ?thesis using r True gg num src by auto
  next
    case False
    then show ?thesis using assms num by auto
  qed
  then obtain m1 this1 where m1: "(if sb_num this + length t \<ge> sb_size this
      then string_realloc_bytes m this (sb_num this + length t - sb_size this + 1) g else Some (m, this)) = Some (m1, this1)"
    "sb_holds m1 this1 s" "load m1 src (length t) = Some t" "blk src \<noteq> blk (sb_bytes this1)"
    "length s + length t < sb_size this1" "blk (sb_bytes this1) \<in> {blk (sb_bytes this), fst g}"
    "\<forall>b. b \<noteq> blk (sb_bytes this) \<and> b \<noteq> fst g \<longrightarrow> m1 b = m b" by blast
  from m1(2) obtain b rest where b: "sb_bytes this1 = Ptr b 0" "m1 b = Some (s @ 0 # rest)"
    "sb_num this1 = length s" "sb_size this1 = length s + Suc (length rest)" "0 \<notin> set s"
    "length s + Suc (length rest) < 2 ^ 31" by (rule sb_holdsE)
  let ?s = "take i s @ t @ drop i s"
  obtain x rest' where rest': "drop (length t) (0 # rest) = x # rest'"
    using m1(5) b(4) by (cases "drop (length t) (0 # rest)") auto
  have l: "length rest = length t + length rest'" using arg_cong [OF rest', of length] by simp
  have ls: "length ?s = length s + length t" using assms(5) by simp
  have ins: "(if i = length s then str_byte_copy m1 (padd (Ptr b 0) (length s)) src (length t)
      else do { (m2, _) \<leftarrow> str_byte_move m1 (Ptr b 0) (length (s @ 0 # rest) - 1) (i + length t) i (length s - i);
                str_byte_copy m2 (padd (Ptr b 0) i) src (length t) }) =
    Some (m1(b \<mapsto> ?s @ x # rest'), length t)"
    using insert_in_block [OF b(2) m1(3) assms(3) _ assms(5)] m1(4,5) b rest' by simp
  have nums: "to_int (length s) = int (length s)" "u32 (int (sb_size this1) - 1) = length (s @ 0 # rest) - 1"
    "u32 (int (length s) - int i) = length s - i" "u32 (int (length s) + int (length t)) = length ?s"
    "u32 (int (length s + length t)) = length ?s"
    using b(4,6) m1(5) assms(5) ls by (auto simp: u32_id)
  have "wr (m1(b \<mapsto> ?s @ x # rest')) (Ptr b (length ?s)) 0 = Some ((m1(b \<mapsto> ?s @ x # rest'))(b \<mapsto> ?s @ 0 # rest'))"
    by (rule wr_nul) simp
  then have w: "wr (m1(b \<mapsto> ?s @ x # rest')) (padd (Ptr b 0) (length ?s)) 0 = Some (m1(b \<mapsto> ?s @ 0 # rest'))"
    by simp
  define this2 where "this2 = this1\<lparr>sb_num := length ?s\<rparr>"
  have "string_insert_at_with_len m this (int i) src (length t) g = Some (m1(b \<mapsto> ?s @ 0 # rest'), this2)"
    unfolding string_insert_at_with_len_def Let_def m1(1) using ins w
    by (simp add: b(1,3) nums this2_def del: take_append drop_append length_append split del: if_split cong: if_cong)
  moreover have "sb_holds (m1(b \<mapsto> ?s @ 0 # rest')) this2 ?s"
    using b assms(3,5) l by (auto simp: sb_holds_def this2_def dest: in_set_takeD in_set_dropD)
  moreover have "\<forall>b'. b' \<noteq> blk (sb_bytes this) \<and> b' \<noteq> fst g \<longrightarrow> (m1(b \<mapsto> ?s @ 0 # rest')) b' = m b'"
    using m1(6,7) b(1) by auto
  ultimately show ?thesis by blast
qed
subsection \<open>The other operations\<close>

lemma load_cstr:
  assumes "cstr m p = Some t"
  shows "load m p (length t) = Some t"
  using cstr_rd [OF assms] by (intro load_intro) (simp add: nth_append)

lemma string_append_with_holds:
  assumes "sb_holds m this s" "cstr m src = Some t" "blk src \<noteq> blk (sb_bytes this)"
    and g: "sb_size this \<le> length s + length t \<Longrightarrow>
      m (fst g) = None \<and> length s + length t + 2 \<le> length (snd g) \<and> length (snd g) < 2 ^ 31"
  shows "\<exists>m' this'. string_append_with m this src g = Some (m', this') \<and> sb_holds m' this' (s @ t)"
proof -
  have n: "to_int (sb_num this) = int (length s)" using assms(1) by (auto elim!: sb_holdsE)
  have "bytelen m src = Some (length t)" using assms(2) by (simp add: bytelen_eq)
  then show ?thesis
    using string_insert_holds [OF assms(1) load_cstr [OF assms(2)] cstr_no_nul [OF assms(2)] assms(3) _ g, of "length s"] n
    by (auto simp: string_append_with_def)
qed

lemma string_clear_at_holds:
  assumes "sb_holds m this s" "- int (length s) \<le> idx"
  shows "\<exists>m' this'. string_clear_at m this idx = Some (m', this') \<and>
    sb_holds m' this' (take (nat (if idx < 0 then idx + int (length s) else idx)) s) \<and>
    sb_bytes this' = sb_bytes this"
proof -
  obtain b rest where b: "sb_bytes this = Ptr b 0" "m b = Some (s @ 0 # rest)" "sb_num this = length s"
    "sb_size this = length s + Suc (length rest)" "0 \<notin> set s" "length s + Suc (length rest) < 2 ^ 31"
    using assms(1) by (rule sb_holdsE)
  define k where "k = (let i = (if idx < 0 then idx + int (length s) else idx) in if i > int (length s) then length s else nat i)"
  have k: "k \<le> length s" "take (nat (if idx < 0 then idx + int (length s) else idx)) s = take k s"
    using assms(2) by (auto simp: k_def Let_def)
  obtain x r where x: "drop k (s @ 0 # rest) = x # r" using k(1) by (cases "drop k (s @ 0 # rest)") auto
  have split: "s @ 0 # rest = take k s @ x # r" using x k(1) by (metis append_take_drop_id take_append diff_is_0_eq take_0 append_Nil2)
  have l: "length (take k s @ x # r) = length (s @ 0 # rest)" using split by simp
  have lk: "length (take k s) = k" using k(1) by simp
  have w: "wr m (Ptr b k) 0 = Some (m(b \<mapsto> take k s @ 0 # r))"
    using wr_nul [of m b "take k s" x r 0] b(2) split lk by simp
  have i1: "(if 0 > idx then to_int (u32 (idx + int (sb_num this))) else idx) = (if idx < 0 then idx + int (length s) else idx)"
    using assms(2) b by (auto simp: u32_id to_int_def nat_less_iff)
  have i2: "to_int (sb_num this) = int (length s)" using b by simp
  have i3: "0 \<le> (if idx < 0 then idx + int (length s) else idx)" using assms(2) by simp
  have i4: "(if (if idx < 0 then idx + int (length s) else idx) > int (length s) then int (length s)
      else (if idx < 0 then idx + int (length s) else idx)) = int k" using i3 by (simp add: k_def Let_def)
  have "string_clear_at m this idx = Some (m(b \<mapsto> take k s @ 0 # r), this\<lparr>sb_num := k\<rparr>)"
    unfolding string_clear_at_def Let_def i1 i2 i4 using i3 w b(1) by simp
  moreover have "sb_holds (m(b \<mapsto> take k s @ 0 # r)) (this\<lparr>sb_num := k\<rparr>) (take k s)"
    using b l lk by (auto simp: sb_holds_def dest: in_set_takeD)
  ultimately show ?thesis using k(2) by auto
qed

lemma string_delete_holds:
  assumes "sb_holds m this s" "0 < num" "idx + num \<le> length s"
  shows "\<exists>m' this'. string_delete_numbytes_at m this (int num) (int idx) EINDEX = Some (m', this', 0) \<and>
    sb_holds m' this' (take idx s @ drop (idx + num) s) \<and> sb_bytes this' = sb_bytes this \<and>
    sb_size this' = sb_size this \<and> (\<forall>b. b \<noteq> blk (sb_bytes this) \<longrightarrow> m' b = m b)"
proof -
  obtain b rest where b: "sb_bytes this = Ptr b 0" "m b = Some (s @ 0 # rest)" "sb_num this = length s"
    "sb_size this = length s + Suc (length rest)" "0 \<notin> set s" "length s + Suc (length rest) < 2 ^ 31"
    using assms(1) by (rule sb_holdsE)
  let ?t = "drop (idx + num) s" and ?s = "take idx s @ drop (idx + num) s"
  obtain x r where x: "drop (length s - num) (s @ 0 # rest) = x # r"
    by (cases "drop (length s - num) (s @ 0 # rest)") auto
  have lr: "Suc (length r) = num + Suc (length rest)" using arg_cong [OF x, of length] assms(3) by simp
  have ls: "length ?s = length s - num" using assms(3) by simp
  have m1: "(if int idx + int num \<noteq> to_int (sb_num this)
      then map_option fst (str_byte_copy m (padd (sb_bytes this) (nat (int idx)))
             (padd (sb_bytes this) (nat (int idx + int num))) (u32 (int (sb_num this) - (int idx + int num - 1))))
      else Some m) = Some (m(b \<mapsto> ?s @ x # r))"
  proof (cases "idx + num = length s")
    case True
    then have "length s - num = idx" by simp
    then have "s @ 0 # rest = ?s @ x # r" using x True by (metis append_Nil2 append_take_drop_id drop_all le_refl
          take_append diff_is_0_eq diff_le_self take_0)
    then show ?thesis using True b by (auto simp: fun_upd_idem)
  next
    case False
    then have lt: "idx + num < length s" using assms(3) by simp
    have n: "u32 (int (sb_num this) - (int idx + int num - 1)) = Suc (length ?t)"
      using lt b by (simp add: u32_id)
    have "cstr m (Ptr b (idx + num)) = Some ?t"
      using cstr_drop [OF sb_holds_cstr [OF assms(1)], of "idx + num"] lt b(1) by simp
    from strn_cstr [OF this, of "Suc (length ?t)"] have sn: "strn m (Ptr b (idx + num)) (Suc (length ?t)) = Some ?t" by simp
    have st: "store m (Ptr b idx) ?t = Some (m(b \<mapsto> ?s @ x # r))"
    proof -
      have "drop (idx + length ?t) (s @ 0 # rest) = x # r" using x lt by (simp add: add.commute)
      then show ?thesis using store_block [of m b "s @ 0 # rest" idx ?t] b(2) lt by simp
    qed
    have "nat (int idx + int num) = idx + num" by (simp add: nat_add_distrib)
    then show ?thesis using str_byte_copy_store [OF sn st] False b n by (simp add: fwd_ok_def)
  qed
  have w: "wr (m(b \<mapsto> ?s @ x # r)) (Ptr b (length ?s)) 0 = Some (m(b \<mapsto> ?s @ 0 # r))"
    using wr_nul [of "m(b \<mapsto> ?s @ x # r)" b ?s x r 0] by simp
  have u: "u32 (int (sb_num this) - int num) = length ?s" using b assms(3) ls by (simp add: u32_id)
  have c: "\<not> (int idx < 0 \<or> int idx \<ge> to_int (sb_num this))" "in_int 32 (int idx + int num) \<noteq> None"
    "\<not> int idx + int num > to_int (sb_num this)"
    using b assms(2,3) by (simp_all add: in_int_def)
  have "string_delete_numbytes_at m this (int num) (int idx) EINDEX =
      Some (m(b \<mapsto> ?s @ 0 # r), this\<lparr>sb_num := length ?s\<rparr>, 0)"
    unfolding string_delete_numbytes_at_def m1 Let_def u using c assms(2) w b(1)
    by (simp del: length_append wr.simps)
  moreover have "sb_holds (m(b \<mapsto> ?s @ 0 # r)) (this\<lparr>sb_num := length ?s\<rparr>) ?s"
    using b lr ls assms(3) by (auto simp: sb_holds_def dest: in_set_takeD in_set_dropD)
  ultimately show ?thesis using b(1) by auto
qed

lemma string_trim_end_loop_holds:
  assumes "sb_holds m this s" "s \<noteq> []" "length s \<le> Suc fuel"
  shows "\<exists>m' this'. string_trim_end_loop m this (padd (sb_bytes this) (length s - 1)) c fuel = Some (m', this') \<and>
    sb_holds m' this' (rev (dropWhile (\<lambda>x. x = c) (rev s)))"
  using assms
proof (induction s arbitrary: m this fuel rule: rev_induct)
  case (snoc x s)
  have rd: "rd m (padd (sb_bytes this) (length s)) = Some x"
    using cstr_rd [OF sb_holds_cstr [OF snoc.prems(1)], of "length s"] by (simp add: nth_append)
  show ?case
  proof (cases "x = c")
    case True
    obtain m' this' where c: "string_clear_at m this (-1) = Some (m', this')" "sb_holds m' this' s" "sb_bytes this' = sb_bytes this"
      using string_clear_at_holds [OF snoc.prems(1), of "-1"] by auto
    have num: "sb_num this' = length s" using c(2) by (auto elim: sb_holdsE)
    show ?thesis
    proof (cases "s = []")
      case True
      then show ?thesis using \<open>x = c\<close> rd c num by (subst string_trim_end_loop.simps) simp
    next
      case False
      then have fuel: "0 < fuel" "length s \<le> Suc (fuel - 1)" using snoc.prems(3) by (cases s; simp)+
      have "psub (padd (sb_bytes this) (length s)) 1 = padd (sb_bytes this') (length s - 1)"
        using c(3) False by (cases s) auto
      then show ?thesis
        using \<open>x = c\<close> rd c num False snoc.IH [OF c(2) False, of "fuel - 1"] fuel
        by (subst string_trim_end_loop.simps) simp
    qed
  next
    case False
    then show ?thesis using rd snoc.prems by (subst string_trim_end_loop.simps) simp
  qed
qed simp

lemma string_append_byte_holds:
  assumes "sb_holds m this s" "c \<noteq> 0"
    and g: "sb_size this < length s + 3 \<Longrightarrow>
      m (fst g) = None \<and> sb_size this + 9 \<le> length (snd g) \<and> length (snd g) < 2 ^ 31"
  shows "\<exists>m' this'. string_append_byte m this c g = Some (m', this') \<and> sb_holds m' this' (s @ [c])"
proof -
  obtain b rest where b: "sb_bytes this = Ptr b 0" "m b = Some (s @ 0 # rest)" "sb_num this = length s"
    "sb_size this = length s + Suc (length rest)" "0 \<notin> set s" "length s + Suc (length rest) < 2 ^ 31"
    using assms(1) by (rule sb_holdsE)
  have bts: "1 > to_int (u32 (int (sb_size this) - (int (sb_num this) + 2))) \<longleftrightarrow> sb_size this < length s + 3"
  proof (cases "rest = []")
    case True
    then show ?thesis using b by (simp add: u32_def to_int_def)
  next
    case False
    then have e: "int (sb_size this) - (int (sb_num this) + 2) = int (length rest - 1)" using b(3,4) by (cases rest) auto
    have "length rest - 1 < 2 ^ 31" using b(6) by simp
    then have "to_int (u32 (int (length rest - 1))) = int (length rest - 1)" by (simp only: u32_int to_int_id)
    moreover have "1 > int (length rest - 1) \<longleftrightarrow> sb_size this < length s + 3" using b(4) by auto
    ultimately show ?thesis unfolding e by simp
  qed
  obtain m1 this1 where m1: "(if 1 > to_int (u32 (int (sb_size this) - (int (sb_num this) + 2)))
      then string_realloc_bytes m this MIN_STRING_SIZE g else Some (m, this)) = Some (m1, this1)"
    "sb_holds m1 this1 s" "length s + 2 \<le> sb_size this1"
  proof (cases "sb_size this < length s + 3")
    case True
    with g have gg: "m (fst g) = None" "sb_size this + MIN_STRING_SIZE + 1 \<le> length (snd g)" "length (snd g) < 2 ^ 31"
      by (auto simp: MIN_STRING_SIZE_def)
    obtain m1 this1 where "string_realloc_bytes m this MIN_STRING_SIZE g = Some (m1, this1)" "sb_holds m1 this1 s"
      "sb_size this1 = length (snd g)" using string_realloc_holds [OF assms(1) gg] by blast
    moreover have "length s + 2 \<le> length (snd g)" using gg(2) b(4) by (simp add: MIN_STRING_SIZE_def)
    ultimately show ?thesis using that bts True by simp
  next
    case False
    then show ?thesis using that [of m this] assms(1) bts by simp
  qed
  from m1(2) obtain b' rest' where b': "sb_bytes this1 = Ptr b' 0" "m1 b' = Some (s @ 0 # rest')"
    "sb_num this1 = length s" "sb_size this1 = length s + Suc (length rest')" "length s + Suc (length rest') < 2 ^ 31"
    by (auto elim: sb_holdsE)
  obtain y r where r: "rest' = y # r" using m1(3) b'(4) by (cases rest') auto
  have w: "wr m1 (padd (Ptr b' 0) (length s)) c = Some (m1(b' \<mapsto> s @ c # y # r))"
    using wr_nul [of m1 b' s 0 "y # r" c] b'(2) r by simp
  have w2: "wr (m1(b' \<mapsto> s @ c # y # r)) (padd (Ptr b' 0) (Suc (length s))) 0 = Some (m1(b' \<mapsto> s @ c # 0 # r))"
    using wr_nul [of "m1(b' \<mapsto> s @ c # y # r)" b' "s @ [c]" y r 0] by simp
  have u: "u32 (int (Suc (length s))) = Suc (length s)" using b' by (simp del: of_nat_Suc)
  have "string_append_byte m this c g = Some (m1(b' \<mapsto> s @ c # 0 # r), this1\<lparr>sb_num := Suc (length s)\<rparr>)"
    unfolding string_append_byte_def Let_def m1(1)
    using b'(1,3) w w2 u by (simp del: wr.simps padd.simps of_nat_Suc)
  moreover have "sb_holds (m1(b' \<mapsto> s @ c # 0 # r)) (this1\<lparr>sb_num := Suc (length s)\<rparr>) (s @ [c])"
    using b b' r assms(2) by (auto simp: sb_holds_def)
  ultimately show ?thesis by blast
qed

lemma string_new_with_len_holds:
  assumes "load m src (length t) = Some t" "0 \<notin> set t" "src \<noteq> Null" "m (fst g) = None" "t \<noteq> []"
    "length t + 1 \<le> length (snd g)" "length (snd g) < 2 ^ 31"
  shows "\<exists>m' this. string_new_with_len m src (length t) g = Some (m', this) \<and> sb_holds m' this t \<and>
    (\<forall>b. b \<noteq> fst g \<longrightarrow> m' b = m b)"
proof -
  obtain x xs where g: "snd g = x # xs" using assms(6) by (cases "snd g") auto
  let ?m1 = "m(fst g \<mapsto> 0 # xs)" and ?sb = "\<lparr>sb_bytes = Ptr (fst g) 0, sb_num = 0, sb_size = length (snd g)\<rparr>"
  have new: "string_new m (length t + 1) g = Some (?m1, ?sb)"
    using assms(6,7) g u32_int [of "length (snd g)"]
    by (simp add: string_new_def string_alloc_bytes_def grant_alloc_def Let_def del: u32_int)
  have "rd m src \<noteq> None" using assms(1,5) by (cases t) (auto split: bind_splits)
  then have "m (blk src) \<noteq> None" by (cases src) (auto split: option.splits)
  then have ne: "blk src \<noteq> fst g" using assms(4) by auto
  have ld: "load ?m1 src (length t) = Some t" using assms(1) ne load_other_block [of ?m1 src m] by simp
  have sn: "strn ?m1 src (min (length t) (size_pred (length (snd g)))) = Some t"
    using strn_load_id [OF ld assms(2)] assms(6) g by (simp add: size_pred_def min_absorb1)
  obtain y r where y: "drop (length t) (0 # xs) = y # r" using assms(6) g by (cases "drop (length t) (0 # xs)") auto
  have lr: "length (t @ 0 # r) = length (snd g)" using arg_cong [OF y, of length] assms(6) g by simp
  have dr: "drop (length t) xs = r" using y by (metis drop_Suc drop_Suc_Cons list.sel(3) tl_drop)
  have st: "store ?m1 (Ptr (fst g) 0) (t @ [0]) = Some (m(fst g \<mapsto> t @ 0 # r))"
    using store_block [of ?m1 "fst g" "0 # xs" 0 "t @ [0]"] assms(6) g dr by simp
  have "string_new_with_len m src (length t) g =
      Some (m(fst g \<mapsto> t @ 0 # r), ?sb\<lparr>sb_num := length t\<rparr>)"
    unfolding string_new_with_len_def new
    using str_copy_store [OF sn st _ assms(3)] ne assms(6,7) by (simp add: fwd_ok_def)
  moreover have "sb_holds (m(fst g \<mapsto> t @ 0 # r)) (?sb\<lparr>sb_num := length t\<rparr>) t"
    using assms(2,7) lr by (auto simp: sb_holds_def)
  ultimately show ?thesis by auto
qed
lemma string_replace_holds:
  assumes "sb_holds m this s" "0 < num" "idx + num \<le> length s" "cstr m src = Some t" "t \<noteq> []"
    "blk src \<noteq> blk (sb_bytes this)" "length s - num + length t < sb_size this"
  shows "\<exists>m' this'. string_replace_numbytes_at_with m this (int num) (int idx) src EINDEX g = Some (m', this') \<and>
    sb_holds m' this' (take idx s @ t @ drop (idx + num) s)"
proof -
  let ?s = "take idx s @ drop (idx + num) s"
  obtain m1 this1 where d: "string_delete_numbytes_at m this (int num) (int idx) EINDEX = Some (m1, this1, 0)"
    "sb_holds m1 this1 ?s" "sb_bytes this1 = sb_bytes this" "sb_size this1 = sb_size this"
    "\<forall>b. b \<noteq> blk (sb_bytes this) \<longrightarrow> m1 b = m b"
    using string_delete_holds [OF assms(1-3)] by blast
  have src: "cstr m1 src = Some t"
    using d(5) assms(4,6) cstr_cong_block [of m1 "blk src" m "off src"] by (cases src) auto
  have num: "to_int (sb_num this1) = int (length ?s)" "idx \<le> length ?s" using d(2) assms(3) by (auto elim!: sb_holdsE)
  have "length ?s + length t < sb_size this1" using assms(3,7) d(4) by simp
  then have room: "sb_size this1 \<le> length ?s + length t \<Longrightarrow> P" for P by linarith
  have "blk src \<noteq> blk (sb_bytes this1)" using assms(6) d(3) by simp
  from string_insert_holds [OF d(2) load_cstr [OF src] cstr_no_nul [OF src] this num(2) room]
  obtain m2 this2 where i: "string_insert_at_with_len m1 this1 (int idx) src (length t) g = Some (m2, this2)"
    "sb_holds m2 this2 (take idx ?s @ t @ drop idx ?s)" by blast
  have "take idx ?s @ t @ drop idx ?s = take idx s @ t @ drop (idx + num) s" using assms(3) by simp
  then show ?thesis
    using d(1) i src num assms(5) by (auto simp: string_replace_numbytes_at_with_def string_insert_at_with_def bytelen_eq)
qed

subsection \<open>Properties\<close>

text \<open>Property C17. \<open>string_insert_at_with_len\<close> refines list insertion: whether or not the buffer
  has to be reallocated, it afterwards holds the old bytes with the new ones at the index, is
  terminated, and no block other than the old and the new buffer is written.\<close>

theorem string_insert_refines:
  assumes "sb_holds m this s" "load m src (length t) = Some t" "0 \<notin> set t" "blk src \<noteq> blk (sb_bytes this)"
    "i \<le> length s"
    "sb_size this \<le> length s + length t \<Longrightarrow>
      m (fst g) = None \<and> length s + length t + 2 \<le> length (snd g) \<and> length (snd g) < 2 ^ 31"
  shows "\<exists>m' this'. string_insert_at_with_len m this (int i) src (length t) g = Some (m', this') \<and>
    sb_holds m' this' (take i s @ t @ drop i s) \<and> cstr m' (sb_bytes this') = Some (take i s @ t @ drop i s) \<and>
    (\<forall>b. b \<noteq> blk (sb_bytes this) \<and> b \<noteq> fst g \<longrightarrow> m' b = m b)"
proof -
  from string_insert_holds [OF assms] obtain m' this' where
    "string_insert_at_with_len m this (int i) src (length t) g = Some (m', this')"
    "sb_holds m' this' (take i s @ t @ drop i s)"
    "\<forall>b. b \<noteq> blk (sb_bytes this) \<and> b \<noteq> fst g \<longrightarrow> m' b = m b" by blast
  then show ?thesis using sb_holds_cstr by blast
qed

definition wit_mem :: mem where
  "wit_mem = (\<lambda>b. if b = 0 then Some [97, 98, 0] else if b = 1 then Some [120, 121] else None)"

definition wit_sb :: strbuf where
  "wit_sb = \<lparr>sb_bytes = Ptr 0 0, sb_num = 2, sb_size = 3\<rparr>"

lemma wit_sb_holds: "sb_holds wit_mem wit_sb [97, 98]"
  by (simp add: sb_holds_def wit_mem_def wit_sb_def)

lemma string_insert_refines_witness:
  "\<exists>m' this'. string_insert_at_with_len wit_mem wit_sb 1 (Ptr 1 0) 2 (5, replicate 8 0) = Some (m', this') \<and>
    cstr m' (sb_bytes this') = Some [97, 120, 121, 98]"
proof -
  have l: "load wit_mem (Ptr 1 0) (length [120, 121 :: byte]) = Some [120, 121]" by (simp add: wit_mem_def numeral_eq_Suc)
  have "\<exists>m' this'. string_insert_at_with_len wit_mem wit_sb (int 1) (Ptr 1 0) (length [120, 121 :: byte]) (5, replicate 8 0) = Some (m', this') \<and>
    sb_holds m' this' (take 1 [97, 98] @ [120, 121] @ drop 1 [97, 98]) \<and>
    cstr m' (sb_bytes this') = Some (take 1 [97, 98] @ [120, 121] @ drop 1 [97, 98]) \<and>
    (\<forall>b. b \<noteq> blk (sb_bytes wit_sb) \<and> b \<noteq> fst (5 :: nat, replicate 8 (0 :: byte)) \<longrightarrow> m' b = wit_mem b)"
    by (rule string_insert_refines [OF wit_sb_holds l]) (simp_all add: wit_sb_def wit_mem_def)
  then show ?thesis by (auto simp: numeral_2_eq_2)
qed

text \<open>Property C18. \<open>string_delete_numbytes_at\<close> removes exactly the bytes of the range and
  answers 0; a range outside the string is refused with the error and no change, unless the index is
  inside and the sum of the index and the count, which the code takes as an \<open>int\<close>, overflows.\<close>

theorem string_delete_refines:
  assumes "sb_holds m this s" "0 < num" "0 \<le> idx"
  shows "(idx + num \<le> int (length s) \<longrightarrow>
      (\<exists>m' this'. string_delete_numbytes_at m this num idx EINDEX = Some (m', this', 0) \<and>
         sb_holds m' this' (take (nat idx) s @ drop (nat (idx + num)) s))) \<and>
    (int (length s) < idx + num \<and> (int (length s) \<le> idx \<or> idx + num < 2 ^ 31) \<longrightarrow>
      string_delete_numbytes_at m this num idx EINDEX = Some (m, this, EINDEX)) \<and>
    (idx < int (length s) \<and> 2 ^ 31 \<le> idx + num \<longrightarrow> string_delete_numbytes_at m this num idx EINDEX = None)"
proof -
  have n: "to_int (sb_num this) = int (length s)" using assms(1) by (auto elim!: sb_holdsE)
  have le: "idx + num \<le> int (length s) \<Longrightarrow> nat idx + nat num \<le> length s" using assms by linarith
  have "idx + num \<le> int (length s) \<Longrightarrow> \<exists>m' this'. string_delete_numbytes_at m this num idx EINDEX = Some (m', this', 0) \<and>
         sb_holds m' this' (take (nat idx) s @ drop (nat (idx + num)) s)"
    using string_delete_holds [OF assms(1), of "nat num" "nat idx" EINDEX] le assms by (auto simp: nat_add_distrib)
  then show ?thesis using assms(2,3) n by (auto simp: string_delete_numbytes_at_def in_int_def)
qed

lemma string_delete_refines_witness:
  "\<exists>m' this'. string_delete_numbytes_at wit_mem wit_sb 1 0 (- 5) = Some (m', this', 0) \<and> sb_holds m' this' [98]"
  using string_delete_refines [OF wit_sb_holds, of 1 0 "- 5"] by simp

text \<open>
  \<open>string_trim_end\<close> removes every trailing occurrence of the byte and stops.\<close>

theorem string_trim_end_refines:
  assumes "sb_holds m this s" "s \<noteq> []"
  shows "\<exists>m' this'. string_trim_end m this c = Some (m', this') \<and>
    sb_holds m' this' (rev (dropWhile (\<lambda>x. x = c) (rev s)))"
proof -
  have "sb_num this = length s" using assms(1) by (auto elim: sb_holdsE)
  then show ?thesis using string_trim_end_loop_holds [OF assms, of "length s" c] assms(2) by (simp add: string_trim_end_def)
qed

lemma string_trim_end_refines_witness:
  "\<exists>m' this'. string_trim_end wit_mem wit_sb 98 = Some (m', this') \<and> sb_holds m' this' [97]"
  using string_trim_end_refines [OF wit_sb_holds, of 98] by simp

end
