(* ===== verification/Ctype.thy ===== *)
theory Ctype
  imports Prelude
begin

section \<open>Character classes\<close>

text \<open>
  The predicates of \<open>y/pkg/libc/libc/ctype\<close>. Their argument is an \<open>int\<close>: a 32-bit
  word, with the unsigned comparisons of the C as word comparisons.
\<close>

definition isdigit :: "32 word \<Rightarrow> bool" where
  "isdigit c \<longleftrightarrow> c - 48 < 10"

definition isalpha :: "32 word \<Rightarrow> bool" where
  "isalpha c \<longleftrightarrow> (c OR 32) - 97 < 26"

definition isalnum :: "32 word \<Rightarrow> bool" where
  "isalnum c \<longleftrightarrow> isalpha c \<or> isdigit c"

definition isascii :: "32 word \<Rightarrow> bool" where
  "isascii c \<longleftrightarrow> c < 128"

definition islower :: "32 word \<Rightarrow> bool" where
  "islower c \<longleftrightarrow> c - 97 < 26"

definition isupper :: "32 word \<Rightarrow> bool" where
  "isupper c \<longleftrightarrow> c - 65 < 26"

definition isspace :: "32 word \<Rightarrow> bool" where
  "isspace c \<longleftrightarrow> c = 32 \<or> c - 9 < 5"

text \<open>\<open>(c & 0x7f) >= 32 && c < 127\<close>: both comparisons are signed.\<close>

definition isprint :: "32 word \<Rightarrow> bool" where
  "isprint c \<longleftrightarrow> sint (c AND 0x7f) \<ge> 32 \<and> sint c < 127"

definition tolower :: "32 word \<Rightarrow> 32 word" where
  "tolower c = (if c - 65 < 26 then c + 32 else c)"

definition toupper :: "32 word \<Rightarrow> 32 word" where
  "toupper c = (if c - 97 < 26 then c - 32 else c)"

lemma minus_less_iff:
  fixes c a n :: "32 word"
  assumes "uint a + uint n < 2 ^ 32"
  shows "c - a < n \<longleftrightarrow> uint a \<le> uint c \<and> uint c < uint a + uint n"
proof -
  have "uint (c - a) = (if uint a \<le> uint c then uint c - uint a else uint c - uint a + 2 ^ 32)"
    by (simp add: uint_sub_if_size word_size)
  moreover have "\<not> uint c - uint a + 2 ^ 32 < uint n"
    using assms uint_ge_0 [of c] by linarith
  ultimately show ?thesis by (auto simp: word_less_def)
qed

lemma isdigit_iff: "isdigit c \<longleftrightarrow> 48 \<le> uint c \<and> uint c \<le> 57"
  by (subst isdigit_def, subst minus_less_iff) auto

lemma islower_iff: "islower c \<longleftrightarrow> 97 \<le> uint c \<and> uint c \<le> 122"
  by (subst islower_def, subst minus_less_iff) auto

lemma isupper_iff: "isupper c \<longleftrightarrow> 65 \<le> uint c \<and> uint c \<le> 90"
  by (subst isupper_def, subst minus_less_iff) auto

lemma isspace_iff: "isspace c \<longleftrightarrow> uint c = 32 \<or> 9 \<le> uint c \<and> uint c \<le> 13"
  by (subst isspace_def, subst minus_less_iff) (auto simp: word_uint_eq_iff)

text \<open>Setting bit 5 adds 32 to a code that lacks it.\<close>

lemma uint_or_32: "uint (c OR 32 :: 32 word) = (if odd (uint c div 32) then uint c else uint c + 32)"
proof -
  have "uint (c OR 32) = set_bit 5 (uint c)"
    by (simp add: set_bit_eq_or unsigned_or_eq)
  also have "\<dots> = uint c + of_bool (\<not> bit (uint c) 5) * 32"
    by (simp add: set_bit_eq)
  finally show ?thesis by (simp add: bit_iff_odd)
qed

lemma isalpha_iff: "isalpha c \<longleftrightarrow> isupper c \<or> islower c"
proof -
  have "isalpha c \<longleftrightarrow> 97 \<le> uint (c OR 32) \<and> uint (c OR 32) \<le> 122"
    by (subst isalpha_def, subst minus_less_iff) auto
  moreover have "97 \<le> (if odd (x div 32) then x else x + 32) \<and> (if odd (x div 32) then x else x + 32) \<le> 122
      \<longleftrightarrow> 65 \<le> x \<and> x \<le> 90 \<or> 97 \<le> x \<and> x \<le> 122" for x :: int
    by (cases "odd (x div 32)") presburger+
  ultimately show ?thesis
    unfolding isupper_iff islower_iff uint_or_32 by simp
qed

lemma isalnum_iff:
  "isalnum c \<longleftrightarrow> isupper c \<or> islower c \<or> isdigit c"
  by (auto simp: isalnum_def isalpha_iff)

lemma uint_tolower: "uint (tolower c) = (if isupper c then uint c + 32 else uint c)"
proof (cases "isupper c")
  case True
  then have "uint c + 32 < 2 ^ 32" by (simp add: isupper_iff)
  then show ?thesis using True by (simp add: tolower_def isupper_def uint_plus_if_size word_size)
qed (simp add: tolower_def isupper_def)

lemma uint_toupper: "uint (toupper c) = (if islower c then uint c - 32 else uint c)"
proof (cases "islower c")
  case True
  then have "32 \<le> uint c" by (simp add: islower_iff)
  then show ?thesis using True by (simp add: toupper_def islower_def uint_sub_if_size)
qed (simp add: toupper_def islower_def)

text \<open>The conversions are inverse to each other on letters.\<close>

lemma toupper_tolower: "isupper c \<Longrightarrow> toupper (tolower c) = c"
  by (auto simp: word_uint_eq_iff uint_toupper uint_tolower islower_iff isupper_iff)

lemma tolower_toupper: "islower c \<Longrightarrow> tolower (toupper c) = c"
  by (auto simp: word_uint_eq_iff uint_toupper uint_tolower islower_iff isupper_iff)

text \<open>\<open>isprint\<close> is exact on non-negative codes and wrong on negative ones.\<close>

lemma isprint_nonneg: "0 \<le> sint c \<Longrightarrow> isprint c \<longleftrightarrow> 32 \<le> uint c \<and> uint c \<le> 126"
proof -
  assume "0 \<le> sint c"
  then have s: "sint c = uint c" by (auto simp: sint_cases split: if_splits)
    (use uint32_less [of c] in linarith)
  have u: "uint (c AND 0x7f) = uint c mod 128"
    using take_bit_eq_mask [of 7 "uint c"] by (simp add: unsigned_and_eq take_bit_eq_mod mask_eq_exp_minus_1)
  then have "sint (c AND 0x7f) = uint c mod 128"
    using pos_mod_bound [of 128 "uint c"] by (simp add: sint_cases del: pos_mod_bound)
  then show ?thesis using s by (auto simp: isprint_def)
qed

lemma isprint_negative: "isprint (- 23)" "sint (- 23 :: 32 word) = - 23"
  by (simp_all add: isprint_def)

subsection \<open>Properties\<close>

text \<open>
  \<open>isprint\<close> is exact on the codes 32 to 126 for every non-negative
  argument, and wrong on a negative one: the mask keeps its low seven bits.\<close>

theorem isprint_exact_on_nonneg:
  "(0 \<le> sint c \<longrightarrow> isprint c = (32 \<le> uint c \<and> uint c \<le> 126)) \<and> (isprint (- 23) \<and> sint (- 23 :: 32 word) < 0)"
  using isprint_nonneg [of c] isprint_negative by simp

lemma isprint_exact_on_nonneg_witness:
  "isprint 65 \<and> \<not> isprint 127"
  using isprint_exact_on_nonneg [of 65] isprint_exact_on_nonneg [of 127] by simp

end
