(* ===== verification/Numbers.thy ===== *)
theory Numbers
  imports Cstrings Ctype
begin

section \<open>Numbers to strings and back\<close>

text \<open>
  \<open>convert/decimal_to_string.c\<close> (numbers to digits in bases 2 to 36, written from the
  end of a fixed buffer) and \<open>stdlib/atoi.c\<close>, \<open>stdlib/strtol.c\<close>,
  \<open>stdlib/strtoul.c\<close> (strings to numbers). Signed C arithmetic that overflows is
  undefined behaviour and answers \<open>None\<close>.
\<close>

subsection \<open>\<open>decimal_t\<close>\<close>

definition DECIMAL_NUM_DIGITS :: nat where
  "DECIMAL_NUM_DIGITS = 63"

record decimal =
  dec_digits :: "byte list"
  dec_size :: nat
  dec_base :: int

definition decimal_prepend :: "decimal \<Rightarrow> byte \<Rightarrow> decimal \<times> int" where
  "decimal_prepend dec c =
     (if dec_size dec = DECIMAL_NUM_DIGITS then (dec, -1)
      else (let n = dec_size dec + 1 in
            (dec\<lparr>dec_size := n, dec_digits := (dec_digits dec)[DECIMAL_NUM_DIGITS - n := c]\<rparr>, 0)))"

text \<open>The returned pointer is into \<open>dec_digits\<close>: the string there ends at the first NUL.\<close>

definition get_decimal_string :: "decimal \<Rightarrow> byte list" where
  "get_decimal_string dec =
     takeWhile (\<lambda>c. c \<noteq> 0) (drop (DECIMAL_NUM_DIGITS - dec_size dec) (dec_digits dec))"

definition digit_chars :: "byte list" where
  "digit_chars = ascii ''0123456789abcdefghijklmnopqrstuvwxyz''"

function unsigned64_loop :: "decimal \<Rightarrow> nat \<Rightarrow> decimal" where
  "unsigned64_loop dec u =
     (if u = 0 \<or> dec_base dec < 2 then dec
      else unsigned64_loop (fst (decimal_prepend dec (digit_chars ! (u mod nat (dec_base dec)))))
             (u div nat (dec_base dec)))"
  by pat_completeness auto
termination
proof (relation "measure (\<lambda>(dec, u). u)", goal_cases)
  case (2 dec u)
  then have "1 < nat (dec_base dec)" "0 < u" by auto
  then show ?case by simp
qed simp

declare unsigned64_loop.simps [simp del]

definition unsigned64_to_string :: "decimal \<Rightarrow> 64 word \<Rightarrow> bool \<Rightarrow> decimal" where
  "unsigned64_to_string dec u neg =
     (let dec = dec\<lparr>dec_size := 0, dec_digits := replicate (DECIMAL_NUM_DIGITS + 1) 0\<rparr> in
      if \<not> (2 \<le> dec_base dec \<and> dec_base dec \<le> 36) then dec
      else if u = 0 then fst (decimal_prepend dec 48)
      else (let dec = unsigned64_loop dec (unat u) in
            if neg then fst (decimal_prepend dec 45) else dec))"

text \<open>Signed values: \<open>-i\<close> overflows for the least value of the type.\<close>

definition int_to_string :: "decimal \<Rightarrow> 32 word \<Rightarrow> decimal option" where
  "int_to_string dec i =
     (let v = sint i; neg = v < 0 in
      if v = - (2 ^ 31) then None
      else Some (unsigned64_to_string dec (word_of_int (if neg then - v else v)) neg))"

definition uint_to_string :: "decimal \<Rightarrow> 32 word \<Rightarrow> decimal" where
  "uint_to_string dec u = unsigned64_to_string dec (ucast u) False"

definition int64_to_string :: "decimal \<Rightarrow> 64 word \<Rightarrow> decimal option" where
  "int64_to_string dec i =
     (let v = sint i; neg = v < 0 in
      if v = - (2 ^ 63) then None
      else Some (unsigned64_to_string dec (word_of_int (if neg then - v else v)) neg))"

definition uint64_to_string :: "decimal \<Rightarrow> 64 word \<Rightarrow> decimal" where
  "uint64_to_string dec u = unsigned64_to_string dec u False"

text \<open>\<open>long\<close> arguments are passed on as \<open>int\<close>: the upper half is dropped.\<close>

definition long_to_string :: "decimal \<Rightarrow> 64 word \<Rightarrow> decimal option" where
  "long_to_string dec i = int_to_string dec (ucast i)"

definition ulong_to_string :: "decimal \<Rightarrow> 64 word \<Rightarrow> decimal" where
  "ulong_to_string dec u = uint_to_string dec (ucast u)"

definition with_base :: "int \<Rightarrow> decimal \<Rightarrow> 64 word \<Rightarrow> decimal" where
  "with_base b dec u =
     (let orig_base = dec_base dec; dec = unsigned64_to_string (dec\<lparr>dec_base := b\<rparr>) u False in
      dec\<lparr>dec_base := orig_base\<rparr>)"

definition uint64_to_octal_string :: "decimal \<Rightarrow> 64 word \<Rightarrow> decimal" where
  "uint64_to_octal_string dec u = with_base 8 dec u"

definition uint64_to_hex_string :: "decimal \<Rightarrow> 64 word \<Rightarrow> decimal" where
  "uint64_to_hex_string dec u = with_base 16 dec u"

definition uint64_to_binary_string :: "decimal \<Rightarrow> 64 word \<Rightarrow> decimal" where
  "uint64_to_binary_string dec u = with_base 2 dec u"

definition ptr_to_string :: "decimal \<Rightarrow> 64 word \<Rightarrow> decimal" where
  "ptr_to_string dec ptr =
     (let dec = uint64_to_hex_string dec ptr;
          dec = fst (decimal_prepend dec 120) in
      fst (decimal_prepend dec 48))"

subsection \<open>\<open>atoi\<close>\<close>

function atoi_loop :: "nat \<Rightarrow> mem \<Rightarrow> ptr \<Rightarrow> int \<Rightarrow> int option" where
  "atoi_loop w m s val =
     (case rd m s of None \<Rightarrow> None
      | Some c \<Rightarrow> if 48 \<le> schar c \<and> schar c \<le> 57
          then (case in_int w (10 * val) of None \<Rightarrow> None
             | Some v \<Rightarrow> (case in_int w (v + (schar c - 48)) of None \<Rightarrow> None
                | Some v' \<Rightarrow> atoi_loop w m (padd s 1) v'))
          else Some val)"
  by pat_completeness auto
termination
  by (relation "measure (\<lambda>(w, m, s, val). room m s)") (auto simp: rd_SomeD)

declare atoi_loop.simps [simp del]

definition atoi_width :: "nat \<Rightarrow> mem \<Rightarrow> ptr \<Rightarrow> int option" where
  "atoi_width w m s =
     (case rd m s of None \<Rightarrow> None
      | Some c \<Rightarrow>
         (let has_neg_sign = (c = 45); s = (if c = 45 \<or> c = 43 then padd s 1 else s) in
          case atoi_loop w m s 0 of None \<Rightarrow> None
          | Some val \<Rightarrow> in_int w (if has_neg_sign then - val else val)))"

definition str_to_int :: "mem \<Rightarrow> ptr \<Rightarrow> int option" where
  "str_to_int m s = atoi_width 32 m s"

definition str_to_i32 :: "mem \<Rightarrow> ptr \<Rightarrow> int option" where
  "str_to_i32 m s = str_to_int m s"

definition str_to_i64 :: "mem \<Rightarrow> ptr \<Rightarrow> int option" where
  "str_to_i64 m s = atoi_width 64 m s"

subsection \<open>\<open>strtol\<close> and \<open>strtoul\<close>\<close>

definition LONG_MAX :: int where "LONG_MAX = 2 ^ 63 - 1"
definition LONG_MIN :: int where "LONG_MIN = - (2 ^ 63)"
definition ULONG_MAX :: int where "ULONG_MAX = 2 ^ 64 - 1"

definition is_x :: "byte \<Rightarrow> bool" where
  "is_x c \<longleftrightarrow> c = 120 \<or> c = 88"

text \<open>Skipping white space: the first other byte, and the pointer after it.\<close>

function skip_space :: "mem \<Rightarrow> ptr \<Rightarrow> (byte \<times> ptr) option" where
  "skip_space m s =
     (case rd m s of None \<Rightarrow> None
      | Some c \<Rightarrow> if isspace (ucast c) then skip_space m (padd s 1) else Some (c, padd s 1))"
  by pat_completeness auto
termination
  by (relation "measure (\<lambda>(m, s). room m s)") (auto simp: rd_SomeD)

declare skip_space.simps [simp del]

text \<open>
  The common head of both functions: sign and base. \<open>c\<close> is the current character as an
  \<open>int\<close>, converted from \<open>unsigned char\<close> by the space loop and from \<open>char\<close>
  afterwards.
\<close>

definition number_head :: "mem \<Rightarrow> ptr \<Rightarrow> int \<Rightarrow> (bool \<times> 32 word \<times> ptr \<times> int) option" where
  "number_head m nptr b =
     do { (c0, s) \<leftarrow> skip_space m nptr;
          let neg = (c0 = 45);
          (c, s) \<leftarrow> (if c0 = 45 \<or> c0 = 43 then map_option (\<lambda>c. (scast c, padd s 1)) (rd m s)
                    else Some (ucast c0, s));
          hex \<leftarrow> (if (b = 0 \<or> b = 16) \<and> c = 48 then map_option is_x (rd m s) else Some False);
          (c, s, b) \<leftarrow> (if hex then map_option (\<lambda>c. (scast c, padd s 2, 16)) (rd m (padd s 1))
                       else Some (c, s, b));
          let b = (if b = 0 then (if c = 48 then 8 else 10) else b);
          Some (neg, c, s, b) }"

text \<open>The value of a character as a digit.\<close>

definition digit_val :: "32 word \<Rightarrow> int option" where
  "digit_val c =
     (if isdigit c then Some (sint (c - 48))
      else if isalpha c then Some (sint (if isupper c then c - 55 else c - 87))
      else None)"

text \<open>The loop of \<open>strtol\<close>: \<open>any\<close> is 0 before the first digit, 1 after one, -1 after
  an overflow (\<open>ERANGE\<close>), from when on digits are only skipped.\<close>

function strtol_loop ::
  "mem \<Rightarrow> bool \<Rightarrow> int \<Rightarrow> int \<Rightarrow> int \<Rightarrow> 32 word \<Rightarrow> ptr \<Rightarrow> int \<Rightarrow> int \<Rightarrow> (int \<times> int \<times> ptr) option" where
  "strtol_loop m neg b cutoff cutlim c s acc any =
     (case digit_val c of None \<Rightarrow> Some (acc, any, s)
      | Some d \<Rightarrow> if d \<ge> b then Some (acc, any, s)
          else (case (if any < 0 then (acc, any)
                      else if neg
                      then (if acc < cutoff \<or> acc = cutoff \<and> d > cutlim then (LONG_MIN, -1)
                            else (acc * b - d, 1))
                      else (if acc > cutoff \<or> acc = cutoff \<and> d > cutlim then (LONG_MAX, -1)
                            else (acc * b + d, 1))) of (acc, any) \<Rightarrow>
             (case rd m s of None \<Rightarrow> None
              | Some c \<Rightarrow> strtol_loop m neg b cutoff cutlim (ucast c) (padd s 1) acc any)))"
  by pat_completeness auto
termination
  by (relation "measure (\<lambda>(m, neg, b, cutoff, cutlim, c, s, acc, any). room m s)") (auto simp: rd_SomeD)

declare strtol_loop.simps [simp del]

text \<open>
  The result is the value, the end pointer and whether \<open>sys_errno\<close> was set to
  \<open>ERANGE\<close>. The quotient and remainder are the truncating ones of C; dividing the least
  \<open>long\<close> by -1 is undefined.
\<close>

definition str_to_long :: "mem \<Rightarrow> ptr \<Rightarrow> int \<Rightarrow> (int \<times> ptr \<times> bool) option" where
  "str_to_long m nptr b =
     do { (neg, c, s, b) \<leftarrow> number_head m nptr b;
          let cutoff = (if neg then LONG_MIN else LONG_MAX);
          (if neg \<and> b = -1 then None else Some ());
          let cutlim = cutoff smod b;
          let cutoff = cutoff sdiv b;
          let (cutlim, cutoff) =
            (if neg then (if cutlim > 0 then (- (cutlim - b), cutoff + 1) else (- cutlim, cutoff))
             else (cutlim, cutoff));
          (acc, any, s) \<leftarrow> strtol_loop m neg b cutoff cutlim c s 0 0;
          Some (acc, if any \<noteq> 0 then pdec s else nptr, any < 0) }"

text \<open>\<open>strtoul\<close>: unsigned arithmetic, so the cutoff needs no sign, and a minus sign negates
  modulo $2^{64}$.\<close>

function strtoul_loop ::
  "mem \<Rightarrow> int \<Rightarrow> int \<Rightarrow> int \<Rightarrow> 32 word \<Rightarrow> ptr \<Rightarrow> int \<Rightarrow> int \<Rightarrow> (int \<times> int \<times> ptr) option" where
  "strtoul_loop m b cutoff cutlim c s acc any =
     (case digit_val c of None \<Rightarrow> Some (acc, any, s)
      | Some d \<Rightarrow> if d \<ge> b then Some (acc, any, s)
          else (case (if any < 0 \<or> acc > cutoff \<or> acc = cutoff \<and> d > cutlim then (acc, -1)
                      else (acc * b + d, 1)) of (acc, any) \<Rightarrow>
             (case rd m s of None \<Rightarrow> None
              | Some c \<Rightarrow> strtoul_loop m b cutoff cutlim (ucast c) (padd s 1) acc any)))"
  by pat_completeness auto
termination
  by (relation "measure (\<lambda>(m, b, cutoff, cutlim, c, s, acc, any). room m s)") (auto simp: rd_SomeD)

declare strtoul_loop.simps [simp del]

definition str_to_unsigned_long :: "mem \<Rightarrow> ptr \<Rightarrow> int \<Rightarrow> (int \<times> ptr \<times> bool) option" where
  "str_to_unsigned_long m nptr b =
     do { (neg, c, s, b) \<leftarrow> number_head m nptr b;
          let cutoff = ULONG_MAX div (b mod 2 ^ 64);
          let cutlim = ULONG_MAX mod (b mod 2 ^ 64);
          (acc, any, s) \<leftarrow> strtoul_loop m b cutoff cutlim c s 0 0;
          let acc = (if any < 0 then ULONG_MAX else if neg then (- acc) mod 2 ^ 64 else acc);
          Some (acc, if any \<noteq> 0 then pdec s else nptr, any < 0) }"

subsection \<open>Digits written\<close>

text \<open>The digits of a number, most significant first.\<close>

fun to_digits :: "nat \<Rightarrow> nat \<Rightarrow> nat list" where
  "to_digits b u = (if u = 0 \<or> b < 2 then [] else to_digits b (u div b) @ [u mod b])"

declare to_digits.simps [simp del]

definition of_digits :: "nat \<Rightarrow> nat list \<Rightarrow> nat" where
  "of_digits b ds = foldl (\<lambda>a d. a * b + d) 0 ds"

lemma of_digits_snoc [simp]: "of_digits b (ds @ [d]) = of_digits b ds * b + d"
  by (simp add: of_digits_def)

lemma of_digits_Nil [simp]: "of_digits b [] = 0"
  by (simp add: of_digits_def)

lemma of_to_digits: "2 \<le> b \<Longrightarrow> of_digits b (to_digits b u) = u"
  by (induction b u rule: to_digits.induct) (subst to_digits.simps, simp)

lemma to_digits_less: "2 \<le> b \<Longrightarrow> d \<in> set (to_digits b u) \<Longrightarrow> d < b"
proof (induction b u rule: to_digits.induct)
  case (1 b u)
  then show ?case by (subst (asm) to_digits.simps) (auto split: if_splits)
qed

lemma to_digits_length: "2 \<le> b \<Longrightarrow> u < b ^ k \<Longrightarrow> length (to_digits b u) \<le> k"
proof (induction k arbitrary: u)
  case 0
  then show ?case by (subst to_digits.simps) simp
next
  case (Suc k)
  then have "u div b < b ^ k" by (simp add: less_mult_imp_div_less mult.commute)
  with Suc show ?case by (subst to_digits.simps) simp
qed

lemma to_digits_nonempty: "2 \<le> b \<Longrightarrow> 0 < u \<Longrightarrow> to_digits b u \<noteq> []"
  by (subst to_digits.simps) simp

text \<open>The buffer of a \<open>decimal_t\<close> holds a string at its end.\<close>

definition dec_holds :: "decimal \<Rightarrow> byte list \<Rightarrow> bool" where
  "dec_holds dec s \<longleftrightarrow> length (dec_digits dec) = 64 \<and> dec_size dec = length s \<and> length s \<le> 63 \<and>
     drop (63 - length s) (dec_digits dec) = s @ [0] \<and> 0 \<notin> set s"

lemma get_decimal_string_holds: "dec_holds dec s \<Longrightarrow> get_decimal_string dec = s"
  by (auto simp: dec_holds_def get_decimal_string_def DECIMAL_NUM_DIGITS_def)

lemma decimal_prepend_holds:
  assumes "dec_holds dec s" "c \<noteq> 0"
  shows "dec_holds (fst (decimal_prepend dec c)) (if length s < 63 then c # s else s)"
proof (cases "length s < 63")
  case True
  let ?n = "63 - Suc (length s)"
  have n: "?n < length (dec_digits dec)" "Suc ?n = 63 - length s"
    using True assms by (auto simp: dec_holds_def)
  have "drop ?n ((dec_digits dec)[?n := c]) = c # drop (Suc ?n) (dec_digits dec)"
    using n by (subst Cons_nth_drop_Suc [symmetric]) auto
  then show ?thesis using True assms n by (simp add: dec_holds_def decimal_prepend_def DECIMAL_NUM_DIGITS_def)
next
  case False
  then show ?thesis using assms by (simp add: dec_holds_def decimal_prepend_def DECIMAL_NUM_DIGITS_def)
qed

lemma decimal_prepend_base [simp]: "dec_base (fst (decimal_prepend dec c)) = dec_base dec"
  by (simp add: decimal_prepend_def Let_def)

definition take_last :: "nat \<Rightarrow> 'a list \<Rightarrow> 'a list" where
  "take_last n xs = drop (length xs - n) xs"

lemma take_last_all: "length xs \<le> n \<Longrightarrow> take_last n xs = xs"
  by (simp add: take_last_def)

lemma take_last_snoc_Cons:
  "take_last n (xs @ (if length s < n then c # s else s)) = take_last n (xs @ c # s)" if "length s \<le> n"
  using that by (auto simp: take_last_def)

definition digit_string :: "nat list \<Rightarrow> byte list" where
  "digit_string ds = map ((!) digit_chars) ds"

lemma digit_chars_length: "length digit_chars = 36"
  by (simp add: digit_chars_def ascii_def)

lemma all_digit_chars: "\<forall>d \<in> set [0..<36]. digit_chars ! d \<noteq> 0 \<and> uint (digit_chars ! d) < 128"
  by code_simp

lemma digit_chars_nz: "d < 36 \<Longrightarrow> digit_chars ! d \<noteq> 0"
  using all_digit_chars by auto

lemma unsigned64_loop_base [simp]: "dec_base (unsigned64_loop dec u) = dec_base dec"
  by (induction dec u rule: unsigned64_loop.induct) (subst unsigned64_loop.simps, simp)

lemma unsigned64_loop_holds:
  assumes "dec_holds dec s" "2 \<le> dec_base dec" "dec_base dec \<le> 36"
  shows "dec_holds (unsigned64_loop dec u)
           (take_last 63 (digit_string (to_digits (nat (dec_base dec)) u) @ s))"
  using assms
proof (induction dec u arbitrary: s rule: unsigned64_loop.induct)
  case (1 dec u)
  let ?b = "nat (dec_base dec)"
  let ?c = "digit_chars ! (u mod ?b)"
  let ?dec = "fst (decimal_prepend dec ?c)"
  let ?s = "if length s < 63 then ?c # s else s"
  have l: "length s \<le> 63" "\<not> ?b < 2" using "1.prems" by (auto simp: dec_holds_def)
  show ?case
  proof (cases "u = 0")
    case True
    then show ?thesis using "1.prems" l by (subst unsigned64_loop.simps, subst to_digits.simps)
        (simp add: digit_string_def take_last_all)
  next
    case False
    have "u mod ?b < 36" using "1.prems" by (intro less_le_trans [OF mod_less_divisor]) auto
    then have h: "dec_holds ?dec ?s"
      using decimal_prepend_holds [OF "1.prems"(1) digit_chars_nz] by simp
    have "dec_holds (unsigned64_loop ?dec (u div ?b)) (take_last 63 (digit_string (to_digits ?b (u div ?b)) @ ?s))"
      using "1.IH" [OF _ h] False "1.prems" by simp
    then show ?thesis using False "1.prems" l
      by (subst unsigned64_loop.simps, subst to_digits.simps) (simp add: digit_string_def take_last_snoc_Cons)
  qed
qed

text \<open>The digits of a number as the code writes them, 0 included.\<close>

definition numstr :: "nat \<Rightarrow> nat \<Rightarrow> byte list" where
  "numstr b u = digit_string (if u = 0 then [0] else to_digits b u)"

lemma numstr_length: "2 \<le> b \<Longrightarrow> u < b ^ k \<Longrightarrow> 0 < k \<Longrightarrow> length (numstr b u) \<le> k"
  by (auto simp: numstr_def digit_string_def intro: to_digits_length)

lemma unat_u64_less: "unat (u :: 64 word) < 2 ^ 64"
proof -
  have "unat u < 2 ^ LENGTH(64)" by (rule unsigned_less)
  then show ?thesis by simp
qed

lemma dec_holds_cleared: "dec_holds (dec\<lparr>dec_size := 0, dec_digits := replicate 64 0\<rparr>) []"
  by (simp add: dec_holds_def)

lemma unsigned64_to_string_holds:
  assumes "2 \<le> dec_base dec" "dec_base dec \<le> 36"
  defines "b \<equiv> nat (dec_base dec)"
  shows "dec_holds (unsigned64_to_string dec u False) (take_last 63 (numstr b (unat u)))"
proof -
  let ?d = "dec\<lparr>dec_size := 0, dec_digits := replicate 64 0\<rparr>"
  have u: "u = 0 \<longleftrightarrow> unat u = 0" by (simp add: unat_eq_0)
  have 0: "dec_holds (fst (decimal_prepend ?d 48)) [48]"
    using decimal_prepend_holds [OF dec_holds_cleared, of 48] by simp
  have "digit_chars ! 0 = 48" by code_simp
  then show ?thesis
    using 0 assms unsigned64_loop_holds [OF dec_holds_cleared, of dec "unat u"] u
    by (simp add: unsigned64_to_string_def DECIMAL_NUM_DIGITS_def Let_def numstr_def digit_string_def take_last_all)
qed

lemma unsigned64_to_string_minus:
  assumes "2 \<le> dec_base dec" "dec_base dec \<le> 36" "u \<noteq> 0"
  defines "b \<equiv> nat (dec_base dec)"
  assumes "length (numstr b (unat u)) < 63"
  shows "dec_holds (unsigned64_to_string dec u True) (45 # numstr b (unat u))"
proof -
  have "unsigned64_to_string dec u True = fst (decimal_prepend (unsigned64_to_string dec u False) 45)"
    using assms(1-3) by (simp add: unsigned64_to_string_def Let_def)
  moreover have "dec_holds (unsigned64_to_string dec u False) (numstr b (unat u))"
    using unsigned64_to_string_holds [of dec u] assms by (simp add: take_last_all)
  ultimately show ?thesis using decimal_prepend_holds [of _ "numstr b (unat u)" 45] assms(5) by simp
qed

lemma numstr_length_u64:
  assumes "2 \<le> b" "b \<noteq> 2 \<or> unat (u :: 64 word) < 2 ^ 63"
  shows "length (numstr b (unat u)) \<le> 63"
proof (rule numstr_length)
  show "unat u < b ^ 63"
  proof (cases "b = 2")
    case False
    with assms(1) have "(3::nat) ^ 63 \<le> b ^ 63" by (intro power_mono) auto
    with unat_u64_less [of u] show ?thesis by simp
  qed (use assms in simp)
qed (use assms in auto)

lemma uint64_to_string_eq:
  assumes "2 \<le> dec_base dec" "dec_base dec \<le> 36" "dec_base dec \<noteq> 2 \<or> unat u < 2 ^ 63"
  shows "get_decimal_string (uint64_to_string dec u) = numstr (nat (dec_base dec)) (unat u)"
  using unsigned64_to_string_holds [OF assms(1,2), of u] numstr_length_u64 [of "nat (dec_base dec)" u] assms
  by (auto simp: uint64_to_string_def take_last_all dest: get_decimal_string_holds)

lemma with_base_eq:
  assumes "2 \<le> b" "b \<le> 36"
  shows "get_decimal_string (with_base b dec u) = take_last 63 (numstr (nat b) (unat u))"
    "dec_base (with_base b dec u) = dec_base dec"
proof -
  have "dec_holds (dec'\<lparr>dec_base := x\<rparr>) s = dec_holds dec' s" for dec' x s by (simp add: dec_holds_def)
  then show "get_decimal_string (with_base b dec u) = take_last 63 (numstr (nat b) (unat u))"
    using unsigned64_to_string_holds [of "dec\<lparr>dec_base := b\<rparr>" u] assms
    by (intro get_decimal_string_holds) (simp add: with_base_def Let_def)
qed (simp add: with_base_def Let_def)

text \<open>Sixty-three digits do not hold the binary form of a number with its top bit set: the
  leading digit is lost.\<close>

lemma to_digits_mult_add: "2 \<le> b \<Longrightarrow> 0 < u \<Longrightarrow> r < b \<Longrightarrow> to_digits b (u * b + r) = to_digits b u @ [r]"
  by (subst to_digits.simps) simp

lemma to_digits_top:
  assumes "2 \<le> b" "0 < q" "q < b" "r < b ^ k"
  shows "\<exists>ds. length ds = k \<and> of_digits b ds = r \<and> to_digits b (q * b ^ k + r) = q # ds"
  using assms(4)
proof (induction k arbitrary: r)
  case 0
  have "to_digits b q = [q]" using assms by (subst to_digits.simps, subst to_digits.simps) simp
  then show ?case using 0 by simp
next
  case (Suc k)
  then have r: "r div b < b ^ k" by (simp add: less_mult_imp_div_less mult.commute)
  from Suc.IH [OF r] obtain ds where ds: "length ds = k" "of_digits b ds = r div b"
    "to_digits b (q * b ^ k + r div b) = q # ds" by blast
  have "q * b ^ Suc k + r = (q * b ^ k + r div b) * b + r mod b" by (simp add: algebra_simps)
  moreover have "0 < q * b ^ k + r div b" using assms by simp
  ultimately have "to_digits b (q * b ^ Suc k + r) = to_digits b (q * b ^ k + r div b) @ [r mod b]"
    using to_digits_mult_add [of b "q * b ^ k + r div b" "r mod b"] assms by simp
  then show ?case using ds assms by (intro exI [of _ "ds @ [r mod b]"]) simp
qed

lemma uint64_to_binary_drops_top:
  assumes "2 ^ 63 \<le> unat u"
  shows "\<exists>ds. length ds = 63 \<and> of_digits 2 ds = unat u - 2 ^ 63 \<and>
    get_decimal_string (uint64_to_binary_string dec u) = digit_string ds"
proof -
  have "unat u - 2 ^ 63 < 2 ^ 63" using unat_u64_less [of u] assms by simp
  from to_digits_top [of 2 1 "unat u - 2 ^ 63" 63] this obtain ds where
    ds: "length ds = 63" "of_digits 2 ds = unat u - 2 ^ 63" "to_digits 2 (1 * 2 ^ 63 + (unat u - 2 ^ 63)) = 1 # ds"
    by auto
  have "1 * 2 ^ 63 + (unat u - 2 ^ 63) = unat u" using assms by simp
  then have "numstr 2 (unat u) = digit_string (1 # ds)" using ds(3) assms by (simp add: numstr_def)
  then have "take_last 63 (numstr 2 (unat u)) = digit_string ds" using ds(1) by (simp add: take_last_def digit_string_def)
  then show ?thesis using ds with_base_eq(1) [of 2 dec u] by (auto simp: uint64_to_binary_string_def)
qed

subsection \<open>Digits read\<close>

lemma uint8_less: "uint (x :: byte) < 256"
  using uint_range_size [of x] by (simp add: word_size)

lemma uint_ucast_byte: "uint (ucast (x :: byte) :: 32 word) = uint x"
  using uint8_less [of x] by (simp add: unsigned_ucast_eq take_bit_int_eq_self)

lemma uint_nn: "0 \<le> uint (x :: 'a :: len word)" by simp

lemma sint_ucast_byte: "sint (ucast (x :: byte) :: 32 word) = uint x"
  using uint8_less [of x] by (simp add: sint_cases uint_ucast_byte)

lemma sint_scast_byte: "sint (scast (x :: byte) :: 32 word) = sint x"
  using sint_range_size [of x] by (simp add: signed_scast_eq signed_take_bit_int_eq_self word_size)

lemma scast_ucast_byte: "uint x < 128 \<Longrightarrow> (scast (x :: byte) :: 32 word) = ucast x"
  using sint_scast_byte [of x] sint_ucast_byte [of x] sint_cases [of x]
  by (intro signed_word_eqI [where 'a = int]) simp

text \<open>The digit value of a character.\<close>

definition bdigit :: "byte \<Rightarrow> int option" where
  "bdigit x =
     (if 48 \<le> uint x \<and> uint x \<le> 57 then Some (uint x - 48)
      else if 65 \<le> uint x \<and> uint x \<le> 90 then Some (uint x - 55)
      else if 97 \<le> uint x \<and> uint x \<le> 122 then Some (uint x - 87) else None)"

lemma sint_minus_small:
  fixes c k :: "32 word"
  assumes "uint k \<le> uint c" "uint c < 2 ^ 31"
  shows "sint (c - k) = uint c - uint k"
proof -
  have "uint c - uint k < 2 ^ 31" using assms uint_nn [of k] by (smt (verit))
  then show ?thesis using assms by (simp add: sint_cases uint_sub_if_size)
qed

lemma digit_val_ucast: "digit_val (ucast x) = bdigit x"
  by (auto simp: digit_val_def bdigit_def isdigit_iff isalpha_iff isupper_iff islower_iff
      uint_ucast_byte sint_minus_small)

lemma digit_val_neg: "2 ^ 31 \<le> uint c \<Longrightarrow> digit_val c = None"
  by (auto simp: digit_val_def isdigit_iff isalpha_iff isupper_iff islower_iff)

lemma digit_val_scast: "digit_val (scast (x :: byte)) = bdigit x"
proof (cases "uint x < 128")
  case True
  then show ?thesis by (simp add: scast_ucast_byte digit_val_ucast)
next
  case False
  then have "sint (scast x :: 32 word) < 0"
    using uint8_less [of x] sint_cases [of x] by (simp add: sint_scast_byte)
  then have "2 ^ 31 \<le> uint (scast x :: 32 word)"
    using uint_nn [of "scast x :: 32 word"] sint_cases [of "scast x :: 32 word"] by (simp split: if_splits)
  then show ?thesis using False by (auto simp: digit_val_neg bdigit_def)
qed

lemma bdigit_digit_chars: "d < 36 \<Longrightarrow> bdigit (digit_chars ! d) = Some (int d)"
proof -
  have "\<forall>d \<in> set [0..<36]. bdigit (digit_chars ! d) = Some (int d)" by code_simp
  then show "d < 36 \<Longrightarrow> bdigit (digit_chars ! d) = Some (int d)" by auto
qed

text \<open>The scanner's state: the current character, and the pointer after it.\<close>

definition cur :: "mem \<Rightarrow> 32 word \<Rightarrow> ptr \<Rightarrow> byte list \<Rightarrow> bool" where
  "cur m c s str \<longleftrightarrow>
     (case str of [] \<Rightarrow> c = 0
      | x # xs \<Rightarrow> (c = ucast x \<or> c = scast x) \<and> cstr m s = Some xs)"

lemma cur_next:
  assumes "cstr m s = Some xs"
  shows "\<exists>c. rd m s = Some c \<and> cur m (ucast c) (padd s 1) xs \<and> cur m (scast c) (padd s 1) xs"
proof (cases xs)
  case Nil
  then show ?thesis using assms by (auto simp: cstr_simps cur_def)
next
  case (Cons x xs)
  then show ?thesis using assms by (auto simp: cstr_simps cur_def)
qed

lemma cur_digit: "cur m c s (x # xs) \<Longrightarrow> digit_val c = bdigit x"
  by (auto simp: cur_def digit_val_ucast digit_val_scast)

definition stops :: "int \<Rightarrow> byte list \<Rightarrow> bool" where
  "stops b rest \<longleftrightarrow> (case rest of [] \<Rightarrow> True | x # _ \<Rightarrow> (case bdigit x of None \<Rightarrow> True | Some d \<Rightarrow> d \<ge> b))"

lemma cur_stops: "cur m c s rest \<Longrightarrow> stops b rest \<Longrightarrow> digit_val c = None \<or> (\<exists>d. digit_val c = Some d \<and> d \<ge> b)"
proof (cases rest)
  case Nil
  moreover assume "cur m c s rest"
  ultimately have "digit_val c = None" by (simp add: cur_def digit_val_def isdigit_iff isalpha_iff isupper_iff islower_iff)
  then show ?thesis by simp
next
  case (Cons x xs)
  moreover assume "cur m c s rest" "stops b rest"
  ultimately show ?thesis by (auto simp: cur_digit stops_def split: option.splits)
qed

text \<open>The digits of base \<open>b\<close> a string starts with, and their value.\<close>

fun num_prefix :: "int \<Rightarrow> byte list \<Rightarrow> int list" where
  "num_prefix b [] = []"
| "num_prefix b (x # xs) =
     (case bdigit x of None \<Rightarrow> [] | Some d \<Rightarrow> if d < b then d # num_prefix b xs else [])"

fun ival :: "int \<Rightarrow> int \<Rightarrow> int list \<Rightarrow> int" where
  "ival b acc [] = acc"
| "ival b acc (d # ds) = ival b (acc * b + d) ds"

lemma num_prefix_range: "d \<in> set (num_prefix b xs) \<Longrightarrow> 0 \<le> d \<and> d < b"
  by (induction b xs rule: num_prefix.induct) (auto simp: bdigit_def split: option.splits if_splits)

lemma num_prefix_length: "length (num_prefix b xs) \<le> length xs"
  by (induction b xs rule: num_prefix.induct) (auto split: option.splits)

lemma ival_mono:
  assumes "1 \<le> b" "0 \<le> acc" "\<forall>d \<in> set ds. 0 \<le> d"
  shows "acc \<le> ival b acc ds"
  using assms
proof (induction ds arbitrary: acc)
  case (Cons d ds)
  have "acc * 1 \<le> acc * b" using Cons.prems by (intro mult_left_mono) auto
  moreover have "0 \<le> d" using Cons.prems by simp
  ultimately have "acc \<le> acc * b + d" by linarith
  moreover have "acc * b + d \<le> ival b (acc * b + d) ds"
    using Cons.prems calculation by (intro Cons.IH) auto
  ultimately show ?case by simp
qed simp

lemma cutoff_iff:
  fixes a b d M :: int
  assumes "0 < b" "0 \<le> d" "d < b"
  shows "a > M div b \<or> a = M div b \<and> d > M mod b \<longleftrightarrow> a * b + d > M"
proof -
  have M: "M = M div b * b + M mod b" by simp
  have r: "0 \<le> M mod b" "M mod b < b" using assms by auto
  have M': "b * (M div b) \<le> M" "M < b * (M div b) + b" using M r mult.commute [of b "M div b"] by linarith+
  consider "a \<le> M div b - 1" | "a = M div b" | "a \<ge> M div b + 1" by linarith
  then show ?thesis
  proof cases
    case 1
    then have "a * b \<le> (M div b - 1) * b" using assms by (intro mult_right_mono) auto
    then have "a * b + d \<le> M" using M' assms by (simp add: algebra_simps)
    then show ?thesis using 1 by auto
  next
    case 2
    then have "a * b + M mod b = M" using M by simp
    then show ?thesis using 2 by (smt (verit))
  next
    case 3
    then have "(M div b + 1) * b \<le> a * b" using assms by (intro mult_right_mono) auto
    then have "a * b + d > M" using M' assms by (simp add: algebra_simps)
    then show ?thesis using 3 by auto
  qed
qed

lemma cur_Cons_next:
  assumes "cur m c s (x # xs)"
  obtains c' where "rd m s = Some c'" "cur m (ucast c') (padd s 1) xs"
  using assms cur_next [of m s xs] by (auto simp: cur_def)

lemma num_prefix_Nil_stops: "num_prefix b str = [] \<longleftrightarrow> stops b str"
  by (cases str) (auto simp: stops_def split: option.splits)

lemma num_prefix_ConsE:
  assumes "num_prefix b str = d # ds"
  obtains x xs where "str = x # xs" "bdigit x = Some d" "d < b" "num_prefix b xs = ds"
  using assms by (cases str) (auto split: option.splits if_splits)

text \<open>The loops at a digit and at the end.\<close>

lemma strtol_loop_stop:
  "cur m c s str \<Longrightarrow> num_prefix b str = [] \<Longrightarrow>
   strtol_loop m neg b co cl c s acc any = Some (acc, any, s)"
  using cur_stops [of m c s str b] by (subst strtol_loop.simps) (auto simp: num_prefix_Nil_stops)

lemma strtoul_loop_stop:
  "cur m c s str \<Longrightarrow> num_prefix b str = [] \<Longrightarrow> strtoul_loop m b co cl c s acc any = Some (acc, any, s)"
  using cur_stops [of m c s str b] by (subst strtoul_loop.simps) (auto simp: num_prefix_Nil_stops)

lemma strtol_loop_skip:
  assumes "cur m c s str" "num_prefix b str = ds" "any < 0"
  shows "strtol_loop m neg b co cl c s acc any = Some (acc, any, padd s (length ds))"
  using assms
proof (induction ds arbitrary: c s str)
  case Nil
  then show ?case by (simp add: strtol_loop_stop)
next
  case (Cons d ds)
  from Cons.prems(2) obtain x xs where x: "str = x # xs" "bdigit x = Some d" "d < b" "num_prefix b xs = ds"
    by (rule num_prefix_ConsE)
  obtain c' where c': "rd m s = Some c'" "cur m (ucast c') (padd s 1) xs"
    using Cons.prems x by (auto elim: cur_Cons_next)
  show ?case
    using Cons.IH [OF c'(2) x(4)] Cons.prems c' x cur_digit [of m c s x xs]
    by (subst strtol_loop.simps) simp
qed

lemma strtoul_loop_skip:
  assumes "cur m c s str" "num_prefix b str = ds" "any < 0"
  shows "strtoul_loop m b co cl c s acc any = Some (acc, if ds = [] then any else -1, padd s (length ds))"
  using assms
proof (induction ds arbitrary: c s str any)
  case Nil
  then show ?case by (simp add: strtoul_loop_stop)
next
  case (Cons d ds)
  from Cons.prems(2) obtain x xs where x: "str = x # xs" "bdigit x = Some d" "d < b" "num_prefix b xs = ds"
    by (rule num_prefix_ConsE)
  obtain c' where c': "rd m s = Some c'" "cur m (ucast c') (padd s 1) xs"
    using Cons.prems x by (auto elim: cur_Cons_next)
  show ?case
    using Cons.IH [OF c'(2) x(4), of "-1"] Cons.prems c' x cur_digit [of m c s x xs]
    by (subst strtoul_loop.simps) simp
qed

text \<open>The value read, saturated at the bound the cutoffs were taken from.\<close>

lemma strtol_loop_pos:
  assumes "2 \<le> b" "0 \<le> acc" "acc \<le> LONG_MAX" "0 \<le> any" "cur m c s str" "num_prefix b str = ds"
  shows "strtol_loop m False b (LONG_MAX div b) (LONG_MAX mod b) c s acc any =
    Some (if ival b acc ds \<le> LONG_MAX
          then (ival b acc ds, if ds = [] then any else 1, padd s (length ds))
          else (LONG_MAX, -1, padd s (length ds)))"
  using assms
proof (induction ds arbitrary: c s str acc any)
  case Nil
  then show ?case by (simp add: strtol_loop_stop)
next
  case (Cons d ds)
  from Cons.prems(6) obtain x xs where x: "str = x # xs" "bdigit x = Some d" "d < b" "num_prefix b xs = ds"
    by (rule num_prefix_ConsE)
  obtain c' where c': "rd m s = Some c'" "cur m (ucast c') (padd s 1) xs"
    using Cons.prems x by (auto elim: cur_Cons_next)
  have d: "0 \<le> d" using num_prefix_range [of d b str] Cons.prems by simp
  have ds: "\<forall>d \<in> set ds. 0 \<le> d" using num_prefix_range [of _ b xs] x by auto
  have dv: "digit_val c = Some d" using Cons.prems x cur_digit [of m c s x xs] by simp
  have nn: "0 \<le> acc * b + d" using Cons.prems d by simp
  show ?case
  proof (cases "acc * b + d > LONG_MAX")
    case True
    moreover have "acc * b + d \<le> ival b (acc * b + d) ds" using Cons.prems nn ds by (intro ival_mono) auto
    ultimately show ?thesis
      using cutoff_iff [of b d LONG_MAX acc] strtol_loop_skip [OF c'(2) x(4)] Cons.prems c' x dv d
      by (subst strtol_loop.simps) simp
  next
    case False
    then show ?thesis
      using cutoff_iff [of b d LONG_MAX acc] Cons.IH [OF _ nn _ _ c'(2) x(4), of 1] Cons.prems c' x dv d
      by (subst strtol_loop.simps) auto
  qed
qed

lemma strtol_loop_neg:
  assumes "2 \<le> b" "0 \<le> acc" "acc \<le> 2 ^ 63" "0 \<le> any" "cur m c s str" "num_prefix b str = ds"
  shows "strtol_loop m True b (- (2 ^ 63 div b)) (2 ^ 63 mod b) c s (- acc) any =
    Some (if ival b acc ds \<le> 2 ^ 63
          then (- ival b acc ds, if ds = [] then any else 1, padd s (length ds))
          else (LONG_MIN, -1, padd s (length ds)))"
  using assms
proof (induction ds arbitrary: c s str acc any)
  case Nil
  then show ?case by (simp add: strtol_loop_stop)
next
  case (Cons d ds)
  from Cons.prems(6) obtain x xs where x: "str = x # xs" "bdigit x = Some d" "d < b" "num_prefix b xs = ds"
    by (rule num_prefix_ConsE)
  obtain c' where c': "rd m s = Some c'" "cur m (ucast c') (padd s 1) xs"
    using Cons.prems x by (auto elim: cur_Cons_next)
  have d: "0 \<le> d" using num_prefix_range [of d b str] Cons.prems by simp
  have ds: "\<forall>d \<in> set ds. 0 \<le> d" using num_prefix_range [of _ b xs] x by auto
  have dv: "digit_val c = Some d" using Cons.prems x cur_digit [of m c s x xs] by simp
  have nn: "0 \<le> acc * b + d" using Cons.prems d by simp
  have eq: "- acc < - (2 ^ 63 div b) \<or> - acc = - (2 ^ 63 div b) \<and> d > 2 ^ 63 mod b \<longleftrightarrow> acc * b + d > 2 ^ 63"
    using cutoff_iff [of b d "2 ^ 63" acc] d x Cons.prems by auto
  have e2: "- acc * b - d = - (acc * b + d)" by simp
  show ?case
  proof (cases "acc * b + d > 2 ^ 63")
    case True
    moreover have "acc * b + d \<le> ival b (acc * b + d) ds" using Cons.prems nn ds by (intro ival_mono) auto
    ultimately show ?thesis
      using eq strtol_loop_skip [OF c'(2) x(4)] Cons.prems c' x dv d
      by (subst strtol_loop.simps) simp
  next
    case False
    then show ?thesis
      using eq Cons.IH [OF _ nn _ _ c'(2) x(4), of 1] Cons.prems c' x dv d unfolding e2 [symmetric]
      by (subst strtol_loop.simps) auto
  qed
qed

lemma strtoul_loop_eq:
  assumes "2 \<le> b" "0 \<le> acc" "acc \<le> ULONG_MAX" "0 \<le> any" "cur m c s str" "num_prefix b str = ds"
  shows "\<exists>a. strtoul_loop m b (ULONG_MAX div b) (ULONG_MAX mod b) c s acc any =
    Some (if ival b acc ds \<le> ULONG_MAX
          then (ival b acc ds, if ds = [] then any else 1, padd s (length ds))
          else (a, -1, padd s (length ds)))"
  using assms
proof (induction ds arbitrary: c s str acc any)
  case Nil
  then show ?case by (simp add: strtoul_loop_stop)
next
  case (Cons d ds)
  from Cons.prems(6) obtain x xs where x: "str = x # xs" "bdigit x = Some d" "d < b" "num_prefix b xs = ds"
    by (rule num_prefix_ConsE)
  obtain c' where c': "rd m s = Some c'" "cur m (ucast c') (padd s 1) xs"
    using Cons.prems x by (auto elim: cur_Cons_next)
  have d: "0 \<le> d" using num_prefix_range [of d b str] Cons.prems by simp
  have ds: "\<forall>d \<in> set ds. 0 \<le> d" using num_prefix_range [of _ b xs] x by auto
  have dv: "digit_val c = Some d" using Cons.prems x cur_digit [of m c s x xs] by simp
  have nn: "0 \<le> acc * b + d" using Cons.prems d by simp
  show ?case
  proof (cases "acc * b + d > ULONG_MAX")
    case True
    moreover have "acc * b + d \<le> ival b (acc * b + d) ds" using Cons.prems nn ds by (intro ival_mono) auto
    ultimately show ?thesis
      using cutoff_iff [of b d ULONG_MAX acc] strtoul_loop_skip [OF c'(2) x(4), of "-1"] Cons.prems c' x dv d
      by (subst strtoul_loop.simps) simp
  next
    case False
    then show ?thesis
      using cutoff_iff [of b d ULONG_MAX acc] Cons.IH [OF _ nn _ _ c'(2) x(4), of 1] Cons.prems c' x dv d
      by (subst strtoul_loop.simps) auto
  qed
qed
subsection \<open>What is read of a string\<close>

text \<open>The specification on byte strings: leading space, sign, base prefix.\<close>

definition bspace :: "byte \<Rightarrow> bool" where
  "bspace x \<longleftrightarrow> isspace (ucast x)"

definition skip_sign :: "byte list \<Rightarrow> bool \<times> byte list" where
  "skip_sign xs = (case xs of [] \<Rightarrow> (False, [])
     | x # ys \<Rightarrow> if x = 45 then (True, ys) else if x = 43 then (False, ys) else (False, xs))"

definition hex_prefix :: "byte list \<Rightarrow> bool" where
  "hex_prefix xs \<longleftrightarrow> (case xs of x # y # _ \<Rightarrow> x = 48 \<and> is_x y | _ \<Rightarrow> False)"

definition head_base :: "int \<Rightarrow> byte list \<Rightarrow> int \<times> byte list" where
  "head_base b xs =
     (let (b, xs) = (if (b = 0 \<or> b = 16) \<and> hex_prefix xs then (16, drop 2 xs) else (b, xs)) in
      (if b = 0 then (if take 1 xs = [48] then 8 else 10) else b, xs))"

definition head_spec :: "int \<Rightarrow> byte list \<Rightarrow> bool \<times> int \<times> byte list" where
  "head_spec b xs =
     (let (neg, ys) = skip_sign (dropWhile bspace xs); (b, zs) = head_base b ys in (neg, b, zs))"

lemma isspace_0 [simp]: "\<not> isspace 0"
  by (simp add: isspace_iff)

lemma skip_space_cstr:
  assumes "cstr m p = Some xs"
  shows "\<exists>c. skip_space m p = Some (c, padd p (Suc (length (takeWhile bspace xs)))) \<and>
    rd m (padd p (length (takeWhile bspace xs))) = Some c \<and>
    cstr m (padd p (length (takeWhile bspace xs))) = Some (dropWhile bspace xs)"
  using assms
proof (induction xs arbitrary: p)
  case Nil
  then show ?case by (subst skip_space.simps) (auto simp: cstr_simps)
next
  case (Cons x xs)
  then have x: "rd m p = Some x" "cstr m (padd p 1) = Some xs" by (auto simp: cstr_simps)
  show ?case
  proof (cases "bspace x")
    case True
    then show ?thesis using Cons.IH [OF x(2)] x by (subst skip_space.simps) (auto simp: bspace_def [of x])
  next
    case False
    then show ?thesis using Cons.prems x by (subst skip_space.simps) (auto simp: bspace_def [of x])
  qed
qed

lemma word_eq_num:
  "((ucast (x :: byte) :: 32 word) = 48) = (x = 48)" "((scast (x :: byte) :: 32 word) = 48) = (x = 48)"
proof -
  have "uint (ucast x :: 32 word) = uint (48 :: 32 word) \<longleftrightarrow> uint x = uint (48 :: byte)" by (simp add: uint_ucast_byte)
  then show "((ucast x :: 32 word) = 48) = (x = 48)" by (metis word_uint_eq_iff)
  have "sint (scast x :: 32 word) = sint (48 :: 32 word) \<longleftrightarrow> sint x = sint (48 :: byte)" by (simp add: sint_scast_byte)
  then show "((scast x :: 32 word) = 48) = (x = 48)" using signed_word_eqI [where 'a = int] by metis
qed

lemma cur_zero_digit: "cur m c s str \<Longrightarrow> c = 48 \<longleftrightarrow> take 1 str = [48]"
  by (cases str) (auto simp: cur_def word_eq_num)

text \<open>\<open>number_head\<close> stops with the rest of the string current.\<close>

lemma number_head_cstr:
  assumes "cstr m p = Some xs" "head_spec b xs = (neg, b', rest)"
  shows "\<exists>c. number_head m p b = Some (neg, c, padd p (Suc (length xs - length rest)), b') \<and>
    cur m c (padd p (Suc (length xs - length rest))) rest \<and> length rest \<le> length xs"
proof -
  define k ys where "k = length (takeWhile bspace xs)" and "ys = dropWhile bspace xs"
  have len: "length xs = k + length ys"
    unfolding k_def ys_def by (metis length_append takeWhile_dropWhile_id)
  obtain c0 where c0: "skip_space m p = Some (c0, padd p (Suc k))" "rd m (padd p k) = Some c0"
    "cstr m (padd p k) = Some ys"
    using skip_space_cstr [OF assms(1)] by (auto simp: k_def ys_def)
  define n where "n = length ys - length (snd (skip_sign ys))"
  obtain zs where sg: "skip_sign ys = (c0 = 45, zs)" "zs = drop n ys" "n \<le> length ys" "n = (if c0 = 45 \<or> c0 = 43 then 1 else 0)"
    using c0 by (cases ys) (auto simp: skip_sign_def cstr_simps n_def)
  have czs: "cstr m (padd p (k + n)) = Some zs" using cstr_drop [OF c0(3) sg(3)] sg by (simp add: add.commute)
  obtain c where c: "rd m (padd p (k + n)) = Some c" using czs by (cases zs) (auto simp: cstr_simps)
  define c1 :: "32 word" where "c1 = (if c0 = 45 \<or> c0 = 43 then scast c else ucast c0)"
  have step: "number_head m p b =
     do { hex \<leftarrow> (if (b = 0 \<or> b = 16) \<and> c1 = 48 then map_option is_x (rd m (padd p (Suc (k + n)))) else Some False);
          (c, s, b) \<leftarrow> (if hex then map_option (\<lambda>c. (scast c, padd (padd p (Suc (k + n))) 2, 16)) (rd m (padd (padd p (Suc (k + n))) 1))
                       else Some (c1, padd p (Suc (k + n)), b));
          let b = (if b = 0 then (if c = 48 then 8 else 10) else b);
          Some (c0 = 45, c, s, b) }"
    using c sg(4) by (cases "c0 = 45 \<or> c0 = 43") (simp_all add: number_head_def c0(1) c1_def Let_def cong: if_cong)
  have cur: "cur m c1 (padd p (Suc (k + n))) zs"
    using czs c c0 sg(4) by (cases zs) (auto simp: c1_def cur_def cstr_simps split: if_splits)
  have h: "(neg, b', rest) = (c0 = 45, head_base b zs)"
    using assms(2) sg by (auto simp: head_spec_def ys_def [symmetric] Let_def split: prod.splits)
  show ?thesis
  proof (cases "(b = 0 \<or> b = 16) \<and> hex_prefix zs")
    case True
    then obtain y zs' where z: "zs = 48 # y # zs'" "is_x y"
      by (auto simp: hex_prefix_def split: list.splits)
    then have r: "rd m (padd p (Suc (k + n))) = Some y" "cstr m (padd p (Suc (Suc (k + n)))) = Some zs'"
      using czs by (auto simp: cstr_simps)
    then obtain c2 where c2: "rd m (padd p (Suc (Suc (k + n)))) = Some c2" "cur m (scast c2) (padd p (Suc (Suc (Suc (k + n))))) zs'"
      using cur_next [OF r(2)] by auto
    have "c1 = 48" using cur_zero_digit [OF cur] z by simp
    have "b' = 16" "rest = zs'" "neg = (c0 = 45)" using h True z by (auto simp: head_base_def)
    have "length zs = Suc (Suc (length zs'))" using z by simp
    moreover have "length zs = length ys - n" using sg(2) by simp
    ultimately have "length xs - length zs' = Suc (Suc (k + n))" "length zs' \<le> length xs" using len sg(3) by linarith+
    moreover have "number_head m p b = Some (c0 = 45, scast c2, padd p (Suc (Suc (Suc (k + n)))), 16)"
      unfolding step using True z(2) r(1) c2(1) \<open>c1 = 48\<close> by auto
    ultimately show ?thesis using c2(2) \<open>b' = 16\<close> \<open>rest = zs'\<close> \<open>neg = (c0 = 45)\<close> by auto
  next
    case False
    have hex: "((b = 0 \<or> b = 16) \<and> c1 = 48 \<longrightarrow> (\<exists>y. rd m (padd p (Suc (k + n))) = Some y \<and> \<not> is_x y))"
    proof
      assume a: "(b = 0 \<or> b = 16) \<and> c1 = 48"
      then obtain zs' where zs': "zs = 48 # zs'" using cur_zero_digit [OF cur] by (cases zs) auto
      then have "cstr m (padd p (Suc (k + n))) = Some zs'" using czs by (simp add: cstr_simps)
      then show "\<exists>y. rd m (padd p (Suc (k + n))) = Some y \<and> \<not> is_x y"
        using False a zs' by (cases zs') (auto simp: cstr_simps hex_prefix_def is_x_def)
    qed
    have "rest = zs" "neg = (c0 = 45)" "b' = (if b = 0 then if c1 = 48 then 8 else 10 else b)"
      using h False cur_zero_digit [OF cur] by (auto simp: head_base_def split: if_splits)
    moreover have "length zs = length ys - n" using sg(2) by auto
    then have "length xs - length zs = k + n" "length zs \<le> length xs" using len sg(3) by linarith+
    moreover have "number_head m p b = Some (c0 = 45, c1, padd p (Suc (k + n)), if b = 0 then if c1 = 48 then 8 else 10 else b)"
      unfolding step using hex by (cases "(b = 0 \<or> b = 16) \<and> c1 = 48") auto
    ultimately show ?thesis using cur by auto
  qed
qed
definition clamp :: "int \<Rightarrow> int \<Rightarrow> int \<Rightarrow> int" where
  "clamp lo hi v = max lo (min hi v)"

lemma head_spec_base:
  "head_spec b xs = (neg, b', rest) \<Longrightarrow> b = 0 \<or> 2 \<le> b \<and> b \<le> 36 \<Longrightarrow> 2 \<le> b' \<and> b' \<le> 36"
  by (auto simp: head_spec_def head_base_def Let_def split: prod.splits if_splits)

lemma str_to_long_eq:
  assumes "cstr m p = Some xs" "b = 0 \<or> 2 \<le> b \<and> b \<le> 36"
    "head_spec b xs = (neg, b', rest)" "num_prefix b' rest = ds"
  defines "v \<equiv> (if neg then - ival b' 0 ds else ival b' 0 ds)"
  shows "str_to_long m p b =
    Some (clamp LONG_MIN LONG_MAX v,
          if ds = [] then p else padd p (length xs - length rest + length ds),
          v < LONG_MIN \<or> LONG_MAX < v)"
proof -
  obtain c s where h: "number_head m p b = Some (neg, c, s, b')" "s = padd p (Suc (length xs - length rest))"
    "cur m c s rest"
    using number_head_cstr [OF assms(1,3)] by auto
  have b': "2 \<le> b'" using head_spec_base [OF assms(3,2)] by simp
  have nn: "0 \<le> ival b' 0 ds"
    using ival_mono [of b' 0 ds] b' num_prefix_range [of _ b' rest] assms(4) by auto
  have p: "p \<noteq> Null" using assms(1) by auto
  have e: "pdec (padd s (length ds)) = padd p (length xs - length rest + length ds)"
    using p by (simp add: h(2) pdec_padd_Suc)
  show ?thesis
  proof (cases neg)
    case False
    have "strtol_loop m False b' (LONG_MAX div b') (LONG_MAX mod b') c s 0 0 =
      Some (if ival b' 0 ds \<le> LONG_MAX then (ival b' 0 ds, if ds = [] then 0 else 1, padd s (length ds))
            else (LONG_MAX, -1, padd s (length ds)))"
      using strtol_loop_pos [OF b' _ _ _ h(3) assms(4), of 0 0] by (simp add: LONG_MAX_def)
    moreover have "LONG_MAX sdiv b' = LONG_MAX div b'" "LONG_MAX smod b' = LONG_MAX mod b'"
      using b' by (simp_all add: LONG_MAX_def signed_divide_int_def signed_modulo_int_def)
    moreover have "ds = [] \<Longrightarrow> ival b' 0 ds \<le> LONG_MAX" by (simp add: LONG_MAX_def)
    ultimately show ?thesis
      using False h(1) e nn by (auto simp: str_to_long_def v_def clamp_def Let_def LONG_MIN_def LONG_MAX_def)
  next
    case True
    have "strtol_loop m True b' (- (2 ^ 63 div b')) (2 ^ 63 mod b') c s 0 0 =
      Some (if ival b' 0 ds \<le> 2 ^ 63 then (- ival b' 0 ds, if ds = [] then 0 else 1, padd s (length ds))
            else (LONG_MIN, -1, padd s (length ds)))"
      using strtol_loop_neg [OF b' _ _ _ h(3) assms(4), of 0 0] by simp
    moreover have "LONG_MIN sdiv b' = - (2 ^ 63 div b')" "LONG_MIN smod b' = - (2 ^ 63 mod b')"
      using b' by (simp_all add: LONG_MIN_def signed_divide_int_def signed_modulo_int_def
          minus_div_mult_eq_mod [symmetric] del: minus_div_mult_eq_mod)
    moreover have nm: "((9223372036854775808 :: int) mod b' < 0) = False" using b' by (simp add: not_less)
    moreover have "ds = [] \<Longrightarrow> ival b' 0 ds \<le> 2 ^ 63" by simp
    ultimately show ?thesis
      using True h(1) e nn b' by (auto simp: nm str_to_long_def v_def clamp_def Let_def LONG_MIN_def LONG_MAX_def)
  qed
qed

lemma str_to_unsigned_long_eq:
  assumes "cstr m p = Some xs" "b = 0 \<or> 2 \<le> b \<and> b \<le> 36"
    "head_spec b xs = (neg, b', rest)" "num_prefix b' rest = ds"
  defines "v \<equiv> ival b' 0 ds"
  shows "str_to_unsigned_long m p b =
    Some (if v > ULONG_MAX then ULONG_MAX else if neg then (- v) mod 2 ^ 64 else v,
          if ds = [] then p else padd p (length xs - length rest + length ds), ULONG_MAX < v)"
proof -
  obtain c s where h: "number_head m p b = Some (neg, c, s, b')" "s = padd p (Suc (length xs - length rest))"
    "cur m c s rest"
    using number_head_cstr [OF assms(1,3)] by auto
  have b': "2 \<le> b'" "b' \<le> 36" using head_spec_base [OF assms(3,2)] by simp_all
  have p: "p \<noteq> Null" using assms(1) by auto
  have e: "pdec (padd s (length ds)) = padd p (length xs - length rest + length ds)"
    using p by (simp add: h(2) pdec_padd_Suc)
  obtain a where "strtoul_loop m b' (ULONG_MAX div b') (ULONG_MAX mod b') c s 0 0 =
      Some (if ival b' 0 ds \<le> ULONG_MAX then (ival b' 0 ds, if ds = [] then 0 else 1, padd s (length ds))
            else (a, -1, padd s (length ds)))"
    using strtoul_loop_eq [OF b'(1) _ _ _ h(3) assms(4), of 0 0] by (auto simp: ULONG_MAX_def)
  moreover have "b' mod 2 ^ 64 = b'" using b' by simp
  moreover have "ds = [] \<Longrightarrow> ival b' 0 ds \<le> ULONG_MAX" by (simp add: ULONG_MAX_def)
  ultimately show ?thesis
    using h(1) e by (auto simp: str_to_unsigned_long_def v_def Let_def)
qed

subsection \<open>Round trips\<close>

lemma num_prefix_digit_string:
  assumes "\<forall>d \<in> set ds. d < b" "b \<le> 36"
  shows "num_prefix (int b) (digit_string ds) = map int ds"
  using assms(1)
proof (induction ds)
  case (Cons d ds)
  then show ?case using assms(2) by (simp add: digit_string_def bdigit_digit_chars)
qed (simp add: digit_string_def)

lemma ival_of_digits: "ival (int b) (int a) (map int ds) = int (foldl (\<lambda>a d. a * b + d) a ds)"
proof (induction ds arbitrary: a)
  case (Cons d ds)
  show ?case using Cons.IH [of "a * b + d"] by simp
qed simp

lemma numstr_digits:
  assumes "2 \<le> b" "b \<le> 36"
  obtains ds where "numstr b u = digit_string ds" "ds \<noteq> []" "\<forall>d \<in> set ds. d < b" "of_digits b ds = u"
proof (cases "u = 0")
  case True
  show ?thesis by (rule that [of "[0]"]) (use assms True in \<open>auto simp: numstr_def of_digits_def\<close>)
next
  case False
  show ?thesis
    by (rule that [of "to_digits b u"])
       (use assms False in \<open>auto simp: numstr_def of_to_digits to_digits_nonempty intro: to_digits_less\<close>)
qed

lemma to_digits_hd: "0 < u \<Longrightarrow> 2 \<le> b \<Longrightarrow> hd (to_digits b u) \<noteq> 0"
proof (induction b u rule: to_digits.induct)
  case (1 b u)
  show ?case
  proof (cases "u div b = 0")
    case True
    then have "to_digits b (u div b) = []" by (subst to_digits.simps) simp
    then show ?thesis using 1 True by (subst to_digits.simps) (auto simp: div_eq_0_iff)
  next
    case False
    then have "to_digits b (u div b) \<noteq> []" using 1 by (intro to_digits_nonempty) auto
    then show ?thesis using 1 False by (subst to_digits.simps) simp
  qed
qed

lemma bdigit_plain: "bdigit x = Some d \<Longrightarrow> \<not> bspace x \<and> x \<noteq> 45 \<and> x \<noteq> 43 \<and> (x = 48 \<longrightarrow> d = 0)"
  by (auto simp: bdigit_def bspace_def isspace_iff uint_ucast_byte split: if_splits)

lemma digit_chars_plain: "d < 36 \<Longrightarrow> \<not> bspace (digit_chars ! d) \<and> digit_chars ! d \<noteq> 45 \<and> digit_chars ! d \<noteq> 43 \<and>
  (digit_chars ! d = 48 \<longrightarrow> d = 0)"
  using bdigit_plain [OF bdigit_digit_chars] by fastforce

lemma head_spec_numstr:
  assumes "2 \<le> b" "b \<le> 36"
  shows "head_spec (int b) (numstr b u) = (False, int b, numstr b u)"
    "head_spec (int b) (45 # numstr b u) = (True, int b, numstr b u)"
proof -
  obtain d ds where ds: "numstr b u = digit_string (d # ds)" "d < b" "d = 0 \<longrightarrow> ds = []"
  proof (cases "u = 0")
    case True
    show ?thesis by (rule that [of 0 "[]"]) (use True assms in \<open>auto simp: numstr_def\<close>)
  next
    case False
    then have "to_digits b u \<noteq> []" using assms by (intro to_digits_nonempty) auto
    then show ?thesis
      using that [of "hd (to_digits b u)" "tl (to_digits b u)"] to_digits_hd [of u b] False assms
        to_digits_less [of b "hd (to_digits b u)" u]
      by (simp add: numstr_def)
  qed
  then have *: "numstr b u = digit_chars ! d # digit_string ds" by (simp add: digit_string_def)
  have d: "\<not> bspace (digit_chars ! d)" "digit_chars ! d \<noteq> 45" "digit_chars ! d \<noteq> 43" "digit_chars ! d = 48 \<longrightarrow> ds = []"
    using digit_chars_plain [of d] ds assms by auto
  have "\<not> hex_prefix (numstr b u)" using * d(4) by (auto simp: hex_prefix_def digit_string_def split: list.splits)
  then have hb: "head_base (int b) (numstr b u) = (int b, numstr b u)" using assms by (simp add: head_base_def)
  show "head_spec (int b) (numstr b u) = (False, int b, numstr b u)"
    using d * hb by (simp add: head_spec_def skip_sign_def)
  have "\<not> bspace 45" by (simp add: bspace_def isspace_iff)
  then show "head_spec (int b) (45 # numstr b u) = (True, int b, numstr b u)"
    using hb by (simp add: head_spec_def skip_sign_def)
qed

lemma num_prefix_numstr:
  assumes "2 \<le> b" "b \<le> 36"
  shows "length (num_prefix (int b) (numstr b u)) = length (numstr b u)"
    "ival (int b) 0 (num_prefix (int b) (numstr b u)) = int u" "num_prefix (int b) (numstr b u) \<noteq> []"
proof -
  obtain ds where ds: "numstr b u = digit_string ds" "ds \<noteq> []" "\<forall>d \<in> set ds. d < b" "of_digits b ds = u"
    using numstr_digits [OF assms] by blast
  then have np: "num_prefix (int b) (numstr b u) = map int ds" using num_prefix_digit_string assms by simp
  show "length (num_prefix (int b) (numstr b u)) = length (numstr b u)"
    "num_prefix (int b) (numstr b u) \<noteq> []" using np ds by (auto simp: digit_string_def)
  show "ival (int b) 0 (num_prefix (int b) (numstr b u)) = int u"
    using ival_of_digits [of b 0 ds] np ds(4) by (simp add: of_digits_def)
qed

lemma str_to_unsigned_long_numstr:
  assumes "2 \<le> b" "b \<le> 36" "u < 2 ^ 64" "cstr m p = Some (numstr b u)"
  shows "str_to_unsigned_long m p (int b) = Some (int u, padd p (length (numstr b u)), False)"
proof -
  have "int u \<le> ULONG_MAX" using assms(3) by (simp add: ULONG_MAX_def)
  then show ?thesis
    using str_to_unsigned_long_eq [OF assms(4) _ head_spec_numstr(1) [OF assms(1,2)] refl]
      num_prefix_numstr [OF assms(1,2), of u] assms by simp
qed

lemma str_to_long_numstr:
  assumes "2 \<le> b" "b \<le> 36" "u < 2 ^ 63" "cstr m p = Some (numstr b u)"
  shows "str_to_long m p (int b) = Some (int u, padd p (length (numstr b u)), False)"
proof -
  have "int u \<le> LONG_MAX" using assms(3) by (simp add: LONG_MAX_def)
  then show ?thesis
    using str_to_long_eq [OF assms(4) _ head_spec_numstr(1) [OF assms(1,2)] refl]
      num_prefix_numstr [OF assms(1,2), of u] assms by (simp add: clamp_def LONG_MIN_def)
qed

lemma str_to_long_minus_numstr:
  assumes "2 \<le> b" "b \<le> 36" "u \<le> 2 ^ 63" "cstr m p = Some (45 # numstr b u)"
  shows "str_to_long m p (int b) = Some (- int u, padd p (Suc (length (numstr b u))), False)"
proof -
  have "LONG_MIN \<le> - int u" "- int u \<le> LONG_MAX" using assms(3) by (simp_all add: LONG_MAX_def LONG_MIN_def)
  then show ?thesis
    using str_to_long_eq [OF assms(4) _ head_spec_numstr(2) [OF assms(1,2)] refl]
      num_prefix_numstr [OF assms(1,2), of u] assms by (simp add: clamp_def)
qed

text \<open>\<open>atoi\<close>: the decimal digits after an optional sign, undefined on overflow.\<close>

lemma schar_digit: "(48 \<le> schar c \<and> schar c \<le> 57) = (\<exists>d. bdigit c = Some d \<and> d < 10)"
  "bdigit c = Some d \<Longrightarrow> d < 10 \<Longrightarrow> schar c - 48 = d"
  using uint8_less [of c] by (auto simp: bdigit_def sint_cases split: if_splits)

lemma atoi_loop_eq:
  assumes "cstr m s = Some xs" "0 \<le> val" "val < 2 ^ (w - 1)"
  shows "atoi_loop w m s val =
    (let v = ival 10 val (num_prefix 10 xs) in if v < 2 ^ (w - 1) then Some v else None)"
  using assms
proof (induction xs arbitrary: s val)
  case Nil
  then have "rd m s = Some 0" by (simp add: cstr_simps)
  then show ?case using Nil.prems by (subst atoi_loop.simps) (simp add: Let_def)
next
  case (Cons x xs)
  then have x: "rd m s = Some x" "cstr m (padd s 1) = Some xs" by (auto simp: cstr_simps)
  show ?case
  proof (cases "\<exists>d. bdigit x = Some d \<and> d < 10")
    case True
    then obtain d where d: "bdigit x = Some d" "d < 10" by blast
    then have np: "num_prefix 10 (x # xs) = d # num_prefix 10 xs" by simp
    have d0: "0 \<le> d" using num_prefix_range [of d 10 "x # xs"] unfolding np by simp
    have dg: "48 \<le> schar x \<and> schar x \<le> 57" "schar x - 48 = d"
      using True d by (simp_all only: schar_digit)
    show ?thesis
    proof (cases "10 * val + d < 2 ^ (w - 1)")
      case True
      then have "in_int w (10 * val) = Some (10 * val)" "in_int w (10 * val + d) = Some (10 * val + d)"
        using Cons.prems d0 by (auto simp: in_int_def intro: order_trans [of _ "0 :: int"])
      then show ?thesis
        using Cons.IH [OF x(2), of "10 * val + d"] x dg np True Cons.prems d0
        by (subst atoi_loop.simps) (simp add: mult.commute)
    next
      case False
      have "val * 10 + d \<le> ival 10 (val * 10 + d) (num_prefix 10 xs)"
        using Cons.prems d0 num_prefix_range [of _ 10 xs] by (intro ival_mono) auto
      then have "\<not> ival 10 (val * 10 + d) (num_prefix 10 xs) < 2 ^ (w - 1)" using False by simp
      moreover have "in_int w (10 * val + d) = None" using False by (simp add: in_int_def)
      moreover have "in_int w (10 * val) = None \<or> in_int w (10 * val) = Some (10 * val)" by (simp add: in_int_def)
      ultimately show ?thesis using x dg np by (subst atoi_loop.simps) (auto simp: Let_def)
    qed
  next
    case False
    then have "num_prefix 10 (x # xs) = []" by (auto split: option.splits)
    then show ?thesis
      using x Cons.prems False schar_digit(1) [of x] by (subst atoi_loop.simps) auto
  qed
qed

lemma atoi_width_eq:
  assumes "cstr m s = Some xs" "skip_sign xs = (neg, ys)"
  shows "atoi_width w m s =
    (let v = ival 10 0 (num_prefix 10 ys) in
     if v < 2 ^ (w - 1) then Some (if neg then - v else v) else None)"
proof -
  have c: "\<exists>c. rd m s = Some c \<and> neg = (c = 45) \<and> cstr m (if c = 45 \<or> c = 43 then padd s 1 else s) = Some ys"
    using assms by (cases xs) (auto simp: cstr_simps skip_sign_def split: if_splits)
  have nn: "0 \<le> ival 10 0 (num_prefix 10 ys)"
    using ival_mono [of 10 0 "num_prefix 10 ys"] num_prefix_range [of _ 10 ys] by auto
  then have "v = ival 10 0 (num_prefix 10 ys) \<Longrightarrow> v < 2 ^ (w - 1) \<Longrightarrow>
      in_int w (if neg then - v else v) = Some (if neg then - v else v)" for v
    by (auto simp: in_int_def intro: order_trans [of _ "0 :: int"])
  then show ?thesis
    using c atoi_loop_eq [of m _ ys 0 w] by (fastforce simp: atoi_width_def Let_def split: option.splits if_splits)
qed

lemma skip_sign_numstr:
  assumes "2 \<le> b" "b \<le> 36"
  shows "skip_sign (numstr b u) = (False, numstr b u)" "skip_sign (45 # numstr b u) = (True, numstr b u)"
proof -
  obtain ds where ds: "numstr b u = digit_string ds" "ds \<noteq> []" "\<forall>d \<in> set ds. d < b" "of_digits b ds = u"
    using numstr_digits [OF assms] by blast
  then show "skip_sign (numstr b u) = (False, numstr b u)"
    using digit_chars_plain assms(2) by (cases ds) (auto simp: digit_string_def skip_sign_def)
qed (simp add: skip_sign_def)

text \<open>Signed numbers written: a minus sign and the digits of the magnitude.\<close>

definition sigstr :: "int \<Rightarrow> byte list" where
  "sigstr v = (if v < 0 then 45 # numstr 10 (nat (- v)) else numstr 10 (nat v))"

lemma numstr_no_nul:
  assumes "2 \<le> b" "b \<le> 36"
  shows "0 \<notin> set (numstr b u)"
proof -
  obtain ds where "numstr b u = digit_string ds" "\<forall>d \<in> set ds. d < b"
    using numstr_digits [OF assms] by metis
  moreover have "d < b \<Longrightarrow> digit_chars ! d \<noteq> 0" for d using digit_chars_nz [of d] assms by simp
  ultimately show ?thesis by (auto simp: digit_string_def)
qed

lemma unat_of_nonneg: "0 \<le> v \<Longrightarrow> v < 2 ^ 64 \<Longrightarrow> unat (word_of_int v :: 64 word) = nat v"
proof -
  assume "0 \<le> v" "v < 2 ^ 64"
  then have "uint (word_of_int v :: 64 word) = v" by (simp add: unsigned_of_int take_bit_int_eq_self)
  then show ?thesis by (metis unat_eq_nat_uint)
qed

lemma unsigned64_signed:
  assumes "dec_base dec = 10" "\<bar>v\<bar> < 2 ^ 63"
  shows "get_decimal_string (unsigned64_to_string dec (word_of_int (if v < 0 then - v else v)) (v < 0)) = sigstr v"
proof -
  define u where "u = (word_of_int (if v < 0 then - v else v) :: 64 word)"
  have u: "unat u = nat \<bar>v\<bar>" using unat_of_nonneg [of "\<bar>v\<bar>"] assms(2) by (simp add: u_def abs_if)
  have len: "length (numstr 10 (nat \<bar>v\<bar>)) \<le> 19"
    using assms(2) by (intro numstr_length) (auto simp: nat_less_iff)
  show ?thesis
  proof (cases "v < 0")
    case True
    then have "u \<noteq> 0" using u by auto
    then have "dec_holds (unsigned64_to_string dec u True) (45 # numstr 10 (unat u))"
      using unsigned64_to_string_minus [of dec u] assms len u by simp
    then show ?thesis using True u get_decimal_string_holds unfolding u_def [symmetric] by (simp add: sigstr_def)
  next
    case False
    have "dec_holds (unsigned64_to_string dec u False) (take_last 63 (numstr 10 (unat u)))"
      using unsigned64_to_string_holds [of dec u] assms by simp
    then show ?thesis using False u len get_decimal_string_holds
      unfolding u_def [symmetric] by (simp add: sigstr_def take_last_all)
  qed
qed

lemma int64_to_string_eq:
  assumes "dec_base dec = 10" "sint i \<noteq> - (2 ^ 63)"
  shows "map_option get_decimal_string (int64_to_string dec i) = Some (sigstr (sint i))"
proof -
  have "\<bar>sint i\<bar> < 2 ^ 63" using sint_range_size [of i] assms(2) by (auto simp: word_size)
  from unsigned64_signed [OF assms(1) this] assms(2) show ?thesis by (simp add: int64_to_string_def Let_def)
qed

lemma int_to_string_eq:
  assumes "dec_base dec = 10" "sint i \<noteq> - (2 ^ 31)"
  shows "map_option get_decimal_string (int_to_string dec i) = Some (sigstr (sint i))"
proof -
  have "\<bar>sint i\<bar> < 2 ^ 63" using sint_range_size [of i] by (auto simp: word_size)
  from unsigned64_signed [OF assms(1) this] assms(2) show ?thesis by (simp add: int_to_string_def Let_def)
qed

lemma atoi_sigstr:
  assumes "cstr m p = Some (sigstr v)" "\<bar>v\<bar> < 2 ^ (w - 1)"
  shows "atoi_width w m p = Some v"
proof -
  have "skip_sign (sigstr v) = (v < 0, numstr 10 (nat \<bar>v\<bar>))"
    using skip_sign_numstr [of 10] by (cases "v < 0") (simp_all add: sigstr_def)
  then show ?thesis
    using atoi_width_eq [OF assms(1), of "v < 0" "numstr 10 (nat \<bar>v\<bar>)" w] assms(2)
      num_prefix_numstr [of 10] by (cases "v < 0") (simp_all add: Let_def)
qed
subsection \<open>Properties\<close>

text \<open>Property C16. A number written in any base from 2 to 36, in base 2 one below \<open>2 ^ 63\<close>, is read back by
  \<open>strtoul\<close> in the same base: the value is the number, the end pointer the end of the string, and no error is
  raised. (A number with its top bit set has 64 binary digits, and the first is lost: \<open>binary_string_truncated\<close>.)\<close>

theorem unsigned_round_trip:
  assumes "2 \<le> dec_base dec" "dec_base dec \<le> 36" "dec_base dec \<noteq> 2 \<or> unat u < 2 ^ 63"
    "cstr m p = Some (get_decimal_string (uint64_to_string dec u))"
  shows "str_to_unsigned_long m p (dec_base dec) =
    Some (uint u, padd p (length (get_decimal_string (uint64_to_string dec u))), False)"
proof -
  have "2 \<le> nat (dec_base dec)" "nat (dec_base dec) \<le> 36" "int (nat (dec_base dec)) = dec_base dec"
    using assms(1,2) by auto
  then show ?thesis
    using str_to_unsigned_long_numstr [of "nat (dec_base dec)" "unat u" m p] assms(4) unat_u64_less [of u]
    unfolding uint64_to_string_eq [OF assms(1-3)] by simp
qed

definition wit_dec :: decimal where
  "wit_dec = \<lparr>dec_digits = replicate 64 0, dec_size = 0, dec_base = 16\<rparr>"

lemma unsigned_round_trip_witness:
  "str_to_unsigned_long (\<lambda>b. Some (numstr 16 48879 @ [0])) (Ptr 0 0) 16 = Some (48879, Ptr 0 4, False)"
proof -
  have "to_digits 16 48879 = [11, 14, 14, 15]" by (simp add: to_digits.simps)
  then have n: "numstr 16 48879 = [98, 101, 101, 102]"
    by (simp add: numstr_def digit_string_def digit_chars_def ascii_def)
  have g: "get_decimal_string (uint64_to_string wit_dec 48879) = numstr 16 48879"
    using uint64_to_string_eq [of wit_dec 48879] by (simp add: wit_dec_def)
  have "cstr (\<lambda>b. Some (numstr 16 48879 @ [0])) (Ptr 0 0) = Some (numstr 16 48879)"
    using cstr_block [of _ 0 "[]" "numstr 16 48879" "[]"] numstr_no_nul [of 16 48879] by simp
  moreover have "dec_base wit_dec = 16" by (simp add: wit_dec_def)
  ultimately show ?thesis
    using unsigned_round_trip [of wit_dec 48879 "\<lambda>b. Some (numstr 16 48879 @ [0])" "Ptr 0 0"]
    by (simp add: g n)
qed

text \<open>Property C15. \<open>strtol\<close> reads an optional sign and a maximal run of digits after leading
  white space and a base prefix, saturates the value at the bounds of \<open>long\<close>, reports the
  saturation as \<open>ERANGE\<close>, and leaves the end pointer after the last digit, or at the start
  when there was no digit.\<close>

theorem str_to_long_spec:
  assumes "cstr m p = Some xs" "b = 0 \<or> 2 \<le> b \<and> b \<le> 36"
    "head_spec b xs = (neg, b', rest)" "num_prefix b' rest = ds"
    "v = (if neg then - ival b' 0 ds else ival b' 0 ds)"
  shows "str_to_long m p b =
    Some (max LONG_MIN (min LONG_MAX v),
          if ds = [] then p else padd p (length xs - length rest + length ds),
          v < LONG_MIN \<or> LONG_MAX < v)"
  using str_to_long_eq [OF assms(1-4)] assms(5) by (simp add: clamp_def)

lemma str_to_long_spec_witness:
  "str_to_long (\<lambda>b. Some (ascii '' -0x1fz'' @ [0])) (Ptr 0 0) 0 = Some (- 31, Ptr 0 6, False)"
proof -
  have a: "ascii '' -0x1fz'' = [32, 45, 48, 120, 49, 102, 122]" by (simp add: ascii_def)
  have "cstr (\<lambda>b. Some ([32, 45, 48, 120, 49, 102, 122] @ [0])) (Ptr 0 0) = Some [32, 45, 48, 120, 49, 102, 122]"
    using cstr_block [of _ 0 "[]" "[32, 45, 48, 120, 49, 102, 122]" "[]"] by simp
  moreover have "head_spec 0 [32, 45, 48, 120, 49, 102, 122] = (True, 16, [49, 102, 122])"
    by (simp add: head_spec_def bspace_def isspace_iff skip_sign_def head_base_def hex_prefix_def is_x_def)
  moreover have "num_prefix 16 [49, 102, 122] = [1, 15]" by (simp add: bdigit_def)
  ultimately show ?thesis
    unfolding a
    using str_to_long_spec [of "\<lambda>b. Some ([32, 45, 48, 120, 49, 102, 122] @ [0])" "Ptr 0 0" "[32, 45, 48, 120, 49, 102, 122]"
        0 True 16 "[49, 102, 122]" "[1, 15]" "-31"]
    by (simp add: LONG_MIN_def LONG_MAX_def)
qed

text \<open>
  What \<open>int_to_string\<close> writes in base ten, \<open>str_to_int\<close> reads back,
  for every \<open>int\<close> but the least, on which the negation in the writer overflows.\<close>

theorem int_round_trip:
  assumes "dec_base dec = 10" "int_to_string dec i = Some dec'" "cstr m p = Some (get_decimal_string dec')"
  shows "str_to_int m p = Some (sint i)"
proof -
  have i: "sint i \<noteq> - (2 ^ 31)" using assms(2) by (auto simp: int_to_string_def Let_def split: if_splits)
  then have "get_decimal_string dec' = sigstr (sint i)" using int_to_string_eq [OF assms(1) i] assms(2) by simp
  moreover have "\<bar>sint i\<bar> < 2 ^ (32 - 1)" using sint_range_size [of i] i by (auto simp: word_size)
  ultimately show ?thesis using atoi_sigstr [of m p "sint i" 32] assms(3) by (simp add: str_to_int_def)
qed

lemma int_round_trip_witness:
  "\<exists>m. cstr m (Ptr 0 0) = Some [45, 55] \<and> str_to_int m (Ptr 0 0) = Some (- 7)"
proof -
  let ?d = "wit_dec\<lparr>dec_base := 10\<rparr>" and ?m = "\<lambda>b. Some ([45, 55, 0] :: byte list)"
  have "sigstr (- 7) = [45, 55]"
    by (simp add: sigstr_def numstr_def to_digits.simps digit_string_def digit_chars_def ascii_def)
  moreover obtain d' where "int_to_string ?d (- 7) = Some d'" "get_decimal_string d' = sigstr (- 7)"
    using int_to_string_eq [of ?d "- 7"] by (auto simp: wit_dec_def)
  moreover have "cstr ?m (Ptr 0 0) = Some [45, 55]" using cstr_block [of ?m 0 "[]" "[45, 55]" "[]"] by simp
  ultimately show ?thesis using int_round_trip [of ?d "- 7" d' ?m "Ptr 0 0"] by (auto simp: wit_dec_def)
qed

text \<open>
  \<open>atoi\<close> answers exactly when the magnitude of the digits after the sign
  fits the type; otherwise the accumulation overflows. So the least \<open>int\<close> is not read.\<close>

theorem str_to_int_defined:
  assumes "cstr m p = Some xs" "skip_sign xs = (neg, ys)"
  shows "str_to_int m p = (let v = ival 10 0 (num_prefix 10 ys) in
    if v < 2 ^ 31 then Some (if neg then - v else v) else None)"
  using atoi_width_eq [OF assms, of 32] by (simp add: str_to_int_def)

lemma str_to_int_defined_witness:
  "\<exists>m. cstr m (Ptr 0 0) = Some (ascii ''-2147483648'') \<and> str_to_int m (Ptr 0 0) = None"
proof -
  let ?s = "[45, 50, 49, 52, 55, 52, 56, 51, 54, 52, 56] :: byte list" and ?m = "\<lambda>b. Some (ascii ''-2147483648'' @ [0])"
  have a: "ascii ''-2147483648'' = ?s" by (simp add: ascii_def)
  have "cstr ?m (Ptr 0 0) = Some ?s" using cstr_block [of ?m 0 "[]" ?s "[]"] by (simp add: a)
  moreover have "skip_sign ?s = (True, tl ?s)" by (simp add: skip_sign_def)
  moreover have "num_prefix 10 (tl ?s) = [2, 1, 4, 7, 4, 8, 3, 6, 4, 8]" by (simp add: bdigit_def)
  ultimately show ?thesis using str_to_int_defined [of ?m "Ptr 0 0" ?s True "tl ?s"] a by auto
qed

text \<open>
  The 63 digit buffer loses the leading digit of a 64 bit number written in
  binary.\<close>

theorem binary_string_truncated:
  assumes "2 ^ 63 \<le> unat u"
  shows "\<exists>ds. length ds = 63 \<and> of_digits 2 ds = unat u - 2 ^ 63 \<and>
    get_decimal_string (uint64_to_binary_string dec u) = digit_string ds"
  using uint64_to_binary_drops_top [OF assms] .

lemma binary_string_truncated_witness:
  "\<exists>ds. length ds = 63 \<and> of_digits 2 ds = 1 \<and>
    get_decimal_string (uint64_to_binary_string wit_dec 9223372036854775809) = digit_string ds"
  using binary_string_truncated [of 9223372036854775809 wit_dec] by simp

end
