(* ===== verification/Utf8.thy ===== *)
theory Utf8
  imports Unicode Strbuf Numbers
begin

section \<open>UTF-8\<close>

text \<open>
  \<open>y/pkg/libc/libc/utf8\<close>: encoding and decoding of code points, lengths and widths of
  strings, case conversion, and the validation of byte sequences. \<open>utf8\<close> is a signed
  \<open>int\<close>; a shift or sum that leaves its range is undefined and answers \<open>None\<close>.
\<close>

subsection \<open>Decoding\<close>

definition offsetsFromUTF8 :: "int list" where
  "offsetsFromUTF8 = [0x00000000, 0x00003080, 0x000E2080, 0x03C82080, 0xFA082080 - 2 ^ 32, 0x82082080 - 2 ^ 32]"

definition IS_UTF8 :: "byte \<Rightarrow> bool" where
  "IS_UTF8 c \<longleftrightarrow> c AND 0xC0 = 0x80"

definition utf8_charlen :: "byte \<Rightarrow> int" where
  "utf8_charlen c =
     (if c < 0x80 then 1 else if c AND 0xe0 = 0xc0 then 2 else 3 + (if c AND 0xf0 \<noteq> 0xe0 then 1 else 0))"

text \<open>\<open>code <<= 6; code += (uchar) x\<close>.\<close>

definition code_step :: "int \<Rightarrow> byte \<Rightarrow> int option" where
  "code_step code x = in_int 32 (code * 64) \<bind> (\<lambda>c. in_int 32 (c + uchar x))"

function utf8_code_loop :: "mem \<Rightarrow> ptr \<Rightarrow> nat \<Rightarrow> int \<Rightarrow> (int \<times> nat) option" where
  "utf8_code_loop m buf n code =
     (case rd m (padd buf n) of None \<Rightarrow> None
      | Some x \<Rightarrow> (case code_step code x of None \<Rightarrow> None
          | Some code' \<Rightarrow> (case rd m (padd buf (n + 1)) of None \<Rightarrow> None
              | Some y \<Rightarrow> if y \<noteq> 0 \<and> IS_UTF8 y then utf8_code_loop m buf (n + 1) code' else Some (code', n + 1))))"
  by pat_completeness auto
termination
proof (relation "measure (\<lambda>(m, buf, n, code). room m (padd buf n))", goal_cases)
  case (2 m buf n code x code' y)
  then have "0 < room m (padd buf n)" using rd_room [of m "padd buf n"] by simp
  then show ?case by simp
qed simp

declare utf8_code_loop.simps [simp del]

text \<open>The second result is what \<open>*len\<close> holds on return; a null buffer leaves it as it was.\<close>

definition utf8_code_and_len :: "mem \<Rightarrow> ptr \<Rightarrow> int \<Rightarrow> (int \<times> int) option" where
  "utf8_code_and_len m buf len0 =
     (if buf = Null then Some (-1, len0)
      else do { (code, len) \<leftarrow> utf8_code_loop m buf 0 0;
                off \<leftarrow> (if len \<le> 6 then Some (offsetsFromUTF8 ! (len - 1)) else None);
                code \<leftarrow> in_int 32 (code - off);
                Some (code, int len) })"

definition utf8_code :: "mem \<Rightarrow> ptr \<Rightarrow> int option" where
  "utf8_code m src = map_option fst (utf8_code_and_len m src 0)"

definition utf8_get_code_at :: "mem \<Rightarrow> ptr \<Rightarrow> nat \<Rightarrow> int \<Rightarrow> int \<Rightarrow> (int \<times> int) option" where
  "utf8_get_code_at m src src_len idx len0 =
     (if idx \<ge> to_int (u32 (int src_len)) then Some (-1, len0)
      else if idx < 0 then None
      else utf8_code_and_len m (padd src (nat idx)) len0)"

subsection \<open>Encoding\<close>

text \<open>The bytes \<open>utf8_character\<close> writes before the terminator, or \<open>None\<close> where it
  answers -1. A negative code takes the first branch.\<close>

definition utf8_bytes :: "int \<Rightarrow> byte list option" where
  "utf8_bytes c =
     (if c < 0x80 then Some [word_of_int c]
      else if c < 0x800 then
        Some [word_of_int (drop_bit 6 c OR 0xC0), word_of_int ((c AND 0x3F) OR 0x80)]
      else if c < 0x10000 then
        Some [word_of_int (drop_bit 12 c OR 0xE0), word_of_int ((drop_bit 6 c AND 0x3F) OR 0x80),
              word_of_int ((c AND 0x3F) OR 0x80)]
      else if c < 0x110000 then
        Some [word_of_int (drop_bit 18 c OR 0xF0), word_of_int ((drop_bit 12 c AND 0x3F) OR 0x80),
              word_of_int ((drop_bit 6 c AND 0x3F) OR 0x80), word_of_int ((c AND 0x3F) OR 0x80)]
      else None)"

definition utf8_character :: "mem \<Rightarrow> int \<Rightarrow> ptr \<Rightarrow> nat \<Rightarrow> (mem \<times> int) option" where
  "utf8_character m c buf bufsize =
     (if bufsize < 5 then Some (m, -1)
      else if c = 0 then map_option (\<lambda>m'. (m', 0)) (wr m buf 0)
      else (case utf8_bytes c of None \<Rightarrow> Some (m, -1)
            | Some bs \<Rightarrow> map_option (\<lambda>m'. (m', int (length bs))) (store m buf (bs @ [0]))))"

text \<open>
  \<open>string_append_utf8\<close> of \<open>string/string.c\<close>: the length -1 of an invalid code is taken
  for a byte count, $2^{64} - 1$, and the uninitialised buffer is copied: undefined.
\<close>

definition string_append_utf8 :: "mem \<Rightarrow> strbuf \<Rightarrow> int \<Rightarrow> nat \<Rightarrow> grant \<Rightarrow> (mem \<times> strbuf) option" where
  "string_append_utf8 m this code buf g =
     do { (m1, len) \<leftarrow> utf8_character (m(buf \<mapsto> replicate 8 0)) code (Ptr buf 0) 8;
          (if len < 0 then None else Some ());
          (m2, this) \<leftarrow> (if len \<noteq> 0 then string_append_with_len m1 this (Ptr buf 0) (nat len) g else Some (m1, this));
          Some (m2(buf := None), this) }"

record utf8_char =
  uc_buf :: "byte list"
  uc_len :: int
  uc_width :: int
  uc_code :: int

definition utf8_encode :: "mem \<Rightarrow> utf8_char \<Rightarrow> ptr \<Rightarrow> int \<Rightarrow> utf8_char option" where
  "utf8_encode m chr sp tabwidth =
     do { c \<leftarrow> rd m sp;
          if c = 0 then Some (chr\<lparr>uc_len := 0, uc_code := 0, uc_width := 0, uc_buf := (uc_buf chr)[0 := 0]\<rparr>)
          else do {
            let chr = chr\<lparr>uc_code := uchar c, uc_width := 1, uc_len := 1, uc_buf := (uc_buf chr)[0 := c]\<rparr>;
            if c < 0x80 then
              Some (chr\<lparr>uc_width := (if uc_code chr = 9 then uc_width chr + (tabwidth - 1) else uc_width chr),
                        uc_buf := (uc_buf chr)[1 := 0]\<rparr>)
            else do {
              x1 \<leftarrow> rd m (padd sp 1);
              let chr = chr\<lparr>uc_buf := (uc_buf chr)[1 := x1], uc_len := 2, uc_code := uc_code chr * 64 + uchar x1\<rparr>;
              if c AND 0xe0 = 0xc0 then
                (let code = uc_code chr - offsetsFromUTF8 ! 1 in
                 Some (chr\<lparr>uc_code := code, uc_width := uc_width chr + (utf8_char_width code - 1),
                           uc_buf := (uc_buf chr)[2 := 0]\<rparr>))
              else do {
                x2 \<leftarrow> rd m (padd sp 2);
                let chr = chr\<lparr>uc_buf := (uc_buf chr)[2 := x2], uc_len := 3, uc_code := uc_code chr * 64 + uchar x2\<rparr>;
                if c AND 0xf0 = 0xe0 then
                  (let code = uc_code chr - offsetsFromUTF8 ! 2 in
                   Some (chr\<lparr>uc_code := code, uc_width := uc_width chr + (utf8_char_width code - 1),
                             uc_buf := (uc_buf chr)[3 := 0]\<rparr>))
                else do {
                  x3 \<leftarrow> rd m (padd sp 3);
                  let code = uc_code chr * 64 + uchar x3 - offsetsFromUTF8 ! 3;
                  Some (chr\<lparr>uc_buf := (uc_buf chr)[3 := x3, 4 := 0], uc_len := 4, uc_code := code,
                            uc_width := uc_width chr + (utf8_char_width code - 1)\<rparr>) } } } } }"

subsection \<open>Strings of characters\<close>

text \<open>The number of bytes \<open>utf8_len\<close> and \<open>utf8_get_nth_character\<close> advance by.\<close>

definition utf8_skip :: "byte \<Rightarrow> nat" where
  "utf8_skip c =
     (if c < 0x80 then 1 else if c AND 0xe0 = 0xc0 then 2 else if c AND 0xf0 = 0xe0 then 3 else 4)"

lemma utf8_skip_pos [simp]: "0 < utf8_skip c"
  by (simp add: utf8_skip_def)

function utf8_len_loop :: "mem \<Rightarrow> ptr \<Rightarrow> nat \<Rightarrow> nat option" where
  "utf8_len_loop m sp len =
     (case rd m sp of None \<Rightarrow> None
      | Some c \<Rightarrow> if c \<noteq> 0 then utf8_len_loop m (padd sp (utf8_skip c)) (len + 1) else Some len)"
  by pat_completeness auto
termination
proof (relation "measure (\<lambda>(m, sp, len). room m sp)", goal_cases)
  case (2 m sp len c)
  then have "0 < room m sp" using rd_room [of m sp] by simp
  then show ?case by simp
qed simp

declare utf8_len_loop.simps [simp del]

definition utf8_len :: "mem \<Rightarrow> ptr \<Rightarrow> nat option" where
  "utf8_len m bytes = utf8_len_loop m bytes 0"

function utf8_nth_loop :: "mem \<Rightarrow> ptr \<Rightarrow> int \<Rightarrow> int \<Rightarrow> (ptr \<times> int) option" where
  "utf8_nth_loop m sp n len =
     (case rd m sp of None \<Rightarrow> None
      | Some c \<Rightarrow> if c \<noteq> 0 \<and> n < len then utf8_nth_loop m (padd sp (utf8_skip c)) n (len + 1)
                  else Some (sp, len))"
  by pat_completeness auto
termination
proof (relation "measure (\<lambda>(m, sp, n, len). room m sp)", goal_cases)
  case (2 m sp n len c)
  then have "0 < room m sp" using rd_room [of m sp] by simp
  then show ?case by simp
qed simp

declare utf8_nth_loop.simps [simp del]

definition utf8_get_nth_character :: "mem \<Rightarrow> ptr \<Rightarrow> ptr \<Rightarrow> nat \<Rightarrow> int \<Rightarrow> (mem \<times> int) option" where
  "utf8_get_nth_character m bytes buf bufsize n =
     (if bufsize < 5 then Some (m, -1)
      else do { (sp, len) \<leftarrow> utf8_nth_loop m bytes n 0;
                if n > len then map_option (\<lambda>m'. (m', 0)) (wr m buf 0)
                else do { code \<leftarrow> utf8_code m sp; utf8_character m code buf bufsize } })"

definition utf8_width :: "mem \<Rightarrow> ptr \<Rightarrow> int \<Rightarrow> int option" where
  "utf8_width m s tabwidth =
     (case rd m s of None \<Rightarrow> None
      | Some c \<Rightarrow> if 32 \<le> schar c \<and> schar c \<le> 126 then Some 1
                  else if c = 9 then Some tabwidth
                  else map_option utf8_char_width (utf8_code m s))"

definition DEFAULT_TABWIDTH :: int where "DEFAULT_TABWIDTH = 8"

lemma utf8_charlen_pos [simp]: "0 < nat (utf8_charlen c)"
  by (simp add: utf8_charlen_def)

function utf8_after_nth_loop :: "mem \<Rightarrow> ptr \<Rightarrow> int \<Rightarrow> int \<Rightarrow> (ptr \<times> int) option" where
  "utf8_after_nth_loop m sp nth_char numchars =
     (case rd m sp of None \<Rightarrow> None
      | Some c \<Rightarrow> if c \<noteq> 0 \<and> numchars < nth_char
          then (case utf8_width m sp DEFAULT_TABWIDTH of None \<Rightarrow> None
                | Some w \<Rightarrow> utf8_after_nth_loop m (padd sp (nat (utf8_charlen c))) nth_char (numchars + w))
          else Some (sp, numchars))"
  by pat_completeness auto
termination
proof (relation "measure (\<lambda>(m, sp, nth_char, numchars). room m sp)", goal_cases)
  case (2 m sp nth_char numchars c w)
  then have "0 < room m sp" using rd_room [of m sp] by simp
  then show ?case by (simp add: utf8_charlen_def)
qed simp

declare utf8_after_nth_loop.simps [simp del]

definition utf8_string_after_nth_char :: "mem \<Rightarrow> ptr \<Rightarrow> int \<Rightarrow> (ptr \<times> int) option" where
  "utf8_string_after_nth_char m buf nth_char = utf8_after_nth_loop m buf nth_char 0"

subsection \<open>Case of a string\<close>

definition TO_LOWER :: int where "TO_LOWER = 0"
definition TO_UPPER :: int where "TO_UPPER = 1"

text \<open>The five byte local buffer: what was not written is not read.\<close>

definition utf8_local :: "int \<Rightarrow> byte list" where
  "utf8_local c =
     (if c = 0 then [0] else case utf8_bytes c of None \<Rightarrow> [] | Some bs \<Rightarrow> bs @ [0])"

function change_case_loop ::
  "mem \<Rightarrow> ptr \<Rightarrow> ptr \<Rightarrow> nat \<Rightarrow> int \<Rightarrow> int \<Rightarrow> nat \<Rightarrow> bool \<Rightarrow> (mem \<times> nat \<times> bool) option" where
  "change_case_loop m dest src src_len to_type src_idx dest_idx changed =
     (if src_idx < to_int (u32 (int src_len))
      then (case utf8_get_code_at m src src_len src_idx 0 of None \<Rightarrow> None
            | Some (c, len) \<Rightarrow>
                if len \<le> 0 then None
                else if (if to_type = TO_LOWER then utf8_is_upper c else utf8_is_lower c)
                then (let buf = utf8_local (if to_type = TO_LOWER then utf8_to_lower c else utf8_to_upper c) in
                      if nat len \<le> length buf
                      then (case store m (padd dest dest_idx) (take (nat len) buf) of None \<Rightarrow> None
                            | Some m' \<Rightarrow> change_case_loop m' dest src src_len to_type (src_idx + len) (dest_idx + nat len) True)
                      else None)
                else (case fwd_bytes (nat len) m (padd dest dest_idx) (padd src (nat src_idx)) of None \<Rightarrow> None
                      | Some (m', _) \<Rightarrow> change_case_loop m' dest src src_len to_type (src_idx + len) (dest_idx + nat len) changed))
      else Some (m, dest_idx, changed))"
  by pat_completeness auto
termination
  by (relation "measure (\<lambda>(m, dest, src, src_len, to_type, src_idx, dest_idx, changed).
        nat (to_int (u32 (int src_len)) - src_idx))") auto

declare change_case_loop.simps [simp del]

definition utf8_change_case :: "mem \<Rightarrow> ptr \<Rightarrow> ptr \<Rightarrow> nat \<Rightarrow> int \<Rightarrow> (mem \<times> bool) option" where
  "utf8_change_case m dest src src_len to_type =
     do { (m1, dest_idx, changed) \<leftarrow> change_case_loop m dest src src_len to_type 0 0 False;
          m2 \<leftarrow> wr m1 (padd dest dest_idx) 0;
          Some (m2, changed) }"

subsection \<open>Validation\<close>

text \<open>One turn of the loop: how far it advances, or the message and the number of faulty bytes.\<close>

datatype verdict = Advance nat | Fault string nat

text \<open>The checks of the bytes after the first, in order, each with its range and message.\<close>

fun trail :: "mem \<Rightarrow> ptr \<Rightarrow> nat \<Rightarrow> (byte \<times> byte \<times> string) list \<Rightarrow> verdict option" where
  "trail m p k [] = Some (Advance k)"
| "trail m p k ((lo, hi, msg) # rs) =
     (case rd m (padd p k) of None \<Rightarrow> None
      | Some x \<Rightarrow> if x < lo \<or> x > hi then Some (Fault msg (k + 1)) else trail m p (k + 1) rs)"

definition expect :: "mem \<Rightarrow> ptr \<Rightarrow> nat \<Rightarrow> nat \<Rightarrow> (byte \<times> byte \<times> string) list \<Rightarrow> string \<Rightarrow> verdict option" where
  "expect m str i len rs msg =
     (if i + length rs < len then trail m (padd str i) 1 rs else Some (Fault msg 1))"

definition validate_step :: "mem \<Rightarrow> ptr \<Rightarrow> nat \<Rightarrow> nat \<Rightarrow> verdict option" where
  "validate_step m str i len =
     (case rd m (padd str i) of None \<Rightarrow> None
      | Some x \<Rightarrow>
        if x \<le> 0x7F then Some (Advance 1)
        else if x \<ge> 0xC2 \<and> x \<le> 0xDF then expect m str i len
          [(0x80, 0xBF, ''After a first byte between C2 and DF, expecting a 2nd byte between 80 and BF'')]
          ''After a first byte between C2 and DF, expecting a 2nd byte.''
        else if x = 0xE0 then expect m str i len
          [(0xA0, 0xBF, ''After a first byte of E0, expecting a 2nd byte between A0 and BF.''),
           (0x80, 0xBF, ''After a first byte of E0, expecting a 3nd byte between 80 and BF.'')]
          ''After a first byte of E0, expecting two following bytes.''
        else if x \<ge> 0xE1 \<and> x \<le> 0xEC then expect m str i len
          [(0x80, 0xBF, ''After a first byte between E1 and EC, expecting the 2nd byte between 80 and BF.''),
           (0x80, 0xBF, ''After a first byte between E1 and EC, expecting the 3rd byte between 80 and BF.'')]
          ''After a first byte between E1 and EC, expecting two following bytes.''
        else if x = 0xED then expect m str i len
          [(0x80, 0x9F, ''After a first byte of ED, expecting 2nd byte between 80 and 9F.''),
           (0x80, 0xBF, ''After a first byte of ED, expecting 3rd byte between 80 and BF.'')]
          ''After a first byte of ED, expecting two following bytes.''
        else if x \<ge> 0xEE \<and> x \<le> 0xEF then expect m str i len
          [(0x80, 0xBF, ''After a first byte between EE and EF, expecting 2nd byte between 80 and BF.''),
           (0x80, 0xBF, ''After a first byte between EE and EF, expecting 3rd byte between 80 and BF.'')]
          ''After a first byte between EE and EF, two following bytes.''
        else if x = 0xF0 then expect m str i len
          [(0x90, 0xBF, ''After a first byte of F0, expecting 2nd byte between 90 and BF.''),
           (0x80, 0xBF, ''After a first byte of F0, expecting 3rd byte between 80 and BF.''),
           (0x80, 0xBF, ''After a first byte of F0, expecting 4th byte between 80 and BF.'')]
          ''After a first byte of F0, expecting three following bytes.''
        else if x \<ge> 0xF1 \<and> x \<le> 0xF3 then expect m str i len
          [(0x80, 0xBF, ''After a first byte of F1, F2, or F3, expecting a 2nd byte between 80 and BF.''),
           (0x80, 0xBF, ''After a first byte of F1, F2, or F3, expecting a 3rd byte between 80 and BF.''),
           (0x80, 0xBF, ''After a first byte of F1, F2, or F3, expecting a 4th byte between 80 and BF.'')]
          ''After a first byte of F1, F2, or F3, expecting three following bytes.''
        else if x = 0xF4 then expect m str i len
          [(0x80, 0x8F, ''After a first byte of F4, expecting 2nd byte between 80 and 8F.''),
           (0x80, 0xBF, ''After a first byte of F4, expecting 3rd byte between 80 and BF.''),
           (0x80, 0xBF, ''After a first byte of F4, expecting 4th byte between 80 and BF.'')]
          ''After a first byte of F4, expecting three following bytes.''
        else Some (Fault ''Expecting bytes in the following ranges: 00..7F C2..F4.'' 1))"

lemma trail_Advance: "trail m p k rs = Some (Advance n) \<Longrightarrow> n = k + length rs"
  by (induction m p k rs rule: trail.induct) (auto split: option.splits if_splits)

lemma expect_Advance: "expect m str i len rs msg = Some (Advance n) \<Longrightarrow> n = Suc (length rs)"
  by (auto simp: expect_def dest: trail_Advance split: if_splits)

lemma validate_step_pos: "validate_step m str i len = Some (Advance n) \<Longrightarrow> 0 < n"
  by (auto simp: validate_step_def dest: expect_Advance split: option.splits if_splits)

text \<open>The result, and what \<open>*message\<close> and \<open>*faulty_bytes\<close> are left with.\<close>

function utf8_validate_loop :: "mem \<Rightarrow> ptr \<Rightarrow> nat \<Rightarrow> nat \<Rightarrow> (nat \<times> string option \<times> nat) option" where
  "utf8_validate_loop m str i len =
     (if i < len
      then (case validate_step m str i len of None \<Rightarrow> None
            | Some (Fault msg k) \<Rightarrow> Some (i, Some msg, k)
            | Some (Advance n) \<Rightarrow> utf8_validate_loop m str (i + n) len)
      else Some (0, None, 0))"
  by pat_completeness auto
termination
  by (relation "measure (\<lambda>(m, str, i, len). len - i)") (auto dest: validate_step_pos)

declare utf8_validate_loop.simps [simp del]

definition utf8_validate :: "mem \<Rightarrow> ptr \<Rightarrow> nat \<Rightarrow> (nat \<times> string option \<times> nat) option" where
  "utf8_validate m str len = utf8_validate_loop m str 0 len"

subsection \<open>Bytes as numbers\<close>

lemma and_high: "(k :: int) \<in> set [0..255] \<Longrightarrow> k AND 0xC0 = 64 * (k div 64) \<and> k AND 0xE0 = 32 * (k div 32) \<and> k AND 0xF0 = 16 * (k div 16)"
proof -
  have "\<forall>k \<in> set [0..255]. (k :: int) AND 0xC0 = 64 * (k div 64) \<and> k AND 0xE0 = 32 * (k div 32) \<and> k AND 0xF0 = 16 * (k div 16)"
    by code_simp
  then show "k \<in> set [0..255] \<Longrightarrow> k AND 0xC0 = 64 * (k div 64) \<and> k AND 0xE0 = 32 * (k div 32) \<and> k AND 0xF0 = 16 * (k div 16)"
    by blast
qed

lemma uint_and_high:
  "uint ((x :: byte) AND 0xC0) = 64 * (uint x div 64)" "uint (x AND 0xE0) = 32 * (uint x div 32)"
  "uint (x AND 0xF0) = 16 * (uint x div 16)"
  using and_high [of "uint x"] uint8_less [of x] by (simp_all add: unsigned_and_eq)

lemma IS_UTF8_iff: "IS_UTF8 x \<longleftrightarrow> 128 \<le> uint x \<and> uint x < 192"
  by (auto simp: IS_UTF8_def word_uint_eq_iff [of "x AND 0xC0"] uint_and_high)

lemma lead_iff:
  "(x :: byte) AND 0xe0 = 0xc0 \<longleftrightarrow> 192 \<le> uint x \<and> uint x < 224"
  "(x :: byte) AND 0xf0 = 0xe0 \<longleftrightarrow> 224 \<le> uint x \<and> uint x < 240"
  by (auto simp: word_uint_eq_iff [of "x AND 0xe0"] word_uint_eq_iff [of "x AND 0xf0"] uint_and_high)

lemma or_lead: "(x :: int) \<in> set [0..63] \<Longrightarrow> x OR 0x80 = 0x80 + x" "(x :: int) \<in> set [0..31] \<Longrightarrow> x OR 0xC0 = 0xC0 + x"
  "(x :: int) \<in> set [0..15] \<Longrightarrow> x OR 0xE0 = 0xE0 + x" "(x :: int) \<in> set [0..7] \<Longrightarrow> x OR 0xF0 = 0xF0 + x"
proof -
  have "\<forall>x \<in> set [0..63]. (x :: int) OR 0x80 = 0x80 + x" "\<forall>x \<in> set [0..31]. (x :: int) OR 0xC0 = 0xC0 + x"
    "\<forall>x \<in> set [0..15]. (x :: int) OR 0xE0 = 0xE0 + x" "\<forall>x \<in> set [0..7]. (x :: int) OR 0xF0 = 0xF0 + x" by code_simp+
  then show "x \<in> set [0..63] \<Longrightarrow> x OR 0x80 = 0x80 + x" "x \<in> set [0..31] \<Longrightarrow> x OR 0xC0 = 0xC0 + x"
    "x \<in> set [0..15] \<Longrightarrow> x OR 0xE0 = 0xE0 + x" "x \<in> set [0..7] \<Longrightarrow> x OR 0xF0 = 0xF0 + x" by blast+
qed

lemma and_63: "(x :: int) AND 0x3F = x mod 64"
  using take_bit_eq_mask [of 6 x] by (simp add: take_bit_eq_mod mask_eq_exp_minus_1)

text \<open>The encoding of a code point, and the code points that have one.\<close>

definition enc :: "int \<Rightarrow> byte list" where
  "enc c = (case utf8_bytes c of None \<Rightarrow> [] | Some bs \<Rightarrow> bs)"

definition scalar :: "int \<Rightarrow> bool" where
  "scalar c \<longleftrightarrow> 0 \<le> c \<and> c < 0xD800 \<or> 0xE000 \<le> c \<and> c < 0x110000"

definition byte_of :: "int \<Rightarrow> byte" where "byte_of x = word_of_int x"

lemma uint_byte_of: "0 \<le> x \<Longrightarrow> x < 256 \<Longrightarrow> uint (byte_of x) = x"
  by (simp add: byte_of_def unsigned_of_int take_bit_int_eq_self)

lemma utf8_bytes_arith:
  assumes "0 \<le> c" "c < 0x110000"
  shows "utf8_bytes c = Some (
     if c < 0x80 then [byte_of c]
     else if c < 0x800 then [byte_of (0xC0 + c div 64), byte_of (0x80 + c mod 64)]
     else if c < 0x10000 then
       [byte_of (0xE0 + c div 4096), byte_of (0x80 + c div 64 mod 64), byte_of (0x80 + c mod 64)]
     else [byte_of (0xF0 + c div 262144), byte_of (0x80 + c div 4096 mod 64),
           byte_of (0x80 + c div 64 mod 64), byte_of (0x80 + c mod 64)])"
proof -
  have m: "x mod 64 OR 0x80 = 0x80 + x mod 64" for x :: int by (rule or_lead) simp
  have "c < 0x800 \<Longrightarrow> c div 64 OR 0xC0 = 0xC0 + c div 64" using assms by (intro or_lead) auto
  moreover have "c < 0x10000 \<Longrightarrow> c div 4096 OR 0xE0 = 0xE0 + c div 4096" using assms by (intro or_lead) auto
  moreover have "c div 262144 OR 0xF0 = 0xF0 + c div 262144" using assms by (intro or_lead) auto
  ultimately show ?thesis using assms m by (simp add: utf8_bytes_def drop_bit_eq_div and_63 byte_of_def)
qed

text \<open>A code point by the digits of its base 64 form.\<close>

lemma enc_1: "0 \<le> c \<Longrightarrow> c < 0x80 \<Longrightarrow> enc c = [byte_of c]"
  by (simp add: enc_def utf8_bytes_arith)

lemma enc_2: "2 \<le> a \<Longrightarrow> a < 32 \<Longrightarrow> 0 \<le> b \<Longrightarrow> b < 64 \<Longrightarrow>
  enc (64 * a + b) = [byte_of (0xC0 + a), byte_of (0x80 + b)]"
  by (simp add: enc_def utf8_bytes_arith)

lemma base_64:
  assumes "0 \<le> d" "d < (64 :: int)"
  shows "(64 * q + d) mod 64 = d" "(64 * q + d) div 64 = q"
  using assms by (simp_all add: mod_pos_pos_trivial)

lemma div_64_64: "(c :: int) div 4096 = c div 64 div 64" "(c :: int) div 262144 = c div 64 div 64 div 64"
  by (simp_all add: zdiv_zmult2_eq [symmetric])

lemma enc_3:
  assumes "0 \<le> a" "a < 16" "0 \<le> b" "b < 64" "0 \<le> d" "d < 64" "32 \<le> 64 * a + b"
  shows "enc (4096 * a + 64 * b + d) = [byte_of (0xE0 + a), byte_of (0x80 + b), byte_of (0x80 + d)]"
proof -
  define c where "c = 64 * (64 * a + b) + d"
  have "c div 64 = 64 * a + b" "c mod 64 = d" using base_64 [of d "64 * a + b"] assms by (simp_all add: c_def)
  moreover have "(64 * a + b) mod 64 = b" "(64 * a + b) div 64 = a" using base_64 [of b a] assms by simp_all
  moreover have "0x800 \<le> c" "c < 0x10000" using assms by (simp_all add: c_def)
  ultimately have "enc c = [byte_of (0xE0 + a), byte_of (0x80 + b), byte_of (0x80 + d)]"
    by (simp add: enc_def utf8_bytes_arith div_64_64)
  moreover have "c = 4096 * a + 64 * b + d" by (simp add: c_def)
  ultimately show ?thesis by simp
qed

lemma utf8_bytes_4:
  "0x10000 \<le> c \<Longrightarrow> c < 0x110000 \<Longrightarrow> utf8_bytes c =
    Some [byte_of (0xF0 + c div 262144), byte_of (0x80 + c div 4096 mod 64),
          byte_of (0x80 + c div 64 mod 64), byte_of (0x80 + c mod 64)]"
  by (simp add: utf8_bytes_arith)

lemma enc_4:
  assumes "0 \<le> e" "e < 5" "0 \<le> a" "a < 64" "0 \<le> b" "b < 64" "0 \<le> d" "d < 64" "16 \<le> 64 * e + a" "64 * e + a < 272"
  shows "enc (262144 * e + 4096 * a + 64 * b + d) =
    [byte_of (0xF0 + e), byte_of (0x80 + a), byte_of (0x80 + b), byte_of (0x80 + d)]"
proof -
  define p where "p = 64 * (64 * e + a) + b"
  define c where "c = 64 * p + d"
  have c: "c div 64 = p" "c mod 64 = d" unfolding c_def using assms(7,8) by (rule base_64(2), rule base_64(1))
  have p: "p div 64 = 64 * e + a" "p mod 64 = b" unfolding p_def using assms(5,6) by (rule base_64(2), rule base_64(1))
  have q: "(64 * e + a) mod 64 = a" "(64 * e + a) div 64 = e" using assms(3,4) by (rule base_64(1), rule base_64(2))
  have r: "0x10000 \<le> c" "c < 0x110000" using assms(3-10) unfolding c_def p_def by simp_all
  have "enc c = [byte_of (0xF0 + e), byte_of (0x80 + a), byte_of (0x80 + b), byte_of (0x80 + d)]"
    unfolding enc_def utf8_bytes_4 [OF r] div_64_64 c p q by simp
  moreover have "c = 262144 * e + 4096 * a + 64 * b + d" by (simp add: c_def p_def)
  ultimately show ?thesis by simp
qed

lemma scalar_cases [consumes 1, case_names one two three four]:
  assumes "scalar c"
  obtains "0 \<le> c" "c < 0x80"
  | a b where "c = 64 * a + b" "2 \<le> a" "a < 32" "0 \<le> b" "b < 64"
  | a b d where "c = 4096 * a + 64 * b + d" "0 \<le> a" "a < 16" "0 \<le> b" "b < 64" "0 \<le> d" "d < 64" "32 \<le> 64 * a + b"
      "a = 13 \<longrightarrow> b < 32"
  | e a b d where "c = 262144 * e + 4096 * a + 64 * b + d" "0 \<le> e" "e < 5" "0 \<le> a" "a < 64" "0 \<le> b" "b < 64" "0 \<le> d" "d < 64"
      "16 \<le> 64 * e + a" "64 * e + a < 272"
proof -
  have c: "0 \<le> c" "c < 0x110000" using assms by (auto simp: scalar_def)
  consider "c < 0x80" | "0x80 \<le> c" "c < 0x800" | "0x800 \<le> c" "c < 0x10000" | "0x10000 \<le> c" by linarith
  then show thesis
  proof cases
    case 1
    then show thesis using c that(1) by blast
  next
    case 2
    show thesis by (rule that(2) [of "c div 64" "c mod 64"]) (use 2 in auto)
  next
    case 3
    have d1: "c div 64 = 64 * (c div 4096) + c div 64 mod 64"
      using div_mult_mod_eq [of "c div 64" 64] by (simp add: zdiv_zmult2_eq [symmetric])
    have e: "c = 4096 * (c div 4096) + 64 * (c div 64 mod 64) + c mod 64"
      using div_mult_mod_eq [of c 64] d1 by linarith
    have "32 \<le> c div 64" using 3 by simp
    moreover note d1
    moreover have "c div 4096 = 13 \<longrightarrow> c div 64 mod 64 < 32" using assms 3 e by (auto simp: scalar_def)
    ultimately show thesis by (intro that(3) [OF e]) (use 3 in auto)
  next
    case 4
    have d1: "c div 64 = 64 * (c div 4096) + c div 64 mod 64"
      using div_mult_mod_eq [of "c div 64" 64] by (simp add: zdiv_zmult2_eq [symmetric])
    have d2: "c div 4096 = 64 * (c div 262144) + c div 4096 mod 64"
      using div_mult_mod_eq [of "c div 4096" 64] by (simp add: zdiv_zmult2_eq [symmetric])
    have e: "c = 262144 * (c div 262144) + 4096 * (c div 4096 mod 64) + 64 * (c div 64 mod 64) + c mod 64"
      using div_mult_mod_eq [of c 64] d1 d2 by linarith
    have "16 \<le> c div 4096" "c div 4096 < 272" using 4 c by auto
    then show thesis using d2 by (intro that(4) [OF e]) (use 4 c in auto)
  qed
qed

subsection \<open>Decoding what was encoded\<close>

fun code_steps :: "int \<Rightarrow> byte list \<Rightarrow> int option" where
  "code_steps code [] = Some code"
| "code_steps code (x # xs) = code_step code x \<bind> (\<lambda>c. code_steps c xs)"

lemma utf8_code_loop_run:
  assumes "load m (padd buf n) (Suc (length ts)) = Some (x # ts)" "\<forall>t \<in> set ts. t \<noteq> 0 \<and> IS_UTF8 t"
    "rd m (padd buf (n + Suc (length ts))) = Some y" "\<not> (y \<noteq> 0 \<and> IS_UTF8 y)" "code_steps code (x # ts) = Some r"
  shows "utf8_code_loop m buf n code = Some (r, n + Suc (length ts))"
  using assms
proof (induction ts arbitrary: n x code)
  case Nil
  then show ?case by (subst utf8_code_loop.simps) (auto split: bind_splits)
next
  case (Cons t ts)
  have x: "rd m (padd buf n) = Some x" "load m (padd buf (Suc n)) (Suc (length ts)) = Some (t # ts)"
    using Cons.prems(1) by (auto simp: load_Suc_Some simp del: load.simps)
  then have t: "rd m (padd buf (Suc n)) = Some t" by (auto simp: load_Suc_Some simp del: load.simps)
  obtain code' where c: "code_step code x = Some code'" "code_steps code' (t # ts) = Some r"
    using Cons.prems(5) by (auto split: bind_splits)
  have "utf8_code_loop m buf (Suc n) code' = Some (r, Suc n + Suc (length ts))"
    using Cons.IH [OF x(2) _ _ Cons.prems(4) c(2)] Cons.prems(2,3) by simp
  then show ?case using x t c(1) Cons.prems(2) by (subst utf8_code_loop.simps) simp
qed

lemma enc_nonempty: "scalar c \<Longrightarrow> 0 < length (enc c) \<and> length (enc c) \<le> 4"
  by (cases c rule: scalar_cases) (simp_all add: enc_1 enc_2 enc_3 enc_4)

lemma IS_UTF8_tail: "0 \<le> b \<Longrightarrow> b < 64 \<Longrightarrow> byte_of (0x80 + b) \<noteq> 0 \<and> IS_UTF8 (byte_of (0x80 + b))"
  by (simp add: IS_UTF8_iff uint_byte_of word_uint_eq_iff)

lemma enc_tail: "scalar c \<Longrightarrow> t \<in> set (tl (enc c)) \<Longrightarrow> t \<noteq> 0 \<and> IS_UTF8 t"
  by (cases c rule: scalar_cases) (auto simp: enc_1 enc_2 enc_3 enc_4 IS_UTF8_tail)

lemma code_step_id:
  assumes "0 \<le> code" "code < 2 ^ 24"
  shows "code_step code x = Some (code * 64 + uchar x)"
proof -
  have u: "0 \<le> uchar x" "uchar x < 256" using uint8_less [of x] by simp_all
  have "code < 16777216" using assms(2) by simp
  then have "- 2147483648 \<le> code * 64" "code * 64 < 2147483648" "- 2147483648 \<le> code * 64 + uchar x"
    "code * 64 + uchar x < 2147483648" using assms(1) u by linarith+
  then show ?thesis by (simp add: code_step_def in_int_def)
qed

lemma code_steps_enc:
  "scalar c \<Longrightarrow> code_steps 0 (enc c) = Some (c + offsetsFromUTF8 ! (length (enc c) - 1))"
  by (cases c rule: scalar_cases) (simp_all add: enc_1 enc_2 enc_3 enc_4 code_step_id uint_byte_of offsetsFromUTF8_def)

lemma scalar_range: "scalar c \<Longrightarrow> 0 \<le> c \<and> c < 0x110000"
  by (auto simp: scalar_def)

lemma utf8_code_and_len_enc:
  assumes "scalar c" "load m p (length (enc c)) = Some (enc c)" "rd m (padd p (length (enc c))) = Some y"
    "\<not> (y \<noteq> 0 \<and> IS_UTF8 y)"
  shows "utf8_code_and_len m p l0 = Some (c, int (length (enc c)))"
proof -
  obtain x ts where e: "enc c = x # ts" using enc_nonempty [OF assms(1)] by (cases "enc c") auto
  have p: "p \<noteq> Null" using assms(2) e by (auto simp: load_Suc_Some simp del: load.simps)
  have "utf8_code_loop m p 0 0 = Some (c + offsetsFromUTF8 ! (length (enc c) - 1), 0 + Suc (length ts))"
    using assms e enc_tail [OF assms(1)] code_steps_enc [OF assms(1)]
    by (intro utf8_code_loop_run) (auto simp del: load.simps code_steps.simps)
  then show ?thesis
    using p e enc_nonempty [OF assms(1)] scalar_range [OF assms(1)] by (simp add: utf8_code_and_len_def in_int_def)
qed

subsection \<open>What is well formed\<close>

text \<open>A sequence of bytes is valid when it is the encoding of a sequence of code points.\<close>

definition valid_utf8 :: "byte list \<Rightarrow> bool" where
  "valid_utf8 xs \<longleftrightarrow> (\<exists>cs. (\<forall>c \<in> set cs. scalar c) \<and> xs = concat (map enc cs))"

text \<open>The table of well-formed sequences of the Unicode standard.\<close>

fun ranges :: "(byte \<times> byte \<times> string) list \<Rightarrow> byte list \<Rightarrow> bool" where
  "ranges [] ts = True"
| "ranges (r # rs) [] = False"
| "ranges ((lo, hi, msg) # rs) (t # ts) = (lo \<le> t \<and> t \<le> hi \<and> ranges rs ts)"

lemma trail_ranges:
  assumes "load m p (k + length ts) = Some (pre @ ts)" "length pre = k" "length rs \<le> length ts"
  shows "\<exists>v. trail m p k rs = Some v \<and>
    (if ranges rs ts then v = Advance (k + length rs) else (\<exists>s j. v = Fault s j))"
  using assms
proof (induction rs arbitrary: k pre ts)
  case (Cons r rs)
  obtain lo hi msg where r: "r = (lo, hi, msg)" by (cases r)
  obtain t ts' where ts: "ts = t # ts'" using Cons.prems(3) by (cases ts) auto
  have rd: "rd m (padd p k) = Some t" using load_rd [OF Cons.prems(1), of k] Cons.prems(2) ts by (simp add: nth_append)
  have "load m p (Suc k + length ts') = Some ((pre @ [t]) @ ts')" using Cons.prems(1) ts by simp
  from Cons.IH [OF this] Cons.prems show ?case using rd r ts by (auto simp: not_le)
qed simp

lemma expect_ranges:
  assumes "load m (padd str i) (len - i) = Some (x # ts)" "i < len"
  shows "\<exists>v. expect m str i len rs msg = Some v \<and>
    (if ranges rs ts then v = Advance (Suc (length rs)) \<and> length rs \<le> length ts else (\<exists>s j. v = Fault s j))"
proof -
  have l: "len - i = Suc (length ts)" using load_length [OF assms(1)] by simp
  have short: "ranges rs ts \<Longrightarrow> length rs \<le> length ts" for rs ts
    by (induction rs ts rule: ranges.induct) auto
  show ?thesis
  proof (cases "length rs \<le> length ts")
    case True
    then show ?thesis using trail_ranges [of m "padd str i" 1 ts "[x]" rs] assms l by (auto simp: expect_def)
  next
    case False
    then show ?thesis using short [of rs ts] assms l by (auto simp: expect_def)
  qed
qed

text \<open>The length of the well-formed sequence at the head, by the first byte.\<close>

definition r80 :: "byte \<times> byte \<times> string" where "r80 = (0x80, 0xBF, [])"

fun wf_len :: "byte list \<Rightarrow> nat option" where
  "wf_len [] = None"
| "wf_len (x # ts) =
    (let ok = (\<lambda>rs. if ranges rs ts then Some (Suc (length rs)) else None) in
     if x \<le> 0x7F then Some 1
     else if x \<ge> 0xC2 \<and> x \<le> 0xDF then ok [r80]
     else if x = 0xE0 then ok [(0xA0, 0xBF, []), r80]
     else if x \<ge> 0xE1 \<and> x \<le> 0xEC then ok [r80, r80]
     else if x = 0xED then ok [(0x80, 0x9F, []), r80]
     else if x \<ge> 0xEE \<and> x \<le> 0xEF then ok [r80, r80]
     else if x = 0xF0 then ok [(0x90, 0xBF, []), r80, r80]
     else if x \<ge> 0xF1 \<and> x \<le> 0xF3 then ok [r80, r80, r80]
     else if x = 0xF4 then ok [(0x80, 0x8F, []), r80, r80]
     else None)"

lemma ranges_msg: "ranges ((lo, hi, msg) # rs) ts = ranges ((lo, hi, []) # rs) ts"
  by (cases ts) auto

lemma ranges_1: "ranges [(lo, hi, msg)] ts \<longleftrightarrow> (\<exists>t zs. ts = t # zs \<and> lo \<le> t \<and> t \<le> hi)"
  by (cases ts) auto

lemma ranges_2: "ranges [(lo, hi, msg), (lo', hi', msg')] ts \<longleftrightarrow>
  (\<exists>t t' zs. ts = t # t' # zs \<and> lo \<le> t \<and> t \<le> hi \<and> lo' \<le> t' \<and> t' \<le> hi')"
  by (cases ts rule: remdups_adj.cases) auto

lemma ranges_3: "ranges [(lo, hi, msg), (lo', hi', msg'), (lo'', hi'', msg'')] ts \<longleftrightarrow>
  (\<exists>t t' t'' zs. ts = t # t' # t'' # zs \<and> lo \<le> t \<and> t \<le> hi \<and> lo' \<le> t' \<and> t' \<le> hi' \<and> lo'' \<le> t'' \<and> t'' \<le> hi'')"
proof (cases ts)
  case (Cons t ts')
  then show ?thesis using ranges_2 [of lo' hi' msg' lo'' hi'' msg'' ts'] by auto
qed simp

definition agrees :: "nat \<Rightarrow> verdict option \<Rightarrow> nat option \<Rightarrow> bool" where
  "agrees l v w \<longleftrightarrow> (\<exists>v'. v = Some v' \<and>
     (case w of Some n \<Rightarrow> v' = Advance n \<and> 0 < n \<and> n \<le> l | None \<Rightarrow> (\<exists>s j. v' = Fault s j)))"

lemma agrees_if:
  "(P \<Longrightarrow> agrees l a b) \<Longrightarrow> (\<not> P \<Longrightarrow> agrees l a' b') \<Longrightarrow>
   agrees l (if P then a else a') (if P then b else b')"
  by simp

lemma agrees_expect:
  assumes "load m (padd str i) (len - i) = Some (x # ts)" "i < len" "ranges rs ts = ranges rs' ts" "length rs = length rs'"
  shows "agrees (len - i) (expect m str i len rs msg) (if ranges rs' ts then Some (Suc (length rs')) else None)"
  using expect_ranges [OF assms(1,2), of rs msg] assms(3,4) load_length [OF assms(1)] by (auto simp: agrees_def)

lemma validate_step_wf:
  assumes "load m (padd str i) (len - i) = Some (x # ts)" "i < len"
  shows "agrees (len - i) (validate_step m str i len) (wf_len (x # ts))"
proof -
  have rd: "rd m (padd str i) = Some x" using load_rd [OF assms(1), of 0] assms(2) by simp
  show ?thesis
    unfolding validate_step_def rd option.case wf_len.simps Let_def
    by (intro agrees_if; (rule agrees_expect [OF assms])?)
       (use assms(2) in \<open>auto simp: agrees_def r80_def ranges_1 ranges_2 ranges_3\<close>)
qed

lemma byte_le_iff: "x \<le> y \<longleftrightarrow> uint (x :: byte) \<le> uint y"
  by (simp add: word_le_def)

lemma byte_eq_iff: "x = y \<longleftrightarrow> uint (x :: byte) = uint y"
  by (simp add: word_uint_eq_iff)

lemma byte_of_uint [simp]: "byte_of (uint x) = x"
  by (simp add: byte_of_def)

lemmas byte_arith = byte_le_iff byte_eq_iff [of _ "0xE0"] byte_eq_iff [of _ "0xED"] byte_eq_iff [of _ "0xF0"] byte_eq_iff [of _ "0xF4"]

lemmas ranges_n = ranges_1 ranges_2 ranges_3

text \<open>Soundness: what the table accepts is the encoding of a code point.\<close>

lemma scalar_2: "\<exists>c. scalar c \<and> enc c = [x, t]"
  if "0xC2 \<le> uint x" "uint x \<le> 0xDF" "0x80 \<le> uint t" "uint t \<le> 0xBF"
  using enc_2 [of "uint x - 0xC0" "uint t - 0x80"] that
  by (intro exI [of _ "64 * (uint x - 0xC0) + (uint t - 0x80)"]) (simp add: scalar_def)

lemma scalar_3: "\<exists>c. scalar c \<and> enc c = [x, t, t']"
  if "0xE0 \<le> uint x" "uint x \<le> 0xEF" "0x80 \<le> uint t" "uint t \<le> 0xBF" "0x80 \<le> uint t'" "uint t' \<le> 0xBF"
    "uint x = 0xE0 \<Longrightarrow> 0xA0 \<le> uint t" "uint x = 0xED \<Longrightarrow> uint t \<le> 0x9F"
proof -
  let ?a = "uint x - 0xE0" and ?b = "uint t - 0x80" and ?d = "uint t' - 0x80"
  have g: "32 \<le> 64 * ?a + ?b" using that by (cases "uint x = 0xE0") auto
  have e: "enc (4096 * ?a + 64 * ?b + ?d) = [x, t, t']" using enc_3 [of ?a ?b ?d] that g by simp
  have "scalar (4096 * ?a + 64 * ?b + ?d)"
  proof (cases "uint x = 0xED")
    case True
    then show ?thesis using that by (simp add: scalar_def)
  next
    case False
    then consider "uint x \<le> 0xEC" | "0xEE \<le> uint x" by linarith
    then show ?thesis using that g by cases (auto simp: scalar_def)
  qed
  then show ?thesis using e by blast
qed

lemma scalar_4: "\<exists>c. scalar c \<and> enc c = [x, t, t', t'']"
  if "0xF0 \<le> uint x" "uint x \<le> 0xF4" "0x80 \<le> uint t" "uint t \<le> 0xBF" "0x80 \<le> uint t'" "uint t' \<le> 0xBF"
    "0x80 \<le> uint t''" "uint t'' \<le> 0xBF" "uint x = 0xF0 \<Longrightarrow> 0x90 \<le> uint t" "uint x = 0xF4 \<Longrightarrow> uint t \<le> 0x8F"
proof -
  let ?e = "uint x - 0xF0" and ?a = "uint t - 0x80" and ?b = "uint t' - 0x80" and ?d = "uint t'' - 0x80"
  have g: "16 \<le> 64 * ?e + ?a" using that by (cases "uint x = 0xF0") auto
  have l: "64 * ?e + ?a < 272" using that by (cases "uint x = 0xF4") auto
  have e: "enc (262144 * ?e + 4096 * ?a + 64 * ?b + ?d) = [x, t, t', t'']"
    using enc_4 [of ?e ?a ?b ?d] that(1-8) g l by simp
  have "0xE000 \<le> 262144 * ?e + 4096 * ?a + 64 * ?b + ?d" "262144 * ?e + 4096 * ?a + 64 * ?b + ?d < 0x110000"
    using that(3-8) g l by simp_all
  then have "scalar (262144 * ?e + 4096 * ?a + 64 * ?b + ?d)" unfolding scalar_def by blast
  then show ?thesis using e by blast
qed

definition coded :: "byte \<Rightarrow> byte list \<Rightarrow> nat \<Rightarrow> bool" where
  "coded x ts n \<longleftrightarrow> n \<le> Suc (length ts) \<and> (\<exists>c. scalar c \<and> enc c = take n (x # ts))"

lemma coded_1: "x \<le> 0x7F \<Longrightarrow> coded x ts 1"
  unfolding coded_def using enc_1 [of "uint x"]
  by (intro conjI exI [of _ "uint x"]) (simp_all add: byte_arith scalar_def)

lemma coded_2:
  assumes "ranges [r80] ts" "0xC2 \<le> x" "x \<le> 0xDF"
  shows "coded x ts 2"
proof -
  obtain t zs where t: "ts = t # zs" "0x80 \<le> uint t" "uint t \<le> 0xBF"
    using assms(1) by (auto simp: r80_def ranges_n byte_arith)
  moreover have "0xC2 \<le> uint x" "uint x \<le> 0xDF" using assms(2,3) by (simp_all add: byte_arith)
  ultimately show ?thesis using scalar_2 [of x t] by (auto simp: coded_def numeral_2_eq_2)
qed

lemma coded_3:
  assumes "ranges [(lo, hi, []), r80] ts" "0xE0 \<le> x" "x \<le> 0xEF" "0x80 \<le> lo" "hi \<le> 0xBF"
    "x = 0xE0 \<Longrightarrow> lo = 0xA0" "x = 0xED \<Longrightarrow> hi = 0x9F"
  shows "coded x ts 3"
proof -
  obtain t t' zs where t: "ts = t # t' # zs" "lo \<le> t" "t \<le> hi" "0x80 \<le> uint t'" "uint t' \<le> 0xBF"
    using assms(1) by (auto simp: r80_def ranges_n byte_arith)
  have "uint x = 0xE0 \<Longrightarrow> 0xA0 \<le> uint t" "uint x = 0xED \<Longrightarrow> uint t \<le> 0x9F"
    using assms(6,7) t(2,3) by (auto simp: byte_arith)
  moreover have "0xE0 \<le> uint x" "uint x \<le> 0xEF" "0x80 \<le> uint t" "uint t \<le> 0xBF"
    using assms(2-5) t(2,3) by (auto simp: byte_arith)
  ultimately show ?thesis using scalar_3 [of x t t'] t by (auto simp: coded_def numeral_3_eq_3)
qed

lemma coded_4:
  assumes "ranges [(lo, hi, []), r80, r80] ts" "0xF0 \<le> x" "x \<le> 0xF4" "0x80 \<le> lo" "hi \<le> 0xBF"
    "x = 0xF0 \<Longrightarrow> lo = 0x90" "x = 0xF4 \<Longrightarrow> hi = 0x8F"
  shows "coded x ts 4"
proof -
  obtain t t' t'' zs where t: "ts = t # t' # t'' # zs" "lo \<le> t" "t \<le> hi" "0x80 \<le> uint t'" "uint t' \<le> 0xBF"
    "0x80 \<le> uint t''" "uint t'' \<le> 0xBF"
    using assms(1) by (auto simp: r80_def ranges_n byte_arith)
  have "uint x = 0xF0 \<Longrightarrow> 0x90 \<le> uint t" "uint x = 0xF4 \<Longrightarrow> uint t \<le> 0x8F"
    using assms(6,7) t(2,3) by (auto simp: byte_arith)
  moreover have "0xF0 \<le> uint x" "uint x \<le> 0xF4" "0x80 \<le> uint t" "uint t \<le> 0xBF"
    using assms(2-5) t(2,3) by (auto simp: byte_arith)
  ultimately show ?thesis using scalar_4 [of x t t' t''] t by (auto simp: coded_def numeral_eq_Suc)
qed

lemma if_SomeE: "(if P then a else b) = Some n \<Longrightarrow> (P \<Longrightarrow> a = Some n \<Longrightarrow> Q) \<Longrightarrow> (\<not> P \<Longrightarrow> b = Some n \<Longrightarrow> Q) \<Longrightarrow> Q"
  by (cases P) auto

lemma wf_len_sound:
  assumes "wf_len (x # ts) = Some n"
  shows "coded x ts n"
proof -
  define three where "three lo hi \<longleftrightarrow> ranges [(lo, hi, []), r80] ts" for lo hi
  define four where "four lo hi \<longleftrightarrow> ranges [(lo, hi, []), r80, r80] ts" for lo hi
  have f: "ranges [(lo, hi, []), r80] ts = three lo hi" "ranges [(lo, hi, []), r80, r80] ts = four lo hi"
    "ranges [r80, r80] ts = three 0x80 0xBF" "ranges [r80, r80, r80] ts = four 0x80 0xBF" for lo hi
    by (simp_all add: three_def four_def r80_def)
  have t: "three lo hi \<Longrightarrow> 0xE0 \<le> x \<Longrightarrow> x \<le> 0xEF \<Longrightarrow> 0x80 \<le> lo \<Longrightarrow> hi \<le> 0xBF \<Longrightarrow>
    (x = 0xE0 \<Longrightarrow> lo = 0xA0) \<Longrightarrow> (x = 0xED \<Longrightarrow> hi = 0x9F) \<Longrightarrow> coded x ts 3" for lo hi
    unfolding three_def by (rule coded_3)
  have q: "four lo hi \<Longrightarrow> 0xF0 \<le> x \<Longrightarrow> x \<le> 0xF4 \<Longrightarrow> 0x80 \<le> lo \<Longrightarrow> hi \<le> 0xBF \<Longrightarrow>
    (x = 0xF0 \<Longrightarrow> lo = 0x90) \<Longrightarrow> (x = 0xF4 \<Longrightarrow> hi = 0x8F) \<Longrightarrow> coded x ts 4" for lo hi
    unfolding four_def by (rule coded_4)
  have t': "three 0xA0 0xBF \<Longrightarrow> x = 0xE0 \<Longrightarrow> coded x ts 3" "three 0x80 0x9F \<Longrightarrow> x = 0xED \<Longrightarrow> coded x ts 3"
    "three 0x80 0xBF \<Longrightarrow> 0xE1 \<le> x \<Longrightarrow> x \<le> 0xEC \<Longrightarrow> coded x ts 3"
    "three 0x80 0xBF \<Longrightarrow> 0xEE \<le> x \<Longrightarrow> x \<le> 0xEF \<Longrightarrow> coded x ts 3"
    by (erule t; auto simp: byte_arith)+
  have q': "four 0x90 0xBF \<Longrightarrow> x = 0xF0 \<Longrightarrow> coded x ts 4" "four 0x80 0x8F \<Longrightarrow> x = 0xF4 \<Longrightarrow> coded x ts 4"
    "four 0x80 0xBF \<Longrightarrow> 0xF1 \<le> x \<Longrightarrow> x \<le> 0xF3 \<Longrightarrow> coded x ts 4"
    by (erule q; auto simp: byte_arith)+
  have n: "(2 :: nat) = Suc (Suc 0)" "(3 :: nat) = Suc (Suc (Suc 0))" "(4 :: nat) = Suc (Suc (Suc (Suc 0)))" by simp_all
  show ?thesis
    using assms unfolding wf_len.simps Let_def f
    by (elim if_SomeE) (use coded_1 [unfolded One_nat_def] coded_2 [unfolded n] t' [unfolded n] q' [unfolded n] in \<open>auto\<close>)
qed

text \<open>Completeness: the encoding of a code point is accepted.\<close>

lemma wf_len_complete:
  assumes "scalar c"
  shows "wf_len (enc c @ zs) = Some (length (enc c))"
  using assms
proof (cases c rule: scalar_cases)
  case one
  then show ?thesis by (simp add: enc_1 byte_arith uint_byte_of)
next
  case (two a b)
  then show ?thesis by (simp add: enc_2 byte_arith uint_byte_of r80_def)
next
  case (three a b d)
  then show ?thesis by (auto simp: enc_3 byte_arith uint_byte_of r80_def)
next
  case (four e a b d)
  then show ?thesis by (simp add: enc_4 byte_arith uint_byte_of r80_def)
qed
declare wf_len.simps(2) [simp del]

lemma valid_Nil [simp]: "valid_utf8 []"
  by (auto simp: valid_utf8_def intro: exI [of _ "[]"])

lemma valid_enc: "scalar c \<Longrightarrow> valid_utf8 zs \<Longrightarrow> valid_utf8 (enc c @ zs)"
  unfolding valid_utf8_def
proof (elim exE conjE)
  fix cs assume "scalar c" "\<forall>c \<in> set cs. scalar c" "zs = concat (map enc cs)"
  then show "\<exists>cs. (\<forall>c \<in> set cs. scalar c) \<and> enc c @ zs = concat (map enc cs)" by (intro exI [of _ "c # cs"]) simp
qed

lemma valid_append: "valid_utf8 xs \<Longrightarrow> valid_utf8 ys \<Longrightarrow> valid_utf8 (xs @ ys)"
  unfolding valid_utf8_def
proof (elim exE conjE)
  fix cs ds assume "\<forall>c \<in> set cs. scalar c" "xs = concat (map enc cs)" "\<forall>c \<in> set ds. scalar c" "ys = concat (map enc ds)"
  then show "\<exists>cs. (\<forall>c \<in> set cs. scalar c) \<and> xs @ ys = concat (map enc cs)"
    by (intro exI [of _ "cs @ ds"]) auto
qed

text \<open>The first sequence decides: a valid string starts with one and stays valid without it.\<close>

lemma valid_step:
  assumes "xs \<noteq> []"
  shows "valid_utf8 xs \<longleftrightarrow> (\<exists>n. wf_len xs = Some n \<and> valid_utf8 (drop n xs))"
proof
  assume "valid_utf8 xs"
  then obtain cs where cs: "\<forall>c \<in> set cs. scalar c" "xs = concat (map enc cs)" by (auto simp: valid_utf8_def)
  with assms obtain c cs' where "cs = c # cs'" by (cases cs) auto
  with cs show "\<exists>n. wf_len xs = Some n \<and> valid_utf8 (drop n xs)"
    using wf_len_complete [of c "concat (map enc cs')"] by (auto simp: valid_utf8_def)
next
  assume "\<exists>n. wf_len xs = Some n \<and> valid_utf8 (drop n xs)"
  then obtain n where n: "wf_len xs = Some n" "valid_utf8 (drop n xs)" by blast
  obtain x ts where xs: "xs = x # ts" using assms by (cases xs) auto
  with wf_len_sound [of x ts n] n(1) obtain c where "scalar c" "enc c = take n xs" by (auto simp: coded_def)
  with valid_enc [of c "drop n xs"] n(2) show "valid_utf8 xs" by simp
qed

lemma valid_take_step:
  assumes "wf_len (x # ts) = Some n"
  shows "valid_utf8 (take n (x # ts))"
  using wf_len_sound [OF assms] valid_enc [OF _ valid_Nil] unfolding coded_def by (metis append_Nil2)

lemma load_drop: "load m p n = Some xs \<Longrightarrow> k \<le> n \<Longrightarrow> load m (padd p k) (n - k) = Some (drop k xs)"
proof (induction k arbitrary: p n xs)
  case (Suc k)
  then obtain n' where n: "n = Suc n'" by (cases n) auto
  with Suc.prems obtain c cs where "xs = c # cs" "load m (padd p 1) n' = Some cs"
    by (auto simp: load_Suc_Some simp del: load.simps)
  with Suc.IH [of "padd p 1" n' cs] Suc.prems(2) n show ?case by simp
qed simp

lemma validate_loop_correct:
  assumes "load m str len = Some xs" "i \<le> len" "valid_utf8 (take i xs)"
  shows "\<exists>j msg k. utf8_validate_loop m str i len = Some (j, msg, k) \<and>
    (if msg = None then j = 0 \<and> valid_utf8 (drop i xs)
     else j < len \<and> valid_utf8 (take j xs) \<and> wf_len (drop j xs) = None \<and> \<not> valid_utf8 (drop i xs))"
  using assms(2,3)
proof (induction "len - i" arbitrary: i rule: less_induct)
  case less
  have l: "load m (padd str i) (len - i) = Some (drop i xs)" using load_drop [OF assms(1) less.prems(1)] .
  have lx: "length xs = len" using load_length [OF assms(1)] .
  show ?case
  proof (cases "i < len")
    case False
    then show ?thesis using lx by (subst utf8_validate_loop.simps) simp
  next
    case True
    then obtain x ts where x: "drop i xs = x # ts" using lx by (cases "drop i xs") auto
    have ag: "agrees (len - i) (validate_step m str i len) (wf_len (x # ts))"
      using validate_step_wf [of m str i len x ts] l x True by simp
    show ?thesis
    proof (cases "wf_len (x # ts)")
      case None
      with ag obtain s k where "validate_step m str i len = Some (Fault s k)" by (auto simp: agrees_def)
      then show ?thesis using True None x less.prems(2) valid_step [of "drop i xs"]
        by (subst utf8_validate_loop.simps) auto
    next
      case (Some n)
      with ag have n: "validate_step m str i len = Some (Advance n)" "0 < n" "n \<le> len - i" by (auto simp: agrees_def)
      have "valid_utf8 (take (i + n) xs)"
        using valid_append [OF less.prems(2) valid_take_step [OF Some]] x by (simp add: take_add)
      with less.hyps [of "i + n"] n True have
        "\<exists>j msg k. utf8_validate_loop m str (i + n) len = Some (j, msg, k) \<and>
          (if msg = None then j = 0 \<and> valid_utf8 (drop (i + n) xs)
           else j < len \<and> valid_utf8 (take j xs) \<and> wf_len (drop j xs) = None \<and> \<not> valid_utf8 (drop (i + n) xs))" by simp
      moreover have "valid_utf8 (drop i xs) \<longleftrightarrow> valid_utf8 (drop (i + n) xs)"
        using valid_step [of "drop i xs"] Some x by (metis drop_drop list.distinct(1) option.inject add.commute)
      moreover have "utf8_validate_loop m str i len = utf8_validate_loop m str (i + n) len"
        using True n by (subst utf8_validate_loop.simps) simp
      ultimately show ?thesis by (simp only:)
    qed
  qed
qed

subsection \<open>Properties\<close>

text \<open>
  Property C2. \<open>utf8_validate\<close> on \<open>len\<close> readable bytes always returns, reads
  nothing else, and leaves no message exactly when the bytes are the encoding of a sequence of
  code points (surrogates excluded). With a message the index it returns ends the longest
  valid prefix made of whole sequences: what precedes is valid and what follows does not begin
  with a well-formed sequence.
\<close>

theorem utf8_validate_correct:
  assumes "load m str len = Some xs"
  shows "\<exists>i msg k. utf8_validate m str len = Some (i, msg, k) \<and> (msg = None \<longleftrightarrow> valid_utf8 xs) \<and>
    (if msg = None then i = 0 else i < len \<and> valid_utf8 (take i xs) \<and> wf_len (drop i xs) = None)"
  using validate_loop_correct [OF assms, of 0] unfolding utf8_validate_def by (fastforce split: if_splits)

theorem utf8_validate_correct_witness:
  "\<exists>i msg k. utf8_validate [0 \<mapsto> [0x61, 0xC3, 0xA9, 0xED, 0xA0, 0x80]] (Ptr 0 0) 6 = Some (i, msg, k) \<and>
    (msg = None \<longleftrightarrow> valid_utf8 [0x61, 0xC3, 0xA9, 0xED, 0xA0, 0x80]) \<and>
    (if msg = None then i = 0 else i < 6 \<and> valid_utf8 (take i [0x61, 0xC3, 0xA9, 0xED, 0xA0, 0x80]) \<and>
      wf_len (drop i [0x61, 0xC3, 0xA9, 0xED, 0xA0, 0x80]) = None)"
  by (rule utf8_validate_correct) (simp add: numeral_eq_Suc)

lemma utf8_bytes_scalar: "scalar c \<Longrightarrow> utf8_bytes c = Some (enc c)"
  using utf8_bytes_arith [of c] scalar_range [of c] by (simp add: enc_def)

lemma load_store: "store m p xs = Some m' \<Longrightarrow> p \<noteq> Null \<Longrightarrow> load m' p (length xs) = Some xs"
proof (induction xs arbitrary: m p)
  case (Cons x xs)
  then obtain m1 where m1: "wr m p x = Some m1" "store m1 (padd p 1) xs = Some m'" by (auto split: bind_splits)
  have "rd m' p = Some x" using rd_store_same [OF Cons.prems(1), of 0] by simp
  with Cons.IH [OF m1(2)] Cons.prems(2) show ?case by simp
qed simp

lemma load_take: "load m p n = Some xs \<Longrightarrow> k \<le> n \<Longrightarrow> load m p k = Some (take k xs)"
proof (induction k arbitrary: p n xs)
  case (Suc k)
  then obtain n' where n: "n = Suc n'" by (cases n) auto
  with Suc.prems obtain c cs where "xs = c # cs" "rd m p = Some c" "load m (padd p 1) n' = Some cs"
    by (auto simp: load_Suc_Some simp del: load.simps)
  with Suc.IH [of "padd p 1" n' cs] Suc.prems(2) n show ?case by simp
qed simp

text \<open>
  Property C3. \<open>utf8_code\<close> reads back what \<open>utf8_character\<close> wrote: for every
  code point but NUL and the surrogates, and a buffer of five bytes or more (smaller ones are refused) with room for the encoding and its terminator,
  the writer returns the number of bytes of the encoding and the reader the code point and that number.
\<close>

theorem utf8_round_trip:
  assumes "scalar c" "c \<noteq> 0" "5 \<le> bufsize" "length (enc c) < room m buf"
  shows "\<exists>m'. utf8_character m c buf bufsize = Some (m', int (length (enc c))) \<and>
    utf8_code_and_len m' buf 0 = Some (c, int (length (enc c))) \<and> utf8_code m' buf = Some c"
proof -
  have "store m buf (enc c @ [0]) \<noteq> None"
    using assms(4) store_fits [of m buf "enc c @ [0]"] by simp
  then obtain m' where m': "store m buf (enc c @ [0]) = Some m'" by blast
  have "buf \<noteq> Null" using assms(4) by auto
  with load_store [OF m'] have l: "load m' buf (Suc (length (enc c))) = Some (enc c @ [0])" by simp
  then have "load m' buf (length (enc c)) = Some (enc c)" using load_take [OF l, of "length (enc c)"] by simp
  moreover have "rd m' (padd buf (length (enc c))) = Some 0" using load_rd [OF l, of "length (enc c)"] by (simp add: nth_append)
  ultimately have "utf8_code_and_len m' buf 0 = Some (c, int (length (enc c)))"
    using assms(1) by (intro utf8_code_and_len_enc) auto
  then show ?thesis using assms m' utf8_bytes_scalar by (simp add: utf8_character_def utf8_code_def)
qed

theorem utf8_round_trip_witness:
  "\<exists>m'. utf8_character [0 \<mapsto> replicate 8 0] 0x20AC (Ptr 0 0) 8 = Some (m', int (length (enc 0x20AC))) \<and>
    utf8_code_and_len m' (Ptr 0 0) 0 = Some (0x20AC, int (length (enc 0x20AC))) \<and> utf8_code m' (Ptr 0 0) = Some 0x20AC"
  by (rule utf8_round_trip) (simp_all add: scalar_def enc_def utf8_bytes_def)

text \<open>The bytes each loop steps over are the bytes of the encoding.\<close>

lemma utf8_skip_enc:
  assumes "scalar c" "enc c = x # ts"
  shows "utf8_skip x = Suc (length ts)"
  using assms
  by (cases c rule: scalar_cases)
     (auto simp: enc_1 enc_2 enc_3 enc_4 utf8_skip_def lead_iff word_less_def uint_byte_of)

lemma enc_nonzero: "scalar c \<Longrightarrow> c \<noteq> 0 \<Longrightarrow> 0 \<notin> set (enc c)"
  by (cases c rule: scalar_cases) (auto simp: enc_1 enc_2 enc_3 enc_4 word_uint_eq_iff uint_byte_of)

lemma utf8_len_loop_enc:
  assumes "\<forall>c \<in> set cs. scalar c \<and> c \<noteq> 0" "cstr m p = Some (concat (map enc cs))"
  shows "utf8_len_loop m p k = Some (k + length cs)"
  using assms
proof (induction cs arbitrary: p k)
  case Nil
  then show ?case by (subst utf8_len_loop.simps) (simp add: cstr_simps)
next
  case (Cons c cs)
  obtain x ts where e: "enc c = x # ts" using enc_nonempty [of c] Cons.prems(1) by (cases "enc c") auto
  have "x \<noteq> 0" using enc_nonzero [of c] Cons.prems(1) e by auto
  moreover have "rd m p = Some x" using Cons.prems(2) e by (simp add: cstr_simps)
  moreover have "cstr m (padd p (Suc (length ts))) = Some (concat (map enc cs))"
    using cstr_drop [OF Cons.prems(2), of "Suc (length ts)"] e by simp
  ultimately show ?case using Cons utf8_skip_enc [of c x ts] e by (subst utf8_len_loop.simps) simp
qed

text \<open>
  \<open>utf8_len\<close> of a string that encodes a sequence of code points is the
  number of code points, whatever the lengths of their encodings.
\<close>

theorem utf8_len_counts:
  assumes "\<forall>c \<in> set cs. scalar c \<and> c \<noteq> 0" "cstr m bytes = Some (concat (map enc cs))"
  shows "utf8_len m bytes = Some (length cs)"
  using utf8_len_loop_enc [OF assms, of 0] by (simp add: utf8_len_def)

theorem utf8_len_counts_witness:
  "utf8_len [0 \<mapsto> [0x61, 0xC3, 0xA9, 0xE2, 0x82, 0xAC, 0]] (Ptr 0 0) = Some (length [0x61, 0xE9, 0x20AC :: int])"
  by (rule utf8_len_counts) (simp_all add: scalar_def enc_def utf8_bytes_def cstr_simps)

text \<open>
  \<open>utf8_get_nth_character\<close> answers nothing for every \<open>n > 0\<close>: its loop
  runs while \<open>n < len\<close> from \<open>len = 0\<close>, so it never steps and the call writes an empty
  string and returns 0 although the string has an n-th character.
\<close>

theorem utf8_get_nth_character_empty:
  assumes "0 < n" "rd m bytes = Some x" "5 \<le> bufsize"
  shows "utf8_get_nth_character m bytes buf bufsize n = map_option (\<lambda>m'. (m', 0)) (wr m buf 0)"
proof -
  have "utf8_nth_loop m bytes n 0 = Some (bytes, 0)" using assms by (subst utf8_nth_loop.simps) simp
  then show ?thesis using assms by (simp add: utf8_get_nth_character_def)
qed

theorem utf8_get_nth_character_empty_witness:
  "utf8_get_nth_character [0 \<mapsto> [0x61, 0x62, 0], 1 \<mapsto> replicate 8 1] (Ptr 0 0) (Ptr 1 0) 8 1 =
    map_option (\<lambda>m'. (m', 0)) (wr [0 \<mapsto> [0x61, 0x62, 0], 1 \<mapsto> replicate 8 1] (Ptr 1 0) 0)"
  by (rule utf8_get_nth_character_empty) simp_all

subsection \<open>Lower and upper case\<close>

text \<open>Below 0x800 the number of bytes only depends on the side of 0x80.\<close>

lemma same_number_of_bytes:
  "a < 0x800 \<Longrightarrow> b < 0x800 \<Longrightarrow> a < 0x80 \<longleftrightarrow> b < 0x80 \<Longrightarrow> map_option length (utf8_bytes a) = map_option length (utf8_bytes b)"
  by (auto simp: utf8_bytes_def)

text \<open>Property C19. Lower case and upper case are inverse on the letters they change, each is
  idempotent, and both keep the number of bytes of the encoding (that \<open>utf8_character\<close> writes).\<close>

theorem case_mapping_inverse:
  "(utf8_is_upper c \<longrightarrow> utf8_to_upper (utf8_to_lower c) = c) \<and>
   (utf8_is_lower c \<longrightarrow> utf8_to_lower (utf8_to_upper c) = c) \<and>
   utf8_to_lower (utf8_to_lower c) = utf8_to_lower c \<and> utf8_to_upper (utf8_to_upper c) = utf8_to_upper c \<and>
   map_option length (utf8_bytes (utf8_to_lower c)) = map_option length (utf8_bytes c) \<and>
   map_option length (utf8_bytes (utf8_to_upper c)) = map_option length (utf8_bytes c)"
proof -
  have "utf8_to_lower (utf8_to_lower c) = utf8_to_lower c" using lower_kind [of c] by metis
  moreover have "utf8_to_upper (utf8_to_upper c) = utf8_to_upper c" using upper_kind [of c] by metis
  moreover have "utf8_is_upper c \<Longrightarrow> utf8_to_upper (utf8_to_lower c) = c" using lower_kind [of c] unfolding utf8_is_upper_def by metis
  moreover have "utf8_is_lower c \<Longrightarrow> utf8_to_lower (utf8_to_upper c) = c" using upper_kind [of c] unfolding utf8_is_lower_def by metis
  moreover have "map_option length (utf8_bytes (utf8_to_lower c)) = map_option length (utf8_bytes c)"
    using lower_kind [of c] same_number_of_bytes [of "utf8_to_lower c" c] by metis
  moreover have "map_option length (utf8_bytes (utf8_to_upper c)) = map_option length (utf8_bytes c)"
    using upper_kind [of c] same_number_of_bytes [of "utf8_to_upper c" c] by metis
  ultimately show ?thesis by blast
qed

lemma case_mapping_inverse_witness: "utf8_to_lower 0x178 = 0xff \<and> utf8_to_upper (utf8_to_lower 0x178) = 0x178"
proof -
  have l: "utf8_to_lower 0x178 = 0xff" by (simp add: utf8_to_lower_def lower_switch_def)
  then have "utf8_is_upper 0x178" by (simp add: utf8_is_upper_def)
  then show ?thesis using case_mapping_inverse [of "0x178"] l by blast
qed

end
