(* ===== verification/Arena.thy ===== *)
theory Arena
  imports Prelude
begin

section \<open>The allocator\<close>

text \<open>
  \<open>stdlib/alloc.c\<close>, the allocator behind \<open>Alloc\<close>, \<open>Realloc\<close> and
  \<open>Release\<close>, and \<open>sys_sbrk\<close> of \<open>sys/brk.c\<close>. The arena lies between
  \<open>memHead\<close> and \<open>endBreakPoint\<close> and is a doubly linked list of chunks, each a header
  followed by its payload. Addresses and sizes are natural numbers with the wrap-around of
  \<open>size_t\<close> written out; the address 0 is \<open>NULL\<close>. The field \<open>chunks\<close> holds
  the headers that lie in memory, \<open>bytes\<close> the contents of the payloads. A header stays in
  memory until something is written over it, so the stale header of a merged chunk is still there
  for a second \<open>sys_free\<close> to find. The kernel's answer to the system call \<open>brk\<close> is a
  parameter: the field \<open>kernel\<close> maps the current break and the requested one to the answer.

  An operation answers \<open>None\<close> when it reads a header that is not there or writes beyond the
  break, or when a loop over the list does not end; \<open>Exit\<close> is a call of \<open>exit\<close>, which
  the default build makes when memory is exhausted and on a second free.
\<close>

subsection \<open>The state\<close>

record chunk =
  csize :: nat
  is_available :: bool
  cnext :: nat
  cprev :: nat

type_synonym heap = "nat \<Rightarrow> chunk option"

record arena =
  chunks :: heap
  bytes :: "nat \<Rightarrow> byte"
  memHead :: nat
  endBreakPoint :: nat
  brk :: nat
  kernel :: "nat \<Rightarrow> nat \<Rightarrow> nat"

datatype 'a run = Return 'a | Exit int

definition STRUCT_SIZE :: nat where "STRUCT_SIZE = 40"
definition STRUCT_OFFSET :: nat where "STRUCT_OFFSET = STRUCT_SIZE - 8"
definition ALIGN_SIZE :: nat where "ALIGN_SIZE = 8"

definition ALIGN :: "nat \<Rightarrow> nat" where
  "ALIGN sz = (sz + (ALIGN_SIZE - 1)) mod 2 ^ 64 div ALIGN_SIZE * ALIGN_SIZE"

text \<open>\<open>(void *) -1\<close>, the answer of a system call that fails.\<close>

definition FAILED :: nat where "FAILED = 2 ^ 64 - 1"

text \<open>Subtraction of \<open>size_t\<close> values.\<close>

definition usub :: "nat \<Rightarrow> nat \<Rightarrow> nat" where
  "usub a b = (a + 2 ^ 64 - b) mod 2 ^ 64"

subsection \<open>The break\<close>

definition sys_brk :: "arena \<Rightarrow> nat \<Rightarrow> arena \<times> nat" where
  "sys_brk st p =
     (let r = kernel st (brk st) p in (if r = FAILED then st else st\<lparr>brk := r\<rparr>, r))"

definition sys_sbrk :: "arena \<Rightarrow> nat \<Rightarrow> arena \<times> nat" where
  "sys_sbrk st inc =
     (let (st, cur_brk) = sys_brk st 0 in
      if inc = 0 then (st, cur_brk) else sys_brk st ((cur_brk + inc) mod 2 ^ 64))"

subsection \<open>Headers\<close>

text \<open>A write to \<open>n\<close> bytes from \<open>a\<close> on destroys the headers it touches.\<close>

definition wipe :: "heap \<Rightarrow> nat \<Rightarrow> nat \<Rightarrow> heap" where
  "wipe h a n = (\<lambda>x. if a < x + STRUCT_OFFSET \<and> x < a + n then None else h x)"

definition put :: "nat \<Rightarrow> heap \<Rightarrow> nat \<Rightarrow> chunk \<Rightarrow> heap option" where
  "put lim h a c =
     (if a \<noteq> 0 \<and> a + STRUCT_OFFSET \<le> lim then Some ((wipe h a STRUCT_OFFSET)(a \<mapsto> c)) else None)"

definition upd :: "heap \<Rightarrow> nat \<Rightarrow> (chunk \<Rightarrow> chunk) \<Rightarrow> heap option" where
  "upd h a f = (case h a of None \<Rightarrow> None | Some c \<Rightarrow> Some (h(a \<mapsto> f c)))"

definition set_prev :: "heap \<Rightarrow> nat \<Rightarrow> nat \<Rightarrow> heap option" where
  "set_prev h a p = (if a = 0 then Some h else upd h a (\<lambda>c. c\<lparr>cprev := p\<rparr>))"

text \<open>The first chunk that is free and large enough, and the last one passed over.\<close>

partial_function (option) findChunk :: "heap \<Rightarrow> nat \<Rightarrow> nat \<Rightarrow> nat \<Rightarrow> (nat \<times> nat) option" where
  "findChunk h p sz lastchunk =
     (if p = 0 then Some (0, lastchunk)
      else h p \<bind> (\<lambda>c.
        if is_available c \<and> csize c \<ge> sz then Some (p, lastchunk)
        else findChunk h (cnext c) sz p))"

definition splitChunk :: "nat \<Rightarrow> heap \<Rightarrow> nat \<Rightarrow> nat \<Rightarrow> heap option" where
  "splitChunk lim h cur len =
     h cur \<bind> (\<lambda>c.
       let atleast = ALIGN_SIZE + STRUCT_SIZE; newsz = csize c - len in
       if csize c < len \<or> newsz < atleast then Some h
       else do {
         let newchunk = cur + len;
         h \<leftarrow> put lim h newchunk \<lparr>csize = newsz, is_available = True, cnext = cnext c, cprev = cur\<rparr>;
         h \<leftarrow> set_prev h (cnext c) newchunk;
         upd h cur (\<lambda>c. c\<lparr>csize := len, is_available := False, cnext := newchunk\<rparr>) })"

text \<open>The two loops of \<open>mergeChunks\<close>: over the free chunks before, over those after.\<close>

partial_function (option) merge_prev :: "heap \<Rightarrow> nat \<Rightarrow> nat \<Rightarrow> (heap \<times> nat) option" where
  "merge_prev h cur prev =
     (if prev = 0 then Some (h, cur)
      else h prev \<bind> (\<lambda>pc.
        if \<not> is_available pc then Some (h, cur)
        else h cur \<bind> (\<lambda>cc.
          upd h prev (\<lambda>p. p\<lparr>csize := (csize p + csize cc) mod 2 ^ 64, cnext := cnext cc\<rparr>) \<bind> (\<lambda>h.
            set_prev h (cnext cc) prev \<bind> (\<lambda>h.
              h prev \<bind> (\<lambda>pc. merge_prev h prev (cprev pc)))))))"

partial_function (option) merge_next :: "heap \<Rightarrow> nat \<Rightarrow> nat \<Rightarrow> heap option" where
  "merge_next h cur next =
     (if next = 0 then Some h
      else h next \<bind> (\<lambda>nc.
        if \<not> is_available nc then Some h
        else upd h cur (\<lambda>c. c\<lparr>csize := (csize c + csize nc) mod 2 ^ 64, cnext := cnext nc\<rparr>) \<bind> (\<lambda>h.
          set_prev h (cnext nc) cur \<bind> (\<lambda>h.
            h next \<bind> (\<lambda>nc. merge_next h cur (cnext nc))))))"

definition mergeChunks :: "heap \<Rightarrow> nat \<Rightarrow> heap option" where
  "mergeChunks h freed =
     do { fc \<leftarrow> h freed;
          (h, cur) \<leftarrow> merge_prev h freed (cprev fc);
          cc \<leftarrow> h cur;
          merge_next h cur (cnext cc) }"

subsection \<open>The operations\<close>

definition increaseAllocation :: "arena \<Rightarrow> nat \<Rightarrow> nat \<Rightarrow> (arena \<times> nat) option" where
  "increaseAllocation st lastchunk len =
     (let curbreak = endBreakPoint st; (st, r) = sys_sbrk st len in
      if r = FAILED then Some (st, 0)
      else do {
        h \<leftarrow> put (brk st) (chunks st) curbreak \<lparr>csize = len, is_available = False, cnext = 0, cprev = lastchunk\<rparr>;
        h \<leftarrow> upd h lastchunk (\<lambda>c. c\<lparr>cnext := curbreak\<rparr>);
        let (st, e) = sys_sbrk (st\<lparr>chunks := h\<rparr>) 0;
        Some (st\<lparr>endBreakPoint := e\<rparr>, curbreak) })"

definition mem_deinit :: "arena \<Rightarrow> arena \<times> int" where
  "mem_deinit st =
     (if memHead st = 0 then (st, 0)
      else let sz = int (endBreakPoint st) - int (memHead st);
               (st, r) = sys_sbrk st (nat ((- sz) mod 2 ^ 64)) in
        if r = FAILED then (st, -1)
        else let (st, e) = sys_sbrk st 0 in (st\<lparr>endBreakPoint := e, memHead := 0\<rparr>, 0))"

definition mem_init :: "arena \<Rightarrow> nat \<Rightarrow> (arena \<times> int) run option" where
  "mem_init st sz =
     (if memHead st \<noteq> 0 then Some (Return (st, 0))
      else let (st, e) = sys_sbrk st 0; st = st\<lparr>endBreakPoint := e\<rparr>; (st, r) = sys_sbrk st sz in
        if r = FAILED then Some (Exit 1)
        else do {
          h \<leftarrow> put (brk st) (chunks st) e \<lparr>csize = sz, is_available = True, cnext = 0, cprev = 0\<rparr>;
          let (st, e') = sys_sbrk (st\<lparr>chunks := h, memHead := e\<rparr>) 0;
          Some (Return (st\<lparr>endBreakPoint := e'\<rparr>, 1)) })"

definition mem_zero :: "arena \<Rightarrow> nat \<Rightarrow> nat \<Rightarrow> arena option" where
  "mem_zero st p n =
     (if p + n \<le> brk st
      then Some (st\<lparr>chunks := wipe (chunks st) p n, bytes := fold (\<lambda>i b. b(p + i := 0)) [0..<n] (bytes st)\<rparr>)
      else None)"

definition need :: "nat \<Rightarrow> nat" where
  "need len = ALIGN ((len + STRUCT_SIZE) mod 2 ^ 64)"

definition sys_malloc :: "arena \<Rightarrow> nat \<Rightarrow> (arena \<times> nat) run option" where
  "sys_malloc st len =
     (let sz = need len in
      case mem_init st sz of None \<Rightarrow> None
      | Some (Exit c) \<Rightarrow> Some (Exit c)
      | Some (Return (st, r)) \<Rightarrow>
          if r = 1 then do {
            h \<leftarrow> splitChunk (brk st) (chunks st) (memHead st) sz;
            h \<leftarrow> upd h (memHead st) (\<lambda>c. c\<lparr>is_available := False\<rparr>);
            st \<leftarrow> mem_zero (st\<lparr>chunks := h\<rparr>) (memHead st + STRUCT_OFFSET) (usub sz STRUCT_SIZE);
            Some (Return (st, memHead st + STRUCT_OFFSET)) }
          else do {
            (freechunk, lastchunk) \<leftarrow> findChunk (chunks st) (memHead st) (sz mod 2 ^ 32) 0;
            (if freechunk = 0 then do {
               (st, freechunk) \<leftarrow> increaseAllocation st lastchunk sz;
               (if freechunk = 0 then Some (Exit 1)
                else do {
                  st \<leftarrow> mem_zero st (freechunk + STRUCT_OFFSET) (usub sz STRUCT_SIZE);
                  Some (Return (st, freechunk + STRUCT_OFFSET)) }) }
             else do {
               h \<leftarrow> upd (chunks st) freechunk (\<lambda>c. c\<lparr>is_available := False\<rparr>);
               h \<leftarrow> splitChunk (brk st) h freechunk sz;
               st \<leftarrow> mem_zero (st\<lparr>chunks := h\<rparr>) (freechunk + STRUCT_OFFSET) (usub sz STRUCT_SIZE);
               Some (Return (st, freechunk + STRUCT_OFFSET)) }) })"

definition in_arena :: "arena \<Rightarrow> nat \<Rightarrow> bool" where
  "in_arena st a \<longleftrightarrow> memHead st \<le> a \<and> a < endBreakPoint st"

definition mem_clear :: "arena \<Rightarrow> nat \<Rightarrow> (arena \<times> nat) run option" where
  "mem_clear st p =
     (if p = 0 then Some (Exit 1)
      else if in_arena st (p - STRUCT_OFFSET)
      then map_option (\<lambda>h. Return (st\<lparr>chunks := h\<rparr>, 0))
             (upd (chunks st) (p - STRUCT_OFFSET) (\<lambda>c. c\<lparr>is_available := True\<rparr>))
      else Some (Return (st, 1)))"

definition sys_free :: "arena \<Rightarrow> nat \<Rightarrow> (arena \<times> nat) run option" where
  "sys_free st p =
     (if p = 0 then Some (Exit 1)
      else let a = p - STRUCT_OFFSET in
        chunks st a \<bind> (\<lambda>c.
          if is_available c then Some (Exit 1)
          else if in_arena st a then do {
            h \<leftarrow> upd (chunks st) a (\<lambda>c. c\<lparr>is_available := True\<rparr>);
            h \<leftarrow> mergeChunks h a;
            Some (Return (st\<lparr>chunks := h\<rparr>, 0)) }
          else Some (Return (st, 1))))"

definition mem_get_actual_size :: "arena \<Rightarrow> nat \<Rightarrow> nat option" where
  "mem_get_actual_size st p =
     map_option (\<lambda>c. usub (csize c) STRUCT_SIZE) (chunks st (p - STRUCT_OFFSET))"

definition copy_payload :: "arena \<Rightarrow> nat \<Rightarrow> nat \<Rightarrow> nat \<Rightarrow> arena option" where
  "copy_payload st new old n =
     (if new + n \<le> brk st \<and> old + n \<le> brk st
      then Some (st\<lparr>chunks := wipe (chunks st) new n,
                    bytes := fold (\<lambda>i b. b(new + i := b (old + i))) [0..<n] (bytes st)\<rparr>)
      else None)"

definition sys_realloc :: "arena \<Rightarrow> nat \<Rightarrow> nat \<Rightarrow> (arena \<times> nat) run option" where
  "sys_realloc st p len =
     do { osz \<leftarrow> (if p \<noteq> 0 then mem_get_actual_size st p else Some 0);
          r \<leftarrow> sys_malloc st len;
          (case r of Exit c \<Rightarrow> Some (Exit c)
           | Return (st, new) \<Rightarrow>
               if p = 0 then Some (Return (st, new))
               else do {
                 nsz \<leftarrow> mem_get_actual_size st new;
                 st \<leftarrow> copy_payload st new p (min osz nsz);
                 r \<leftarrow> sys_free st p;
                 (case r of Exit c \<Rightarrow> Some (Exit c)
                  | Return (st, _) \<Rightarrow>
                      map_option (\<lambda>h. Return (st\<lparr>chunks := h\<rparr>, new))
                        (upd (chunks st) (new - STRUCT_OFFSET) (\<lambda>c. c\<lparr>is_available := False\<rparr>))) }) }"

subsection \<open>The list of chunks\<close>

text \<open>
  The abstract arena is the sequence of chunks in memory order, each its size and whether it is
  free. \<open>chain h p a nx bs\<close>: the headers from address \<open>a\<close> on are those of
  \<open>bs\<close>, contiguous and doubly linked, the first one's previous is \<open>p\<close> and the last
  one's next \<open>nx\<close>.
\<close>

type_synonym blocks = "(nat \<times> bool) list"

definition tot :: "blocks \<Rightarrow> nat" where "tot bs = sum_list (map fst bs)"

lemma tot_simps [simp]: "tot [] = 0" "tot (b # bs) = fst b + tot bs" "tot (xs @ ys) = tot xs + tot ys"
  by (simp_all add: tot_def)

fun chain :: "heap \<Rightarrow> nat \<Rightarrow> nat \<Rightarrow> nat \<Rightarrow> blocks \<Rightarrow> bool" where
  "chain h p a nx [] \<longleftrightarrow> True"
| "chain h p a nx ((s, f) # bs) \<longleftrightarrow>
     h a = Some \<lparr>csize = s, is_available = f, cnext = (if bs = [] then nx else a + s), cprev = p\<rparr> \<and>
     STRUCT_SIZE \<le> s \<and> chain h a (a + s) nx bs"

fun last_addr :: "nat \<Rightarrow> nat \<Rightarrow> blocks \<Rightarrow> nat" where
  "last_addr p a [] = p"
| "last_addr p a ((s, f) # bs) = last_addr a (a + s) bs"

lemma last_addr_append [simp]: "last_addr p a (xs @ ys) = last_addr (last_addr p a xs) (a + tot xs) ys"
  by (induction p a xs rule: last_addr.induct) (auto simp: add.assoc)

lemma chain_append:
  "chain h p a nx (xs @ ys) \<longleftrightarrow>
     chain h p a (if ys = [] then nx else a + tot xs) xs \<and> chain h (last_addr p a xs) (a + tot xs) nx ys"
  by (induction h p a nx xs rule: chain.induct) (auto simp: add.assoc)

text \<open>A chain only depends on the headers in its range.\<close>

lemma chain_frame:
  assumes "chain h p a nx bs" "\<And>x. a \<le> x \<Longrightarrow> x + STRUCT_SIZE \<le> a + tot bs \<Longrightarrow> h' x = h x"
  shows "chain h' p a nx bs"
  using assms
proof (induction h p a nx bs rule: chain.induct)
  case (2 h p a nx s f bs)
  have "chain h' a (a + s) nx bs" using 2 by auto
  moreover have "h' a = h a" using 2 by auto
  ultimately show ?case using 2 by simp
qed simp

lemma chain_sizes: "chain h p a nx bs \<Longrightarrow> b \<in> set bs \<Longrightarrow> STRUCT_SIZE \<le> fst b"
  by (induction h p a nx bs rule: chain.induct) auto

lemma STRUCT_pos [simp]: "0 < STRUCT_SIZE" "STRUCT_SIZE \<noteq> 0" "0 < STRUCT_OFFSET" "STRUCT_OFFSET < STRUCT_SIZE"
  by (simp_all add: STRUCT_SIZE_def STRUCT_OFFSET_def)

lemma chain_tot_pos: "chain h p a nx bs \<Longrightarrow> bs \<noteq> [] \<Longrightarrow> STRUCT_SIZE \<le> tot bs"
  by (cases bs) auto

lemma last_addr_snoc [simp]: "last_addr p a (xs @ [b]) = a + tot xs"
  by (cases b) simp

lemma chain_snoc:
  "chain h p a nx (xs @ [(s, f)]) \<longleftrightarrow> chain h p a (a + tot xs) xs \<and>
     h (a + tot xs) = Some \<lparr>csize = s, is_available = f, cnext = nx, cprev = last_addr p a xs\<rparr> \<and> STRUCT_SIZE \<le> s"
  by (simp add: chain_append)

text \<open>The chunk at a position, and what changing it leaves.\<close>

lemma chain_at:
  "chain h p a nx (xs @ (s, f) # ys) \<Longrightarrow>
     h (a + tot xs) = Some \<lparr>csize = s, is_available = f, cnext = (if ys = [] then nx else a + tot xs + s),
       cprev = last_addr p a xs\<rparr> \<and> STRUCT_SIZE \<le> s"
  by (simp add: chain_append)

lemma last_addr_range:
  "xs \<noteq> [] \<Longrightarrow> chain h p a nx xs \<Longrightarrow> a \<le> last_addr p a xs \<and> last_addr p a xs + STRUCT_SIZE \<le> a + tot xs"
  by (cases xs rule: rev_cases) (auto simp: chain_snoc)

lemma last_addr_0: "chain h 0 a nx xs \<Longrightarrow> 0 < a \<Longrightarrow> last_addr 0 a xs = 0 \<longleftrightarrow> xs = []"
  using last_addr_range [of xs h 0 a nx] by (cases "xs = []") auto

lemma chain_set_prev:
  assumes "chain h p a nx bs" "bs \<noteq> [] \<Longrightarrow> 0 < a"
  shows "\<exists>h'. set_prev h (if bs = [] then 0 else a) q = Some h' \<and> chain h' q a nx bs \<and> (\<forall>x. x \<noteq> a \<longrightarrow> h' x = h x)"
proof (cases bs)
  case Nil
  then show ?thesis by (simp add: set_prev_def)
next
  case (Cons b bs')
  obtain s f where b: "b = (s, f)" by (cases b)
  let ?h = "h(a \<mapsto> \<lparr>csize = s, is_available = f, cnext = (if bs' = [] then nx else a + s), cprev = q\<rparr>)"
  have a: "0 < a" using assms Cons b by auto
  have "chain ?h a (a + s) nx bs'"
    by (rule chain_frame [of h]) (use assms(1) Cons b in auto)
  then show ?thesis using assms(1) Cons b a by (intro exI [of _ ?h]) (auto simp: set_prev_def upd_def)
qed

lemma chain_set_next:
  assumes "chain h p a nx xs" "\<And>x. a \<le> x \<Longrightarrow> x + STRUCT_SIZE \<le> a + tot xs \<Longrightarrow> x \<noteq> last_addr p a xs \<Longrightarrow> h' x = h x"
    "xs \<noteq> [] \<Longrightarrow> h' (last_addr p a xs) = map_option (\<lambda>c. c\<lparr>cnext := nx'\<rparr>) (h (last_addr p a xs))"
  shows "chain h' p a nx' xs"
proof (cases xs rule: rev_cases)
  case (snoc ys b)
  obtain s f where b: "b = (s, f)" by (cases b)
  have h: "chain h p a (a + tot ys) ys" "h (a + tot ys) = Some \<lparr>csize = s, is_available = f, cnext = nx, cprev = last_addr p a ys\<rparr>"
    "STRUCT_SIZE \<le> s"
    using assms(1) snoc b by (simp_all add: chain_snoc)
  have "chain h' p a (a + tot ys) ys"
    by (rule chain_frame [OF h(1)], rule assms(2)) (use snoc b h(3) in auto)
  then show ?thesis using h assms(3) snoc b by (simp add: chain_snoc)
qed simp
text \<open>Replacing a run of chunks by another of the same extent.\<close>

lemma chain_replace:
  assumes "chain h 0 a 0 (xs @ m @ ys)" "m \<noteq> []" "m' \<noteq> []" "tot m' = tot m" "0 < a"
    and mid: "chain h' (last_addr 0 a xs) (a + tot xs) (if ys = [] then 0 else a + tot xs + tot m) m'"
    and before: "\<And>x. a \<le> x \<Longrightarrow> x + STRUCT_SIZE \<le> a + tot xs \<Longrightarrow> h' x = h x"
    and after: "\<And>x. a + tot xs + tot m < x \<Longrightarrow> x + STRUCT_SIZE \<le> a + tot xs + tot m + tot ys \<Longrightarrow> h' x = h x"
    and link: "ys \<noteq> [] \<Longrightarrow> h' (a + tot xs + tot m) =
      map_option (\<lambda>c. c\<lparr>cprev := last_addr (last_addr 0 a xs) (a + tot xs) m'\<rparr>) (h (a + tot xs + tot m))"
  shows "chain h' 0 a 0 (xs @ m' @ ys)"
proof -
  have c: "chain h 0 a (a + tot xs) xs" "chain h (last_addr (last_addr 0 a xs) (a + tot xs) m) (a + tot xs + tot m) 0 ys"
    using assms(1,2) by (simp_all add: chain_append)
  have "chain h' 0 a (a + tot xs) xs" by (rule chain_frame [OF c(1)], rule before)
  moreover have "chain h' (last_addr (last_addr 0 a xs) (a + tot xs) m') (a + tot xs + tot m) 0 ys"
  proof (cases ys)
    case (Cons b bs)
    obtain s f where b: "b = (s, f)" by (cases b)
    have "0 < s" using c(2) Cons b less_le_trans [OF STRUCT_pos(1)] by auto
    have "chain h' (a + tot xs + tot m) (a + tot xs + tot m + s) 0 bs"
    proof (rule chain_frame [of h])
      show "h' x = h x" if "a + tot xs + tot m + s \<le> x" "x + STRUCT_SIZE \<le> a + tot xs + tot m + s + tot bs" for x
        by (rule after) (use that \<open>0 < s\<close> Cons b in auto)
    qed (use c(2) Cons b in simp)
    then show ?thesis using c(2) Cons b link by simp
  qed simp
  ultimately show ?thesis using mid assms(2-4) by (cases "ys = []") (simp_all add: chain_append)
qed

lemma chain_range: "chain h p a nx bs \<Longrightarrow> b \<in> set bs \<Longrightarrow> fst b \<le> tot bs"
  by (metis split_list add_leD1 add_leD2 le_refl tot_simps(2,3))

text \<open>The common step of both loops of \<open>mergeChunks\<close>: a chunk swallows the next one.\<close>

lemma chain_join:
  assumes ch: "chain h 0 a 0 (xs @ (s, f) # (s', f') # ys)" and a: "0 < a"
    and small: "a + tot (xs @ (s, f) # (s', f') # ys) < 2 ^ 64"
  defines "c \<equiv> a + tot xs" and "n \<equiv> a + tot xs + s" and "nn \<equiv> (if ys = [] then 0 else a + tot xs + s + s')"
  shows "\<exists>h1 h2. upd h c (\<lambda>c. c\<lparr>csize := (csize c + s') mod 2 ^ 64, cnext := nn\<rparr>) = Some h1 \<and>
    set_prev h1 nn c = Some h2 \<and> chain h2 0 a 0 (xs @ (s + s', f) # ys) \<and> h2 n = h n"
proof -
  have hc: "h c = Some \<lparr>csize = s, is_available = f, cnext = n, cprev = last_addr 0 a xs\<rparr>" and s: "STRUCT_SIZE \<le> s"
    using chain_at [OF ch] by (simp_all add: c_def n_def)
  have hn: "h n = Some \<lparr>csize = s', is_available = f', cnext = nn, cprev = c\<rparr>" and s': "STRUCT_SIZE \<le> s'"
    using chain_at [of h 0 a 0 "xs @ [(s, f)]" s' f' ys] ch by (simp_all add: c_def n_def nn_def add.assoc)
  have p: "0 < s" "0 < s'" using s s' less_le_trans [OF STRUCT_pos(1)] by blast+
  have "s + s' < 2 ^ 64" using small by simp
  then have m: "(s + s') mod 2 ^ 64 = s + s'" by (rule mod_less)
  define h1 where "h1 = h(c \<mapsto> \<lparr>csize = s + s', is_available = f, cnext = nn, cprev = last_addr 0 a xs\<rparr>)"
  have u: "upd h c (\<lambda>c. c\<lparr>csize := (csize c + s') mod 2 ^ 64, cnext := nn\<rparr>) = Some h1"
    using m by (simp add: upd_def hc h1_def del: One_nat_def)
  obtain h2 where h2: "set_prev h1 nn c = Some h2" "\<And>x. x \<noteq> nn \<Longrightarrow> h2 x = h1 x"
    "ys \<noteq> [] \<Longrightarrow> h2 nn = map_option (\<lambda>d. d\<lparr>cprev := c\<rparr>) (h nn)"
  proof (cases ys)
    case Nil
    then show thesis using that [of h1] by (simp add: set_prev_def nn_def)
  next
    case (Cons b bs)
    have "nn \<noteq> 0" "nn \<noteq> c" using a Cons p by (auto simp: nn_def c_def)
    moreover have "h nn \<noteq> None"
      using chain_at [of h 0 a 0 "xs @ [(s, f), (s', f')]" "fst b" "snd b" bs] ch Cons by (simp add: nn_def add.assoc)
    ultimately show thesis using that [of "h1(nn := map_option (\<lambda>d. d\<lparr>cprev := c\<rparr>) (h nn))"]
      by (auto simp: set_prev_def upd_def h1_def)
  qed
  have nnc: "nn \<noteq> c" "nn \<noteq> n" "c \<noteq> n" "c < n" "n < nn \<or> nn = 0" using a p by (auto simp: nn_def c_def n_def)
  have b: "\<And>x. a \<le> x \<Longrightarrow> x + STRUCT_SIZE \<le> c \<Longrightarrow> h2 x = h x"
    using h2(2) nnc a STRUCT_pos by (auto simp: h1_def)
  have af: "\<And>x. c + (s + s') < x \<Longrightarrow> h2 x = h x"
    using h2(2) s a by (auto simp: h1_def nn_def c_def)
  have "chain h2 0 a 0 (xs @ [(s + s', f)] @ ys)"
  proof (rule chain_replace [where m = "[(s, f), (s', f')]" and h = h])
    show "chain h2 (last_addr 0 a xs) (a + tot xs) (if ys = [] then 0 else a + tot xs + tot [(s, f), (s', f')]) [(s + s', f)]"
      using h2(2) [of c] nnc s by (simp add: h1_def nn_def c_def add.assoc)
    show "\<And>x. a \<le> x \<Longrightarrow> x + STRUCT_SIZE \<le> a + tot xs \<Longrightarrow> h2 x = h x" using b by (simp add: c_def)
    show "\<And>x. a + tot xs + tot [(s, f), (s', f')] < x \<Longrightarrow> h2 x = h x" using af by (simp add: c_def)
    show "ys \<noteq> [] \<Longrightarrow> h2 (a + tot xs + tot [(s, f), (s', f')]) =
      map_option (\<lambda>d. d\<lparr>cprev := last_addr (last_addr 0 a xs) (a + tot xs) [(s + s', f)]\<rparr>)
        (h (a + tot xs + tot [(s, f), (s', f')]))"
      using h2(3) by (simp add: nn_def c_def add.assoc)
  qed (use ch a in simp_all)
  moreover have "h2 n = h n" using h2(2) [of n] nnc by (auto simp: h1_def)
  ultimately show ?thesis using u h2(1) by auto
qed
subsection \<open>The loops on a chain\<close>

text \<open>The free chunks at the end of a list, and what is before them.\<close>

definition free_tail :: "blocks \<Rightarrow> blocks" where "free_tail xs = rev (takeWhile snd (rev xs))"
definition used_head :: "blocks \<Rightarrow> blocks" where "used_head xs = rev (dropWhile snd (rev xs))"

lemma used_free [simp]: "used_head xs @ free_tail xs = xs"
  by (metis free_tail_def used_head_def rev_append rev_rev_ident takeWhile_dropWhile_id)

lemma free_tail_snoc [simp]: "free_tail (xs @ [b]) = (if snd b then free_tail xs @ [b] else [])"
  "used_head (xs @ [b]) = (if snd b then used_head xs else xs @ [b])" "free_tail [] = []" "used_head [] = []"
  by (simp_all add: free_tail_def used_head_def)

lemma tot_split: "tot (used_head xs) + tot (free_tail xs) = tot xs"
  by (metis used_free tot_simps(3))

lemma merge_prev_chain:
  assumes "chain h 0 a 0 (xs @ (s, True) # ys)" "0 < a" "a + tot (xs @ (s, True) # ys) < 2 ^ 64"
  shows "\<exists>h'. merge_prev h (a + tot xs) (last_addr 0 a xs) = Some (h', a + tot (used_head xs)) \<and>
    chain h' 0 a 0 (used_head xs @ (tot (free_tail xs) + s, True) # ys)"
  using assms
proof (induction xs arbitrary: h s rule: rev_induct)
  case Nil
  then show ?case by (subst merge_prev.simps) simp
next
  case (snoc b xs)
  obtain r f where b: "b = (r, f)" by (cases b)
  have ch: "chain h 0 a 0 (xs @ (r, f) # (s, True) # ys)" using snoc.prems(1) b by simp
  have hp: "h (a + tot xs) = Some \<lparr>csize = r, is_available = f, cnext = a + tot xs + r, cprev = last_addr 0 a xs\<rparr>"
    using chain_at [OF ch] by simp
  show ?case
  proof (cases f)
    case False
    then show ?thesis using snoc.prems b hp by (subst merge_prev.simps) (simp add: add.assoc)
  next
    case True
    have hc: "h (a + tot xs + r) = Some \<lparr>csize = s, is_available = True,
        cnext = (if ys = [] then 0 else a + tot xs + r + s), cprev = a + tot xs\<rparr>"
      using chain_at [of h 0 a 0 "xs @ [b]" s True ys] snoc.prems(1) b by (simp add: add.assoc)
    obtain h1 h2 where h:
      "upd h (a + tot xs) (\<lambda>c. c\<lparr>csize := (csize c + s) mod 2 ^ 64,
        cnext := if ys = [] then 0 else a + tot xs + r + s\<rparr>) = Some h1"
      "set_prev h1 (if ys = [] then 0 else a + tot xs + r + s) (a + tot xs) = Some h2"
      "chain h2 0 a 0 (xs @ (r + s, True) # ys)"
      using chain_join [OF ch snoc.prems(2)] snoc.prems(3) b True by auto
    have p: "h2 (a + tot xs) \<noteq> None" "\<And>c. h2 (a + tot xs) = Some c \<Longrightarrow> cprev c = last_addr 0 a xs"
      using chain_at [OF h(3)] by auto
    obtain h' where h': "merge_prev h2 (a + tot xs) (last_addr 0 a xs) = Some (h', a + tot (used_head xs))"
      "chain h' 0 a 0 (used_head xs @ (tot (free_tail xs) + (r + s), True) # ys)"
      using snoc.IH [OF h(3) snoc.prems(2)] snoc.prems(3) b by (auto simp: add.assoc)
    have "merge_prev h (a + tot xs + r) (a + tot xs) = merge_prev h2 (a + tot xs) (last_addr 0 a xs)"
      using hp hc h(1,2) p True snoc.prems(2)
      by (subst merge_prev.simps) (auto simp del: One_nat_def simp: add.commute split: bind_splits)
    then show ?thesis using h' b True by (simp add: add.assoc add.left_commute)
  qed
qed

lemma merge_next_chain:
  assumes "chain h 0 a 0 (xs @ (s, f) # ys)" "0 < a" "a + tot (xs @ (s, f) # ys) < 2 ^ 64"
  shows "\<exists>h'. merge_next h (a + tot xs) (if ys = [] then 0 else a + tot xs + s) = Some h' \<and>
    chain h' 0 a 0 (xs @ (s + tot (takeWhile snd ys), f) # dropWhile snd ys)"
  using assms
proof (induction ys arbitrary: h s)
  case Nil
  then show ?case by (subst merge_next.simps) simp
next
  case (Cons b ys)
  obtain r g where b: "b = (r, g)" by (cases b)
  have ch: "chain h 0 a 0 (xs @ (s, f) # (r, g) # ys)" using Cons.prems(1) b by simp
  have s: "0 < s" using chain_at [OF ch] less_le_trans [OF STRUCT_pos(1)] by blast
  have hn: "h (a + tot xs + s) = Some \<lparr>csize = r, is_available = g,
      cnext = (if ys = [] then 0 else a + tot xs + s + r), cprev = a + tot xs\<rparr>"
    using chain_at [of h 0 a 0 "xs @ [(s, f)]" r g ys] ch by (simp add: add.assoc)
  show ?case
  proof (cases g)
    case False
    then show ?thesis using Cons.prems b hn by (subst merge_next.simps) simp
  next
    case True
    obtain h1 h2 where h:
      "upd h (a + tot xs) (\<lambda>c. c\<lparr>csize := (csize c + r) mod 2 ^ 64,
        cnext := if ys = [] then 0 else a + tot xs + s + r\<rparr>) = Some h1"
      "set_prev h1 (if ys = [] then 0 else a + tot xs + s + r) (a + tot xs) = Some h2"
      "chain h2 0 a 0 (xs @ (s + r, f) # ys)" "h2 (a + tot xs + s) = h (a + tot xs + s)"
      using chain_join [OF ch Cons.prems(2)] Cons.prems(3) b by auto
    obtain h' where h': "merge_next h2 (a + tot xs) (if ys = [] then 0 else a + tot xs + s + r) = Some h'"
      "chain h' 0 a 0 (xs @ (s + r + tot (takeWhile snd ys), f) # dropWhile snd ys)"
      using Cons.IH [OF h(3) Cons.prems(2)] Cons.prems(3) b by (auto simp: add.assoc simp del: One_nat_def cong: if_cong)
    have "merge_next h (a + tot xs) (a + tot xs + s) =
      merge_next h2 (a + tot xs) (if ys = [] then 0 else a + tot xs + s + r)"
      using hn h(1,2,4) True s Cons.prems(2)
      by (subst merge_next.simps) (auto simp del: One_nat_def split: bind_splits)
    then show ?thesis using h' b True by (simp add: add.assoc)
  qed
qed

text \<open>What \<open>mergeChunks\<close> leaves: the free neighbours on both sides and the chunk in one.\<close>

definition coalesce :: "blocks \<Rightarrow> nat \<Rightarrow> blocks \<Rightarrow> blocks" where
  "coalesce xs s ys =
     used_head xs @ (tot (free_tail xs) + s + tot (takeWhile snd ys), True) # dropWhile snd ys"

lemma mergeChunks_chain:
  assumes "chain h 0 a 0 (xs @ (s, True) # ys)" "0 < a" "a + tot (xs @ (s, True) # ys) < 2 ^ 64"
  shows "\<exists>h'. mergeChunks h (a + tot xs) = Some h' \<and> chain h' 0 a 0 (coalesce xs s ys)"
proof -
  obtain h1 where h1: "merge_prev h (a + tot xs) (last_addr 0 a xs) = Some (h1, a + tot (used_head xs))"
    "chain h1 0 a 0 (used_head xs @ (tot (free_tail xs) + s, True) # ys)"
    using merge_prev_chain [OF assms] by blast
  have sm: "a + tot (used_head xs @ (tot (free_tail xs) + s, True) # ys) < 2 ^ 64"
    using assms(3) tot_split [of xs] by simp
  obtain h2 where "merge_next h1 (a + tot (used_head xs))
      (if ys = [] then 0 else a + tot (used_head xs) + (tot (free_tail xs) + s)) = Some h2"
    "chain h2 0 a 0 (coalesce xs s ys)"
    using merge_next_chain [OF h1(2) assms(2) sm] by (auto simp: coalesce_def)
  then show ?thesis using chain_at [OF assms(1)] chain_at [OF h1(2)] h1(1) by (simp add: mergeChunks_def)
qed

lemma findChunk_chain:
  assumes "chain h p a 0 bs" "0 < a"
  shows "findChunk h (if bs = [] then 0 else a) n l =
    Some (if \<exists>b \<in> set bs. snd b \<and> n \<le> fst b then a + tot (takeWhile (\<lambda>b. \<not> (snd b \<and> n \<le> fst b)) bs) else 0,
      last_addr l a (takeWhile (\<lambda>b. \<not> (snd b \<and> n \<le> fst b)) bs))"
  using assms
proof (induction bs arbitrary: p a l)
  case Nil
  then show ?case by (subst findChunk.simps) simp
next
  case (Cons b bs)
  obtain s f where b: "b = (s, f)" by (cases b)
  have "0 < a + s" using Cons.prems(2) by simp
  then show ?case using Cons.IH [of a "a + s" a] Cons.prems b
    by (subst findChunk.simps) (auto simp: add.assoc)
qed

text \<open>What \<open>splitChunk\<close> leaves of a chunk.\<close>

definition cut :: "nat \<Rightarrow> nat \<times> bool \<Rightarrow> blocks" where
  "cut n b = (if fst b < n \<or> fst b - n < ALIGN_SIZE + STRUCT_SIZE then [b] else [(n, False), (fst b - n, True)])"

lemma splitChunk_chain:
  assumes ch: "chain h 0 a 0 (xs @ (s, f) # ys)" and a: "0 < a" and n: "STRUCT_SIZE \<le> n"
    and lim: "a + tot (xs @ (s, f) # ys) \<le> lim"
  shows "\<exists>h'. splitChunk lim h (a + tot xs) n = Some h' \<and> chain h' 0 a 0 (xs @ cut n (s, f) @ ys)"
proof (cases "s < n \<or> s - n < ALIGN_SIZE + STRUCT_SIZE")
  case True
  then show ?thesis using ch chain_at [OF ch] by (auto simp: splitChunk_def cut_def)
next
  case False
  define c where "c = a + tot xs"
  define nn where "nn = (if ys = [] then 0 else c + s)"
  have hc: "h c = Some \<lparr>csize = s, is_available = f, cnext = nn, cprev = last_addr 0 a xs\<rparr>"
    using chain_at [OF ch] by (simp add: c_def nn_def)
  have p: "0 < n" "n + STRUCT_SIZE \<le> s" "0 < c" using False n a less_le_trans [OF STRUCT_pos(1) n] by (auto simp: c_def)
  have so: "STRUCT_OFFSET < STRUCT_SIZE" "0 < STRUCT_SIZE" by simp_all
  let ?new = "\<lparr>csize = s - n, is_available = True, cnext = nn, cprev = c\<rparr>"
  define h1 where "h1 = (wipe h (c + n) STRUCT_OFFSET)(c + n \<mapsto> ?new)"
  have put: "put lim h (c + n) ?new = Some h1"
    using p lim add_le_mono [OF order_refl less_imp_le [OF so(1)], of "c + n"] by (auto simp: put_def h1_def c_def)
  have h1: "h1 x = h x" if "x + STRUCT_SIZE \<le> c + n \<or> c + s \<le> x" for x
    using that p n unfolding h1_def wipe_def STRUCT_SIZE_def STRUCT_OFFSET_def by auto
  obtain h2 where h2: "set_prev h1 nn (c + n) = Some h2" "\<And>x. x \<noteq> nn \<Longrightarrow> h2 x = h1 x"
    "ys \<noteq> [] \<Longrightarrow> h2 nn = map_option (\<lambda>d. d\<lparr>cprev := c + n\<rparr>) (h nn)"
  proof (cases ys)
    case Nil
    then show thesis using that [of h1] by (simp add: set_prev_def nn_def)
  next
    case (Cons b bs)
    have "h1 nn = h nn" using Cons by (intro h1) (simp add: nn_def)
    moreover have "h nn \<noteq> None"
      using chain_at [of h 0 a 0 "xs @ [(s, f)]" "fst b" "snd b" bs] ch Cons by (simp add: nn_def c_def add.assoc)
    ultimately show thesis using that [of "h1(nn := map_option (\<lambda>d. d\<lparr>cprev := c + n\<rparr>) (h nn))"] Cons p
      by (auto simp: set_prev_def upd_def nn_def)
  qed
  have nn: "nn \<noteq> c" "nn \<noteq> c + n" "nn = 0 \<or> c + s = nn" using p so by (auto simp: nn_def)
  have h2c: "h2 c = h c" using h2(2) [of c] nn h1 [of c] n by simp
  define h3 where "h3 = h2(c \<mapsto> \<lparr>csize = n, is_available = False, cnext = c + n, cprev = last_addr 0 a xs\<rparr>)"
  have u: "upd h2 c (\<lambda>d. d\<lparr>csize := n, is_available := False, cnext := c + n\<rparr>) = Some h3"
    by (simp add: upd_def h2c hc h3_def)
  have run: "splitChunk lim h c n = Some h3"
    using False hc put h2(1) u by (simp add: splitChunk_def)
  have "chain h3 0 a 0 (xs @ [(n, False), (s - n, True)] @ ys)"
  proof (rule chain_replace [where m = "[(s, f)]" and h = h])
    have "h3 (c + n) = Some ?new" using h2(2) [of "c + n"] nn p by (simp add: h3_def h1_def)
    then show "chain h3 (last_addr 0 a xs) (a + tot xs) (if ys = [] then 0 else a + tot xs + tot [(s, f)])
        [(n, False), (s - n, True)]"
      using p n by (simp add: h3_def c_def [symmetric] nn_def)
    show "h3 x = h x" if "a \<le> x" "x + STRUCT_SIZE \<le> a + tot xs" for x
      using that h2(2) [of x] h1 [of x] nn p so a by (auto simp: h3_def c_def)
    show "h3 x = h x" if "a + tot xs + tot [(s, f)] < x" for x
      using that h2(2) [of x] h1 [of x] nn p so a by (auto simp: h3_def c_def)
    show "ys \<noteq> [] \<Longrightarrow> h3 (a + tot xs + tot [(s, f)]) = map_option
        (\<lambda>d. d\<lparr>cprev := last_addr (last_addr 0 a xs) (a + tot xs) [(n, False), (s - n, True)]\<rparr>)
        (h (a + tot xs + tot [(s, f)]))"
      using h2(3) p so by (auto simp: h3_def nn_def c_def)
  qed (use ch a p in simp_all)
  then show ?thesis using run False by (auto simp: cut_def c_def)
qed
subsection \<open>The invariant of the arena\<close>

text \<open>
  What the manual page of \<open>brk(2)\<close> says of the kernel: asked for 0 it answers the break,
  and otherwise it moves the break to where it was asked to (a user space address), leaves it and
  answers where it is, or fails.
\<close>

definition kernel_ok :: "(nat \<Rightarrow> nat \<Rightarrow> nat) \<Rightarrow> bool" where
  "kernel_ok K \<longleftrightarrow> (\<forall>cur. K cur 0 = cur) \<and>
     (\<forall>cur req. K cur req = req \<and> req < 2 ^ 47 \<or> K cur req = cur \<or> K cur req = FAILED)"

text \<open>
  \<open>arena_ok st bs\<close>: the chunks from \<open>memHead\<close> on are \<open>bs\<close>, they fill the arena
  up to \<open>endBreakPoint\<close>, and that is the kernel's break. Before the first call there is no
  arena. This is what \<open>mem_validate\<close> of the debug build checks, and the backward links.
\<close>

definition arena_ok :: "arena \<Rightarrow> blocks \<Rightarrow> bool" where
  "arena_ok st bs \<longleftrightarrow> kernel_ok (kernel st) \<and> 0 < brk st \<and> brk st < 2 ^ 47 \<and>
     (if bs = [] then memHead st = 0
      else 0 < memHead st \<and> chain (chunks st) 0 (memHead st) 0 bs \<and>
        endBreakPoint st = memHead st + tot bs \<and> brk st = endBreakPoint st)"

lemma arena_okD:
  assumes "arena_ok st bs" "bs \<noteq> []"
  shows "chain (chunks st) 0 (memHead st) 0 bs" "0 < memHead st" "endBreakPoint st = memHead st + tot bs"
    "brk st = memHead st + tot bs" "memHead st + tot bs < 2 ^ 47"
  using assms by (auto simp: arena_ok_def)

lemma arena_ok_heap:
  "arena_ok st bs \<Longrightarrow> bs \<noteq> [] \<Longrightarrow> bs' \<noteq> [] \<Longrightarrow> tot bs' = tot bs \<Longrightarrow> chain h 0 (memHead st) 0 bs' \<Longrightarrow>
     arena_ok (st\<lparr>chunks := h\<rparr>) bs'"
  by (simp add: arena_ok_def)

lemma sbrk_0: "arena_ok st bs \<Longrightarrow> sys_sbrk st 0 = (st, brk st)"
  by (simp add: Let_def sys_sbrk_def sys_brk_def arena_ok_def kernel_ok_def)

lemma sbrk_ask:
  assumes "arena_ok st bs" "0 < n" "n < 2 ^ 33"
  shows "sys_sbrk st n = sys_brk st (brk st + n)"
proof -
  have "brk st + n < 2 ^ 64" using assms by (simp add: arena_ok_def)
  then show ?thesis using assms sbrk_0 [OF assms(1)] by (simp add: sys_sbrk_def sys_brk_def arena_ok_def kernel_ok_def)
qed

text \<open>Changes inside one chunk: its flag, and its payload.\<close>

lemma chain_flag:
  assumes "chain h 0 a 0 (xs @ (s, f) # ys)" "0 < a"
  shows "\<exists>h'. upd h (a + tot xs) (\<lambda>c. c\<lparr>is_available := g\<rparr>) = Some h' \<and> chain h' 0 a 0 (xs @ (s, g) # ys)"
proof -
  let ?c = "\<lparr>csize = s, is_available = g, cnext = (if ys = [] then 0 else a + tot xs + s), cprev = last_addr 0 a xs\<rparr>"
  have c: "STRUCT_SIZE \<le> s" "0 < s" using chain_at [OF assms(1)] less_le_trans [OF STRUCT_pos(1)] by auto
  have "chain (h(a + tot xs \<mapsto> ?c)) 0 a 0 (xs @ [(s, g)] @ ys)"
  proof (rule chain_replace [where m = "[(s, f)]" and h = h])
    show "ys \<noteq> [] \<Longrightarrow> (h(a + tot xs \<mapsto> ?c)) (a + tot xs + tot [(s, f)]) =
      map_option (\<lambda>d. d\<lparr>cprev := last_addr (last_addr 0 a xs) (a + tot xs) [(s, g)]\<rparr>) (h (a + tot xs + tot [(s, f)]))"
      using chain_at [of h 0 a 0 "xs @ [(s, f)]" "fst (hd ys)" "snd (hd ys)" "tl ys"] assms(1) c
      by (simp add: add.assoc)
    show "(h(a + tot xs \<mapsto> ?c)) x = h x" if "x + STRUCT_SIZE \<le> a + tot xs" for x
      using that STRUCT_pos(1) by (simp del: STRUCT_pos)
  qed (use assms c in auto)
  then show ?thesis using chain_at [OF assms(1)] by (auto simp: upd_def)
qed

lemma chain_wipe:
  assumes "chain h 0 a 0 (xs @ (s, f) # ys)" "0 < a" "a + tot xs + STRUCT_OFFSET \<le> q" "q + n \<le> a + tot xs + s"
  shows "chain (wipe h q n) 0 a 0 (xs @ (s, f) # ys)"
proof -
  have c: "STRUCT_SIZE \<le> s" using chain_at [OF assms(1)] by auto
  note num = STRUCT_SIZE_def STRUCT_OFFSET_def
  have same: "wipe h q n x = h x" if "x \<le> a + tot xs \<or> a + tot xs + s \<le> x" for x
    using that assms(3,4) by (auto simp: wipe_def num)
  have "chain (wipe h q n) 0 a 0 (xs @ [(s, f)] @ ys)"
  proof (rule chain_replace [where m = "[(s, f)]" and h = h])
    show "ys \<noteq> [] \<Longrightarrow> wipe h q n (a + tot xs + tot [(s, f)]) =
      map_option (\<lambda>d. d\<lparr>cprev := last_addr (last_addr 0 a xs) (a + tot xs) [(s, f)]\<rparr>) (h (a + tot xs + tot [(s, f)]))"
      using chain_at [of h 0 a 0 "xs @ [(s, f)]" "fst (hd ys)" "snd (hd ys)" "tl ys"] assms(1) same
      by (simp add: add.assoc)
  qed (use assms c chain_at [OF assms(1)] in \<open>auto simp: same\<close>)
  then show ?thesis by simp
qed

subsection \<open>Refinement\<close>

text \<open>First fit with splitting, on the list of chunks: the new list and the offset of the block's chunk.\<close>

definition place :: "nat \<Rightarrow> blocks \<Rightarrow> blocks \<times> nat" where
  "place sz bs =
     (let bad = (\<lambda>b. \<not> (snd b \<and> sz \<le> fst b)); ys = takeWhile bad bs in
      case dropWhile bad bs of [] \<Rightarrow> (bs @ [(sz, False)], tot bs)
      | b # zs \<Rightarrow> (ys @ cut sz (fst b, False) @ zs, tot ys))"

definition fits :: "nat \<Rightarrow> blocks \<Rightarrow> bool" where
  "fits sz bs \<longleftrightarrow> (\<exists>b \<in> set bs. snd b \<and> sz \<le> fst b)"

lemma fold_zero: "fold (\<lambda>i b. b(p + i := 0)) [0..<n] m = (\<lambda>x. if p \<le> x \<and> x < p + n then 0 else m x)"
  by (induction n) (auto simp: fun_eq_iff)

lemma ALIGN_bounds:
  assumes "n < 2 ^ 32"
  shows "n \<le> ALIGN n" "ALIGN n < n + 8"
proof -
  have "n + 7 < 2 ^ 64" using assms by simp
  then show "n \<le> ALIGN n" "ALIGN n < n + 8" by (simp_all add: ALIGN_def ALIGN_SIZE_def)
qed

definition max_request :: nat where "max_request = 2 ^ 32 - 48"

lemma request_size:
  assumes "n \<le> max_request"
  defines "sz \<equiv> need n"
  shows "n + STRUCT_SIZE \<le> sz" "sz < 2 ^ 32" "sz mod 2 ^ 32 = sz" "usub sz STRUCT_SIZE = sz - STRUCT_SIZE"
proof -
  have m: "n + STRUCT_SIZE < 2 ^ 32 - 7" using assms(1) by (simp add: max_request_def STRUCT_SIZE_def)
  then have "(n + STRUCT_SIZE) mod 2 ^ 64 = n + STRUCT_SIZE" by (intro mod_less) simp
  then show s: "n + STRUCT_SIZE \<le> sz" "sz < 2 ^ 32" using ALIGN_bounds [of "n + STRUCT_SIZE"] m by (auto simp: sz_def need_def)
  then show "sz mod 2 ^ 32 = sz" by (intro mod_less)
  have "sz + 2 ^ 64 - STRUCT_SIZE = (sz - STRUCT_SIZE) + 2 ^ 64" using s by simp
  moreover have "(sz - STRUCT_SIZE) mod 2 ^ 64 = sz - STRUCT_SIZE" using s by (intro mod_less) simp
  ultimately show "usub sz STRUCT_SIZE = sz - STRUCT_SIZE" unfolding usub_def by (simp only: mod_add_self2)
qed

lemma cut_tot [simp]: "n \<le> fst b \<Longrightarrow> tot (cut n b) = fst b" "cut n b \<noteq> []"
  by (auto simp: cut_def)

text \<open>The head of a cut chunk has room for the payload, and the zeroing stays in it.\<close>

lemma cut_head: "n \<le> s \<Longrightarrow> \<exists>r zs. cut n (s, False) = (r, False) # zs \<and> n \<le> r"
  by (auto simp: cut_def)

definition zeroed :: "arena \<Rightarrow> arena \<Rightarrow> nat \<Rightarrow> nat \<Rightarrow> bool" where
  "zeroed st st' p n \<longleftrightarrow> (\<forall>x. bytes st' x = (if p \<le> x \<and> x < p + n then 0 else bytes st x))"

lemma mem_zero_ok:
  assumes "arena_ok st (xs @ (s, f) # ys)" "n + STRUCT_OFFSET \<le> s"
  defines "p \<equiv> memHead st + tot xs + STRUCT_OFFSET"
  shows "\<exists>st'. mem_zero st p n = Some st' \<and> arena_ok st' (xs @ (s, f) # ys) \<and> zeroed st st' p n \<and>
    memHead st' = memHead st \<and> kernel st' = kernel st"
proof -
  note ok = arena_okD [OF assms(1)]
  have "p + n \<le> brk st" using ok(4) assms(2) by (simp add: p_def)
  moreover have "chain (wipe (chunks st) p n) 0 (memHead st) 0 (xs @ (s, f) # ys)"
    using ok assms(2) by (intro chain_wipe) (simp_all add: p_def)
  ultimately show ?thesis
    using assms(1) by (auto simp: mem_zero_def fold_zero zeroed_def arena_ok_def)
qed
text \<open>The answer of the kernel to a request of \<open>n\<close> more bytes.\<close>

abbreviation answer :: "arena \<Rightarrow> nat \<Rightarrow> nat" where
  "answer st n \<equiv> kernel st (brk st) (brk st + n)"

lemma answer_cases:
  assumes "arena_ok st bs"
  obtains "answer st n = FAILED" | "answer st n = brk st" | "answer st n = brk st + n" "brk st + n < 2 ^ 47"
  using assms unfolding arena_ok_def kernel_ok_def by blast

lemma below_FAILED: "x < 2 ^ 47 \<Longrightarrow> x \<noteq> FAILED"
  by (simp add: FAILED_def)

lemma sbrk_granted:
  assumes "arena_ok st bs" "0 < n" "n < 2 ^ 33" "answer st n = brk st + n"
  shows "sys_sbrk st n = (st\<lparr>brk := brk st + n\<rparr>, brk st + n)" "brk st + n < 2 ^ 47"
proof -
  have "brk st + n \<noteq> FAILED" "brk st + n < 2 ^ 47"
    using assms below_FAILED [of "brk st"] answer_cases [OF assms(1), of n] by (auto simp: FAILED_def arena_ok_def)
  then show "sys_sbrk st n = (st\<lparr>brk := brk st + n\<rparr>, brk st + n)" "brk st + n < 2 ^ 47"
    using sbrk_ask [OF assms(1-3)] assms(4) by (simp_all add: sys_brk_def Let_def)
qed

lemma increaseAllocation_ok:
  assumes "arena_ok st bs" "bs \<noteq> []" "STRUCT_SIZE \<le> n" "n < 2 ^ 33" "answer st n = brk st + n"
  shows "\<exists>st'. increaseAllocation st (last_addr 0 (memHead st) bs) n = Some (st', memHead st + tot bs) \<and>
    arena_ok st' (bs @ [(n, False)]) \<and> bytes st' = bytes st \<and> memHead st' = memHead st \<and> kernel st' = kernel st"
proof -
  define e where "e = memHead st + tot bs"
  note ok = arena_okD [OF assms(1,2)]
  have n: "0 < n" using assms(3) less_le_trans [OF STRUCT_pos(1)] by blast
  note g = sbrk_granted [OF assms(1) n assms(4,5)]
  obtain xs s f where bs: "bs = xs @ [(s, f)]" using assms(2) by (cases bs rule: rev_cases) auto
  define l where "l = last_addr 0 (memHead st) bs"
  have l: "l = memHead st + tot xs" by (simp add: l_def bs)
  have at: "chunks st l = Some \<lparr>csize = s, is_available = f, cnext = 0, cprev = last_addr 0 (memHead st) xs\<rparr>"
    "STRUCT_SIZE \<le> s" "chain (chunks st) 0 (memHead st) l xs"
    using ok(1) by (simp_all add: bs chain_snoc l)
  have le: "l + STRUCT_SIZE \<le> e" using at(2) by (simp add: l e_def bs)
  define h where "h = (wipe (chunks st) e STRUCT_OFFSET)(e \<mapsto> \<lparr>csize = n, is_available = False, cnext = 0, cprev = l\<rparr>)"
  have h: "h x = chunks st x" if "x + STRUCT_SIZE \<le> e" for x
    using that by (auto simp: h_def wipe_def STRUCT_SIZE_def STRUCT_OFFSET_def)
  have put: "put (brk st + n) (chunks st) e \<lparr>csize = n, is_available = False, cnext = 0, cprev = l\<rparr> = Some h"
    using ok assms(3) by (auto simp: put_def h_def e_def STRUCT_SIZE_def STRUCT_OFFSET_def)
  define h' where "h' = h(l \<mapsto> \<lparr>csize = s, is_available = f, cnext = e, cprev = last_addr 0 (memHead st) xs\<rparr>)"
  have upd: "upd h l (\<lambda>c. c\<lparr>cnext := e\<rparr>) = Some h'"
    using h [OF le] at by (simp add: upd_def h'_def)
  have "chain h' 0 (memHead st) l xs"
    by (rule chain_frame [OF at(3)]) (use le h l bs in \<open>auto simp: h'_def STRUCT_SIZE_def\<close>)
  moreover have "h' e = Some \<lparr>csize = n, is_available = False, cnext = 0, cprev = l\<rparr>"
    using le STRUCT_pos(1) by (auto simp: h'_def h_def simp del: STRUCT_pos)
  ultimately have ch: "chain h' 0 (memHead st) 0 (bs @ [(n, False)])"
    using at(2) l assms(3) by (simp add: bs chain_append e_def add.assoc h'_def)
  define st1 where "st1 = st\<lparr>brk := brk st + n, chunks := h'\<rparr>"
  define st' where "st' = st1\<lparr>endBreakPoint := brk st + n\<rparr>"
  have st': "arena_ok st' (bs @ [(n, False)])"
    using assms(1,2) ch g(2) ok by (simp add: arena_ok_def st'_def st1_def)
  have "sys_sbrk st1 0 = (st1, brk st + n)"
    using assms(1) below_FAILED [OF g(2)]
    by (simp add: Let_def sys_sbrk_def sys_brk_def arena_ok_def kernel_ok_def st1_def)
  then have "increaseAllocation st l n = Some (st', e)"
    using g below_FAILED [OF g(2)] put upd ok by (simp add: increaseAllocation_def Let_def st'_def st1_def e_def)
  then show ?thesis using st' by (auto simp: l_def e_def st'_def st1_def)
qed

lemma takeWhile_found:
  assumes "\<exists>b \<in> set bs. \<not> P b"
  obtains b zs where "bs = takeWhile P bs @ b # zs" "dropWhile P bs = b # zs" "\<not> P b"
proof -
  from assms have "dropWhile P bs \<noteq> []" by (simp add: dropWhile_eq_Nil_conv)
  then obtain b zs where "dropWhile P bs = b # zs" by (cases "dropWhile P bs") auto
  then show thesis using that [of b zs] takeWhile_dropWhile_id [of P bs] hd_dropWhile [of P bs] by auto
qed

definition payload :: "nat \<Rightarrow> nat" where
  "payload n = need n - STRUCT_SIZE"

lemma malloc_found:
  assumes ok: "arena_ok st bs" and n: "n \<le> max_request" and fit: "fits (need n) bs"
  shows "\<exists>st' p bs' o'. sys_malloc st n = Some (Return (st', p)) \<and> place (need n) bs = (bs', o') \<and>
    arena_ok st' bs' \<and> p = memHead st' + o' + STRUCT_OFFSET \<and> zeroed st st' p (payload n) \<and>
    memHead st' = memHead st \<and> kernel st' = kernel st"
proof -
  define sz where "sz = need n"
  note sz = request_size [OF n, folded sz_def]
  define bad where "bad = (\<lambda>b :: nat \<times> bool. \<not> (snd b \<and> sz \<le> fst b))"
  have ne: "bs \<noteq> []" using fit by (auto simp: fits_def)
  note okD = arena_okD [OF ok ne]
  have "\<exists>b \<in> set bs. \<not> bad b" using fit by (simp add: bad_def fits_def sz_def)
  then obtain b zs where b: "bs = takeWhile bad bs @ b # zs" "dropWhile bad bs = b # zs" "\<not> bad b"
    by (rule takeWhile_found)
  define ys where "ys = takeWhile bad bs"
  obtain s where s: "b = (s, True)" "sz \<le> s" using b(3) by (cases b) (auto simp: bad_def)
  define c where "c = memHead st + tot ys"
  have bs: "bs = ys @ (s, True) # zs" using b(1) s by (simp add: ys_def)
  have find: "findChunk (chunks st) (memHead st) (sz mod 2 ^ 32) 0 = Some (c, last_addr 0 (memHead st) ys)"
    using findChunk_chain [OF okD(1,2), of sz 0] ne fit sz(3)
    by (simp add: fits_def c_def ys_def bad_def sz_def)
  obtain h1 where h1: "upd (chunks st) c (\<lambda>c. c\<lparr>is_available := False\<rparr>) = Some h1"
    "chain h1 0 (memHead st) 0 (ys @ (s, False) # zs)"
    using chain_flag [of "chunks st" "memHead st" ys s True zs False] okD(1,2) bs by (auto simp: c_def)
  obtain h2 where h2: "splitChunk (brk st) h1 c sz = Some h2" "chain h2 0 (memHead st) 0 (ys @ cut sz (s, False) @ zs)"
    using splitChunk_chain [OF h1(2) okD(2), of sz "brk st"] sz(1) okD(4) bs by (auto simp: c_def)
  have ok2: "arena_ok (st\<lparr>chunks := h2\<rparr>) (ys @ cut sz (s, False) @ zs)"
    by (rule arena_ok_heap [OF ok]) (use h2(2) s bs in auto)
  obtain r xs where cut: "cut sz (s, False) = (r, False) # xs" "sz \<le> r" using cut_head [OF s(2)] by blast
  have room: "sz - STRUCT_SIZE + STRUCT_OFFSET \<le> r" using cut(2) sz(1) by (simp add: STRUCT_SIZE_def STRUCT_OFFSET_def)
  obtain st' where st': "mem_zero (st\<lparr>chunks := h2\<rparr>) (c + STRUCT_OFFSET) (sz - STRUCT_SIZE) = Some st'"
    "arena_ok st' (ys @ cut sz (s, False) @ zs)" "zeroed st st' (c + STRUCT_OFFSET) (sz - STRUCT_SIZE)"
    "memHead st' = memHead st" "kernel st' = kernel st"
    using mem_zero_ok [of "st\<lparr>chunks := h2\<rparr>" ys r False "xs @ zs", OF _ room] ok2 cut by (auto simp: c_def zeroed_def)
  have "c \<noteq> 0" using okD(2) by (simp add: c_def)
  then have "sys_malloc st n = Some (Return (st', c + STRUCT_OFFSET))"
    using okD(2) find h1(1) h2(1) st'(1) sz by (simp add: sys_malloc_def Let_def mem_init_def sz_def [symmetric])
  moreover have "place sz bs = (ys @ cut sz (s, False) @ zs, tot ys)"
    using b(2) s by (simp add: place_def Let_def bad_def ys_def)
  ultimately show ?thesis using st' by (auto simp: c_def payload_def sz_def)
qed

lemma malloc_grown:
  assumes ok: "arena_ok st bs" and ne: "bs \<noteq> []" and n: "n \<le> max_request"
    and unfit: "\<not> fits (need n) bs"
    and granted: "answer st (need n) = brk st + need n"
  shows "\<exists>st' p bs' o'. sys_malloc st n = Some (Return (st', p)) \<and> place (need n) bs = (bs', o') \<and>
    arena_ok st' bs' \<and> p = memHead st' + o' + STRUCT_OFFSET \<and> zeroed st st' p (payload n) \<and>
    memHead st' = memHead st \<and> kernel st' = kernel st"
proof -
  define sz where "sz = need n"
  note sz = request_size [OF n, folded sz_def]
  note okD = arena_okD [OF ok ne]
  have all: "takeWhile (\<lambda>b. \<not> (snd b \<and> sz \<le> fst b)) bs = bs" "dropWhile (\<lambda>b. \<not> (snd b \<and> sz \<le> fst b)) bs = []"
    using unfit by (auto simp: fits_def sz_def takeWhile_eq_all_conv dropWhile_eq_Nil_conv)
  have find: "findChunk (chunks st) (memHead st) (sz mod 2 ^ 32) 0 = Some (0, last_addr 0 (memHead st) bs)"
    using findChunk_chain [OF okD(1,2), of sz 0, unfolded all] ne unfit sz(3) by (auto simp: fits_def sz_def [symmetric])
  have s33: "sz < 2 ^ 33" "STRUCT_SIZE \<le> sz" using sz by auto
  obtain st1 where st1: "increaseAllocation st (last_addr 0 (memHead st) bs) sz = Some (st1, memHead st + tot bs)"
    "arena_ok st1 (bs @ [(sz, False)])" "bytes st1 = bytes st" "memHead st1 = memHead st" "kernel st1 = kernel st"
    using increaseAllocation_ok [OF ok ne s33(2,1)] granted by (auto simp: sz_def)
  have "sz - STRUCT_SIZE + STRUCT_OFFSET \<le> sz" using sz(1) by (simp add: STRUCT_SIZE_def STRUCT_OFFSET_def)
  then obtain st' where st': "mem_zero st1 (memHead st + tot bs + STRUCT_OFFSET) (sz - STRUCT_SIZE) = Some st'"
    "arena_ok st' (bs @ [(sz, False)])" "zeroed st st' (memHead st + tot bs + STRUCT_OFFSET) (sz - STRUCT_SIZE)"
    "memHead st' = memHead st" "kernel st' = kernel st"
    using mem_zero_ok [OF st1(2), of "sz - STRUCT_SIZE"] st1 by (auto simp: zeroed_def)
  have "sys_malloc st n = Some (Return (st', memHead st + tot bs + STRUCT_OFFSET))"
    using okD(2) find st1(1) st'(1) sz by (simp add: sys_malloc_def Let_def mem_init_def sz_def [symmetric])
  moreover have "place sz bs = (bs @ [(sz, False)], tot bs)" unfolding place_def Let_def all by simp
  ultimately show ?thesis using st' by (auto simp: payload_def sz_def)
qed

lemma malloc_first:
  assumes ok: "arena_ok st []" and n: "n \<le> max_request"
    and granted: "answer st (need n) = brk st + need n"
  shows "\<exists>st' p bs' o'. sys_malloc st n = Some (Return (st', p)) \<and> place (need n) [] = (bs', o') \<and>
    arena_ok st' bs' \<and> p = memHead st' + o' + STRUCT_OFFSET \<and> zeroed st st' p (payload n) \<and> kernel st' = kernel st"
proof -
  define sz where "sz = need n"
  note sz = request_size [OF n, folded sz_def]
  have s33: "0 < sz" "sz < 2 ^ 33" using sz STRUCT_pos(1) by (auto simp del: STRUCT_pos)
  have h0: "memHead st = 0" "0 < brk st" using ok by (simp_all add: arena_ok_def)
  define e where "e = brk st"
  define st0 where "st0 = st\<lparr>endBreakPoint := e\<rparr>"
  have ok0: "arena_ok st0 []" using ok by (simp add: arena_ok_def st0_def)
  note g = sbrk_granted [OF ok0 s33] 
  have g: "sys_sbrk st0 sz = (st0\<lparr>brk := e + sz\<rparr>, e + sz)" "e + sz < 2 ^ 47"
    using g granted by (simp_all add: st0_def e_def sz_def)
  define h where "h = (wipe (chunks st) e STRUCT_OFFSET)(e \<mapsto> \<lparr>csize = sz, is_available = True, cnext = 0, cprev = 0\<rparr>)"
  have put: "put (e + sz) (chunks st) e \<lparr>csize = sz, is_available = True, cnext = 0, cprev = 0\<rparr> = Some h"
    using h0 sz(1) by (auto simp: put_def h_def e_def STRUCT_SIZE_def STRUCT_OFFSET_def)
  define st1 where "st1 = st0\<lparr>brk := e + sz, chunks := h, memHead := e, endBreakPoint := e + sz\<rparr>"
  have st1: "memHead st1 = e" "bytes st1 = bytes st" "kernel st1 = kernel st" by (simp_all add: st1_def st0_def)
  have ch: "chain h 0 e 0 ([] @ [(sz, True)])" using sz(1) by (simp add: h_def)
  then have ok1: "arena_ok st1 [(sz, True)]" using ok h0 g(2) by (simp add: arena_ok_def st1_def st0_def e_def)
  have "sys_sbrk (st0\<lparr>brk := e + sz, chunks := h, memHead := e\<rparr>) 0 = (st0\<lparr>brk := e + sz, chunks := h, memHead := e\<rparr>, e + sz)"
    using ok below_FAILED [OF g(2)] by (simp add: Let_def sys_sbrk_def sys_brk_def arena_ok_def kernel_ok_def st0_def)
  then have init: "mem_init st sz = Some (Return (st1, 1))"
    using h0 sbrk_0 [OF ok] g below_FAILED [OF g(2)] put
    by (simp add: mem_init_def Let_def st0_def [symmetric] e_def [symmetric] st1_def) (simp add: st0_def)
  obtain h1 where h1: "splitChunk (e + sz) h e sz = Some h1" "chain h1 0 e 0 ([] @ cut sz (sz, True) @ [])"
    using splitChunk_chain [OF ch, of sz "e + sz"] h0 sz(1) by (auto simp: e_def)
  have "cut sz (sz, True) = [(sz, True)]" by (simp add: cut_def ALIGN_SIZE_def)
  then obtain h2 where h2: "upd h1 e (\<lambda>c. c\<lparr>is_available := False\<rparr>) = Some h2" "chain h2 0 e 0 [(sz, False)]"
    using chain_flag [of h1 e "[]" sz True "[]" False] h1(2) h0 by (auto simp: e_def)
  have ok2: "arena_ok (st1\<lparr>chunks := h2\<rparr>) ([] @ [(sz, False)])"
    by (rule arena_ok_heap [OF ok1]) (use h2(2) in \<open>simp_all add: st1_def\<close>)
  have "sz - STRUCT_SIZE + STRUCT_OFFSET \<le> sz" using sz(1) by (simp add: STRUCT_SIZE_def STRUCT_OFFSET_def)
  then obtain st' where st': "mem_zero (st1\<lparr>chunks := h2\<rparr>) (e + STRUCT_OFFSET) (sz - STRUCT_SIZE) = Some st'"
    "arena_ok st' [(sz, False)]" "zeroed st st' (e + STRUCT_OFFSET) (sz - STRUCT_SIZE)" "memHead st' = e" "kernel st' = kernel st"
    using mem_zero_ok [OF ok2, of "sz - STRUCT_SIZE"] st1 by (auto simp: zeroed_def)
  have "sys_malloc st n = Some (Return (st', e + STRUCT_OFFSET))"
    using init h1(1) h2(1) st'(1,4) sz by (simp add: sys_malloc_def Let_def sz_def [symmetric] st1_def)
  moreover have "place sz [] = ([(sz, False)], 0)" by (simp add: place_def)
  ultimately show ?thesis using st' by (auto simp: payload_def sz_def)
qed
text \<open>What the kernel refuses: the failure the code tests for, and the one it does not see.\<close>

lemma malloc_refused:
  assumes ok: "arena_ok st bs" and n: "n \<le> max_request" and unfit: "\<not> fits (need n) bs"
  shows "answer st (need n) = FAILED \<Longrightarrow> sys_malloc st n = Some (Exit 1)"
    "answer st (need n) = brk st \<Longrightarrow> sys_malloc st n = None"
proof -
  define sz where "sz = need n"
  note sz = request_size [OF n, folded sz_def]
  have s33: "0 < sz" "sz < 2 ^ 33" using sz STRUCT_pos(1) by (auto simp del: STRUCT_pos)
  have below: "brk st \<noteq> FAILED" using ok below_FAILED by (simp add: arena_ok_def)
  have all: "takeWhile (\<lambda>b. \<not> (snd b \<and> sz \<le> fst b)) bs = bs"
    using unfit by (auto simp: fits_def sz_def takeWhile_eq_all_conv)
  have find: "bs \<noteq> [] \<Longrightarrow> findChunk (chunks st) (memHead st) (sz mod 2 ^ 32) 0 = Some (0, last_addr 0 (memHead st) bs)"
    using findChunk_chain [OF arena_okD(1,2) [OF ok], of sz 0, unfolded all] unfit sz(3) by (auto simp: fits_def sz_def [symmetric])
  define st0 where "st0 = st\<lparr>endBreakPoint := brk st\<rparr>"
  have ask: "bs = [] \<Longrightarrow> sys_sbrk st0 sz = sys_brk st0 (brk st + sz)" "sys_sbrk st sz = sys_brk st (brk st + sz)"
    using sbrk_ask [OF _ s33, of st0 bs] sbrk_ask [OF ok s33] ok by (simp_all add: st0_def arena_ok_def)
  have zero: "sys_sbrk st 0 = (st, brk st)" by (rule sbrk_0 [OF ok])
  have p: "put (brk st) h (brk st) c = None" for h c by (simp add: put_def STRUCT_OFFSET_def STRUCT_SIZE_def)
  note defs = sys_malloc_def Let_def mem_init_def increaseAllocation_def sys_brk_def sz_def [symmetric] st0_def [symmetric]
  have e: "bs \<noteq> [] \<Longrightarrow> endBreakPoint st = brk st" "bs = [] \<longleftrightarrow> memHead st = 0" using ok by (auto simp: arena_ok_def split: if_splits)
  have k: "kernel st0 = kernel st" "brk st0 = brk st" by (simp_all add: st0_def)
  show "sys_malloc st n = Some (Exit 1)" if "answer st (need n) = FAILED"
    using that [folded sz_def] find ask zero below e k by (cases "bs = []") (simp_all add: defs)
  show "sys_malloc st n = None" if "answer st (need n) = brk st"
    using that [folded sz_def] find ask zero below e k p by (cases "bs = []") (simp_all add: defs)
qed

lemma malloc_return:
  assumes "arena_ok st bs" "n \<le> max_request" "sys_malloc st n = Some (Return r)"
  shows "fits (need n) bs \<or> answer st (need n) = brk st + need n"
  using malloc_refused [OF assms(1,2)] answer_cases [OF assms(1), of "need n"] assms(3) by fastforce

lemma malloc_place:
  assumes "arena_ok st bs" "n \<le> max_request" "fits (need n) bs \<or> answer st (need n) = brk st + need n"
  shows "\<exists>st' p bs' o'. sys_malloc st n = Some (Return (st', p)) \<and> place (need n) bs = (bs', o') \<and> arena_ok st' bs' \<and>
    p = memHead st' + o' + STRUCT_OFFSET \<and> zeroed st st' p (payload n) \<and> (bs \<noteq> [] \<longrightarrow> memHead st' = memHead st) \<and>
    kernel st' = kernel st"
proof -
  consider "fits (need n) bs" | "\<not> fits (need n) bs" "bs \<noteq> []" | "\<not> fits (need n) bs" "bs = []" by blast
  then show ?thesis
  proof cases
    case 1
    then show ?thesis using malloc_found [OF assms(1,2)] by blast
  next
    case 2
    then show ?thesis using malloc_grown [OF assms(1) _ assms(2)] assms(3) by blast
  next
    case 3
    then show ?thesis using malloc_first [of st n] assms by (auto simp: fits_def)
  qed
qed

lemma free_coalesce:
  assumes "arena_ok st (xs @ (s, False) # ys)"
  shows "\<exists>h. sys_free st (memHead st + tot xs + STRUCT_OFFSET) = Some (Return (st\<lparr>chunks := h\<rparr>, 0)) \<and>
    arena_ok (st\<lparr>chunks := h\<rparr>) (coalesce xs s ys)"
proof -
  define c where "c = memHead st + tot xs"
  note ok = arena_okD [OF assms, simplified]
  have hc: "chunks st c = Some \<lparr>csize = s, is_available = False, cnext = (if ys = [] then 0 else c + s),
      cprev = last_addr 0 (memHead st) xs\<rparr>" "STRUCT_SIZE \<le> s"
    using chain_at [OF ok(1)] by (simp_all add: c_def)
  obtain h1 where h1: "upd (chunks st) c (\<lambda>c. c\<lparr>is_available := True\<rparr>) = Some h1"
    "chain h1 0 (memHead st) 0 (xs @ (s, True) # ys)"
    using chain_flag [OF ok(1,2), of True] by (auto simp: c_def)
  have "memHead st + tot (xs @ (s, True) # ys) < 2 ^ 64" using ok(5) by simp
  then obtain h2 where h2: "mergeChunks h1 c = Some h2" "chain h2 0 (memHead st) 0 (coalesce xs s ys)"
    using mergeChunks_chain [OF h1(2) ok(2)] by (auto simp: c_def)
  have "0 < s" using less_le_trans [OF STRUCT_pos(1) hc(2)] .
  then have "in_arena st c" using ok(3) by (simp add: in_arena_def c_def)
  then have "sys_free st (c + STRUCT_OFFSET) = Some (Return (st\<lparr>chunks := h2\<rparr>, 0))"
    using hc h1(1) h2(1) by (simp add: sys_free_def)
  moreover have "tot (coalesce xs s ys) = tot (xs @ (s, False) # ys)"
    using tot_split [of xs] takeWhile_dropWhile_id [of snd ys] tot_simps(3) [of "takeWhile snd ys" "dropWhile snd ys"]
    by (simp add: coalesce_def)
  then have "arena_ok (st\<lparr>chunks := h2\<rparr>) (coalesce xs s ys)"
    using arena_ok_heap [OF assms _ _ _ h2(2)] by (simp add: coalesce_def)
  ultimately show ?thesis by (auto simp: c_def)
qed

text \<open>Giving back a chunk that is free already ends the program.\<close>

lemma free_twice:
  assumes "arena_ok st (xs @ (s, True) # ys)"
  shows "sys_free st (memHead st + tot xs + STRUCT_OFFSET) = Some (Exit 1)"
proof -
  note ok = arena_okD [OF assms, simplified]
  have "chunks st (memHead st + tot xs) \<noteq> None" "\<forall>c. chunks st (memHead st + tot xs) = Some c \<longrightarrow> is_available c"
    using chain_at [OF ok(1)] by simp_all
  then show ?thesis by (auto simp: sys_free_def)
qed

subsection \<open>The blocks the program holds\<close>

text \<open>The address and usable size of every block handed out.\<close>

fun lives :: "nat \<Rightarrow> blocks \<Rightarrow> (nat \<rightharpoonup> nat)" where
  "lives a [] = Map.empty"
| "lives a ((s, f) # bs) =
     (if f then lives (a + s) bs else (lives (a + s) bs)(a + STRUCT_OFFSET \<mapsto> s - STRUCT_SIZE))"

lemma lives_append: "lives a (xs @ ys) = lives (a + tot xs) ys ++ lives a xs"
  by (induction a xs rule: lives.induct) (auto simp: add.assoc map_add_upd simp del: fun_upd_apply)

definition big :: "blocks \<Rightarrow> bool" where "big bs \<longleftrightarrow> (\<forall>b \<in> set bs. STRUCT_SIZE \<le> fst b)"

lemma big_simps [simp]: "big []" "big (b # bs) \<longleftrightarrow> STRUCT_SIZE \<le> fst b \<and> big bs" "big (xs @ ys) \<longleftrightarrow> big xs \<and> big ys"
  by (auto simp: big_def)

lemma arena_big: "arena_ok st bs \<Longrightarrow> big bs"
  using arena_okD(1) [of st bs] chain_sizes by (cases "bs = []") (auto simp: big_def)

lemma lives_range:
  "big bs \<Longrightarrow> lives a bs p = Some k \<Longrightarrow> a + STRUCT_OFFSET \<le> p \<and> p + k + (STRUCT_SIZE - STRUCT_OFFSET) \<le> a + tot bs"
proof (induction a bs rule: lives.induct)
  case (2 a s f bs)
  then show ?case
  proof (cases "p = a + STRUCT_OFFSET \<and> \<not> f")
    case True
    then show ?thesis using 2 by (auto simp: STRUCT_SIZE_def STRUCT_OFFSET_def)
  next
    case False
    then have "lives (a + s) bs p = Some k" using 2(4) by (auto split: if_splits)
    then show ?thesis using 2 by (cases f) auto
  qed
qed simp

lemma lives_apart:
  "big bs \<Longrightarrow> lives a bs p = Some j \<Longrightarrow> lives a bs q = Some k \<Longrightarrow> p \<noteq> q \<Longrightarrow> p + j \<le> q \<or> q + k \<le> p"
proof (induction a bs rule: lives.induct)
  case (2 a s f bs)
  have first: "\<And>r i. r = a + STRUCT_OFFSET \<Longrightarrow> lives (a + s) bs r = Some i \<Longrightarrow> False"
    using lives_range [of bs "a + s"] 2(3) by (fastforce simp: STRUCT_SIZE_def STRUCT_OFFSET_def)
  have later: "\<And>r i. lives (a + s) bs r = Some i \<Longrightarrow> a + STRUCT_OFFSET + (s - STRUCT_SIZE) \<le> r"
    using lives_range [of bs "a + s"] 2(3) by (fastforce simp: STRUCT_SIZE_def STRUCT_OFFSET_def)
  show ?case
  proof (cases f)
    case True
    then show ?thesis using 2 by simp
  next
    case False
    then show ?thesis using 2 later [of p] later [of q] by (auto split: if_splits)
  qed
qed simp

lemma lives_split:
  "lives a bs p = Some k \<Longrightarrow> \<exists>xs s ys. bs = xs @ (s, False) # ys \<and> p = a + tot xs + STRUCT_OFFSET \<and> k = s - STRUCT_SIZE"
proof (induction a bs rule: lives.induct)
  case (2 a s f bs)
  show ?case
  proof (cases "p = a + STRUCT_OFFSET \<and> \<not> f")
    case True
    then show ?thesis using 2(3) by (intro exI [of _ "[]"] exI [of _ s] exI [of _ bs]) auto
  next
    case False
    then have "lives (a + s) bs p = Some k" using 2(3) by (auto split: if_splits)
    then obtain xs r ys where "bs = xs @ (r, False) # ys" "p = a + s + tot xs + STRUCT_OFFSET" "k = r - STRUCT_SIZE"
      using 2(1,2) by (cases f) blast+
    then show ?thesis by (intro exI [of _ "(s, f) # xs"] exI [of _ r] exI [of _ ys]) (simp add: add.assoc)
  qed
qed simp

lemma lives_free: "\<forall>b \<in> set bs. snd b \<Longrightarrow> lives a bs = Map.empty"
  by (induction a bs rule: lives.induct) auto

lemma lives_coalesce:
  assumes "big (xs @ (s, False) # ys)"
  shows "lives a (coalesce xs s ys) = (lives a (xs @ (s, False) # ys))(a + tot xs + STRUCT_OFFSET := None)"
proof -
  let ?p = "a + tot xs + STRUCT_OFFSET"
  have n: "lives a xs ?p = None" "lives (a + tot xs + s) ys ?p = None"
    using lives_range [of xs a ?p] lives_range [of ys "a + tot xs + s" ?p] assms
    by (fastforce simp: STRUCT_SIZE_def STRUCT_OFFSET_def)+
  have "\<forall>b \<in> set (free_tail xs). snd b" by (auto simp: free_tail_def dest: set_takeWhileD)
  then have x: "lives a (used_head xs) = lives a xs"
    using lives_append [of a "used_head xs" "free_tail xs"] lives_free [of "free_tail xs"] by simp
  have "\<forall>b \<in> set (takeWhile snd ys). snd b" by (auto dest: set_takeWhileD)
  then have y: "lives (b + tot (takeWhile snd ys)) (dropWhile snd ys) = lives b ys" for b
    using lives_append [of b "takeWhile snd ys" "dropWhile snd ys"] lives_free [of "takeWhile snd ys" b] by simp
  have e: "a + tot (used_head xs) + (tot (free_tail xs) + s + tot (takeWhile snd ys)) = a + tot xs + s + tot (takeWhile snd ys)"
    using tot_split [of xs] by simp
  have "lives a (coalesce xs s ys) = lives (a + tot xs + s) ys ++ lives a xs"
    unfolding coalesce_def lives_append lives.simps e if_True x y ..
  also have "\<dots> = (lives a (xs @ (s, False) # ys))(?p := None)"
  proof (rule ext)
    fix q
    show "(lives (a + tot xs + s) ys ++ lives a xs) q = ((lives a (xs @ (s, False) # ys))(?p := None)) q"
      using n by (cases "q = ?p") (simp_all add: lives_append map_add_def add.assoc split: option.split)
  qed
  finally show ?thesis .
qed

lemma lives_place:
  assumes "big bs" "STRUCT_SIZE \<le> sz" "place sz bs = (bs', o')"
  shows "\<exists>k. sz - STRUCT_SIZE \<le> k \<and> lives a bs (a + o' + STRUCT_OFFSET) = None \<and>
    lives a bs' = (lives a bs)(a + o' + STRUCT_OFFSET \<mapsto> k)"
proof (cases "fits sz bs")
  case False
  then have all: "takeWhile (\<lambda>b. \<not> (snd b \<and> sz \<le> fst b)) bs = bs" "dropWhile (\<lambda>b. \<not> (snd b \<and> sz \<le> fst b)) bs = []"
    by (auto simp: fits_def takeWhile_eq_all_conv dropWhile_eq_Nil_conv)
  have p: "bs' = bs @ [(sz, False)]" "o' = tot bs" using assms(3) unfolding place_def Let_def all by simp_all
  have "lives a bs (a + tot bs + STRUCT_OFFSET) = None"
    using lives_range [OF assms(1), of a "a + tot bs + STRUCT_OFFSET"] by (fastforce simp: STRUCT_OFFSET_def STRUCT_SIZE_def)
  then show ?thesis using p by (intro exI [of _ "sz - STRUCT_SIZE"])
      (auto simp: lives_append map_add_def fun_eq_iff split: option.split)
next
  case True
  then obtain b zs where b: "bs = takeWhile (\<lambda>b. \<not> (snd b \<and> sz \<le> fst b)) bs @ b # zs"
    "dropWhile (\<lambda>b. \<not> (snd b \<and> sz \<le> fst b)) bs = b # zs" "snd b \<and> sz \<le> fst b"
    using takeWhile_found [of bs "\<lambda>b. \<not> (snd b \<and> sz \<le> fst b)"] unfolding fits_def by blast
  define ys where "ys = takeWhile (\<lambda>b. \<not> (snd b \<and> sz \<le> fst b)) bs"
  obtain s where s: "b = (s, True)" "sz \<le> s" using b(3) by (cases b) auto
  have bs: "bs = ys @ (s, True) # zs" using b(1) s by (simp add: ys_def)
  have p: "bs' = ys @ cut sz (s, False) @ zs" "o' = tot ys"
    using assms(3) b(2) s unfolding place_def Let_def ys_def [symmetric] by simp_all
  let ?p = "a + tot ys + STRUCT_OFFSET"
  have n: "lives a ys ?p = None" "lives (a + tot ys + s) zs ?p = None"
    using lives_range [of ys a ?p] lives_range [of zs "a + tot ys + s" ?p] assms(1) bs
    by (fastforce simp: STRUCT_SIZE_def STRUCT_OFFSET_def)+
  have "\<exists>k. sz - STRUCT_SIZE \<le> k \<and> lives (a + tot ys) (cut sz (s, False) @ zs) = (lives (a + tot ys + s) zs)(?p \<mapsto> k)"
  proof (cases "s - sz < ALIGN_SIZE + STRUCT_SIZE")
    case True
    then show ?thesis using s(2) by (intro exI [of _ "s - STRUCT_SIZE"]) (simp add: cut_def)
  next
    case False
    then show ?thesis using s(2) by (intro exI [of _ "sz - STRUCT_SIZE"]) (simp add: cut_def add.assoc)
  qed
  then obtain k where k: "sz - STRUCT_SIZE \<le> k"
    "lives (a + tot ys) (cut sz (s, False) @ zs) = (lives (a + tot ys + s) zs)(?p \<mapsto> k)" by blast
  have "lives a bs' = (lives a bs)(?p \<mapsto> k)"
  proof
    fix q
    show "lives a bs' q = ((lives a bs)(?p \<mapsto> k)) q"
      using k(2) n by (cases "q = ?p") (simp_all add: p bs lives_append [of a ys] map_add_def split: option.split)
  qed
  moreover have "lives a bs ?p = None" using n by (simp add: bs lives_append map_add_def)
  ultimately show ?thesis using k(1) p(2) by auto
qed

subsection \<open>What a client may rely on\<close>

text \<open>
  The contract of an allocator, on an abstract set of blocks \<open>L\<close>, the size of each by its
  address: a new block is apart from every block held, of the size asked for and zero; giving a
  block back forgets it; the contents of all other blocks stay; and the client may write into what
  it holds.
\<close>

locale allocator =
  fixes alloc :: "'st \<Rightarrow> nat \<Rightarrow> ('st \<times> nat) option"
    and release :: "'st \<Rightarrow> nat \<Rightarrow> 'st option"
    and poke :: "'st \<Rightarrow> nat \<Rightarrow> byte \<Rightarrow> 'st"
    and peek :: "'st \<Rightarrow> nat \<Rightarrow> byte"
    and holds :: "'st \<Rightarrow> (nat \<rightharpoonup> nat) \<Rightarrow> bool"
    and limit :: nat
  assumes alloc_law: "holds st L \<Longrightarrow> n \<le> limit \<Longrightarrow> alloc st n = Some (st', p) \<Longrightarrow>
      \<exists>k. n \<le> k \<and> L p = None \<and> holds st' (L(p \<mapsto> k)) \<and> (\<forall>i<n. peek st' (p + i) = 0) \<and>
        (\<forall>q j i. L q = Some j \<longrightarrow> i < j \<longrightarrow> peek st' (q + i) = peek st (q + i))"
    and release_law: "holds st L \<Longrightarrow> L p = Some k \<Longrightarrow>
      \<exists>st'. release st p = Some st' \<and> holds st' (L(p := None)) \<and> peek st' = peek st"
    and poke_law: "holds st L \<Longrightarrow> L p = Some k \<Longrightarrow> i < k \<Longrightarrow>
      holds (poke st (p + i) v) L \<and> peek (poke st (p + i) v) = (peek st)(p + i := v)"
    and apart: "holds st L \<Longrightarrow> L p = Some j \<Longrightarrow> L q = Some k \<Longrightarrow> p \<noteq> q \<Longrightarrow> p + j \<le> q \<or> q + k \<le> p"
begin

text \<open>
  The runs of a client that gives back and writes only what it holds. The client notes each block with the size
  it asked for; the allocator may have set aside more.
\<close>

inductive run_of :: "'st \<Rightarrow> (nat \<rightharpoonup> nat) \<Rightarrow> nat set \<Rightarrow> 'st \<Rightarrow> (nat \<rightharpoonup> nat) \<Rightarrow> bool" where
  here: "run_of st C B st C"
| get: "run_of st C B st1 C1 \<Longrightarrow> n \<le> limit \<Longrightarrow> alloc st1 n = Some (st2, p) \<Longrightarrow> run_of st C B st2 (C1(p \<mapsto> n))"
| give: "run_of st C B st1 C1 \<Longrightarrow> C1 p = Some n \<Longrightarrow> p \<in> B \<Longrightarrow> release st1 p = Some st2 \<Longrightarrow>
    run_of st C B st2 (C1(p := None))"
| stored: "run_of st C B st1 C1 \<Longrightarrow> C1 p = Some n \<Longrightarrow> p \<in> B \<Longrightarrow> i < n \<Longrightarrow> run_of st C B (poke st1 (p + i) v) C1"

definition backed :: "'st \<Rightarrow> (nat \<rightharpoonup> nat) \<Rightarrow> (nat \<rightharpoonup> nat) \<Rightarrow> bool" where
  "backed st L C \<longleftrightarrow> holds st L \<and> (\<forall>p n. C p = Some n \<longrightarrow> (\<exists>k \<ge> n. L p = Some k))"

lemma holds_backed: "holds st L \<Longrightarrow> backed st L L"
  by (auto simp: backed_def)

lemma backed_get:
  assumes "backed st L C" "n \<le> limit" "alloc st n = Some (st', p)"
  shows "\<exists>L'. backed st' L' (C(p \<mapsto> n)) \<and> C p = None \<and> (\<forall>q j i. C q = Some j \<longrightarrow> i < j \<longrightarrow> peek st' (q + i) = peek st (q + i))"
proof -
  have h: "holds st L" and c: "\<And>q j. C q = Some j \<Longrightarrow> \<exists>k \<ge> j. L q = Some k" using assms(1) by (auto simp: backed_def)
  obtain k where k: "n \<le> k" "L p = None" "holds st' (L(p \<mapsto> k))" "\<forall>q j i. L q = Some j \<longrightarrow> i < j \<longrightarrow> peek st' (q + i) = peek st (q + i)"
    using alloc_law [OF h assms(2,3)] by blast
  have "C p = None" using c [of p] k(2) by (cases "C p") auto
  moreover have "backed st' (L(p \<mapsto> k)) (C(p \<mapsto> n))" using c k(1,3) by (auto simp: backed_def)
  moreover have "\<forall>q j i. C q = Some j \<longrightarrow> i < j \<longrightarrow> peek st' (q + i) = peek st (q + i)" using c k(4) by (meson less_le_trans)
  ultimately show ?thesis by blast
qed

lemma backed_give:
  assumes "backed st L C" "C p = Some n" "release st p = Some st'"
  shows "backed st' (L(p := None)) (C(p := None)) \<and> peek st' = peek st"
proof -
  obtain k where k: "holds st L" "L p = Some k" using assms(1,2) by (auto simp: backed_def)
  have "holds st' (L(p := None))" "peek st' = peek st" using release_law [OF k] assms(3) by auto
  then show ?thesis using assms(1) by (auto simp: backed_def)
qed

lemma backed_stored:
  assumes "backed st L C" "C p = Some n" "i < n"
  shows "backed (poke st (p + i) v) L C \<and> peek (poke st (p + i) v) = (peek st)(p + i := v)"
proof -
  obtain k where "holds st L" "L p = Some k" "n \<le> k" using assms(1,2) unfolding backed_def by blast
  then have "holds st L" "L p = Some k" "i < k" using assms(3) by simp_all
  from poke_law [OF this] show ?thesis using assms(1) by (auto simp: backed_def)
qed

lemma run_backed: "run_of st C B st' C' \<Longrightarrow> backed st L C \<Longrightarrow> \<exists>L'. backed st' L' C'"
proof (induction rule: run_of.induct)
  case (get st C B st1 C1 n st2 p)
  then show ?case using backed_get [of st1 _ C1 n st2 p] by meson
next
  case (give st C B st1 C1 p n st2)
  then show ?case using backed_give [of st1 _ C1 p n st2] by meson
next
  case (stored st C B st1 C1 p n i v)
  then show ?case using backed_stored [of st1 _ C1 p n i v] by meson
qed blast

lemma backed_apart: "backed st L C \<Longrightarrow> C p = Some j \<Longrightarrow> C q = Some k \<Longrightarrow> p \<noteq> q \<Longrightarrow> p + j \<le> q \<or> q + k \<le> p"
proof -
  assume a: "backed st L C" "C p = Some j" "C q = Some k" "p \<noteq> q"
  obtain m n where "L p = Some m" "j \<le> m" "L q = Some n" "k \<le> n" using a(1-3) unfolding backed_def by meson
  moreover from this have "p + m \<le> q \<or> q + n \<le> p" using apart a(1,4) unfolding backed_def by blast
  ultimately show ?thesis by auto
qed

text \<open>A block that is neither given back nor written keeps its place and its contents.\<close>

lemma run_frame:
  assumes "run_of st C B st' C'" "backed st L C" "C q = Some j" "q \<notin> B"
  shows "C' q = Some j \<and> (\<forall>i<j. peek st' (q + i) = peek st (q + i))"
  using assms
proof (induction rule: run_of.induct)
  case (get st C B st1 C1 n st2 p)
  obtain L1 where "backed st1 L1 C1" using run_backed [OF get.hyps(1) get.prems(1)] by blast
  from backed_get [OF this get.hyps(2,3)] show ?case using get by auto
next
  case (give st C B st1 C1 p n st2)
  obtain L1 where "backed st1 L1 C1" using run_backed [OF give.hyps(1) give.prems(1)] by blast
  from backed_give [OF this give.hyps(2,4)] show ?case using give by auto
next
  case (stored st C B st1 C1 p n i v)
  obtain L1 where h: "backed st1 L1 C1" using run_backed [OF stored.hyps(1) stored.prems(1)] by blast
  have "q \<noteq> p" "C1 q = Some j" using stored by auto
  then have "p + n \<le> q \<or> q + j \<le> p" using backed_apart [OF h stored.hyps(2)] by auto
  then show ?case using backed_stored [OF h stored.hyps(2,4), of v] stored by auto
qed simp

lemma run_apart: "run_of st C B st' C' \<Longrightarrow> backed st L C \<Longrightarrow> C' p = Some j \<Longrightarrow> C' q = Some k \<Longrightarrow> p \<noteq> q \<Longrightarrow> p + j \<le> q \<or> q + k \<le> p"
  using run_backed backed_apart by blast

end

text \<open>An allocator that can also resize a block, keeping what fits of its contents.\<close>

locale reallocator = allocator +
  fixes resize :: "'a \<Rightarrow> nat \<Rightarrow> nat \<Rightarrow> ('a \<times> nat) option"
  assumes resize_law: "holds st L \<Longrightarrow> L p = Some k \<Longrightarrow> n \<le> limit \<Longrightarrow> resize st p n = Some (st', q) \<Longrightarrow>
      \<exists>j. n \<le> j \<and> L q = None \<and> holds st' ((L(p := None))(q \<mapsto> j)) \<and>
        (\<forall>i < min k j. peek st' (q + i) = peek st (p + i)) \<and>
        (\<forall>r m i. L r = Some m \<longrightarrow> r \<noteq> p \<longrightarrow> i < m \<longrightarrow> peek st' (r + i) = peek st (r + i))"
begin

lemma resize_apart:
  assumes "holds st L" "L p = Some k" "n \<le> limit" "resize st p n = Some (st', q)" "L r = Some m" "r \<noteq> p"
  shows "r + m \<le> q \<or> q + n \<le> r"
proof -
  obtain j where j: "n \<le> j" "L q = None" "holds st' ((L(p := None))(q \<mapsto> j))"
    using resize_law [OF assms(1-4)] by blast
  have "r \<noteq> q" using j(2) assms(5) by auto
  then have "r + m \<le> q \<or> q + j \<le> r" using apart [OF j(3), of r m q j] assms(5,6) by simp
  then show ?thesis using j(1) by auto
qed

end

subsection \<open>The arena is one\<close>

text \<open>A call that comes back to the client, and the client's own writes.\<close>

definition call :: "('a run) option \<Rightarrow> 'a option" where
  "call r = (case r of Some (Return x) \<Rightarrow> Some x | _ \<Rightarrow> None)"

definition arena_poke :: "arena \<Rightarrow> nat \<Rightarrow> byte \<Rightarrow> arena" where
  "arena_poke st x v = st\<lparr>chunks := wipe (chunks st) x 1, bytes := (bytes st)(x := v)\<rparr>"

definition arena_holds :: "arena \<Rightarrow> (nat \<rightharpoonup> nat) \<Rightarrow> bool" where
  "arena_holds st L \<longleftrightarrow> (\<exists>bs. arena_ok st bs \<and> L = lives (memHead st) bs)"

lemma call_Some [simp]: "call r = Some x \<longleftrightarrow> r = Some (Return x)"
  by (auto simp: call_def split: option.splits run.splits)

lemma arena_apart: "arena_holds st L \<Longrightarrow> L p = Some j \<Longrightarrow> L q = Some k \<Longrightarrow> p \<noteq> q \<Longrightarrow> p + j \<le> q \<or> q + k \<le> p"
  using lives_apart arena_big unfolding arena_holds_def by blast

lemma malloc_law:
  assumes "arena_holds st L" "n \<le> max_request" "sys_malloc st n = Some (Return (st', p))"
  shows "\<exists>k. n \<le> k \<and> L p = None \<and> arena_holds st' (L(p \<mapsto> k)) \<and> zeroed st st' p (payload n) \<and> n \<le> payload n \<and> payload n \<le> k"
proof -
  obtain bs where bs: "arena_ok st bs" "L = lives (memHead st) bs" using assms(1) by (auto simp: arena_holds_def)
  obtain bs' o' where r: "place (need n) bs = (bs', o')" "arena_ok st' bs'"
    "p = memHead st' + o' + STRUCT_OFFSET" "zeroed st st' p (payload n)" "bs \<noteq> [] \<longrightarrow> memHead st' = memHead st"
    using malloc_place [OF bs(1) assms(2) malloc_return [OF bs(1) assms(2,3)]] assms(3) by auto
  have L: "L = lives (memHead st') bs" using bs(2) r(5) by (cases "bs = []") auto
  have sz: "n + STRUCT_SIZE \<le> need n" "STRUCT_SIZE \<le> need n" using request_size(1) [OF assms(2)] by simp_all
  obtain k where k: "need n - STRUCT_SIZE \<le> k" "lives (memHead st') bs p = None"
    "lives (memHead st') bs' = (lives (memHead st') bs)(p \<mapsto> k)"
    using lives_place [OF arena_big [OF bs(1)] sz(2) r(1)] r(3) by blast
  have "arena_holds st' (L(p \<mapsto> k))" using r(2) k(3) L by (auto simp: arena_holds_def)
  then show ?thesis using k L r(4) sz by (intro exI [of _ k]) (auto simp: payload_def)
qed

lemma malloc_contents:
  assumes "arena_holds st L" "n \<le> max_request" "sys_malloc st n = Some (Return (st', p))"
  shows "i < n \<Longrightarrow> bytes st' (p + i) = 0" "L q = Some j \<Longrightarrow> i < j \<Longrightarrow> bytes st' (q + i) = bytes st (q + i)"
proof -
  obtain k where k: "L p = None" "arena_holds st' (L(p \<mapsto> k))" "zeroed st st' p (payload n)" "n \<le> payload n" "payload n \<le> k"
    using malloc_law [OF assms] by blast
  show "i < n \<Longrightarrow> bytes st' (p + i) = 0" using k(3,4) by (simp add: zeroed_def)
  assume q: "L q = Some j" "i < j"
  then have "p + k \<le> q \<or> q + j \<le> p" using arena_apart [OF k(2), of p k q j] k(1) by (cases "p = q") auto
  then show "bytes st' (q + i) = bytes st (q + i)" using k(3,5) q(2) by (auto simp: zeroed_def)
qed

lemma free_law:
  assumes "arena_holds st L" "L p = Some k"
  shows "\<exists>h. sys_free st p = Some (Return (st\<lparr>chunks := h\<rparr>, 0)) \<and> arena_holds (st\<lparr>chunks := h\<rparr>) (L(p := None))"
proof -
  obtain bs where bs: "arena_ok st bs" "L = lives (memHead st) bs" using assms(1) by (auto simp: arena_holds_def)
  obtain xs s ys where x: "bs = xs @ (s, False) # ys" "p = memHead st + tot xs + STRUCT_OFFSET"
    using lives_split assms(2) bs(2) by blast
  obtain h where h: "sys_free st p = Some (Return (st\<lparr>chunks := h\<rparr>, 0))" "arena_ok (st\<lparr>chunks := h\<rparr>) (coalesce xs s ys)"
    using free_coalesce bs(1) x by blast
  have "lives (memHead st) (coalesce xs s ys) = L(p := None)"
    using lives_coalesce [of xs s ys "memHead st"] arena_big [OF bs(1)] bs(2) x by simp
  then have "arena_holds (st\<lparr>chunks := h\<rparr>) (L(p := None))" 
    using h(2) unfolding arena_holds_def by (intro exI [of _ "coalesce xs s ys"]) (simp del: fun_upd_apply)
  then show ?thesis using h(1) by blast
qed

lemma wipe_law:
  assumes "arena_holds st L" "L p = Some k" "p \<le> x" "x + n \<le> p + k"
  shows "arena_holds (st\<lparr>chunks := wipe (chunks st) x n, bytes := m\<rparr>) L"
proof -
  obtain bs where bs: "arena_ok st bs" "L = lives (memHead st) bs" using assms(1) by (auto simp: arena_holds_def)
  obtain xs s ys where s: "bs = xs @ (s, False) # ys" "p = memHead st + tot xs + STRUCT_OFFSET" "k = s - STRUCT_SIZE"
    using lives_split assms(2) bs(2) by blast
  note ok = arena_okD [OF bs(1), unfolded s(1), simplified]
  have "STRUCT_SIZE \<le> s" using arena_big [OF bs(1)] s(1) by simp
  then have "x + n \<le> memHead st + tot xs + s" using assms(4) s(2,3) by (simp add: STRUCT_SIZE_def STRUCT_OFFSET_def)
  then have "chain (wipe (chunks st) x n) 0 (memHead st) 0 bs"
    using chain_wipe [OF ok(1,2), of x n] assms(3) s by simp
  then have "arena_ok (st\<lparr>chunks := wipe (chunks st) x n, bytes := m\<rparr>) bs"
    using bs(1) by (simp add: arena_ok_def)
  then show ?thesis using bs(2) unfolding arena_holds_def by (intro exI [of _ bs]) simp
qed

interpretation heap: allocator "\<lambda>st n. call (sys_malloc st n)" "\<lambda>st p. map_option fst (call (sys_free st p))"
  arena_poke bytes arena_holds max_request
proof (unfold_locales, goal_cases)
  case (1 st L n st' p)
  then have m: "sys_malloc st n = Some (Return (st', p))" by simp
  show ?case using malloc_law [OF 1(1,2) m] malloc_contents [OF 1(1,2) m] by blast
next
  case (2 st L p k)
  then show ?case using free_law [of st L p k] by auto
next
  case (3 st L p k i v)
  then show ?case using wipe_law [of st L p k "p + i" 1] by (simp add: arena_poke_def)
next
  case (4 st L p j q k)
  then show ?case using arena_apart by blast
qed

lemma holds_block:
  assumes "arena_holds st L" "L p = Some k"
  shows "\<exists>c. chunks st (p - STRUCT_OFFSET) = Some c \<and> \<not> is_available c \<and> csize c = k + STRUCT_SIZE" "p \<noteq> 0"
    "p + k \<le> brk st" "brk st < 2 ^ 47"
proof -
  obtain bs where bs: "arena_ok st bs" "L = lives (memHead st) bs" using assms(1) by (auto simp: arena_holds_def)
  obtain xs s ys where s: "bs = xs @ (s, False) # ys" "p = memHead st + tot xs + STRUCT_OFFSET" "k = s - STRUCT_SIZE"
    using lives_split assms(2) bs(2) by blast
  note ok = arena_okD [OF bs(1)]
  have ne: "bs \<noteq> []" using s by simp
  show "\<exists>c. chunks st (p - STRUCT_OFFSET) = Some c \<and> \<not> is_available c \<and> csize c = k + STRUCT_SIZE"
    using chain_at [of "chunks st" 0 "memHead st" 0 xs s False ys] ok(1) [OF ne] s by simp
  show "p \<noteq> 0" using s(2) by (simp add: STRUCT_OFFSET_def STRUCT_SIZE_def)
  show "p + k \<le> brk st"
    using lives_range [OF arena_big [OF bs(1)], of "memHead st" p k] assms(2) bs(2) ok(4) [OF ne] by simp
  show "brk st < 2 ^ 47" using bs(1) by (simp add: arena_ok_def)
qed

lemma actual_size:
  assumes "arena_holds st L" "L p = Some k"
  shows "mem_get_actual_size st p = Some k"
proof -
  have "k < 2 ^ 64" using holds_block(3,4) [OF assms] by simp
  then have "usub (k + STRUCT_SIZE) STRUCT_SIZE = k" by (simp add: usub_def)
  then show ?thesis using holds_block(1) [OF assms] by (auto simp: mem_get_actual_size_def)
qed

lemma fold_copy:
  assumes "new + n \<le> old \<or> old + n \<le> new"
  shows "fold (\<lambda>i b. b(new + i := b (old + i))) [0..<n] m = (\<lambda>x. if new \<le> x \<and> x < new + n then m (old + (x - new)) else m x)"
  using assms
proof (induction n)
  case (Suc n)
  then have "new + n \<le> old \<or> old + n \<le> new" by auto
  with Suc show ?case by (auto simp: fun_eq_iff)
qed (auto simp: fun_eq_iff)

lemma realloc_law:
  assumes h: "arena_holds st L" and p: "L p = Some k" and n: "n \<le> max_request"
    and m: "sys_malloc st n = Some (Return (st1, q))"
  shows "\<exists>st' j. sys_realloc st p n = Some (Return (st', q)) \<and> n \<le> j \<and> L q = None \<and> arena_holds st' ((L(p := None))(q \<mapsto> j)) \<and>
    (\<forall>i < min k j. bytes st' (q + i) = bytes st (p + i)) \<and>
    (\<forall>r m i. L r = Some m \<longrightarrow> r \<noteq> p \<longrightarrow> i < m \<longrightarrow> bytes st' (r + i) = bytes st (r + i))"
proof -
  have p0: "p \<noteq> 0" using holds_block(2) [OF h p] .
  obtain j where j: "n \<le> j" "L q = None" "arena_holds st1 (L(q \<mapsto> j))" using malloc_law [OF h n m] by blast
  have q: "q \<noteq> p" "(L(q \<mapsto> j)) p = Some k" "(L(q \<mapsto> j)) q = Some j" using p j(2) by auto
  have ap: "q + min k j \<le> p \<or> p + min k j \<le> q" using arena_apart [OF j(3) q(3,2,1)] by auto
  define b where "b = fold (\<lambda>i b. b(q + i := b (p + i))) [0..<min k j] (bytes st1)"
  define st2 where "st2 = st1\<lparr>chunks := wipe (chunks st1) q (min k j), bytes := b\<rparr>"
  have c: "copy_payload st1 q p (min k j) = Some st2"
    using holds_block(3) [OF j(3) q(2)] holds_block(3) [OF j(3) q(3)] by (simp add: copy_payload_def st2_def b_def min_def)
  have h2: "arena_holds st2 (L(q \<mapsto> j))" unfolding st2_def by (rule wipe_law [OF j(3) q(3)]) simp_all
  obtain hp where f: "sys_free st2 p = Some (Return (st2\<lparr>chunks := hp\<rparr>, 0))"
    "arena_holds (st2\<lparr>chunks := hp\<rparr>) ((L(q \<mapsto> j))(p := None))"
    using free_law [OF h2 q(2)] by blast
  have "((L(q \<mapsto> j))(p := None)) q = Some j" using q(1) by simp
  then obtain d where d: "hp (q - STRUCT_OFFSET) = Some d" "\<not> is_available d"
    using holds_block(1) [OF f(2)] by fastforce
  then have u: "upd hp (q - STRUCT_OFFSET) (\<lambda>c. c\<lparr>is_available := False\<rparr>) = Some hp"
    by (cases d) (auto simp: upd_def fun_upd_idem)
  define st' where "st' = st2\<lparr>chunks := hp\<rparr>"
  have run: "sys_realloc st p n = Some (Return (st', q))"
    unfolding st'_def using p0 m c f(1) u actual_size [OF h p] actual_size [OF j(3) q(3)] by (simp add: sys_realloc_def)
  note st' = st'_def
  have "arena_holds st' ((L(p := None))(q \<mapsto> j))"
    using f(2) fun_upd_twist [OF q(1), of L "Some j" None] by (simp add: st' del: fun_upd_apply)
  moreover have "bytes st' (q + i) = bytes st (p + i)" if "i < min k j" for i
    using that malloc_contents(2) [OF h n m p] by (simp add: st' st2_def b_def fold_copy [OF ap])
  moreover have "bytes st' (r + i) = bytes st (r + i)" if r: "L r = Some x" "r \<noteq> p" "i < x" for r x i
  proof -
    have "r \<noteq> q" using r j(2) by auto
    then have "r + x \<le> q \<or> q + j \<le> r" using arena_apart [OF j(3), of r x q j] r by simp
    then have "\<not> (q \<le> r + i \<and> r + i < q + min k j)" using r(3) by auto
    then show ?thesis using malloc_contents(2) [OF h n m r(1,3)] by (auto simp: st' st2_def b_def fold_copy [OF ap])
  qed
  ultimately show ?thesis using j(1,2) run by blast
qed

lemma realloc_malloc:
  assumes "arena_holds st L" "L p = Some k" "sys_realloc st p n = Some (Return (st', q))"
  shows "\<exists>st1. sys_malloc st n = Some (Return (st1, q))"
  using assms(3) holds_block(2) [OF assms(1,2)] actual_size [OF assms(1,2)]
  by (auto simp: sys_realloc_def split: run.splits bind_splits)

interpretation heap: reallocator "\<lambda>st n. call (sys_malloc st n)" "\<lambda>st p. map_option fst (call (sys_free st p))"
  arena_poke bytes arena_holds max_request "\<lambda>st p n. call (sys_realloc st p n)"
proof (unfold_locales, goal_cases)
  case (1 st L p k n st' q)
  then obtain st1 where "sys_malloc st n = Some (Return (st1, q))" using realloc_malloc [of st L p k n st' q] by auto
  then show ?case using realloc_law [OF 1(1-3), of st1 q] 1(4) by (simp del: fun_upd_apply)
qed

subsection \<open>No two free neighbours\<close>

definition separated :: "blocks \<Rightarrow> bool" where
  "separated bs \<longleftrightarrow> successively (\<lambda>b c. \<not> (snd b \<and> snd c)) bs"

lemma separated_append:
  "separated (xs @ ys) \<longleftrightarrow> separated xs \<and> separated ys \<and> (xs = [] \<or> ys = [] \<or> \<not> (snd (last xs) \<and> snd (hd ys)))"
  by (auto simp: separated_def successively_append_iff)

lemma separated_simps [simp]: "separated []" "separated [b]"
  "separated (b # c # bs) \<longleftrightarrow> \<not> (snd b \<and> snd c) \<and> separated (c # bs)"
  by (simp_all add: separated_def)

lemma separated_Cons: "separated (b # bs) \<longleftrightarrow> separated bs \<and> (bs = [] \<or> \<not> (snd b \<and> snd (hd bs)))"
  by (cases bs) auto

lemma place_separated:
  assumes "separated bs" "place sz bs = (bs', o')"
  shows "separated bs'"
proof (cases "fits sz bs")
  case False
  then have all: "takeWhile (\<lambda>b. \<not> (snd b \<and> sz \<le> fst b)) bs = bs" "dropWhile (\<lambda>b. \<not> (snd b \<and> sz \<le> fst b)) bs = []"
    by (auto simp: fits_def takeWhile_eq_all_conv dropWhile_eq_Nil_conv)
  have "bs' = bs @ [(sz, False)]" using assms(2) unfolding place_def Let_def all by simp
  then show ?thesis using assms(1) by (simp add: separated_append)
next
  case True
  then obtain b zs where b: "bs = takeWhile (\<lambda>b. \<not> (snd b \<and> sz \<le> fst b)) bs @ b # zs"
    "dropWhile (\<lambda>b. \<not> (snd b \<and> sz \<le> fst b)) bs = b # zs" "snd b \<and> sz \<le> fst b"
    using takeWhile_found [of bs "\<lambda>b. \<not> (snd b \<and> sz \<le> fst b)"] unfolding fits_def by blast
  define ys where "ys = takeWhile (\<lambda>b. \<not> (snd b \<and> sz \<le> fst b)) bs"
  have "separated (ys @ b # zs)" using assms(1) b(1) by (simp add: ys_def)
  moreover have "bs' = ys @ cut sz (fst b, False) @ zs"
    using assms(2) b(2) unfolding place_def Let_def ys_def [symmetric] by simp
  ultimately show ?thesis using b(3) by (auto simp: cut_def separated_append separated_Cons)
qed

lemma used_head_last: "used_head xs = [] \<or> \<not> snd (last (used_head xs))"
  by (induction xs rule: rev_induct) auto

lemma coalesce_separated:
  assumes "separated (xs @ (s, f) # ys)"
  shows "separated (coalesce xs s ys)"
proof -
  have "separated xs" "separated ys" using assms by (auto simp: separated_append separated_Cons)
  then have "separated (used_head xs)" "separated (dropWhile snd ys)"
    using used_free [of xs] separated_append [of "used_head xs" "free_tail xs"]
      separated_append [of "takeWhile snd ys" "dropWhile snd ys"] by simp_all
  moreover have "dropWhile snd ys = [] \<or> \<not> snd (hd (dropWhile snd ys))"
    using hd_dropWhile [of snd ys] by blast
  ultimately show ?thesis using used_head_last [of xs] by (auto simp: coalesce_def separated_append separated_Cons)
qed
subsection \<open>Properties\<close>

text \<open>How the properties speak of the blocks a program holds.\<close>

definition disjoint_blocks :: "(nat \<rightharpoonup> nat) \<Rightarrow> bool" where
  "disjoint_blocks L \<longleftrightarrow> (\<forall>p q j k. L p = Some j \<longrightarrow> L q = Some k \<longrightarrow> p \<noteq> q \<longrightarrow> p + j \<le> q \<or> q + k \<le> p)"

definition contents :: "arena \<Rightarrow> nat \<Rightarrow> nat \<Rightarrow> byte list" where
  "contents st p n = map (\<lambda>i. bytes st (p + i)) [0..<n]"

definition same_contents :: "(nat \<rightharpoonup> nat) \<Rightarrow> arena \<Rightarrow> arena \<Rightarrow> bool" where
  "same_contents L st st' \<longleftrightarrow> (\<forall>p k i. L p = Some k \<longrightarrow> i < k \<longrightarrow> bytes st' (p + i) = bytes st (p + i))"

text \<open>The steps of a program that gives back and writes only blocks in use.\<close>

inductive arena_step :: "arena \<Rightarrow> arena \<Rightarrow> bool" where
  malloc: "n \<le> max_request \<Longrightarrow> sys_malloc st n = Some (Return (st', p)) \<Longrightarrow> arena_step st st'"
| free: "arena_holds st L \<Longrightarrow> L p = Some k \<Longrightarrow> sys_free st p = Some (Return (st', r)) \<Longrightarrow> arena_step st st'"
| poke: "arena_holds st L \<Longrightarrow> L p = Some k \<Longrightarrow> i < k \<Longrightarrow> arena_step st (arena_poke st (p + i) v)"

lemma chain_unique: "chain h p a 0 bs \<Longrightarrow> chain h p a 0 cs \<Longrightarrow> 0 < a \<Longrightarrow> bs \<noteq> [] \<Longrightarrow> cs \<noteq> [] \<Longrightarrow> bs = cs"
proof (induction bs arbitrary: p a cs)
  case (Cons b bs)
  obtain s f where b: "b = (s, f)" by (cases b)
  obtain c cs' where cs: "cs = c # cs'" using Cons.prems(5) by (cases cs) auto
  have c: "c = (s, f)" using Cons.prems(1,2) b cs by (cases c) auto
  have "bs = [] \<longleftrightarrow> cs' = []" using Cons.prems(1-3) b c cs by (auto split: if_splits)
  then show ?case using Cons.IH [of a "a + s" cs'] Cons.prems b c cs by (cases "bs = []") auto
qed simp

lemma arena_ok_unique: "arena_ok st bs \<Longrightarrow> arena_ok st cs \<Longrightarrow> bs = cs"
  using chain_unique [of "chunks st" 0 "memHead st" bs cs] by (auto simp: arena_ok_def split: if_splits)

lemma arena_step_separated:
  assumes "arena_step st st'" "arena_ok st bs" "separated bs"
  shows "\<exists>bs'. arena_ok st' bs' \<and> separated bs'"
  using assms
proof (cases rule: arena_step.cases)
  case (malloc n p)
  then show ?thesis
    using malloc_place [OF assms(2) malloc(1) malloc_return [OF assms(2) malloc]] place_separated [OF assms(3)]
    by fastforce
next
  case (free L p k r)
  have "L = lives (memHead st) bs" using free(1) arena_ok_unique assms(2) by (auto simp: arena_holds_def)
  then obtain xs s ys where x: "bs = xs @ (s, False) # ys" "p = memHead st + tot xs + STRUCT_OFFSET"
    using lives_split free(2) by blast
  then show ?thesis using free_coalesce [of st xs s ys] coalesce_separated [of xs s False ys] free(3) assms by auto
next
  case (poke L p k i v)
  have L: "L = lives (memHead st) bs" using poke(2) arena_ok_unique assms(2) by (auto simp: arena_holds_def)
  then obtain xs s ys where x: "bs = xs @ (s, False) # ys" "p = memHead st + tot xs + STRUCT_OFFSET" "k = s - STRUCT_SIZE"
    using lives_split poke(3) by blast
  note ok = arena_okD [OF assms(2), unfolded x(1), simplified]
  have "STRUCT_SIZE \<le> s" using arena_big [OF assms(2)] x(1) by simp
  then have "p + i + 1 \<le> memHead st + tot xs + s" using poke(4) x(2,3) by (simp add: STRUCT_SIZE_def STRUCT_OFFSET_def)
  then have "chain (wipe (chunks st) (p + i) 1) 0 (memHead st) 0 bs"
    using chain_wipe [OF ok(1,2), of "p + i" 1] x by simp
  then have "arena_ok st' bs" using assms(2) poke(1) by (simp add: arena_ok_def arena_poke_def)
  then show ?thesis using assms(3) by blast
qed

text \<open>A kernel that grants every request, and the arenas the examples start from.\<close>

definition granting :: "nat \<Rightarrow> nat \<Rightarrow> nat" where
  "granting cur req = (if req = 0 then cur else if req < 2 ^ 47 then req else FAILED)"

definition boot :: arena where
  "boot = \<lparr>chunks = Map.empty, bytes = (\<lambda>_. 0), memHead = 0, endBreakPoint = 0, brk = 4096, kernel = granting\<rparr>"

definition arena3 :: "bool \<Rightarrow> bool \<Rightarrow> bool \<Rightarrow> arena" where
  "arena3 f g h = \<lparr>chunks = [4096 \<mapsto> \<lparr>csize = 56, is_available = f, cnext = 4152, cprev = 0\<rparr>,
       4152 \<mapsto> \<lparr>csize = 104, is_available = g, cnext = 4256, cprev = 4096\<rparr>,
       4256 \<mapsto> \<lparr>csize = 48, is_available = h, cnext = 0, cprev = 4152\<rparr>],
     bytes = (\<lambda>_. 7), memHead = 4096, endBreakPoint = 4304, brk = 4304, kernel = granting\<rparr>"

lemma granting_ok [simp]: "kernel_ok granting"
  by (simp add: kernel_ok_def granting_def)

lemma boot_ok: "arena_ok boot []"
  by (simp add: arena_ok_def boot_def)

lemma arena3_ok: "arena_ok (arena3 f g h) [(56, f), (104, g), (48, h)]"
  by (simp add: arena_ok_def arena3_def STRUCT_SIZE_def)

lemma arena3_holds: "arena_holds (arena3 f g h) (lives 4096 [(56, f), (104, g), (48, h)])"
  using arena3_ok [of f g h] unfolding arena_holds_def
  by (intro exI [of _ "[(56, f), (104, g), (48, h)]"]) (simp add: arena3_def del: lives.simps)

lemma need_10: "need 10 = 56"
  by (simp add: need_def ALIGN_def ALIGN_SIZE_def STRUCT_SIZE_def)

text \<open>
  Property C5. \<open>sys_malloc\<close> of at most \<open>2 ^ 32 - 48\<close> bytes (\<open>findChunk\<close> takes the size as an \<open>uint\<close>, and beyond it the claim
  fails: \<open>sys_malloc_truncates\<close>) refines first fit on the list of chunks: when a free chunk is
  large enough, or the kernel grants the break asked for, the call returns; it takes the first
  chunk that fits, cut in two when what is left has room for a chunk, or a new chunk at the end,
  keeps the arena well formed, and answers the address behind the header with the payload zeroed
  and every other byte as it was.
\<close>

theorem sys_malloc_refines:
  assumes "arena_ok st bs" "n \<le> max_request" "fits (need n) bs \<or> answer st (need n) = brk st + need n"
  shows "\<exists>st' p bs' o'. sys_malloc st n = Some (Return (st', p)) \<and> place (need n) bs = (bs', o') \<and>
    arena_ok st' bs' \<and> p = memHead st' + o' + STRUCT_OFFSET \<and> zeroed st st' p (payload n)"
  using malloc_place [OF assms] by blast

theorem sys_malloc_refines_witness:
  "\<exists>st' p bs' o'. sys_malloc (arena3 False True False) 10 = Some (Return (st', p)) \<and>
    place (need 10) [(56, False), (104, True), (48, False)] = (bs', o') \<and>
    arena_ok st' bs' \<and> p = memHead st' + o' + STRUCT_OFFSET \<and> zeroed (arena3 False True False) st' p (payload 10)"
  by (rule sys_malloc_refines [OF arena3_ok]) (simp_all add: max_request_def fits_def need_10)

text \<open>
  Property C6. \<open>sys_free\<close> of a block in use refines coalescing: it returns 0, and the
  chunk becomes one free chunk together with all the free chunks right before and after it; the
  other chunks are unchanged, the list stays doubly linked and contiguous, and no payload byte is
  written.
\<close>

theorem sys_free_refines:
  assumes "arena_ok st (xs @ (s, False) # ys)"
  shows "\<exists>st'. sys_free st (memHead st + tot xs + STRUCT_OFFSET) = Some (Return (st', 0)) \<and>
    arena_ok st' (coalesce xs s ys) \<and> bytes st' = bytes st"
  using free_coalesce [OF assms] by auto

theorem sys_free_refines_witness:
  "\<exists>st'. sys_free (arena3 True False True) (memHead (arena3 True False True) + tot [(56, True)] + STRUCT_OFFSET) =
      Some (Return (st', 0)) \<and>
    arena_ok st' (coalesce [(56, True)] 104 [(48, True)]) \<and> bytes st' = bytes (arena3 True False True)"
  by (rule sys_free_refines) (use arena3_ok [of True False True] in simp)

text \<open>
  Property C7. Whatever a client does with \<open>sys_malloc\<close>, asking for at most \<open>2 ^ 32 - 48\<close> bytes at a time, and with \<open>sys_free\<close>,
  as long as it gives back only blocks it holds and writes only the bytes it asked for: the blocks it holds never overlap, and a block it
  neither wrote nor gave back still has its contents.
\<close>

theorem arena_run_safe:
  assumes "heap.run_of st L B st' L'" "arena_holds st L"
  shows "disjoint_blocks L' \<and> L |` (- B) \<subseteq>\<^sub>m L' \<and> same_contents (L |` (- B)) st st'"
  using heap.run_apart [OF assms(1) heap.holds_backed [OF assms(2)]] heap.run_frame [OF assms(1) heap.holds_backed [OF assms(2)]]
  by (auto simp: disjoint_blocks_def same_contents_def map_le_def restrict_map_def split: if_splits)

theorem arena_run_safe_witness:
  "disjoint_blocks (lives 4096 [(56, False), (104, False), (48, True)]) \<and>
    lives 4096 [(56, False), (104, False), (48, True)] |` (- {4128}) \<subseteq>\<^sub>m lives 4096 [(56, False), (104, False), (48, True)] \<and>
    same_contents (lives 4096 [(56, False), (104, False), (48, True)] |` (- {4128}))
      (arena3 False False True) (arena_poke (arena3 False False True) (4128 + 3) 1)"
proof (rule arena_run_safe)
  show "heap.run_of (arena3 False False True) (lives 4096 [(56, False), (104, False), (48, True)]) {4128}
      (arena_poke (arena3 False False True) (4128 + 3) 1) (lives 4096 [(56, False), (104, False), (48, True)])"
    by (rule heap.run_of.stored [OF heap.run_of.here, where n = 16]) (simp_all add: STRUCT_OFFSET_def STRUCT_SIZE_def)
  show "arena_holds (arena3 False False True) (lives 4096 [(56, False), (104, False), (48, True)])"
    by (rule arena3_holds)
qed

text \<open>
  Property C8. When the kernel grants the memory, \<open>sys_realloc\<close> of a block to at most \<open>2 ^ 32 - 48\<close> bytes (the limit of \<open>sys_malloc\<close>) returns and hands
  out a block of at least the size asked for, with the contents of the old one up to the smaller of
  the two sizes; the old block is given back, the new one overlaps no other block and the contents of
  the others are kept.
\<close>

theorem sys_realloc_keeps:
  assumes "arena_holds st L" "L p = Some k" "n \<le> max_request" "answer st (need n) = brk st + need n"
  shows "\<exists>st' q j. sys_realloc st p n = Some (Return (st', q)) \<and> n \<le> j \<and> L q = None \<and>
    arena_holds st' ((L(p := None))(q \<mapsto> j)) \<and> disjoint_blocks ((L(p := None))(q \<mapsto> j)) \<and>
    contents st' q (min k j) = contents st p (min k j) \<and> same_contents (L(p := None)) st st'"
proof -
  obtain bs where "arena_ok st bs" using assms(1) by (auto simp: arena_holds_def)
  then obtain st1 q where m: "sys_malloc st n = Some (Return (st1, q))"
    using malloc_place [of st bs n] assms(3,4) by blast
  obtain st' j where r: "sys_realloc st p n = Some (Return (st', q))" "n \<le> j" "L q = None"
    "arena_holds st' ((L(p := None))(q \<mapsto> j))" "\<forall>i < min k j. bytes st' (q + i) = bytes st (p + i)"
    "\<forall>r m i. L r = Some m \<longrightarrow> r \<noteq> p \<longrightarrow> i < m \<longrightarrow> bytes st' (r + i) = bytes st (r + i)"
    using realloc_law [OF assms(1-3) m] by blast
  have "disjoint_blocks ((L(p := None))(q \<mapsto> j))"
    unfolding disjoint_blocks_def using arena_apart [OF r(4)] by blast
  moreover have "same_contents (L(p := None)) st st'" using r(6) by (auto simp: same_contents_def)
  moreover have "contents st' q (min k j) = contents st p (min k j)" using r(5) by (simp add: contents_def)
  ultimately show ?thesis using r(1-4) by blast
qed

theorem sys_realloc_keeps_witness:
  "\<exists>st' q j. sys_realloc (arena3 False False True) 4128 100 = Some (Return (st', q)) \<and> 100 \<le> j \<and>
    lives 4096 [(56, False), (104, False), (48, True)] q = None \<and>
    arena_holds st' (((lives 4096 [(56, False), (104, False), (48, True)])(4128 := None))(q \<mapsto> j)) \<and>
    disjoint_blocks (((lives 4096 [(56, False), (104, False), (48, True)])(4128 := None))(q \<mapsto> j)) \<and>
    contents st' q (min 16 j) = contents (arena3 False False True) 4128 (min 16 j) \<and>
    same_contents ((lives 4096 [(56, False), (104, False), (48, True)])(4128 := None)) (arena3 False False True) st'"
proof (rule sys_realloc_keeps)
  show "arena_holds (arena3 False False True) (lives 4096 [(56, False), (104, False), (48, True)])"
    by (rule arena3_holds)
qed (simp_all add: STRUCT_OFFSET_def STRUCT_SIZE_def max_request_def need_def ALIGN_def ALIGN_SIZE_def arena3_def granting_def)

text \<open>
  Property C9. Every arena reached from a program's start by \<open>sys_malloc\<close> of at most \<open>2 ^ 32 - 48\<close> bytes at a time, by
  \<open>sys_free\<close> of blocks in use and by writes into them is well formed (contiguous, doubly
  linked, ending at the break) and has no two free chunks side by side: freed space is always merged.
\<close>

theorem reached_arena_ok:
  assumes "arena_step\<^sup>*\<^sup>* st0 st" "arena_ok st0 []"
  shows "\<exists>bs. arena_ok st bs \<and> separated bs"
  using assms
proof (induction rule: rtranclp_induct)
  case base
  then show ?case by (intro exI [of _ "[]"]) simp
next
  case (step st st')
  then obtain bs where "arena_ok st bs" "separated bs" by blast
  then show ?case using arena_step_separated step.hyps(2) by blast
qed

theorem reached_arena_ok_witness:
  "\<exists>st p. sys_malloc boot 10 = Some (Return (st, p)) \<and> (\<exists>bs. arena_ok st bs \<and> separated bs)"
proof -
  have "n = 10 \<Longrightarrow> answer boot (need n) = brk boot + need n" for n by (simp add: need_10 boot_def granting_def)
  then obtain st p where m: "sys_malloc boot 10 = Some (Return (st, p))"
    using malloc_place [OF boot_ok, of 10] by (auto simp: max_request_def)
  have "arena_step boot st" by (rule arena_step.malloc [OF _ m]) (simp add: max_request_def)
  then have "arena_step\<^sup>*\<^sup>* boot st" ..
  then show ?thesis using reached_arena_ok [OF _ boot_ok, of st] m by blast
qed

text \<open>
  A second \<open>sys_free\<close> of the same block is found out and ends the program,
  also when the chunk was merged with the one after it.
\<close>

theorem double_free_exits:
  assumes "arena_ok st (xs @ (s, False) # ys)" "xs = [] \<or> \<not> snd (last xs)"
    "sys_free st (memHead st + tot xs + STRUCT_OFFSET) = Some (Return (st', r))"
  shows "sys_free st' (memHead st + tot xs + STRUCT_OFFSET) = Some (Exit 1)"
proof -
  have u: "used_head xs = xs" "free_tail xs = []"
    using assms(2) by (cases xs rule: rev_cases; simp)+
  obtain h where h: "st' = st\<lparr>chunks := h\<rparr>" "arena_ok (st\<lparr>chunks := h\<rparr>) (coalesce xs s ys)"
    using free_coalesce [OF assms(1)] assms(3) by auto
  then show ?thesis using free_twice [of st' xs] u by (simp add: coalesce_def)
qed

theorem double_free_exits_witness:
  "\<exists>st'. sys_free (arena3 False False True) (4096 + tot [(56, False)] + STRUCT_OFFSET) = Some (Return (st', 0)) \<and>
    sys_free st' (4096 + tot [(56, False)] + STRUCT_OFFSET) = Some (Exit 1)"
proof -
  let ?st = "arena3 False False True"
  have ok: "arena_ok ?st ([(56, False)] @ (104, False) # [(48, True)])" using arena3_ok [of False False True] by simp
  have m: "memHead ?st = 4096" by (simp add: arena3_def)
  obtain st' where "sys_free ?st (memHead ?st + tot [(56, False)] + STRUCT_OFFSET) = Some (Return (st', 0))"
    using free_coalesce [OF ok] by auto
  with double_free_exits [OF ok _ this] m show ?thesis by auto
qed

text \<open>
  A request whose rounded size does not fit in 32 bits is looked up by its lower half
  only: \<open>findChunk\<close> takes an \<open>uint\<close>, so a small free chunk satisfies a huge request,
  is handed out as it is, and zeroing the payload runs past the end of the arena.
\<close>

theorem sys_malloc_truncates:
  assumes "arena_ok st bs" "fits (need n mod 2 ^ 32) bs" "tot bs + STRUCT_SIZE < need n" "need n < 2 ^ 64"
  shows "sys_malloc st n = None"
proof -
  define sz where "sz = need n"
  define bad where "bad = (\<lambda>b :: nat \<times> bool. \<not> (snd b \<and> sz mod 2 ^ 32 \<le> fst b))"
  have ne: "bs \<noteq> []" using assms(2) by (auto simp: fits_def)
  note okD = arena_okD [OF assms(1) ne]
  have "\<exists>b \<in> set bs. \<not> bad b" using assms(2) by (simp add: bad_def fits_def sz_def)
  then obtain b zs where b: "bs = takeWhile bad bs @ b # zs" "dropWhile bad bs = b # zs" "\<not> bad b"
    by (rule takeWhile_found)
  define ys where "ys = takeWhile bad bs"
  obtain s where s: "b = (s, True)" using b(3) by (cases b) (auto simp: bad_def)
  have bs: "bs = ys @ (s, True) # zs" using b(1) s by (simp add: ys_def)
  define c where "c = memHead st + tot ys"
  have find: "findChunk (chunks st) (memHead st) (sz mod 2 ^ 32) 0 = Some (c, last_addr 0 (memHead st) ys)"
    using findChunk_chain [OF okD(1,2), of "sz mod 2 ^ 32" 0] ne assms(2)
    by (simp add: fits_def c_def ys_def bad_def sz_def)
  obtain h1 where h1: "upd (chunks st) c (\<lambda>c. c\<lparr>is_available := False\<rparr>) = Some h1"
    "chain h1 0 (memHead st) 0 (ys @ (s, False) # zs)"
    using chain_flag [of "chunks st" "memHead st" ys s True zs False] okD(1,2) bs by (auto simp: c_def)
  have small: "s < sz" using assms(3) bs by (simp add: sz_def)
  then have h2: "splitChunk (brk st) h1 c sz = Some h1"
    using chain_at [OF h1(2)] by (simp add: splitChunk_def c_def Let_def)
  have "usub sz STRUCT_SIZE = sz - STRUCT_SIZE"
  proof -
    have "sz + 2 ^ 64 - STRUCT_SIZE = (sz - STRUCT_SIZE) + 2 ^ 64" using assms(3) by (simp add: sz_def)
    moreover have "(sz - STRUCT_SIZE) mod 2 ^ 64 = sz - STRUCT_SIZE" using assms(4) by (intro mod_less) (simp add: sz_def)
    ultimately show ?thesis unfolding usub_def by (simp only: mod_add_self2)
  qed
  moreover have "\<not> c + STRUCT_OFFSET + (sz - STRUCT_SIZE) \<le> brk st"
    using okD(4) assms(3) by (simp add: sz_def c_def STRUCT_OFFSET_def STRUCT_SIZE_def)
  ultimately have "mem_zero (st\<lparr>chunks := h1\<rparr>) (c + STRUCT_OFFSET) (usub sz STRUCT_SIZE) = None"
    by (simp add: mem_zero_def)
  moreover have "c \<noteq> 0" using okD(2) by (simp add: c_def)
  ultimately show ?thesis
    using okD(2) find h1(1) h2 by (simp add: sys_malloc_def Let_def mem_init_def sz_def [symmetric])
qed

theorem sys_malloc_truncates_witness: "sys_malloc (arena3 False True False) (2 ^ 32) = None"
  by (rule sys_malloc_truncates [OF arena3_ok])
     (simp_all add: fits_def need_def ALIGN_def ALIGN_SIZE_def STRUCT_SIZE_def)

text \<open>
  When no free chunk fits and the break is not moved, the outcome is the one the code
  has for an answer of \<open>-1\<close>, \<open>exit (1)\<close>; when the kernel answers as Linux does, with
  the break where it was, the refusal goes unseen: the header of the new chunk is written beyond the
  break.
\<close>

theorem sys_malloc_refused:
  assumes "arena_ok st bs" "n \<le> max_request" "\<not> fits (need n) bs" "answer st (need n) \<noteq> brk st + need n"
  shows "sys_malloc st n = (if answer st (need n) = FAILED then Some (Exit 1) else None)"
  using malloc_refused [OF assms(1-3)] answer_cases [OF assms(1), of "need n"] assms(4) by auto

theorem sys_malloc_refused_witness:
  "sys_malloc ((arena3 False True False)\<lparr>kernel := \<lambda>cur req. cur\<rparr>) 200 =
    (if answer ((arena3 False True False)\<lparr>kernel := \<lambda>cur req. cur\<rparr>) (need 200) = FAILED then Some (Exit 1) else None)"
proof (rule sys_malloc_refused)
  show "arena_ok ((arena3 False True False)\<lparr>kernel := \<lambda>cur req. cur\<rparr>) [(56, False), (104, True), (48, False)]"
    using arena3_ok [of False True False] by (simp add: arena_ok_def kernel_ok_def)
qed (simp_all add: fits_def arena3_def max_request_def need_def ALIGN_def ALIGN_SIZE_def STRUCT_SIZE_def)

end
