(* ===== verification/Contracts.thy ===== *)
theory Contracts
  imports Main
begin

section \<open>Interfaces\<close>

text \<open>
  The contracts several components of the library share, as locales: each is interpreted on the
  definitions of the components that provide it, in their theories, and its consequences are proved
  once, here.
\<close>

subsection \<open>A map from keys to values\<close>

text \<open>
  A table promises what a finite map does. An operation may fail (an allocation, a key that is not
  acceptable): the laws speak of the keys and values that are fit for the table.
\<close>

locale string_map =
  fixes empty_table :: "'m \<Rightarrow> bool"
    and table_ok :: "'m \<Rightarrow> bool"
    and fit :: "'k \<Rightarrow> 'v \<Rightarrow> bool"
    and find :: "'m \<Rightarrow> 'k \<Rightarrow> 'v option"
    and store :: "'m \<Rightarrow> 'k \<Rightarrow> 'v \<Rightarrow> 'm option"
    and remove :: "'m \<Rightarrow> 'k \<Rightarrow> 'm option"
  assumes empty_law: "empty_table m \<Longrightarrow> table_ok m \<and> find m = Map.empty"
    and store_law: "table_ok m \<Longrightarrow> fit k v \<Longrightarrow> \<exists>m'. store m k v = Some m' \<and> table_ok m' \<and> find m' = (find m)(k \<mapsto> v)"
    and remove_law: "table_ok m \<Longrightarrow> \<exists>m'. remove m k = Some m' \<and> table_ok m' \<and> find m' = (find m)(k := None)"
begin

text \<open>Storing a list of pairs, one after the other.\<close>

fun store_all :: "'m \<Rightarrow> ('k \<times> 'v) list \<Rightarrow> 'm option" where
  "store_all m [] = Some m"
| "store_all m ((k, v) # kvs) = Option.bind (store m k v) (\<lambda>m. store_all m kvs)"

lemma store_all_finds:
  assumes "table_ok m" "\<forall>(k, v) \<in> set kvs. fit k v"
  shows "\<exists>m'. store_all m kvs = Some m' \<and> table_ok m' \<and> find m' = find m ++ map_of (rev kvs)"
  using assms
proof (induction kvs arbitrary: m)
  case (Cons kv kvs)
  obtain k v where kv: "kv = (k, v)" by (cases kv)
  with store_law [OF Cons.prems(1), of k v] Cons.prems(2) obtain m1
    where m1: "store m k v = Some m1" "table_ok m1" "find m1 = (find m)(k \<mapsto> v)" by auto
  have "find m ++ map_of (rev (kv # kvs)) = find m1 ++ map_of (rev kvs)"
    by (simp add: kv m1(3) map_add_upd_left fun_eq_iff map_add_def split: option.split)
  then show ?case using Cons.IH [OF m1(2)] Cons.prems(2) m1(1) kv by simp
qed simp

lemma store_all_from_empty:
  assumes "empty_table m" "\<forall>(k, v) \<in> set kvs. fit k v" "distinct (map fst kvs)"
  shows "\<exists>m'. store_all m kvs = Some m' \<and> table_ok m' \<and> find m' = map_of kvs"
proof -
  have "map_of (rev kvs) = map_of kvs" using assms(3) by (intro map_of_inject_set [THEN iffD2]) (auto simp: rev_map [symmetric])
  then show ?thesis using store_all_finds [of m kvs] empty_law [OF assms(1)] assms(2) by auto
qed

text \<open>Two stores under different keys commute, as far as lookups see.\<close>

lemma store_commute:
  assumes "table_ok m" "fit k v" "fit l w" "k \<noteq> l" "store_all m [(k, v), (l, w)] = Some m1" "store_all m [(l, w), (k, v)] = Some m2"
  shows "find m1 = find m2"
  using store_all_finds [of m "[(k, v), (l, w)]"] store_all_finds [of m "[(l, w), (k, v)]"] assms
  by (auto simp: fun_eq_iff map_add_def)

lemma store_remove:
  assumes "table_ok m" "fit k v" "find m k = None" "store m k v = Some m1" "remove m1 k = Some m2"
  shows "find m2 = find m"
  using store_law [OF assms(1,2)] remove_law [of m1 k] assms(3-5) by (auto simp: fun_eq_iff)

end

subsection \<open>A pair of inverse codings\<close>

text \<open>What a writer produces, the reader it belongs to reads back.\<close>

locale coding =
  fixes encode :: "'a \<Rightarrow> 'b option"
    and decode :: "'b \<Rightarrow> 'a option"
    and in_domain :: "'a \<Rightarrow> bool"
  assumes encode_law: "in_domain x \<Longrightarrow> \<exists>y. encode x = Some y \<and> decode y = Some x"
begin

lemma encode_inj: "in_domain x \<Longrightarrow> in_domain y \<Longrightarrow> encode x = encode y \<Longrightarrow> x = y"
  using encode_law [of x] encode_law [of y] by auto

lemma reencode: "in_domain x \<Longrightarrow> Option.bind (encode x) decode = Some x"
  using encode_law [of x] by auto

end

section \<open>Simulation\<close>

text \<open>
  A list of operations run one after the other; where one of them has no answer the run has none. When every
  operation keeps a relation to a specification, so does the run, and it has an answer.
\<close>

primrec run_all :: "('op \<Rightarrow> 's \<Rightarrow> 's option) \<Rightarrow> 'op list \<Rightarrow> 's \<Rightarrow> 's option" where
  "run_all exec [] s = Some s"
| "run_all exec (x # xs) s = Option.bind (exec x s) (run_all exec xs)"

locale simulation =
  fixes exec :: "'op \<Rightarrow> 's \<Rightarrow> 's option"
    and spec :: "'op \<Rightarrow> 'c \<Rightarrow> 'c"
    and sim :: "'s \<Rightarrow> 'c \<Rightarrow> bool"
    and ready :: "'op list \<Rightarrow> 's \<Rightarrow> 'c \<Rightarrow> bool"
  assumes step: "sim s c \<Longrightarrow> ready (x # xs) s c \<Longrightarrow> \<exists>s'. exec x s = Some s' \<and> sim s' (spec x c) \<and> ready xs s' (spec x c)"
begin

lemma run_all_sim: "sim s c \<Longrightarrow> ready xs s c \<Longrightarrow> \<exists>s'. run_all exec xs s = Some s' \<and> sim s' (fold spec xs c)"
proof (induction xs arbitrary: s c)
  case (Cons x xs)
  obtain s' where "exec x s = Some s'" "sim s' (spec x c)" "ready xs s' (spec x c)" using step[OF Cons.prems] by blast
  then show ?case using Cons.IH by auto
qed simp

end

end
