(* ===== verification/Hashmap.thy ===== *)
theory Hashmap
  imports Cstrings Contracts "HOL-Library.Multiset"
begin

section \<open>The hash map\<close>

text \<open>
  \<open>map/map.c\<close> and \<open>map/map.h\<close>: a table of slots, each a linked list of entries, with
  the FNV-1a hash of \<open>string/str_hash.c\<close>. A slot is the list of its entries from the head
  on. A key is the byte string the entry's own copy holds. A value is a pointer the map does not
  look into: a parameter type \<open>'v\<close>, with \<open>None\<close> for \<open>NULL\<close>. A release
  callback is a function of the client: a name in the type \<open>'c\<close>; its calls are recorded in
  order, with their argument, in the field \<open>released\<close>. The model does not follow the
  allocations of entries and keys. \<open>None\<close> as a result is undefined behaviour: a division by
  the zero number of slots, or an index out of range.
\<close>

subsection \<open>The table\<close>

type_synonym key = "byte list"

record ('v, 'c) map_type =
  mt_key :: key
  mt_value :: "'v option"
  mt_release :: "'c option"

record ('v, 'c) Map_Type =
  slots :: "('v, 'c) map_type list list"
  num_slots :: nat
  num_keys :: nat
  released :: "('c \<times> 'v option) list"

subsection \<open>Hashing\<close>

definition hash_key :: "key \<Rightarrow> 32 word" where
  "hash_key k = fold (\<lambda>c h. (h XOR ucast c) * 0x01000193) k 0x811c9dc5"

lemma hash_key_str_hash: "cstr m p = Some k \<Longrightarrow> str_hash m p = Some (hash_key k)"
  by (simp add: str_hash_def str_hash_32_def hash_key_def str_hash_32_loop_eq)

text \<open>The DJB2 hash the file also offers; \<open>*sp\<close> is a signed char.\<close>

definition map_hash_key :: "key \<Rightarrow> 32 word" where
  "map_hash_key k = fold (\<lambda>c h. (push_bit 5 h + h) + scast c) k 5381"

definition MAP_HASH_KEY :: "('v, 'c) Map_Type \<Rightarrow> key \<Rightarrow> nat option" where
  "MAP_HASH_KEY m k = (if num_slots m = 0 then None else Some (unat (hash_key k) mod num_slots m))"

definition slot_at :: "('v, 'c) Map_Type \<Rightarrow> nat \<Rightarrow> ('v, 'c) map_type list option" where
  "slot_at m i = (if i < length (slots m) then Some (slots m ! i) else None)"

definition set_slot :: "('v, 'c) Map_Type \<Rightarrow> nat \<Rightarrow> ('v, 'c) map_type list \<Rightarrow> ('v, 'c) Map_Type" where
  "set_slot m i es = m\<lparr>slots := (slots m)[i := es]\<rparr>"

definition call_release :: "('v, 'c) map_type \<Rightarrow> ('v, 'c) Map_Type \<Rightarrow> ('v, 'c) Map_Type" where
  "call_release it m =
     (case mt_release it of None \<Rightarrow> m | Some c \<Rightarrow> m\<lparr>released := released m @ [(c, mt_value it)]\<rparr>)"

subsection \<open>The operations\<close>

definition map_release_slot :: "('v, 'c) map_type list \<Rightarrow> ('v, 'c) Map_Type \<Rightarrow> ('v, 'c) Map_Type" where
  "map_release_slot es m = fold call_release es m"

primrec map_clear_loop :: "nat list \<Rightarrow> ('v, 'c) Map_Type \<Rightarrow> ('v, 'c) Map_Type option" where
  "map_clear_loop [] m = Some m"
| "map_clear_loop (i # is) m =
     (case slot_at m i of None \<Rightarrow> None
      | Some es \<Rightarrow> map_clear_loop is (if es = [] then m else set_slot (map_release_slot es m) i []))"

definition map_clear :: "('v, 'c) Map_Type \<Rightarrow> ('v, 'c) Map_Type option" where
  "map_clear m = map_option (\<lambda>m. m\<lparr>num_keys := 0\<rparr>) (map_clear_loop [0..<num_slots m] m)"

text \<open>\<open>map_release\<close> sets the pointer to \<open>NULL\<close>: what is left are the calls it made.\<close>

definition map_release :: "('v, 'c) Map_Type option \<Rightarrow> ('c \<times> 'v option) list option" where
  "map_release mp = (case mp of None \<Rightarrow> Some [] | Some m \<Rightarrow> map_option released (map_clear m))"

definition map_new :: "nat \<Rightarrow> ('v, 'c) Map_Type" where
  "map_new n = \<lparr>slots = replicate n [], num_slots = n, num_keys = 0, released = []\<rparr>"

fun find_entry :: "('v, 'c) map_type list \<Rightarrow> key \<Rightarrow> ('v, 'c) map_type option" where
  "find_entry [] k = None"
| "find_entry (it # es) k = (if mt_key it = k then Some it else find_entry es k)"

definition map_get_at :: "('v, 'c) Map_Type \<Rightarrow> key \<Rightarrow> nat \<Rightarrow> ('v, 'c) map_type option option" where
  "map_get_at m k hash = map_option (\<lambda>es. find_entry es k) (slot_at m hash)"

definition map_get :: "('v, 'c) Map_Type \<Rightarrow> key \<Rightarrow> ('v, 'c) map_type option option" where
  "map_get m k = MAP_HASH_KEY m k \<bind> map_get_at m k"

definition map_get_value :: "('v, 'c) Map_Type \<Rightarrow> key \<Rightarrow> 'v option option" where
  "map_get_value m k =
     map_option (\<lambda>r. case r of None \<Rightarrow> None | Some it \<Rightarrow> mt_value it) (map_get m k)"

text \<open>
  \<open>__map_set\<close> answers the entry of the key, new at the head of its slot if there was none;
  its caller then writes the fields of that entry: \<open>set_fields\<close>.
\<close>

definition map_set_entry :: "('v, 'c) Map_Type \<Rightarrow> key \<Rightarrow> (('v, 'c) Map_Type \<times> nat) option" where
  "map_set_entry m k =
     do { hash \<leftarrow> MAP_HASH_KEY m k;
          old \<leftarrow> map_get_at m k hash;
          (case old of
             Some it \<Rightarrow> Some (call_release it m, hash)
           | None \<Rightarrow> do {
               es \<leftarrow> slot_at m hash;
               let new = \<lparr>mt_key = k, mt_value = None, mt_release = None\<rparr>;
               Some ((set_slot m hash (new # es))\<lparr>num_keys := (num_keys m + 1) mod 2 ^ 32\<rparr>, hash) }) }"

fun set_fields :: "key \<Rightarrow> 'v option \<Rightarrow> 'c option \<Rightarrow> ('v, 'c) map_type list \<Rightarrow> ('v, 'c) map_type list" where
  "set_fields k v c [] = []"
| "set_fields k v c (it # es) =
     (if mt_key it = k then it\<lparr>mt_value := v, mt_release := c\<rparr> # es else it # set_fields k v c es)"

definition map_set :: "('v, 'c) Map_Type \<Rightarrow> key \<Rightarrow> 'v option \<Rightarrow> 'c option \<Rightarrow> ('v, 'c) Map_Type option" where
  "map_set m k v c =
     do { (m, hash) \<leftarrow> map_set_entry m k;
          es \<leftarrow> slot_at m hash;
          Some (set_slot m hash (set_fields k v c es)) }"

definition map_set_with_key_allocated ::
  "('v, 'c) Map_Type \<Rightarrow> key \<Rightarrow> 'v option \<Rightarrow> 'c option \<Rightarrow> ('v, 'c) Map_Type option" where
  "map_set_with_key_allocated m k v c =
     do { (m, hash) \<leftarrow> map_set_entry m k;
          es \<leftarrow> slot_at m hash;
          Some (set_slot m hash (set_fields k v c es)) }"

definition map_set_by_callback ::
  "('v, 'c) Map_Type \<Rightarrow> key \<Rightarrow> 'c option \<Rightarrow> ('v option \<Rightarrow> 'v option) \<Rightarrow> (('v, 'c) Map_Type \<times> 'v option) option" where
  "map_set_by_callback m k r_cb s_cb =
     do { (m, hash) \<leftarrow> map_set_entry m k;
          es \<leftarrow> slot_at m hash;
          it \<leftarrow> find_entry es k;
          let v = s_cb (mt_value it);
          Some (set_slot m hash (set_fields k v r_cb es), v) }"

definition map_key_exists :: "('v, 'c) Map_Type \<Rightarrow> key \<Rightarrow> bool option" where
  "map_key_exists m k =
     do { hash \<leftarrow> MAP_HASH_KEY m k;
          es \<leftarrow> slot_at m hash;
          Some (find_entry es k \<noteq> None) }"

fun unlink :: "key \<Rightarrow> ('v, 'c) map_type list \<Rightarrow> (('v, 'c) map_type \<times> ('v, 'c) map_type list) option" where
  "unlink k [] = None"
| "unlink k (it # es) =
     (if mt_key it = k then Some (it, es) else map_option (\<lambda>(x, es). (x, it # es)) (unlink k es))"

definition map_pop_value :: "('v, 'c) Map_Type \<Rightarrow> key \<Rightarrow> (('v, 'c) Map_Type \<times> 'v option) option" where
  "map_pop_value m k =
     do { hash \<leftarrow> MAP_HASH_KEY m k;
          es \<leftarrow> slot_at m hash;
          (case unlink k es of
             None \<Rightarrow> Some (m, None)
           | Some (it, es) \<Rightarrow>
               Some ((set_slot m hash es)\<lparr>num_keys := (num_keys m + 2 ^ 32 - 1) mod 2 ^ 32\<rparr>, mt_value it)) }"

text \<open>The two nested loops of \<open>map_clone\<close> and \<open>map_keys\<close> visit the slots in order.\<close>

primrec clone_loop :: "('v option \<Rightarrow> 'v option) \<Rightarrow> ('v, 'c) map_type list \<Rightarrow> ('v, 'c) Map_Type \<Rightarrow> ('v, 'c) Map_Type option" where
  "clone_loop copy [] new = Some new"
| "clone_loop copy (it # es) new =
     map_set new (mt_key it) (copy (mt_value it)) (mt_release it) \<bind> clone_loop copy es"

definition map_clone :: "('v, 'c) Map_Type \<Rightarrow> ('v option \<Rightarrow> 'v option) \<Rightarrow> ('v, 'c) Map_Type option" where
  "map_clone m copy =
     (if num_slots m \<le> length (slots m)
      then clone_loop copy (concat (take (num_slots m) (slots m))) (map_new (num_slots m)) else None)"

definition map_keys :: "('v, 'c) Map_Type \<Rightarrow> key list option" where
  "map_keys m =
     (let ks = map mt_key (concat (take (num_slots m) (slots m))) in
      if num_slots m \<le> length (slots m) \<and> length ks \<le> num_keys m then Some ks else None)"

subsection \<open>The table as a finite map\<close>

abbreviation home :: "('v, 'c) Map_Type \<Rightarrow> key \<Rightarrow> nat" where
  "home m k \<equiv> unat (hash_key k) mod num_slots m"

definition table :: "('v, 'c) Map_Type \<Rightarrow> key \<rightharpoonup> 'v option \<times> 'c option" where
  "table m = (\<lambda>k. map_option (\<lambda>it. (mt_value it, mt_release it)) (find_entry (slots m ! home m k) k))"

definition entries :: "('v, 'c) Map_Type \<Rightarrow> ('v, 'c) map_type list" where
  "entries m = concat (slots m)"

text \<open>Every entry is in the slot of its key, no key is there twice, and the count is right.\<close>

definition map_ok :: "('v, 'c) Map_Type \<Rightarrow> bool" where
  "map_ok m \<longleftrightarrow> 0 < num_slots m \<and> length (slots m) = num_slots m \<and>
     (\<forall>i < num_slots m. distinct (map mt_key (slots m ! i)) \<and> (\<forall>it \<in> set (slots m ! i). home m (mt_key it) = i)) \<and>
     num_keys m = length (entries m) mod 2 ^ 32"

lemma map_okD:
  assumes "map_ok m"
  shows "0 < num_slots m" "length (slots m) = num_slots m" "home m k < length (slots m)"
    "i < num_slots m \<Longrightarrow> distinct (map mt_key (slots m ! i))"
    "i < num_slots m \<Longrightarrow> it \<in> set (slots m ! i) \<Longrightarrow> home m (mt_key it) = i"
    "num_keys m = length (entries m) mod 2 ^ 32"
  using assms by (auto simp: map_ok_def)

lemma MAP_HASH_KEY_ok: "map_ok m \<Longrightarrow> MAP_HASH_KEY m k = Some (home m k)"
  by (simp add: MAP_HASH_KEY_def map_ok_def)

lemma slot_at_ok: "map_ok m \<Longrightarrow> slot_at m (home m k) = Some (slots m ! home m k)"
  by (simp add: slot_at_def map_ok_def)

lemma find_entry_key: "find_entry es k = Some it \<Longrightarrow> it \<in> set es \<and> mt_key it = k"
  by (induction es) (auto split: if_splits)

lemma find_entry_None: "find_entry es k = None \<longleftrightarrow> k \<notin> mt_key ` set es"
  by (induction es) auto

lemma find_entry_set_fields:
  "find_entry (set_fields k v c es) l =
     (if l = k then map_option (\<lambda>it. it\<lparr>mt_value := v, mt_release := c\<rparr>) (find_entry es k) else find_entry es l)"
  by (induction es) auto

lemma set_fields_keys [simp]: "map mt_key (set_fields k v c es) = map mt_key es"
  by (induction es) auto

lemma set_fields_length [simp]: "length (set_fields k v c es) = length es"
  by (induction es) auto

lemma unlink_spec:
  "distinct (map mt_key es) \<Longrightarrow>
   case unlink k es of None \<Rightarrow> find_entry es k = None
   | Some (it, es') \<Rightarrow> find_entry es k = Some it \<and> mset es = add_mset it (mset es') \<and> distinct (map mt_key es') \<and>
       (\<forall>l. find_entry es' l = (if l = k then None else find_entry es l))"
proof (induction es)
  case (Cons e es)
  show ?case
  proof (cases "mt_key e = k")
    case True
    then show ?thesis using Cons.prems find_entry_None [of es k] by auto
  next
    case False
    show ?thesis
    proof (cases "unlink k es")
      case None
      then show ?thesis using Cons False by simp
    next
      case (Some r)
      obtain it es' where r: "r = (it, es')" by (cases r)
      have ih: "find_entry es k = Some it" "mset es = add_mset it (mset es')" "distinct (map mt_key es')"
        "\<And>l. find_entry es' l = (if l = k then None else find_entry es l)"
        using Cons Some r by simp_all
      have "set es = insert it (set es')" using arg_cong [OF ih(2), of set_mset] by simp
      then have "mt_key e \<notin> mt_key ` set es'" using Cons.prems by auto
      then show ?thesis using Some r False ih by simp
    qed
  qed
qed simp

text \<open>Changing one slot.\<close>

lemma mset_concat_update:
  "i < length xs \<Longrightarrow> mset (concat (xs[i := es])) + mset (xs ! i) = mset (concat xs) + mset es"
proof (induction xs arbitrary: i)
  case (Cons x xs)
  then show ?case by (cases i) auto
qed simp

lemma entries_set_slot:
  "i < length (slots m) \<Longrightarrow> mset (entries (set_slot m i es)) + mset (slots m ! i) = mset (entries m) + mset es"
  by (simp add: entries_def set_slot_def mset_concat_update)

lemma set_slot_simps [simp]:
  "num_slots (set_slot m i es) = num_slots m" "num_keys (set_slot m i es) = num_keys m"
  "released (set_slot m i es) = released m" "slots (set_slot m i es) = (slots m)[i := es]"
  by (simp_all add: set_slot_def)

lemma entries_num_keys [simp]: "entries (m\<lparr>num_keys := n\<rparr>) = entries m" "entries (m\<lparr>released := r\<rparr>) = entries m"
  by (simp_all add: entries_def)

lemma call_release_simps [simp]:
  "slots (call_release it m) = slots m" "num_slots (call_release it m) = num_slots m"
  "num_keys (call_release it m) = num_keys m" "entries (call_release it m) = entries m"
  "table (call_release it m) = table m"
  by (auto simp: call_release_def entries_def table_def split: option.splits)

lemma map_ok_call_release [simp]: "map_ok (call_release it m) = map_ok m"
  by (simp add: map_ok_def)

lemma map_ok_set_slot:
  assumes "map_ok m" "i < num_slots m" "distinct (map mt_key es)" "\<And>it. it \<in> set es \<Longrightarrow> home m (mt_key it) = i"
    "n = length (entries (set_slot m i es)) mod 2 ^ 32"
  shows "map_ok ((set_slot m i es)\<lparr>num_keys := n\<rparr>)"
  using assms by (auto simp: map_ok_def nth_list_update)

lemma table_set_slot:
  assumes "map_ok m" "i = home m k" "\<And>l. l \<noteq> k \<Longrightarrow> find_entry es l = find_entry (slots m ! i) l"
  shows "table (set_slot m i es) = (table m)(k := map_option (\<lambda>it. (mt_value it, mt_release it)) (find_entry es k))"
  using assms map_okD(1,2) [OF assms(1)] by (auto simp: table_def fun_eq_iff nth_list_update)

lemma table_num_keys [simp]: "table (m\<lparr>num_keys := n\<rparr>) = table m"
  by (simp add: table_def)

text \<open>The values the table still has to release, each with its callback.\<close>

definition due :: "('v, 'c) Map_Type \<Rightarrow> ('c option \<times> 'v option) multiset" where
  "due m = image_mset (\<lambda>it. (mt_release it, mt_value it)) (mset (entries m))"

definition done_calls :: "('v, 'c) Map_Type \<Rightarrow> ('c option \<times> 'v option) multiset" where
  "done_calls m = image_mset (\<lambda>(c, v). (Some c, v)) (mset (released m))"

text \<open>What has a callback at all.\<close>

abbreviation with_cb :: "('c option \<times> 'v option) multiset \<Rightarrow> ('c option \<times> 'v option) multiset" where
  "with_cb \<equiv> filter_mset (\<lambda>x. fst x \<noteq> None)"

lemma done_call_release:
  "done_calls (call_release it m) = done_calls m + with_cb {#(mt_release it, mt_value it)#}"
  by (auto simp: call_release_def done_calls_def split: option.splits)

lemma set_fields_mset:
  "find_entry es k = Some it \<Longrightarrow> mset (set_fields k v c es) + {#it#} = mset es + {#it\<lparr>mt_value := v, mt_release := c\<rparr>#}"
  by (induction es) (auto split: if_splits)

lemma map_new_simps [simp]: "entries (map_new n) = []" "released (map_new n) = []"
  by (simp_all add: entries_def map_new_def)

subsection \<open>What the operations do\<close>

lemma map_get_eq:
  assumes "map_ok m"
  shows "map_get m k = Some (find_entry (slots m ! home m k) k)"
  by (simp add: map_get_def map_get_at_def MAP_HASH_KEY_ok [OF assms] slot_at_ok [OF assms])

lemma map_get_value_eq: "map_ok m \<Longrightarrow> map_get_value m k = Some (case table m k of None \<Rightarrow> None | Some (v, c) \<Rightarrow> v)"
  by (simp add: map_get_value_def map_get_eq table_def split: option.splits)

lemma map_key_exists_eq: "map_ok m \<Longrightarrow> map_key_exists m k = Some (k \<in> dom (table m))"
  by (auto simp: map_key_exists_def MAP_HASH_KEY_ok slot_at_ok table_def dom_def)

lemma map_set_ok:
  assumes ok: "map_ok (m :: ('v, 'c) Map_Type)"
  shows "\<exists>m'. map_set m k v c = Some m' \<and> map_ok m' \<and> table m' = (table m)(k \<mapsto> (v, c)) \<and>
    done_calls m' + with_cb (due m') = done_calls m + with_cb (due m) + with_cb {#(c, v)#} \<and> num_slots m' = num_slots m"
proof -
  define i where "i = home m k"
  define es where "es = slots m ! i"
  note D = map_okD [OF ok]
  have i: "i < length (slots m)" "i < num_slots m" using D(2,3) by (auto simp: i_def)
  have dist: "distinct (map mt_key es)" and homes: "\<And>it. it \<in> set es \<Longrightarrow> home m (mt_key it) = i"
    using D(4,5) i by (auto simp: es_def)
  show ?thesis
  proof (cases "find_entry es k")
    case (Some it)
    define m1 where "m1 = call_release it m"
    define m' where "m' = set_slot m1 i (set_fields k v c es)"
    have run: "map_set m k v c = Some m'"
      using Some MAP_HASH_KEY_ok [OF ok] slot_at_ok [OF ok] i
      by (simp add: map_set_def map_set_entry_def map_get_at_def slot_at_def m'_def m1_def es_def i_def)
    have e: "entries m' = concat ((slots m)[i := set_fields k v c es])" by (simp add: entries_def m'_def m1_def)
    have ms: "mset (entries m') + {#it#} = mset (entries m) + {#it\<lparr>mt_value := v, mt_release := c\<rparr>#}"
    proof -
      have A: "mset (entries m') + mset es = mset (entries m) + mset (set_fields k v c es)"
        using entries_set_slot [of i m1 "set_fields k v c es"] i by (simp add: m'_def m1_def es_def)
      have "(mset (entries m') + {#it#}) + mset es = (mset (entries m') + mset es) + {#it#}"
        by (simp only: union_assoc union_commute [of "{#it#}"])
      also have "\<dots> = mset (entries m) + (mset (set_fields k v c es) + {#it#})"
        unfolding A by (rule union_assoc)
      also have "\<dots> = (mset (entries m) + {#it\<lparr>mt_value := v, mt_release := c\<rparr>#}) + mset es"
        unfolding set_fields_mset [OF Some, of v c] by (simp add: ac_simps)
      finally show ?thesis by (rule add_right_imp_eq)
    qed
    have len: "length (entries m') = length (entries m)"
      using arg_cong [OF ms, of size] by simp
    have ks: "set (map mt_key (set_fields k v c es)) = set (map mt_key es)" by (simp only: set_fields_keys)
    have "map_ok m'"
    proof -
      have "map_ok ((set_slot m1 i (set_fields k v c es))\<lparr>num_keys := num_keys m\<rparr>)"
      proof (rule map_ok_set_slot)
        show "home m1 (mt_key x) = i" if "x \<in> set (set_fields k v c es)" for x
        proof -
          have "mt_key x \<in> set (map mt_key es)" using that ks by (metis image_eqI list.set_map)
          then show ?thesis using homes by (auto simp: m1_def)
        qed
      qed (use ok i dist D(6) len in \<open>simp_all add: m1_def m'_def\<close>)
      moreover have "m'\<lparr>num_keys := num_keys m\<rparr> = m'" by (simp add: m'_def m1_def call_release_def set_slot_def split: option.split)
      ultimately show ?thesis by (simp add: m'_def)
    qed
    moreover have "table m' = (table m)(k \<mapsto> (v, c))"
      using table_set_slot [of m1 i k "set_fields k v c es"] ok Some
      by (simp add: m'_def m1_def i_def es_def find_entry_set_fields)
    moreover have "done_calls m' + with_cb (due m') = done_calls m + with_cb (due m) + with_cb {#(c, v)#}"
    proof -
      have "done_calls m' = done_calls m + with_cb {#(mt_release it, mt_value it)#}"
        using done_call_release [of it m] by (simp add: m'_def m1_def done_calls_def)
      moreover have "due m' + {#(mt_release it, mt_value it)#} = due m + {#(c, v)#}"
        using arg_cong [OF ms, of "image_mset (\<lambda>it. (mt_release it, mt_value it))"] by (simp add: due_def)
      then have "with_cb (due m') + with_cb {#(mt_release it, mt_value it)#} = with_cb (due m) + with_cb {#(c, v)#}"
        by (metis filter_union_mset)
      ultimately show ?thesis by (simp add: ac_simps)
    qed
    ultimately show ?thesis using run by (intro exI [of _ m']) (simp add: m'_def m1_def)
  next
    case None
    define new :: "('v, 'c) map_type" where "new = \<lparr>mt_key = k, mt_value = None, mt_release = None\<rparr>"
    define it where "it = new\<lparr>mt_value := v, mt_release := c\<rparr>"
    define m' where "m' = (set_slot m i (it # es))\<lparr>num_keys := (num_keys m + 1) mod 2 ^ 32\<rparr>"
    have run: "map_set m k v c = Some m'"
      using None MAP_HASH_KEY_ok [OF ok] slot_at_ok [OF ok] i
      by (simp add: map_set_def map_set_entry_def map_get_at_def slot_at_def m'_def es_def i_def it_def new_def set_slot_def)
    have ms: "mset (entries m') = add_mset it (mset (entries m))"
      using entries_set_slot [of i m "it # es"] i by (simp add: m'_def es_def)
    have len: "length (entries m') = Suc (length (entries m))"
      using arg_cong [OF ms, of size] by simp
    have "map_ok m'" unfolding m'_def
    proof (rule map_ok_set_slot)
      show "distinct (map mt_key (it # es))" using dist None find_entry_None [of es k] by (auto simp: it_def new_def)
      show "home m (mt_key x) = i" if "x \<in> set (it # es)" for x
        using that homes by (auto simp: it_def new_def i_def)
      show "(num_keys m + 1) mod 2 ^ 32 = length (entries (set_slot m i (it # es))) mod 2 ^ 32"
        using len D(6) by (simp add: m'_def mod_Suc_eq)
    qed (use ok i in auto)
    moreover have "table m' = (table m)(k \<mapsto> (v, c))"
      using table_set_slot [of m i k "it # es"] ok by (simp add: m'_def i_def es_def it_def new_def)
    moreover have "done_calls m' + with_cb (due m') = done_calls m + with_cb (due m) + with_cb {#(c, v)#}"
      using ms by (simp add: done_calls_def due_def it_def new_def) (simp add: m'_def)
    ultimately show ?thesis using run by (intro exI [of _ m']) (simp add: m'_def)
  qed
qed
lemma mod32_pred: "(Suc n mod 2 ^ 32 + 2 ^ 32 - 1) mod 2 ^ 32 = n mod 2 ^ 32"
proof -
  have "Suc n mod 2 ^ 32 + 2 ^ 32 - 1 = Suc n mod 2 ^ 32 + (2 ^ 32 - 1)" by simp
  also have "\<dots> mod 2 ^ 32 = (Suc n + (2 ^ 32 - 1)) mod 2 ^ 32" by (rule mod_add_left_eq)
  also have "Suc n + (2 ^ 32 - 1) = n + 2 ^ 32" by simp
  finally show ?thesis by (simp only: mod_add_self2)
qed

lemma map_pop_ok:
  assumes ok: "map_ok m"
  shows "\<exists>m'. map_pop_value m k = Some (m', case table m k of None \<Rightarrow> None | Some (v, c) \<Rightarrow> v) \<and> map_ok m' \<and>
    table m' = (table m)(k := None) \<and> released m' = released m \<and>
    due m' + (case table m k of None \<Rightarrow> {#} | Some (v, c) \<Rightarrow> {#(c, v)#}) = due m"
proof -
  define i where "i = home m k"
  define es where "es = slots m ! i"
  note D = map_okD [OF ok]
  have i: "i < length (slots m)" "i < num_slots m" using D(2,3) by (auto simp: i_def)
  have dist: "distinct (map mt_key es)" and homes: "\<And>it. it \<in> set es \<Longrightarrow> home m (mt_key it) = i"
    using D(4,5) i by (auto simp: es_def)
  note u = unlink_spec [OF dist, of k]
  show ?thesis
  proof (cases "unlink k es")
    case None
    then have "table m k = None" using u by (simp add: table_def es_def i_def)
    then show ?thesis using None ok MAP_HASH_KEY_ok [OF ok] slot_at_ok [OF ok]
      by (intro exI [of _ m]) (auto simp: map_pop_value_def es_def i_def)
  next
    case (Some r)
    obtain it es' where r: "r = (it, es')" by (cases r)
    have e: "find_entry es k = Some it" "mset es = add_mset it (mset es')" "distinct (map mt_key es')"
      "\<And>l. find_entry es' l = (if l = k then None else find_entry es l)"
      using u Some r by simp_all
    define m' where "m' = (set_slot m i es')\<lparr>num_keys := (num_keys m + 2 ^ 32 - 1) mod 2 ^ 32\<rparr>"
    have t: "table m k = Some (mt_value it, mt_release it)" using e(1) by (simp add: table_def es_def i_def)
    have run: "map_pop_value m k = Some (m', mt_value it)"
      using Some r MAP_HASH_KEY_ok [OF ok] slot_at_ok [OF ok] by (simp add: map_pop_value_def es_def i_def m'_def)
    have ms: "add_mset it (mset (entries m')) = mset (entries m)"
      using entries_set_slot [of i m es'] i e(2) by (simp add: m'_def es_def)
    have len: "length (entries m) = Suc (length (entries m'))" using arg_cong [OF ms, of size] by simp
    have sub: "set es' \<subseteq> set es" using arg_cong [OF e(2), of set_mset] by auto
    have "map_ok m'" unfolding m'_def
    proof (rule map_ok_set_slot)
      have "entries (set_slot m i es') = entries m'" by (simp add: m'_def)
      then show "(num_keys m + 2 ^ 32 - 1) mod 2 ^ 32 = length (entries (set_slot m i es')) mod 2 ^ 32"
        unfolding D(6) len by (simp only: mod32_pred)
    qed (use ok i e(3) homes sub in auto)
    moreover have "table m' = (table m)(k := None)"
      using table_set_slot [of m i k es'] ok e(4) by (simp add: m'_def i_def es_def)
    moreover have "due m' + {#(mt_release it, mt_value it)#} = due m"
      using arg_cong [OF ms, of "image_mset (\<lambda>it. (mt_release it, mt_value it))"] by (simp add: due_def)
    ultimately show ?thesis using run t by (intro exI [of _ m']) (simp add: m'_def)
  qed
qed

lemma release_slot_simps [simp]:
  "slots (map_release_slot es m) = slots m" "num_slots (map_release_slot es m) = num_slots m"
  "num_keys (map_release_slot es m) = num_keys m"
  unfolding map_release_slot_def by (induction es arbitrary: m) simp_all

lemma released_release_slot:
  "released (map_release_slot es m) = released m @ [(c, mt_value it). it \<leftarrow> es, c \<leftarrow> (case mt_release it of None \<Rightarrow> [] | Some c \<Rightarrow> [c])]"
  unfolding map_release_slot_def by (induction es arbitrary: m) (auto simp: call_release_def split: option.split)

definition calls_of :: "('v, 'c) map_type list \<Rightarrow> ('c \<times> 'v option) list" where
  "calls_of es = [(c, mt_value it). it \<leftarrow> es, c \<leftarrow> (case mt_release it of None \<Rightarrow> [] | Some c \<Rightarrow> [c])]"

lemma calls_of_append [simp]: "calls_of (xs @ ys) = calls_of xs @ calls_of ys" "calls_of [] = []"
  by (simp_all add: calls_of_def)

lemma map_clear_loop_ok:
  assumes "n \<le> length (slots m)"
  shows "\<exists>m'. map_clear_loop [length (slots m) - n ..< length (slots m)] m = Some m' \<and>
    slots m' = take (length (slots m) - n) (slots m) @ replicate n [] \<and> num_slots m' = num_slots m \<and>
    released m' = released m @ calls_of (concat (drop (length (slots m) - n) (slots m)))"
  using assms
proof (induction n arbitrary: m)
  case 0
  then show ?case by simp
next
  case (Suc n)
  define i where "i = length (slots m) - Suc n"
  have i: "i < length (slots m)" "length (slots m) - n = Suc i" using Suc.prems by (auto simp: i_def)
  define m1 where "m1 = (if slots m ! i = [] then m else set_slot (map_release_slot (slots m ! i) m) i [])"
  have m1: "slots m1 = (slots m)[i := []]" "num_slots m1 = num_slots m"
    "released m1 = released m @ calls_of (slots m ! i)"
    by (auto simp: m1_def released_release_slot calls_of_def list_update_same_conv [THEN iffD2] i)
  obtain m' where m': "map_clear_loop [Suc i..<length (slots m)] m1 = Some m'"
    "slots m' = take (Suc i) (slots m1) @ replicate n []" "num_slots m' = num_slots m1"
    "released m' = released m1 @ calls_of (concat (drop (Suc i) (slots m1)))"
    using Suc.IH [of m1] Suc.prems i(2) by (auto simp: m1(1))
  have "[i..<length (slots m)] = i # [Suc i..<length (slots m)]" using i(1) by (simp add: upt_conv_Cons)
  then have "map_clear_loop [i..<length (slots m)] m = Some m'"
    using m'(1) i(1) by (simp add: slot_at_def m1_def)
  moreover have "take (Suc i) (slots m1) = take i (slots m) @ [[]]"
    using i(1) m1(1) by (simp add: take_Suc_conv_app_nth)
  moreover have "concat (drop i (slots m)) = slots m ! i @ concat (drop (Suc i) (slots m))"
    using i(1) by (simp add: Cons_nth_drop_Suc [symmetric])
  ultimately show ?case using m' m1 by (simp add: i_def [symmetric])
qed

lemma map_clear_ok:
  assumes ok: "map_ok m"
  shows "\<exists>m'. map_clear m = Some m' \<and> map_ok m' \<and> table m' = Map.empty \<and> entries m' = [] \<and> num_keys m' = 0 \<and>
    released m' = released m @ calls_of (entries m)"
proof -
  note D = map_okD(1,2) [OF ok]
  obtain m' where m': "map_clear_loop [0..<num_slots m] m = Some m'" "slots m' = replicate (num_slots m) []"
    "num_slots m' = num_slots m" "released m' = released m @ calls_of (entries m)"
    using map_clear_loop_ok [of "num_slots m" m] D(2) by (auto simp: entries_def)
  have "entries m' = []" by (simp add: entries_def m'(2))
  then show ?thesis
    using D m' by (intro exI [of _ "m'\<lparr>num_keys := 0\<rparr>"]) (auto simp: map_clear_def map_ok_def table_def)
qed

lemma done_due_calls: "image_mset (\<lambda>(c, v). (Some c, v)) (mset (calls_of es)) = with_cb (image_mset (\<lambda>it. (mt_release it, mt_value it)) (mset es))"
  by (induction es) (auto simp: calls_of_def split: option.split)

lemma map_new_ok: "0 < n \<Longrightarrow> map_ok (map_new n) \<and> table (map_new n) = Map.empty \<and> entries (map_new n) = []"
  by (auto simp: map_ok_def map_new_def table_def entries_def fun_eq_iff)

text \<open>The table as it is read through its entries: each key once.\<close>

lemma table_entries:
  assumes ok: "map_ok m"
  shows "table m k = map_of (map (\<lambda>it. (mt_key it, (mt_value it, mt_release it))) (entries m)) k"
    "distinct (map mt_key (entries m))"
proof -
  note D = map_okD [OF ok]
  have other: "k \<notin> mt_key ` set (slots m ! i)" if "i < num_slots m" "i \<noteq> home m k" for i k
    using D(5) [of i] that by auto
  have fe: "map_of (map (\<lambda>it. (mt_key it, (mt_value it, mt_release it))) es) k =
    map_option (\<lambda>it. (mt_value it, mt_release it)) (find_entry es k)" for es :: "('a, 'b) map_type list"
    by (induction es) auto
  have "map_of (map (\<lambda>it. (mt_key it, (mt_value it, mt_release it))) (concat xs)) k =
      (if h < length xs then map_option (\<lambda>it. (mt_value it, mt_release it)) (find_entry (xs ! h) k) else None)"
    if "\<forall>i < length xs. i \<noteq> h \<longrightarrow> k \<notin> mt_key ` set (xs ! i)" for xs :: "('a, 'b) map_type list list" and h
    using that
  proof (induction xs arbitrary: h)
    case (Cons x xs)
    show ?case
    proof (cases h)
      case 0
      have "k \<notin> mt_key ` set (concat xs)"
      proof
        assume "k \<in> mt_key ` set (concat xs)"
        then obtain y where "y \<in> set xs" "k \<in> mt_key ` set y" by auto
        then obtain j where "j < length xs" "k \<in> mt_key ` set (xs ! j)" by (auto simp: in_set_conv_nth)
        then show False using Cons.prems [rule_format, of "Suc j"] 0 by simp
      qed
      then have "map_of (map (\<lambda>it. (mt_key it, (mt_value it, mt_release it))) (concat xs)) k = None"
        by (force simp: map_of_eq_None_iff)
      then show ?thesis using 0 by (simp add: map_add_def fe [of x] split: option.split)
    next
      case (Suc j)
      have "k \<notin> mt_key ` set x" using Cons.prems Suc by force
      then have "find_entry x k = None" by (simp add: find_entry_None)
      moreover have "\<forall>i < length xs. i \<noteq> j \<longrightarrow> k \<notin> mt_key ` set (xs ! i)" using Cons.prems Suc by force
      ultimately show ?thesis using Cons.IH [of j] Suc by (simp add: map_add_def fe split: option.split)
    qed
  qed simp
  from this [of "slots m" "home m k"] show "table m k = map_of (map (\<lambda>it. (mt_key it, (mt_value it, mt_release it))) (entries m)) k"
    using other D(1-3) by (simp add: table_def entries_def)
  have "distinct (concat (map (map mt_key) xs))"
    if "\<forall>i < length xs. distinct (map mt_key (xs ! i))"
      "\<forall>i < length xs. \<forall>j < length xs. i \<noteq> j \<longrightarrow> mt_key ` set (xs ! i) \<inter> mt_key ` set (xs ! j) = {}"
    for xs :: "('a, 'b) map_type list list"
    using that
  proof (induction xs)
    case (Cons x xs)
    have "distinct (concat (map (map mt_key) xs))" using Cons.prems by (intro Cons.IH) (simp_all add: All_less_Suc2)
    moreover have "mt_key ` set x \<inter> mt_key ` set y = {}" if y: "y \<in> set xs" for y
    proof -
      obtain j where "j < length xs" "y = xs ! j" using y by (auto simp: in_set_conv_nth)
      then show ?thesis using Cons.prems(2) by (simp add: All_less_Suc2)
    qed
    ultimately show ?case using Cons.prems(1) by fastforce
  qed simp
  moreover have "mt_key ` set (slots m ! i) \<inter> mt_key ` set (slots m ! j) = {}" if "i < num_slots m" "j < num_slots m" "i \<noteq> j" for i j
  proof -
    have False if "x \<in> set (slots m ! i)" "y \<in> set (slots m ! j)" "mt_key x = mt_key y" for x y
      using D(5) [of i x] D(5) [of j y] that \<open>i < num_slots m\<close> \<open>j < num_slots m\<close> \<open>i \<noteq> j\<close> by simp
    then show ?thesis by fastforce
  qed
  ultimately show "distinct (map mt_key (entries m))" using D(2,4) by (simp add: entries_def map_concat)
qed
subsection \<open>The contract of a map\<close>

interpretation hash: string_map "\<lambda>m. \<exists>n>0. m = map_new n" map_ok "\<lambda>k v. True" table
  "\<lambda>m k vc. map_set m k (fst vc) (snd vc)" "\<lambda>m k. map_option fst (map_pop_value m k)"
proof (unfold_locales, goal_cases)
  case (1 m)
  then show ?case using map_new_ok by blast
next
  case (2 m k vc)
  then show ?case using map_set_ok [of m k "fst vc" "snd vc"] by auto
next
  case (3 m k)
  then show ?case using map_pop_ok [of m k] by auto
qed

lemma clone_loop_store_all:
  "clone_loop copy es m = hash.store_all m (map (\<lambda>it. (mt_key it, (copy (mt_value it), mt_release it))) es)"
  by (induction es arbitrary: m) (auto split: Option.bind_splits)

lemma map_clone_ok:
  assumes ok: "map_ok m"
  shows "\<exists>m'. map_clone m copy = Some m' \<and> map_ok m' \<and> table m' = (\<lambda>k. map_option (map_prod copy id) (table m k))"
proof -
  let ?kvs = "map (\<lambda>it. (mt_key it, (copy (mt_value it), mt_release it))) (entries m)"
  note D = map_okD(1,2) [OF ok]
  have fst: "map fst ?kvs = map mt_key (entries m)" by simp
  have "\<exists>m'. hash.store_all (map_new (num_slots m)) ?kvs = Some m' \<and> map_ok m' \<and> table m' = map_of ?kvs"
    using D(1) table_entries(2) [OF ok] by (intro hash.store_all_from_empty) (auto simp del: map_map simp: fst)
  moreover have "map_of ?kvs = (\<lambda>k. map_option (map_prod copy id) (table m k))"
  proof
    fix k
    have "map_of (map (\<lambda>it. (mt_key it, (copy (mt_value it), mt_release it))) es) k =
        map_option (map_prod copy id) (map_of (map (\<lambda>it. (mt_key it, (mt_value it, mt_release it))) es) k)"
      for es :: "('a, 'b) map_type list" by (induction es) auto
    then show "map_of ?kvs k = map_option (map_prod copy id) (table m k)" by (simp add: table_entries(1) [OF ok])
  qed
  ultimately show ?thesis using D(2) by (simp add: map_clone_def clone_loop_store_all entries_def)
qed

subsection \<open>Properties\<close>

text \<open>
  Property C10. The hash map refines a finite map: on every well-formed table \<open>map_set\<close>
  succeeds, keeps the table well formed (each entry in the slot of its hash, no key twice, the count
  of keys right) and updates exactly the binding of its key; \<open>map_get_value\<close>,
  \<open>map_key_exists\<close> read that map, and \<open>map_pop_value\<close> answers the value and removes
  the binding.
\<close>

theorem map_refines:
  assumes "map_ok m"
  shows "\<exists>m'. map_set m k v c = Some m' \<and> map_ok m' \<and> table m' = (table m)(k \<mapsto> (v, c)) \<and>
    map_get_value m' l = Some (if l = k then v else case table m l of None \<Rightarrow> None | Some (w, _) \<Rightarrow> w) \<and>
    map_key_exists m' l = Some (l = k \<or> l \<in> dom (table m)) \<and>
    (\<exists>m''. map_pop_value m' l = Some (m'', if l = k then v else case table m l of None \<Rightarrow> None | Some (w, _) \<Rightarrow> w) \<and>
      map_ok m'' \<and> table m'' = (table m')(l := None))"
proof -
  obtain m' where m': "map_set m k v c = Some m'" "map_ok m'" "table m' = (table m)(k \<mapsto> (v, c))"
    using map_set_ok [OF assms, of k v c] by blast
  have t: "(case table m' l of None \<Rightarrow> None | Some (v, c) \<Rightarrow> v) = (if l = k then v else case table m l of None \<Rightarrow> None | Some (w, _) \<Rightarrow> w)"
    by (simp add: m'(3))
  obtain m'' where p: "map_pop_value m' l = Some (m'', case table m' l of None \<Rightarrow> None | Some (v, c) \<Rightarrow> v)"
    "map_ok m''" "table m'' = (table m')(l := None)"
    using map_pop_ok [OF m'(2), of l] by blast
  have e: "map_key_exists m' l = Some (l = k \<or> l \<in> dom (table m))" using map_key_exists_eq [OF m'(2), of l] by (simp add: m'(3))
  show ?thesis
    by (intro exI [of _ m'] conjI exI [of _ m'']) (rule m' e p [unfolded t] map_get_value_eq [OF m'(2), of l, unfolded t])+
qed

theorem map_refines_witness:
  "\<exists>m'. map_set (map_new 7 :: (nat, nat) Map_Type) [97] (Some 1) (Some 2) = Some m' \<and> map_ok m' \<and>
    table m' = (table (map_new 7))([97] \<mapsto> (Some 1, Some 2)) \<and>
    map_get_value m' [98] = Some (if [98] = [97 :: byte] then Some 1 else case table (map_new 7 :: (nat, nat) Map_Type) [98] of
      None \<Rightarrow> None | Some (w, _) \<Rightarrow> w) \<and>
    map_key_exists m' [98] = Some ([98] = [97 :: byte] \<or> [98] \<in> dom (table (map_new 7 :: (nat, nat) Map_Type))) \<and>
    (\<exists>m''. map_pop_value m' [98] = Some (m'', if [98] = [97 :: byte] then Some 1 else
        case table (map_new 7 :: (nat, nat) Map_Type) [98] of None \<Rightarrow> None | Some (w, _) \<Rightarrow> w) \<and>
      map_ok m'' \<and> table m'' = (table m')([98] := None))"
  by (rule map_refines) (simp add: map_new_ok)

text \<open>A sequence of operations; a popped entry is the client's to release.\<close>

datatype ('v, 'c) table_op = Put key "'v option" "'c option" | Pop key

fun run_ops :: "('v, 'c) table_op list \<Rightarrow> ('v, 'c) Map_Type \<Rightarrow> (('v, 'c) Map_Type \<times> ('c option \<times> 'v option) multiset) option" where
  "run_ops [] m = Some (m, {#})"
| "run_ops (Put k v c # ops) m = map_set m k v c \<bind> run_ops ops"
| "run_ops (Pop k # ops) m =
     map_pop_value m k \<bind> (\<lambda>(m', _). map_option (map_prod id
       ((+) (with_cb (case table m k of None \<Rightarrow> {#} | Some (v, c) \<Rightarrow> {#(c, v)#})))) (run_ops ops m'))"

fun puts :: "('v, 'c) table_op list \<Rightarrow> ('c option \<times> 'v option) multiset" where
  "puts [] = {#}"
| "puts (Put k v c # ops) = with_cb {#(c, v)#} + puts ops"
| "puts (Pop k # ops) = puts ops"

lemma run_ops_account:
  assumes "map_ok m"
  shows "\<exists>m' t. run_ops ops m = Some (m', t) \<and> map_ok m' \<and>
    done_calls m' + with_cb (due m') + t = done_calls m + with_cb (due m) + puts ops"
  using assms
proof (induction ops arbitrary: m)
  case (Cons x ops)
  show ?case
  proof (cases x)
    case (Put k v c)
    obtain m1 where m1: "map_set m k v c = Some m1" "map_ok m1"
      "done_calls m1 + with_cb (due m1) = done_calls m + with_cb (due m) + with_cb {#(c, v)#}"
      using map_set_ok [OF Cons.prems, of k v c] by blast
    obtain m' t where m': "run_ops ops m1 = Some (m', t)" "map_ok m'"
      "done_calls m' + with_cb (due m') + t = (done_calls m1 + with_cb (due m1)) + puts ops"
      using Cons.IH [OF m1(2)] by blast
    have "done_calls m' + with_cb (due m') + t = done_calls m + with_cb (due m) + (with_cb {#(c, v)#} + puts ops)"
      unfolding m'(3) m1(3) by (rule union_assoc)
    then show ?thesis using Put m1(1) m'(1,2) by simp
  next
    case (Pop k)
    let ?t = "case table m k of None \<Rightarrow> {#} | Some (v, c) \<Rightarrow> {#(c, v)#}"
    obtain m1 w where m1: "map_pop_value m k = Some (m1, w)" "map_ok m1" "released m1 = released m" "due m1 + ?t = due m"
      using map_pop_ok [OF Cons.prems, of k] by blast
    obtain m' t where m': "run_ops ops m1 = Some (m', t)" "map_ok m'"
      "done_calls m' + with_cb (due m') + t = done_calls m1 + with_cb (due m1) + puts ops"
      using Cons.IH [OF m1(2)] by blast
    have "with_cb (due m) = with_cb (due m1) + with_cb ?t" using m1(4) by (metis filter_union_mset)
    moreover have "done_calls m1 = done_calls m" using m1(3) by (simp add: done_calls_def)
    moreover have "done_calls m' + with_cb (due m') + (with_cb ?t + t) = (done_calls m' + with_cb (due m') + t) + with_cb ?t"
      by (simp only: union_assoc union_commute [of t])
    ultimately have "done_calls m' + with_cb (due m') + (with_cb ?t + t) = done_calls m + with_cb (due m) + puts ops"
      unfolding m'(3) by (simp only: union_assoc union_commute [of "puts ops"])
    then show ?thesis using Pop m1(1) m'(1,2) by simp
  qed
qed simp

text \<open>
  Property C11. Every value that \<open>map_set\<close> puts in the table with a release callback is released exactly once:
  when its key is set again or when the table is cleared, unless \<open>map_pop_value\<close> handed it
  back. After any sequence of calls of these two on a new table and a final \<open>map_clear\<close> the release calls made
  and the popped entries are together exactly what was put in, and the table is empty. (Not so with \<open>map_set_by_callback\<close>,
  which hands a released value on: \<open>set_by_callback_after_release\<close>.)
\<close>

theorem released_exactly_once:
  assumes "0 < n"
  shows "\<exists>m t m'. run_ops ops (map_new n) = Some (m, t) \<and> map_clear m = Some m' \<and> entries m' = [] \<and>
    done_calls m' + t = puts ops"
proof -
  obtain m t where m: "run_ops ops (map_new n) = Some (m, t)" "map_ok m"
    "done_calls m + with_cb (due m) + t = done_calls (map_new n) + with_cb (due (map_new n)) + puts ops"
    using run_ops_account [of "map_new n" ops] map_new_ok [OF assms] by blast
  have zero: "done_calls (map_new n) + with_cb (due (map_new n)) = {#}"
    by (simp add: done_calls_def due_def)
  obtain m' where m': "map_clear m = Some m'" "entries m' = []" "released m' = released m @ calls_of (entries m)"
    using map_clear_ok [OF m(2)] by blast
  have "done_calls m' = done_calls m + with_cb (due m)"
    using done_due_calls [of "entries m"] by (simp add: done_calls_def m'(3) due_def)
  then show ?thesis using m m' zero by auto
qed

theorem released_exactly_once_witness:
  "\<exists>m t m'. run_ops [Put [97] (Some 1) (Some 5), Put [97] (Some 2) (Some 5), Pop [98]] (map_new 3 :: (nat, nat) Map_Type) = Some (m, t) \<and>
    map_clear m = Some m' \<and> entries m' = [] \<and>
    done_calls m' + t = puts [Put [97] (Some 1) (Some 5), Put [97] (Some 2) (Some 5), Pop [98]]"
  by (rule released_exactly_once) simp

text \<open>
  \<open>map_clone\<close> makes a well-formed table with the same keys and callbacks and every
  value copied, whatever the collisions, although it fills its slots in the reverse order; and
  \<open>map_keys\<close> lists every key of a table exactly once.
\<close>

theorem clone_and_keys:
  assumes "map_ok m" "length (entries m) < 2 ^ 32"
  shows "\<exists>m' ks. map_clone m copy = Some m' \<and> map_ok m' \<and> table m' = (\<lambda>k. map_option (map_prod copy id) (table m k)) \<and>
    map_keys m = Some ks \<and> distinct ks \<and> set ks = dom (table m) \<and> length ks = num_keys m"
proof -
  have k: "map_keys m = Some (map mt_key (entries m))"
    using map_okD(2,6) [OF assms(1)] assms(2) by (simp add: map_keys_def entries_def)
  have "dom (table m) = set (map mt_key (entries m))"
    using dom_map_of_conv_image_fst [of "map (\<lambda>it. (mt_key it, (mt_value it, mt_release it))) (entries m)"]
      table_entries(1) [OF assms(1)] by (simp add: dom_def image_comp comp_def)
  then show ?thesis using map_clone_ok [OF assms(1), of copy] k table_entries(2) [OF assms(1)] map_okD(6) [OF assms(1)] assms(2)
    by simp
qed

theorem clone_and_keys_witness:
  "\<exists>m' ks. map_clone (map_new 5 :: (nat, nat) Map_Type) (map_option Suc) = Some m' \<and> map_ok m' \<and>
    table m' = (\<lambda>k. map_option (map_prod (map_option Suc) id) (table (map_new 5 :: (nat, nat) Map_Type) k)) \<and>
    map_keys (map_new 5 :: (nat, nat) Map_Type) = Some ks \<and> distinct ks \<and> set ks = dom (table (map_new 5 :: (nat, nat) Map_Type)) \<and>
    length ks = num_keys (map_new 5 :: (nat, nat) Map_Type)"
  by (rule clone_and_keys) (simp_all add: map_new_ok)

text \<open>
  \<open>map_set_by_callback\<close> on a key whose value has a release callback calls it on
  the value and then passes the released value to the callback that computes the new one.
\<close>

theorem set_by_callback_after_release:
  assumes "map_ok m" "table m k = Some (v, Some c)"
  shows "\<exists>m'. map_set_by_callback m k r f = Some (m', f v) \<and> released m' = released m @ [(c, v)]"
proof -
  obtain it where it: "find_entry (slots m ! home m k) k = Some it" "mt_value it = v" "mt_release it = Some c"
    using assms(2) by (auto simp: table_def)
  then show ?thesis using MAP_HASH_KEY_ok [OF assms(1)] slot_at_ok [OF assms(1)] map_okD(3) [OF assms(1)]
    by (simp add: map_set_by_callback_def map_set_entry_def map_get_at_def slot_at_def Let_def) (simp add: call_release_def)
qed

theorem set_by_callback_after_release_witness:
  "\<exists>m'. map_set_by_callback \<lparr>slots = [[\<lparr>mt_key = [97], mt_value = Some (1 :: nat), mt_release = Some (9 :: nat)\<rparr>]],
      num_slots = 1, num_keys = 1, released = []\<rparr> [97] None (map_option Suc) = Some (m', map_option Suc (Some 1)) \<and>
    released m' = [] @ [(9, Some 1)]"
  using set_by_callback_after_release [of "\<lparr>slots = [[\<lparr>mt_key = [97], mt_value = Some (1 :: nat), mt_release = Some (9 :: nat)\<rparr>]],
      num_slots = 1, num_keys = 1, released = []\<rparr>" "[97]" "Some 1" 9 None "map_option Suc"]
  by (simp add: map_ok_def table_def entries_def)

end
