(* ===== verification/Paths.thy ===== *)
theory Paths
  imports Prelude
begin

section \<open>Path names\<close>

text \<open>
  The directory \<open>path/\<close>. A string argument is the array its pointer points into, from the
  pointer to the end of the object, as a list of bytes; a pointer into it is an index. Reading
  outside the array is undefined behaviour, \<open>None\<close>: so is reading before its first byte or,
  in an array that ends with the terminator, behind it. A string a function allocates is its bytes
  without the terminator.
\<close>

subsection \<open>Strings and scans\<close>

definition DIR_SEP :: byte where "DIR_SEP = 47"
definition DOT :: byte where "DOT = 46"

definition IS_DIR_SEP :: "byte \<Rightarrow> bool" where "IS_DIR_SEP c \<longleftrightarrow> c = DIR_SEP"
definition IS_NOT_DIR_SEP :: "byte \<Rightarrow> bool" where "IS_NOT_DIR_SEP c \<longleftrightarrow> \<not> IS_DIR_SEP c"
definition IS_DIR_ABS :: "byte list \<Rightarrow> bool option" where
  "IS_DIR_ABS buf = (case buf of [] \<Rightarrow> None | c # _ \<Rightarrow> Some (IS_DIR_SEP c))"

definition byte_at :: "byte list \<Rightarrow> int \<Rightarrow> byte option" where
  "byte_at buf i = (if 0 \<le> i \<and> i < int (length buf) then Some (buf ! nat i) else None)"

text \<open>\<open>while (P (*sp)) sp++\<close> and \<open>while (sp > lim && P (*(sp - 1))) sp--\<close>.\<close>

fun skip_from :: "(byte \<Rightarrow> bool) \<Rightarrow> byte list \<Rightarrow> nat \<Rightarrow> nat option" where
  "skip_from P [] i = None"
| "skip_from P (c # cs) i = (if P c then skip_from P cs (Suc i) else Some i)"

definition skip_while :: "(byte \<Rightarrow> bool) \<Rightarrow> byte list \<Rightarrow> nat \<Rightarrow> nat option" where
  "skip_while P buf i = skip_from P (drop i buf) i"

fun back_while :: "(byte \<Rightarrow> bool) \<Rightarrow> byte list \<Rightarrow> nat \<Rightarrow> nat option" where
  "back_while P buf 0 = Some 0"
| "back_while P buf (Suc p) =
     (case byte_at buf (int p) of None \<Rightarrow> None | Some c \<Rightarrow> if P c then back_while P buf p else Some (Suc p))"

text \<open>\<open>while (sep != name) { if (P (*sep)) break; sep--; }\<close>\<close>

fun back_until :: "(byte \<Rightarrow> bool) \<Rightarrow> byte list \<Rightarrow> nat \<Rightarrow> nat option" where
  "back_until P buf 0 = Some 0"
| "back_until P buf (Suc p) =
     (case byte_at buf (int (Suc p)) of None \<Rightarrow> None | Some c \<Rightarrow> if P c then Some (Suc p) else back_until P buf p)"

text \<open>\<open>str_copy (new, len + 1, buf + i, len)\<close>: at most \<open>len\<close> bytes, up to a NUL.\<close>

definition copy_at_most :: "byte list \<Rightarrow> nat \<Rightarrow> nat \<Rightarrow> byte list option" where
  "copy_at_most buf i n =
     (let s = takeWhile (\<lambda>c. c \<noteq> 0) (take n (drop i buf)) in
      if length s < n \<and> length buf \<le> i + length s then None else Some s)"

text \<open>What a function that answers a pointer into its argument may answer.\<close>

datatype place = Null_ptr | At nat | Literal "byte list"

subsection \<open>Parts of a name\<close>

definition path_basename :: "byte list option \<Rightarrow> place option" where
  "path_basename name =
     (case name of None \<Rightarrow> Some Null_ptr
      | Some buf \<Rightarrow> do {
          p \<leftarrow> skip_while (\<lambda>c. c \<noteq> 0) buf 0;
          if p = 1 \<and> IS_DIR_SEP (buf ! 0) then Some (At 0)
          else do {
            p \<leftarrow> back_while IS_DIR_SEP buf p;
            p \<leftarrow> back_while IS_NOT_DIR_SEP buf p;
            c \<leftarrow> byte_at buf (int p);
            if p = 0 \<and> IS_DIR_SEP c then Some (Literal [DIR_SEP]) else Some (At p) } })"

fun find_dot :: "byte list \<Rightarrow> nat \<Rightarrow> nat \<Rightarrow> (nat \<times> bool) option" where
  "find_dot buf lim 0 = Some (0, False)"
| "find_dot buf lim (Suc sp) =
     (if Suc sp > lim
      then case byte_at buf (int (Suc sp)) of None \<Rightarrow> None
        | Some c \<Rightarrow> if c = DOT then Some (sp, True) else find_dot buf lim sp
      else Some (Suc sp, False))"

definition path_basename_sans_extname :: "byte list option \<Rightarrow> byte list option option" where
  "path_basename_sans_extname name =
     do { bsnm \<leftarrow> path_basename name;
          (case (bsnm, name) of
             (At b, Some buf) \<Rightarrow> do {
               c \<leftarrow> byte_at buf (int b);
               (sp, found) \<leftarrow>
                 (if c = 0 then Some (b, False)
                  else do { e \<leftarrow> skip_while (\<lambda>c. c \<noteq> 0) buf b; find_dot buf b (e - 1) });
               c \<leftarrow> byte_at buf (int sp);
               let len = (if \<not> found then b else sp - b + (if c \<noteq> DOT then 1 else 0));
               map_option Some (copy_at_most buf b len) }
           | (Null_ptr, _) \<Rightarrow> Some None
           | _ \<Rightarrow> None) }"

definition path_extname :: "byte list option \<Rightarrow> place option" where
  "path_extname name =
     (case name of None \<Rightarrow> Some Null_ptr
      | Some buf \<Rightarrow> do {
          sp \<leftarrow> skip_while (\<lambda>c. c \<noteq> 0) buf 0;
          sp \<leftarrow> back_while (\<lambda>c. c \<noteq> DOT) buf sp;
          if sp = 0 then Some (Literal []) else Some (At (sp - 1)) })"

definition path_is_absolute :: "byte list \<Rightarrow> bool option" where
  "path_is_absolute path = IS_DIR_ABS path"

definition path_dirname :: "byte list option \<Rightarrow> byte list option" where
  "path_dirname name =
     (case name of None \<Rightarrow> Some [DOT]
      | Some buf \<Rightarrow> do {
          len \<leftarrow> skip_while (\<lambda>c. c \<noteq> 0) buf 0;
          if len = 0 then Some [DOT]
          else do {
            sep \<leftarrow> back_until IS_NOT_DIR_SEP buf (len - 1);
            sep \<leftarrow> back_until IS_DIR_SEP buf sep;
            if sep = 1 then copy_at_most buf 0 (sep + 1)
            else do {
              sep \<leftarrow> back_until IS_NOT_DIR_SEP buf sep;
              if sep = 0 then do { c \<leftarrow> byte_at buf 0; Some [if IS_DIR_SEP c then DIR_SEP else DOT] }
              else copy_at_most buf 0 (sep + 1) } } })"

subsection \<open>Joining and splitting\<close>

text \<open>
  \<open>path_concat\<close> is given the lengths of both strings. The separators at the end of the first
  are skipped without looking where it begins; the size it counts down is a \<open>size_t\<close>.
\<close>

fun strip_seps :: "byte list \<Rightarrow> nat \<Rightarrow> nat option" where
  "strip_seps a 0 = None"
| "strip_seps a (Suc n) =
     (case byte_at a (int n) of None \<Rightarrow> None | Some c \<Rightarrow> if c = DIR_SEP then strip_seps a n else Some (Suc n))"

text \<open>The loop at the end, when there is nothing to append: one separator is left.\<close>

fun one_sep :: "byte list \<Rightarrow> nat \<Rightarrow> nat option" where
  "one_sep new 0 = None"
| "one_sep new (Suc 0) =
     (case byte_at new 0 of None \<Rightarrow> None | Some c \<Rightarrow> if c = DIR_SEP then None else Some (Suc 0))"
| "one_sep new (Suc (Suc n)) =
     (case byte_at new (int (Suc n)) of None \<Rightarrow> None
      | Some c \<Rightarrow>
          if c = DIR_SEP
          then case byte_at new (int n) of None \<Rightarrow> None
            | Some d \<Rightarrow> if d = DIR_SEP then one_sep new (Suc n) else Some (Suc (Suc n))
          else Some (Suc (Suc n)))"

definition path_concat :: "byte list \<Rightarrow> nat \<Rightarrow> byte list \<Rightarrow> nat \<Rightarrow> byte list option" where
  "path_concat a a_sz b b_sz =
     do { spb \<leftarrow> skip_while (\<lambda>c. c = DIR_SEP) b 0;
          (if spb \<le> b_sz then Some () else None);
          let b_sz = b_sz - spb;
          a_sz \<leftarrow> (if b_sz \<noteq> 0 then strip_seps a a_sz else Some a_sz);
          if a_sz \<le> length a \<and> spb + b_sz \<le> length b
          then if b_sz \<noteq> 0 then Some (take a_sz a @ [DIR_SEP] @ take b_sz (drop spb b))
               else map_option (\<lambda>i. take i (take a_sz a)) (one_sep (take a_sz a) a_sz)
          else None }"

text \<open>The loop of \<open>path_split\<close> from \<open>sp\<close> on: the items it makes.\<close>

lemma skip_from_le: "skip_from P cs i = Some j \<Longrightarrow> i \<le> j \<and> j < i + length cs \<and> \<not> P (cs ! (j - i))"
  by (induction P cs i arbitrary: j rule: skip_from.induct) (fastforce split: if_splits simp: nth_Cons' Suc_diff_le)+

lemma skip_while_le: "skip_while P buf i = Some j \<Longrightarrow> i \<le> j \<and> j < length buf \<and> \<not> P (buf ! j)"
  using skip_from_le [of P "drop i buf" i j] by (auto simp: skip_while_def)

function path_split_loop :: "byte list \<Rightarrow> nat \<Rightarrow> byte list list option" where
  "path_split_loop buf sp =
     (case skip_while (\<lambda>c. c = DIR_SEP) buf sp of None \<Rightarrow> None
      | Some beg \<Rightarrow>
          if buf ! beg = 0 then Some []
          else case skip_while (\<lambda>c. c \<noteq> DIR_SEP) buf beg of None \<Rightarrow> None
            | Some sp \<Rightarrow> map_option ((#) (takeWhile (\<lambda>c. c \<noteq> 0) (take (sp - beg) (drop beg buf)))) (path_split_loop buf sp))"
  by pat_completeness auto
termination
proof (relation "measure (\<lambda>(buf, sp). length buf - sp)", goal_cases)
  case (2 buf sp beg e)
  have "sp \<le> beg" "beg < length buf" "buf ! beg \<noteq> DIR_SEP" using skip_while_le [OF 2(1)] by auto
  moreover have "beg \<le> e" "e < length buf" "buf ! e = DIR_SEP" using skip_while_le [OF 2(3)] by auto
  ultimately show ?case by (cases "beg = e") auto
qed simp

declare path_split_loop.simps [simp del]

definition path_split :: "byte list option \<Rightarrow> byte list list option option" where
  "path_split path =
     (case path of None \<Rightarrow> Some None
      | Some buf \<Rightarrow> do { c \<leftarrow> byte_at buf 0;
                         if c = 0 then Some None else map_option Some (path_split_loop buf 0) })"

subsection \<open>Resolving a name\<close>

text \<open>
  What \<open>path_real\<close> asks the kernel, a parameter of the model: the working directory,
  what \<open>lstat\<close> says of a name, and the target of a link (at most \<open>MAXLEN_PATH - 1\<close>
  bytes, no NUL).
\<close>

datatype lstat_answer = No_entry | Lstat_error | Is_link | Not_link

record kernel_fs =
  fs_getcwd :: "byte list option"
  fs_lstat :: "byte list \<Rightarrow> lstat_answer"
  fs_readlink :: "byte list \<Rightarrow> byte list option"

datatype resolution = Resolved "byte list" | Name_too_long | Too_many_links | No_cwd | Lstat_failed | Readlink_failed

definition MAXSYMLINKS :: nat where "MAXSYMLINKS = 20"

text \<open>\<open>q = str_chr_r (resolved, DIR_SEP) + 1; *q = 0\<close> after the last byte has been cut.\<close>

definition upto_last_sep :: "byte list \<Rightarrow> byte list option" where
  "upto_last_sep r = (if DIR_SEP \<in> set r then Some (rev (dropWhile (\<lambda>c. c \<noteq> DIR_SEP) (rev r))) else None)"

definition strip_last :: "byte list \<Rightarrow> byte list option" where
  "strip_last r = (if length r > 1 then upto_last_sep (butlast r) else Some r)"

text \<open>
  One turn of the loop over the components, in three parts. \<open>resolved\<close> and \<open>left\<close>
  are the strings in the buffers; \<open>left_len\<close> is the number the code keeps: it also counts the
  separators it has passed. A turn ends the call or goes on with a new state.
\<close>

record walk =
  w_resolved :: "byte list"
  w_left :: "byte list"
  w_left_len :: nat
  w_symlinks :: nat

definition take_token :: "walk \<Rightarrow> byte list \<times> nat \<times> bool \<times> walk" where
  "take_token w =
     (let slash = DIR_SEP \<in> set (w_left w);
          tok = takeWhile (\<lambda>c. c \<noteq> DIR_SEP) (w_left w);
          n = (if slash then length tok else w_left_len w) in
      (tok, n, slash,
       w\<lparr>w_left := (if slash then drop (length tok + 1) (w_left w) else w_left w), w_left_len := w_left_len w - n\<rparr>))"

definition follow_link :: "nat \<Rightarrow> byte list \<Rightarrow> bool \<Rightarrow> walk \<Rightarrow> (resolution + walk) option" where
  "follow_link maxlen symlink slash w =
     do { r \<leftarrow> (if symlink \<noteq> [] \<and> hd symlink = DIR_SEP then Some (take 1 (w_resolved w)) else strip_last (w_resolved w));
          let w = w\<lparr>w_resolved := r, w_symlinks := w_symlinks w + 1\<rparr>;
          (if \<not> slash then Some (Inr (w\<lparr>w_left := symlink, w_left_len := length symlink\<rparr>))
           else if symlink = [] then None
           else if last symlink \<noteq> DIR_SEP \<and> length symlink + 1 \<ge> maxlen then Some (Inl Name_too_long)
           else
             let symlink = (if last symlink \<noteq> DIR_SEP then symlink @ [DIR_SEP] else symlink);
                 symlink = take (maxlen - 1) (symlink @ w_left w) in
             if length symlink \<ge> maxlen then Some (Inl Name_too_long)
             else Some (Inr (w\<lparr>w_left := symlink, w_left_len := length symlink\<rparr>))) }"

definition enter :: "kernel_fs \<Rightarrow> nat \<Rightarrow> byte list \<Rightarrow> bool \<Rightarrow> walk \<Rightarrow> (resolution + walk) option" where
  "enter fs maxlen tok slash w =
     (if tok = [] \<or> tok = [DOT] then Some (Inr w)
      else if tok = [DOT, DOT] then map_option (\<lambda>r. Inr (w\<lparr>w_resolved := r\<rparr>)) (strip_last (w_resolved w))
      else
        let w = w\<lparr>w_resolved := take (maxlen - 1) (w_resolved w @ tok)\<rparr> in
        if length (w_resolved w) \<ge> maxlen then Some (Inl Name_too_long)
        else (case fs_lstat fs (w_resolved w) of
            No_entry \<Rightarrow> Some (Inl (if slash then Lstat_failed else Resolved (w_resolved w)))
          | Lstat_error \<Rightarrow> Some (Inl Lstat_failed)
          | Not_link \<Rightarrow> Some (Inr w)
          | Is_link \<Rightarrow>
              if w_symlinks w > MAXSYMLINKS then Some (Inl Too_many_links)
              else (case fs_readlink fs (w_resolved w) of None \<Rightarrow> Some (Inl Readlink_failed)
                | Some link \<Rightarrow> follow_link maxlen (take (maxlen - 1) link) slash w)))"

definition walk_step :: "kernel_fs \<Rightarrow> nat \<Rightarrow> walk \<Rightarrow> (resolution + walk) option" where
  "walk_step fs maxlen w =
     (if w_left_len w = 0 then
        Some (Inl (Resolved (if length (w_resolved w) > 1 \<and> last (w_resolved w) = DIR_SEP
                             then butlast (w_resolved w) else w_resolved w)))
      else
        let (tok, n, slash, w) = take_token w; r = w_resolved w in
        if n \<ge> maxlen then Some (Inl Name_too_long)
        else if r = [] then None
        else if last r \<noteq> DIR_SEP \<and> length r + 1 \<ge> maxlen then Some (Inl Name_too_long)
        else enter fs maxlen tok slash (w\<lparr>w_resolved := (if last r \<noteq> DIR_SEP then r @ [DIR_SEP] else r)\<rparr>))"

text \<open>Every turn that goes on follows one more link or leaves less to do.\<close>

definition walk_rank :: "walk \<Rightarrow> (nat \<times> nat)" where
  "walk_rank w = (MAXSYMLINKS + 1 - w_symlinks w, length (w_left w) + w_left_len w)"

lemma follow_link_symlinks: "follow_link maxlen symlink slash w = Some (Inr w') \<Longrightarrow> w_symlinks w' = w_symlinks w + 1"
  by (auto simp: follow_link_def Let_def split: if_splits bind_splits)

lemma enter_rank:
  "enter fs maxlen tok slash w = Some (Inr w') \<Longrightarrow>
   w_symlinks w' = w_symlinks w \<and> w_left w' = w_left w \<and> w_left_len w' = w_left_len w \<or>
   w_symlinks w \<le> MAXSYMLINKS \<and> w_symlinks w' = w_symlinks w + 1"
  by (auto simp: enter_def Let_def dest: follow_link_symlinks split: if_splits lstat_answer.splits option.splits)

lemma take_token_rank:
  assumes "take_token w = (tok, n, slash, w')" "w_left_len w \<noteq> 0"
  shows "w_symlinks w' = w_symlinks w" "length (w_left w') + w_left_len w' < length (w_left w) + w_left_len w"
proof -
  have "length (drop (length (takeWhile (\<lambda>c. c \<noteq> DIR_SEP) l) + 1) l) < length l" if "DIR_SEP \<in> set l" for l
    using that by (cases l) auto
  from this [of "w_left w"] show "length (w_left w') + w_left_len w' < length (w_left w) + w_left_len w"
    using assms by (auto simp: take_token_def Let_def split: if_splits)
  show "w_symlinks w' = w_symlinks w" using assms(1) by (auto simp: take_token_def Let_def)
qed

lemma walk_step_rank:
  assumes "walk_step fs maxlen w = Some (Inr w')"
  shows "(walk_rank w', walk_rank w) \<in> less_than <*lex*> less_than"
proof -
  obtain tok n slash w1 where t: "take_token w = (tok, n, slash, w1)" by (cases "take_token w") auto
  have l: "w_left_len w \<noteq> 0" using assms by (cases "w_left_len w = 0") (simp_all add: walk_step_def)
  let ?w2 = "w1\<lparr>w_resolved := (if last (w_resolved w1) \<noteq> DIR_SEP then w_resolved w1 @ [DIR_SEP] else w_resolved w1)\<rparr>"
  have "enter fs maxlen tok slash ?w2 = Some (Inr w')"
    using assms l t by (simp add: walk_step_def Let_def split: if_splits)
  from enter_rank [OF this] take_token_rank [OF t l] show ?thesis
    by (auto simp: walk_rank_def)
qed

function path_real_loop :: "kernel_fs \<Rightarrow> nat \<Rightarrow> walk \<Rightarrow> resolution option" where
  "path_real_loop fs maxlen w =
     (case walk_step fs maxlen w of None \<Rightarrow> None
      | Some (Inl r) \<Rightarrow> Some r
      | Some (Inr w') \<Rightarrow> path_real_loop fs maxlen w')"
  by pat_completeness auto
termination
  by (relation "inv_image (less_than <*lex*> less_than) (\<lambda>(fs, maxlen, w). walk_rank w)")
     (auto dest: walk_step_rank)

declare path_real_loop.simps [simp del]

definition path_real :: "kernel_fs \<Rightarrow> nat \<Rightarrow> byte list \<Rightarrow> resolution option" where
  "path_real fs maxlen path =
     (if path \<noteq> [] \<and> hd path = DIR_SEP then
        if length path = 1 then Some (Resolved [DIR_SEP])
        else let left = take (maxlen - 1) (tl path) in path_real_loop fs maxlen \<lparr>w_resolved = [DIR_SEP], w_left = left, w_left_len = length left, w_symlinks = 0\<rparr>
      else (case fs_getcwd fs of None \<Rightarrow> Some No_cwd
        | Some cwd \<Rightarrow>
            if length cwd \<ge> maxlen then Some Name_too_long
            else let left = take (maxlen - 1) path in path_real_loop fs maxlen \<lparr>w_resolved = cwd, w_left = left, w_left_len = length left, w_symlinks = 0\<rparr>))"
subsection \<open>What resolving yields\<close>

text \<open>A component that names something, and the names made of such components.\<close>

definition good :: "byte list \<Rightarrow> bool" where
  "good c \<longleftrightarrow> c \<noteq> [] \<and> DIR_SEP \<notin> set c \<and> c \<noteq> [DOT] \<and> c \<noteq> [DOT, DOT]"

definition as_dir :: "byte list list \<Rightarrow> byte list" where
  "as_dir cs = DIR_SEP # concat (map (\<lambda>c. c @ [DIR_SEP]) cs)"

definition as_name :: "byte list list \<Rightarrow> byte list" where
  "as_name cs = (if cs = [] then [DIR_SEP] else butlast (as_dir cs))"

definition normal :: "byte list \<Rightarrow> bool" where
  "normal r \<longleftrightarrow> (\<exists>cs. (\<forall>c \<in> set cs. good c) \<and> r = as_name cs)"

lemma as_dir_simps [simp]: "as_dir [] = [DIR_SEP]" "as_dir (cs @ [c]) = as_dir cs @ c @ [DIR_SEP]" "as_dir cs \<noteq> []"
  "last (as_dir cs) = DIR_SEP" "DIR_SEP \<in> set (as_dir cs)" "hd (as_dir cs) = DIR_SEP"
  by (simp_all add: as_dir_def) (induction cs rule: rev_induct; simp)

lemma as_name_snoc [simp]: "as_name (cs @ [c]) = as_dir cs @ c" "as_name [] = [DIR_SEP]"
  by (simp_all add: as_name_def butlast_append)

lemma as_dir_cases: "as_dir cs = [DIR_SEP] \<and> cs = [] \<or> (\<exists>ds c. cs = ds @ [c] \<and> as_dir cs = as_dir ds @ c @ [DIR_SEP])"
  by (cases cs rule: rev_cases) auto

lemma upto_last_sep_tail: "DIR_SEP \<notin> set t \<Longrightarrow> upto_last_sep (as_dir cs @ t) = Some (as_dir cs)"
proof -
  assume t: "DIR_SEP \<notin> set t"
  have "dropWhile (\<lambda>c. c \<noteq> DIR_SEP) (rev t @ rev (as_dir cs)) = dropWhile (\<lambda>c. c \<noteq> DIR_SEP) (rev (as_dir cs))"
    using t by (subst dropWhile_append2) auto
  also have "\<dots> = rev (as_dir cs)"
  proof -
    have "as_dir cs = butlast (as_dir cs) @ [DIR_SEP]"
      using append_butlast_last_id [OF as_dir_simps(3) [of cs]] by simp
    then obtain ys where "as_dir cs = ys @ [DIR_SEP]" ..
    then show ?thesis by simp
  qed
  finally show ?thesis by (simp add: upto_last_sep_def)
qed

lemma strip_last_tail:
  assumes "\<forall>c \<in> set cs. good c" "DIR_SEP \<notin> set t"
  shows "\<exists>ds. strip_last (as_dir cs @ t) = Some (as_dir ds) \<and> (\<forall>c \<in> set ds. good c) \<and> length (as_dir ds) \<le> length (as_dir cs @ t)"
proof (cases "t = []")
  case False
  then have "butlast (as_dir cs @ t) = as_dir cs @ butlast t" by (simp add: butlast_append)
  moreover have "DIR_SEP \<notin> set (butlast t)" using assms(2) by (auto dest: in_set_butlastD)
  moreover have "1 < length (as_dir cs @ t)" using False by (cases t) (auto simp: as_dir_def)
  ultimately show ?thesis using assms(1) upto_last_sep_tail [of "butlast t" cs]
    by (intro exI [of _ cs]) (simp add: strip_last_def)
next
  case True
  then show ?thesis
  proof (cases cs rule: rev_cases)
    case Nil
    then show ?thesis using True by (intro exI [of _ "[]"]) (simp add: strip_last_def)
  next
    case (snoc ds c)
    have c: "c \<noteq> []" "DIR_SEP \<notin> set c" using assms(1) snoc by (auto simp: good_def)
    have "butlast (as_dir cs) = as_dir ds @ c" using snoc by (simp add: butlast_append)
    then show ?thesis using upto_last_sep_tail [OF c(2), of ds] assms(1) snoc True c(1)
      by (intro exI [of _ ds]) (auto simp: strip_last_def)
  qed
qed

text \<open>
  The names the loop builds: components that name something, with or without a separator at the end,
  or such a name and a cut component that fill the buffer.
\<close>

definition built :: "nat \<Rightarrow> byte list \<Rightarrow> bool" where
  "built maxlen r \<longleftrightarrow> length r < maxlen \<and> (\<exists>cs t. (\<forall>c \<in> set cs. good c) \<and> r = as_dir cs @ t \<and> DIR_SEP \<notin> set t \<and>
     (t = [] \<or> good t \<or> length r = maxlen - 1))"

definition resolution_ok :: "nat \<Rightarrow> resolution \<Rightarrow> bool" where
  "resolution_ok maxlen res = (case res of Resolved r \<Rightarrow> normal r \<or> length r = maxlen - 1 | _ \<Rightarrow> True)"

lemma built_dir: "\<forall>c \<in> set cs. good c \<Longrightarrow> length (as_dir cs) < maxlen \<Longrightarrow> built maxlen (as_dir cs)"
  unfolding built_def by (intro conjI exI [of _ cs] exI [of _ "[]"]) auto

lemma built_normal: "normal r \<Longrightarrow> length r < maxlen \<Longrightarrow> built maxlen r"
  unfolding normal_def
proof (elim exE conjE)
  fix cs assume a: "length r < maxlen" "\<forall>c \<in> set cs. good c" "r = as_name cs"
  show "built maxlen r"
  proof (cases cs rule: rev_cases)
    case Nil
    then show ?thesis using a built_dir [of "[]" maxlen] by simp
  next
    case (snoc ds c)
    then show ?thesis using a unfolding built_def
      by (intro conjI exI [of _ ds] exI [of _ c]) (auto simp: good_def)
  qed
qed

lemma built_sep:
  assumes "built maxlen r" "\<not> (last r \<noteq> DIR_SEP \<and> length r + 1 \<ge> maxlen)"
  shows "\<exists>cs. (\<forall>c \<in> set cs. good c) \<and> (if last r \<noteq> DIR_SEP then r @ [DIR_SEP] else r) = as_dir cs \<and> length (as_dir cs) < maxlen"
proof -
  obtain cs t where t: "\<forall>c \<in> set cs. good c" "r = as_dir cs @ t" "DIR_SEP \<notin> set t" "t = [] \<or> good t \<or> length r = maxlen - 1"
    "length r < maxlen" using assms(1) unfolding built_def by blast
  show ?thesis
  proof (cases "t = []")
    case True
    then show ?thesis using t by (intro exI [of _ cs]) simp
  next
    case False
    then have l: "last r \<noteq> DIR_SEP" using t(2,3) by (metis last_append last_in_set)
    then have "good t" using t(4,5) assms(2) False by auto
    then show ?thesis using t l assms(2) by (intro exI [of _ "cs @ [t]"]) auto
  qed
qed

lemma built_result:
  assumes "built maxlen r"
  shows "resolution_ok maxlen (Resolved (if length r > 1 \<and> last r = DIR_SEP then butlast r else r))"
proof -
  obtain cs t where t: "\<forall>c \<in> set cs. good c" "r = as_dir cs @ t" "DIR_SEP \<notin> set t" "t = [] \<or> good t \<or> length r = maxlen - 1"
    using assms(1) unfolding built_def by blast
  show ?thesis
  proof (cases "t = []")
    case True
    have "normal (if length r > 1 then butlast r else r)"
      unfolding normal_def using t True
      by (intro exI [of _ cs]) (cases cs rule: rev_cases; auto simp: as_name_def)
    then show ?thesis using t True by (simp add: resolution_ok_def)
  next
    case False
    then have l: "last r \<noteq> DIR_SEP" using t(2,3) by (metis last_append last_in_set)
    have "good t \<Longrightarrow> normal r" unfolding normal_def using t(1,2) by (intro exI [of _ "cs @ [t]"]) auto
    then show ?thesis using l t(4) False by (auto simp: resolution_ok_def)
  qed
qed

lemma built_append:
  assumes "\<forall>c \<in> set cs. good c" "good tok" "length (as_dir cs) < maxlen" "1 < maxlen"
  defines "r \<equiv> take (maxlen - 1) (as_dir cs @ tok)"
  shows "built maxlen r" "resolution_ok maxlen (Resolved r)" "\<exists>ds. strip_last r = Some (as_dir ds) \<and> (\<forall>c \<in> set ds. good c) \<and> length (as_dir ds) < maxlen"
    "take 1 r = [DIR_SEP]"
proof -
  let ?t = "take (maxlen - 1 - length (as_dir cs)) tok"
  have r: "r = as_dir cs @ ?t" using assms(3) by (simp add: r_def)
  have s: "DIR_SEP \<notin> set ?t" using assms(2) by (auto simp: good_def dest: in_set_takeD)
  have l: "length r < maxlen" using assms(4) by (simp add: r_def)
  have g: "?t = tok \<or> length r = maxlen - 1" using assms(3) by (auto simp: r_def)
  show "built maxlen r" unfolding built_def
    using assms(1,2) r s l g by (intro conjI exI [of _ cs] exI [of _ ?t]) auto
  have "?t = tok \<Longrightarrow> normal r" unfolding normal_def using r assms(1,2) by (intro exI [of _ "cs @ [tok]"]) auto
  then show "resolution_ok maxlen (Resolved r)" using g by (auto simp: resolution_ok_def)
  show "\<exists>ds. strip_last r = Some (as_dir ds) \<and> (\<forall>c \<in> set ds. good c) \<and> length (as_dir ds) < maxlen"
    using strip_last_tail [OF assms(1) s] r l by auto
  show "take 1 r = [DIR_SEP]" unfolding r by (simp add: as_dir_def)
qed

definition walk_ok :: "nat \<Rightarrow> (resolution + walk) option \<Rightarrow> bool" where
  "walk_ok maxlen s = (case s of None \<Rightarrow> False | Some (Inl res) \<Rightarrow> resolution_ok maxlen res | Some (Inr w) \<Rightarrow> built maxlen (w_resolved w))"

lemma follow_link_ok:
  assumes "\<forall>c \<in> set cs. good c" "good tok" "length (as_dir cs) < maxlen" "1 < maxlen"
    "w_resolved w = take (maxlen - 1) (as_dir cs @ tok)" "symlink \<noteq> []"
  shows "walk_ok maxlen (follow_link maxlen symlink slash w)"
proof -
  note b = built_append [OF assms(1-4)]
  obtain ds where ds: "strip_last (w_resolved w) = Some (as_dir ds)" "\<forall>c \<in> set ds. good c" "length (as_dir ds) < maxlen"
    using b(3) assms(5) by auto
  have root: "built maxlen [DIR_SEP]" using built_dir [of "[]" maxlen] assms(4) by simp
  show ?thesis using assms(4-6) b(4) ds built_dir [OF ds(2,3)] root
    by (auto simp: follow_link_def Let_def walk_ok_def resolution_ok_def)
qed

lemma enter_ok:
  assumes "\<forall>c \<in> set cs. good c" "w_resolved w = as_dir cs" "length (as_dir cs) < maxlen" "1 < maxlen" "DIR_SEP \<notin> set tok"
    "\<And>r. fs_readlink fs r \<noteq> Some []"
  shows "walk_ok maxlen (enter fs maxlen tok slash w)"
proof -
  consider "tok = [] \<or> tok = [DOT]" | "tok = [DOT, DOT]" | "good tok" using assms(5) unfolding good_def by blast
  then show ?thesis
  proof cases
    case 1
    then show ?thesis using built_dir [OF assms(1,3)] assms(2) by (auto simp: enter_def walk_ok_def)
  next
    case 2
    obtain ds where "strip_last (as_dir cs) = Some (as_dir ds)" "\<forall>c \<in> set ds. good c" "length (as_dir ds) \<le> length (as_dir cs)"
      using strip_last_tail [OF assms(1), of "[]"] by auto
    then show ?thesis using 2 built_dir [of ds maxlen] assms(2,3) by (auto simp: enter_def walk_ok_def)
  next
    case 3
    note b = built_append [OF assms(1) 3 assms(3,4)]
    have n: "\<not> (tok = [] \<or> tok = [DOT])" "tok \<noteq> [DOT, DOT]" using 3 by (auto simp: good_def)
    let ?w = "w\<lparr>w_resolved := take (maxlen - 1) (as_dir cs @ tok)\<rparr>"
    have l: "\<not> maxlen \<le> length (take (maxlen - 1) (as_dir cs @ tok))" using assms(4) by simp
    have f: "walk_ok maxlen (follow_link maxlen (take (maxlen - 1) link) slash ?w)" if "link \<noteq> []" for link
      using follow_link_ok [OF assms(1) 3 assms(3,4), of ?w "take (maxlen - 1) link"] that assms(4) by simp
    have upd: "w_resolved (w\<lparr>w_resolved := x\<rparr>) = x" "w_symlinks (w\<lparr>w_resolved := x\<rparr>) = w_symlinks w" for x
      by simp_all
    have e: "enter fs maxlen tok slash w =
       (case fs_lstat fs (w_resolved ?w) of
            No_entry \<Rightarrow> Some (Inl (if slash then Lstat_failed else Resolved (w_resolved ?w)))
          | Lstat_error \<Rightarrow> Some (Inl Lstat_failed)
          | Not_link \<Rightarrow> Some (Inr ?w)
          | Is_link \<Rightarrow>
              if w_symlinks w > MAXSYMLINKS then Some (Inl Too_many_links)
              else (case fs_readlink fs (w_resolved ?w) of None \<Rightarrow> Some (Inl Readlink_failed)
                | Some link \<Rightarrow> follow_link maxlen (take (maxlen - 1) link) slash ?w))"
      unfolding enter_def Let_def assms(2)
      by (simp only: upd if_not_P [OF n(1)] if_not_P [OF n(2)] if_not_P [OF l])
    show ?thesis
    proof (cases "fs_lstat fs (w_resolved ?w)")
      case Is_link
      show ?thesis
      proof (cases "fs_readlink fs (w_resolved ?w)")
        case None
        then show ?thesis using e Is_link by (simp add: walk_ok_def resolution_ok_def)
      next
        case (Some link)
        then have "link \<noteq> []" using assms(6) by auto
        then show ?thesis using e Is_link Some f [of link] by (simp add: walk_ok_def resolution_ok_def)
      qed
    qed (use e b in \<open>simp_all add: walk_ok_def resolution_ok_def\<close>)
  qed
qed

lemma walk_step_ok:
  assumes "built maxlen (w_resolved w)" "1 < maxlen" "\<And>r. fs_readlink fs r \<noteq> Some []"
  shows "walk_ok maxlen (walk_step fs maxlen w)"
proof (cases "w_left_len w = 0")
  case True
  then show ?thesis using built_result [OF assms(1)] by (simp add: walk_step_def walk_ok_def)
next
  case False
  obtain tok n slash w1 where t: "take_token w = (tok, n, slash, w1)" by (cases "take_token w") auto
  have r: "w_resolved w1 = w_resolved w" and s: "DIR_SEP \<notin> set tok"
    using t by (auto simp: take_token_def Let_def dest: set_takeWhileD)
  let ?r = "w_resolved w"
  have ne: "?r \<noteq> []" using assms(1) by (auto simp: built_def as_dir_def)
  show ?thesis
  proof (cases "n \<ge> maxlen \<or> last ?r \<noteq> DIR_SEP \<and> length ?r + 1 \<ge> maxlen")
    case True
    then show ?thesis using False t r ne by (auto simp: walk_step_def Let_def walk_ok_def resolution_ok_def)
  next
    case ok: False
    obtain cs where cs: "\<forall>c \<in> set cs. good c" "(if last ?r \<noteq> DIR_SEP then ?r @ [DIR_SEP] else ?r) = as_dir cs" "length (as_dir cs) < maxlen"
      using built_sep [OF assms(1)] ok by blast
    have "walk_step fs maxlen w = enter fs maxlen tok slash (w1\<lparr>w_resolved := as_dir cs\<rparr>)"
      using False t r ne ok cs(2) unfolding walk_step_def by (cases "last ?r = DIR_SEP") (auto simp: Let_def)
    then show ?thesis using enter_ok [OF cs(1) _ cs(3) assms(2) s assms(3), of "w1\<lparr>w_resolved := as_dir cs\<rparr>"] by simp
  qed
qed

lemma path_real_loop_ok:
  assumes "built maxlen (w_resolved w)" "1 < maxlen" "\<And>r. fs_readlink fs r \<noteq> Some []"
  shows "\<exists>res. path_real_loop fs maxlen w = Some res \<and> resolution_ok maxlen res"
  using assms(1)
proof (induction fs\<equiv>fs maxlen\<equiv>maxlen w rule: path_real_loop.induct)
  case (1 w)
  have ok: "walk_ok maxlen (walk_step fs maxlen w)" using walk_step_ok 1(2) assms(2,3) by blast
  show ?case
  proof (cases "walk_step fs maxlen w")
    case None
    then show ?thesis using ok by (simp add: walk_ok_def)
  next
    case (Some s)
    then show ?thesis using ok 1(1) by (subst path_real_loop.simps) (cases s; simp add: walk_ok_def)
  qed
qed
subsection \<open>Properties\<close>

text \<open>
  Property C38. \<open>path_real\<close> always comes back, whatever the links in the file system (the loop
  ends because at most \<open>MAXSYMLINKS + 2\<close> links are followed), never reads or cuts outside its
  buffers, and a name it resolves is absolute, has no empty component, no \<open>.\<close> and no
  \<open>..\<close>, and no separator at the end, unless it fills the buffer.
\<close>

theorem path_real_normal:
  assumes "1 < maxlen" "\<And>r. fs_readlink fs r \<noteq> Some []" "\<And>r. fs_getcwd fs = Some r \<Longrightarrow> normal r"
  shows "\<exists>res. path_real fs maxlen path = Some res \<and> resolution_ok maxlen res"
proof -
  have root: "built maxlen [DIR_SEP]" using built_dir [of "[]" maxlen] assms(1) by simp
  have "normal [DIR_SEP]" unfolding normal_def by (intro exI [of _ "[]"]) simp
  then have r: "resolution_ok maxlen (Resolved [DIR_SEP])" by (simp add: resolution_ok_def)
  have loop: "\<exists>res. path_real_loop fs maxlen \<lparr>w_resolved = r, w_left = l, w_left_len = n, w_symlinks = 0\<rparr> = Some res \<and>
    resolution_ok maxlen res" if "built maxlen r" for r l n
    using path_real_loop_ok [of maxlen "\<lparr>w_resolved = r, w_left = l, w_left_len = n, w_symlinks = 0\<rparr>" fs] that assms(1,2) by simp
  show ?thesis
  proof (cases "path \<noteq> [] \<and> hd path = DIR_SEP")
    case True
    then show ?thesis using loop [OF root] r by (simp add: path_real_def Let_def)
  next
    case False
    show ?thesis
    proof (cases "fs_getcwd fs")
      case None
      then show ?thesis unfolding path_real_def if_not_P [OF False] by (simp add: resolution_ok_def)
    next
      case (Some cwd)
      show ?thesis
      proof (cases "maxlen \<le> length cwd")
        case True
        then show ?thesis unfolding path_real_def if_not_P [OF False] by (simp add: Some resolution_ok_def)
      next
        case short: False
        then show ?thesis unfolding path_real_def if_not_P [OF False]
          using loop [OF built_normal [OF assms(3) [OF Some]]] by (simp add: Some Let_def)
      qed
    qed
  qed
qed

theorem path_real_normal_witness:
  "\<exists>res. path_real \<lparr>fs_getcwd = Some [47, 104], fs_lstat = (\<lambda>r. if r = [47, 104, 47, 97] then Is_link else Not_link),
      fs_readlink = (\<lambda>r. Some [46, 46, 47, 97])\<rparr> 4096 [97, 47, 98] = Some res \<and> resolution_ok 4096 res"
proof (rule path_real_normal)
  fix r assume "fs_getcwd \<lparr>fs_getcwd = Some [47, 104], fs_lstat = (\<lambda>r. if r = [47, 104, 47, 97] then Is_link else Not_link),
      fs_readlink = (\<lambda>r. Some [46, 46, 47, 97])\<rparr> = Some r"
  then have "r = as_name [[104]]" using as_name_snoc(1) [of "[]" "[104]"] by (simp add: DIR_SEP_def)
  moreover have "good [104]" by (simp add: good_def DIR_SEP_def DOT_def)
  ultimately show "normal r" unfolding normal_def by (intro exI [of _ "[[104]]"]) simp
qed simp_all

text \<open>
  A name that does not fit in \<open>MAXLEN_PATH\<close> bytes is not refused: its tail is cut
  off silently and another file is resolved, because \<open>str_copy\<close> answers the length it copied,
  which the test for \<open>ENAMETOOLONG\<close> can never find too large.
\<close>

theorem path_real_truncates:
  assumes "1 < maxlen" "path \<noteq> []" "hd path = DIR_SEP" "maxlen < length path"
  shows "path_real fs maxlen path = path_real fs maxlen (take maxlen path)"
proof -
  obtain xs where p: "path = DIR_SEP # xs" using assms(2,3) by (cases path) auto
  obtain m where m: "maxlen = Suc (Suc m)" using assms(1) by (cases maxlen; cases "maxlen - 1") auto
  obtain y ys where "xs = y # ys" using assms(4) p m by (cases xs) auto
  then show ?thesis using p m assms(4) by (simp add: path_real_def Let_def)
qed

theorem path_real_truncates_witness:
  "path_real \<lparr>fs_getcwd = None, fs_lstat = (\<lambda>_. Not_link), fs_readlink = (\<lambda>_. None)\<rparr> 3 [47, 97, 98, 99] =
    path_real \<lparr>fs_getcwd = None, fs_lstat = (\<lambda>_. Not_link), fs_readlink = (\<lambda>_. None)\<rparr> 3 (take 3 [47, 97, 98, 99])"
  by (rule path_real_truncates) (simp_all add: DIR_SEP_def)

text \<open>The components of a name, by one pass over it.\<close>

fun components :: "byte list \<Rightarrow> byte list \<Rightarrow> byte list list" where
  "components acc [] = (if acc = [] then [] else [acc])"
| "components acc (c # cs) =
     (if c = DIR_SEP then (if acc = [] then components [] cs else acc # components [] cs) else components (acc @ [c]) cs)"

lemma components_token: "DIR_SEP \<notin> set t \<Longrightarrow> components acc (t @ cs) = components (acc @ t) cs"
  by (induction t arbitrary: acc) auto

lemma skip_from_all: "\<forall>c \<in> set t. P c \<Longrightarrow> skip_from P (t @ cs) i = skip_from P cs (i + length t)"
  by (induction t arbitrary: i) auto

lemma skip_from_None: "\<forall>c \<in> set t. P c \<Longrightarrow> skip_from P t i = None"
  by (induction t arbitrary: i) auto

lemma skip_while_suffix:
  "drop i buf = t @ c # cs \<Longrightarrow> \<forall>c \<in> set t. P c \<Longrightarrow> \<not> P c \<Longrightarrow> skip_while P buf i = Some (i + length t)"
  by (simp add: skip_while_def skip_from_all)

lemma drop_nth_hd: "drop i buf = c # cs \<Longrightarrow> buf ! i = c \<and> i < length buf"
  by (metis drop_all linorder_not_less list.distinct(1) nth_via_drop)

lemma drop_drop_token: "drop i buf = t @ cs \<Longrightarrow> drop (i + length t) buf = cs"
proof -
  assume "drop i buf = t @ cs"
  moreover have "drop (i + length t) buf = drop (length t) (drop i buf)" by (simp add: add.commute)
  ultimately show ?thesis by simp
qed

lemma sep_split:
  obtains a u where "s = a @ u" "\<forall>c \<in> set a. c = DIR_SEP" "u = [] \<or> hd u \<noteq> DIR_SEP"
proof -
  have "\<forall>c \<in> set (takeWhile (\<lambda>c. c = DIR_SEP) s). c = DIR_SEP" by (auto dest: set_takeWhileD)
  moreover have "dropWhile (\<lambda>c. c = DIR_SEP) s = [] \<or> hd (dropWhile (\<lambda>c. c = DIR_SEP) s) \<noteq> DIR_SEP"
    using hd_dropWhile [of "\<lambda>c. c = DIR_SEP" s] by blast
  ultimately show thesis using that [of "takeWhile (\<lambda>c. c = DIR_SEP) s" "dropWhile (\<lambda>c. c = DIR_SEP) s"] by simp
qed

lemma split_loop:
  assumes "drop sp buf = s @ [0]" "0 \<notin> set s" "s = [] \<or> last s = DIR_SEP"
  shows "path_split_loop buf sp = Some (components [] s)"
  using assms
proof (induction "length s" arbitrary: s sp rule: less_induct)
  case less
  obtain a u where s: "s = a @ u" "\<forall>c \<in> set a. c = DIR_SEP" "u = [] \<or> hd u \<noteq> DIR_SEP"
    by (rule sep_split)
  have ca: "components [] (a @ u) = components [] u" using s(2) by (induction a) auto
  have du: "drop (sp + length a) buf = u @ [0]" using drop_drop_token [of sp buf a "u @ [0]"] less.prems(1) s(1) by simp
  show ?case
  proof (cases u)
    case Nil
    have "skip_while (\<lambda>c. c = DIR_SEP) buf sp = Some (sp + length a)"
      using less.prems(1) s Nil by (intro skip_while_suffix [of _ _ _ 0 "[]"]) (auto simp: DIR_SEP_def)
    then show ?thesis using drop_nth_hd [OF du [unfolded Nil append_Nil]] ca s(1) Nil
      by (subst path_split_loop.simps) simp
  next
    case (Cons c v)
    have c: "c \<noteq> DIR_SEP" "c \<noteq> 0" using s Cons less.prems(2) by auto
    have "skip_while (\<lambda>c. c = DIR_SEP) buf sp = Some (sp + length a)"
      using less.prems(1) s Cons c by (intro skip_while_suffix [of _ _ _ c "v @ [0]"]) auto
    moreover have "buf ! (sp + length a) = c" using drop_nth_hd [of "sp + length a" buf c "v @ [0]"] du Cons by simp
    moreover obtain t w where t: "u = t @ DIR_SEP # w" "DIR_SEP \<notin> set t"
    proof -
      have "DIR_SEP \<in> set u" using less.prems(3) s(1) Cons by (metis append_is_Nil_conv last_appendR last_in_set list.distinct(1))
      then show thesis using that split_list_first by fastforce
    qed
    have tn: "t \<noteq> []" using t(1) Cons c by (cases t) auto
    have "skip_while (\<lambda>c. c \<noteq> DIR_SEP) buf (sp + length a) = Some (sp + length a + length t)"
      using du t by (intro skip_while_suffix [of _ _ _ DIR_SEP "w @ [0]"]) auto
    moreover have "take (length t) (drop (sp + length a) buf) = t" using du t(1) by simp
    moreover have "takeWhile (\<lambda>c. c \<noteq> 0) t = t" using t(1) s(1) less.prems(2) by (auto simp: takeWhile_eq_all_conv)
    moreover have "path_split_loop buf (sp + length a + length t) = Some (components [] (DIR_SEP # w))"
    proof (rule less.hyps)
      show "length (DIR_SEP # w) < length s" using s(1) t(1) tn by simp
      show "drop (sp + length a + length t) buf = (DIR_SEP # w) @ [0]"
        using drop_drop_token [of "sp + length a" buf t "DIR_SEP # w @ [0]"] du t(1) by simp
      show "0 \<notin> set (DIR_SEP # w)" using less.prems(2) s(1) t(1) by (auto simp: DIR_SEP_def)
      show "DIR_SEP # w = [] \<or> last (DIR_SEP # w) = DIR_SEP" using less.prems(3) s(1) t(1) by auto
    qed
    ultimately show ?thesis using ca s(1) t tn c components_token [OF t(2), of "[]" "DIR_SEP # w"]
      by (subst path_split_loop.simps) simp
  qed
qed

lemma split_loop_overrun:
  assumes "drop sp buf = s @ [0]" "0 \<notin> set s" "s \<noteq> []" "last s \<noteq> DIR_SEP"
  shows "path_split_loop buf sp = None"
  using assms
proof (induction "length s" arbitrary: s sp rule: less_induct)
  case less
  obtain a u where s: "s = a @ u" "\<forall>c \<in> set a. c = DIR_SEP" "u = [] \<or> hd u \<noteq> DIR_SEP"
    by (rule sep_split)
  have un: "u \<noteq> []" using s less.prems(3,4) by (metis append_Nil2 last_in_set)
  then obtain c v where u: "u = c # v" by (cases u) auto
  have c: "c \<noteq> DIR_SEP" "c \<noteq> 0" using s u less.prems(2) by auto
  have du: "drop (sp + length a) buf = u @ [0]" using drop_drop_token [of sp buf a "u @ [0]"] less.prems(1) s(1) by simp
  have beg: "skip_while (\<lambda>c. c = DIR_SEP) buf sp = Some (sp + length a)"
    using less.prems(1) s u c by (intro skip_while_suffix [of _ _ _ c "v @ [0]"]) auto
  have bc: "buf ! (sp + length a) = c" using drop_nth_hd [of "sp + length a" buf c "v @ [0]"] du u by simp
  show ?case
  proof (cases "DIR_SEP \<in> set u")
    case False
    then have "skip_while (\<lambda>c. c \<noteq> DIR_SEP) buf (sp + length a) = None"
      using du by (auto simp: skip_while_def DIR_SEP_def intro!: skip_from_None)
    then show ?thesis using beg bc c by (subst path_split_loop.simps) simp
  next
    case True
    then obtain t w where t: "u = t @ DIR_SEP # w" "DIR_SEP \<notin> set t" using split_list_first by fastforce
    have tn: "t \<noteq> []" using t(1) u c by (cases t) auto
    have e: "skip_while (\<lambda>c. c \<noteq> DIR_SEP) buf (sp + length a) = Some (sp + length a + length t)"
      using du t by (intro skip_while_suffix [of _ _ _ DIR_SEP "w @ [0]"]) auto
    have "path_split_loop buf (sp + length a + length t) = None"
    proof (rule less.hyps)
      show "length (DIR_SEP # w) < length s" using s(1) t(1) tn by simp
      show "drop (sp + length a + length t) buf = (DIR_SEP # w) @ [0]"
        using drop_drop_token [of "sp + length a" buf t "DIR_SEP # w @ [0]"] du t(1) by simp
      show "0 \<notin> set (DIR_SEP # w)" using less.prems(2) s(1) t(1) by (auto simp: DIR_SEP_def)
      show "last (DIR_SEP # w) \<noteq> DIR_SEP" using less.prems(4) s(1) t(1) by auto
    qed simp
    then show ?thesis using beg bc c e by (subst path_split_loop.simps) simp
  qed
qed

text \<open>
  \<open>path_split\<close> of a name that ends with a separator answers its components in
  order, without the empty ones; of any other name it reads on behind the terminator, because the
  loop over a component only looks for a separator.
\<close>

theorem path_split_components:
  assumes "s \<noteq> []" "0 \<notin> set s"
  shows "path_split (Some (s @ [0])) = (if last s = DIR_SEP then Some (Some (components [] s)) else None)"
proof -
  obtain c t where s: "s = c # t" "c \<noteq> 0" using assms by (cases s) auto
  then show ?thesis using split_loop [of 0 "s @ [0]" s] split_loop_overrun [of 0 "s @ [0]" s] assms
    by (simp add: path_split_def byte_at_def)
qed

theorem path_split_components_witness:
  "path_split (Some ([47, 117, 47, 47, 98, 47] @ [0])) =
    (if last [47, 117, 47, 47, 98, 47] = DIR_SEP then Some (Some (components [] [47, 117, 47, 47, 98, 47])) else None)"
  by (rule path_split_components) simp_all

lemma strip_seps_eq:
  assumes "n \<le> length a"
  shows "strip_seps a n = (let r = rev (dropWhile (\<lambda>c. c = DIR_SEP) (rev (take n a))) in if r = [] then None else Some (length r))"
  using assms
proof (induction n)
  case (Suc n)
  then have "take (Suc n) a = take n a @ [a ! n]" by (simp add: take_Suc_conv_app_nth)
  then show ?case using Suc by (auto simp: byte_at_def Let_def)
qed simp

text \<open>
  \<open>path_concat\<close> puts exactly one separator between its parts: the separators at
  the end of the first and at the beginning of the second are dropped. When the first part is made of
  separators only, such as the root directory, it reads before the beginning of the string.
\<close>

theorem path_concat_joins:
  assumes "0 \<notin> set b" "dropWhile (\<lambda>c. c = DIR_SEP) b \<noteq> []"
  shows "path_concat a (length a) (b @ [0]) (length b) =
    (let r = rev (dropWhile (\<lambda>c. c = DIR_SEP) (rev a)) in
     if r = [] then None else Some (r @ [DIR_SEP] @ dropWhile (\<lambda>c. c = DIR_SEP) b))"
proof -
  define sp where "sp = takeWhile (\<lambda>c. c = DIR_SEP) b"
  obtain c t where t: "dropWhile (\<lambda>c. c = DIR_SEP) b = c # t" using assms(2) by (cases "dropWhile (\<lambda>c. c = DIR_SEP) b") auto
  have c: "c \<noteq> DIR_SEP" using hd_dropWhile [OF assms(2)] t by simp
  have b: "b = sp @ c # t" using takeWhile_dropWhile_id [of "\<lambda>c. c = DIR_SEP" b] t by (simp add: sp_def)
  have s: "skip_while (\<lambda>c. c = DIR_SEP) (b @ [0]) 0 = Some (length sp)"
    using b c by (intro skip_while_suffix [of 0 _ sp c "t @ [0]", simplified]) (auto simp: sp_def dest: set_takeWhileD)
  define r where "r = rev (dropWhile (\<lambda>c. c = DIR_SEP) (rev a))"
  have st: "strip_seps a (length a) = (if r = [] then None else Some (length r))"
    by (simp add: strip_seps_eq r_def Let_def)
  obtain q where q: "a = r @ q"
    using takeWhile_dropWhile_id [of "\<lambda>c. c = DIR_SEP" "rev a"] by (metis r_def rev_append rev_rev_ident)
  show ?thesis unfolding r_def [symmetric] t
    using s st q b by (simp add: path_concat_def Let_def)
qed

theorem path_concat_joins_witness:
  "path_concat [47, 117, 47] (length [47, 117, 47 :: byte]) ([47, 98] @ [0]) (length [47, 98 :: byte]) =
    (let r = rev (dropWhile (\<lambda>c. c = DIR_SEP) (rev [47, 117, 47])) in
     if r = [] then None else Some (r @ [DIR_SEP] @ dropWhile (\<lambda>c. c = DIR_SEP) [47, 98]))"
  by (rule path_concat_joins) (simp_all add: DIR_SEP_def)

end
