(* ===== verification/Codings.thy ===== *)
theory Codings
  imports Prelude Contracts
begin

section \<open>Base 64 and hexadecimal codings (\<open>crypt/base64.c\<close>, \<open>convert/*hexstring*.c\<close>)\<close>

text \<open>
  The strings are lists of bytes without their terminator. The output is the list of the bytes the
  code has written so far; a write beyond the block that was allocated (or handed in) for it is
  \<open>None\<close>. Indexes and shifted values are \<open>nat\<close>, as the code computes them in
  \<open>int\<close> from unsigned bytes.
\<close>

subsection \<open>Base 64\<close>

definition base46_map :: "byte list" where
  "base46_map = ascii ''ABCDEFGHIJKLMNOPQRSTUVWXYZabcdefghijklmnopqrstuvwxyz0123456789+/''"

abbreviation "EQ_SIGN \<equiv> (61 :: byte)"

text \<open>The four digits of a full buffer, and the digits and padding of the rest.\<close>

definition sextet :: "nat \<Rightarrow> byte" where "sextet k = base46_map ! k"

definition encode_quad :: "byte list \<Rightarrow> byte list" where
  "encode_quad buf =
     (let b0 = unat (buf ! 0); b1 = unat (buf ! 1); b2 = unat (buf ! 2) in
      [sextet (drop_bit 2 b0), sextet (push_bit 4 (b0 AND 3) + drop_bit 4 b1),
       sextet (push_bit 2 (b1 AND 15) + drop_bit 6 b2), sextet (b2 AND 63)])"

definition encode_rest :: "byte list \<Rightarrow> byte list" where
  "encode_rest buf =
     (let b0 = unat (buf ! 0) in
      if buf = [] then []
      else if length buf = 1 then [sextet (drop_bit 2 b0), sextet (push_bit 4 (b0 AND 3)), EQ_SIGN, EQ_SIGN]
      else let b1 = unat (buf ! 1) in
        [sextet (drop_bit 2 b0), sextet (push_bit 4 (b0 AND 3) + drop_bit 4 b1), sextet (push_bit 2 (b1 AND 15)), EQ_SIGN])"

fun base64_encode_loop :: "byte list \<Rightarrow> byte list \<Rightarrow> byte list \<Rightarrow> byte list" where
  "base64_encode_loop buf [] cipher = cipher @ encode_rest buf"
| "base64_encode_loop buf (c # plain) cipher =
     (let buf = buf @ [c] in
      if length buf = 3 then base64_encode_loop [] plain (cipher @ encode_quad buf)
      else base64_encode_loop buf plain cipher)"

text \<open>
  The code counts the bytes it reads and the digits it writes in \<open>int\<close> variables, which end at the two lengths: beyond
  \<open>2 ^ 31 - 1\<close> the greater one overflows.
\<close>

definition base64_encode :: "byte list \<Rightarrow> byte list option" where
  "base64_encode plain =
     (let cipher = base64_encode_loop [] plain [] in
      do { i \<leftarrow> in_int 32 (int (length plain));
           c \<leftarrow> in_int 32 (int (length cipher));
           (if length cipher + 1 \<le> length plain * 4 div 3 + 4 then Some cipher else None) })"

text \<open>The search for a digit answers 64 when there is none, as for the padding.\<close>

fun sextet_index :: "byte list \<Rightarrow> byte \<Rightarrow> nat" where
  "sextet_index [] c = 0"
| "sextet_index (d # ds) c = (if d = c then 0 else Suc (sextet_index ds c))"

definition decode_quad :: "nat list \<Rightarrow> byte list" where
  "decode_quad buf =
     of_nat (push_bit 2 (buf ! 0) + drop_bit 4 (buf ! 1)) #
     (if buf ! 2 \<noteq> 64 then [of_nat (push_bit 4 (buf ! 1) + drop_bit 2 (buf ! 2))] else []) @
     (if buf ! 3 \<noteq> 64 then [of_nat (push_bit 6 (buf ! 2) + buf ! 3)] else [])"

fun base64_decode_loop :: "nat list \<Rightarrow> byte list \<Rightarrow> byte list \<Rightarrow> byte list" where
  "base64_decode_loop buf [] plain = plain"
| "base64_decode_loop buf (c # cipher) plain =
     (let buf = buf @ [sextet_index base46_map c] in
      if length buf = 4 then base64_decode_loop [] cipher (plain @ decode_quad buf)
      else base64_decode_loop buf cipher plain)"

definition base64_decode :: "byte list \<Rightarrow> byte list option" where
  "base64_decode cipher =
     (let plain = base64_decode_loop [] cipher [] in
      do { i \<leftarrow> in_int 32 (int (length cipher));
           p \<leftarrow> in_int 32 (int (length plain));
           (if length plain + 1 \<le> length cipher * 3 div 4 + 1 then Some plain else None) })"

text \<open>
  The two functions on files. \<open>readfile\<close> answers the bytes of the file, or nothing when it
  cannot be read; \<open>base64_decode_file\<close> calls \<open>base64_encode\<close>, as the source does.
\<close>

definition base64_encode_file :: "('f \<Rightarrow> byte list option) \<Rightarrow> 'f \<Rightarrow> byte list option option" where
  "base64_encode_file readfile file =
     (case readfile file of None \<Rightarrow> Some None
      | Some bytes \<Rightarrow> map_option Some (base64_encode (takeWhile (\<lambda>c. c \<noteq> 0) bytes)))"

definition base64_decode_file :: "('f \<Rightarrow> byte list option) \<Rightarrow> 'f \<Rightarrow> byte list option option" where
  "base64_decode_file readfile file =
     (case readfile file of None \<Rightarrow> Some None
      | Some bytes \<Rightarrow> map_option Some (base64_encode (takeWhile (\<lambda>c. c \<noteq> 0) bytes)))"

subsection \<open>Hexadecimal\<close>

definition hval :: "byte \<Rightarrow> nat option" where
  "hval c = (let n = unat c in
     if 48 \<le> n \<and> n \<le> 57 then Some (n - 48)
     else if 65 \<le> n \<and> n \<le> 70 then Some (n - 65 + 10)
     else if 97 \<le> n \<and> n \<le> 102 then Some (n - 97 + 10)
     else None)"

text \<open>
  The answer is the length or the error, with the bytes written. The first digit of an odd number
  of digits is read on its own, but the pointer is not moved on; the loop ends at the terminator of
  the string, whatever length was said, and reads the terminator as a digit when it stands in the
  second half of a pair.
\<close>

datatype hex_result = Hex_string nat "byte list" | Bad_digit | Not_enough_space

fun hexstring_loop :: "nat \<Rightarrow> byte list \<Rightarrow> byte list \<Rightarrow> (byte list option) option" where
  "hexstring_loop cap [] dest = (if length dest < cap then Some (Some dest) else None)"
| "hexstring_loop cap [h] dest = Some None"
| "hexstring_loop cap (h # l # hex) dest =
     (case hval h of None \<Rightarrow> Some None
      | Some hi \<Rightarrow> (case hval l of None \<Rightarrow> Some None
         | Some lo \<Rightarrow>
             if length dest < cap then hexstring_loop cap hex (dest @ [of_nat (push_bit 4 hi OR lo)]) else None))"

definition hexstring_to_string :: "nat \<Rightarrow> byte list \<Rightarrow> nat \<Rightarrow> hex_result option" where
  "hexstring_to_string dest_len hex src_len =
     (let digits = (\<lambda>dest l. map_option (\<lambda>r. case r of None \<Rightarrow> Bad_digit | Some dest \<Rightarrow> Hex_string (l div 2) dest)
                               (hexstring_loop dest_len hex dest)) in
      if dest_len < src_len div 2 + 1 then Some Not_enough_space
      else if odd src_len then
        (if hex = [] then Some Bad_digit
         else case hval (hd hex) of None \<Rightarrow> Some Bad_digit | Some c \<Rightarrow> digits [of_nat c] (src_len + 1))
      else digits [] src_len)"

definition hextab :: "byte list" where "hextab = ascii ''0123456789abcdef''"

fun string_to_hexstring_loop :: "byte list \<Rightarrow> nat \<Rightarrow> byte list \<Rightarrow> byte list" where
  "string_to_hexstring_loop (c # src) (Suc src_len) dest =
     string_to_hexstring_loop src src_len
       (dest @ [hextab ! unat ((15 :: byte) AND drop_bit 4 c), hextab ! unat ((15 :: byte) AND c)])"
| "string_to_hexstring_loop _ _ dest = dest"

definition string_to_hexstring :: "nat \<Rightarrow> byte list \<Rightarrow> nat \<Rightarrow> byte list option" where
  "string_to_hexstring dest_len src src_len =
     (if dest_len < src_len * 2 + 1 then None else Some (string_to_hexstring_loop src src_len []))"

subsection \<open>Decoding what was encoded\<close>

lemma sextet_index_nth: "distinct ds \<Longrightarrow> k < length ds \<Longrightarrow> sextet_index ds (ds ! k) = k"
  by (induction ds arbitrary: k) (auto simp: nth_Cons split: nat.split)

lemma base46_map_distinct: "distinct base46_map" "length base46_map = 64"
  by (simp_all add: base46_map_def ascii_def)

lemma sextet_index [simp]: "k < 64 \<Longrightarrow> sextet_index base46_map (sextet k) = k"
  by (simp add: sextet_def sextet_index_nth base46_map_distinct)

lemma sextet_index_eq_sign [simp]: "sextet_index base46_map EQ_SIGN = 64"
  by (simp add: base46_map_def ascii_def)

lemma and_mod: "n AND 3 = n mod 4" "n AND 15 = n mod 16" "n AND 63 = n mod (64 :: nat)"
  using take_bit_eq_mask [of 2 n] take_bit_eq_mask [of 4 n] take_bit_eq_mask [of 6 n]
  by (simp_all add: take_bit_eq_mod mask_eq_exp_minus_1)

lemmas bits_as_nat = and_mod drop_bit_eq_div push_bit_eq_mult

lemma byte_less: "unat (c :: byte) < 256"
  using unsigned_less [of c] by simp

lemma of_nat_byte: "n mod 256 = unat c \<Longrightarrow> (of_nat n :: byte) = c"
  by (simp add: word_unat_eq_iff unsigned_of_nat take_bit_eq_mod)

lemma digit_not_pad: "n mod 64 \<noteq> (64 :: nat)" "n mod 16 * 4 \<noteq> (64 :: nat)" "n mod 16 * 4 < (64 :: nat)" "n mod 4 * 16 < (64 :: nat)"
  using mod_less_divisor [of 64 n] mod_less_divisor [of 16 n] mod_less_divisor [of 4 n] by linarith+

lemma quad_round: "decode_quad (map (sextet_index base46_map) (encode_quad [a, b, c])) = [a, b, c]"
proof -
  have d: "x div 4 < 64" "x mod 4 * 16 + y div 16 < 64" "y mod 16 * 4 + z div 64 < 64"
    "(x mod 4 * 16 + y div 16) div 16 = x mod 4" "(y mod 16 * 4 + z div 64) div 4 = y mod 16"
    if "x < 256" "y < 256" "z < 256" for x y z :: nat
    using that by simp_all
  have m: "(x div 4 * 4 + x mod 4) mod 256 = x" "((x mod 4 * 16 + y div 16) * 16 + y mod 16) mod 256 = y"
    "((y mod 16 * 4 + z div 64) * 64 + z mod 64) mod 256 = z" if "x < 256" "y < 256" "z < 256" for x y z :: nat
  proof -
    have "(x mod 4 * 16 + y div 16) * 16 + y mod 16 = x mod 4 * 256 + (y div 16 * 16 + y mod 16)"
      "(y mod 16 * 4 + z div 64) * 64 + z mod 64 = y mod 16 * 256 + (z div 64 * 64 + z mod 64)" by (simp_all add: algebra_simps)
    then show "(x div 4 * 4 + x mod 4) mod 256 = x" "((x mod 4 * 16 + y div 16) * 16 + y mod 16) mod 256 = y"
      "((y mod 16 * 4 + z div 64) * 64 + z mod 64) mod 256 = z"
      using that by (simp_all del: mult.commute)
  qed
  note b = byte_less [of a] byte_less [of b] byte_less [of c]
  show ?thesis
    using d [OF b] m [OF b]
    by (simp add: encode_quad_def decode_quad_def bits_as_nat Let_def of_nat_byte digit_not_pad del: of_nat_add of_nat_mult)
qed


lemma rest_round:
  "decode_quad (map (sextet_index base46_map) (encode_rest [a])) = [a]"
  "decode_quad (map (sextet_index base46_map) (encode_rest [a, b])) = [a, b]"
proof -
  have d: "x div 4 < 64" "x mod 4 * 16 + y div 16 < 64" "y mod 16 * 4 < 64" "x mod 4 * 16 < 64"
    "(x mod 4 * 16 + y div 16) div 16 = x mod 4"
    if "x < 256" "y < 256" for x y :: nat
    using that by simp_all
  have m: "(x div 4 * 4 + x mod 4) mod 256 = x" "((x mod 4 * 16 + y div 16) * 16 + y mod 16) mod 256 = y"
    if "x < 256" "y < 256" for x y :: nat
  proof -
    have "(x mod 4 * 16 + y div 16) * 16 + y mod 16 = x mod 4 * 256 + (y div 16 * 16 + y mod 16)" by (simp add: algebra_simps)
    then show "(x div 4 * 4 + x mod 4) mod 256 = x" "((x mod 4 * 16 + y div 16) * 16 + y mod 16) mod 256 = y"
      using that by (simp_all del: mult.commute)
  qed
  note b = byte_less [of a] byte_less [of b]
  note defs = encode_rest_def decode_quad_def bits_as_nat Let_def of_nat_byte digit_not_pad
  show "decode_quad (map (sextet_index base46_map) (encode_rest [a])) = [a]"
    using d [OF b] m [OF b] by (simp add: defs del: of_nat_add of_nat_mult)
  show "decode_quad (map (sextet_index base46_map) (encode_rest [a, b])) = [a, b]"
    using d [OF b] m [OF b] by (simp add: defs del: of_nat_add of_nat_mult)
qed
lemma encode_loop_acc: "base64_encode_loop buf s (x @ y) = x @ base64_encode_loop buf s y"
  by (induction buf s y arbitrary: x rule: base64_encode_loop.induct) (simp_all add: Let_def)

lemma encode_loop_quad: "base64_encode_loop [] (a # b # c # s) [] = encode_quad [a, b, c] @ base64_encode_loop [] s []"
  using encode_loop_acc [of "[]" s "encode_quad [a, b, c]" "[]"] by simp

lemma decode_loop_quad:
  "length q = 4 \<Longrightarrow> base64_decode_loop [] (q @ s) p = base64_decode_loop [] s (p @ decode_quad (map (sextet_index base46_map) q))"
  by (auto simp: numeral_eq_Suc length_Suc_conv)

lemma length_quad: "length (encode_quad buf) = 4" "buf \<noteq> [] \<Longrightarrow> length (encode_rest buf) = 4"
  by (simp_all add: encode_quad_def encode_rest_def Let_def)

lemma rest_loop: "buf \<noteq> [] \<Longrightarrow> base64_decode_loop [] (encode_rest buf) p = p @ decode_quad (map (sextet_index base46_map) (encode_rest buf))"
  using decode_loop_quad [of "encode_rest buf" "[]" p] length_quad(2) [of buf] by simp

lemma list_by_three:
  assumes "P []" "\<And>a. P [a]" "\<And>a b. P [a, b]" "\<And>a b c s. P s \<Longrightarrow> P (a # b # c # s)"
  shows "P s"
proof (induction s rule: length_induct)
  case (1 s)
  then show ?case
    using assms by (cases s rule: remdups_adj.cases; cases "tl (tl s)") auto
qed

lemma encode_decode:
  "length (base64_encode_loop [] s []) = 4 * ((length s + 2) div 3) \<and>
   base64_decode_loop [] (base64_encode_loop [] s []) p = p @ s"
proof (induction s arbitrary: p rule: list_by_three)
  case (4 a b c s)
  have "p @ decode_quad (map (sextet_index base46_map) (encode_quad [a, b, c])) = p @ [a, b, c]" by (simp add: quad_round)
  moreover have "(5 + n) div 3 = Suc ((2 + n) div 3)" for n :: nat by presburger
  ultimately show ?case using 4 [of "p @ [a, b, c]"]
    by (simp add: encode_loop_quad decode_loop_quad length_quad del: base64_encode_loop.simps)
qed (simp_all add: length_quad rest_loop rest_round encode_rest_def [of "[]"])

text \<open>The strings whose coding can be counted.\<close>

definition codable :: "byte list \<Rightarrow> bool" where
  "codable s \<longleftrightarrow> 4 * ((length s + 2) div 3) < 2 ^ 31"

lemma codable_counts:
  "codable s \<Longrightarrow> in_int 32 (int (4 * ((length s + 2) div 3))) = Some (int (4 * ((length s + 2) div 3))) \<and> in_int 32 (int (length s)) = Some (int (length s))"
  unfolding codable_def in_int_def by simp

interpretation base64: coding base64_encode base64_decode codable
proof
  fix s :: "byte list"
  assume "codable s"
  moreover have "4 * ((length s + 2) div 3) + 1 \<le> length s * 4 div 3 + 4" "length s \<le> 4 * ((length s + 2) div 3) * 3 div 4" by presburger+
  ultimately show "\<exists>c. base64_encode s = Some c \<and> base64_decode c = Some s"
    using encode_decode [of s "[]"] codable_counts [of s] by (simp add: base64_encode_def base64_decode_def Let_def)
qed

text \<open>
  Property C39. For a string whose coding has less than \<open>2 ^ 31\<close> digits (the code counts them in an \<open>int\<close>),
  what \<open>base64_encode\<close> writes fits in the block it allocated, takes four digits
  for every three bytes begun, and \<open>base64_decode\<close> gives the string back, inside the block it
  allocated. For a longer one the counter overflows.
\<close>

theorem base64_round_trip:
  "if 4 * ((length s + 2) div 3) < 2 ^ 31
   then map_option length (base64_encode s) = Some (4 * ((length s + 2) div 3)) \<and> Option.bind (base64_encode s) base64_decode = Some s
   else base64_encode s = None"
proof (cases "codable s")
  case True
  then show ?thesis
    using base64.reencode [of s] base64.encode_law [of s] encode_decode [of s "[]"] codable_counts [OF True]
    by (auto simp: base64_encode_def codable_def Let_def split: if_splits)
next
  case False
  then have "in_int 32 (int (length (base64_encode_loop [] s []))) = None"
    using encode_decode [of s "[]"] by (simp add: codable_def in_int_def)
  then show ?thesis using False by (simp add: base64_encode_def codable_def Let_def bind_eq_None_conv)
qed

subsection \<open>Hexadecimal digits\<close>

lemma hval_hextab: "k < 16 \<Longrightarrow> hval (hextab ! k) = Some k"
proof -
  assume "k < 16"
  then have "k \<in> set [0 ..< 16]" by simp
  moreover have "\<forall>k \<in> set [0 ..< 16]. hval (hextab ! k) = Some k"
    by (simp add: upt_rec hextab_def ascii_def hval_def)
  ultimately show ?thesis by blast
qed

lemma nibbles:
  "unat (drop_bit 4 (c :: byte)) = unat c div 16" "unat c div 16 mod 16 = unat c div 16"
  "unat ((15 :: byte) AND drop_bit 4 c) = unat c div 16" "unat ((15 :: byte) AND c) = unat c mod 16"
proof -
  have m: "15 AND n = n mod 16" for n :: nat using and_mod(2) [of n] by (simp add: and.commute)
  show "unat ((15 :: byte) AND c) = unat c mod 16" by (simp add: unsigned_and_eq m)
  show d: "unat (drop_bit 4 c) = unat c div 16" using byte_less [of c]
    by (simp only: unsigned_drop_bit_eq) (simp add: drop_bit_eq_div take_bit_eq_mod)
  show "unat c div 16 mod 16 = unat c div 16" using byte_less [of c] by simp
  then show "unat ((15 :: byte) AND drop_bit 4 c) = unat c div 16" by (simp add: unsigned_and_eq m d)
qed

lemma nibbles_join: "(of_nat (push_bit 4 (unat c div 16) OR unat c mod 16) :: byte) = c"
proof (rule of_nat_byte)
  have "push_bit 4 (drop_bit 4 n) OR take_bit 4 n = n" for n :: nat by (rule bit_eqI) (auto simp: bit_simps)
  from this [of "unat c"] have "push_bit 4 (unat c div 16) OR unat c mod 16 = unat c"
    by (simp add: drop_bit_eq_div take_bit_eq_mod)
  then show "(push_bit 4 (unat c div 16) OR unat c mod 16) mod 256 = unat c" using byte_less [of c] by simp
qed

lemma hexstring_step:
  "length dest < cap \<Longrightarrow>
   hexstring_loop cap (hextab ! (unat c div 16) # hextab ! (unat c mod 16) # hex) dest = hexstring_loop cap hex (dest @ [c])"
  using byte_less [of c] nibbles_join [of c] by (simp add: hval_hextab)

lemma hex_loop_acc:
  "n = length s \<Longrightarrow> string_to_hexstring_loop s n (x @ y) = x @ string_to_hexstring_loop s n y"
  by (induction s n y arbitrary: x rule: string_to_hexstring_loop.induct) (simp_all add: nibbles)

lemma hex_loop:
  "length dest + length s < cap \<Longrightarrow> hexstring_loop cap (string_to_hexstring_loop s (length s) []) dest = Some (Some (dest @ s))"
proof (induction s arbitrary: dest)
  case (Cons c s)
  then show ?case
    using hex_loop_acc [of "length s" s "[hextab ! (unat c div 16), hextab ! (unat c mod 16)]" "[]"]
    by (simp add: nibbles hexstring_step del: hexstring_loop.simps)
qed simp

lemma hex_loop_length: "length (string_to_hexstring_loop s (length s) []) = 2 * length s"
proof (induction s)
  case (Cons c s)
  then show ?case
    using hex_loop_acc [of "length s" s "[hextab ! (unat c div 16), hextab ! (unat c mod 16)]" "[]"] by (simp add: nibbles)
qed simp

text \<open>The calls a client makes with buffers that are just large enough.\<close>

definition to_hex :: "byte list \<Rightarrow> byte list option" where
  "to_hex s = string_to_hexstring (length s * 2 + 1) s (length s)"

definition of_hex :: "byte list \<Rightarrow> byte list option" where
  "of_hex h = (case hexstring_to_string (length h div 2 + 1) h (length h) of Some (Hex_string n s) \<Rightarrow> if n = length s then Some s else None | _ \<Rightarrow> None)"

interpretation hex: coding to_hex of_hex "\<lambda>_. True"
proof
  fix s :: "byte list"
  show "\<exists>h. to_hex s = Some h \<and> of_hex h = Some s"
    by (simp add: to_hex_def of_hex_def string_to_hexstring_def hexstring_to_string_def Let_def hex_loop hex_loop_length)
qed

lemma hex_loop_odd: "odd (length hex) \<Longrightarrow> length dest + length hex div 2 \<le> cap \<Longrightarrow> hexstring_loop cap hex dest = Some None"
  by (induction cap hex dest rule: hexstring_loop.induct) (auto split: option.split)

text \<open>
  A string with no NUL byte comes back from its hexadecimal form, in buffers of the
  sizes the functions ask for; but of an odd number of digits, which the code handles apart, nothing
  is ever read: the first digit is read twice, and the terminator as the last one.
\<close>

theorem hex_round_trip:
  assumes "odd (length hex)" "length hex div 2 + 1 \<le> dest_len"
  shows "Option.bind (to_hex s) of_hex = Some s \<and> hexstring_to_string dest_len hex (length hex) = Some Bad_digit"
proof
  show "Option.bind (to_hex s) of_hex = Some s" by (rule hex.reencode) simp
  have "Suc 0 + length hex div 2 \<le> dest_len" using assms(2) by simp
  then show "hexstring_to_string dest_len hex (length hex) = Some Bad_digit"
    using assms hex_loop_odd [of hex "[c]" dest_len for c] by (auto simp: hexstring_to_string_def Let_def split: option.split)
qed

theorem hex_round_trip_witness:
  "Option.bind (to_hex [0xFF, 1]) of_hex = Some [0xFF, 1] \<and>
   hexstring_to_string 2 [49, 50, 51] (length [49, 50, 51 :: byte]) = Some Bad_digit"
  by (rule hex_round_trip) simp_all

end
