(* ===== verification/Qsort.thy ===== *)
theory Qsort
  imports Prelude "HOL-Library.Multiset"
begin

section \<open>Sorting (\<open>stdlib/qsort.c\<close>)\<close>

text \<open>
  The array is a list and a pointer the index of an element, so \<open>es\<close> is the unit of every
  distance (the code's \<open>swaptype\<close> only chooses how the bytes of two elements are exchanged).
  Reading or exchanging an element outside the array is \<open>None\<close>. The client's comparison is a
  parameter, of which nothing is assumed in the definitions. The code keeps distances in bytes in
  \<open>int\<close> variables: a distance that does not fit into one would be cut off, and is \<open>None\<close> here.
\<close>

definition fits_int :: "nat \<Rightarrow> nat \<Rightarrow> bool" where
  "fits_int es k \<longleftrightarrow> k * es < 2 ^ 31"

lemma fits_int_less: "n * es < 2 ^ 31 \<Longrightarrow> k \<le> n \<Longrightarrow> fits_int es k"
  unfolding fits_int_def by (rule le_less_trans[OF mult_le_mono1])

definition cmp_at :: "('a \<Rightarrow> 'a \<Rightarrow> int) \<Rightarrow> 'a list \<Rightarrow> nat \<Rightarrow> nat \<Rightarrow> int option" where
  "cmp_at cmp xs i j = (if i < length xs \<and> j < length xs then Some (cmp (xs ! i) (xs ! j)) else None)"

definition swap_at :: "'a list \<Rightarrow> nat \<Rightarrow> nat \<Rightarrow> 'a list option" where
  "swap_at xs i j = (if i < length xs \<and> j < length xs then Some (xs[i := xs ! j, j := xs ! i]) else None)"

text \<open>\<open>vecswap\<close>: exchange \<open>n\<close> elements, one after the other.\<close>

fun vecswap :: "'a list \<Rightarrow> nat \<Rightarrow> nat \<Rightarrow> nat \<Rightarrow> 'a list option" where
  "vecswap xs i j 0 = Some xs"
| "vecswap xs i j (Suc n) = swap_at xs i j \<bind> (\<lambda>xs. vecswap xs (i + 1) (j + 1) n)"

definition med3 :: "('a \<Rightarrow> 'a \<Rightarrow> int) \<Rightarrow> 'a list \<Rightarrow> nat \<Rightarrow> nat \<Rightarrow> nat \<Rightarrow> nat option" where
  "med3 cmp xs a b c =
     do { ab \<leftarrow> cmp_at cmp xs a b;
          bc \<leftarrow> cmp_at cmp xs b c;
          (if ab < 0 then
             if bc < 0 then Some b else do { ac \<leftarrow> cmp_at cmp xs a c; Some (if ac < 0 then c else a) }
           else
             if bc > 0 then Some b else do { ac \<leftarrow> cmp_at cmp xs a c; Some (if ac < 0 then a else c) }) }"

text \<open>The insertion sort of the elements from \<open>a\<close> up to \<open>a + n\<close>.\<close>

fun sink :: "('a \<Rightarrow> 'a \<Rightarrow> int) \<Rightarrow> nat \<Rightarrow> nat \<Rightarrow> 'a list \<Rightarrow> 'a list option" where
  "sink cmp a 0 xs = Some xs"
| "sink cmp a (Suc pl) xs =
     (if Suc pl > a then
        do { r \<leftarrow> cmp_at cmp xs pl (Suc pl);
             (if r > 0 then do { xs \<leftarrow> swap_at xs (Suc pl) pl; sink cmp a pl xs } else Some xs) }
      else Some xs)"

function insertion_sort :: "('a \<Rightarrow> 'a \<Rightarrow> int) \<Rightarrow> nat \<Rightarrow> nat \<Rightarrow> nat \<Rightarrow> 'a list \<Rightarrow> 'a list option" where
  "insertion_sort cmp a n pm xs =
     (if pm < a + n then do { xs \<leftarrow> sink cmp a pm xs; insertion_sort cmp a n (pm + 1) xs } else Some xs)"
  by pat_completeness auto
termination by (relation "measure (\<lambda>(cmp, a, n, pm, xs). a + n - pm)") auto

declare insertion_sort.simps [simp del]

text \<open>
  The partition around the element at \<open>a\<close>: \<open>pa\<close>, \<open>pb\<close>, \<open>pc\<close> and
  \<open>pd\<close> are the code's pointers, \<open>p_swaps\<close> its \<open>swap_cnt\<close>.
\<close>

record 'a partition =
  p_xs :: "'a list"
  pa :: nat
  pb :: nat
  pc :: nat
  pd :: nat
  p_swaps :: bool

function scan_up :: "('a \<Rightarrow> 'a \<Rightarrow> int) \<Rightarrow> nat \<Rightarrow> 'a partition \<Rightarrow> 'a partition option" where
  "scan_up cmp a s =
     (if pb s \<le> pc s then
        do { r \<leftarrow> cmp_at cmp (p_xs s) (pb s) a;
             (if r \<le> 0 then
                (if r = 0 then
                   do { xs \<leftarrow> swap_at (p_xs s) (pa s) (pb s);
                        scan_up cmp a (s\<lparr>p_xs := xs, p_swaps := True, pa := pa s + 1, pb := pb s + 1\<rparr>) }
                 else scan_up cmp a (s\<lparr>pb := pb s + 1\<rparr>))
              else Some s) }
      else Some s)"
  by pat_completeness auto
termination by (relation "measure (\<lambda>(cmp, a, s). pc s + 1 - pb s)") auto

function scan_down :: "('a \<Rightarrow> 'a \<Rightarrow> int) \<Rightarrow> nat \<Rightarrow> 'a partition \<Rightarrow> 'a partition option" where
  "scan_down cmp a s =
     (if pb s \<le> pc s then
        do { r \<leftarrow> cmp_at cmp (p_xs s) (pc s) a;
             (if r \<ge> 0 then
                (if pc s = 0 then None
                 else if r = 0 then
                   do { xs \<leftarrow> swap_at (p_xs s) (pc s) (pd s);
                        scan_down cmp a (s\<lparr>p_xs := xs, p_swaps := True, pd := pd s - 1, pc := pc s - 1\<rparr>) }
                 else scan_down cmp a (s\<lparr>pc := pc s - 1\<rparr>))
              else Some s) }
      else Some s)"
  by pat_completeness auto
termination by (relation "measure (\<lambda>(cmp, a, s). pc s)") auto

declare scan_up.simps [simp del] scan_down.simps [simp del]

text \<open>What the scans keep: any \<open>I\<close> that one turn of each keeps.\<close>

lemma scan_up_keeps:
  assumes "scan_up cmp a s = Some t" "I s"
    "\<And>s xs. I s \<Longrightarrow> pb s \<le> pc s \<Longrightarrow> cmp_at cmp (p_xs s) (pb s) a = Some 0 \<Longrightarrow> swap_at (p_xs s) (pa s) (pb s) = Some xs \<Longrightarrow>
       I (s\<lparr>p_xs := xs, p_swaps := True, pa := pa s + 1, pb := pb s + 1\<rparr>)"
    "\<And>s r. I s \<Longrightarrow> pb s \<le> pc s \<Longrightarrow> cmp_at cmp (p_xs s) (pb s) a = Some r \<Longrightarrow> r < 0 \<Longrightarrow> I (s\<lparr>pb := pb s + 1\<rparr>)"
  shows "I t \<and> pc t = pc s \<and> pb s \<le> pb t \<and> (pb t \<le> pc t \<longrightarrow> (\<exists>r > 0. cmp_at cmp (p_xs t) (pb t) a = Some r))"
  using assms(1,2)
proof (induction "pc s + 1 - pb s" arbitrary: s rule: less_induct)
  case less
  show ?case
  proof (cases "pb s \<le> pc s")
    case False
    then show ?thesis using less.prems by (subst (asm) scan_up.simps) simp
  next
    case True
    then obtain r where r: "cmp_at cmp (p_xs s) (pb s) a = Some r"
      using less.prems(1) by (subst (asm) scan_up.simps) (auto split: bind_splits)
    have m: "pc s - pb s < Suc (pc s) - pb s" using True by simp
    consider (gt) "r > 0" | (eq) "r = 0" | (lt) "r < 0" by linarith
    then show ?thesis
    proof cases
      case gt
      then show ?thesis using less.prems True r by (subst (asm) scan_up.simps) auto
    next
      case eq
      then obtain xs where xs: "swap_at (p_xs s) (pa s) (pb s) = Some xs"
        "scan_up cmp a (s\<lparr>p_xs := xs, p_swaps := True, pa := pa s + 1, pb := pb s + 1\<rparr>) = Some t"
        using less.prems(1) True r by (subst (asm) scan_up.simps) (auto split: bind_splits)
      show ?thesis using less.hyps [OF _ xs(2) assms(3) [OF less.prems(2) True _ xs(1)]] True r eq m by auto
    next
      case lt
      then have "scan_up cmp a (s\<lparr>pb := pb s + 1\<rparr>) = Some t"
        using less.prems(1) True r by (subst (asm) scan_up.simps) auto
      from less.hyps [OF _ this assms(4) [OF less.prems(2) True r lt]] show ?thesis using True m by auto
    qed
  qed
qed

lemma scan_down_keeps:
  assumes "scan_down cmp a s = Some t" "I s"
    "\<And>s xs. I s \<Longrightarrow> pb s \<le> pc s \<Longrightarrow> cmp_at cmp (p_xs s) (pc s) a = Some 0 \<Longrightarrow> swap_at (p_xs s) (pc s) (pd s) = Some xs \<Longrightarrow>
       I (s\<lparr>p_xs := xs, p_swaps := True, pd := pd s - 1, pc := pc s - 1\<rparr>)"
    "\<And>s r. I s \<Longrightarrow> pb s \<le> pc s \<Longrightarrow> cmp_at cmp (p_xs s) (pc s) a = Some r \<Longrightarrow> r > 0 \<Longrightarrow> I (s\<lparr>pc := pc s - 1\<rparr>)"
  shows "I t \<and> pb t = pb s \<and> pc t \<le> pc s \<and> (pb t \<le> pc t \<longrightarrow> (\<exists>r < 0. cmp_at cmp (p_xs t) (pc t) a = Some r))"
  using assms(1,2)
proof (induction "pc s" arbitrary: s rule: less_induct)
  case less
  show ?case
  proof (cases "pb s \<le> pc s")
    case False
    then show ?thesis using less.prems by (subst (asm) scan_down.simps) simp
  next
    case True
    then obtain r where r: "cmp_at cmp (p_xs s) (pc s) a = Some r"
      using less.prems(1) by (subst (asm) scan_down.simps) (auto split: bind_splits)
    consider (lt) "r < 0" | (eq) "r = 0" "pc s \<noteq> 0" | (gt) "r > 0" "pc s \<noteq> 0"
      using less.prems(1) True r by (subst (asm) scan_down.simps) (fastforce split: if_splits)
    then show ?thesis
    proof cases
      case lt
      then show ?thesis using less.prems True r by (subst (asm) scan_down.simps) auto
    next
      case eq
      then obtain xs where xs: "swap_at (p_xs s) (pc s) (pd s) = Some xs"
        "scan_down cmp a (s\<lparr>p_xs := xs, p_swaps := True, pd := pd s - 1, pc := pc s - 1\<rparr>) = Some t"
        using less.prems(1) True r by (subst (asm) scan_down.simps) (auto split: bind_splits)
      show ?thesis using less.hyps [OF _ xs(2) assms(3) [OF less.prems(2) True _ xs(1)]] True r eq by auto
    next
      case gt
      then have "scan_down cmp a (s\<lparr>pc := pc s - 1\<rparr>) = Some t"
        using less.prems(1) True r by (subst (asm) scan_down.simps) auto
      from less.hyps [OF _ this assms(4) [OF less.prems(2) True r gt(1)]] show ?thesis using True gt(2) by auto
    qed
  qed
qed

function partition_loop :: "('a \<Rightarrow> 'a \<Rightarrow> int) \<Rightarrow> nat \<Rightarrow> 'a partition \<Rightarrow> 'a partition option" where
  "partition_loop cmp a s =
     (case scan_up cmp a s \<bind> scan_down cmp a of None \<Rightarrow> None
      | Some t \<Rightarrow>
          if pb t > pc t then Some t
          else (case swap_at (p_xs t) (pb t) (pc t) of None \<Rightarrow> None
            | Some xs \<Rightarrow>
                if pc t = 0 then None
                else partition_loop cmp a (t\<lparr>p_xs := xs, p_swaps := True, pb := pb t + 1, pc := pc t - 1\<rparr>)))"
  by pat_completeness auto
termination
proof (relation "measure (\<lambda>(cmp, a, s). pc s + 1 - pb s)", goal_cases)
  case (2 cmp a s t xs)
  then show ?case
  proof -
    obtain u where u: "scan_up cmp a s = Some u" "scan_down cmp a u = Some t" using 2(1) by (auto simp: bind_eq_Some_conv)
    have "pb s \<le> pb t" "pc t \<le> pc s"
      using scan_up_keeps [OF u(1), of "\<lambda>_. True"] scan_down_keeps [OF u(2), of "\<lambda>_. True"] by auto
    then show ?thesis using 2(2,4) by auto
  qed
qed simp

declare partition_loop.simps [simp del]

lemma partition_loop_keeps:
  assumes "partition_loop cmp a s = Some t" "I s"
    "\<And>s u. I s \<Longrightarrow> scan_up cmp a s = Some u \<Longrightarrow> J u" "\<And>u v. J u \<Longrightarrow> scan_down cmp a u = Some v \<Longrightarrow> K v"
    "\<And>v xs. K v \<Longrightarrow> pb v \<le> pc v \<Longrightarrow> swap_at (p_xs v) (pb v) (pc v) = Some xs \<Longrightarrow>
       I (v\<lparr>p_xs := xs, p_swaps := True, pb := pb v + 1, pc := pc v - 1\<rparr>)"
  shows "K t \<and> pb t > pc t"
  using assms(1,2)
proof (induction "pc s + 1 - pb s" arbitrary: s rule: less_induct)
  case less
  obtain u v where u: "scan_up cmp a s = Some u" "scan_down cmp a u = Some v"
    using less.prems(1) by (subst (asm) partition_loop.simps) (auto simp: bind_eq_Some_conv split: option.splits)
  have K: "K v" using assms(3) [OF less.prems(2) u(1)] assms(4) [OF _ u(2)] by simp
  show ?case
  proof (cases "pb v > pc v")
    case True
    then have "t = v" using less.prems(1) u by (subst (asm) partition_loop.simps) simp
    then show ?thesis using K True by simp
  next
    case False
    then obtain xs where xs: "swap_at (p_xs v) (pb v) (pc v) = Some xs" "pc v \<noteq> 0"
      "partition_loop cmp a (v\<lparr>p_xs := xs, p_swaps := True, pb := pb v + 1, pc := pc v - 1\<rparr>) = Some t"
      using less.prems(1) u by (subst (asm) partition_loop.simps) (auto split: option.splits if_splits)
    have "pb s \<le> pb v" "pc v \<le> pc s"
      using scan_up_keeps [OF u(1), of "\<lambda>_. True"] scan_down_keeps [OF u(2), of "\<lambda>_. True"] by auto
    then show ?thesis using less.hyps [OF _ xs(3) assms(5) [OF K _ xs(1)]] False xs(2) by simp
  qed
qed

text \<open>Where the four pointers stand, whatever the comparison answers.\<close>

definition part_ok :: "nat \<Rightarrow> nat \<Rightarrow> 'a partition \<Rightarrow> bool" where
  "part_ok a n s \<longleftrightarrow> a < pa s \<and> pa s \<le> pb s \<and> pb s \<le> a + n \<and> a \<le> pc s \<and> pc s \<le> pd s \<and> pd s < a + n"

lemma partition_bounds:
  assumes "partition_loop cmp a s = Some t" "part_ok a n s"
  shows "part_ok a n t"
proof (rule partition_loop_keeps [where I = "part_ok a n" and J = "part_ok a n" and K = "part_ok a n", OF assms, THEN conjunct1])
  show "part_ok a n u" if "part_ok a n s" "scan_up cmp a s = Some u" for s u
    by (rule scan_up_keeps [where I = "part_ok a n", OF that(2,1), THEN conjunct1]) (auto simp: part_ok_def)
  show "part_ok a n u" if "part_ok a n s" "scan_down cmp a s = Some u" for s u
    by (rule scan_down_keeps [where I = "part_ok a n", OF that(2,1), THEN conjunct1]) (auto simp: part_ok_def)
qed (auto simp: part_ok_def)

text \<open>The choice of the pivot, and the whole function.\<close>

definition pivot_index :: "nat \<Rightarrow> ('a \<Rightarrow> 'a \<Rightarrow> int) \<Rightarrow> nat \<Rightarrow> nat \<Rightarrow> 'a list \<Rightarrow> nat option" where
  "pivot_index es cmp a n xs =
     (let pm = a + n div 2; pl = a; pn = a + (n - 1) in
      if n > 7 then
        (if n > 40 then
           if \<not> fits_int es (n div 8) then None
           else do { let d = n div 8;
                pl \<leftarrow> med3 cmp xs pl (pl + d) (pl + 2 * d);
                pm \<leftarrow> med3 cmp xs (pm - d) pm (pm + d);
                pn \<leftarrow> med3 cmp xs (pn - 2 * d) (pn - d) pn;
                med3 cmp xs pl pm pn }
         else med3 cmp xs pl pm pn)
      else Some pm)"

definition partition_around :: "nat \<Rightarrow> ('a \<Rightarrow> 'a \<Rightarrow> int) \<Rightarrow> nat \<Rightarrow> nat \<Rightarrow> 'a list \<Rightarrow> 'a partition option" where
  "partition_around es cmp a n xs =
     do { pm \<leftarrow> pivot_index es cmp a n xs;
          xs \<leftarrow> swap_at xs a pm;
          partition_loop cmp a \<lparr>p_xs = xs, pa = a + 1, pb = a + 1, pc = a + (n - 1), pd = a + (n - 1), p_swaps = False\<rparr> }"

definition gather_equal :: "nat \<Rightarrow> nat \<Rightarrow> nat \<Rightarrow> 'a partition \<Rightarrow> 'a list option" where
  "gather_equal es a n s =
     (let pn = a + n; r = min (pa s - a) (pb s - pa s); q = min (pd s - pc s) (pn - pd s - 1) in
      if \<not> fits_int es r then None
      else vecswap (p_xs s) a (pb s - r) r \<bind> (\<lambda>xs. if \<not> fits_int es q then None else vecswap xs (pb s) (pn - q) q))"

lemma partition_around_ok:
  assumes "partition_around es cmp a n xs = Some s" "7 \<le> n"
  shows "part_ok a n s"
proof -
  obtain ys where "partition_loop cmp a \<lparr>p_xs = ys, pa = a + 1, pb = a + 1, pc = a + (n - 1), pd = a + (n - 1), p_swaps = False\<rparr> = Some s"
    using assms(1) by (auto simp: partition_around_def bind_eq_Some_conv)
  then show ?thesis by (rule partition_bounds) (use assms(2) in \<open>simp add: part_ok_def\<close>)
qed

function quick_sort :: "nat \<Rightarrow> ('a \<Rightarrow> 'a \<Rightarrow> int) \<Rightarrow> nat \<Rightarrow> nat \<Rightarrow> 'a list \<Rightarrow> 'a list option" where
  "quick_sort es cmp a n xs =
     (if n < 7 then insertion_sort cmp a n (a + 1) xs
      else (case partition_around es cmp a n xs of None \<Rightarrow> None
        | Some s \<Rightarrow>
            if \<not> p_swaps s then insertion_sort cmp a n (a + 1) (p_xs s)
            else
              let l = pb s - pa s; r = pd s - pc s in
              gather_equal es a n s \<bind> (\<lambda>xs.
              (if \<not> fits_int es l then None else if l > 1 then quick_sort es cmp a l xs else Some xs) \<bind> (\<lambda>xs.
              (if \<not> fits_int es r then None else if r > 1 then quick_sort es cmp (a + n - r) r xs else Some xs)))))"
  by pat_completeness auto
termination
proof (relation "measure (\<lambda>(es, cmp, a, n, xs). n)", goal_cases)
  case (2 es cmp a n xs s)
  then show ?case using partition_around_ok [of es cmp a n xs s] by (simp add: part_ok_def) linarith
next
  case (3 es cmp a n xs s)
  then show ?case using partition_around_ok [of es cmp a n xs s] by (simp add: part_ok_def) linarith
qed simp

declare quick_sort.simps [simp del]

subsection \<open>What is kept\<close>

text \<open>The comparison of the client is a total preorder.\<close>

definition comparator :: "('a \<Rightarrow> 'a \<Rightarrow> int) \<Rightarrow> bool" where
  "comparator cmp \<longleftrightarrow> (\<forall>x y. cmp x y \<le> 0 \<longleftrightarrow> 0 \<le> cmp y x) \<and> (\<forall>x y z. cmp x y \<le> 0 \<longrightarrow> cmp y z \<le> 0 \<longrightarrow> cmp x z \<le> 0)"

lemma comparatorD:
  assumes "comparator cmp"
  shows "cmp x x = 0" "cmp x y \<le> 0 \<Longrightarrow> cmp y z \<le> 0 \<Longrightarrow> cmp x z \<le> 0" "cmp x y < 0 \<longleftrightarrow> 0 < cmp y x" "0 \<le> cmp x y \<longleftrightarrow> cmp y x \<le> 0"
  using assms unfolding comparator_def by (metis linorder_le_cases order_antisym, blast, meson linorder_not_le, blast)

text \<open>Only the elements from \<open>a\<close> up to \<open>a + n\<close> are moved.\<close>

definition only_within :: "nat \<Rightarrow> nat \<Rightarrow> 'a list \<Rightarrow> 'a list \<Rightarrow> bool" where
  "only_within a n xs ys \<longleftrightarrow>
     length ys = length xs \<and> mset ys = mset xs \<and> take a ys = take a xs \<and> drop (a + n) ys = drop (a + n) xs"

lemma only_within_refl [simp, intro]: "only_within a n xs xs"
  by (simp add: only_within_def)

lemma only_within_trans [trans]: "only_within a n xs ys \<Longrightarrow> only_within a n ys zs \<Longrightarrow> only_within a n xs zs"
  by (simp add: only_within_def)

lemma only_within_length: "only_within a n xs ys \<Longrightarrow> length ys = length xs"
  by (simp add: only_within_def)

lemma only_within_mono:
  assumes "only_within b k xs ys" "a \<le> b" "b + k \<le> a + n"
  shows "only_within a n xs ys"
proof -
  have "take a ys = take a xs" using assms(1,2) unfolding only_within_def by (metis min.absorb1 take_take)
  moreover have "drop (a + n) ys = drop (a + n) xs"
    using assms(1,3) unfolding only_within_def by (metis drop_drop add.commute le_iff_add)
  ultimately show ?thesis using assms(1) by (simp add: only_within_def)
qed

lemma only_within_nth:
  assumes "only_within a n xs ys" "i < a \<or> a + n \<le> i" "i < length xs"
  shows "ys ! i = xs ! i"
proof (cases "i < a")
  case True
  then show ?thesis using assms(1) unfolding only_within_def by (metis nth_take)
next
  case False
  then have "drop (a + n) zs ! (i - (a + n)) = zs ! i" if "length zs = length xs" for zs using assms(2,3) that by simp
  then show ?thesis using assms(1) by (metis only_within_def)
qed

lemma take_drop_three: "xs = take a xs @ take n (drop a xs) @ drop (a + n) xs"
  by (metis append_take_drop_id drop_drop add.commute)

lemma only_within_mset:
  assumes "only_within a n xs ys"
  shows "mset (take n (drop a ys)) = mset (take n (drop a xs))"
proof -
  have "mset ys = mset (take a xs) + mset (take n (drop a ys)) + mset (drop (a + n) xs)"
    using take_drop_three [of ys a n] assms unfolding only_within_def by (metis mset_append union_assoc)
  moreover have "mset xs = mset (take a xs) + mset (take n (drop a xs)) + mset (drop (a + n) xs)"
    using take_drop_three [of xs a n] by (metis mset_append union_assoc)
  ultimately show ?thesis using assms by (simp add: only_within_def)
qed

text \<open>So what holds of all elements of the range before holds of all of them after.\<close>

lemma only_within_all:
  assumes "only_within a n xs ys" "a + n \<le> length xs" "\<And>i. a \<le> i \<Longrightarrow> i < a + n \<Longrightarrow> P (xs ! i)" "a \<le> i" "i < a + n"
  shows "P (ys ! i)"
proof -
  have "ys ! i \<in> set (take n (drop a ys))"
    using assms(2,4,5) only_within_length [OF assms(1)] by (auto simp: in_set_conv_nth intro!: exI [of _ "i - a"])
  then have "ys ! i \<in> set (take n (drop a xs))" using only_within_mset [OF assms(1)] by (metis set_mset_mset)
  then obtain k where "k < n" "ys ! i = xs ! (a + k)" using assms(2) by (auto simp: in_set_conv_nth)
  then show ?thesis using assms(3) [of "a + k"] by simp
qed

lemma swap_at_within:
  assumes "swap_at xs i j = Some ys" "a \<le> i" "i < a + n" "a \<le> j" "j < a + n"
  shows "only_within a n xs ys"
  using assms by (auto simp: swap_at_def only_within_def mset_swap split: if_splits)

subsection \<open>The insertion sort\<close>

definition insert_last :: "('a \<Rightarrow> 'a \<Rightarrow> int) \<Rightarrow> 'a list \<Rightarrow> 'a \<Rightarrow> 'a list" where
  "insert_last cmp s x =
     rev (dropWhile (\<lambda>y. cmp y x > 0) (rev s)) @ x # rev (takeWhile (\<lambda>y. cmp y x > 0) (rev s))"

lemma sink_eq:
  "length pre = a \<Longrightarrow> sink cmp a (a + length s) (pre @ s @ x # rest) = Some (pre @ insert_last cmp s x @ rest)"
proof (induction s arbitrary: rest rule: rev_induct)
  case Nil
  then show ?case by (cases a) (simp_all add: insert_last_def)
next
  case (snoc y s)
  have r: "cmp_at cmp (pre @ (s @ [y]) @ x # rest) (a + length s) (Suc (a + length s)) = Some (cmp y x)"
    using snoc.prems by (simp add: cmp_at_def nth_append)
  have w: "swap_at (pre @ (s @ [y]) @ x # rest) (Suc (a + length s)) (a + length s) = Some (pre @ s @ x # y # rest)"
    using snoc.prems by (simp add: swap_at_def nth_append list_update_append)
  show ?case
  proof (cases "cmp y x > 0")
    case True
    have "insert_last cmp (s @ [y]) x = insert_last cmp s x @ [y]" using True by (simp add: insert_last_def)
    then show ?thesis using True r w snoc.IH [OF snoc.prems, of "y # rest"] by simp
  next
    case False
    then show ?thesis using r by (simp add: insert_last_def)
  qed
qed

lemma insertion_sort_eq:
  "length pre = a \<Longrightarrow> n = length s + length t \<Longrightarrow>
   insertion_sort cmp a n (a + length s) (pre @ s @ t @ post) = Some (pre @ foldl (insert_last cmp) s t @ post)"
proof (induction t arbitrary: s)
  case Nil
  then show ?case by (subst insertion_sort.simps) simp
next
  case (Cons x t)
  have "length (insert_last cmp s x) = Suc (length s)"
    by (simp add: insert_last_def) (metis length_append length_rev takeWhile_dropWhile_id add.commute)
  then show ?case using Cons.IH [of "insert_last cmp s x"] Cons.prems sink_eq [of pre a cmp s x "t @ post"]
    by (subst insertion_sort.simps) simp
qed

lemma insert_last_mset: "mset (insert_last cmp s x) = mset s + {#x#}"
proof -
  have "mset (takeWhile P l) + mset (dropWhile P l) = mset l" for P and l :: "'a list"
    by (metis mset_append takeWhile_dropWhile_id)
  from this [of "\<lambda>y. cmp y x > 0" "rev s"] show ?thesis
    by (simp add: insert_last_def) (metis union_commute)
qed

abbreviation "ordered cmp \<equiv> sorted_wrt (\<lambda>x y. cmp x y \<le> (0 :: int))"

lemma insert_last_ordered:
  assumes "comparator cmp" "ordered cmp s"
  shows "ordered cmp (insert_last cmp s x)"
  using assms(2)
proof (induction s rule: rev_induct)
  case (snoc y s)
  show ?case
  proof (cases "cmp y x > 0")
    case True
    then have e: "insert_last cmp (s @ [y]) x = insert_last cmp s x @ [y]" by (simp add: insert_last_def)
    have "set (insert_last cmp s x) = insert x (set s)"
      by (metis insert_last_mset set_mset_mset set_mset_add_mset_insert add_mset_add_single)
    then show ?thesis using True snoc comparatorD(3) [OF assms(1), of x y] by (simp add: e sorted_wrt_append)
  next
    case False
    then have "\<forall>z \<in> set s. cmp z x \<le> 0" using snoc.prems comparatorD(2) [OF assms(1)] by (auto simp: sorted_wrt_append)
    then show ?thesis using False snoc.prems by (simp add: insert_last_def sorted_wrt_append)
  qed
qed (simp add: insert_last_def)

lemma insertions:
  assumes "comparator cmp"
  shows "ordered cmp s \<Longrightarrow> ordered cmp (foldl (insert_last cmp) s t)" "mset (foldl (insert_last cmp) s t) = mset s + mset t"
  by (induction t arbitrary: s) (simp_all add: insert_last_ordered [OF assms] insert_last_mset)

definition sorts :: "('a \<Rightarrow> 'a \<Rightarrow> int) \<Rightarrow> nat \<Rightarrow> nat \<Rightarrow> 'a list \<Rightarrow> 'a list option \<Rightarrow> bool" where
  "sorts cmp a n xs r \<longleftrightarrow> (\<exists>ys. r = Some ys \<and> only_within a n xs ys \<and> ordered cmp (take n (drop a ys)))"

lemma insertion_sort_sorts:
  assumes "comparator cmp" "a + n \<le> length xs" "0 < n"
  shows "sorts cmp a n xs (insertion_sort cmp a n (a + 1) xs)"
proof -
  obtain x t where x: "take n (drop a xs) = x # t" using assms(2,3) by (cases "take n (drop a xs)") auto
  then have xs: "xs = take a xs @ [x] @ t @ drop (a + n) xs" using take_drop_three [of xs a n] by simp
  have l: "length (take a xs) = a" "Suc (length t) = n" using assms(2) x by (auto dest: arg_cong [of _ _ length])
  let ?S = "foldl (insert_last cmp) [x] t"
  have S: "ordered cmp ?S" "mset ?S = mset ([x] @ t)" using insertions [OF assms(1), of "[x]" t] by simp_all
  then have "length ?S = n" using l(2) by (metis One_nat_def add.commute length_append length_Cons list.size(3) mset_eq_length plus_1_eq_Suc)
  have "insertion_sort cmp a n (a + 1) xs = Some (take a xs @ ?S @ drop (a + n) xs)"
    using insertion_sort_eq [of "take a xs" a n "[x]" t cmp "drop (a + n) xs"] l xs by simp
  moreover have "only_within a n xs (take a xs @ ?S @ drop (a + n) xs)"
  proof -
    have "mset (take a xs @ ?S @ drop (a + n) xs) = mset (take a xs @ [x] @ t @ drop (a + n) xs)" using S(2) by simp
    also have "\<dots> = mset xs" by (rule arg_cong [OF xs [symmetric]])
    finally have "mset (take a xs @ ?S @ drop (a + n) xs) = mset xs" .
    then show ?thesis using \<open>length ?S = n\<close> l assms(2) unfolding only_within_def by simp
  qed
  ultimately show ?thesis using S(1) \<open>length ?S = n\<close> l(1) by (simp add: sorts_def)
qed
subsection \<open>The partition\<close>

lemma swap_at_Some: "i < length xs \<Longrightarrow> j < length xs \<Longrightarrow> swap_at xs i j = Some (xs[i := xs ! j, j := xs ! i])"
  by (simp add: swap_at_def)

text \<open>
  The five zones: equal to the pivot at \<open>a\<close>, less, not yet seen, greater, equal.
\<close>

definition part_inv :: "('a \<Rightarrow> 'a \<Rightarrow> int) \<Rightarrow> nat \<Rightarrow> nat \<Rightarrow> 'a list \<Rightarrow> 'a partition \<Rightarrow> bool" where
  "part_inv cmp a n xs0 s \<longleftrightarrow>
     part_ok a n s \<and> pb s \<le> Suc (pc s) \<and> a + n \<le> length (p_xs s) \<and> only_within a n xs0 (p_xs s) \<and>
     (\<forall>i. a \<le> i \<longrightarrow> i < pa s \<longrightarrow> cmp (p_xs s ! i) (p_xs s ! a) = 0) \<and>
     (\<forall>i. pa s \<le> i \<longrightarrow> i < pb s \<longrightarrow> cmp (p_xs s ! i) (p_xs s ! a) < 0) \<and>
     (\<forall>i. pc s < i \<longrightarrow> i \<le> pd s \<longrightarrow> cmp (p_xs s ! i) (p_xs s ! a) > 0) \<and>
     (\<forall>i. pd s < i \<longrightarrow> i < a + n \<longrightarrow> cmp (p_xs s ! i) (p_xs s ! a) = 0)"

definition up_done :: "('a \<Rightarrow> 'a \<Rightarrow> int) \<Rightarrow> nat \<Rightarrow> 'a partition \<Rightarrow> bool" where
  "up_done cmp a s \<longleftrightarrow> (pb s \<le> pc s \<longrightarrow> cmp (p_xs s ! pb s) (p_xs s ! a) > 0)"

definition down_done :: "('a \<Rightarrow> 'a \<Rightarrow> int) \<Rightarrow> nat \<Rightarrow> 'a partition \<Rightarrow> bool" where
  "down_done cmp a s \<longleftrightarrow> (pb s \<le> pc s \<longrightarrow> cmp (p_xs s ! pc s) (p_xs s ! a) < 0)"

lemma part_inv_bounds:
  assumes "part_inv cmp a n xs0 s"
  shows "a < pa s" "pa s \<le> pb s" "pb s \<le> Suc (pc s)" "a \<le> pc s" "pc s \<le> pd s" "pd s < a + n" "a + n \<le> length (p_xs s)"
    "only_within a n xs0 (p_xs s)" "pb s \<le> pc s \<Longrightarrow> pc s \<noteq> 0"
  using assms by (auto simp: part_inv_def part_ok_def)

lemma up_swap_inv:
  assumes "part_inv cmp a n xs0 s" "pb s \<le> pc s" "cmp_at cmp (p_xs s) (pb s) a = Some 0" "swap_at (p_xs s) (pa s) (pb s) = Some xs"
  shows "part_inv cmp a n xs0 (s\<lparr>p_xs := xs, p_swaps := True, pa := pa s + 1, pb := pb s + 1\<rparr>)"
proof -
  note b = part_inv_bounds [OF assms(1)]
  have w: "only_within a n xs0 xs" using only_within_trans [OF b(8) swap_at_within [OF assms(4)]] b assms(2) by simp
  have xs: "xs = (p_xs s)[pa s := p_xs s ! pb s, pb s := p_xs s ! pa s]" and c: "cmp (p_xs s ! pb s) (p_xs s ! a) = 0"
    using assms(3,4) by (auto simp: swap_at_def cmp_at_def split: if_splits)
  have e: "xs ! i = (if i = pb s then p_xs s ! pa s else if i = pa s then p_xs s ! pb s else p_xs s ! i)" if "i < length (p_xs s)" for i
    using xs b assms(2) that by (simp add: nth_list_update)
  have l: "length xs = length (p_xs s)" by (simp add: xs)
  have "xs ! a = p_xs s ! a" using e [of a] b assms(2) by simp
  moreover have "cmp (p_xs s ! pa s) (p_xs s ! a) < 0" if "pa s < pb s" using that assms(1) by (simp add: part_inv_def)
  ultimately show ?thesis using assms(1,2) w c b l
    by (auto simp: part_inv_def part_ok_def e less_Suc_eq)
qed

lemma down_swap_inv:
  assumes "part_inv cmp a n xs0 s" "pb s \<le> pc s" "cmp_at cmp (p_xs s) (pc s) a = Some 0" "swap_at (p_xs s) (pc s) (pd s) = Some xs"
  shows "part_inv cmp a n xs0 (s\<lparr>p_xs := xs, p_swaps := True, pd := pd s - 1, pc := pc s - 1\<rparr>)"
proof -
  note b = part_inv_bounds [OF assms(1)]
  have w: "only_within a n xs0 xs" using only_within_trans [OF b(8) swap_at_within [OF assms(4)]] b assms(2) by simp
  have xs: "xs = (p_xs s)[pc s := p_xs s ! pd s, pd s := p_xs s ! pc s]" and c: "cmp (p_xs s ! pc s) (p_xs s ! a) = 0"
    using assms(3,4) by (auto simp: swap_at_def cmp_at_def split: if_splits)
  have e: "xs ! i = (if i = pd s then p_xs s ! pc s else if i = pc s then p_xs s ! pd s else p_xs s ! i)" if "i < length (p_xs s)" for i
    using xs b assms(2) that by (simp add: nth_list_update)
  have l: "length xs = length (p_xs s)" by (simp add: xs)
  have "xs ! a = p_xs s ! a" using e [of a] b assms(2) by simp
  moreover have "cmp (p_xs s ! pd s) (p_xs s ! a) > 0" if "pc s < pd s" using that assms(1) by (simp add: part_inv_def)
  moreover have "i = pc s \<or> pc s < i" if "pc s - Suc 0 < i" for i using that by auto
  moreover have "i = pd s \<or> pd s < i" if "pd s - Suc 0 < i" for i using that by auto
  ultimately show ?thesis using assms(1,2) w c b l
    by (auto simp: part_inv_def part_ok_def e)
qed

lemma swap_inv:
  assumes "part_inv cmp a n xs0 s" "up_done cmp a s" "down_done cmp a s" "pb s \<le> pc s" "swap_at (p_xs s) (pb s) (pc s) = Some xs"
    "comparator cmp"
  shows "part_inv cmp a n xs0 (s\<lparr>p_xs := xs, p_swaps := True, pb := pb s + 1, pc := pc s - 1\<rparr>)"
proof -
  note b = part_inv_bounds [OF assms(1)]
  have w: "only_within a n xs0 xs" using only_within_trans [OF b(8) swap_at_within [OF assms(5)]] b assms(4) by simp
  have xs: "xs = (p_xs s)[pb s := p_xs s ! pc s, pc s := p_xs s ! pb s]" using assms(5) by (auto simp: swap_at_def split: if_splits)
  have d: "cmp (p_xs s ! pb s) (p_xs s ! a) > 0" "cmp (p_xs s ! pc s) (p_xs s ! a) < 0" "pb s < pc s"
    using assms(2,3,4) by (auto simp: up_done_def down_done_def order_less_le)
  have e: "xs ! i = (if i = pc s then p_xs s ! pb s else if i = pb s then p_xs s ! pc s else p_xs s ! i)" if "i < length (p_xs s)" for i
    using xs b assms(4) that by (simp add: nth_list_update)
  have l: "length xs = length (p_xs s)" by (simp add: xs)
  have "xs ! a = p_xs s ! a" using e [of a] b assms(4) by simp
  moreover have "i = pc s \<or> pc s < i" if "pc s - Suc 0 < i" for i using that by auto
  ultimately show ?thesis using assms(1) w d b l
    by (auto simp: part_inv_def part_ok_def e less_Suc_eq)
qed

lemma up_step_inv:
  "part_inv cmp a n xs0 s \<Longrightarrow> pb s \<le> pc s \<Longrightarrow> cmp (p_xs s ! pb s) (p_xs s ! a) < 0 \<Longrightarrow> part_inv cmp a n xs0 (s\<lparr>pb := pb s + 1\<rparr>)"
  by (auto simp: part_inv_def part_ok_def less_Suc_eq)

lemma down_step_inv:
  assumes "part_inv cmp a n xs0 s" "pb s \<le> pc s" "cmp (p_xs s ! pc s) (p_xs s ! a) > 0"
  shows "part_inv cmp a n xs0 (s\<lparr>pc := pc s - 1\<rparr>)"
proof -
  have "i = pc s \<or> pc s < i" if "pc s - Suc 0 < i" for i using that by auto
  then show ?thesis using assms by (auto simp: part_inv_def part_ok_def)
qed

text \<open>The scans and the loop never leave the array.\<close>

lemma scan_up_some:
  "part_inv cmp a n xs0 s \<Longrightarrow> \<exists>t. scan_up cmp a s = Some t"
proof (induction "pc s + 1 - pb s" arbitrary: s rule: less_induct)
  case less
  note b = part_inv_bounds [OF less.prems]
  show ?case
  proof (cases "pb s \<le> pc s")
    case True
    have c: "cmp_at cmp (p_xs s) (pb s) a = Some (cmp (p_xs s ! pb s) (p_xs s ! a))" using b True by (simp add: cmp_at_def)
    obtain xs where x: "swap_at (p_xs s) (pa s) (pb s) = Some xs" using b True by (simp add: swap_at_def)
    have m: "pc s - pb s < Suc (pc s) - pb s" using True by simp
    consider "cmp (p_xs s ! pb s) (p_xs s ! a) > 0" | "cmp (p_xs s ! pb s) (p_xs s ! a) = 0" | "cmp (p_xs s ! pb s) (p_xs s ! a) < 0" by linarith
    then show ?thesis
    proof cases
      case 2
      then show ?thesis using less.hyps [OF _ up_swap_inv [OF less.prems True _ x]] True c x m by (subst scan_up.simps) simp
    next
      case 3
      then show ?thesis using less.hyps [OF _ up_step_inv [OF less.prems True]] True c m by (subst scan_up.simps) simp
    qed (use True c in \<open>subst scan_up.simps; simp\<close>)
  qed (subst scan_up.simps; simp)
qed

lemma scan_down_some:
  "part_inv cmp a n xs0 s \<Longrightarrow> \<exists>t. scan_down cmp a s = Some t"
proof (induction "pc s" arbitrary: s rule: less_induct)
  case less
  note b = part_inv_bounds [OF less.prems]
  show ?case
  proof (cases "pb s \<le> pc s")
    case True
    have c: "cmp_at cmp (p_xs s) (pc s) a = Some (cmp (p_xs s ! pc s) (p_xs s ! a))" using b True by (simp add: cmp_at_def)
    obtain xs where x: "swap_at (p_xs s) (pc s) (pd s) = Some xs" using b True by (simp add: swap_at_def)
    consider "cmp (p_xs s ! pc s) (p_xs s ! a) < 0" | "cmp (p_xs s ! pc s) (p_xs s ! a) = 0" | "cmp (p_xs s ! pc s) (p_xs s ! a) > 0" by linarith
    then show ?thesis
    proof cases
      case 2
      then show ?thesis using less.hyps [OF _ down_swap_inv [OF less.prems True _ x]] True c x b(9) by (subst scan_down.simps) simp
    next
      case 3
      then show ?thesis using less.hyps [OF _ down_step_inv [OF less.prems True]] True c b(9) by (subst scan_down.simps) simp
    qed (use True c in \<open>subst scan_down.simps; simp\<close>)
  qed (subst scan_down.simps; simp)
qed

lemma scan_up_inv:
  assumes "scan_up cmp a s = Some t" "part_inv cmp a n xs0 s"
  shows "part_inv cmp a n xs0 t \<and> up_done cmp a t"
proof -
  have "part_inv cmp a n xs0 t \<and> pc t = pc s \<and> pb s \<le> pb t \<and> (pb t \<le> pc t \<longrightarrow> (\<exists>r > 0. cmp_at cmp (p_xs t) (pb t) a = Some r))"
    by (rule scan_up_keeps [where I = "part_inv cmp a n xs0", OF assms])
       (auto intro: up_swap_inv [simplified] up_step_inv [simplified] simp: cmp_at_def split: if_splits)
  then show ?thesis by (auto simp: up_done_def cmp_at_def split: if_splits)
qed

lemma scan_down_inv:
  assumes "scan_down cmp a s = Some t" "part_inv cmp a n xs0 s" "up_done cmp a s"
  shows "part_inv cmp a n xs0 t \<and> up_done cmp a t \<and> down_done cmp a t"
proof -
  let ?I = "\<lambda>s. part_inv cmp a n xs0 s \<and> up_done cmp a s"
  have "?I t \<and> pb t = pb s \<and> pc t \<le> pc s \<and> (pb t \<le> pc t \<longrightarrow> (\<exists>r < 0. cmp_at cmp (p_xs t) (pc t) a = Some r))"
  proof (rule scan_down_keeps [where I = ?I, OF assms(1)])
    fix s xs assume s: "?I s" "pb s \<le> pc s" "cmp_at cmp (p_xs s) (pc s) a = Some 0" "swap_at (p_xs s) (pc s) (pd s) = Some xs"
    have "up_done cmp a (s\<lparr>p_xs := xs, p_swaps := True, pd := pd s - 1, pc := pc s - 1\<rparr>)"
      using s part_inv_bounds [of cmp a n xs0 s] by (auto simp: up_done_def cmp_at_def swap_at_def split: if_splits)
    then show "?I (s\<lparr>p_xs := xs, p_swaps := True, pd := pd s - 1, pc := pc s - 1\<rparr>)"
      using down_swap_inv s by blast
  next
    fix s r assume s: "?I s" "pb s \<le> pc s" "cmp_at cmp (p_xs s) (pc s) a = Some r" "r > 0"
    then have "cmp (p_xs s ! pc s) (p_xs s ! a) > 0" by (auto simp: cmp_at_def split: if_splits)
    then show "?I (s\<lparr>pc := pc s - 1\<rparr>)"
      using down_step_inv [of cmp a n xs0 s] s by (auto simp: up_done_def)
  qed (use assms in simp)
  then show ?thesis by (auto simp: down_done_def cmp_at_def split: if_splits)
qed

lemma partition_inv:
  assumes "partition_loop cmp a s = Some t" "part_inv cmp a n xs0 s" "comparator cmp"
  shows "part_inv cmp a n xs0 t \<and> pb t = Suc (pc t)"
proof -
  have "(part_inv cmp a n xs0 t \<and> up_done cmp a t \<and> down_done cmp a t) \<and> pb t > pc t"
    by (rule partition_loop_keeps [where I = "part_inv cmp a n xs0" and J = "\<lambda>s. part_inv cmp a n xs0 s \<and> up_done cmp a s"
          and K = "\<lambda>s. part_inv cmp a n xs0 s \<and> up_done cmp a s \<and> down_done cmp a s", OF assms(1,2)])
       (use scan_up_inv scan_down_inv swap_inv assms(3) in blast)+
  then show ?thesis using part_inv_bounds(3) [of cmp a n xs0 t] by auto
qed

lemma partition_some:
  assumes "comparator cmp"
  shows "part_inv cmp a n xs0 s \<Longrightarrow> \<exists>t. partition_loop cmp a s = Some t"
proof (induction "pc s + 1 - pb s" arbitrary: s rule: less_induct)
  case less
  obtain u where u: "scan_up cmp a s = Some u" using scan_up_some [OF less.prems] by blast
  note iu = scan_up_inv [OF u less.prems]
  obtain v where v: "scan_down cmp a u = Some v" using scan_down_some iu by blast
  note iv = scan_down_inv [OF v iu [THEN conjunct1] iu [THEN conjunct2]]
  note b = part_inv_bounds [OF iv [THEN conjunct1]]
  show ?case
  proof (cases "pb v > pc v")
    case True
    then show ?thesis using u v by (subst partition_loop.simps) simp
  next
    case False
    then obtain xs where xs: "swap_at (p_xs v) (pb v) (pc v) = Some xs" using b by (simp add: swap_at_def)
    have m: "pb s \<le> pb v" "pc v \<le> pc s"
      using scan_up_keeps [OF u, of "\<lambda>_. True"] scan_down_keeps [OF v, of "\<lambda>_. True"] by auto
    have i: "part_inv cmp a n xs0 (v\<lparr>p_xs := xs, p_swaps := True, pb := pb v + 1, pc := pc v - 1\<rparr>)"
      using swap_inv [OF _ _ _ _ xs assms] iv False by simp
    show ?thesis using less.hyps [OF _ i] m False b(9) u v xs by (subst partition_loop.simps) simp
  qed
qed

lemma med3_some:
  "i < length xs \<Longrightarrow> j < length xs \<Longrightarrow> k < length xs \<Longrightarrow> \<exists>m \<in> {i, j, k}. med3 cmp xs i j k = Some m"
  by (simp add: med3_def cmp_at_def)

lemma pivot_some:
  assumes "a + n \<le> length xs" "7 \<le> n" "n * es < 2 ^ 31"
  shows "\<exists>m. pivot_index es cmp a n xs = Some m \<and> a \<le> m \<and> m < a + n"
proof -
  have three: "\<exists>m. med3 cmp xs i j k = Some m \<and> a \<le> m \<and> m < a + n"
    if "a \<le> i" "i < a + n" "a \<le> j" "j < a + n" "a \<le> k" "k < a + n" for i j k
    using med3_some [of i xs j k cmp] that assms(1) by auto
  show ?thesis
  proof (cases "n > 40")
    case True
    define d where "d = n div 8"
    have d: "0 < d" "8 * d \<le> n" using True by (auto simp: d_def)
    obtain i where i: "med3 cmp xs a (a + d) (a + 2 * d) = Some i" "a \<le> i" "i < a + n" using three [of a "a + d" "a + 2 * d"] d by auto
    have "d \<le> n div 2" "n div 2 + d < n" using d by auto
    then have "a \<le> a + n div 2 - d" "a + n div 2 - d < a + n" "a + n div 2 < a + n" "a + n div 2 + d < a + n" using d(1) by linarith+
    then obtain j where j: "med3 cmp xs (a + n div 2 - d) (a + n div 2) (a + n div 2 + d) = Some j" "a \<le> j" "j < a + n"
      using three [of "a + n div 2 - d" "a + n div 2" "a + n div 2 + d"] by auto
    have kb: "a \<le> a + (n - 1) - 2 * d" "a + (n - 1) - 2 * d < a + n" "a \<le> a + (n - 1) - d" "a + (n - 1) - d < a + n"
      "a \<le> a + (n - 1)" "a + (n - 1) < a + n" using d by linarith+
    obtain k where k: "med3 cmp xs (a + (n - 1) - 2 * d) (a + (n - 1) - d) (a + (n - 1)) = Some k" "a \<le> k" "k < a + n"
      using three [of "a + (n - 1) - 2 * d" "a + (n - 1) - d" "a + (n - 1)"] kb by auto
    show ?thesis using three [OF i(2,3) j(2,3) k(2,3)] i(1) j(1) k(1) True fits_int_less [OF assms(3), of d] d(2) by (simp add: pivot_index_def d_def [symmetric] Let_def)
  next
    case False
    then show ?thesis using three [of a "a + n div 2" "a + (n - 1)"] assms(2) by (auto simp: pivot_index_def Let_def)
  qed
qed

lemma partition_around_inv:
  assumes "comparator cmp" "a + n \<le> length xs" "7 \<le> n" "n * es < 2 ^ 31"
  obtains s where "partition_around es cmp a n xs = Some s" "part_inv cmp a n xs s" "pb s = Suc (pc s)"
proof -
  obtain m where m: "pivot_index es cmp a n xs = Some m" "a \<le> m" "m < a + n" using pivot_some [OF assms(2-4)] by blast
  obtain ys where ys: "swap_at xs a m = Some ys" using m assms(2) by (simp add: swap_at_def)
  have w: "only_within a n xs ys" by (rule swap_at_within [OF ys]) (use m assms in auto)
  let ?s = "\<lparr>p_xs = ys, pa = a + 1, pb = a + 1, pc = a + (n - 1), pd = a + (n - 1), p_swaps = False\<rparr>"
  have i: "part_inv cmp a n xs ?s"
    using w only_within_length [OF w] assms comparatorD(1) [OF assms(1)] by (auto simp: part_inv_def part_ok_def le_less_Suc_eq)
  obtain t where "partition_loop cmp a ?s = Some t" using partition_some [OF assms(1) i] by blast
  then show thesis using that [of t] partition_inv [OF _ i assms(1)] m(1) ys by (simp add: partition_around_def)
qed

subsection \<open>Putting the equal elements in the middle\<close>

lemma vecswap_eq:
  "i + r \<le> j \<Longrightarrow> j + r \<le> length xs \<Longrightarrow>
   \<exists>ys. vecswap xs i j r = Some ys \<and> length ys = length xs \<and> mset ys = mset xs \<and>
     (\<forall>k < length xs. ys ! k = (if i \<le> k \<and> k < i + r then xs ! (k + (j - i)) else if j \<le> k \<and> k < j + r then xs ! (k - (j - i)) else xs ! k))"
proof (induction r arbitrary: xs i j)
  case (Suc r)
  let ?xs = "xs[i := xs ! j, j := xs ! i]"
  have s: "swap_at xs i j = Some ?xs" using Suc.prems by (simp add: swap_at_def)
  obtain ys where ys: "vecswap ?xs (i + 1) (j + 1) r = Some ys" "length ys = length ?xs" "mset ys = mset ?xs"
    "\<And>k. k < length ?xs \<Longrightarrow> ys ! k = (if i + 1 \<le> k \<and> k < i + 1 + r then ?xs ! (k + (j + 1 - (i + 1)))
       else if j + 1 \<le> k \<and> k < j + 1 + r then ?xs ! (k - (j + 1 - (i + 1))) else ?xs ! k)"
    using Suc.IH [of "i + 1" "j + 1" ?xs] Suc.prems by auto
  have "mset ?xs = mset xs" using Suc.prems by (intro mset_swap) auto
  moreover have "ys ! k = (if i \<le> k \<and> k < i + Suc r then xs ! (k + (j - i)) else if j \<le> k \<and> k < j + Suc r then xs ! (k - (j - i)) else xs ! k)"
    if "k < length xs" for k
    using ys(4) [of k] that Suc.prems by (cases "k = j"; cases "k = i") (auto simp: nth_list_update)
  ultimately show ?case using s ys by simp
qed simp

text \<open>The block \<open>E\<close> of equal elements at the left end changes places with the block of smaller ones.\<close>

lemma gather_left:
  assumes "a \<le> m" "m \<le> b" "b \<le> length xs" "\<And>i. a \<le> i \<Longrightarrow> i < m \<Longrightarrow> P (xs ! i)" "\<And>i. m \<le> i \<Longrightarrow> i < b \<Longrightarrow> Q (xs ! i)"
  defines "r \<equiv> min (m - a) (b - m)"
  obtains ys where "vecswap xs a (b - r) r = Some ys" "length ys = length xs" "mset ys = mset xs"
    "\<And>k. k < a \<or> b \<le> k \<Longrightarrow> k < length xs \<Longrightarrow> ys ! k = xs ! k"
    "\<And>i. a \<le> i \<Longrightarrow> i < a + (b - m) \<Longrightarrow> Q (ys ! i)" "\<And>i. a + (b - m) \<le> i \<Longrightarrow> i < b \<Longrightarrow> P (ys ! i)"
proof -
  have "a + r \<le> b - r" "b - r + r \<le> length xs" using assms by auto
  then obtain ys where ys: "vecswap xs a (b - r) r = Some ys" "length ys = length xs" "mset ys = mset xs"
    "\<And>k. k < length xs \<Longrightarrow> ys ! k = (if a \<le> k \<and> k < a + r then xs ! (k + (b - r - a))
        else if b - r \<le> k \<and> k < b - r + r then xs ! (k - (b - r - a)) else xs ! k)"
    using vecswap_eq [of a r "b - r" xs] by auto
  have r: "r \<le> m - a" "r \<le> b - m" "r = m - a \<or> r = b - m" by (auto simp: r_def)
  have Q: "Q (ys ! i)" if i: "a \<le> i" "i < a + (b - m)" for i
  proof (cases "i < a + r")
    case True
    then show ?thesis using ys(4) [of i] i r assms(1-3) assms(5) [of "i + (b - r - a)"] by simp
  next
    case False
    then have "m \<le> i" "i < b - r" using i r assms(1,2) by auto
    then show ?thesis using ys(4) [of i] False assms(3) assms(5) [of i] by simp
  qed
  have P: "P (ys ! i)" if i: "a + (b - m) \<le> i" "i < b" for i
  proof (cases "b - r \<le> i")
    case True
    then show ?thesis using ys(4) [of i] i r assms(1-3) assms(4) [of "i - (b - r - a)"] by simp
  next
    case False
    then have "i < m" "a + r \<le> i" using i r assms(1,2) by auto
    then show ?thesis using ys(4) [of i] False i assms(2,3) assms(4) [of i] by simp
  qed
  show thesis
  proof (rule that [OF ys(1-3) _ Q P])
    fix k assume "k < a \<or> b \<le> k" "k < length xs"
    then show "ys ! k = xs ! k" using ys(4) [of k] r assms(1,2) by auto
  qed
qed

lemma only_within_intro:
  assumes "length ys = length xs" "mset ys = mset xs" "\<And>k. k < a \<or> a + n \<le> k \<Longrightarrow> k < length xs \<Longrightarrow> ys ! k = xs ! k"
  shows "only_within a n xs ys"
  unfolding only_within_def using assms by (auto intro!: nth_equalityI)

lemma gather_sorted:
  assumes "part_inv cmp a n xs0 s" "pb s = Suc (pc s)" "n * es < 2 ^ 31"
  defines "l \<equiv> pb s - pa s" and "r \<equiv> pd s - pc s"
  obtains ys p where "gather_equal es a n s = Some ys" "only_within a n xs0 ys" "l + r \<le> n" "l < n" "r < n"
    "\<And>i. a \<le> i \<Longrightarrow> i < a + l \<Longrightarrow> cmp (ys ! i) p < 0" "\<And>i. a + l \<le> i \<Longrightarrow> i < a + n - r \<Longrightarrow> cmp (ys ! i) p = 0"
    "\<And>i. a + n - r \<le> i \<Longrightarrow> i < a + n \<Longrightarrow> cmp (ys ! i) p > 0"
proof -
  note b = part_inv_bounds [OF assms(1)]
  define p where "p = p_xs s ! a"
  have z: "\<And>i. a \<le> i \<Longrightarrow> i < pa s \<Longrightarrow> cmp (p_xs s ! i) p = 0" "\<And>i. pa s \<le> i \<Longrightarrow> i < pb s \<Longrightarrow> cmp (p_xs s ! i) p < 0"
    "\<And>i. pb s \<le> i \<Longrightarrow> i < Suc (pd s) \<Longrightarrow> cmp (p_xs s ! i) p > 0" "\<And>i. Suc (pd s) \<le> i \<Longrightarrow> i < a + n \<Longrightarrow> cmp (p_xs s ! i) p = 0"
    using assms(1,2) by (auto simp: part_inv_def p_def)
  have bs: "a \<le> pa s" "pa s \<le> pb s" "pb s \<le> length (p_xs s)" using b assms(2) by auto
  obtain ys where ys: "vecswap (p_xs s) a (pb s - min (pa s - a) (pb s - pa s)) (min (pa s - a) (pb s - pa s)) = Some ys"
    "length ys = length (p_xs s)" "mset ys = mset (p_xs s)" "\<And>k. k < a \<or> pb s \<le> k \<Longrightarrow> k < length (p_xs s) \<Longrightarrow> ys ! k = p_xs s ! k"
    "\<And>i. a \<le> i \<Longrightarrow> i < a + l \<Longrightarrow> cmp (ys ! i) p < 0" "\<And>i. a + l \<le> i \<Longrightarrow> i < pb s \<Longrightarrow> cmp (ys ! i) p = 0"
    by (rule gather_left [OF bs, of "\<lambda>x. cmp x p = 0" "\<lambda>x. cmp x p < 0"]) (use z in \<open>auto simp: l_def\<close>)
  have cs: "pb s \<le> Suc (pd s)" "Suc (pd s) \<le> a + n" "a + n \<le> length ys" using b assms(2) ys(2) by auto
  have m: "min (Suc (pd s) - pb s) (a + n - Suc (pd s)) = min (pd s - pc s) (a + n - pd s - 1)" using assms(2) by simp
  obtain zs where zs: "vecswap ys (pb s) (a + n - min (pd s - pc s) (a + n - pd s - 1)) (min (pd s - pc s) (a + n - pd s - 1)) = Some zs"
    "length zs = length ys" "mset zs = mset ys" "\<And>k. k < pb s \<or> a + n \<le> k \<Longrightarrow> k < length ys \<Longrightarrow> zs ! k = ys ! k"
    "\<And>i. pb s \<le> i \<Longrightarrow> i < pb s + (a + n - Suc (pd s)) \<Longrightarrow> cmp (zs ! i) p = 0"
    "\<And>i. pb s + (a + n - Suc (pd s)) \<le> i \<Longrightarrow> i < a + n \<Longrightarrow> cmp (zs ! i) p > 0"
  proof (rule gather_left [OF cs, of "\<lambda>x. cmp x p > 0" "\<lambda>x. cmp x p = 0", unfolded m])
    show "0 < cmp (ys ! i) p" if "pb s \<le> i" "i < Suc (pd s)" for i using ys(4) [of i] z(3) that b by simp
    show "cmp (ys ! i) p = 0" if "Suc (pd s) \<le> i" "i < a + n" for i using ys(4) [of i] z(4) that b assms(2) by simp
  qed blast
  have e: "pb s + (a + n - Suc (pd s)) = a + n - r" using b assms(2) by (auto simp: r_def)
  show thesis
  proof (rule that [of zs p])
    have "min (pa s - a) (pb s - pa s) \<le> n" "min (pd s - pc s) (a + n - pd s - 1) \<le> n" using b by auto
    then show "gather_equal es a n s = Some zs" using ys(1) zs(1) fits_int_less [OF assms(3)] by (simp add: gather_equal_def Let_def)
    have "only_within a n (p_xs s) zs" by (rule only_within_intro) (use zs ys b assms(2) in auto)
    then show "only_within a n xs0 zs" using b(8) only_within_trans by blast
    show "cmp (zs ! i) p < 0" if "a \<le> i" "i < a + l" for i
    proof -
      have "i < pb s" using that(2) b(1) bs by (simp add: l_def)
      then show ?thesis using zs(4) [of i] ys(2) ys(5) that bs by simp
    qed
    show "cmp (zs ! i) p = 0" if "a + l \<le> i" "i < a + n - r" for i
      using zs(4) [of i] zs(5) [of i] ys(2) ys(6) [of i] that bs e by (cases "i < pb s") auto
    show "cmp (zs ! i) p > 0" if "a + n - r \<le> i" "i < a + n" for i using zs(6) that e by simp
  qed (use b assms(2) in \<open>auto simp: l_def r_def\<close>)
qed

subsection \<open>The whole function\<close>

lemma ordered_range_nth: "a + n \<le> length ys \<Longrightarrow>
  ordered cmp (take n (drop a ys)) \<longleftrightarrow> (\<forall>i j. a \<le> i \<longrightarrow> i < j \<longrightarrow> j < a + n \<longrightarrow> cmp (ys ! i) (ys ! j) \<le> 0)"
  (is "?l \<Longrightarrow> _ = ?r")
proof -
  assume l: ?l
  have "ordered cmp (take n (drop a ys)) \<longleftrightarrow> (\<forall>i j. i < j \<longrightarrow> j < n \<longrightarrow> cmp (ys ! (a + i)) (ys ! (a + j)) \<le> 0)"
    using l by (auto simp: sorted_wrt_iff_nth_less)
  moreover have "(\<forall>i j. i < j \<longrightarrow> j < n \<longrightarrow> cmp (ys ! (a + i)) (ys ! (a + j)) \<le> 0) \<longleftrightarrow> ?r"
  proof (intro iffI allI impI)
    fix i j assume h: "\<forall>i j. i < j \<longrightarrow> j < n \<longrightarrow> cmp (ys ! (a + i)) (ys ! (a + j)) \<le> 0" and ij: "a \<le> i" "i < j" "j < a + n"
    then show "cmp (ys ! i) (ys ! j) \<le> 0" using h [rule_format, of "i - a" "j - a"] by simp
  qed simp
  ultimately show ?thesis by simp
qed

text \<open>Three zones in order, of which the first and the last are sorted, are sorted.\<close>

lemma three_zones:
  assumes "comparator cmp" "l + r \<le> n" "a + n \<le> length ys"
    "\<And>i. a \<le> i \<Longrightarrow> i < a + l \<Longrightarrow> cmp (ys ! i) p < 0" "\<And>i. a + l \<le> i \<Longrightarrow> i < a + n - r \<Longrightarrow> cmp (ys ! i) p = 0"
    "\<And>i. a + n - r \<le> i \<Longrightarrow> i < a + n \<Longrightarrow> cmp (ys ! i) p > 0"
    "ordered cmp (take l (drop a ys))" "ordered cmp (take r (drop (a + n - r) ys))"
  shows "ordered cmp (take n (drop a ys))"
  unfolding ordered_range_nth [OF assms(3)]
proof (intro allI impI)
  fix i j assume ij: "a \<le> i" "i < j" "j < a + n"
  note c = comparatorD [OF assms(1)]
  consider "j < a + l" | "a + n - r \<le> i" | "i < a + n - r" "a + l \<le> j" by linarith
  then show "cmp (ys ! i) (ys ! j) \<le> 0"
  proof cases
    case 1
    then show ?thesis using assms(2,3,7) ij ordered_range_nth [of a l ys cmp] by auto
  next
    case 2
    then show ?thesis using assms(2,3,8) ij ordered_range_nth [of "a + n - r" r ys cmp] by auto
  next
    case 3
    have "cmp (ys ! i) p \<le> 0" using assms(4,5) [of i] ij(1) 3(1) by (cases "i < a + l") auto
    moreover have "0 \<le> cmp (ys ! j) p" using assms(5,6) [of j] ij(3) 3(2) by (cases "j < a + n - r") auto
    ultimately show ?thesis using c(2) [of "ys ! i" p "ys ! j"] c(4) by simp
  qed
qed

lemma sorts_after: "only_within a n xs ys \<Longrightarrow> sorts cmp a n ys r \<Longrightarrow> sorts cmp a n xs r"
  by (auto simp: sorts_def intro: only_within_trans)

lemma sorts_short: "n \<le> 1 \<Longrightarrow> sorts cmp a n xs (Some xs)"
  by (cases "drop a xs"; cases n) (auto simp: sorts_def)

lemma quick_sort_sorts_range:
  assumes "comparator cmp"
  shows "a + n \<le> length xs \<Longrightarrow> 0 < n \<Longrightarrow> n * es < 2 ^ 31 \<Longrightarrow> sorts cmp a n xs (quick_sort es cmp a n xs)"
proof (induction n arbitrary: a xs rule: less_induct)
  case (less n)
  show ?case
  proof (cases "n < 7")
    case True
    then show ?thesis using insertion_sort_sorts [OF assms less.prems(1,2)] by (subst quick_sort.simps) simp
  next
    case False
    then obtain s where s: "partition_around es cmp a n xs = Some s" "part_inv cmp a n xs s" "pb s = Suc (pc s)"
      using partition_around_inv [OF assms less.prems(1) _ less.prems(3)] by (metis linorder_not_le)
    note b = part_inv_bounds [OF s(2)]
    show ?thesis
    proof (cases "p_swaps s")
      case False
      have "sorts cmp a n (p_xs s) (insertion_sort cmp a n (a + 1) (p_xs s))"
        by (rule insertion_sort_sorts [OF assms b(7) less.prems(2)])
      then have "sorts cmp a n xs (insertion_sort cmp a n (a + 1) (p_xs s))" by (rule sorts_after [OF b(8)])
      then show ?thesis using False \<open>\<not> n < 7\<close> s(1) by (subst quick_sort.simps) simp
    next
      case True
      define l where "l = pb s - pa s"
      define r where "r = pd s - pc s"
      obtain ys p where ys: "gather_equal es a n s = Some ys" "only_within a n xs ys" "l + r \<le> n" "l < n" "r < n"
        "\<And>i. a \<le> i \<Longrightarrow> i < a + l \<Longrightarrow> cmp (ys ! i) p < 0" "\<And>i. a + l \<le> i \<Longrightarrow> i < a + n - r \<Longrightarrow> cmp (ys ! i) p = 0"
        "\<And>i. a + n - r \<le> i \<Longrightarrow> i < a + n \<Longrightarrow> cmp (ys ! i) p > 0"
        using gather_sorted [OF s(2,3) less.prems(3)] unfolding l_def r_def by metis
      have fl: "fits_int es l" "fits_int es r" using fits_int_less [OF less.prems(3)] ys(4,5) by simp_all
      have le: "l * es < 2 ^ 31" "r * es < 2 ^ 31" using fl by (simp_all add: fits_int_def)
      have ly: "length ys = length xs" using only_within_length [OF ys(2)] .
      have "sorts cmp a l ys (if l > 1 then quick_sort es cmp a l ys else Some ys)"
        using less.IH [OF ys(4), of a ys] sorts_short [of l cmp a ys] less.prems(1) ys(4) ly le by simp
      then obtain zs where zs: "(if l > 1 then quick_sort es cmp a l ys else Some ys) = Some zs" "only_within a l ys zs"
        "ordered cmp (take l (drop a zs))" by (auto simp: sorts_def)
      have lz: "length zs = length xs" using only_within_length [OF zs(2)] ly by simp
      have "sorts cmp (a + n - r) r zs (if r > 1 then quick_sort es cmp (a + n - r) r zs else Some zs)"
        using less.IH [OF ys(5), of "a + n - r" zs] sorts_short [of r cmp "a + n - r" zs] less.prems(1) ys(5) lz le by simp
      then obtain ws where ws: "(if r > 1 then quick_sort es cmp (a + n - r) r zs else Some zs) = Some ws"
        "only_within (a + n - r) r zs ws" "ordered cmp (take r (drop (a + n - r) ws))" by (auto simp: sorts_def)
      have lw: "length ws = length xs" using only_within_length [OF ws(2)] lz by simp
      have zn: "zs ! i = ys ! i" if "i < a \<or> a + l \<le> i" "i < length xs" for i
        using only_within_nth [OF zs(2)] that ly by simp
      have wn: "ws ! i = zs ! i" if "i < a + n - r \<or> a + n \<le> i" "i < length xs" for i
        using only_within_nth [OF ws(2)] that lz ys(5) by simp
      have "only_within a n ys zs" "only_within a n zs ws"
        using only_within_mono [OF zs(2), of a n] only_within_mono [OF ws(2), of a n] ys(3-5) by simp_all
      then have w: "only_within a n xs ws" using ys(2) only_within_trans by blast
      have lr: "l \<le> n - r" using ys(3) by simp
      have "ordered cmp (take n (drop a ws))"
      proof (rule three_zones [OF assms ys(3), of a ws p])
        show "a + n \<le> length ws" using lw less.prems(1) by simp
        show "cmp (ws ! i) p < 0" if "a \<le> i" "i < a + l" for i
          using only_within_all [OF zs(2), of "\<lambda>x. cmp x p < 0"] ys(6) that wn [of i] lr less.prems(1) ly ys(4,5) by simp
        show "cmp (ws ! i) p = 0" if "a + l \<le> i" "i < a + n - r" for i
          using ys(7) that wn [of i] zn [of i] less.prems(1) by simp
        have "a + l \<le> a + n - r" using ys(3) by simp
        then have "cmp (zs ! i) p > 0" if "a + n - r \<le> i" "i < a + n" for i using ys(8) zn [of i] that less.prems(1) by simp
        then show "cmp (ws ! i) p > 0" if "a + n - r \<le> i" "i < a + n" for i
          using only_within_all [OF ws(2), of "\<lambda>x. cmp x p > 0"] less.prems(1) lz that ys(5) by simp
        show "ordered cmp (take l (drop a ws))"
          using zs(3) wn lr less.prems(1) lz lw ys(4,5) by (simp add: ordered_range_nth)
      qed (rule ws(3))
      then have "sorts cmp a n xs (Some ws)" using w by (auto simp: sorts_def)
      then show ?thesis using True False fl s(1) ys(1) zs(1) ws(1) \<open>\<not> n < 7\<close>
        unfolding l_def r_def by (subst quick_sort.simps) (simp add: Let_def del: One_nat_def)
    qed
  qed
qed

text \<open>
  Property C4. \<open>quick_sort\<close> of \<open>n\<close> elements of \<open>es\<close> bytes from \<open>a\<close> on, less than \<open>2 ^ 31\<close> bytes together (the code
  keeps distances in \<open>int\<close> variables), with a comparison that is a
  total preorder, ends without leaving the array, leaves every element outside the range where it
  was, and puts the elements of the range in order: the array is a permutation of what it was.
\<close>

theorem quick_sort_sorts:
  assumes "comparator cmp" "a + n \<le> length xs" "0 < n" "n * es < 2 ^ 31"
  shows "\<exists>ys. quick_sort es cmp a n xs = Some ys \<and> mset ys = mset xs \<and> take a ys = take a xs \<and>
    drop (a + n) ys = drop (a + n) xs \<and> sorted_wrt (\<lambda>x y. cmp x y \<le> 0) (take n (drop a ys))"
  using quick_sort_sorts_range [OF assms] by (auto simp: sorts_def only_within_def)

theorem quick_sort_sorts_witness:
  "\<exists>ys. quick_sort 4 (\<lambda>x y. x - y) 1 7 [9, 5, 3, 5, 8, 1, 5, 2, 0] = Some ys \<and> mset ys = mset [9, 5, 3, 5, 8, 1, 5, 2, 0] \<and>
    take 1 ys = take 1 [9, 5, 3, 5, 8, 1, 5, 2, 0] \<and> drop (1 + 7) ys = drop (1 + 7) [9, 5, 3, 5, 8, 1, 5, 2, 0] \<and>
    sorted_wrt (\<lambda>x y. x - y \<le> (0 :: int)) (take 7 (drop 1 ys))"
  by (rule quick_sort_sorts) (auto simp: comparator_def)

end
