(* ===== verification/Environ.thy ===== *)
theory Environ
  imports Prelude
begin

section \<open>The environment (\<open>env/env.c\<close>)\<close>

text \<open>
  An \<open>Env_t\<close> is three arrays of the same size: the strings \<open>name=value\<close>, ended by a
  \<open>NULL\<close>, their flags and the lengths of their names. Each string is owned by the slot that
  points to it, so a slot holds no string, a string, or a pointer to a string that has been released.
  The arrays come from \<open>Realloc\<close>, which answers zeroed memory or ends the process. Strings are
  byte lists without their terminator; \<open>None\<close> is an access outside an array or to a released
  string. The global \<open>environ\<close> only repeats the address of the public array.
\<close>

abbreviation "EQUALS \<equiv> (61 :: byte)"

definition ENV_IS_CONSTANT :: byte where "ENV_IS_CONSTANT = 1"
definition ENV_IS_SHAREBLE :: byte where "ENV_IS_SHAREBLE = 2"
definition ENV_CREATION_FLAGS :: byte where "ENV_CREATION_FLAGS = ENV_IS_SHAREBLE"
definition ENV_DEFAULT_MEM_SIZE :: nat where "ENV_DEFAULT_MEM_SIZE = 16"

datatype slot = No_string | String_at "byte list" | Released

record Env_t =
  strings :: "slot list option"
  env_size :: nat
  mem_size :: nat
  flags :: "byte list"
  name_len :: "nat list"

text \<open>The parsed form of one string: its bytes, and the lengths, which are \<open>u8\<close>.\<close>

record env_t =
  env_str :: "byte list"
  env_name_len :: nat
  env_value_len :: nat

definition u8 :: "nat \<Rightarrow> nat" where "u8 n = n mod 2 ^ 8"
definition u16 :: "nat \<Rightarrow> nat" where "u16 n = n mod 2 ^ 16"

definition resized :: "'a list \<Rightarrow> nat \<Rightarrow> 'a \<Rightarrow> 'a list" where
  "resized xs n z = take n xs @ replicate (n - length xs) z"

definition env_new_environ :: "Env_t \<Rightarrow> nat \<Rightarrow> nat \<Rightarrow> Env_t" where
  "env_new_environ E sz msz =
     E\<lparr>strings := Some (resized (case strings E of None \<Rightarrow> [] | Some xs \<Rightarrow> xs) msz No_string),
       flags := resized (flags E) msz 0, name_len := resized (name_len E) msz 0, env_size := sz, mem_size := msz\<rparr>"

definition name_eq_n :: "byte list \<Rightarrow> byte list \<Rightarrow> nat \<Rightarrow> bool" where
  "name_eq_n sa sb n \<longleftrightarrow> take n (sa @ [0]) = take n (sb @ [0])"

text \<open>The search answers the string and \<open>idx\<close>, which is one less than its place in the array.\<close>

function env_get_string_loop :: "Env_t \<Rightarrow> slot list \<Rightarrow> byte list \<Rightarrow> nat \<Rightarrow> nat \<Rightarrow> (byte list \<times> int) option option" where
  "env_get_string_loop E envp name nl i =
     (if i < length envp then
        (if envp ! i = No_string then Some None
         else if length (name_len E) \<le> i then None
         else if name_len E ! i \<noteq> nl then env_get_string_loop E envp name nl (i + 1)
         else (case envp ! i of
             String_at e \<Rightarrow>
               if name_eq_n e name nl then
                 (if length e < nl then None
                  else if (e @ [0]) ! nl = EQUALS then Some (Some (e, int i - 1))
                  else env_get_string_loop E envp name nl (i + 1))
               else env_get_string_loop E envp name nl (i + 1)
           | _ \<Rightarrow> None))
      else None)"
  by pat_completeness auto
termination by (relation "measure (\<lambda>(E, envp, name, nl, i). length envp - i)") auto

declare env_get_string_loop.simps [simp del]

definition env_get_string :: "Env_t \<Rightarrow> byte list \<Rightarrow> nat \<Rightarrow> (byte list \<times> int) option option" where
  "env_get_string E name nl =
     (case strings E of None \<Rightarrow> Some None | Some envp \<Rightarrow> env_get_string_loop E envp name nl 0)"

text \<open>The first call allocates and clears the arrays.\<close>

definition env_first_use :: "Env_t \<Rightarrow> Env_t" where
  "env_first_use E =
     (if strings E = None then
        (let E = env_new_environ E 0 ENV_DEFAULT_MEM_SIZE in
         E\<lparr>strings := Some (replicate (mem_size E) No_string), flags := replicate (mem_size E) ENV_CREATION_FLAGS,
           name_len := replicate (mem_size E) 0\<rparr>)
      else E)"

text \<open>The assignments at the label \<open>new\<close>.\<close>

definition env_write :: "Env_t \<Rightarrow> env_t \<Rightarrow> int \<Rightarrow> Env_t option" where
  "env_write E env idx =
     (case strings E of None \<Rightarrow> None
      | Some envp \<Rightarrow>
          let i = nat idx in
          if idx < 0 \<or> length envp \<le> i \<or> length (flags E) \<le> i \<or> length (name_len E) \<le> i then None
          else Some (E\<lparr>strings := Some (envp[i := String_at (take (env_name_len env + env_value_len env + 1) (env_str env))]),
                 flags := (flags E)[i := ENV_CREATION_FLAGS], name_len := (name_len E)[i := env_name_len env]\<rparr>))"

text \<open>\<open>Release (e)\<close>: the string found at \<open>idx + 1\<close>.\<close>

definition env_release :: "Env_t \<Rightarrow> int \<Rightarrow> Env_t" where
  "env_release E idx = E\<lparr>strings := map_option (\<lambda>envp. envp[nat (idx + 1) := Released]) (strings E)\<rparr>"

definition env_put_parsed :: "Env_t \<Rightarrow> env_t \<Rightarrow> bool \<Rightarrow> Env_t option" where
  "env_put_parsed E env overwrite =
     (let E = env_first_use E in
      case env_get_string E (env_str env) (env_name_len env) of None \<Rightarrow> None
      | Some (Some (e, idx)) \<Rightarrow>
          if \<not> overwrite then Some E
          else if idx < 0 \<or> length (flags E) \<le> nat idx then None
          else if flags E ! nat idx AND ENV_IS_CONSTANT \<noteq> 0 then Some E
          else env_write (env_release E idx) env idx
      | Some None \<Rightarrow>
          let E = (if env_size E + 1 = mem_size E then env_new_environ E (env_size E) (u16 (mem_size E * 2)) else E) in
          env_write (E\<lparr>env_size := u16 (env_size E + 1)\<rparr>) env (int (env_size E)))"

text \<open>A string without a sign is not an environment string.\<close>

definition env_init :: "byte list \<Rightarrow> env_t option" where
  "env_init e =
     (if EQUALS \<in> set e then
        (let n = length (takeWhile (\<lambda>c. c \<noteq> EQUALS) e) in
         Some \<lparr>env_str = e, env_name_len = u8 n, env_value_len = u8 (length e - n - 1)\<rparr>)
      else None)"

text \<open>The value that is pointed to by \<open>e + (name_len + 1)\<close>.\<close>

definition value_at :: "byte list \<Rightarrow> nat \<Rightarrow> byte list option" where
  "value_at e k = (if length e < k then None else Some (drop k e))"

definition env_get :: "Env_t \<Rightarrow> byte list \<Rightarrow> nat \<Rightarrow> byte list option option" where
  "env_get E name nl =
     (case env_get_string E name (u8 nl) of None \<Rightarrow> None
      | Some None \<Rightarrow> Some None
      | Some (Some (e, idx)) \<Rightarrow> map_option Some (value_at e (u8 nl + 1)))"

definition env_put :: "Env_t \<Rightarrow> byte list \<Rightarrow> Env_t option" where
  "env_put E e = (case env_init e of None \<Rightarrow> Some E | Some env \<Rightarrow> env_put_parsed E env True)"

definition MAXLEN_ENV :: nat where "MAXLEN_ENV = 255"

datatype set_result = Invalid | Stored Env_t

definition env_set :: "Env_t \<Rightarrow> byte list \<Rightarrow> byte list \<Rightarrow> bool \<Rightarrow> set_result option" where
  "env_set E name value overwrite =
     (if length name > MAXLEN_ENV then Some Invalid
      else if length value > MAXLEN_ENV then Some Invalid
      else map_option Stored
        (env_put_parsed E \<lparr>env_str = name @ [EQUALS] @ value, env_name_len = u8 (length name), env_value_len = u8 (length value)\<rparr> overwrite))"

text \<open>The functions on the public environment, which is the state \<open>E\<close>.\<close>

definition get_env :: "Env_t \<Rightarrow> byte list option \<Rightarrow> byte list option option" where
  "get_env E name =
     (case name of None \<Rightarrow> Some None
      | Some name \<Rightarrow>
          if name = [] then Some None
          else (case env_get_string E name (u8 (length name)) of None \<Rightarrow> None
            | Some None \<Rightarrow> Some None
            | Some (Some (e, idx)) \<Rightarrow> map_option Some (value_at e (length name + 1))))"

definition put_env :: "Env_t \<Rightarrow> byte list \<Rightarrow> Env_t option" where
  "put_env E e = (case env_init e of None \<Rightarrow> Some E | Some env \<Rightarrow> env_put_parsed E env True)"

definition set_env :: "Env_t \<Rightarrow> byte list \<Rightarrow> byte list \<Rightarrow> bool \<Rightarrow> set_result option" where
  "set_env E name value overwrite = env_set E name value overwrite"

text \<open>The entries after the one at \<open>k\<close> are moved down until the \<open>NULL\<close>.\<close>

function env_shift :: "Env_t \<Rightarrow> slot list \<Rightarrow> nat \<Rightarrow> Env_t option" where
  "env_shift E envp k =
     (if length envp \<le> k then None
      else if envp ! k = No_string then Some (E\<lparr>strings := Some envp\<rparr>)
      else if length envp \<le> k + 1 \<or> length (flags E) \<le> k + 1 \<or> length (name_len E) \<le> k + 1 then None
      else env_shift (E\<lparr>flags := (flags E)[k := flags E ! (k + 1)], name_len := (name_len E)[k := name_len E ! (k + 1)]\<rparr>)
             (envp[k := envp ! (k + 1)]) (k + 1))"
  by pat_completeness auto
termination by (relation "measure (\<lambda>(E, envp, k). length envp - k)") auto

declare env_shift.simps [simp del]

definition unset_env :: "Env_t \<Rightarrow> byte list option \<Rightarrow> set_result option" where
  "unset_env E name =
     (case name of None \<Rightarrow> Some Invalid
      | Some name \<Rightarrow>
          if name = [] then Some Invalid
          else (case env_get_string E name (u8 (length name)) of None \<Rightarrow> None
            | Some None \<Rightarrow> Some (Stored E)
            | Some (Some (e, idx)) \<Rightarrow>
                let E = env_release E idx; E = E\<lparr>env_size := u16 (env_size E + 2 ^ 16 - 1)\<rparr> in
                if idx < 0 then None
                else (case strings E of None \<Rightarrow> None | Some envp \<Rightarrow> map_option Stored (env_shift E envp (nat idx)))))"

subsection \<open>The variables an environment holds\<close>

definition entry :: "byte list \<times> byte list \<Rightarrow> byte list" where
  "entry kv = fst kv @ [EQUALS] @ snd kv"

definition good_name :: "byte list \<Rightarrow> bool" where
  "good_name n \<longleftrightarrow> 0 \<notin> set n \<and> EQUALS \<notin> set n \<and> length n \<le> MAXLEN_ENV"

definition good_value :: "byte list \<Rightarrow> bool" where
  "good_value v \<longleftrightarrow> 0 \<notin> set v \<and> length v \<le> MAXLEN_ENV"

text \<open>The arrays of an environment that holds the variables \<open>kvs\<close>, in their order.\<close>

definition env_rep :: "Env_t \<Rightarrow> (byte list \<times> byte list) list \<Rightarrow> bool" where
  "env_rep E kvs \<longleftrightarrow>
     strings E = Some (map (\<lambda>kv. String_at (entry kv)) kvs @ replicate (mem_size E - length kvs) No_string) \<and>
     env_size E = length kvs \<and> length kvs < mem_size E \<and> mem_size E < 2 ^ 16 \<and>
     length (flags E) = mem_size E \<and> length (name_len E) = mem_size E \<and>
     (\<forall>i < length kvs. name_len E ! i = length (fst (kvs ! i)) \<and> flags E ! i = ENV_CREATION_FLAGS \<and>
        good_name (fst (kvs ! i)) \<and> good_value (snd (kvs ! i))) \<and>
     distinct (map fst kvs)"

definition skipped :: "Env_t \<Rightarrow> slot list \<Rightarrow> byte list \<Rightarrow> nat \<Rightarrow> bool" where
  "skipped E envp name l \<longleftrightarrow> l < length envp \<and> l < length (name_len E) \<and>
     (envp ! l = Released \<and> name_len E ! l \<noteq> length name \<or>
      (\<exists>kv. envp ! l = String_at (entry kv) \<and> name_len E ! l = length (fst kv) \<and> fst kv \<noteq> name \<and> good_name (fst kv)))"

lemma name_eq_n_entry: "length n = length name \<Longrightarrow> name_eq_n (entry (n, v)) name (length name) \<longleftrightarrow> n = name"
  by (simp add: name_eq_n_def entry_def)

lemma loop_skip:
  "(\<And>l. i \<le> l \<Longrightarrow> l < j \<Longrightarrow> skipped E envp name l) \<Longrightarrow> i \<le> j \<Longrightarrow>
   env_get_string_loop E envp name (length name) i = env_get_string_loop E envp name (length name) j"
proof (induction "j - i" arbitrary: i)
  case (Suc d)
  have s: "skipped E envp name i" using Suc by simp
  have "env_get_string_loop E envp name (length name) i = env_get_string_loop E envp name (length name) (i + 1)"
    using s name_eq_n_entry [of _ name]
    by (subst env_get_string_loop.simps) (auto simp: skipped_def split: slot.split)
  then show ?case using Suc by simp
qed simp

lemma loop_found:
  assumes "envp ! k = String_at (entry (name, v))" "k < length envp" "k < length (name_len E)" "name_len E ! k = length name"
  shows "env_get_string_loop E envp name (length name) k = Some (Some (entry (name, v), int k - 1))"
  using assms name_eq_n_entry [of name name v]
  by (subst env_get_string_loop.simps) (simp add: entry_def nth_append)

lemma rep_strings: "env_rep E kvs \<Longrightarrow> \<exists>envp. strings E = Some envp"
  by (simp add: env_rep_def)

lemma rep_slots:
  assumes "env_rep E kvs" "strings E = Some envp"
  shows "length envp = mem_size E" "length (name_len E) = mem_size E" "length (flags E) = mem_size E"
    "env_size E = length kvs" "length kvs < mem_size E" "mem_size E < 2 ^ 16" "distinct (map fst kvs)"
    "i < length kvs \<Longrightarrow> envp ! i = String_at (entry (kvs ! i))"
    "i < length kvs \<Longrightarrow> name_len E ! i = length (fst (kvs ! i))"
    "i < length kvs \<Longrightarrow> flags E ! i = ENV_CREATION_FLAGS"
    "i < length kvs \<Longrightarrow> good_name (fst (kvs ! i)) \<and> good_value (snd (kvs ! i))"
    "length kvs \<le> i \<Longrightarrow> i < mem_size E \<Longrightarrow> envp ! i = No_string"
  using assms by (auto simp: env_rep_def nth_append)

lemma rep_skipped:
  assumes "env_rep E kvs" "strings E = Some envp" "i < length kvs" "fst (kvs ! i) \<noteq> name"
  shows "skipped E envp name i"
  unfolding skipped_def
  using rep_slots(1,2,5) [OF assms(1,2)] rep_slots(8,9,11) [OF assms(1,2), of i] assms(3,4)
  by (intro conjI disjI2 exI [of _ "kvs ! i"]) simp_all

lemma search_fresh:
  assumes "env_rep E kvs" "name \<notin> fst ` set kvs"
  shows "env_get_string E name (length name) = Some None"
proof -
  obtain envp where e1: "strings E = Some envp" using rep_strings [OF assms(1)] by blast
  note e = e1 rep_slots(1,5) [OF assms(1) e1] rep_slots(12) [OF assms(1) e1, of "length kvs"]
  have "env_get_string_loop E envp name (length name) 0 = env_get_string_loop E envp name (length name) (length kvs)"
  proof (rule loop_skip)
    fix l assume "l < length kvs"
    then have "fst (kvs ! l) \<in> fst ` set kvs" by simp
    then have "fst (kvs ! l) \<noteq> name" using assms(2) by metis
    then show "skipped E envp name l" by (rule rep_skipped [OF assms(1) e(1) \<open>l < length kvs\<close>])
  qed simp
  then show ?thesis using e by (simp add: env_get_string_def env_get_string_loop.simps [of _ _ _ _ "length kvs"])
qed

lemma search_found:
  assumes "env_rep E kvs" "k < length kvs" "kvs ! k = (name, v)"
  shows "env_get_string E name (length name) = Some (Some (entry (name, v), int k - 1))"
proof -
  obtain envp where e1: "strings E = Some envp" using rep_strings [OF assms(1)] by blast
  note r = rep_slots [OF assms(1) e1]
  have e: "length envp = mem_size E" "length (name_len E) = mem_size E" "length kvs < mem_size E"
    "envp ! k = String_at (entry (name, v))" "name_len E ! k = length name" "distinct (map fst kvs)"
    using r(1,2,5,7) r(8,9) [of k] assms(2,3) by simp_all
  have "fst (kvs ! i) \<noteq> name" if "i < k" for i
    using e(6) assms(2,3) that nth_eq_iff_index_eq [of "map fst kvs" i k] by simp
  then have "env_get_string_loop E envp name (length name) 0 = env_get_string_loop E envp name (length name) k"
    by (intro loop_skip) (use rep_skipped [OF assms(1) e1] assms(2) in auto)
  then show ?thesis using loop_found [OF e(4)] e e1 assms(2) by (simp add: env_get_string_def)
qed

lemma env_first_use_id: "strings E \<noteq> None \<Longrightarrow> env_first_use E = E"
  by (auto simp: env_first_use_def)

lemma u8_small: "length n \<le> MAXLEN_ENV \<Longrightarrow> u8 (length n) = length n"
  by (simp add: u8_def MAXLEN_ENV_def)

lemma env_get_rep:
  assumes "env_rep E kvs" "length name \<le> MAXLEN_ENV"
  shows "env_get E name (length name) = Some (map_of kvs name)"
proof (cases "name \<in> fst ` set kvs")
  case False
  then have "map_of kvs name = None" by (simp add: map_of_eq_None_iff)
  then show ?thesis using search_fresh [OF assms(1) False] u8_small [OF assms(2)] by (simp add: env_get_def)
next
  case True
  then obtain k v where k: "k < length kvs" "kvs ! k = (name, v)" by (auto simp: in_set_conv_nth)
  have "map_of kvs name = Some v"
    using k assms(1) map_of_eq_Some_iff [of kvs name v] nth_mem [OF k(1)] by (simp add: env_rep_def)
  then show ?thesis using search_found [OF assms(1) k] u8_small [OF assms(2)]
    by (simp add: env_get_def value_at_def entry_def)
qed

text \<open>The arrays grow by doubling, and the new slots are clear.\<close>

lemma rep_grow:
  assumes "env_rep E kvs" "length kvs + 1 = mem_size E" "mem_size E * 2 < 2 ^ 16"
  shows "env_rep (env_new_environ E (env_size E) (u16 (mem_size E * 2))) kvs \<and>
    length kvs + 1 < mem_size (env_new_environ E (env_size E) (u16 (mem_size E * 2)))"
proof -
  have "u16 (mem_size E * 2) = mem_size E * 2" using assms(3) by (simp add: u16_def)
  then show ?thesis using assms by (auto simp: env_rep_def env_new_environ_def resized_def nth_append replicate_add [symmetric])
qed

lemma rep_append:
  assumes "env_rep E kvs" "length kvs + 1 < mem_size E" "good_name n" "good_value v" "n \<notin> fst ` set kvs"
  shows "\<exists>E'. env_write (E\<lparr>env_size := u16 (env_size E + 1)\<rparr>)
      \<lparr>env_str = n @ [EQUALS] @ v, env_name_len = length n, env_value_len = length v\<rparr> (int (env_size E)) = Some E' \<and> env_rep E' (kvs @ [(n, v)])"
proof -
  have r: "replicate (mem_size E - length kvs) No_string = No_string # replicate (mem_size E - length kvs - 1) No_string"
    using assms(2) by (cases "mem_size E - length kvs") auto
  have u: "u16 (length kvs + 1) = length kvs + 1" using assms(1,2) by (simp add: env_rep_def u16_def)
  show ?thesis
    using assms u by (auto simp: env_rep_def env_write_def Let_def r list_update_append nth_append nth_list_update entry_def less_Suc_eq)
qed

lemma put_search: "env_get_string E (n @ [EQUALS] @ v) (length n) = env_get_string E n (length n)"
proof -
  have f: "name_eq_n x (n @ [EQUALS] @ v) (length n) = name_eq_n x n (length n)" for x by (simp add: name_eq_n_def)
  have "env_get_string_loop E x (n @ [EQUALS] @ v) (length n) i = env_get_string_loop E x n (length n) i" for x i
  proof (induction "length x - i" arbitrary: i)
    case 0
    then show ?case by (simp add: env_get_string_loop.simps)
  next
    case (Suc d)
    then have "env_get_string_loop E x (n @ [EQUALS] @ v) (length n) (i + 1) = env_get_string_loop E x n (length n) (i + 1)" by simp
    then show ?case using f by (simp add: env_get_string_loop.simps [of _ _ _ _ i] split: slot.split)
  qed
  then show ?thesis by (simp add: env_get_string_def split: option.split)
qed

text \<open>
  Setting variables under new names works: the environment then holds the old variables
  and the new one, in this order, the arrays growing as they must (up to 32767 variables), and
  \<open>env_get\<close> answers every variable's value and only those.
\<close>

theorem env_set_fresh:
  assumes "env_rep E kvs" "good_name n" "good_value v" "n \<notin> fst ` set kvs" "mem_size E * 2 < 2 ^ 16" "length m \<le> MAXLEN_ENV"
  shows "\<exists>E'. env_set E n v overwrite = Some (Stored E') \<and> env_rep E' (kvs @ [(n, v)]) \<and>
    env_get E' m (length m) = Some (((map_of kvs)(n \<mapsto> v)) m)"
proof -
  define E1 where "E1 = (if env_size E + 1 = mem_size E then env_new_environ E (env_size E) (u16 (mem_size E * 2)) else E)"
  have s: "env_size E = length kvs" "strings E \<noteq> None" "length kvs < mem_size E" using assms(1) by (simp_all add: env_rep_def)
  have E1: "env_rep E1 kvs" "length kvs + 1 < mem_size E1" "env_size E1 = env_size E"
    using assms(1) rep_grow [OF assms(1) _ assms(5)] s by (auto simp: E1_def env_new_environ_def)
  obtain E' where E': "env_write (E1\<lparr>env_size := u16 (env_size E1 + 1)\<rparr>)
      \<lparr>env_str = n @ [EQUALS] @ v, env_name_len = length n, env_value_len = length v\<rparr> (int (env_size E1)) = Some E'" "env_rep E' (kvs @ [(n, v)])"
    using rep_append [OF E1(1,2) assms(2,3,4)] by blast
  have g: "env_get_string E (n @ [EQUALS] @ v) (length n) = Some None"
    using search_fresh [OF assms(1,4)] put_search [of E n v] by simp
  have l: "length n \<le> MAXLEN_ENV" "length v \<le> MAXLEN_ENV" using assms(2,3) by (simp_all add: good_name_def good_value_def)
  have "env_set E n v overwrite = Some (Stored E')"
    using l s g E'(1) E1(3) by (simp add: env_set_def u8_small env_put_parsed_def env_first_use_id Let_def E1_def)
  moreover have "map_of (kvs @ [(n, v)]) m = ((map_of kvs)(n \<mapsto> v)) m"
    using map_of_eq_None_iff [of kvs n] assms(4) by (auto simp: map_add_def split: option.split)
  ultimately show ?thesis using E'(2) env_get_rep [OF E'(2) assms(6)] by simp
qed

lemma env_rep_first: "env_rep (env_first_use \<lparr>strings = None, env_size = 0, mem_size = 0, flags = [], name_len = []\<rparr>) []"
  by (simp add: env_first_use_def env_new_environ_def env_rep_def Let_def ENV_DEFAULT_MEM_SIZE_def)

theorem env_set_fresh_witness:
  "\<exists>E'. env_set (env_first_use \<lparr>strings = None, env_size = 0, mem_size = 0, flags = [], name_len = []\<rparr>) [65] [66, 67] True = Some (Stored E') \<and>
    env_rep E' ([] @ [([65], [66, 67])]) \<and> env_get E' [65] (length [65 :: byte]) = Some (((map_of [])([65 :: byte] \<mapsto> [66, 67 :: byte])) [65])"
  by (rule env_set_fresh [OF env_rep_first])
     (simp_all add: good_name_def good_value_def MAXLEN_ENV_def env_first_use_def env_new_environ_def Let_def ENV_DEFAULT_MEM_SIZE_def)
text \<open>
  Property C40. Overwriting a variable that is not the first damages the environment, because the
  search answers one less than the place: the new string goes into the slot of the variable before,
  which is lost, and the slot of the old string keeps the pointer that was released. The variable
  itself reads back; the lookup of the lost one stops at the released string (undefined behaviour) when
  the names have the same length, and otherwise finds nothing. Overwriting the first variable writes
  before the arrays.
\<close>

theorem env_set_overwrites_neighbour:
  assumes "env_rep E kvs" "kvs ! k = (n, u)" "k < length kvs" "good_value v"
  shows "if k = 0 then env_set E n v True = None
    else case env_set E n v True of
        Some (Stored E') \<Rightarrow> env_get E' n (length n) = Some (Some v) \<and>
          env_get E' (fst (kvs ! (k - 1))) (length (fst (kvs ! (k - 1)))) =
            (if length (fst (kvs ! (k - 1))) = length n then None else Some None)
      | _ \<Rightarrow> False"
proof -
  obtain envp where e1: "strings E = Some envp" using rep_strings [OF assms(1)] by blast
  note r = rep_slots [OF assms(1) e1]
  have n: "good_name n" using r(11) [OF assms(3)] assms(2) by simp
  then have l: "length n \<le> MAXLEN_ENV" "length v \<le> MAXLEN_ENV" using assms(4) by (simp_all add: good_name_def good_value_def)
  have f: "env_get_string E n (length n) = Some (Some (entry (n, u), int k - 1))" by (rule search_found [OF assms(1,3,2)])
  show ?thesis
  proof (cases k)
    case 0
    then show ?thesis using l f e1 put_search [of E n v]
      by (simp add: env_set_def u8_small env_put_parsed_def env_first_use_id Let_def)
  next
    case (Suc j)
    define p where "p = fst (kvs ! j)"
    define envp' where "envp' = envp[k := Released, j := String_at (entry (n, v))]"
    define E' where "E' = E\<lparr>strings := Some envp', flags := (flags E)[j := ENV_CREATION_FLAGS], name_len := (name_len E)[j := length n]\<rparr>"
    have j: "j < length kvs" using assms(3) Suc by simp
    have fl: "flags E ! j AND ENV_IS_CONSTANT = 0"
      using r(10) [OF j] by (simp add: ENV_CREATION_FLAGS_def ENV_IS_SHAREBLE_def ENV_IS_CONSTANT_def)
    have b: "length envp = mem_size E" "length (name_len E) = mem_size E" "length (flags E) = mem_size E" "length kvs < mem_size E"
      using r(1,2,3,5) by simp_all
    have set: "env_set E n v True = Some (Stored E')"
      using l f e1 put_search [of E n v] Suc fl b j
      by (simp add: env_set_def u8_small env_put_parsed_def env_first_use_id Let_def env_write_def env_release_def E'_def envp'_def entry_def nat_add_distrib)
    have dis: "fst (kvs ! a) \<noteq> fst (kvs ! c)" if "a < length kvs" "c < length kvs" "a \<noteq> c" for a c
      using r(7) that nth_eq_iff_index_eq [of "map fst kvs" a c] by simp
    have sk: "skipped E' envp' m i" if "i < length kvs" "i \<noteq> j" "i \<noteq> k" "m \<noteq> fst (kvs ! i)" for i m
      using rep_skipped [OF assms(1) e1 that(1), of m] that by (simp add: skipped_def E'_def envp'_def)
    have nn: "name_len E ! k = length n" using r(9) [OF assms(3)] assms(2) by simp
    have at_j: "envp' ! j = String_at (entry (n, v))" "name_len E' ! j = length n" using b j Suc by (simp_all add: envp'_def E'_def)
    have at_k: "envp' ! k = Released" "name_len E' ! k = length n" using b j assms(3) Suc nn by (simp_all add: envp'_def E'_def)
    have "env_get_string_loop E' envp' n (length n) 0 = env_get_string_loop E' envp' n (length n) j"
    proof (rule loop_skip)
      fix l assume "l < j"
      then show "skipped E' envp' n l" using sk [of l n] dis [of l k] assms(2,3) j Suc by auto
    qed simp
    also have "\<dots> = Some (Some (entry (n, v), int j - 1))"
      by (rule loop_found) (use at_j b j in \<open>simp_all add: envp'_def E'_def\<close>)
    finally have got: "env_get E' n (length n) = Some (Some v)"
      using l(1) by (simp add: env_get_def env_get_string_def E'_def u8_small value_at_def entry_def)
    have p: "p \<noteq> n" "length p \<le> MAXLEN_ENV" using dis [of j k] j assms(2,3) Suc r(11) [OF j] by (auto simp: p_def good_name_def)
    have "skipped E' envp' p i" if "i < k" for i
    proof (cases "i = j")
      case True
      then show ?thesis using at_j p n b j by (auto simp: skipped_def envp'_def E'_def intro!: exI [of _ "(n, v)"])
    next
      case False
      then show ?thesis using sk [of i p] dis [of i j] that assms(3) j Suc by (auto simp: p_def)
    qed
    then have to_k: "env_get_string_loop E' envp' p (length p) 0 = env_get_string_loop E' envp' p (length p) k"
      by (intro loop_skip) auto
    have "env_get E' p (length p) = (if length p = length n then None else Some None)"
    proof (cases "length p = length n")
      case True
      have "env_get_string_loop E' envp' p (length p) k = None"
        using True at_k b assms(3) by (subst env_get_string_loop.simps) (simp add: envp'_def E'_def)
      then show ?thesis using True to_k p(2) by (simp add: env_get_def env_get_string_def E'_def u8_small)
    next
      case False
      have s: "skipped E' envp' p i" if "k \<le> i" "i < length kvs" for i
      proof (cases "i = k")
        case True
        then show ?thesis using at_k b assms(3) False by (auto simp: skipped_def envp'_def E'_def)
      next
        case ne: False
        then show ?thesis using sk [of i p] dis [of i j] that j Suc by (auto simp: p_def)
      qed
      have "env_get_string_loop E' envp' p (length p) k = env_get_string_loop E' envp' p (length p) (length kvs)"
        by (rule loop_skip) (use s assms(3) in auto)
      also have "\<dots> = Some None"
        using r(12) [of "length kvs"] b j assms(3) Suc by (subst env_get_string_loop.simps) (simp add: envp'_def)
      finally show ?thesis using False to_k p(2) by (simp add: env_get_def env_get_string_def E'_def u8_small)
    qed
    then show ?thesis using set got Suc by (simp add: p_def)
  qed
qed

definition two_variables :: Env_t where
  "two_variables = \<lparr>strings = Some [String_at [65, EQUALS, 48], String_at [66, EQUALS, 49], No_string],
     env_size = 2, mem_size = 3, flags = [2, 2, 0], name_len = [1, 1, 0]\<rparr>"

theorem env_set_overwrites_neighbour_witness:
  "case env_set two_variables [66] [50] True of
     Some (Stored E') \<Rightarrow> env_get E' [66] (length [66 :: byte]) = Some (Some [50]) \<and> env_get E' [65] (length [65 :: byte]) = None
   | _ \<Rightarrow> False"
proof -
  have rep: "env_rep two_variables [([65], [48]), ([66], [49])]"
    by (simp add: env_rep_def two_variables_def entry_def good_name_def good_value_def MAXLEN_ENV_def ENV_CREATION_FLAGS_def
        ENV_IS_SHAREBLE_def All_less_Suc)
  have v: "good_value [50]" by (simp add: good_value_def MAXLEN_ENV_def)
  show ?thesis
    using env_set_overwrites_neighbour [OF rep _ _ v, of 1 "[66]" "[49]"] by (simp split: option.splits set_result.splits)
qed

end
