(* ===== verification/Ilex.thy ===== *)
theory Ilex
  imports Prelude
begin

section \<open>The interpreter \<open>I\<close>: state, symbols and tokens (\<open>z/lib/I/src/libi.c\<close>)\<close>

text \<open>
  \<open>script\<close> holds the texts of the scripts evaluated so far, each with its terminator, in one piece; every
  \<open>istring_t\<close> is a pointer into one of them and a length, so a pointer is an offset. A read behind the terminator is \<open>None\<close>. Values
  (\<open>ival_t\<close>) are numbers or addresses: of a C function of the interpreter, of a function of the
  client, of a user function, an array or a string that was allocated. What the code computes with the
  number of an address is left out: \<open>None\<close>. Objects that are allocated (symbols, functions, arrays,
  strings) live in maps under a number of their own, and are gone from them once they are released.
  \<open>printed\<close> is what the scripts gave to \<open>print_bytes\<close>, to the
  error stream or not. A \<open>Vmap_t\<close> is the list of its keys with their values and their constant flags.
\<close>

subsection \<open>Tokens and types\<close>

abbreviation (input) INT_TYPE :: nat where "INT_TYPE \<equiv> 0"
abbreviation (input) ARRAY_TYPE :: nat where "ARRAY_TYPE \<equiv> 4"
abbreviation (input) CFUNC_TYPE :: nat where "CFUNC_TYPE \<equiv> 66"
abbreviation (input) UFUNC_TYPE :: nat where "UFUNC_TYPE \<equiv> 102"
abbreviation (input) BINOP_TYPE :: nat where "BINOP_TYPE \<equiv> 111"

definition BINOP :: "nat \<Rightarrow> nat" where "BINOP x = x * 256 + BINOP_TYPE"
definition CFUNC :: "nat \<Rightarrow> nat" where "CFUNC x = x * 256 + CFUNC_TYPE"

abbreviation (input) I_TOK_SYMBOL :: int where "I_TOK_SYMBOL \<equiv> 65"
abbreviation (input) I_TOK_BUILTIN :: int where "I_TOK_BUILTIN \<equiv> 66"
abbreviation (input) I_TOK_CHAR :: int where "I_TOK_CHAR \<equiv> 67"
abbreviation (input) I_TOK_FUNCDEF :: int where "I_TOK_FUNCDEF \<equiv> 70"
abbreviation (input) I_TOK_IFNOT :: int where "I_TOK_IFNOT \<equiv> 73"
abbreviation (input) I_TOK_CONTINUE :: int where "I_TOK_CONTINUE \<equiv> 79"
abbreviation (input) I_TOK_PRINT :: int where "I_TOK_PRINT \<equiv> 80"
abbreviation (input) I_TOK_RETURN :: int where "I_TOK_RETURN \<equiv> 82"
abbreviation (input) I_TOK_STRING :: int where "I_TOK_STRING \<equiv> 83"
abbreviation (input) I_TOK_VARDEF :: int where "I_TOK_VARDEF \<equiv> 86"
abbreviation (input) I_TOK_EXIT :: int where "I_TOK_EXIT \<equiv> 88"
abbreviation (input) I_TOK_ARYDEF :: int where "I_TOK_ARYDEF \<equiv> 89"
abbreviation (input) I_TOK_SYNTAX_ERR :: int where "I_TOK_SYNTAX_ERR \<equiv> 90"
abbreviation (input) I_TOK_BREAK :: int where "I_TOK_BREAK \<equiv> 98"
abbreviation (input) I_TOK_CONSTDEF :: int where "I_TOK_CONSTDEF \<equiv> 99"
abbreviation (input) I_TOK_ELSE :: int where "I_TOK_ELSE \<equiv> 101"
abbreviation (input) I_TOK_USRFUNC :: int where "I_TOK_USRFUNC \<equiv> 102"
abbreviation (input) I_TOK_IF :: int where "I_TOK_IF \<equiv> 105"
abbreviation (input) I_TOK_NUMBER :: int where "I_TOK_NUMBER \<equiv> 110"
abbreviation (input) I_TOK_BINOP :: int where "I_TOK_BINOP \<equiv> 111"
abbreviation (input) I_TOK_VAR :: int where "I_TOK_VAR \<equiv> 118"
abbreviation (input) I_TOK_WHILE :: int where "I_TOK_WHILE \<equiv> 119"
abbreviation (input) I_TOK_HEX_NUMBER :: int where "I_TOK_HEX_NUMBER \<equiv> 120"
abbreviation (input) I_TOK_ARY :: int where "I_TOK_ARY \<equiv> 121"

abbreviation (input) I_ERR_OUTOFBOUNDS :: int where "I_ERR_OUTOFBOUNDS \<equiv> -7"
abbreviation (input) I_ERR_TOOMANYARGS :: int where "I_ERR_TOOMANYARGS \<equiv> -6"
abbreviation (input) I_ERR_BADARGS :: int where "I_ERR_BADARGS \<equiv> -5"
abbreviation (input) I_ERR_UNKNOWN_SYM :: int where "I_ERR_UNKNOWN_SYM \<equiv> -4"
abbreviation (input) I_ERR_SYNTAX :: int where "I_ERR_SYNTAX \<equiv> -3"
abbreviation (input) I_NOTOK :: int where "I_NOTOK \<equiv> -1"
abbreviation (input) I_OK :: int where "I_OK \<equiv> 0"
abbreviation (input) I_ERR_OK_ELSE :: int where "I_ERR_OK_ELSE \<equiv> 1"
abbreviation (input) I_ERR_BREAK :: int where "I_ERR_BREAK \<equiv> 2"
abbreviation (input) I_ERR_CONTINUE :: int where "I_ERR_CONTINUE \<equiv> 3"
abbreviation (input) I_ERR_EXIT :: int where "I_ERR_EXIT \<equiv> 4"

definition MAX_BUILTIN_PARAMS :: nat where "MAX_BUILTIN_PARAMS = 9"
definition MAXLEN_SYMBOL_LEN :: nat where "MAXLEN_SYMBOL_LEN = 64"
definition MAX_EXPR_LEVEL :: nat where "MAX_EXPR_LEVEL = 5"

subsection \<open>Values and state\<close>

type_synonym name = "byte list"

datatype opfunc =
  I_prod | I_quot | I_mod | I_sum | I_diff | I_bitand | I_bitor | I_bitxor | I_shr | I_shl
  | I_equals | I_ne | I_lt | I_le | I_gt | I_ge | I_logical_and | I_logical_or

datatype handler = H_if | H_ifnot | H_while | H_print | H_func_def | H_return | H_exit | H_array_def

datatype ival = Num int | Handler handler | Op opfunc | Cfun name | Fun nat | Ary nat | Str nat

record istring =
  i_ptr :: nat
  i_len :: nat

record sym_t =
  sym_type :: nat
  sym_const :: bool
  sym_value :: ival

record funT =
  funname :: name
  body :: istring
  nargs :: nat
  argName :: "name list"
  symbols :: "(name \<times> nat \<times> bool) list option"
  prev_fun :: "nat option"

record i_t =
  script :: "byte list"
  funs :: "nat \<Rightarrow> funT option"
  syms :: "nat \<Rightarrow> sym_t option"
  arys :: "nat \<Rightarrow> ival list option"
  strs :: "nat \<Rightarrow> byte list option"
  fresh :: nat
  global_fun :: nat
  curScope :: nat
  funstack :: "nat list"
  symbolstack :: "(name \<times> nat \<times> bool) list list"
  refcount :: "name \<Rightarrow> int"
  curFunName :: name
  curFunDef :: "nat option"
  curSym :: "nat option"
  in_args :: bool
  at_loop :: bool
  breaking :: bool
  continuing :: bool
  exitValue :: int
  lineNum :: nat
  curToken :: int
  tokenArgs :: nat
  didReturn :: bool
  curStrToken :: istring
  parsePtr :: istring
  malloced :: "nat list"
  funResult :: ival
  tokenValue :: ival
  funArgs :: "ival list"
  stack :: "ival list"
  tokenSymbol :: "nat option"
  printed :: "(bool \<times> byte list) list"

subsection \<open>Classes of characters\<close>

text \<open>\<open>Cstring.byte.in_str\<close> also finds the terminator.\<close>

definition in_str :: "byte list \<Rightarrow> int \<Rightarrow> bool" where
  "in_str s c \<longleftrightarrow> c = 0 \<or> c \<in> schar ` set s"

definition is_space :: "int \<Rightarrow> bool" where "is_space c \<longleftrightarrow> c = 32 \<or> c = 9 \<or> c = 13"
definition is_digit :: "int \<Rightarrow> bool" where "is_digit c \<longleftrightarrow> 48 \<le> c \<and> c \<le> 57"
definition is_hexchar :: "int \<Rightarrow> bool" where
  "is_hexchar c \<longleftrightarrow> 48 \<le> c \<and> c \<le> 57 \<or> in_str (ascii ''abcdefABCDEF'') c"
definition is_lower :: "int \<Rightarrow> bool" where "is_lower c \<longleftrightarrow> 97 \<le> c \<and> c \<le> 122"
definition is_upper :: "int \<Rightarrow> bool" where "is_upper c \<longleftrightarrow> 65 \<le> c \<and> c \<le> 90"
definition is_alpha :: "int \<Rightarrow> bool" where "is_alpha c \<longleftrightarrow> is_lower c \<or> is_upper c"
definition is_idpunct :: "int \<Rightarrow> bool" where "is_idpunct c \<longleftrightarrow> in_str (ascii ''.:_'') c"
definition is_identifier :: "int \<Rightarrow> bool" where
  "is_identifier c \<longleftrightarrow> is_alpha c \<or> is_idpunct c \<or> is_digit c"
definition is_operator :: "int \<Rightarrow> bool" where "is_operator c \<longleftrightarrow> in_str (ascii ''+-!/*%=<>&|^'') c"
definition is_operator_span :: "int \<Rightarrow> bool" where "is_operator_span c \<longleftrightarrow> in_str (ascii ''=<>&|^'') c"

subsection \<open>Reading the script\<close>

definition script_at :: "i_t \<Rightarrow> nat \<Rightarrow> int option" where
  "script_at st i =
     (if i < length (script st) then Some (schar (script st ! i)) else if i = length (script st) then Some 0 else None)"

definition script_bytes :: "i_t \<Rightarrow> istring \<Rightarrow> byte list option" where
  "script_bytes st s =
     (if i_ptr s + i_len s \<le> length (script st) then Some (take (i_len s) (drop (i_ptr s) (script st))) else None)"

definition i_reset_token :: "i_t \<Rightarrow> i_t" where
  "i_reset_token st = st\<lparr>curStrToken := \<lparr>i_ptr = i_ptr (parsePtr st), i_len = 0\<rparr>\<rparr>"

definition i_ignore_last_token :: "i_t \<Rightarrow> i_t" where
  "i_ignore_last_token st = st\<lparr>curStrToken := (curStrToken st)\<lparr>i_len := u32 (int (i_len (curStrToken st)) - 1)\<rparr>\<rparr>"

definition i_ignore_first_token :: "i_t \<Rightarrow> i_t" where
  "i_ignore_first_token st =
     st\<lparr>curStrToken := \<lparr>i_ptr = i_ptr (curStrToken st) + 1, i_len = u32 (int (i_len (curStrToken st)) - 1)\<rparr>\<rparr>"

definition i_ignore_next_char :: "i_t \<Rightarrow> i_t" where
  "i_ignore_next_char st =
     st\<lparr>parsePtr := \<lparr>i_ptr = i_ptr (parsePtr st) + 1, i_len = u32 (int (i_len (parsePtr st)) - 1)\<rparr>\<rparr>"

definition i_peek_char :: "i_t \<Rightarrow> nat \<Rightarrow> int option" where
  "i_peek_char st n = (if i_len (parsePtr st) \<le> n then Some (-1) else script_at st (i_ptr (parsePtr st) + n))"

definition i_get_char :: "i_t \<Rightarrow> (int \<times> i_t) option" where
  "i_get_char st =
     (if i_len (parsePtr st) = 0 then Some (-1, st)
      else do {
        c \<leftarrow> script_at st (i_ptr (parsePtr st));
        Some (c, st\<lparr>parsePtr := \<lparr>i_ptr = i_ptr (parsePtr st) + 1, i_len = i_len (parsePtr st) - 1\<rparr>,
          curStrToken := (curStrToken st)\<lparr>i_len := u32 (int (i_len (curStrToken st)) + 1)\<rparr>\<rparr>) })"

definition i_unget_char :: "i_t \<Rightarrow> i_t option" where
  "i_unget_char st =
     (if i_ptr (parsePtr st) = 0 then None
      else Some (i_ignore_last_token
        (st\<lparr>parsePtr := \<lparr>i_ptr = i_ptr (parsePtr st) - 1, i_len = u32 (int (i_len (parsePtr st)) + 1)\<rparr>\<rparr>)))"

lemma i_get_char_len:
  "i_get_char st = Some (c, st') \<Longrightarrow> i_len (parsePtr st') \<le> i_len (parsePtr st) \<and> (c \<noteq> -1 \<longrightarrow> i_len (parsePtr st') < i_len (parsePtr st))"
  by (auto simp: i_get_char_def bind_eq_Some_conv split: if_splits)

function i_ignore_ws :: "i_t \<Rightarrow> (int \<times> i_t) option" where
  "i_ignore_ws st =
     (case i_get_char st of None \<Rightarrow> None
      | Some (c, st') \<Rightarrow> if is_space c then i_ignore_ws (i_reset_token st') else Some (c, st'))"
  by pat_completeness auto
termination
  by (relation "measure (\<lambda>st. i_len (parsePtr st))") (auto simp: is_space_def i_reset_token_def dest: i_get_char_len)

text \<open>A test that holds of the end mark would never end; the code uses none.\<close>

function i_get_span :: "(int \<Rightarrow> bool) \<Rightarrow> i_t \<Rightarrow> i_t option" where
  "i_get_span testfn st =
     (case i_get_char st of None \<Rightarrow> None
      | Some (c, st') \<Rightarrow>
          if testfn c then (if i_len (parsePtr st') < i_len (parsePtr st) then i_get_span testfn st' else None)
          else if c \<noteq> -1 then i_unget_char st' else Some st')"
  by pat_completeness auto
termination by (relation "measure (\<lambda>(testfn, st). i_len (parsePtr st))") auto

declare i_ignore_ws.simps [simp del] i_get_span.simps [simp del]

text \<open>The rest of a comment, a block in braces, and the two kinds of quotes.\<close>

function skip_comment :: "i_t \<Rightarrow> (int \<times> i_t) option" where
  "skip_comment st =
     (case i_get_char st of None \<Rightarrow> None
      | Some (c, st') \<Rightarrow> if c \<ge> 0 \<and> c \<noteq> 10 then skip_comment st' else Some (c, st'))"
  by pat_completeness auto
termination by (relation "measure (\<lambda>st. i_len (parsePtr st))") (auto dest!: i_get_char_len)

function skip_block :: "nat \<Rightarrow> i_t \<Rightarrow> (bool \<times> i_t) option" where
  "skip_block bracket st =
     (if bracket = 0 then Some (True, st)
      else (case i_get_char st of None \<Rightarrow> None
        | Some (c, st') \<Rightarrow>
            if c = I_NOTOK then Some (False, st')
            else skip_block (if c = 125 then bracket - 1 else if c = 123 then bracket + 1 else bracket) st'))"
  by pat_completeness auto
termination by (relation "measure (\<lambda>(bracket, st). i_len (parsePtr st))") (auto dest!: i_get_char_len)

declare skip_comment.simps [simp del] skip_block.simps [simp del]

primrec char_literal :: "nat \<Rightarrow> i_t \<Rightarrow> (int \<times> i_t) option" where
  "char_literal 0 st = Some (I_TOK_SYNTAX_ERR, st)"
| "char_literal (Suc n) st =
     do { (c, st) \<leftarrow> i_get_char st;
          (if c = 39 then Some (I_TOK_CHAR, i_ignore_last_token (i_ignore_first_token st)) else char_literal n st) }"

text \<open>The length of a string literal up to its closing quote; without one the answer is \<open>None\<close>.\<close>

function string_length :: "i_t \<Rightarrow> nat \<Rightarrow> int \<Rightarrow> (nat option) option" where
  "string_length st len pc =
     (case i_peek_char st len of None \<Rightarrow> None
      | Some cc \<Rightarrow>
          if cc = -1 then Some None
          else if cc = 34 \<and> pc \<noteq> 92 then Some (Some len)
          else string_length st (len + 1) cc)"
  by pat_completeness auto
termination
  by (relation "measure (\<lambda>(st, len, pc). i_len (parsePtr st) - len)") (auto simp: i_peek_char_def split: if_splits)

declare string_length.simps [simp del]

primrec get_chars :: "nat \<Rightarrow> i_t \<Rightarrow> (byte list \<times> i_t) option" where
  "get_chars 0 st = Some ([], st)"
| "get_chars (Suc n) st =
     do { (c, st) \<leftarrow> i_get_char st; (cs, st) \<leftarrow> get_chars n st; Some (word_of_int c # cs, st) }"

subsection \<open>Symbols and scopes\<close>

definition new_sym :: "sym_t \<Rightarrow> i_t \<Rightarrow> nat \<times> i_t" where
  "new_sym s st = (fresh st, st\<lparr>syms := (syms st)(fresh st \<mapsto> s), fresh := fresh st + 1\<rparr>)"

text \<open>
  Releasing symbols: a function is released with the symbols of its own scope, an array with its
  symbol. Every turn takes a live symbol away, so as many turns as objects were ever made are enough.
  What is released twice is \<open>None\<close>.
\<close>

primrec release_syms :: "nat \<Rightarrow> nat list \<Rightarrow> i_t \<Rightarrow> i_t option" where
  "release_syms 0 ss st = (if ss = [] then Some st else None)"
| "release_syms (Suc n) ss st =
     (case ss of [] \<Rightarrow> Some st
      | s # ss \<Rightarrow>
          (case syms st s of None \<Rightarrow> None
           | Some sy \<Rightarrow>
               let st = st\<lparr>syms := (syms st)(s := None)\<rparr> in
               if sym_type sy mod 256 = UFUNC_TYPE then
                 (case sym_value sy of
                    Fun f \<Rightarrow>
                      (case funs st f of None \<Rightarrow> None
                       | Some fn \<Rightarrow>
                           (case symbols fn of None \<Rightarrow> None
                            | Some entries \<Rightarrow> release_syms n (map (\<lambda>(k, s, c). s) entries @ ss) (st\<lparr>funs := (funs st)(f := None)\<rparr>)))
                  | Num v \<Rightarrow> if v = 0 then release_syms n ss st else None
                  | _ \<Rightarrow> None)
               else if sym_type sy mod 256 = ARRAY_TYPE then
                 (case sym_value sy of
                    Ary a \<Rightarrow> if arys st a = None then None else release_syms n ss (st\<lparr>arys := (arys st)(a := None)\<rparr>)
                  | Num v \<Rightarrow> if v = 0 then release_syms n ss st else None
                  | _ \<Rightarrow> None)
               else release_syms n ss st))"

definition i_release_syms :: "nat list \<Rightarrow> i_t \<Rightarrow> i_t option" where
  "i_release_syms ss st = release_syms (fresh st + length ss) ss st"

definition set_symbols :: "nat \<Rightarrow> (name \<times> nat \<times> bool) list option \<Rightarrow> i_t \<Rightarrow> i_t option" where
  "set_symbols f es st = map_option (\<lambda>fn. st\<lparr>funs := (funs st)(f \<mapsto> fn\<lparr>symbols := es\<rparr>)\<rparr>) (funs st f)"

text \<open>The operations of the symbol table: \<open>Vmap.get\<close>, \<open>Vmap.set\<close>, \<open>Vmap.clear\<close>.\<close>

definition scope_symbols :: "nat \<Rightarrow> i_t \<Rightarrow> (name \<times> nat \<times> bool) list option" where
  "scope_symbols f st = Option.bind (funs st f) symbols"

fun put_symbol :: "name \<Rightarrow> nat \<times> bool \<Rightarrow> (name \<times> nat \<times> bool) list \<Rightarrow> (name \<times> nat \<times> bool) list" where
  "put_symbol k v [] = [(k, v)]"
| "put_symbol k v ((k', v') # es) = (if k' = k then (k, v) # es else (k', v') # put_symbol k v es)"

text \<open>The answer is the new symbol, or \<open>NULL\<close> when a constant is in the way.\<close>

definition i_define_symbol :: "nat \<Rightarrow> name \<Rightarrow> nat \<Rightarrow> ival \<Rightarrow> bool \<Rightarrow> i_t \<Rightarrow> (nat option \<times> i_t) option" where
  "i_define_symbol f key typ v is_const st =
     do { es \<leftarrow> scope_symbols f st;
          let (s, st) = new_sym \<lparr>sym_type = typ, sym_const = is_const, sym_value = v\<rparr> st;
          (case map_of es key of
             None \<Rightarrow> map_option (Pair (Some s)) (set_symbols f (Some (put_symbol key (s, is_const) es)) st)
           | Some (old, constant) \<Rightarrow>
               if constant then Some (None, st\<lparr>syms := (syms st)(s := None)\<rparr>)
               else do { st \<leftarrow> set_symbols f (Some (put_symbol key (s, is_const) es)) st;
                         st \<leftarrow> i_release_syms [old] st;
                         Some (Some s, st) }) }"

text \<open>The search goes from a scope to the scopes around it; a chain of scopes has no cycle, but the
  model bounds it by the number of objects.\<close>

primrec lookup_from :: "nat \<Rightarrow> nat option \<Rightarrow> name \<Rightarrow> i_t \<Rightarrow> (nat option) option" where
  "lookup_from 0 f key st = None"
| "lookup_from (Suc n) f key st =
     (case f of None \<Rightarrow> Some None
      | Some f \<Rightarrow>
          do { fn \<leftarrow> funs st f;
               es \<leftarrow> symbols fn;
               (case map_of es key of Some (s, _) \<Rightarrow> Some (Some s) | None \<Rightarrow> lookup_from n (prev_fun fn) key st) })"

definition i_lookup_symbol :: "name \<Rightarrow> i_t \<Rightarrow> (nat option) option" where
  "i_lookup_symbol key st = lookup_from (fresh st + 2) (Some (curScope st)) key st"

definition i_define_var_symbol :: "nat \<Rightarrow> name \<Rightarrow> bool \<Rightarrow> i_t \<Rightarrow> (nat option \<times> i_t) option" where
  "i_define_var_symbol f key is_const st = i_define_symbol f key INT_TYPE (Num 0) is_const st"

definition clear_scope :: "nat \<Rightarrow> i_t \<Rightarrow> i_t option" where
  "clear_scope f st =
     do { es \<leftarrow> scope_symbols f st;
          st \<leftarrow> i_release_syms (map (\<lambda>(k, s, c). s) es) st;
          set_symbols f (Some []) st }"

text \<open>
  \<open>i_symbol_stack_push\<close>: a copy of a scope, symbol by symbol. The copy of an array reads and
  writes its bytes by the byte the array begins with; it is left out.
\<close>

primrec clone_symbols :: "(name \<times> nat \<times> bool) list \<Rightarrow> i_t \<Rightarrow> ((name \<times> nat \<times> bool) list \<times> i_t) option" where
  "clone_symbols [] st = Some ([], st)"
| "clone_symbols (e # es) st =
     (case e of (k, s, c) \<Rightarrow>
       do { sy \<leftarrow> syms st s;
            (if sym_type sy mod 256 = ARRAY_TYPE then None
             else do { let (s', st) = new_sym sy st;
                       (es', st) \<leftarrow> clone_symbols es st;
                       Some ((k, s', c) # es', st) }) })"

definition i_symbol_stack_push :: "nat \<Rightarrow> i_t \<Rightarrow> i_t option" where
  "i_symbol_stack_push f st =
     do { es \<leftarrow> scope_symbols f st; (es, st) \<leftarrow> clone_symbols es st; Some (st\<lparr>symbolstack := es # symbolstack st\<rparr>) }"

definition i_symbol_stack_pop :: "i_t \<Rightarrow> ((name \<times> nat \<times> bool) list \<times> i_t) option" where
  "i_symbol_stack_pop st = (case symbolstack st of [] \<Rightarrow> None | es # r \<Rightarrow> Some (es, st\<lparr>symbolstack := r\<rparr>))"

definition i_fun_stack_push :: "nat \<Rightarrow> i_t \<Rightarrow> i_t" where
  "i_fun_stack_push f st = st\<lparr>funstack := f # funstack st\<rparr>"

definition i_fun_stack_pop :: "i_t \<Rightarrow> (nat \<times> i_t) option" where
  "i_fun_stack_pop st = (case funstack st of [] \<Rightarrow> None | f # r \<Rightarrow> Some (f, st\<lparr>funstack := r\<rparr>))"

definition i_stack_push :: "ival \<Rightarrow> i_t \<Rightarrow> i_t" where
  "i_stack_push v st = st\<lparr>stack := v # stack st\<rparr>"

definition i_stack_pop :: "i_t \<Rightarrow> (ival \<times> i_t) option" where
  "i_stack_pop st = (case stack st of [] \<Rightarrow> None | v # r \<Rightarrow> Some (v, st\<lparr>stack := r\<rparr>))"

text \<open>\<open>Fun_new\<close> with a parent.\<close>

definition fun_new :: "name \<Rightarrow> nat option \<Rightarrow> funT" where
  "fun_new nm parent =
     \<lparr>funname = nm, body = \<lparr>i_ptr = 0, i_len = 0\<rparr>, nargs = 0, argName = [], symbols = Some [], prev_fun = parent\<rparr>"

definition Fun_new :: "name \<Rightarrow> nat option \<Rightarrow> i_t \<Rightarrow> nat \<times> i_t" where
  "Fun_new nm parent st =
     (let f = fresh st; st = st\<lparr>funs := (funs st)(f \<mapsto> fun_new nm parent), fresh := f + 1\<rparr> in
      (f, if parent = None then st\<lparr>global_fun := f, curScope := f\<rparr> else st))"

end
