(* ===== verification/Interp.thy ===== *)
theory Interp
  imports Ilex
begin

section \<open>The interpreter \<open>I\<close>: tokens, expressions and statements\<close>

text \<open>
  The functions of the interpreter call each other without an end in sight: a script may loop. Each of
  them is a definition over \<open>rec\<close>, which stands for the calls it makes to the functions it
  belongs to a cycle with, and for what is outside: the functions of the client and the decoder of
  multibyte characters. \<open>interp\<close> ties the knot with a bound on the depth of the calls. An answer
  holds the code, what was stored through the result pointer (if anything), and the state. The result
  pointer of an expression is a local variable or, for \<open>exit\<close> and \<open>return\<close>, the address of
  \<open>funResult\<close>, which the functions called in the expression write and read too.
\<close>

datatype dest = Local | Result

datatype call =
    Call_expr dest
  | Call_level nat ival
  | Call_tighter nat ival
  | Call_expr_list nat
  | Call_array_assign nat int
  | Call_func_def
  | Call_statements istring
  | Call_while istring nat
  | Call_cfun name "ival list"
  | Call_code_at "byte list"
  | Call_print bool int int "byte list"
  | Call_print_value bool int ival int int "byte list"
  | Call_print_bytes bool "byte list"

type_synonym answer = "(int \<times> ival option \<times> i_t) option"
type_synonym recur = "call \<Rightarrow> i_t \<Rightarrow> answer"

text \<open>The errors print to the error stream, which is not part of the state.\<close>

definition i_syntax_error :: "i_t \<Rightarrow> int \<times> i_t" where "i_syntax_error st = (I_ERR_SYNTAX, st)"
definition i_arg_mismatch :: "i_t \<Rightarrow> int \<times> i_t" where "i_arg_mismatch st = (I_ERR_BADARGS, st)"
definition i_too_many_args :: "i_t \<Rightarrow> int \<times> i_t" where "i_too_many_args st = (I_ERR_TOOMANYARGS, st)"
definition i_unknown_symbol :: "i_t \<Rightarrow> int \<times> i_t" where "i_unknown_symbol st = (I_ERR_UNKNOWN_SYM, st)"
definition i_out_of_bounds :: "i_t \<Rightarrow> int \<times> i_t" where "i_out_of_bounds st = (I_ERR_OUTOFBOUNDS, st)"

definition no_value :: "int \<times> i_t \<Rightarrow> answer" where
  "no_value r = Some (fst r, None, snd r)"

subsection \<open>Tokens\<close>

definition anonymous :: name where "anonymous = ascii ''anonymous''"

definition i_lambda :: "recur \<Rightarrow> i_t \<Rightarrow> (int \<times> i_t) option" where
  "i_lambda rec st =
     do { (_, st) \<leftarrow> i_ignore_ws (st\<lparr>curFunName := anonymous\<rparr>);
          (err, _, st) \<leftarrow> rec Call_func_def (st\<lparr>curFunDef := None\<rparr>);
          (if err \<noteq> I_OK then Some (err, st)
           else do {
             f \<leftarrow> curFunDef st;
             fn \<leftarrow> funs st f;
             s \<leftarrow> curSym st;
             sy \<leftarrow> syms st s;
             Some (int (sym_type sy mod 256),
               st\<lparr>tokenSymbol := Some s, tokenArgs := nargs fn, tokenValue := sym_value sy, curFunName := []\<rparr>) }) }"

definition hex_ahead :: "int \<Rightarrow> i_t \<Rightarrow> bool option" where
  "hex_ahead c st =
     (if c \<noteq> 48 then Some False
      else do { p \<leftarrow> i_peek_char st 0;
                (if in_str (ascii ''xX'') p then map_option is_hexchar (i_peek_char st 1) else Some False) })"

definition number_ahead :: "int \<Rightarrow> i_t \<Rightarrow> bool option" where
  "number_ahead c st =
     (if is_digit c then Some True else if c = 45 then map_option is_digit (i_peek_char st 0) else Some False)"

definition tok_number :: "int \<Rightarrow> i_t \<Rightarrow> (int \<times> i_t) option" where
  "tok_number c st =
     do { hex \<leftarrow> hex_ahead c st;
          (if hex then
             do { (_, st) \<leftarrow> i_get_char st;
                  st \<leftarrow> i_get_span is_hexchar (i_ignore_first_token (i_ignore_first_token st));
                  Some (I_TOK_HEX_NUMBER, st) }
           else do { st \<leftarrow> i_get_span is_digit st; Some (I_TOK_NUMBER, st) }) }"

definition tok_char :: "i_t \<Rightarrow> (int \<times> i_t) option" where
  "tok_char st =
     do { (c, st) \<leftarrow> i_get_char st;
          (_, st) \<leftarrow> (if c = 92 then i_get_char st else Some (c, st));
          char_literal 4 st }"

text \<open>\<open>Cstring.eq_n ("lambda", ptr, 6)\<close> looks at the text, not at the length of the token.\<close>

definition at_lambda :: "i_t \<Rightarrow> bool" where
  "at_lambda st \<longleftrightarrow> take 6 (drop (i_ptr (curStrToken st)) (script st)) = ascii ''lambda''"

text \<open>The first result says whether \<open>curToken\<close> is set.\<close>

definition tok_word :: "recur \<Rightarrow> bool \<Rightarrow> i_t \<Rightarrow> (bool \<times> int \<times> i_t) option" where
  "tok_word rec israw st =
     do { st \<leftarrow> i_get_span is_identifier st;
          (if israw then Some (True, I_TOK_SYMBOL, st)
           else if at_lambda st then
             do { (r, st) \<leftarrow> i_lambda rec st;
                  Some (if r < I_OK then (False, i_syntax_error st) else (True, r, st)) }
           else
             do { key \<leftarrow> script_bytes st (curStrToken st);
                  symbol \<leftarrow> i_lookup_symbol key st;
                  (case symbol of
                     None \<Rightarrow> Some (True, I_TOK_SYMBOL, st\<lparr>tokenSymbol := None\<rparr>)
                   | Some s \<Rightarrow>
                       do { sy \<leftarrow> syms st s;
                            let r = sym_type sy mod 256;
                            Some (True, if r = ARRAY_TYPE then I_TOK_ARY else if r < 64 then I_TOK_VAR else int r,
                              st\<lparr>tokenSymbol := Some s, tokenArgs := sym_type sy div 256 mod 256, tokenValue := sym_value sy\<rparr>) }) }) }"

definition tok_operator :: "i_t \<Rightarrow> (int \<times> i_t) option" where
  "tok_operator st =
     do { st \<leftarrow> i_get_span is_operator_span st;
          key \<leftarrow> script_bytes st (curStrToken st);
          symbol \<leftarrow> i_lookup_symbol key st;
          (case symbol of
             None \<Rightarrow> Some (I_TOK_SYNTAX_ERR, st\<lparr>tokenSymbol := None\<rparr>)
           | Some s \<Rightarrow>
               do { sy \<leftarrow> syms st s;
                    Some (int (sym_type sy), st\<lparr>tokenSymbol := Some s, tokenValue := sym_value sy\<rparr>) }) }"

definition tok_block :: "i_t \<Rightarrow> (bool \<times> int \<times> i_t) option" where
  "tok_block st =
     do { (closed, st) \<leftarrow> skip_block 1 (i_reset_token st);
          Some (if closed then (True, I_TOK_STRING, i_ignore_last_token st) else (False, I_TOK_SYNTAX_ERR, st)) }"

definition tok_string :: "i_t \<Rightarrow> (bool \<times> int \<times> i_t) option" where
  "tok_string st =
     do { len \<leftarrow> string_length st 0 0;
          (case len of
             None \<Rightarrow> Some (False, i_syntax_error st)
           | Some len \<Rightarrow>
               do { (bs, st) \<leftarrow> get_chars len st;
                    let s = fresh st;
                    let st = st\<lparr>strs := (strs st)(s \<mapsto> bs), fresh := s + 1, tokenValue := Str s,
                           malloced := (if in_args st then s # malloced st else malloced st)\<rparr>;
                    (_, st) \<leftarrow> i_get_char st;
                    Some (True, I_TOK_STRING, i_reset_token st) }) }"

definition i_do_next_token :: "recur \<Rightarrow> bool \<Rightarrow> i_t \<Rightarrow> (int \<times> i_t) option" where
  "i_do_next_token rec israw st =
     do { (c, st) \<leftarrow> i_ignore_ws (i_reset_token (st\<lparr>tokenSymbol := None\<rparr>));
          p \<leftarrow> (if c = 92 then i_peek_char st 0 else Some 0);
          (c, st) \<leftarrow> (if c = 92 \<and> p = 10
                      then i_ignore_ws (i_reset_token (i_ignore_next_char (st\<lparr>lineNum := lineNum st + 1\<rparr>))) else Some (c, st));
          number \<leftarrow> number_ahead c st;
          (set, r, st) \<leftarrow>
            (if c = 35 then map_option (\<lambda>(c, st). (True, c, st\<lparr>lineNum := lineNum st + 1\<rparr>)) (skip_comment st)
             else if number then map_option (Pair True) (tok_number c st)
             else if c = 39 then map_option (Pair True) (tok_char st)
             else if is_alpha c then tok_word rec israw st
             else if is_operator c then map_option (Pair True) (tok_operator st)
             else if c = 123 then tok_block st
             else if c = 34 then tok_string st
             else Some (True, c, st));
          Some (r, if set then st\<lparr>curToken := r\<rparr> else st) }"

definition i_next_token :: "recur \<Rightarrow> i_t \<Rightarrow> (int \<times> i_t) option" where
  "i_next_token rec st = i_do_next_token rec False st"

definition i_next_raw_token :: "recur \<Rightarrow> i_t \<Rightarrow> (int \<times> i_t) option" where
  "i_next_raw_token rec st = i_do_next_token rec True st"

subsection \<open>Numbers and operators\<close>

primrec digits_from :: "i_t \<Rightarrow> nat \<Rightarrow> nat \<Rightarrow> int \<Rightarrow> int option" where
  "digits_from st p 0 r = Some r"
| "digits_from st p (Suc n) r =
     do { c \<leftarrow> script_at st p;
          (if is_digit c then
             do { r \<leftarrow> in_int 64 (10 * r); r \<leftarrow> in_int 64 (r + (c - 48)); digits_from st (p + 1) n r }
           else Some r) }"

definition i_string_to_num :: "i_t \<Rightarrow> istring \<Rightarrow> int option" where
  "i_string_to_num st s =
     do { c \<leftarrow> script_at st (i_ptr s);
          let is_sign = c = 45;
          r \<leftarrow> digits_from st (if is_sign then i_ptr s + 1 else i_ptr s) (i_len s) 0;
          Some (if is_sign then - r else r) }"

primrec hex_digits_from :: "i_t \<Rightarrow> nat \<Rightarrow> nat \<Rightarrow> int \<Rightarrow> int option" where
  "hex_digits_from st p 0 r = Some r"
| "hex_digits_from st p (Suc n) r =
     do { c \<leftarrow> script_at st p;
          (if is_hexchar c then
             do { r \<leftarrow> in_int 64 (16 * r);
                  r \<leftarrow> in_int 64 (r + (if c \<le> 57 then c - 48 else if c \<le> 70 then c - 65 + 10 else c - 97 + 10));
                  hex_digits_from st (p + 1) n r }
           else Some r) }"

definition i_HexStringToNum :: "i_t \<Rightarrow> istring \<Rightarrow> int option" where
  "i_HexStringToNum st s = hex_digits_from st (i_ptr s) (i_len s) 0"

definition truth :: "bool \<Rightarrow> int" where "truth b = (if b then 1 else 0)"

text \<open>The operators on \<open>intptr_t\<close>, undefined where C leaves them undefined.\<close>

fun apply_op :: "opfunc \<Rightarrow> int \<Rightarrow> int \<Rightarrow> int option" where
  "apply_op I_prod x y = in_int 64 (x * y)"
| "apply_op I_quot x y = (if y = 0 then None else in_int 64 (x sdiv y))"
| "apply_op I_mod x y = (if y = 0 then None else in_int 64 (x sdiv y) \<bind> (\<lambda>_. Some (x smod y)))"
| "apply_op I_sum x y = in_int 64 (x + y)"
| "apply_op I_diff x y = in_int 64 (x - y)"
| "apply_op I_bitand x y = Some (x AND y)"
| "apply_op I_bitor x y = Some (x OR y)"
| "apply_op I_bitxor x y = Some (x XOR y)"
| "apply_op I_shr x y = (if 0 \<le> y \<and> y < 64 then Some (drop_bit (nat y) x) else None)"
| "apply_op I_shl x y = (if 0 \<le> y \<and> y < 64 \<and> 0 \<le> x then in_int 64 (push_bit (nat y) x) else None)"
| "apply_op I_equals x y = Some (truth (x = y))"
| "apply_op I_ne x y = Some (truth (x \<noteq> y))"
| "apply_op I_lt x y = Some (truth (x < y))"
| "apply_op I_le x y = Some (truth (x \<le> y))"
| "apply_op I_gt x y = Some (truth (x > y))"
| "apply_op I_ge x y = Some (truth (x \<ge> y))"
| "apply_op I_logical_and x y = Some (truth (x \<noteq> 0 \<and> y \<noteq> 0))"
| "apply_op I_logical_or x y = Some (truth (x \<noteq> 0 \<or> y \<noteq> 0))"

fun number :: "ival \<Rightarrow> int option" where
  "number (Num v) = Some v"
| "number _ = None"

definition call_op :: "ival \<Rightarrow> ival \<Rightarrow> ival \<Rightarrow> ival option" where
  "call_op f x y =
     (case f of Op op \<Rightarrow> do { x \<leftarrow> number x; y \<leftarrow> number y; map_option Num (apply_op op x y) } | _ \<Rightarrow> None)"

subsection \<open>Expressions\<close>

definition i_parse_char :: "recur \<Rightarrow> istring \<Rightarrow> i_t \<Rightarrow> answer" where
  "i_parse_char rec token st =
     do { c0 \<leftarrow> script_at st (i_ptr token);
          (if c0 = 39 then no_value (i_syntax_error st)
           else if c0 = 92 then
             do { c1 \<leftarrow> script_at st (i_ptr token + 1);
                  (if c1 = 110 then Some (I_OK, Some (Num 10), st)
                   else if c1 = 116 then Some (I_OK, Some (Num 9), st)
                   else if c1 = 114 then Some (I_OK, Some (Num 13), st)
                   else if c1 = 92 then Some (I_OK, Some (Num 92), st)
                   else if c1 = 39 then Some (I_OK, Some (Num 39), st)
                   else no_value (i_syntax_error st)) }
           else if 32 \<le> c0 \<and> c0 \<le> 126 then
             do { c1 \<leftarrow> script_at st (i_ptr token + 1);
                  (if c1 = 39 then Some (I_OK, Some (Num c0), st) else no_value (i_syntax_error st)) }
           else
             do { (len, c, st) \<leftarrow> rec (Call_code_at (drop (i_ptr token) (script st))) st;
                  e \<leftarrow> (if len < 0 then None else script_at st (i_ptr token + nat len));
                  (if e \<noteq> 39 then no_value (i_syntax_error st) else Some (I_OK, c, st)) }) }"

text \<open>
  The arguments are popped into \<open>funArgs\<close>, the last one first.
\<close>

primrec pop_args :: "nat \<Rightarrow> i_t \<Rightarrow> i_t option" where
  "pop_args 0 st = Some st"
| "pop_args (Suc n) st =
     do { (v, st) \<leftarrow> i_stack_pop st;
          (if n < length (funArgs st) then pop_args n (st\<lparr>funArgs := (funArgs st)[n := v]\<rparr>) else None) }"

primrec define_args :: "nat \<Rightarrow> nat \<Rightarrow> i_t \<Rightarrow> i_t option" where
  "define_args uf 0 st = Some st"
| "define_args uf (Suc n) st =
     do { st \<leftarrow> define_args uf n st;
          fn \<leftarrow> funs st uf;
          (if n < length (argName fn) \<and> n < length (funArgs st)
           then map_option snd (i_define_symbol uf (argName fn ! n) INT_TYPE (funArgs st ! n) False st) else None) }"

definition count_call :: "name \<Rightarrow> int \<Rightarrow> i_t \<Rightarrow> int \<times> i_t" where
  "count_call nm d st = (refcount st nm + d, st\<lparr>refcount := (refcount st)(nm := refcount st nm + d)\<rparr>)"

definition i_parse_string :: "recur \<Rightarrow> istring \<Rightarrow> i_t \<Rightarrow> (int \<times> i_t) option" where
  "i_parse_string rec str st =
     map_option (\<lambda>(r, _, st). (r, st)) (rec (Call_statements (parsePtr st)) (st\<lparr>parsePtr := str\<rparr>))"

text \<open>The call of a user function whose arguments are in \<open>funArgs\<close>.\<close>

definition call_user :: "recur \<Rightarrow> nat \<Rightarrow> nat \<Rightarrow> i_t \<Rightarrow> answer" where
  "call_user rec uf expectargs st =
     do { fn \<leftarrow> funs st uf;
          let is_anonymous = (funname fn = anonymous);
          st \<leftarrow> (if is_anonymous then Some st
                else let (count, st) = count_call (funname fn) 1 st in
                  if count > 1 then i_symbol_stack_push (curScope st) st \<bind> clear_scope uf else Some st);
          st \<leftarrow> define_args uf expectargs st;
          fn \<leftarrow> funs st uf;
          let st = (i_fun_stack_push (curScope st) (st\<lparr>didReturn := False\<rparr>))\<lparr>curScope := uf\<rparr>;
          (err, st) \<leftarrow> i_parse_string rec (body fn) st;
          (scope, st) \<leftarrow> i_fun_stack_pop st;
          let st = st\<lparr>curScope := scope, didReturn := False\<rparr>;
          st \<leftarrow> (if is_anonymous then Some st
                else do {
                  fn \<leftarrow> funs st uf;
                  let (count, st) = count_call (funname fn) (-1) st;
                  (if count = 0 then clear_scope uf st
                   else do { st \<leftarrow> clear_scope uf st;
                             st \<leftarrow> set_symbols uf None st;
                             (es, st) \<leftarrow> i_symbol_stack_pop st;
                             set_symbols (curScope st) (Some es) st }) });
          Some (err, Some (funResult st), st) }"

definition i_parse_func_call :: "recur \<Rightarrow> ival \<Rightarrow> nat option \<Rightarrow> i_t \<Rightarrow> answer" where
  "i_parse_func_call rec opf uf st =
     do { expectargs \<leftarrow> (case uf of None \<Rightarrow> Some (tokenArgs st) | Some f \<Rightarrow> map_option nargs (funs st f));
          (c, st) \<leftarrow> i_next_token rec st;
          (if c \<noteq> 40 then
             do { st \<leftarrow> i_unget_char st;
                  Some (I_OK, Some (case uf of None \<Rightarrow> Num 0 | Some f \<Rightarrow> Fun f), st) }
           else do {
             (c, st) \<leftarrow> i_next_token rec (st\<lparr>in_args := True\<rparr>);
             (paramCount, c, st) \<leftarrow>
               (if c \<noteq> 41 then do { (n, _, st) \<leftarrow> rec (Call_expr_list 0) st; Some (n, curToken st, st) } else Some (0, c, st));
             let st = st\<lparr>in_args := False\<rparr>;
             (if paramCount < 0 then Some (paramCount, None, st)
              else if c \<noteq> 41 then no_value (i_syntax_error st)
              else if int expectargs \<noteq> paramCount then no_value (i_arg_mismatch st)
              else do {
                st \<leftarrow> pop_args (nat paramCount) st;
                (case uf of
                   Some f \<Rightarrow> call_user rec f expectargs st
                 | None \<Rightarrow>
                     (case opf of
                        Cfun nm \<Rightarrow> do { (_, v, st) \<leftarrow> rec (Call_cfun nm (funArgs st)) st;
                                       (_, st) \<leftarrow> i_next_token rec st;
                                       Some (I_OK, v, st) }
                      | _ \<Rightarrow> None)) }) }) }"

definition i_parse_array_assign :: "recur \<Rightarrow> ival \<Rightarrow> int \<Rightarrow> i_t \<Rightarrow> answer" where
  "i_parse_array_assign rec ary ix st =
     (case ary of
        Ary a \<Rightarrow>
          do { xs \<leftarrow> arys st a;
               (if ix < 0 \<or> ix \<ge> int (length xs) then no_value (i_out_of_bounds st)
                else do {
                  (_, st) \<leftarrow> i_next_token rec st;
                  (err, v, st) \<leftarrow> rec (Call_expr Local) st;
                  (if err \<noteq> I_OK then Some (err, None, st)
                   else do {
                     v \<leftarrow> v;
                     xs \<leftarrow> arys st a;
                     let st = st\<lparr>arys := (arys st)(a \<mapsto> xs[nat ix := v])\<rparr>;
                     (if curToken st = 44 then rec (Call_array_assign a (ix + 1)) st else Some (I_OK, None, st)) }) }) }
      | _ \<Rightarrow> None)"

text \<open>\<open>curStrToken\<close> is the single character \<open>=\<close>.\<close>

definition at_assign :: "i_t \<Rightarrow> bool option" where
  "at_assign st = map_option (\<lambda>c. c = 61 \<and> i_len (curStrToken st) = 1) (script_at st (i_ptr (curStrToken st)))"

text \<open>What is stored through the result pointer.\<close>

definition put_result :: "dest \<Rightarrow> ival option \<Rightarrow> i_t \<Rightarrow> i_t" where
  "put_result d v st =
     (case d of Local \<Rightarrow> st | Result \<Rightarrow> (case v of None \<Rightarrow> st | Some v \<Rightarrow> st\<lparr>funResult := v\<rparr>))"

text \<open>A primary expression; parentheses, operators in front and the arguments recur.\<close>

definition i_parse_paren :: "recur \<Rightarrow> dest \<Rightarrow> i_t \<Rightarrow> answer" where
  "i_parse_paren rec d st =
     do { (_, st) \<leftarrow> i_next_token rec (st\<lparr>in_args := True\<rparr>);
          (err, v, st) \<leftarrow> rec (Call_expr d) st;
          (if err = I_OK \<and> curToken st = 41
           then do { (_, st) \<leftarrow> i_next_token rec st; Some (I_OK, v, st\<lparr>in_args := False\<rparr>) }
           else Some (err, v, st)) }"

definition i_parse_array_get :: "recur \<Rightarrow> i_t \<Rightarrow> answer" where
  "i_parse_array_get rec st =
     (case tokenValue st of
        Ary a \<Rightarrow>
          do { (c, st) \<leftarrow> i_next_token rec st;
               (if c = 40 then
                  do { (err, ix, st) \<leftarrow> i_parse_paren rec Local st;
                       (if err \<noteq> I_OK then Some (err, None, st)
                        else do {
                          ix \<leftarrow> ix \<bind> number;
                          xs \<leftarrow> arys st a;
                          (if ix < -1 \<or> ix \<ge> int (length xs) then no_value (i_out_of_bounds st)
                           else Some (I_OK, Some (if ix = -1 then Num (int (length xs)) else xs ! nat ix), st)) }) }
                else Some (I_OK, Some (Ary a), st)) }
      | _ \<Rightarrow> None)"

definition primary_value :: "recur \<Rightarrow> dest \<Rightarrow> i_t \<Rightarrow> answer" where
  "primary_value rec d st =
     (let c = curToken st in
      if c = 40 then i_parse_paren rec d st
      else if c = I_TOK_NUMBER then
        do { v \<leftarrow> i_string_to_num st (curStrToken st);
             (_, st) \<leftarrow> i_next_token rec st;
             Some (I_OK, Some (Num v), st) }
      else if c = I_TOK_HEX_NUMBER then
        do { v \<leftarrow> i_HexStringToNum st (curStrToken st);
             (_, st) \<leftarrow> i_next_token rec st;
             Some (I_OK, Some (Num v), st) }
      else if c = I_TOK_CHAR then
        do { (err, v, st) \<leftarrow> i_parse_char rec (curStrToken st) st;
             (_, st) \<leftarrow> i_next_token rec st;
             Some (err, v, st) }
      else if c = I_TOK_VAR then
        do { let v = tokenValue st;
             (_, st) \<leftarrow> i_next_token rec st;
             Some (I_OK, Some v, st) }
      else if c = I_TOK_ARY then i_parse_array_get rec st
      else if c = I_TOK_BUILTIN then i_parse_func_call rec (tokenValue st) None st
      else if c = I_TOK_USRFUNC then
        (case tokenSymbol st of
           None \<Rightarrow> no_value (i_syntax_error st)
         | Some s \<Rightarrow>
             do { sy \<leftarrow> syms st s;
                  (case sym_value sy of
                     Fun f \<Rightarrow> do { (err, v, st) \<leftarrow> i_parse_func_call rec (Num 0) (Some f) st;
                                 (_, st) \<leftarrow> i_next_token rec st;
                                 Some (err, v, st) }
                   | _ \<Rightarrow> None) })
      else if c mod 256 = I_TOK_BINOP then
        do { let opf = tokenValue st;
             (_, st) \<leftarrow> i_next_token rec st;
             (err, v, st) \<leftarrow> rec (Call_expr Local) st;
             (if err = I_OK then do { v \<leftarrow> v; v \<leftarrow> call_op opf (Num 0) v; Some (err, Some v, st) } else Some (err, None, st)) }
      else if c = I_TOK_STRING then
        do { let v = tokenValue st;
             (_, st) \<leftarrow> i_next_token rec st;
             Some (I_OK, Some v, st) }
      else no_value (i_syntax_error st))"

definition i_parse_primary :: "recur \<Rightarrow> dest \<Rightarrow> i_t \<Rightarrow> answer" where
  "i_parse_primary rec d st = map_option (\<lambda>(err, v, st). (err, v, put_result d v st)) (primary_value rec d st)"

text \<open>
  One turn of \<open>i_parse_expr_level\<close>: an operator of at most \<open>max_level\<close>, its right operand,
  and the next turn. The inner loop takes the operators of a lower level, which bind tighter, into the
  right operand.
\<close>

definition level_of :: "int \<Rightarrow> nat" where "level_of c = nat (c div 256 mod 256)"

definition take_tighter :: "recur \<Rightarrow> nat \<Rightarrow> ival \<Rightarrow> i_t \<Rightarrow> answer" where
  "take_tighter rec level rhs st =
     (let c = curToken st; nextlevel = level_of c in
      if c mod 256 \<noteq> I_TOK_BINOP \<or> level \<le> nextlevel then Some (I_OK, Some rhs, st)
      else do {
        (err, rhs, st) \<leftarrow> rec (Call_level nextlevel rhs) st;
        (if err \<noteq> I_OK then Some (err, None, st) else do { rhs \<leftarrow> rhs; rec (Call_tighter level rhs) st }) })"

definition i_parse_expr_level :: "recur \<Rightarrow> nat \<Rightarrow> ival \<Rightarrow> i_t \<Rightarrow> answer" where
  "i_parse_expr_level rec max_level lhs st =
     (let c = curToken st; level = level_of c in
      if c mod 256 \<noteq> I_TOK_BINOP \<or> level > max_level then Some (I_OK, Some lhs, st)
      else do {
        let opf = tokenValue st;
        (_, st) \<leftarrow> i_next_token rec st;
        (err, rhs, st) \<leftarrow> i_parse_primary rec Local st;
        (if err \<noteq> I_OK then Some (err, None, st)
         else do {
           rhs \<leftarrow> rhs;
           (err, rhs, st) \<leftarrow> rec (Call_tighter level rhs) st;
           (if err \<noteq> I_OK then Some (err, None, st)
            else do {
              rhs \<leftarrow> rhs;
              lhs \<leftarrow> call_op opf lhs rhs;
              rec (Call_level max_level lhs) st }) }) })"

text \<open>
  An expression: its first operand is stored through the result pointer before the operators behind it
  are read, so it is left there when one of them fails.
\<close>

definition i_parse_expr :: "recur \<Rightarrow> dest \<Rightarrow> i_t \<Rightarrow> answer" where
  "i_parse_expr rec d st =
     do { (err, v, st) \<leftarrow> i_parse_primary rec d st;
          (if err \<noteq> I_OK then Some (err, v, st)
           else do {
             v \<leftarrow> v;
             (err, w, st) \<leftarrow> rec (Call_level MAX_EXPR_LEVEL v) st;
             (if err = I_OK then Some (err, w, put_result d w st)
              else Some (err, Some (if d = Result then funResult st else v), st)) }) }"

definition i_parse_expr_list :: "recur \<Rightarrow> nat \<Rightarrow> i_t \<Rightarrow> answer" where
  "i_parse_expr_list rec count st =
     do { (err, v, st) \<leftarrow> rec (Call_expr Local) st;
          (if err \<noteq> I_OK then Some (err, None, st)
           else do {
             v \<leftarrow> v;
             let st = i_stack_push v st;
             (if curToken st = 44 then do { (_, st) \<leftarrow> i_next_token rec st; rec (Call_expr_list (count + 1)) st }
              else Some (int (count + 1), None, st)) }) }"

subsection \<open>Statements\<close>

text \<open>The branches of \<open>if\<close> and \<open>ifnot\<close>: the condition and the two blocks.\<close>

definition i_parse_if_rout :: "recur \<Rightarrow> i_t \<Rightarrow> (int \<times> (int \<times> istring \<times> istring option) option \<times> i_t) option" where
  "i_parse_if_rout rec st =
     do { (_, st) \<leftarrow> i_next_token rec st;
          (err, cond, st) \<leftarrow> rec (Call_expr Local) st;
          (if err \<noteq> I_OK then Some (err, None, st)
           else if curToken st \<noteq> I_TOK_STRING then Some (fst (i_syntax_error st), None, st)
           else do {
             let ifpart = curStrToken st;
             cond \<leftarrow> cond \<bind> number;
             (c, st) \<leftarrow> i_next_token rec st;
             (if c = I_TOK_ELSE then
                do { (c, st) \<leftarrow> i_next_token rec st;
                     (if c \<noteq> I_TOK_STRING then Some (fst (i_syntax_error st), None, st)
                      else do { let elsepart = curStrToken st;
                                (_, st) \<leftarrow> i_next_token rec st;
                                Some (I_OK, Some (cond, ifpart, Some elsepart), st) }) }
              else Some (I_OK, Some (cond, ifpart, None), st)) }) }"

definition run_branch :: "recur \<Rightarrow> bool \<Rightarrow> istring \<Rightarrow> istring option \<Rightarrow> i_t \<Rightarrow> (int \<times> i_t) option" where
  "run_branch rec taken ifpart elsepart st =
     do { (err, st) \<leftarrow> (if taken then i_parse_string rec ifpart st
                       else (case elsepart of None \<Rightarrow> Some (I_OK, st) | Some e \<Rightarrow> i_parse_string rec e st));
          Some (if err = I_OK \<and> \<not> taken then I_ERR_OK_ELSE else err, st) }"

definition i_parse_if :: "recur \<Rightarrow> i_t \<Rightarrow> (int \<times> i_t) option" where
  "i_parse_if rec st =
     do { (err, parts, st) \<leftarrow> i_parse_if_rout rec st;
          (case parts of None \<Rightarrow> Some (err, st)
           | Some (cond, ifpart, elsepart) \<Rightarrow> run_branch rec (cond \<noteq> 0) ifpart elsepart st) }"

definition i_parse_ifnot :: "recur \<Rightarrow> i_t \<Rightarrow> (int \<times> i_t) option" where
  "i_parse_ifnot rec st =
     do { (err, parts, st) \<leftarrow> i_parse_if_rout rec st;
          (case parts of None \<Rightarrow> Some (err, st)
           | Some (cond, ifpart, elsepart) \<Rightarrow> run_branch rec (cond = 0) ifpart elsepart st) }"

text \<open>Leaving a loop: the rest of the block the \<open>break\<close> is in, and of the block around it.\<close>

function close_brackets :: "nat \<Rightarrow> i_t \<Rightarrow> (nat \<times> i_t) option" where
  "close_brackets brackets st =
     (case i_get_char st of None \<Rightarrow> None
      | Some (c, st') \<Rightarrow>
          let brackets = (if c = 125 then brackets - 1 else if c = 123 then brackets + 1 else brackets) in
          if brackets = 0 \<or> c < 0 then Some (brackets, st') else close_brackets brackets st')"
  by pat_completeness auto
termination by (relation "measure (\<lambda>(brackets, st). i_len (parsePtr st))") (auto dest!: i_get_char_len)

declare close_brackets.simps [simp del]

definition while_turn :: "recur \<Rightarrow> istring \<Rightarrow> nat \<Rightarrow> i_t \<Rightarrow> answer" where
  "while_turn rec savepc len st =
     do { (err, st) \<leftarrow> i_parse_if rec (st\<lparr>breaking := False, continuing := False\<rparr>);
          (early, err, st) \<leftarrow>
            (if breaking st then
               do { let d = i_ptr (parsePtr st) - i_ptr savepc;
                    st \<leftarrow> (if i_ptr (parsePtr st) < i_ptr savepc then None
                          else Some (st\<lparr>parsePtr := (parsePtr st)\<lparr>i_len := u32 (int len - int d)\<rparr>\<rparr>));
                    (brackets, st) \<leftarrow> close_brackets 2 st;
                    (if brackets \<noteq> 0 then Some (True, i_syntax_error st)
                     else do { (_, st) \<leftarrow> i_next_token rec st; Some (False, I_ERR_OK_ELSE, st) }) }
             else Some (False, err, st));
          (if early then Some (err, None, st)
           else if err = I_ERR_OK_ELSE \<or> didReturn st then Some (I_OK, None, st\<lparr>at_loop := False\<rparr>)
           else if err = I_OK \<or> continuing st then
             rec (Call_while savepc len) (st\<lparr>parsePtr := \<lparr>i_ptr = i_ptr savepc, i_len = len\<rparr>\<rparr>)
           else Some (err, None, st\<lparr>at_loop := False\<rparr>)) }"

definition i_parse_while :: "recur \<Rightarrow> i_t \<Rightarrow> (int \<times> i_t) option" where
  "i_parse_while rec st =
     map_option (\<lambda>(r, _, st). (r, st))
       (rec (Call_while (parsePtr st) (i_len (parsePtr st))) (st\<lparr>at_loop := True\<rparr>))"

text \<open>The parameters of a function, up to the closing parenthesis; every turn takes a token.\<close>

primrec i_parse_var_list :: "nat \<Rightarrow> recur \<Rightarrow> nat \<Rightarrow> int \<Rightarrow> name list \<Rightarrow> i_t \<Rightarrow> (int \<times> i_t) option" where
  "i_parse_var_list 0 rec uf c args st = None"
| "i_parse_var_list (Suc n) rec uf c args st =
     (let finish = (\<lambda>args st. map_option (\<lambda>fn. (int (length args), st\<lparr>funs := (funs st)(uf \<mapsto> fn\<lparr>nargs := length args, argName := args\<rparr>)\<rparr>)) (funs st uf)) in
      if c = I_TOK_SYMBOL then
        (if length args \<ge> MAX_BUILTIN_PARAMS then Some (i_too_many_args st)
         else if i_len (curStrToken st) \<ge> MAXLEN_SYMBOL_LEN then Some (i_syntax_error st)
         else do {
           nm \<leftarrow> script_bytes st (curStrToken st);
           let args = args @ [nm];
           (c, st) \<leftarrow> i_next_token rec st;
           (if c = 41 then finish args st
            else do { (c, st) \<leftarrow> (if c = 44 then i_next_raw_token rec st else Some (c, st));
                      i_parse_var_list n rec uf c args st }) })
      else if c = 41 then finish args st
      else Some (i_syntax_error st))"

text \<open>The parameters are read in the scope of the new function.\<close>

definition func_def_args :: "recur \<Rightarrow> nat \<Rightarrow> i_t \<Rightarrow> (int \<times> int \<times> i_t) option" where
  "func_def_args rec uf st =
     do { (c, st) \<leftarrow> i_next_token rec st;
          (if c = 40 then
             do { let st = (i_fun_stack_push (curScope st) st)\<lparr>curScope := uf\<rparr>;
                  (c, st) \<leftarrow> i_next_raw_token rec st;
                  (n, st) \<leftarrow> i_parse_var_list (MAX_BUILTIN_PARAMS + 2) rec uf c [] st;
                  (scope, st) \<leftarrow> i_fun_stack_pop st;
                  let st = st\<lparr>curScope := scope\<rparr>;
                  (if n < 0 then Some (n, c, st) else do { (c, st) \<leftarrow> i_next_token rec st; Some (n, c, st) }) }
           else Some (0, c, st)) }"

definition i_parse_func_def :: "recur \<Rightarrow> i_t \<Rightarrow> answer" where
  "i_parse_func_def rec st =
     do { (err, nm, st) \<leftarrow>
            (if curFunName st = [] then
               do { (c, st) \<leftarrow> i_next_raw_token rec st;
                    (if c \<noteq> I_TOK_SYMBOL \<or> i_len (curStrToken st) \<ge> MAXLEN_SYMBOL_LEN then Some (I_ERR_SYNTAX, [], st)
                     else map_option (\<lambda>nm. (I_OK, nm, st)) (script_bytes st (curStrToken st))) }
             else Some (I_OK, curFunName st, st));
          (if err \<noteq> I_OK then Some (err, None, st)
           else do {
             let (uf, st) = Fun_new nm (Some (curScope st)) st;
             (n, c, st) \<leftarrow> func_def_args rec uf st;
             (if n < 0 then Some (n, None, st)
              else if c \<noteq> I_TOK_STRING then no_value (i_syntax_error st)
              else do {
                fn \<leftarrow> funs st uf;
                let st = st\<lparr>funs := (funs st)(uf \<mapsto> fn\<lparr>body := curStrToken st\<rparr>)\<rparr>;
                (s, st) \<leftarrow> i_define_symbol (curScope st) nm (UFUNC_TYPE + nat n * 256) (Fun uf) False st;
                (_, st) \<leftarrow> i_next_token rec (st\<lparr>curSym := s, curFunDef := Some uf\<rparr>);
                Some (I_OK, None, st) }) }) }"

definition i_parse_array_def :: "recur \<Rightarrow> i_t \<Rightarrow> answer" where
  "i_parse_array_def rec st =
     do { (c, st) \<leftarrow> i_next_raw_token rec st;
          (if c \<noteq> I_TOK_SYMBOL then no_value (i_syntax_error st)
           else do {
             nm \<leftarrow> script_bytes st (curStrToken st);
             (c, st) \<leftarrow> i_next_token rec st;
             (if c \<noteq> 40 then no_value (i_syntax_error st)
              else do {
                (err, len, st) \<leftarrow> i_parse_paren rec Local st;
                (if err \<noteq> I_OK then Some (err, None, st)
                 else do {
                   n \<leftarrow> len \<bind> number;
                   (if n < 0 then None
                    else do {
                      let a = fresh st;
                      let st = st\<lparr>arys := (arys st)(a \<mapsto> replicate (nat n) (Num 0)), fresh := a + 1\<rparr>;
                      (s, st) \<leftarrow> i_define_symbol (curScope st) nm ARRAY_TYPE (Ary a) False st;
                      let st = st\<lparr>tokenSymbol := s\<rparr>;
                      assign \<leftarrow> at_assign st;
                      (if assign then i_parse_array_assign rec (Ary a) 0 st else Some (I_OK, None, st)) }) }) }) }) }"

definition i_parse_array_set :: "recur \<Rightarrow> i_t \<Rightarrow> answer" where
  "i_parse_array_set rec st =
     do { let ary = tokenValue st;
          (c, st) \<leftarrow> i_next_token rec st;
          (err, ix, st) \<leftarrow> (if c = 40 then i_parse_paren rec Local st else Some (I_OK, Some (Num 0), st));
          (if err \<noteq> I_OK then Some (err, None, st)
           else do {
             assign \<leftarrow> at_assign st;
             ix \<leftarrow> ix \<bind> number;
             (if \<not> assign then no_value (i_syntax_error st) else i_parse_array_assign rec ary ix st) }) }"

text \<open>\<open>exit\<close> and \<open>return\<close> end the scope.\<close>

definition to_int32 :: "int \<Rightarrow> int" where "to_int32 v = (v + 2 ^ 31) mod 2 ^ 32 - 2 ^ 31"

definition end_scope :: "i_t \<Rightarrow> i_t" where
  "end_scope st = st\<lparr>parsePtr := (parsePtr st)\<lparr>i_len := 0\<rparr>, didReturn := True\<rparr>"

definition i_parse_exit :: "recur \<Rightarrow> i_t \<Rightarrow> (int \<times> i_t) option" where
  "i_parse_exit rec st =
     do { (_, st) \<leftarrow> i_next_token rec st;
          (_, _, st) \<leftarrow> rec (Call_expr Result) st;
          r \<leftarrow> number (funResult st);
          Some (I_ERR_EXIT, end_scope (st\<lparr>exitValue := to_int32 r\<rparr>)) }"

definition i_parse_return :: "recur \<Rightarrow> i_t \<Rightarrow> (int \<times> i_t) option" where
  "i_parse_return rec st =
     do { (_, st) \<leftarrow> i_next_token rec st;
          (err, _, st) \<leftarrow> rec (Call_expr Result) st;
          Some (err, end_scope st) }"

subsection \<open>Printing\<close>

text \<open>
  \<open>print ("text ${symbol} ${(expression)} ${%s, symbol}")\<close>, to the output or to \<open>stderr\<close>. The
  text is collected in a growable string, here the list of its bytes; what the formatter appends for a
  value and what the stream answers are outside. \<open>err\<close> is \<open>I_NOTOK\<close> until an expression was
  evaluated, and is returned as it is when the rest of the text is wrong.
\<close>

primrec read_sym :: "nat \<Rightarrow> byte list \<Rightarrow> int \<Rightarrow> i_t \<Rightarrow> (byte list option \<times> int \<times> i_t) option" where
  "read_sym 0 key prev st = None"
| "read_sym (Suc n) key prev st =
     do { (c, st) \<leftarrow> i_get_char st;
          (if c = -1 then Some (None, prev, st)
           else if length key \<ge> MAXLEN_SYMBOL_LEN then None
           else if c = 125 \<or> c = 0 then Some (Some key, prev, st)
           else read_sym n (key @ [word_of_int c]) c st) }"

definition print_directive :: "int \<Rightarrow> i_t \<Rightarrow> (int option \<times> i_t) option" where
  "print_directive c st =
     (if c \<noteq> 37 then map_option (Pair (Some 100)) (i_unget_char st)
      else do {
        (d, st) \<leftarrow> i_get_char st;
        (if d \<notin> {115, 112, 100, 111, 120} then Some (None, st)
         else do {
           p0 \<leftarrow> i_peek_char st 0;
           p1 \<leftarrow> (if p0 = 44 then Some 32 else i_peek_char st 1);
           (if p0 \<noteq> 44 \<and> p1 \<noteq> 32 then Some (None, st)
            else do { (_, st) \<leftarrow> i_get_char st; (_, st) \<leftarrow> i_get_char st; Some (Some d, st) }) }) })"

text \<open>A closing brace from where the expression was left back to behind its beginning.\<close>

definition brace_behind :: "i_t \<Rightarrow> nat \<Rightarrow> bool option" where
  "brace_behind st saved =
     (let p = i_ptr (parsePtr st) in
      if p < saved \<or> length (script st) < p then None
      else Some (list_ex (\<lambda>i. script_at st i = Some 125) [saved + 1..<p + 1]))"

definition print_dollar :: "recur \<Rightarrow> bool \<Rightarrow> int \<Rightarrow> byte list \<Rightarrow> i_t \<Rightarrow> answer" where
  "print_dollar rec fp err str st =
     do { (c, st) \<leftarrow> i_get_char st;
          (if c \<noteq> 123 then no_value (err, st)
           else do {
             (c, st) \<leftarrow> i_get_char st;
             (directive, st) \<leftarrow> print_directive c st;
             (case directive of
                None \<Rightarrow> no_value (err, st)
              | Some directive \<Rightarrow>
                  if c = 40 then
                    do { let saved = i_ptr (parsePtr st);
                         (_, st) \<leftarrow> i_next_token rec st;
                         (err, v, st) \<leftarrow> rec (Call_expr Local) st;
                         (if err \<noteq> I_OK then no_value (err, st)
                          else do {
                            v \<leftarrow> v;
                            closed \<leftarrow> brace_behind st saved;
                            (if \<not> closed then no_value (err, st)
                             else rec (Call_print_value fp directive v 36 err str) st) }) }
                  else
                    do { (key, prev, st) \<leftarrow> read_sym (MAXLEN_SYMBOL_LEN + 1) [] c st;
                         (case key of
                            None \<Rightarrow> no_value (err, st)
                          | Some key \<Rightarrow>
                              if key = [] then no_value (err, st)
                              else do {
                                symbol \<leftarrow> i_lookup_symbol key st;
                                (case symbol of
                                   None \<Rightarrow> no_value (err, st)
                                 | Some s \<Rightarrow>
                                     do { sy \<leftarrow> syms st s;
                                          rec (Call_print_value fp directive (sym_value sy) prev err str) st }) }) }) }) }"

text \<open>A backslash; the byte before the first one of the string is read when it is still empty.\<close>

definition print_backslash :: "int \<Rightarrow> byte list \<Rightarrow> i_t \<Rightarrow> (int \<times> int \<times> byte list \<times> i_t) option" where
  "print_backslash prev str st =
     do { p \<leftarrow> (if prev = 92 then Some 0 else i_peek_char st 1);
          (prev, str) \<leftarrow>
            (if prev = 92 \<or> p \<noteq> 36 then (if str = [] then None else Some (schar (last str), str @ [92]))
             else Some (92, str));
          (c, st) \<leftarrow> i_get_char st;
          Some (c, prev, str, st) }"

definition print_end :: "recur \<Rightarrow> bool \<Rightarrow> int \<Rightarrow> byte list \<Rightarrow> i_t \<Rightarrow> answer" where
  "print_end rec fp err str st =
     do { (c, st) \<leftarrow> i_get_char st;
          (if c \<noteq> 41 then no_value (err, st)
           else do {
             (r, _, st) \<leftarrow> rec (Call_print_bytes fp (takeWhile (\<lambda>b. b \<noteq> 0) str)) st;
             (if r = I_NOTOK then no_value (err, st)
              else do { (_, st) \<leftarrow> i_next_token rec st; no_value (I_OK, st) }) }) }"

text \<open>One turn of the loop; at the end of the text it goes on for ever.\<close>

definition print_turn :: "recur \<Rightarrow> bool \<Rightarrow> int \<Rightarrow> int \<Rightarrow> byte list \<Rightarrow> i_t \<Rightarrow> answer" where
  "print_turn rec fp prev err str st =
     do { (c, st) \<leftarrow> i_get_char st;
          (if c = 34 \<and> prev \<noteq> 92 then print_end rec fp err str st
           else do {
             (c, prev, str, st) \<leftarrow>
               (if c = 34 then map_option (\<lambda>(c, st). (c, 34, str @ [34], st)) (i_get_char st) else Some (c, prev, str, st));
             (c, prev, str, st) \<leftarrow> (if c = 92 then print_backslash prev str st else Some (c, prev, str, st));
             (if c = 36 \<and> prev = 92 then rec (Call_print fp 36 err (str @ [36])) st
              else if c = 36 then print_dollar rec fp err str st
              else rec (Call_print fp prev err (str @ [word_of_int c])) st) }) }"

definition i_parse_print :: "recur \<Rightarrow> i_t \<Rightarrow> (int \<times> i_t) option" where
  "i_parse_print rec st =
     do { (c, st) \<leftarrow> i_ignore_ws st;
          (if c \<noteq> 40 then Some (I_NOTOK, st)
           else do {
             (c, st) \<leftarrow> i_ignore_ws st;
             let fp = (c = 115 \<and> take 6 (drop (i_ptr (parsePtr st)) (script st)) = ascii ''tderr,'');
             (c, st) \<leftarrow> (if fp then i_ignore_ws ((i_ignore_next_char ^^ 6) st) else Some (c, st));
             (if c \<noteq> 34 then Some (I_NOTOK, st)
              else map_option (\<lambda>(r, _, st). (r, st)) (rec (Call_print fp 34 I_NOTOK []) st)) }) }"

definition call_handler :: "recur \<Rightarrow> handler \<Rightarrow> i_t \<Rightarrow> (int \<times> i_t) option" where
  "call_handler rec h st =
     (case h of
        H_if \<Rightarrow> i_parse_if rec st
      | H_ifnot \<Rightarrow> i_parse_ifnot rec st
      | H_while \<Rightarrow> i_parse_while rec st
      | H_func_def \<Rightarrow> map_option (\<lambda>(r, _, st). (r, st)) (rec Call_func_def st)
      | H_return \<Rightarrow> i_parse_return rec st
      | H_exit \<Rightarrow> i_parse_exit rec st
      | H_array_def \<Rightarrow> map_option (\<lambda>(r, _, st). (r, st)) (i_parse_array_def rec st)
      | H_print \<Rightarrow> i_parse_print rec st)"

text \<open>An assignment: \<open>=\<close> or an operator and \<open>=\<close>, then an expression, which a \<open>~\<close>
  in front of it inverts.\<close>

definition assign_op :: "int \<Rightarrow> int \<Rightarrow> int \<Rightarrow> int option" where
  "assign_op operator x v =
     (if operator = 43 then in_int 64 (x + v)
      else if operator = 45 then in_int 64 (x - v)
      else if operator = 47 then apply_op I_quot x v
      else if operator = 42 then in_int 64 (x * v)
      else if operator = 37 then apply_op I_mod x v
      else if operator = 124 then Some (x OR v)
      else Some (x AND v))"

primrec skip_blanks :: "nat \<Rightarrow> i_t \<Rightarrow> nat \<Rightarrow> nat option" where
  "skip_blanks 0 st p = None"
| "skip_blanks (Suc n) st p =
     do { c \<leftarrow> script_at st p; (if c = 32 then skip_blanks n st (p + 1) else Some p) }"

definition i_parse_assign :: "recur \<Rightarrow> i_t \<Rightarrow> (int \<times> i_t) option" where
  "i_parse_assign rec st =
     do { let symbol = tokenSymbol st;
          (_, st) \<leftarrow> i_next_token rec st;
          let ptr = i_ptr (curStrToken st);
          let len = i_len (curStrToken st);
          (if len = 0 then Some (i_syntax_error st)
           else do {
             operator \<leftarrow> script_at st ptr;
             c1 \<leftarrow> (if operator \<noteq> 61 then script_at st (ptr + 1) else Some 61);
             (if operator \<noteq> 61 \<and> (c1 \<noteq> 61 \<or> len > 2) then Some (i_syntax_error st)
              else (case symbol of
                 None \<Rightarrow> Some (i_unknown_symbol st)
               | Some s \<Rightarrow>
                   do { sy \<leftarrow> syms st s;
                        (if sym_const sy \<and> sym_value sy \<noteq> Num 0 then Some (i_syntax_error st)
                         else do {
                           p \<leftarrow> skip_blanks (length (script st) + 1) st (ptr + len);
                           c \<leftarrow> script_at st p;
                           let is_un = (c = 126);
                           (_, st) \<leftarrow> i_next_token rec st;
                           (_, st) \<leftarrow> (if is_un then i_next_token rec st else Some (0, st));
                           (err, v, st) \<leftarrow> rec (Call_expr Local) st;
                           (if err \<noteq> I_OK then Some (err, st)
                            else do {
                              v \<leftarrow> v;
                              v \<leftarrow> (if is_un then map_option (\<lambda>n. Num (NOT n)) (number v) else Some v);
                              sy \<leftarrow> syms st s;
                              (if operator = 61 then Some (I_OK, st\<lparr>syms := (syms st)(s \<mapsto> sy\<lparr>sym_value := v\<rparr>)\<rparr>)
                               else if operator \<in> {43, 45, 47, 42, 37, 124, 38} then
                                 do { x \<leftarrow> number (sym_value sy);
                                      y \<leftarrow> number v;
                                      z \<leftarrow> assign_op operator x y;
                                      Some (I_OK, st\<lparr>syms := (syms st)(s \<mapsto> sy\<lparr>sym_value := Num z\<rparr>)\<rparr>) }
                               else Some (i_syntax_error st)) }) }) })) }) }"

text \<open>After a \<open>return\<close> the rest of a statement is skipped.\<close>

function skip_stmt :: "i_t \<Rightarrow> i_t option" where
  "skip_stmt st =
     (case i_get_char st of None \<Rightarrow> None
      | Some (c, st') \<Rightarrow> if c \<ge> 0 \<and> c \<noteq> 10 \<and> c \<noteq> 59 \<and> c \<noteq> 125 then skip_stmt st' else Some st')"
  by pat_completeness auto
termination by (relation "measure (\<lambda>st. i_len (parsePtr st))") (auto dest!: i_get_char_len)

declare skip_stmt.simps [simp del]

definition no_else :: "int \<times> i_t \<Rightarrow> int \<times> i_t" where
  "no_else r = (if fst r = I_ERR_OK_ELSE then (I_OK, snd r) else r)"

definition i_parse_stmt :: "recur \<Rightarrow> i_t \<Rightarrow> (int \<times> i_t) option" where
  "i_parse_stmt rec st =
     (let c = curToken st in
      if didReturn st then
        do { st \<leftarrow> skip_stmt st; st \<leftarrow> i_unget_char st; (_, st) \<leftarrow> i_next_token rec st; Some (I_OK, st) }
      else if c = I_TOK_BREAK then
        Some (if at_loop st then (I_ERR_BREAK, st\<lparr>breaking := True\<rparr>) else i_syntax_error st)
      else if c = I_TOK_CONTINUE then
        Some (if at_loop st then (I_ERR_CONTINUE, st\<lparr>continuing := True\<rparr>) else i_syntax_error st)
      else if c = I_TOK_VARDEF \<or> c = I_TOK_CONSTDEF then
        do { let is_const = (c = I_TOK_CONSTDEF);
             (c, st) \<leftarrow> i_next_raw_token rec st;
             (if c \<noteq> I_TOK_SYMBOL \<or> i_len (curStrToken st) = 0 then Some (i_syntax_error st)
              else do {
                nm \<leftarrow> script_bytes st (curStrToken st);
                (s, st) \<leftarrow> i_define_var_symbol (curScope st) nm is_const st;
                let st = st\<lparr>tokenSymbol := s\<rparr>;
                (if s = None then Some (i_syntax_error st) else map_option no_else (i_parse_assign rec st)) }) }
      else if c = I_TOK_VAR then map_option no_else (i_parse_assign rec st)
      else if c = I_TOK_ARY then map_option (\<lambda>(r, _, st). no_else (r, st)) (i_parse_array_set rec st)
      else if c = I_TOK_BUILTIN \<or> c = int UFUNC_TYPE then map_option (\<lambda>(r, _, st). (r, st)) (i_parse_primary rec Local st)
      else (case tokenSymbol st of
          None \<Rightarrow> Some (i_syntax_error st)
        | Some s \<Rightarrow>
            (case tokenValue st of
               Handler h \<Rightarrow> map_option no_else (call_handler rec h st)
             | Num v \<Rightarrow> if v = 0 then Some (i_syntax_error st) else None
             | _ \<Rightarrow> None)))"

text \<open>One turn of the loop over the statements of a string; the parse pointer is put back at its end
  only when no statement failed.\<close>

definition run_statements :: "recur \<Rightarrow> istring \<Rightarrow> i_t \<Rightarrow> answer" where
  "run_statements rec savepc st =
     do { (c, st) \<leftarrow> i_next_token rec st;
          (if c = 10 \<or> c = 59 then
             rec (Call_statements savepc) (if c = 10 then st\<lparr>lineNum := lineNum st + 1\<rparr> else st)
           else if c < 0 then Some (I_OK, None, st\<lparr>parsePtr := savepc\<rparr>)
           else do {
             (r, st) \<leftarrow> i_parse_stmt rec st;
             (if r \<noteq> I_OK then Some (r, None, st)
              else
                let c = curToken st in
                if c = 10 \<or> c = 59 \<or> c < 0 then
                  rec (Call_statements savepc) (if c = 10 then st\<lparr>lineNum := lineNum st + 1\<rparr> else st)
                else no_value (i_syntax_error st)) }) }"

subsection \<open>The interpreter\<close>

text \<open>What is outside the interpreter: the functions of the client, the decoder of characters, what the
  formatter writes for a directive and a value, and what writing to a stream answers.\<close>

record outside =
  cfun :: "name \<Rightarrow> ival list \<Rightarrow> i_t \<Rightarrow> (ival \<times> i_t) option"
  code_at :: "byte list \<Rightarrow> (int \<times> nat) option"
  format_value :: "int \<Rightarrow> ival \<Rightarrow> i_t \<Rightarrow> byte list option"
  print_bytes :: "bool \<Rightarrow> byte list \<Rightarrow> int"

definition i_not :: "ival \<Rightarrow> ival option" where
  "i_not v = Some (case v of Num n \<Rightarrow> Num (truth (n = 0)) | _ \<Rightarrow> Num 0)"

definition i_bool :: "ival \<Rightarrow> ival option" where
  "i_bool v = Some (case v of Num n \<Rightarrow> Num (truth (n \<noteq> 0)) | _ \<Rightarrow> Num 1)"

definition call_cfun :: "outside \<Rightarrow> name \<Rightarrow> ival list \<Rightarrow> i_t \<Rightarrow> (ival \<times> i_t) option" where
  "call_cfun env nm args st =
     (if args = [] then None
      else if nm = ascii ''not'' then map_option (\<lambda>v. (v, st)) (i_not (hd args))
      else if nm = ascii ''bool'' then map_option (\<lambda>v. (v, st)) (i_bool (hd args))
      else cfun env nm args st)"

definition interp_body :: "outside \<Rightarrow> recur \<Rightarrow> call \<Rightarrow> i_t \<Rightarrow> answer" where
  "interp_body env rec call st =
     (case call of
        Call_expr d \<Rightarrow> i_parse_expr rec d st
      | Call_level n v \<Rightarrow> i_parse_expr_level rec n v st
      | Call_tighter n v \<Rightarrow> take_tighter rec n v st
      | Call_expr_list n \<Rightarrow> i_parse_expr_list rec n st
      | Call_array_assign a ix \<Rightarrow> i_parse_array_assign rec (Ary a) ix st
      | Call_func_def \<Rightarrow> i_parse_func_def rec st
      | Call_statements savepc \<Rightarrow> run_statements rec savepc st
      | Call_while savepc len \<Rightarrow> while_turn rec savepc len st
      | Call_cfun nm args \<Rightarrow> map_option (\<lambda>(v, st). (I_OK, Some v, st)) (call_cfun env nm args st)
      | Call_code_at bs \<Rightarrow> map_option (\<lambda>(c, len). (int len, Some (Num c), st)) (code_at env bs)
      | Call_print fp prev err str \<Rightarrow> print_turn rec fp prev err str st
      | Call_print_value fp directive v prev err str \<Rightarrow>
          do { bs \<leftarrow> format_value env directive v st; rec (Call_print fp prev err (str @ bs)) st }
      | Call_print_bytes fp str \<Rightarrow> Some (print_bytes env fp str, None, st\<lparr>printed := printed st @ [(fp, str)]\<rparr>))"

primrec interp :: "outside \<Rightarrow> nat \<Rightarrow> call \<Rightarrow> i_t \<Rightarrow> answer" where
  "interp env 0 call st = None"
| "interp env (Suc n) call st = interp_body env (interp env n) call st"

text \<open>
  A whole script. Functions keep pointers to their bodies in the scripts that were evaluated before, whose
  text the client keeps: a new script is put behind them, with its terminator. The strings made for
  arguments are released at its end.
\<close>

definition add_script :: "byte list \<Rightarrow> i_t \<Rightarrow> i_t" where
  "add_script buf st = st\<lparr>script := script st @ buf @ [0]\<rparr>"

definition i_eval_string :: "outside \<Rightarrow> nat \<Rightarrow> byte list \<Rightarrow> i_t \<Rightarrow> (int \<times> i_t) option" where
  "i_eval_string env n buf st =
     do { (r, st) \<leftarrow> i_parse_string (interp env n) \<lparr>i_ptr = length (script st), i_len = u32 (int (length buf))\<rparr> (add_script buf st);
          let st = st\<lparr>strs := fold (\<lambda>s m. m(s := None)) (malloced st) (strs st), malloced := []\<rparr>;
          Some (if r = I_ERR_EXIT then exitValue st else r, st) }"

end
