(* ===== verification/Imono.thy ===== *)
theory Imono
  imports Interp
begin

section \<open>The interpreter \<open>I\<close>: more calls never change an answer\<close>

text \<open>An answer approximates another one when it is that answer or none.\<close>

named_theorems approx_rules

definition approx :: "'a option \<Rightarrow> 'a option \<Rightarrow> bool" where
  "approx x y \<longleftrightarrow> x = None \<or> x = y"

lemma approxD: "approx x y \<Longrightarrow> x = Some a \<Longrightarrow> y = Some a"
  by (auto simp: approx_def)

lemma approx_refl [approx_rules]: "approx x x"
  by (simp add: approx_def)

lemma approx_bind [approx_rules]:
  "approx x y \<Longrightarrow> (\<And>a. approx (f a) (g a)) \<Longrightarrow> approx (Option.bind x f) (Option.bind y g)"
  unfolding approx_def by (cases x; cases y; force)

lemma approx_map [approx_rules]: "approx x y \<Longrightarrow> approx (map_option f x) (map_option f y)"
  by (auto simp: approx_def)

lemma approx_if [approx_rules]:
  "(P \<Longrightarrow> approx a a') \<Longrightarrow> (\<not> P \<Longrightarrow> approx b b') \<Longrightarrow> approx (if P then a else b) (if P then a' else b')"
  by simp

lemma approx_prod [approx_rules]:
  "(\<And>a b. approx (f a b) (g a b)) \<Longrightarrow> approx (case_prod f p) (case_prod g p)"
  by (cases p) simp

lemma approx_option [approx_rules]:
  "approx a a' \<Longrightarrow> (\<And>x. approx (f x) (g x)) \<Longrightarrow> approx (case_option a f p) (case_option a' g p)"
  by (cases p) simp_all

lemma approx_let [approx_rules]:
  "(\<And>x. approx (f x) (g x)) \<Longrightarrow> approx (Let a f) (Let a g)"
  by simp

lemma approx_ival [approx_rules]:
  "(\<And>x. approx (f1 x) (g1 x)) \<Longrightarrow> (\<And>x. approx (f2 x) (g2 x)) \<Longrightarrow> (\<And>x. approx (f3 x) (g3 x)) \<Longrightarrow>
   (\<And>x. approx (f4 x) (g4 x)) \<Longrightarrow> (\<And>x. approx (f5 x) (g5 x)) \<Longrightarrow> (\<And>x. approx (f6 x) (g6 x)) \<Longrightarrow>
   (\<And>x. approx (f7 x) (g7 x)) \<Longrightarrow>
   approx (case_ival f1 f2 f3 f4 f5 f6 f7 v) (case_ival g1 g2 g3 g4 g5 g6 g7 v)"
  by (cases v) simp_all

lemma approx_handler [approx_rules]:
  "approx a1 b1 \<Longrightarrow> approx a2 b2 \<Longrightarrow> approx a3 b3 \<Longrightarrow> approx a4 b4 \<Longrightarrow> approx a5 b5 \<Longrightarrow> approx a6 b6 \<Longrightarrow>
   approx a7 b7 \<Longrightarrow> approx a8 b8 \<Longrightarrow> approx (case_handler a1 a2 a3 a4 a5 a6 a7 a8 h) (case_handler b1 b2 b3 b4 b5 b6 b7 b8 h)"
  by (cases h) simp_all

subsection \<open>Every function keeps the order\<close>

lemma approx_lambda [approx_rules]:
  assumes r: "\<And>c st. approx (r c st) (r' c st)"
  shows "approx (i_lambda r st) (i_lambda r' st)"
  unfolding i_lambda_def by (rule r approx_rules)+

lemma approx_word [approx_rules]:
  assumes r: "\<And>c st. approx (r c st) (r' c st)"
  shows "approx (tok_word r israw st) (tok_word r' israw st)"
  unfolding tok_word_def by (rule r approx_rules)+

lemma approx_do_next_token [approx_rules]:
  assumes r: "\<And>c st. approx (r c st) (r' c st)"
  shows "approx (i_do_next_token r israw st) (i_do_next_token r' israw st)"
  unfolding i_do_next_token_def by (rule r approx_rules)+

lemma approx_next_token [approx_rules]:
  assumes r: "\<And>c st. approx (r c st) (r' c st)"
  shows "approx (i_next_token r st) (i_next_token r' st)"
  unfolding i_next_token_def by (rule r approx_rules)+

lemma approx_next_raw_token [approx_rules]:
  assumes r: "\<And>c st. approx (r c st) (r' c st)"
  shows "approx (i_next_raw_token r st) (i_next_raw_token r' st)"
  unfolding i_next_raw_token_def by (rule r approx_rules)+

lemma approx_parse_char [approx_rules]:
  assumes r: "\<And>c st. approx (r c st) (r' c st)"
  shows "approx (i_parse_char r token st) (i_parse_char r' token st)"
  unfolding i_parse_char_def by (rule r approx_rules)+

lemma approx_parse_string [approx_rules]:
  assumes r: "\<And>c st. approx (r c st) (r' c st)"
  shows "approx (i_parse_string r str st) (i_parse_string r' str st)"
  unfolding i_parse_string_def by (rule r approx_rules)+

lemma approx_call_user [approx_rules]:
  assumes r: "\<And>c st. approx (r c st) (r' c st)"
  shows "approx (call_user r uf n st) (call_user r' uf n st)"
  unfolding call_user_def by (rule r approx_rules)+

lemma approx_func_call [approx_rules]:
  assumes r: "\<And>c st. approx (r c st) (r' c st)"
  shows "approx (i_parse_func_call r opf uf st) (i_parse_func_call r' opf uf st)"
  unfolding i_parse_func_call_def by (rule r approx_rules)+

lemma approx_array_assign [approx_rules]:
  assumes r: "\<And>c st. approx (r c st) (r' c st)"
  shows "approx (i_parse_array_assign r a ix st) (i_parse_array_assign r' a ix st)"
  unfolding i_parse_array_assign_def by (rule r approx_rules)+

lemma approx_paren [approx_rules]:
  assumes r: "\<And>c st. approx (r c st) (r' c st)"
  shows "approx (i_parse_paren r d st) (i_parse_paren r' d st)"
  unfolding i_parse_paren_def by (rule r approx_rules)+

lemma approx_array_get [approx_rules]:
  assumes r: "\<And>c st. approx (r c st) (r' c st)"
  shows "approx (i_parse_array_get r st) (i_parse_array_get r' st)"
  unfolding i_parse_array_get_def by (rule r approx_rules)+

lemma approx_primary_value [approx_rules]:
  assumes r: "\<And>c st. approx (r c st) (r' c st)"
  shows "approx (primary_value r d st) (primary_value r' d st)"
  unfolding primary_value_def by (rule r approx_rules)+

lemma approx_primary [approx_rules]:
  assumes r: "\<And>c st. approx (r c st) (r' c st)"
  shows "approx (i_parse_primary r d st) (i_parse_primary r' d st)"
  unfolding i_parse_primary_def by (rule r approx_rules)+

lemma approx_take_tighter [approx_rules]:
  assumes r: "\<And>c st. approx (r c st) (r' c st)"
  shows "approx (take_tighter r l v st) (take_tighter r' l v st)"
  unfolding take_tighter_def by (rule r approx_rules)+

lemma approx_expr_level [approx_rules]:
  assumes r: "\<And>c st. approx (r c st) (r' c st)"
  shows "approx (i_parse_expr_level r l v st) (i_parse_expr_level r' l v st)"
  unfolding i_parse_expr_level_def by (rule r approx_rules)+

lemma approx_expr [approx_rules]:
  assumes r: "\<And>c st. approx (r c st) (r' c st)"
  shows "approx (i_parse_expr r d st) (i_parse_expr r' d st)"
  unfolding i_parse_expr_def by (rule r approx_rules)+

lemma approx_expr_list [approx_rules]:
  assumes r: "\<And>c st. approx (r c st) (r' c st)"
  shows "approx (i_parse_expr_list r n st) (i_parse_expr_list r' n st)"
  unfolding i_parse_expr_list_def by (rule r approx_rules)+

lemma approx_if_rout [approx_rules]:
  assumes r: "\<And>c st. approx (r c st) (r' c st)"
  shows "approx (i_parse_if_rout r st) (i_parse_if_rout r' st)"
  unfolding i_parse_if_rout_def by (rule r approx_rules)+

lemma approx_run_branch [approx_rules]:
  assumes r: "\<And>c st. approx (r c st) (r' c st)"
  shows "approx (run_branch r b p e st) (run_branch r' b p e st)"
  unfolding run_branch_def by (rule r approx_rules)+

lemma approx_parse_if [approx_rules]:
  assumes r: "\<And>c st. approx (r c st) (r' c st)"
  shows "approx (i_parse_if r st) (i_parse_if r' st)"
  unfolding i_parse_if_def by (rule r approx_rules)+

lemma approx_parse_ifnot [approx_rules]:
  assumes r: "\<And>c st. approx (r c st) (r' c st)"
  shows "approx (i_parse_ifnot r st) (i_parse_ifnot r' st)"
  unfolding i_parse_ifnot_def by (rule r approx_rules)+

lemma approx_while_turn [approx_rules]:
  assumes r: "\<And>c st. approx (r c st) (r' c st)"
  shows "approx (while_turn r p n st) (while_turn r' p n st)"
  unfolding while_turn_def by (rule r approx_rules)+

lemma approx_parse_while [approx_rules]:
  assumes r: "\<And>c st. approx (r c st) (r' c st)"
  shows "approx (i_parse_while r st) (i_parse_while r' st)"
  unfolding i_parse_while_def by (rule r approx_rules)+

lemma approx_var_list [approx_rules]:
  assumes r: "\<And>c st. approx (r c st) (r' c st)"
  shows "approx (i_parse_var_list n r uf c args st) (i_parse_var_list n r' uf c args st)"
  proof (induction n arbitrary: c args st)
  case 0
  show ?case by (simp add: approx_def)
next
  case (Suc n)
  show ?case unfolding i_parse_var_list.simps by (rule r Suc.IH approx_rules)+
qed

lemma approx_func_def_args [approx_rules]:
  assumes r: "\<And>c st. approx (r c st) (r' c st)"
  shows "approx (func_def_args r uf st) (func_def_args r' uf st)"
  unfolding func_def_args_def by (rule r approx_rules)+

lemma approx_func_def [approx_rules]:
  assumes r: "\<And>c st. approx (r c st) (r' c st)"
  shows "approx (i_parse_func_def r st) (i_parse_func_def r' st)"
  unfolding i_parse_func_def_def by (rule r approx_rules)+

lemma approx_array_def [approx_rules]:
  assumes r: "\<And>c st. approx (r c st) (r' c st)"
  shows "approx (i_parse_array_def r st) (i_parse_array_def r' st)"
  unfolding i_parse_array_def_def by (rule r approx_rules)+

lemma approx_array_set [approx_rules]:
  assumes r: "\<And>c st. approx (r c st) (r' c st)"
  shows "approx (i_parse_array_set r st) (i_parse_array_set r' st)"
  unfolding i_parse_array_set_def by (rule r approx_rules)+

lemma approx_exit [approx_rules]:
  assumes r: "\<And>c st. approx (r c st) (r' c st)"
  shows "approx (i_parse_exit r st) (i_parse_exit r' st)"
  unfolding i_parse_exit_def by (rule r approx_rules)+

lemma approx_return [approx_rules]:
  assumes r: "\<And>c st. approx (r c st) (r' c st)"
  shows "approx (i_parse_return r st) (i_parse_return r' st)"
  unfolding i_parse_return_def by (rule r approx_rules)+

lemma approx_print_dollar [approx_rules]:
  assumes r: "\<And>c st. approx (r c st) (r' c st)"
  shows "approx (print_dollar r fp err str st) (print_dollar r' fp err str st)"
  unfolding print_dollar_def by (rule r approx_rules)+

lemma approx_print_end [approx_rules]:
  assumes r: "\<And>c st. approx (r c st) (r' c st)"
  shows "approx (print_end r fp err str st) (print_end r' fp err str st)"
  unfolding print_end_def by (rule r approx_rules)+

lemma approx_print_turn [approx_rules]:
  assumes r: "\<And>c st. approx (r c st) (r' c st)"
  shows "approx (print_turn r fp prev err str st) (print_turn r' fp prev err str st)"
  unfolding print_turn_def by (rule r approx_rules)+

lemma approx_parse_print [approx_rules]:
  assumes r: "\<And>c st. approx (r c st) (r' c st)"
  shows "approx (i_parse_print r st) (i_parse_print r' st)"
  unfolding i_parse_print_def by (rule r approx_rules)+

lemma approx_call_handler [approx_rules]:
  assumes r: "\<And>c st. approx (r c st) (r' c st)"
  shows "approx (call_handler r h st) (call_handler r' h st)"
  unfolding call_handler_def by (rule r approx_rules)+

lemma approx_assign [approx_rules]:
  assumes r: "\<And>c st. approx (r c st) (r' c st)"
  shows "approx (i_parse_assign r st) (i_parse_assign r' st)"
  unfolding i_parse_assign_def by (rule r approx_rules)+

lemma approx_stmt [approx_rules]:
  assumes r: "\<And>c st. approx (r c st) (r' c st)"
  shows "approx (i_parse_stmt r st) (i_parse_stmt r' st)"
  unfolding i_parse_stmt_def by (rule r approx_rules)+

lemma approx_run_statements [approx_rules]:
  assumes r: "\<And>c st. approx (r c st) (r' c st)"
  shows "approx (run_statements r p st) (run_statements r' p st)"
  unfolding run_statements_def by (rule r approx_rules)+

lemma approx_interp_body:
  assumes r: "\<And>c st. approx (r c st) (r' c st)"
  shows "approx (interp_body env r c st) (interp_body env r' c st)"
  unfolding interp_body_def by (cases c; simp only: call.simps; (rule r approx_rules)+)

lemma approx_interp_Suc: "approx (interp env n c st) (interp env (Suc n) c st)"
proof (induction n arbitrary: c st)
  case 0
  show ?case by (simp add: approx_def)
next
  case (Suc n)
  show ?case
    by (subst interp.simps(2), subst interp.simps(2)) (rule approx_interp_body, rule Suc.IH)
qed

lemma approx_interp: "n \<le> m \<Longrightarrow> approx (interp env n c st) (interp env m c st)"
proof (induction m rule: dec_induct)
  case base
  show ?case by (rule approx_refl)
next
  case (step m)
  with approx_interp_Suc[of env m c st] show ?case
    unfolding approx_def by metis
qed

end
