(* ===== verification/Istart.thy ===== *)
theory Istart
  imports Interp
begin

section \<open>The interpreter \<open>I\<close>: a new instance and its scripts\<close>

text \<open>The names an instance begins with (\<open>idefs[]\<close>, \<open>i_def_funs[]\<close>).\<close>

definition binop :: "nat \<Rightarrow> opfunc \<Rightarrow> nat \<times> ival" where "binop level op = (BINOP level, Op op)"

definition idefs :: "(string \<times> nat \<times> ival) list" where
  "idefs =
     [(''var'', nat I_TOK_VARDEF, Num 0), (''const'', nat I_TOK_CONSTDEF, Num 0), (''else'', nat I_TOK_ELSE, Num 0),
      (''break'', nat I_TOK_BREAK, Num 0), (''continue'', nat I_TOK_CONTINUE, Num 0), (''if'', nat I_TOK_IF, Handler H_if),
      (''ifnot'', nat I_TOK_IFNOT, Handler H_ifnot), (''while'', nat I_TOK_WHILE, Handler H_while),
      (''print'', nat I_TOK_PRINT, Handler H_print), (''func'', nat I_TOK_FUNCDEF, Handler H_func_def),
      (''return'', nat I_TOK_RETURN, Handler H_return), (''exit'', nat I_TOK_EXIT, Handler H_exit),
      (''true'', INT_TYPE, Num 1), (''false'', INT_TYPE, Num 0), (''OK'', INT_TYPE, Num 0), (''NOTOK'', INT_TYPE, Num (-1)),
      (''array'', nat I_TOK_ARYDEF, Handler H_array_def),
      (''*'', binop 1 I_prod), (''/'', binop 1 I_quot), (''%'', binop 1 I_mod), (''+'', binop 2 I_sum), (''-'', binop 2 I_diff),
      (''&'', binop 3 I_bitand), (''|'', binop 3 I_bitor), (''^'', binop 3 I_bitxor), (''>>'', binop 3 I_shr),
      (''<<'', binop 3 I_shl), (''=='', binop 4 I_equals), (''is'', binop 4 I_equals), (''!='', binop 4 I_ne),
      (''isnot'', binop 4 I_ne), (''<'', binop 4 I_lt), (''lt'', binop 4 I_lt), (''<='', binop 4 I_le), (''le'', binop 4 I_le),
      (''>'', binop 4 I_gt), (''gt'', binop 4 I_gt), (''>='', binop 4 I_ge), (''ge'', binop 4 I_ge),
      (''&&'', binop 5 I_logical_and), (''and'', binop 5 I_logical_and), (''||'', binop 5 I_logical_or),
      (''or'', binop 5 I_logical_or)]"

definition i_def_funs :: "(string \<times> nat) list" where
  "i_def_funs =
     [(''not'', 1), (''bool'', 1), (''free'', 1), (''alloc'', 1), (''realloc'', 2), (''cstring_cp'', 4), (''cstring_eq'', 2),
      (''cstring_new'', 1), (''cstring_dup'', 2), (''cstring_cat'', 3), (''cstring_eq_n'', 3), (''cstring_cmp_n'', 3),
      (''cstring_substr'', 5), (''cstring_bytelen'', 1), (''cstring_byte_mv'', 5), (''cstring_byte_cp'', 3),
      (''cstring_new_with'', 1), (''cstring_trim_end'', 2), (''cstring_byte_cp_all'', 3), (''cstring_byte_in_str'', 2),
      (''cstring_bytes_in_str'', 2), (''cstring_byte_in_str_r'', 2), (''cstring_byte_null_in_str'', 1)]"

definition i_define :: "name \<Rightarrow> nat \<Rightarrow> ival \<Rightarrow> i_t \<Rightarrow> i_t option" where
  "i_define nm typ v st = map_option snd (i_define_symbol (global_fun st) nm typ v False st)"

text \<open>The memory of an instance before \<open>i_init\<close>: \<open>Alloc\<close> clears it.\<close>

definition i_new :: i_t where
  "i_new =
     \<lparr>script = [], funs = (\<lambda>_. None), syms = (\<lambda>_. None), arys = (\<lambda>_. None), strs = (\<lambda>_. None), fresh = 0,
      global_fun = 0, curScope = 0, funstack = [], symbolstack = [], refcount = (\<lambda>_. 0), curFunName = [],
      curFunDef = None, curSym = None, in_args = False, at_loop = False, breaking = False, continuing = False,
      exitValue = I_OK, lineNum = 0, curToken = 0, tokenArgs = 0, didReturn = False,
      curStrToken = \<lparr>i_ptr = 0, i_len = 0\<rparr>, parsePtr = \<lparr>i_ptr = 0, i_len = 0\<rparr>, malloced = [],
      funResult = Num 0, tokenValue = Num 0, funArgs = replicate MAX_BUILTIN_PARAMS (Num 0), stack = [], tokenSymbol = None, printed = []\<rparr>"

primrec define_all :: "(string \<times> nat \<times> ival) list \<Rightarrow> i_t \<Rightarrow> i_t option" where
  "define_all [] st = Some st"
| "define_all (d # ds) st =
     (case d of (nm, typ, v) \<Rightarrow> i_define (ascii nm) typ v st \<bind> define_all ds)"

definition i_init :: "i_t option" where
  "i_init =
     do { st \<leftarrow> define_all idefs (snd (Fun_new (ascii ''global'') None i_new));
          define_all (map (\<lambda>(nm, n). (nm, CFUNC n, Cfun (ascii nm))) i_def_funs) st }"

definition no_client :: outside where
  "no_client = \<lparr>cfun = (\<lambda>_ _ _. None), code_at = (\<lambda>_. None), format_value = (\<lambda>_ _ _. None), print_bytes = (\<lambda>_ _. 0)\<rparr>"

text \<open>
  A small instance: three operators, a variable \<open>x\<close> and a constant \<open>c\<close>, which is 5.
\<close>

definition small_instance :: "byte list \<Rightarrow> i_t" where
  "small_instance buf = i_new
     \<lparr>funs := [0 \<mapsto> (fun_new [103] None)\<lparr>symbols := Some [([42], 1, False), ([43], 2, False), ([60], 3, False),
        ([120], 4, False), ([99], 5, True)]\<rparr>],
      syms := [1 \<mapsto> \<lparr>sym_type = BINOP 1, sym_const = False, sym_value = Op I_prod\<rparr>,
               2 \<mapsto> \<lparr>sym_type = BINOP 2, sym_const = False, sym_value = Op I_sum\<rparr>,
               3 \<mapsto> \<lparr>sym_type = BINOP 4, sym_const = False, sym_value = Op I_lt\<rparr>,
               4 \<mapsto> \<lparr>sym_type = INT_TYPE, sym_const = False, sym_value = Num 0\<rparr>,
               5 \<mapsto> \<lparr>sym_type = INT_TYPE, sym_const = True, sym_value = Num 5\<rparr>], fresh := 6,
      script := buf, parsePtr := \<lparr>i_ptr = 0, i_len = length buf\<rparr>\<rparr>"

text \<open>
  The message \<open>i_eval_file\<close> prints for what \<open>i_eval_string\<close> returned: an index into a table of
  five; outside the table is \<open>None\<close>.
\<close>

definition err_msg :: "string list" where
  "err_msg = [''NO MEMORY'', ''SYNTAX ERROR'', ''UNKNOWN SYMBOL'', ''BAD ARGUMENTS'', ''TOO MANY ARGUMENTS'']"

definition eval_file_message :: "int \<Rightarrow> string option option" where
  "eval_file_message r =
     (if r = I_OK then Some None
      else if 0 \<le> - r - 2 \<and> - r - 2 < int (length err_msg) then Some (Some (err_msg ! nat (- r - 2))) else None)"

text \<open>An index out of bounds, an exit value and a stray \<open>break\<close> have no message.\<close>

lemma eval_file_message_outside:
  "eval_file_message I_ERR_OUTOFBOUNDS = None" "eval_file_message I_ERR_BREAK = None"
  "0 < r \<Longrightarrow> eval_file_message r = None" "eval_file_message I_NOTOK = None"
  by (simp_all add: eval_file_message_def err_msg_def)

end
