(* ===== verification/Iexpr.thy ===== *)
theory Iexpr
  imports Imono Istart
begin

section \<open>The interpreter \<open>I\<close>: what an expression means\<close>












subsection \<open>Reading an expression first\<close>















end
