(* ===== verification/Ikeeps.thy ===== *)
theory Ikeeps
  imports Istart
begin

section \<open>The interpreter \<open>I\<close>: what no script can change\<close>

text \<open>
  The invariant of the state: the arguments have their nine places, a function has as many parameters
  as names and at most nine of them, objects are numbered below \<open>fresh\<close>, and a function lies in the scope of
  one that was made before it.
\<close>

definition wf_fun :: "funT \<Rightarrow> bool" where
  "wf_fun fn \<longleftrightarrow> nargs fn = length (argName fn) \<and> nargs fn \<le> MAX_BUILTIN_PARAMS"

definition wf_state :: "i_t \<Rightarrow> bool" where
  "wf_state st \<longleftrightarrow>
     length (funArgs st) = MAX_BUILTIN_PARAMS \<and>
     (\<forall>f fn. funs st f = Some fn \<longrightarrow> f < fresh st \<and> wf_fun fn) \<and>
     (\<forall>f fn g. funs st f = Some fn \<longrightarrow> prev_fun fn = Some g \<longrightarrow> g < f) \<and>
     curScope st < fresh st \<and> (\<forall>f \<in> set (funstack st). f < fresh st) \<and>
     (\<forall>s. fresh st \<le> s \<longrightarrow> syms st s = None) \<and> (\<forall>a. fresh st \<le> a \<longrightarrow> arys st a = None)"

text \<open>
  What may happen to the objects a state has: a symbol keeps its type and its constant flag, and its value
  too when it is a constant that is not zero; an array keeps its length; a function its name and the scope
  around it. An object may be released, but it does not come back.
\<close>

definition same_symbol :: "sym_t \<Rightarrow> sym_t \<Rightarrow> bool" where
  "same_symbol sy sy' \<longleftrightarrow> sym_type sy' = sym_type sy \<and> sym_const sy' = sym_const sy \<and>
     (sym_const sy \<and> sym_value sy \<noteq> Num 0 \<longrightarrow> sym_value sy' = sym_value sy)"

definition evolves :: "i_t \<Rightarrow> i_t \<Rightarrow> bool" where
  "evolves st st' \<longleftrightarrow>
     fresh st \<le> fresh st' \<and>
     (\<forall>s sy'. s < fresh st \<longrightarrow> syms st' s = Some sy' \<longrightarrow> (\<exists>sy. syms st s = Some sy \<and> same_symbol sy sy')) \<and>
     (\<forall>a xs'. a < fresh st \<longrightarrow> arys st' a = Some xs' \<longrightarrow> (\<exists>xs. arys st a = Some xs \<and> length xs' = length xs)) \<and>
     (\<forall>f fn'. f < fresh st \<longrightarrow> funs st' f = Some fn' \<longrightarrow>
        (\<exists>fn. funs st f = Some fn \<and> funname fn' = funname fn \<and> prev_fun fn' = prev_fun fn))"

definition grows :: "i_t \<Rightarrow> i_t \<Rightarrow> bool" where
  "grows st st' \<longleftrightarrow> wf_state st' \<and> evolves st st'"

lemma same_symbol_refl [simp]: "same_symbol sy sy"
  by (simp add: same_symbol_def)

lemma same_symbol_trans: "same_symbol a b \<Longrightarrow> same_symbol b c \<Longrightarrow> same_symbol a c"
  by (auto simp: same_symbol_def)

lemma evolves_refl: "evolves st st"
  by (auto simp: evolves_def)

lemma evolves_trans:
  assumes ab: "evolves a b" and bc: "evolves b c"
  shows "evolves a c"
proof -
  have f: "fresh a \<le> fresh b" "fresh b \<le> fresh c" using ab bc by (simp_all add: evolves_def)
  show ?thesis
    unfolding evolves_def
  proof (intro conjI allI impI)
    show "fresh a \<le> fresh c" using f by simp
  next
    fix s sy' assume s: "s < fresh a" "syms c s = Some sy'"
    with bc f obtain sy where "syms b s = Some sy" "same_symbol sy sy'" unfolding evolves_def by (metis less_le_trans)
    with ab s show "\<exists>sy. syms a s = Some sy \<and> same_symbol sy sy'" unfolding evolves_def by (metis same_symbol_trans)
  next
    fix x xs' assume x: "x < fresh a" "arys c x = Some xs'"
    with bc f obtain xs where "arys b x = Some xs" "length xs' = length xs" unfolding evolves_def by (metis less_le_trans)
    with ab x show "\<exists>xs. arys a x = Some xs \<and> length xs' = length xs" unfolding evolves_def by metis
  next
    fix g fn' assume g: "g < fresh a" "funs c g = Some fn'"
    with bc f obtain fn where "funs b g = Some fn" "funname fn' = funname fn \<and> prev_fun fn' = prev_fun fn"
      unfolding evolves_def by (metis less_le_trans)
    with ab g show "\<exists>fn. funs a g = Some fn \<and> funname fn' = funname fn \<and> prev_fun fn' = prev_fun fn"
      unfolding evolves_def by metis
  qed
qed

subsection \<open>Every answer of a computation\<close>

named_theorems gives_rules

definition gives :: "('a \<Rightarrow> bool) \<Rightarrow> 'a option \<Rightarrow> bool" where
  "gives P m \<longleftrightarrow> (\<forall>a. m = Some a \<longrightarrow> P a)"

lemma givesI: "(\<And>a. m = Some a \<Longrightarrow> P a) \<Longrightarrow> gives P m"
  by (simp add: gives_def)

lemma givesD: "gives P m \<Longrightarrow> m = Some a \<Longrightarrow> P a"
  by (simp add: gives_def)

lemma gives_None [gives_rules]: "gives P None"
  by (simp add: gives_def)

lemma gives_Some [gives_rules]: "P a \<Longrightarrow> gives P (Some a)"
  by (simp add: gives_def)

lemma gives_bind [gives_rules]: "gives (\<lambda>a. gives P (f a)) m \<Longrightarrow> gives P (Option.bind m f)"
  by (auto simp: gives_def bind_eq_Some_conv)

lemma gives_map [gives_rules]: "gives (\<lambda>a. P (f a)) m \<Longrightarrow> gives P (map_option f m)"
  by (auto simp: gives_def)

lemma gives_if [gives_rules]:
  "(b \<Longrightarrow> gives P x) \<Longrightarrow> (\<not> b \<Longrightarrow> gives P y) \<Longrightarrow> gives P (if b then x else y)"
  by simp

lemma gives_let [gives_rules]: "gives P (f a) \<Longrightarrow> gives P (Let a f)"
  by simp

lemma gives_pair [gives_rules]: "gives P (f a b) \<Longrightarrow> gives P (case_prod f (a, b))"
  by simp

lemma gives_option [gives_rules]:
  "(p = None \<Longrightarrow> gives P a) \<Longrightarrow> (\<And>x. p = Some x \<Longrightarrow> gives P (f x)) \<Longrightarrow> gives P (case_option a f p)"
  by (cases p) simp_all

lemma gives_ival [gives_rules]:
  "(\<And>x. v = Num x \<Longrightarrow> gives P (f1 x)) \<Longrightarrow> (\<And>x. v = Handler x \<Longrightarrow> gives P (f2 x)) \<Longrightarrow>
   (\<And>x. v = Op x \<Longrightarrow> gives P (f3 x)) \<Longrightarrow> (\<And>x. v = Cfun x \<Longrightarrow> gives P (f4 x)) \<Longrightarrow> (\<And>x. v = Fun x \<Longrightarrow> gives P (f5 x)) \<Longrightarrow>
   (\<And>x. v = Ary x \<Longrightarrow> gives P (f6 x)) \<Longrightarrow> (\<And>x. v = Str x \<Longrightarrow> gives P (f7 x)) \<Longrightarrow> gives P (case_ival f1 f2 f3 f4 f5 f6 f7 v)"
  by (cases v) simp_all

lemma gives_handler [gives_rules]:
  "gives P a1 \<Longrightarrow> gives P a2 \<Longrightarrow> gives P a3 \<Longrightarrow> gives P a4 \<Longrightarrow> gives P a5 \<Longrightarrow> gives P a6 \<Longrightarrow> gives P a7 \<Longrightarrow> gives P a8 \<Longrightarrow>
   gives P (case_handler a1 a2 a3 a4 a5 a6 a7 a8 h)"
  by (cases h) simp_all

text \<open>A property of the answer that only looks through pairs.\<close>

lemma post_pair [gives_rules]: "P a b \<Longrightarrow> case_prod P (a, b)"
  by simp

subsection \<open>Changes of the state that touch no object\<close>

lemma grows_refl: "wf_state st \<Longrightarrow> grows st st"
  by (simp add: grows_def evolves_refl)

lemma grows_trans: "grows a b \<Longrightarrow> grows b c \<Longrightarrow> grows a c"
  by (auto simp: grows_def intro: evolves_trans)

lemma grows_cong:
  "grows s st \<Longrightarrow> fresh st' = fresh st \<Longrightarrow> syms st' = syms st \<Longrightarrow> arys st' = arys st \<Longrightarrow> funs st' = funs st \<Longrightarrow>
   length (funArgs st') = length (funArgs st) \<Longrightarrow> curScope st' = curScope st \<Longrightarrow> funstack st' = funstack st \<Longrightarrow> grows s st'"
  by (simp only: grows_def evolves_def wf_state_def) (elim conjE, intro conjI TrueI refl; assumption)

lemma grows_update [gives_rules]:
  "grows s st \<Longrightarrow> grows s (script_update f1 st)"
  "grows s st \<Longrightarrow> grows s (strs_update f2 st)"
  "grows s st \<Longrightarrow> grows s (global_fun_update f3 st)"
  "grows s st \<Longrightarrow> grows s (symbolstack_update f6 st)"
  "grows s st \<Longrightarrow> grows s (refcount_update f7 st)"
  "grows s st \<Longrightarrow> grows s (curFunName_update f8 st)"
  "grows s st \<Longrightarrow> grows s (curFunDef_update f9 st)"
  "grows s st \<Longrightarrow> grows s (curSym_update f10 st)"
  "grows s st \<Longrightarrow> grows s (in_args_update f11 st)"
  "grows s st \<Longrightarrow> grows s (at_loop_update f11 st)"
  "grows s st \<Longrightarrow> grows s (breaking_update f11 st)"
  "grows s st \<Longrightarrow> grows s (continuing_update f11 st)"
  "grows s st \<Longrightarrow> grows s (exitValue_update f12 st)"
  "grows s st \<Longrightarrow> grows s (lineNum_update f13 st)"
  "grows s st \<Longrightarrow> grows s (curToken_update f12 st)"
  "grows s st \<Longrightarrow> grows s (tokenArgs_update f13 st)"
  "grows s st \<Longrightarrow> grows s (didReturn_update f11 st)"
  "grows s st \<Longrightarrow> grows s (curStrToken_update f14 st)"
  "grows s st \<Longrightarrow> grows s (parsePtr_update f14 st)"
  "grows s st \<Longrightarrow> grows s (malloced_update f5 st)"
  "grows s st \<Longrightarrow> grows s (funResult_update f15 st)"
  "grows s st \<Longrightarrow> grows s (tokenValue_update f15 st)"
  "grows s st \<Longrightarrow> grows s (stack_update f16 st)"
  "grows s st \<Longrightarrow> grows s (tokenSymbol_update f10 st)"
  "grows s st \<Longrightarrow> grows s (printed_update f17 st)"
  "grows s st \<Longrightarrow> grows s (funArgs_update (\<lambda>_. (funArgs st)[n := v]) st)"
  by (erule grows_cong; simp)+

lemma grows_scope [gives_rules]:
  "grows s st \<Longrightarrow> f < fresh st \<Longrightarrow> grows s (curScope_update (\<lambda>_. f) st)"
  by (simp add: grows_def evolves_def wf_state_def)

text \<open>Reading characters.\<close>

lemma grows_tokens [gives_rules]:
  "grows s st \<Longrightarrow> grows s (i_reset_token st)"
  "grows s st \<Longrightarrow> grows s (i_ignore_last_token st)"
  "grows s st \<Longrightarrow> grows s (i_ignore_first_token st)"
  "grows s st \<Longrightarrow> grows s (i_ignore_next_char st)"
  by (erule grows_cong; simp add: i_reset_token_def i_ignore_last_token_def i_ignore_first_token_def i_ignore_next_char_def)+

lemma get_char_grows: "i_get_char st = Some (c, st') \<Longrightarrow> grows s st \<Longrightarrow> grows s st'"
  by (auto simp: i_get_char_def bind_eq_Some_conv split: if_splits intro!: grows_update)

lemma unget_char_grows: "i_unget_char st = Some st' \<Longrightarrow> grows s st \<Longrightarrow> grows s st'"
  by (auto simp: i_unget_char_def split: if_splits intro!: grows_update grows_tokens)

lemma get_char_rule [gives_rules]: "grows s st \<Longrightarrow> (\<And>c st'. grows s st' \<Longrightarrow> P (c, st')) \<Longrightarrow> gives P (i_get_char st)"
  by (auto simp: gives_def dest: get_char_grows)

lemma unget_char_rule [gives_rules]: "grows s st \<Longrightarrow> (\<And>st'. grows s st' \<Longrightarrow> P st') \<Longrightarrow> gives P (i_unget_char st)"
  by (auto simp: gives_def dest: unget_char_grows)

lemma ignore_ws_rule [gives_rules]:
  "grows s st \<Longrightarrow> (\<And>c st'. grows s st' \<Longrightarrow> P (c, st')) \<Longrightarrow> gives P (i_ignore_ws st)"
proof (induction st rule: i_ignore_ws.induct)
  case (1 st)
  show ?case
    by (subst i_ignore_ws.simps) (use 1(2-) in \<open>auto split: option.splits if_splits intro!: gives_rules 1(1)[OF _ refl] dest: get_char_grows\<close>)
qed

lemma get_span_rule [gives_rules]:
  "grows s st \<Longrightarrow> (\<And>st'. grows s st' \<Longrightarrow> P st') \<Longrightarrow> gives P (i_get_span testfn st)"
proof (induction testfn st rule: i_get_span.induct)
  case (1 testfn st)
  show ?case
    by (subst i_get_span.simps) (use 1(2-) in \<open>auto split: option.splits if_splits intro!: gives_rules 1(1)[OF _ refl] dest: get_char_grows\<close>)
qed

lemma skip_comment_rule [gives_rules]:
  "grows s st \<Longrightarrow> (\<And>c st'. grows s st' \<Longrightarrow> P (c, st')) \<Longrightarrow> gives P (skip_comment st)"
proof (induction st rule: skip_comment.induct)
  case (1 st)
  show ?case
    by (subst skip_comment.simps) (use 1(2-) in \<open>auto split: option.splits if_splits intro!: gives_rules 1(1)[OF _ refl] dest: get_char_grows\<close>)
qed

lemma skip_stmt_rule [gives_rules]:
  "grows s st \<Longrightarrow> (\<And>st'. grows s st' \<Longrightarrow> P st') \<Longrightarrow> gives P (skip_stmt st)"
proof (induction st rule: skip_stmt.induct)
  case (1 st)
  show ?case
    by (subst skip_stmt.simps) (use 1(2-) in \<open>auto split: option.splits if_splits intro!: gives_rules 1(1)[OF _ refl] dest: get_char_grows\<close>)
qed

lemma skip_block_rule [gives_rules]:
  assumes "grows s st" "\<And>b st'. grows s st' \<Longrightarrow> P (b, st')"
  shows "gives P (skip_block n st)"
  using assms(1)
proof (induction n st rule: skip_block.induct)
  case (1 n st)
  show ?case
  proof (cases "i_get_char st")
    case None
    show ?thesis by (subst skip_block.simps) (use None 1(2) in \<open>auto intro!: gives_None gives_Some assms(2)\<close>)
  next
    case (Some a)
    obtain c st' where a: "a = (c, st')" by (cases a)
    with Some 1(2) have st': "grows s st'" by (auto dest: get_char_grows)
    show ?thesis
    proof (cases "n = 0 \<or> c = I_NOTOK")
      case True
      show ?thesis
        by (subst skip_block.simps) (use True Some a st' 1(2) in \<open>auto intro!: gives_Some assms(2)\<close>)
    next
      case False
      then have n: "n \<noteq> 0" and c: "c \<noteq> I_NOTOK" by simp_all
      show ?thesis
        by (subst skip_block.simps) (simp only: n c Some a option.case prod.case if_False 1(1)[OF n Some a[symmetric] c st'])
    qed
  qed
qed

lemma close_brackets_rule [gives_rules]:
  "grows s st \<Longrightarrow> (\<And>b st'. grows s st' \<Longrightarrow> P (b, st')) \<Longrightarrow> gives P (close_brackets n st)"
proof (induction n st rule: close_brackets.induct)
  case (1 n st)
  show ?case
    by (subst close_brackets.simps) (use 1(2-) in \<open>auto split: option.splits if_splits intro!: gives_rules 1(1)[OF _ refl] dest: get_char_grows simp: Let_def\<close>)
qed

lemma char_literal_rule [gives_rules]:
  assumes "grows s st" "\<And>c st'. grows s st' \<Longrightarrow> P (c, st')"
  shows "gives P (char_literal n st)"
  using assms(1)
proof (induction n arbitrary: st)
  case (Suc n)
  show ?case unfolding char_literal.simps by (rule Suc assms(2) gives_rules | assumption)+
qed (simp add: gives_def assms(2))

lemma get_chars_rule [gives_rules]:
  assumes "grows s st" "\<And>bs st'. grows s st' \<Longrightarrow> P (bs, st')"
  shows "gives P (get_chars n st)"
  using assms
proof (induction n arbitrary: st P)
  case (Suc n)
  show ?case unfolding get_chars.simps by (rule Suc gives_rules | assumption)+
qed (simp add: gives_def)
subsection \<open>Changes of objects\<close>

lemma gives_prod: "(\<And>a b. p = (a, b) \<Longrightarrow> gives P (f a b)) \<Longrightarrow> gives P (case_prod f p)"
  by (cases p) simp

lemma gives_list [gives_rules]:
  "(xs = [] \<Longrightarrow> gives P a) \<Longrightarrow> (\<And>y ys. xs = y # ys \<Longrightarrow> gives P (f y ys)) \<Longrightarrow> gives P (case_list a f xs)"
  by (cases xs) simp_all

lemma grows_wf: "grows s st \<Longrightarrow> wf_state st"
  by (simp add: grows_def)

lemma grows_fresh: "grows s st \<Longrightarrow> fresh s \<le> fresh st"
  by (simp add: grows_def evolves_def)

lemma wf_funD: "wf_state st \<Longrightarrow> funs st f = Some fn \<Longrightarrow> f < fresh st \<and> wf_fun fn"
  by (simp add: wf_state_def)

lemma wf_sym: "wf_state st \<Longrightarrow> syms st s = Some sy \<Longrightarrow> s < fresh st"
  by (cases "s < fresh st") (auto simp: wf_state_def not_less)


lemma grows_syms:
  assumes "grows s st" "x < fresh st"
    and "\<And>sy'. v = Some sy' \<Longrightarrow> x < fresh s \<Longrightarrow> \<exists>sy. syms s x = Some sy \<and> same_symbol sy sy'"
  shows "grows s (syms_update (\<lambda>_. (syms st)(x := v)) st)"
  using assms by (auto simp: grows_def evolves_def wf_state_def)

lemma grows_release_sym [gives_rules]:
  "grows s st \<Longrightarrow> grows s (syms_update (\<lambda>_. (syms st)(x := None)) st)"
  by (auto simp: grows_def evolves_def wf_state_def)

lemma grows_release_array [gives_rules]:
  "grows s st \<Longrightarrow> grows s (arys_update (\<lambda>_. (arys st)(x := None)) st)"
  by (auto simp: grows_def evolves_def wf_state_def)

lemma grows_release_fun [gives_rules]:
  "grows s st \<Longrightarrow> grows s (funs_update (\<lambda>_. (funs st)(x := None)) st)"
  by (auto simp: grows_def evolves_def wf_state_def)

lemma grows_array:
  "grows s st \<Longrightarrow> arys st a = Some xs \<Longrightarrow> grows s (arys_update (\<lambda>_. (arys st)(a \<mapsto> xs[i := v])) st)"
  by (auto simp: grows_def evolves_def wf_state_def)

lemma grows_new_array [gives_rules]:
  "grows s st \<Longrightarrow> grows s (fresh_update (\<lambda>_. fresh st + 1) (arys_update (\<lambda>_. (arys st)(fresh st \<mapsto> xs)) st))"
  by (auto simp: grows_def evolves_def wf_state_def less_Suc_eq)

lemma grows_new_string [gives_rules]:
  "grows s st \<Longrightarrow> grows s (fresh_update (\<lambda>_. fresh st + 1) (strs_update f st))"
  by (auto simp: grows_def evolves_def wf_state_def less_Suc_eq)

lemma grows_new_sym:
  "grows s st \<Longrightarrow> grows s (st\<lparr>syms := (syms st)(fresh st \<mapsto> sy), fresh := fresh st + 1\<rparr>)"
  by (auto simp: grows_def evolves_def wf_state_def less_Suc_eq)

lemma grows_new_fun:
  "grows s st \<Longrightarrow> wf_fun fn \<Longrightarrow> (\<And>g. prev_fun fn = Some g \<Longrightarrow> g < fresh st) \<Longrightarrow>
   grows s (st\<lparr>funs := (funs st)(fresh st \<mapsto> fn), fresh := fresh st + 1\<rparr>)"
  by (auto simp: grows_def evolves_def wf_state_def less_Suc_eq)

lemma grows_fun:
  "grows s st \<Longrightarrow> funs st f = Some fn \<Longrightarrow> funname fn' = funname fn \<Longrightarrow> prev_fun fn' = prev_fun fn \<Longrightarrow>
   wf_fun fn' \<Longrightarrow>
   grows s (funs_update (\<lambda>_. (funs st)(f \<mapsto> fn')) st)"
  by (auto simp: grows_def evolves_def wf_state_def)

lemma new_sym_rule [gives_rules]:
  "grows s st \<Longrightarrow> (\<And>x st'. grows s st' \<Longrightarrow> gives P (f x st')) \<Longrightarrow> gives P (case_prod f (new_sym sy st))"
  unfolding new_sym_def prod.case by (blast intro: grows_new_sym)

lemma Fun_new_rule [gives_rules]:
  assumes "grows s st" "\<And>x st'. grows s st' \<Longrightarrow> x < fresh st' \<Longrightarrow> gives P (f x st')"
  shows "gives P (case_prod f (Fun_new nm (Some (curScope st)) st))"
proof -
  have "grows s (st\<lparr>funs := (funs st)(fresh st \<mapsto> fun_new nm (Some (curScope st))), fresh := fresh st + 1\<rparr>)"
    by (rule grows_new_fun[OF assms(1)]) (use grows_wf[OF assms(1)] in \<open>auto simp: fun_new_def wf_fun_def wf_state_def\<close>)
  then have "grows s (snd (Fun_new nm (Some (curScope st)) st))"
    by (simp add: Fun_new_def Let_def grows_update)
  moreover have "fst (Fun_new nm (Some (curScope st)) st) < fresh (snd (Fun_new nm (Some (curScope st)) st))"
    by (simp add: Fun_new_def Let_def)
  ultimately show ?thesis using assms(2) by (simp add: case_prod_beta)
qed

lemma set_symbols_rule [gives_rules]:
  assumes "grows s st" "\<And>st'. grows s st' \<Longrightarrow> P st'"
  shows "gives P (set_symbols f es st)"
proof -
  have "grows s (st\<lparr>funs := (funs st)(f \<mapsto> fn\<lparr>symbols := es\<rparr>)\<rparr>)" if "funs st f = Some fn" for fn
    using wf_funD[OF grows_wf[OF assms(1)] that] that by (intro grows_fun[OF assms(1)]) (auto simp: wf_fun_def)
  then show ?thesis using assms(2) by (auto simp: gives_def set_symbols_def)
qed

lemma release_syms_rule:
  assumes "grows s st" "\<And>st'. grows s st' \<Longrightarrow> P st'"
  shows "gives P (release_syms n ss st)"
  using assms(1)
proof (induction n arbitrary: ss st)
  case 0
  then show ?case by (auto simp: gives_def assms(2))
next
  case (Suc n)
  show ?case
    unfolding release_syms.simps Let_def by (rule Suc assms(2) gives_rules | assumption | rule gives_prod givesI)+
qed

lemma i_release_syms_rule [gives_rules]:
  "grows s st \<Longrightarrow> (\<And>st'. grows s st' \<Longrightarrow> P st') \<Longrightarrow> gives P (i_release_syms ss st)"
  unfolding i_release_syms_def by (rule release_syms_rule)

lemma define_symbol_rule [gives_rules]:
  assumes "grows s st" "\<And>x st'. grows s st' \<Longrightarrow> P (x, st')"
  shows "gives P (i_define_symbol f key typ v is_const st)"
  unfolding i_define_symbol_def by (rule assms gives_rules | assumption | rule gives_prod givesI)+

lemma define_var_symbol_rule [gives_rules]:
  "grows s st \<Longrightarrow> (\<And>x st'. grows s st' \<Longrightarrow> P (x, st')) \<Longrightarrow> gives P (i_define_var_symbol f key is_const st)"
  unfolding i_define_var_symbol_def by (rule define_symbol_rule)

lemma clear_scope_rule [gives_rules]:
  assumes "grows s st" "\<And>st'. grows s st' \<Longrightarrow> P st'"
  shows "gives P (clear_scope f st)"
  unfolding clear_scope_def by (rule assms gives_rules | assumption | rule gives_prod givesI)+

lemma clone_symbols_rule [gives_rules]:
  "grows s st \<Longrightarrow> (\<And>es' st'. grows s st' \<Longrightarrow> P (es', st')) \<Longrightarrow> gives P (clone_symbols es st)"
proof (induction es arbitrary: st P)
  case (Cons e es)
  obtain k x c where e: "e = (k, x, c)" by (cases e) auto
  show ?case
    unfolding e clone_symbols.simps prod.case by (rule Cons gives_rules | assumption | rule gives_prod givesI)+
qed (simp add: gives_def)

lemma symbol_stack_push_rule [gives_rules]:
  assumes "grows s st" "\<And>st'. grows s st' \<Longrightarrow> P st'"
  shows "gives P (i_symbol_stack_push f st)"
  unfolding i_symbol_stack_push_def by (rule assms gives_rules | assumption | rule gives_prod givesI)+

lemma symbol_stack_pop_rule [gives_rules]:
  assumes "grows s st" "\<And>x st'. grows s st' \<Longrightarrow> P (x, st')"
  shows "gives P (i_symbol_stack_pop st)"
  unfolding i_symbol_stack_pop_def by (rule assms gives_rules)+

lemma fun_stack_pop_rule [gives_rules]:
  assumes "grows s st" "\<And>x st'. grows s st' \<Longrightarrow> x < fresh st' \<Longrightarrow> P (x, st')"
  shows "gives P (i_fun_stack_pop st)"
proof (cases "funstack st")
  case (Cons f r)
  have "grows s (st\<lparr>funstack := r\<rparr>)" "f < fresh st"
    using assms(1) Cons by (auto simp: grows_def evolves_def wf_state_def)
  then show ?thesis using assms(2)[of "st\<lparr>funstack := r\<rparr>" f] Cons by (simp add: i_fun_stack_pop_def gives_def)
qed (simp add: i_fun_stack_pop_def gives_def)

lemma stack_pop_rule [gives_rules]:
  assumes "grows s st" "\<And>x st'. grows s st' \<Longrightarrow> P (x, st')"
  shows "gives P (i_stack_pop st)"
  unfolding i_stack_pop_def by (rule assms gives_rules)+

lemma grows_push [gives_rules]:
  "grows s st \<Longrightarrow> grows s (i_stack_push v st)"
  by (simp add: i_stack_push_def grows_update)

lemma grows_enter:
  "grows s st \<Longrightarrow> f < fresh st \<Longrightarrow> grows s (curScope_update (\<lambda>_. f) (i_fun_stack_push (curScope st) st))"
  by (auto simp: grows_def evolves_def wf_state_def i_fun_stack_push_def)

lemma grows_call [gives_rules]:
  assumes "grows s st" "funs st f = Some fn"
  shows "grows s (curScope_update (\<lambda>_. f) (i_fun_stack_push (curScope st) (didReturn_update g st)))"
  using grows_enter[of s "didReturn_update g st" f] assms wf_funD[OF grows_wf[OF assms(1)] assms(2)]
  by (simp add: grows_update)
subsection \<open>Every function keeps the invariant\<close>

lemmas error_defs = no_value_def i_syntax_error_def i_arg_mismatch_def i_too_many_args_def i_unknown_symbol_def
  i_out_of_bounds_def fst_conv snd_conv

lemma gives_if_value:
  "(b \<Longrightarrow> gives P (Some x)) \<Longrightarrow> (\<not> b \<Longrightarrow> gives P (Some y)) \<Longrightarrow> gives P (Some (if b then x else y))"
  by simp

lemma grows_if [gives_rules]: "grows s x \<Longrightarrow> grows s y \<Longrightarrow> grows s (if b then x else y)"
  by simp

definition keeps :: "recur \<Rightarrow> bool" where
  "keeps rec \<longleftrightarrow> (\<forall>c st. wf_state st \<longrightarrow> gives (\<lambda>(r, v, st'). grows st st') (rec c st))"

lemma keepsD:
  assumes "keeps rec" "grows s st" "\<And>r v st'. grows s st' \<Longrightarrow> P (r, v, st')"
  shows "gives P (rec c st)"
proof -
  have "gives (\<lambda>(r, v, st'). grows st st') (rec c st)"
    using assms(1) grows_wf[OF assms(2)] by (simp add: keeps_def)
  then show ?thesis using assms(3) grows_trans[OF assms(2)] by (auto simp: gives_def)
qed


lemma lambda_keeps [gives_rules]:
  assumes "keeps rec" "grows s st" "\<And>r st'. grows s st' \<Longrightarrow> P (r, st')"
  shows "gives P (i_lambda rec st)"
  unfolding i_lambda_def error_defs
  by (rule keepsD[OF assms(1)] assms gives_if_value gives_rules | assumption | simp only: prod.case | rule gives_prod givesI)+

lemma tok_number_keeps [gives_rules]:
  assumes "grows s st" "\<And>r st'. grows s st' \<Longrightarrow> P (r, st')"
  shows "gives P (tok_number c st)"
  unfolding tok_number_def error_defs
  by (rule assms gives_if_value gives_rules | assumption | simp only: prod.case | rule gives_prod givesI)+

lemma tok_char_keeps [gives_rules]:
  assumes "grows s st" "\<And>r st'. grows s st' \<Longrightarrow> P (r, st')"
  shows "gives P (tok_char st)"
  unfolding tok_char_def error_defs
  by (rule assms gives_if_value gives_rules | assumption | simp only: prod.case | rule gives_prod givesI)+

lemma tok_operator_keeps [gives_rules]:
  assumes "grows s st" "\<And>r st'. grows s st' \<Longrightarrow> P (r, st')"
  shows "gives P (tok_operator st)"
  unfolding tok_operator_def error_defs
  by (rule assms gives_if_value gives_rules | assumption | simp only: prod.case | rule gives_prod givesI)+

lemma tok_block_keeps [gives_rules]:
  assumes "grows s st" "\<And>r v st'. grows s st' \<Longrightarrow> P (r, v, st')"
  shows "gives P (tok_block st)"
  unfolding tok_block_def error_defs
  by (rule assms gives_if_value gives_rules | assumption | simp only: prod.case | rule gives_prod givesI)+

lemma tok_string_keeps [gives_rules]:
  assumes "grows s st" "\<And>r v st'. grows s st' \<Longrightarrow> P (r, v, st')"
  shows "gives P (tok_string st)"
  unfolding tok_string_def Let_def error_defs
  by (rule assms gives_if_value gives_rules | assumption | simp only: prod.case | rule gives_prod givesI)+

lemma tok_word_keeps [gives_rules]:
  assumes "keeps rec" "grows s st" "\<And>r v st'. grows s st' \<Longrightarrow> P (r, v, st')"
  shows "gives P (tok_word rec israw st)"
  unfolding tok_word_def error_defs
  by (rule keepsD[OF assms(1)] assms gives_if_value gives_rules | assumption | simp only: prod.case | rule gives_prod givesI)+

lemma do_next_token_keeps [gives_rules]:
  assumes "keeps rec" "grows s st" "\<And>r st'. grows s st' \<Longrightarrow> P (r, st')"
  shows "gives P (i_do_next_token rec israw st)"
  unfolding i_do_next_token_def error_defs
  by (rule keepsD[OF assms(1)] assms gives_if_value gives_rules | assumption | simp only: prod.case | rule gives_prod givesI)+

lemma next_token_keeps [gives_rules]:
  assumes "keeps rec" "grows s st" "\<And>r st'. grows s st' \<Longrightarrow> P (r, st')"
  shows "gives P (i_next_token rec st)"
  unfolding i_next_token_def error_defs
  by (rule keepsD[OF assms(1)] assms gives_if_value gives_rules | assumption | simp only: prod.case | rule gives_prod givesI)+

lemma next_raw_token_keeps [gives_rules]:
  assumes "keeps rec" "grows s st" "\<And>r st'. grows s st' \<Longrightarrow> P (r, st')"
  shows "gives P (i_next_raw_token rec st)"
  unfolding i_next_raw_token_def error_defs
  by (rule keepsD[OF assms(1)] assms gives_if_value gives_rules | assumption | simp only: prod.case | rule gives_prod givesI)+

lemma parse_char_keeps [gives_rules]:
  assumes "keeps rec" "grows s st" "\<And>r v st'. grows s st' \<Longrightarrow> P (r, v, st')"
  shows "gives P (i_parse_char rec token st)"
  unfolding i_parse_char_def error_defs
  by (rule keepsD[OF assms(1)] assms gives_if_value gives_rules | assumption | simp only: prod.case | rule gives_prod givesI)+

lemma pop_args_keeps [gives_rules]:
  assumes "grows s st" "\<And>st'. grows s st' \<Longrightarrow> P st'"
  shows "gives P (pop_args n st)"
  using assms(1)
proof (induction n arbitrary: st)
  case (Suc n)
  show ?case unfolding pop_args.simps by (rule Suc gives_rules | assumption)+
qed (simp add: gives_def assms(2))

lemma define_args_keeps [gives_rules]:
  "grows s st \<Longrightarrow> (\<And>st'. grows s st' \<Longrightarrow> P st') \<Longrightarrow> gives P (define_args uf n st)"
proof (induction n arbitrary: st P)
  case (Suc n)
  show ?case
    unfolding define_args.simps by (rule Suc gives_rules | assumption | simp only: snd_conv | rule givesI)+
qed (simp add: gives_def)

lemma parse_string_keeps [gives_rules]:
  assumes "keeps rec" "grows s st" "\<And>r st'. grows s st' \<Longrightarrow> P (r, st')"
  shows "gives P (i_parse_string rec str st)"
  unfolding i_parse_string_def error_defs
  by (rule keepsD[OF assms(1)] assms gives_if_value gives_rules | assumption | simp only: prod.case | rule gives_prod givesI)+

lemma call_user_keeps [gives_rules]:
  assumes "keeps rec" "grows s st" "\<And>r v st'. grows s st' \<Longrightarrow> P (r, v, st')"
  shows "gives P (call_user rec uf n st)"
  unfolding call_user_def count_call_def error_defs
  by (rule keepsD[OF assms(1)] assms gives_if_value gives_rules | assumption | simp only: prod.case | rule gives_prod givesI)+

lemma func_call_keeps [gives_rules]:
  assumes "keeps rec" "grows s st" "\<And>r v st'. grows s st' \<Longrightarrow> P (r, v, st')"
  shows "gives P (i_parse_func_call rec opf uf st)"
  unfolding i_parse_func_call_def error_defs
  by (rule keepsD[OF assms(1)] assms gives_if_value gives_rules | assumption | simp only: prod.case | rule gives_prod givesI)+

lemma array_assign_keeps [gives_rules]:
  assumes "keeps rec" "grows s st" "\<And>r v st'. grows s st' \<Longrightarrow> P (r, v, st')"
  shows "gives P (i_parse_array_assign rec ary ix st)"
  unfolding i_parse_array_assign_def error_defs
  by (rule keepsD[OF assms(1)] assms gives_if_value gives_rules grows_array | assumption | simp only: prod.case | rule gives_prod givesI)+

lemma paren_keeps [gives_rules]:
  assumes "keeps rec" "grows s st" "\<And>r v st'. grows s st' \<Longrightarrow> P (r, v, st')"
  shows "gives P (i_parse_paren rec d st)"
  unfolding i_parse_paren_def error_defs
  by (rule keepsD[OF assms(1)] assms gives_if_value gives_rules | assumption | simp only: prod.case | rule gives_prod givesI)+

lemma array_get_keeps [gives_rules]:
  assumes "keeps rec" "grows s st" "\<And>r v st'. grows s st' \<Longrightarrow> P (r, v, st')"
  shows "gives P (i_parse_array_get rec st)"
  unfolding i_parse_array_get_def error_defs
  by (rule keepsD[OF assms(1)] assms gives_if_value gives_rules | assumption | simp only: prod.case | rule gives_prod givesI)+

lemma grows_put_result [gives_rules]: "grows s st \<Longrightarrow> grows s (put_result d v st)"
  by (auto simp: put_result_def intro: grows_update split: option.splits dest.splits)

lemma primary_value_keeps [gives_rules]:
  assumes "keeps rec" "grows s st" "\<And>r v st'. grows s st' \<Longrightarrow> P (r, v, st')"
  shows "gives P (primary_value rec d st)"
  unfolding primary_value_def error_defs
  by (rule keepsD[OF assms(1)] assms gives_if_value gives_rules | assumption | simp only: prod.case | rule gives_prod givesI)+

lemma primary_keeps [gives_rules]:
  assumes "keeps rec" "grows s st" "\<And>r v st'. grows s st' \<Longrightarrow> P (r, v, st')"
  shows "gives P (i_parse_primary rec d st)"
  unfolding i_parse_primary_def error_defs
  by (rule keepsD[OF assms(1)] assms gives_if_value gives_rules | assumption | simp only: prod.case | rule gives_prod givesI)+

lemma take_tighter_keeps [gives_rules]:
  assumes "keeps rec" "grows s st" "\<And>r v st'. grows s st' \<Longrightarrow> P (r, v, st')"
  shows "gives P (take_tighter rec l v st)"
  unfolding take_tighter_def error_defs
  by (rule keepsD[OF assms(1)] assms gives_if_value gives_rules | assumption | simp only: prod.case | rule gives_prod givesI)+

lemma expr_level_keeps [gives_rules]:
  assumes "keeps rec" "grows s st" "\<And>r v st'. grows s st' \<Longrightarrow> P (r, v, st')"
  shows "gives P (i_parse_expr_level rec l v st)"
  unfolding i_parse_expr_level_def error_defs
  by (rule keepsD[OF assms(1)] assms gives_if_value gives_rules | assumption | simp only: prod.case | rule gives_prod givesI)+

lemma expr_keeps [gives_rules]:
  assumes "keeps rec" "grows s st" "\<And>r v st'. grows s st' \<Longrightarrow> P (r, v, st')"
  shows "gives P (i_parse_expr rec d st)"
  unfolding i_parse_expr_def error_defs
  by (rule keepsD[OF assms(1)] assms gives_if_value gives_rules | assumption | simp only: prod.case | rule gives_prod givesI)+

lemma expr_list_keeps [gives_rules]:
  assumes "keeps rec" "grows s st" "\<And>r v st'. grows s st' \<Longrightarrow> P (r, v, st')"
  shows "gives P (i_parse_expr_list rec n st)"
  unfolding i_parse_expr_list_def error_defs
  by (rule keepsD[OF assms(1)] assms gives_if_value gives_rules | assumption | simp only: prod.case | rule gives_prod givesI)+

lemma if_rout_keeps [gives_rules]:
  assumes "keeps rec" "grows s st" "\<And>r v st'. grows s st' \<Longrightarrow> P (r, v, st')"
  shows "gives P (i_parse_if_rout rec st)"
  unfolding i_parse_if_rout_def error_defs
  by (rule keepsD[OF assms(1)] assms gives_if_value gives_rules | assumption | simp only: prod.case | rule gives_prod givesI)+

lemma run_branch_keeps [gives_rules]:
  assumes "keeps rec" "grows s st" "\<And>r st'. grows s st' \<Longrightarrow> P (r, st')"
  shows "gives P (run_branch rec b p e st)"
  unfolding run_branch_def error_defs
  by (rule keepsD[OF assms(1)] assms gives_if_value gives_rules | assumption | simp only: prod.case | rule gives_prod givesI)+

lemma parse_if_keeps [gives_rules]:
  assumes "keeps rec" "grows s st" "\<And>r st'. grows s st' \<Longrightarrow> P (r, st')"
  shows "gives P (i_parse_if rec st)"
  unfolding i_parse_if_def error_defs
  by (rule keepsD[OF assms(1)] assms gives_if_value gives_rules | assumption | simp only: prod.case | rule gives_prod givesI)+

lemma parse_ifnot_keeps [gives_rules]:
  assumes "keeps rec" "grows s st" "\<And>r st'. grows s st' \<Longrightarrow> P (r, st')"
  shows "gives P (i_parse_ifnot rec st)"
  unfolding i_parse_ifnot_def error_defs
  by (rule keepsD[OF assms(1)] assms gives_if_value gives_rules | assumption | simp only: prod.case | rule gives_prod givesI)+

lemma while_turn_keeps [gives_rules]:
  assumes "keeps rec" "grows s st" "\<And>r v st'. grows s st' \<Longrightarrow> P (r, v, st')"
  shows "gives P (while_turn rec p n st)"
  unfolding while_turn_def error_defs
  by (rule keepsD[OF assms(1)] assms gives_if_value gives_rules | assumption | simp only: prod.case | rule gives_prod givesI)+

lemma parse_while_keeps [gives_rules]:
  assumes "keeps rec" "grows s st" "\<And>r st'. grows s st' \<Longrightarrow> P (r, st')"
  shows "gives P (i_parse_while rec st)"
  unfolding i_parse_while_def error_defs
  by (rule keepsD[OF assms(1)] assms gives_if_value gives_rules | assumption | simp only: prod.case | rule gives_prod givesI)+
lemma var_list_keeps [gives_rules]:
  assumes "keeps rec" "grows s st" "length args \<le> MAX_BUILTIN_PARAMS" "\<And>r st'. grows s st' \<Longrightarrow> P (r, st')"
  shows "gives P (i_parse_var_list n rec uf c args st)"
  using assms(2,3)
proof (induction n arbitrary: c args st)
  case (Suc n)
  have finish: "gives P (map_option (\<lambda>fn. (r, st'\<lparr>funs := (funs st')(uf \<mapsto> fn\<lparr>nargs := length as, argName := as\<rparr>)\<rparr>)) (funs st' uf))"
    if "grows s st'" "length as \<le> MAX_BUILTIN_PARAMS" for r as st'
    by (rule gives_map, rule givesI, rule assms(4), rule grows_fun[OF that(1)]) (simp_all add: wf_fun_def that(2))
  show ?case
  proof (cases "length args < MAX_BUILTIN_PARAMS")
    case True
    then have more: "length (args @ [nm]) \<le> MAX_BUILTIN_PARAMS" for nm by simp
    show ?thesis
      unfolding i_parse_var_list.simps error_defs
      by (rule Suc more finish assms gives_rules | assumption | rule gives_prod givesI)+
  next
    case False
    then show ?thesis
      unfolding i_parse_var_list.simps error_defs Let_def
      by (auto simp: not_less intro!: gives_Some assms(4) finish Suc.prems)
  qed
qed (simp add: gives_def)

lemma next_token_scope:
  assumes "keeps rec" "grows s st" "f < fresh st" "\<And>r st'. grows s st' \<Longrightarrow> f < fresh st' \<Longrightarrow> P (r, st')"
  shows "gives P (i_next_token rec st)"
  by (rule next_token_keeps[OF assms(1) grows_refl[OF grows_wf[OF assms(2)]]])
     (use assms(3,4) grows_trans[OF assms(2)] grows_fresh in \<open>meson less_le_trans\<close>)

lemma func_def_args_keeps:
  assumes "keeps rec" "grows s st" "f < fresh st" "\<And>n c st'. grows s st' \<Longrightarrow> P (n, c, st')"
  shows "gives P (func_def_args rec f st)"
proof -
  have none: "length ([] :: name list) \<le> MAX_BUILTIN_PARAMS" by simp
  show ?thesis
    unfolding func_def_args_def error_defs
    by (rule gives_bind, rule next_token_scope[OF assms(1-3)])
       (rule keepsD[OF assms(1)] assms(1,4) none gives_if_value grows_enter gives_rules | assumption | simp only: prod.case | rule gives_prod givesI)+
qed

lemma func_def_keeps [gives_rules]:
  assumes "keeps rec" "grows s st" "\<And>r v st'. grows s st' \<Longrightarrow> P (r, v, st')"
  shows "gives P (i_parse_func_def rec st)"
proof -
  have body: "grows s (funs_update (\<lambda>_. (funs st')(f \<mapsto> fn\<lparr>body := b\<rparr>)) st')"
    if "grows s st'" "funs st' f = Some fn" for st' f fn b
    using wf_funD[OF grows_wf[OF that(1)] that(2)] by (intro grows_fun[OF that]) (simp_all add: wf_fun_def)
  show ?thesis
    unfolding i_parse_func_def_def error_defs
    by (rule keepsD[OF assms(1)] assms func_def_args_keeps gives_if_value gives_rules body | assumption | simp only: prod.case | rule gives_prod givesI)+
qed

lemma array_def_keeps [gives_rules]:
  assumes "keeps rec" "grows s st" "\<And>r v st'. grows s st' \<Longrightarrow> P (r, v, st')"
  shows "gives P (i_parse_array_def rec st)"
  unfolding i_parse_array_def_def error_defs
  by (rule keepsD[OF assms(1)] assms gives_if_value gives_rules | assumption | simp only: prod.case | rule gives_prod givesI)+

lemma array_set_keeps [gives_rules]:
  assumes "keeps rec" "grows s st" "\<And>r v st'. grows s st' \<Longrightarrow> P (r, v, st')"
  shows "gives P (i_parse_array_set rec st)"
  unfolding i_parse_array_set_def error_defs
  by (rule keepsD[OF assms(1)] assms gives_if_value gives_rules | assumption | simp only: prod.case | rule gives_prod givesI)+

lemma grows_end_scope [gives_rules]: "grows s st \<Longrightarrow> grows s (end_scope st)"
  by (simp add: end_scope_def grows_update)

lemma parse_exit_keeps [gives_rules]:
  assumes "keeps rec" "grows s st" "\<And>r st'. grows s st' \<Longrightarrow> P (r, st')"
  shows "gives P (i_parse_exit rec st)"
  unfolding i_parse_exit_def error_defs
  by (rule keepsD[OF assms(1)] assms gives_if_value gives_rules | assumption | simp only: prod.case | rule gives_prod givesI)+

lemma parse_return_keeps [gives_rules]:
  assumes "keeps rec" "grows s st" "\<And>r st'. grows s st' \<Longrightarrow> P (r, st')"
  shows "gives P (i_parse_return rec st)"
  unfolding i_parse_return_def error_defs
  by (rule keepsD[OF assms(1)] assms gives_if_value gives_rules | assumption | simp only: prod.case | rule gives_prod givesI)+

lemma read_sym_keeps [gives_rules]:
  assumes "grows s st" "\<And>k p st'. grows s st' \<Longrightarrow> P (k, p, st')"
  shows "gives P (read_sym n key prev st)"
  using assms(1)
proof (induction n arbitrary: key prev st)
  case (Suc n)
  show ?case unfolding read_sym.simps by (rule Suc assms(2) gives_rules | assumption)+
qed (simp add: gives_def)

lemma print_directive_keeps [gives_rules]:
  assumes "grows s st" "\<And>d st'. grows s st' \<Longrightarrow> P (d, st')"
  shows "gives P (print_directive c st)"
  unfolding print_directive_def
  by (rule assms gives_rules | assumption | simp only: prod.case | rule gives_prod givesI)+

lemma print_dollar_keeps [gives_rules]:
  assumes "keeps rec" "grows s st" "\<And>r v st'. grows s st' \<Longrightarrow> P (r, v, st')"
  shows "gives P (print_dollar rec fp err str st)"
  unfolding print_dollar_def error_defs
  by (rule keepsD[OF assms(1)] assms gives_if_value gives_rules | assumption | simp only: prod.case | rule gives_prod givesI)+

lemma print_backslash_keeps [gives_rules]:
  assumes "grows s st" "\<And>c p str' st'. grows s st' \<Longrightarrow> P (c, p, str', st')"
  shows "gives P (print_backslash prev str st)"
  unfolding print_backslash_def
  by (rule assms gives_rules | assumption | simp only: prod.case | rule gives_prod givesI)+

lemma print_end_keeps [gives_rules]:
  assumes "keeps rec" "grows s st" "\<And>r v st'. grows s st' \<Longrightarrow> P (r, v, st')"
  shows "gives P (print_end rec fp err str st)"
  unfolding print_end_def error_defs
  by (rule keepsD[OF assms(1)] assms gives_if_value gives_rules | assumption | simp only: prod.case | rule gives_prod givesI)+

lemma print_turn_keeps [gives_rules]:
  assumes "keeps rec" "grows s st" "\<And>r v st'. grows s st' \<Longrightarrow> P (r, v, st')"
  shows "gives P (print_turn rec fp prev err str st)"
  unfolding print_turn_def error_defs
  by (rule keepsD[OF assms(1)] assms gives_if_value gives_rules | assumption | simp only: prod.case | rule gives_prod givesI)+

lemma grows_ignore [gives_rules]: "grows s st \<Longrightarrow> grows s ((i_ignore_next_char ^^ n) st)"
  by (induction n) (simp_all add: grows_tokens)

lemma parse_print_keeps [gives_rules]:
  assumes "keeps rec" "grows s st" "\<And>r st'. grows s st' \<Longrightarrow> P (r, st')"
  shows "gives P (i_parse_print rec st)"
  unfolding i_parse_print_def error_defs
  by (rule keepsD[OF assms(1)] assms gives_if_value gives_rules | assumption | simp only: prod.case | rule gives_prod givesI)+

lemma call_handler_keeps [gives_rules]:
  assumes "keeps rec" "grows s st" "\<And>r st'. grows s st' \<Longrightarrow> P (r, st')"
  shows "gives P (call_handler rec h st)"
  unfolding call_handler_def error_defs
  by (rule keepsD[OF assms(1)] assms gives_if_value gives_rules | assumption | simp only: prod.case | rule gives_prod givesI)+

text \<open>An assignment goes to a symbol that was no constant other than zero when it was looked at.\<close>

lemma grows_store:
  assumes "\<not> (sym_const sy1 \<and> sym_value sy1 \<noteq> Num 0)" "syms st1 x = Some sy1" "grows s st1"
    and "syms st x = Some sy" "grows s st"
  shows "grows s (syms_update (\<lambda>_. (syms st)(x \<mapsto> sy\<lparr>sym_value := v\<rparr>)) st)"
proof (rule grows_syms[OF assms(5) wf_sym[OF grows_wf[OF assms(5)] assms(4)]])
  fix sy' assume sy': "Some (sy\<lparr>sym_value := v\<rparr>) = Some sy'" and x: "x < fresh s"
  obtain sy0 where 0: "syms s x = Some sy0" "same_symbol sy0 sy"
    using assms(4,5) x unfolding grows_def evolves_def by blast
  obtain sy0' where "syms s x = Some sy0'" "same_symbol sy0' sy1"
    using assms(2,3) x unfolding grows_def evolves_def by blast
  with 0(1) have "same_symbol sy0 sy1" by simp
  with assms(1) have "\<not> (sym_const sy0 \<and> sym_value sy0 \<noteq> Num 0)" unfolding same_symbol_def by metis
  moreover have "sy' = sy\<lparr>sym_value := v\<rparr>" using sy' by simp
  ultimately have "same_symbol sy0 sy'" using 0(2) unfolding same_symbol_def by auto
  with 0(1) show "\<exists>sy. syms s x = Some sy \<and> same_symbol sy sy'" by blast
qed

lemma assign_keeps [gives_rules]:
  assumes "keeps rec" "grows s st" "\<And>r st'. grows s st' \<Longrightarrow> P (r, st')"
  shows "gives P (i_parse_assign rec st)"
  unfolding i_parse_assign_def error_defs
  by (rule keepsD[OF assms(1)] assms gives_if_value gives_rules | (rule grows_store, assumption, assumption, assumption, assumption, assumption) | assumption | simp only: prod.case | rule gives_prod givesI)+

lemma no_else_pair: "no_else (r, st) = (if r = I_ERR_OK_ELSE then I_OK else r, st)"
  by (simp add: no_else_def)

lemma stmt_keeps [gives_rules]:
  assumes "keeps rec" "grows s st" "\<And>r st'. grows s st' \<Longrightarrow> P (r, st')"
  shows "gives P (i_parse_stmt rec st)"
  unfolding i_parse_stmt_def Let_def error_defs
  by (rule keepsD[OF assms(1)] assms gives_if_value gives_rules | assumption | simp only: prod.case no_else_pair | rule gives_prod givesI)+

lemma run_statements_keeps [gives_rules]:
  assumes "keeps rec" "grows s st" "\<And>r v st'. grows s st' \<Longrightarrow> P (r, v, st')"
  shows "gives P (run_statements rec pc st)"
  unfolding run_statements_def Let_def error_defs
  by (rule keepsD[OF assms(1)] assms gives_if_value gives_rules | assumption | simp only: prod.case no_else_pair | rule gives_prod givesI)+
subsection \<open>The interpreter keeps the invariant\<close>

text \<open>What a function of the client may do: whatever it likes with the objects that have no owner in
  the instance, as long as the instance stays well-formed and its symbols stay what they are.\<close>

definition client_ok :: "outside \<Rightarrow> bool" where
  "client_ok env \<longleftrightarrow> (\<forall>nm args st v st'. cfun env nm args st = Some (v, st') \<longrightarrow> wf_state st \<longrightarrow> grows st st')"

lemma call_cfun_keeps:
  assumes "client_ok env" "wf_state st"
  shows "gives (\<lambda>(v, st'). grows st st') (call_cfun env nm args st)"
  using assms by (auto simp: gives_def call_cfun_def client_ok_def grows_refl split: if_splits)

lemma interp_body_keeps:
  assumes "client_ok env" "keeps rec" "wf_state st"
  shows "gives (\<lambda>(r, v, st'). grows st st') (interp_body env rec c st)"
proof (cases c)
  case (Call_cfun nm args)
  with call_cfun_keeps[OF assms(1,3), of nm args] show ?thesis
    by (auto simp: interp_body_def gives_def)
next
  case (Call_code_at bs)
  with assms(3) show ?thesis
    by (auto simp: interp_body_def gives_def grows_refl)
next
  case (Call_print_value fp d v prev err str)
  show ?thesis
    unfolding interp_body_def Call_print_value call.simps
    by (rule gives_bind, rule givesI, rule keepsD[OF assms(2) grows_refl[OF assms(3)]]) simp
next
  case (Call_print_bytes fp str)
  show ?thesis
    unfolding interp_body_def Call_print_bytes call.simps
    by (rule gives_Some) (simp add: grows_update grows_refl[OF assms(3)])
qed (unfold interp_body_def; simp only: call.simps;
     (rule assms(2) grows_refl[OF assms(3)] gives_rules | assumption | simp only: prod.case | rule gives_prod givesI)+)+

lemma interp_keeps: "client_ok env \<Longrightarrow> keeps (interp env n)"
proof (induction n)
  case 0
  show ?case by (simp add: keeps_def gives_def)
next
  case (Suc n)
  then show ?case using interp_body_keeps[of env "interp env n"] by (simp add: keeps_def)
qed

lemma interp_grows:
  "client_ok env \<Longrightarrow> wf_state st \<Longrightarrow> interp env n c st = Some (r, v, st') \<Longrightarrow> grows st st'"
  using interp_keeps[of env n] by (auto simp: keeps_def gives_def)

lemma gives_init: "gives wf_state i_init"
proof -
  have new: "wf_state (snd (Fun_new (ascii ''global'') None i_new))"
    by (auto simp: wf_state_def wf_fun_def Fun_new_def fun_new_def i_new_def Let_def)
  have def_all: "gives wf_state (define_all ds st)" if "wf_state st" for ds st
    using that
  proof (induction ds arbitrary: st)
    case (Cons d ds)
    obtain nm t v where d: "d = (nm, t, v)" by (cases d) auto
    have "gives wf_state (i_define (ascii nm) t v st)"
      unfolding i_define_def
      by (rule gives_map, rule define_symbol_rule[OF grows_refl[OF Cons.prems]]) (simp add: grows_wf)
    then show ?case using Cons.IH unfolding d define_all.simps prod.case gives_def by (auto simp: bind_eq_Some_conv)
  qed (simp add: gives_def)
  show ?thesis
    unfolding i_init_def gives_def bind_eq_Some_conv using givesD[OF def_all[OF new]] givesD[OF def_all] by blast
qed









end
