(* ===== verification/Itokens.thy ===== *)
theory Itokens
  imports Istart
begin

section \<open>The interpreter \<open>I\<close>: what the tokens are\<close>

subsection \<open>Text ahead\<close>

text \<open>The text that is left to read, and the state after reading some of it.\<close>

definition ahead :: "i_t \<Rightarrow> byte list \<Rightarrow> bool" where
  "ahead st t \<longleftrightarrow> i_len (parsePtr st) = length t \<and> i_ptr (parsePtr st) + length t \<le> length (script st) \<and>
     take (length t) (drop (i_ptr (parsePtr st)) (script st)) = t \<and> i_len (curStrToken st) + length t < 2 ^ 32"

definition advance :: "nat \<Rightarrow> i_t \<Rightarrow> i_t" where
  "advance n st = st\<lparr>parsePtr := \<lparr>i_ptr = i_ptr (parsePtr st) + n, i_len = i_len (parsePtr st) - n\<rparr>,
     curStrToken := (curStrToken st)\<lparr>i_len := i_len (curStrToken st) + n\<rparr>\<rparr>"

lemma advance_0 [simp]: "advance 0 st = st"
  by (simp add: advance_def)

lemma advance_advance [simp]: "advance m (advance n st) = advance (n + m) st"
  by (simp add: advance_def add.assoc)

lemma ahead_nth: "ahead st t \<Longrightarrow> i < length t \<Longrightarrow> script st ! (i_ptr (parsePtr st) + i) = t ! i"
  unfolding ahead_def by (metis add_leD1 drop_take length_take less_imp_le_nat min_def nth_drop nth_take)

lemma ahead_take:
  "ahead st (w @ t) \<Longrightarrow> i_ptr (parsePtr st) + length w \<le> length (script st) \<and> take (length w) (drop (i_ptr (parsePtr st)) (script st)) = w"
  unfolding ahead_def by (metis append_eq_conv_conj length_append min.absorb1 le_add1 take_take add.assoc add_leD1)

lemma same_text [simp]:
  "ahead (curToken_update f st) t = ahead st t"
  "ahead (lineNum_update g st) t = ahead st t"
  "script_bytes (curToken_update f st) s = script_bytes st s"
  "script (advance n st) = script st"
  "script (i_reset_token st) = script st"
  "script (i_ignore_last_token st) = script st"
  by (simp_all add: ahead_def script_bytes_def advance_def i_reset_token_def i_ignore_last_token_def)

lemma u32_small: "n < 2 ^ 32 \<Longrightarrow> u32 (int n) = n"
  by (simp add: u32_def)

lemma ahead_get_char:
  assumes "ahead st (c # t)"
  shows "i_get_char st = Some (schar c, advance 1 st)" "ahead (advance 1 st) t"
proof -
  have "script st ! i_ptr (parsePtr st) = c" using ahead_nth[OF assms, of 0] by simp
  moreover have "u32 (int (i_len (curStrToken st)) + 1) = i_len (curStrToken st) + 1"
    using assms u32_small[of "i_len (curStrToken st) + 1"] by (simp add: ahead_def algebra_simps)
  ultimately show "i_get_char st = Some (schar c, advance 1 st)"
    using assms by (auto simp: i_get_char_def script_at_def ahead_def advance_def)
  have "drop (Suc (i_ptr (parsePtr st))) (script st) = tl (drop (i_ptr (parsePtr st)) (script st))"
    by (simp add: drop_Suc tl_drop)
  with assms show "ahead (advance 1 st) t"
    by (cases "drop (i_ptr (parsePtr st)) (script st)") (auto simp: ahead_def advance_def)
qed

lemma ahead_end: "ahead st [] \<Longrightarrow> i_get_char st = Some (-1, st)"
  by (simp add: ahead_def i_get_char_def)

lemma ahead_advance: "ahead st (w @ t) \<Longrightarrow> ahead (advance (length w) st) t"
proof (induction w arbitrary: st)
  case (Cons c w)
  then have "ahead (advance (length w) (advance 1 st)) t" using ahead_get_char(2) by (metis append_Cons)
  then show ?case by simp
qed simp

lemma ahead_peek: "ahead st t \<Longrightarrow> i < length t \<Longrightarrow> i_peek_char st i = Some (schar (t ! i))"
  using ahead_nth[of st t i] by (auto simp: i_peek_char_def script_at_def ahead_def)

lemma ahead_peek_end: "ahead st t \<Longrightarrow> length t \<le> i \<Longrightarrow> i_peek_char st i = Some (-1)"
  by (simp add: i_peek_char_def ahead_def)

lemma ahead_unget:
  assumes "ahead st (w @ t)" "w \<noteq> []"
  shows "i_unget_char (advance (length w) st) = Some (advance (length w - 1) st)"
proof -
  obtain n where n: "length w = Suc n" using assms(2) by (cases w) auto
  have len: "length t + Suc n + i_len (curStrToken st) < 2 ^ 32" "i_len (parsePtr st) = length t + Suc n"
    using assms(1) n by (simp_all add: ahead_def)
  then have "u32 (int (length t) + 1) = length t + 1" "u32 (int (i_len (curStrToken st) + n)) = i_len (curStrToken st) + n"
    using u32_small[of "length t + 1"] u32_small[of "i_len (curStrToken st) + n"] by (simp_all add: add.commute)
  then show ?thesis
    using len by (simp add: i_unget_char_def advance_def i_ignore_last_token_def n)
qed

text \<open>What a span reads.\<close>

lemma ahead_span:
  assumes "ahead st (w @ t)" "\<forall>c \<in> set w. testfn (schar c)"
    and "case t of [] \<Rightarrow> \<not> testfn (-1) | c # _ \<Rightarrow> \<not> testfn (schar c) \<and> schar c \<noteq> -1"
  shows "i_get_span testfn st = Some (advance (length w) st)"
  using assms
proof (induction w arbitrary: st)
  case Nil
  show ?case
  proof (cases t)
    case Nil
    with \<open>ahead st ([] @ t)\<close> Nil.prems(3) show ?thesis by (subst i_get_span.simps) (simp add: ahead_end)
  next
    case (Cons c r)
    with \<open>ahead st ([] @ t)\<close> Nil.prems(3) ahead_get_char(1)[of st c r] ahead_unget[of st "[c]" r] show ?thesis
      by (subst i_get_span.simps) simp
  qed
next
  case (Cons c w)
  from Cons.prems have st: "ahead st (c # (w @ t))" by simp
  have "i_get_span testfn (advance 1 st) = Some (advance (length w) (advance 1 st))"
    using Cons.IH[OF ahead_get_char(2)[OF st]] Cons.prems by simp
  moreover have "i_len (parsePtr (advance 1 st)) < i_len (parsePtr st)" using st by (simp add: ahead_def advance_def)
  ultimately show ?case
    using Cons.prems(2) by (subst i_get_span.simps) (simp add: ahead_get_char(1)[OF st])
qed
subsection \<open>Blocks\<close>

text \<open>Braces that match, \<open>d\<close> of them open.\<close>

primrec balanced :: "nat \<Rightarrow> byte list \<Rightarrow> bool" where
  "balanced d [] \<longleftrightarrow> d = 0"
| "balanced d (c # t) \<longleftrightarrow> (if c = 125 then 0 < d \<and> balanced (d - 1) t else balanced (if c = 123 then d + 1 else d) t)"

lemma schar_eq: "schar c = schar d \<longleftrightarrow> c = d"
  by (auto intro: signed_word_eqI[where 'a = int])

lemma schar_brace: "schar c = 125 \<longleftrightarrow> c = 125" "schar c = 123 \<longleftrightarrow> c = 123" "schar c = -1 \<longleftrightarrow> c = 255"
  by (simp_all add: schar_eq[of c 125, simplified] schar_eq[of c 123, simplified] schar_eq[of c 255, simplified])

lemma ahead_block:
  assumes "ahead st (b @ 125 # r)" "balanced d b" "255 \<notin> set b"
  shows "skip_block (Suc d) st = Some (True, advance (length b + 1) st)"
  using assms
proof (induction b arbitrary: d st)
  case Nil
  then have st: "ahead st (125 # r)" by simp
  show ?case
    using Nil(2) by (subst skip_block.simps, subst skip_block.simps) (simp add: ahead_get_char(1)[OF st])
next
  case (Cons c b)
  from Cons.prems(1) have st: "ahead st (c # (b @ 125 # r))" by simp
  have more: "skip_block (Suc d') (advance 1 st) = Some (True, advance (length (c # b) + 1) st)" if "balanced d' b" for d'
    using Cons.IH[OF ahead_get_char(2)[OF st] that] Cons.prems(3) by simp
  have step: "skip_block (Suc d) st = skip_block (if c = 125 then d else if c = 123 then d + 2 else Suc d) (advance 1 st)"
    using Cons.prems(3) by (subst skip_block.simps) (simp add: ahead_get_char(1)[OF st] schar_brace)
  show ?case
    unfolding step using Cons.prems(2) more[of "d - 1"] more[of "d + 1"] more[of d] by (auto split: if_splits)
qed

lemma schar_negative: "schar c < 0 \<longleftrightarrow> 128 \<le> c"
  using uint_bounded[of c] by (auto simp: sint_cases word_le_def)

lemma small_ahead: "length buf < 2 ^ 32 \<Longrightarrow> ahead (small_instance buf) buf"
  by (simp add: ahead_def small_instance_def i_new_def)

text \<open>The first character of a token.\<close>

definition token_start :: "i_t \<Rightarrow> i_t" where
  "token_start st = i_reset_token (st\<lparr>tokenSymbol := None\<rparr>)"

lemma ahead_start: "ahead st t \<Longrightarrow> ahead (token_start st) t"
  by (simp add: ahead_def token_start_def i_reset_token_def)

lemma start_char:
  assumes "ahead st (c # t)" "\<not> is_space (schar c)"
  shows "i_ignore_ws (token_start st) = Some (schar c, advance 1 (token_start st))" "ahead (advance 1 (token_start st)) t"
  using assms(2) ahead_get_char[OF ahead_start[OF assms(1)]] by (simp_all add: i_ignore_ws.simps)

text \<open>
  Property C22. The token of a block is what is between matching braces, nested blocks included
  (\<open>i_do_next_token\<close> at an opening brace): the token has the text of the block, and the script
  goes on behind the closing brace. The block holds no byte \<open>0xFF\<close>, which no UTF-8 text has and which the scanner takes for the end.
\<close>

theorem block_token:
  assumes "ahead st (123 # b @ 125 # r)" "balanced 0 b" "255 \<notin> set b"
  shows "\<exists>st'. i_next_token rec st = Some (I_TOK_STRING, st') \<and> curToken st' = I_TOK_STRING \<and>
           script_bytes st' (curStrToken st') = Some b \<and> ahead st' r"
proof -
  let ?s = "token_start st"
  have s: "ahead ?s (123 # b @ 125 # r)" by (rule ahead_start[OF assms(1)])
  have 1: "i_ignore_ws ?s = Some (123, advance 1 ?s)" "ahead (advance 1 ?s) (b @ 125 # r)"
    using start_char[OF assms(1)] by (simp_all add: is_space_def)
  let ?t = "i_reset_token (advance 1 ?s)"
  have t: "ahead ?t (b @ 125 # r)" using 1(2) by (simp add: ahead_def i_reset_token_def)
  let ?e = "i_ignore_last_token (advance (length b + 1) ?t)"
  have len: "i_len (curStrToken ?e) = length b" "i_ptr (curStrToken ?e) = i_ptr (parsePtr ?t)"
    using t u32_small[of "length b"]
    by (simp_all add: i_ignore_last_token_def advance_def ahead_def i_reset_token_def token_start_def)
  have block: "tok_block (advance 1 ?s) = Some (True, I_TOK_STRING, ?e)"
    using ahead_block[OF t assms(2,3)] by (simp add: tok_block_def)
  have kind: "\<not> is_alpha 123" "\<not> is_operator 123" "number_ahead 123 (advance 1 ?s) = Some False" by code_simp+
  have "i_next_token rec st = Some (I_TOK_STRING, ?e\<lparr>curToken := I_TOK_STRING\<rparr>)"
    using 1(1) kind block by (simp add: i_next_token_def i_do_next_token_def token_start_def)
  moreover have "ahead ?e r"
    using ahead_advance[of ?t "b @ [125]" r] t len(1) by (simp add: ahead_def i_ignore_last_token_def)
  moreover have "script_bytes ?e (curStrToken ?e) = Some b"
    unfolding script_bytes_def len using ahead_take[OF t] by simp
  ultimately show ?thesis by auto
qed

lemma block_token_witness:
  "\<exists>st'. i_next_token (interp no_client 1) (small_instance [123, 97, 123, 125, 125]) = Some (I_TOK_STRING, st') \<and>
     script_bytes st' (curStrToken st') = Some [97, 123, 125]"
proof -
  have "ahead (small_instance [123, 97, 123, 125, 125]) (123 # [97, 123, 125] @ 125 # [])"
    using small_ahead[of "[123, 97, 123, 125, 125]"] by simp
  from block_token[OF this] show ?thesis by auto
qed

subsection \<open>Comments\<close>

lemma ahead_comment:
  assumes "ahead st (t @ b # r)" "\<forall>c \<in> set t. c < 128 \<and> c \<noteq> 10" "128 \<le> b \<or> b = 10"
  shows "skip_comment st = Some (schar b, advance (length t + 1) st)"
  using assms
proof (induction t arbitrary: st)
  case Nil
  then have st: "ahead st (b # r)" by simp
  have "schar b < 0 \<or> schar b = 10" using Nil(3) by (auto simp: schar_negative)
  then show ?case by (subst skip_comment.simps) (auto simp: ahead_get_char(1)[OF st])
next
  case (Cons c t)
  from Cons.prems(1) have st: "ahead st (c # (t @ b # r))" by simp
  have "0 \<le> schar c" "schar c \<noteq> 10"
    using Cons.prems(2) schar_negative[of c] schar_eq[of c 10] by auto
  then show ?case
    using Cons.IH[OF ahead_get_char(2)[OF st]] Cons.prems by (subst skip_comment.simps) (simp add: ahead_get_char(1)[OF st])
qed

text \<open>
  A byte above 127 in a comment ends the script. Characters are signed
  (\<open>int c = *ptr\<close> in \<open>i_get_char\<close>), so the loop over a comment
  (\<open>while (c >= 0 and c isnot '\n')\<close>) stops at the byte and hands its negative value on as the
  token; \<open>i_parse_string\<close> takes it for the end of the text: it returns \<open>I_OK\<close>, and nothing
  behind the byte is run.
\<close>

theorem comment_byte_ends_script:
  assumes "ahead st (35 # t @ b # r)" "list_all (\<lambda>c. c < 128 \<and> c \<noteq> 10) t" "128 \<le> b"
  shows "\<exists>st'. run_statements rec savepc st = Some (I_OK, None, st') \<and> parsePtr st' = savepc \<and>
           syms st' = syms st \<and> funs st' = funs st \<and> arys st' = arys st \<and> strs st' = strs st"
proof -
  let ?s = "token_start st"
  have 1: "i_ignore_ws ?s = Some (35, advance 1 ?s)" "ahead (advance 1 ?s) (t @ b # r)"
    using start_char[OF assms(1)] by (simp_all add: is_space_def)
  let ?e = "advance (length t + 1) (advance 1 ?s)"
  have c: "skip_comment (advance 1 ?s) = Some (schar b, ?e)"
    using ahead_comment[OF 1(2)] assms(2,3) by (auto simp: list_all_iff)
  have kind: "number_ahead 35 (advance 1 ?s) = Some False" by code_simp
  have "i_next_token rec st = Some (schar b, ?e\<lparr>lineNum := lineNum ?e + 1, curToken := schar b\<rparr>)"
    using 1(1) kind c by (simp add: i_next_token_def i_do_next_token_def token_start_def)
  moreover have "schar b < 0" using assms(3) by (simp add: schar_negative)
  ultimately show ?thesis
    by (auto simp: run_statements_def advance_def token_start_def i_reset_token_def)
qed

lemma comment_byte_ends_script_witness:
  "\<exists>st'. run_statements (interp no_client 1) \<lparr>i_ptr = 0, i_len = 0\<rparr> (small_instance [35, 97, 195, 10, 120, 61, 49]) = Some (I_OK, None, st') \<and>
     syms st' 4 = syms (small_instance []) 4"
proof -
  have "ahead (small_instance [35, 97, 195, 10, 120, 61, 49]) (35 # [97] @ 195 # [10, 120, 61, 49])"
    using small_ahead[of "[35, 97, 195, 10, 120, 61, 49]"] by simp
  from comment_byte_ends_script[OF this] show ?thesis by (fastforce simp: small_instance_def)
qed
subsection \<open>Numbers\<close>

text \<open>The value of decimal digits, after a value read before.\<close>

definition is_digits :: "byte list \<Rightarrow> bool" where
  "is_digits ds \<longleftrightarrow> ds \<noteq> [] \<and> list_all (\<lambda>c. is_digit (schar c)) ds"

definition decimal :: "int \<Rightarrow> byte list \<Rightarrow> int" where
  "decimal v ds = foldl (\<lambda>v c. 10 * v + (schar c - 48)) v ds"

lemma decimal_ge: "0 \<le> v \<Longrightarrow> list_all (\<lambda>c. is_digit (schar c)) ds \<Longrightarrow> v \<le> decimal v ds"
proof (induction ds arbitrary: v)
  case (Cons c ds)
  then have "10 * v + (schar c - 48) \<le> decimal v (c # ds)" by (simp add: decimal_def is_digit_def)
  with Cons.prems show ?case by (simp add: is_digit_def)
qed (simp add: decimal_def)

lemma digits_from_decimal:
  assumes "0 \<le> v" "list_all (\<lambda>c. is_digit (schar c)) ds"
    and "\<forall>i < length ds. script_at st (p + i) = Some (schar (ds ! i))" "v < 2 ^ 63"
  shows "digits_from st p (length ds) v = in_int 64 (decimal v ds)"
  using assms
proof (induction ds arbitrary: v p)
  case Nil
  then show ?case by (simp add: decimal_def in_int_def)
next
  case (Cons c ds)
  let ?w = "10 * v + (schar c - 48)"
  have c: "script_at st p = Some (schar c)" "is_digit (schar c)" using Cons.prems(2,3) by force+
  have rest: "\<forall>i < length ds. script_at st (p + 1 + i) = Some (schar (ds ! i))"
    using Cons.prems(3) by (auto dest: spec[of _ "Suc _"])
  have w: "0 \<le> ?w" "10 * v \<le> ?w" using c(2) Cons.prems(1) by (simp_all add: is_digit_def)
  have dec: "decimal v (c # ds) = decimal ?w ds" by (simp add: decimal_def)
  show ?case
  proof (cases "?w < 2 ^ 63")
    case True
    with w Cons.prems(1) have "in_int 64 (10 * v) = Some (10 * v)" "in_int 64 ?w = Some ?w" by (simp_all add: in_int_def)
    moreover have "digits_from st (p + 1) (length ds) ?w = in_int 64 (decimal ?w ds)"
      using Cons.prems(2) by (intro Cons.IH[OF w(1) _ rest True]) simp
    ultimately show ?thesis by (simp add: c dec)
  next
    case False
    then have "in_int 64 ?w = None" by (simp add: in_int_def)
    moreover have "in_int 64 (decimal ?w ds) = None"
      using decimal_ge[OF w(1), of ds] Cons.prems(2) False by (simp add: in_int_def)
    ultimately show ?thesis by (auto simp: c dec in_int_def bind_eq_None_conv)
  qed
qed

text \<open>
  A decimal number is lexed and valued as written (\<open>i_do_next_token\<close>,
  \<open>i_string_to_num\<close>): of digits that no further digit, no \<open>x\<close> and no end of string follows, the
  token is a number, it spans the digits, and its value is their decimal value whenever that fits in
  64 bits; otherwise the multiplication or addition overflows, which C leaves undefined.
\<close>

theorem number_token_value:
  assumes "ahead st (ds @ t)" "is_digits ds"
    and "t = [] \<or> \<not> is_digit (schar (hd t)) \<and> hd t \<notin> {0, 88, 120, 255}"
  shows "\<exists>st'. i_next_token rec st = Some (I_TOK_NUMBER, st') \<and> ahead st' t \<and>
           script_bytes st' (curStrToken st') = Some ds \<and>
           i_string_to_num st' (curStrToken st') = in_int 64 (decimal 0 ds)"
proof -
  obtain d ds' where ds: "ds = d # ds'" "is_digit (schar d)" "list_all (\<lambda>c. is_digit (schar c)) ds'"
    using assms(2) by (cases ds) (auto simp: is_digits_def)
  let ?s = "token_start st"
  let ?a = "advance 1 ?s"
  have st: "ahead st (d # (ds' @ t))" using assms(1) ds by simp
  have 1: "i_ignore_ws ?s = Some (schar d, ?a)" "ahead ?a (ds' @ t)"
    using start_char[OF st] ds(2) by (auto simp: is_space_def is_digit_def)
  have d: "schar d \<noteq> 92" "schar d \<noteq> 35" "number_ahead (schar d) ?a = Some True"
    using ds(2) by (auto simp: is_digit_def number_ahead_def)
  have peek: "\<exists>p. i_peek_char ?a 0 = Some p \<and> \<not> in_str (ascii ''xX'') p"
  proof (cases "ds' @ t")
    case Nil
    then have "i_peek_char ?a 0 = Some (-1)" using ahead_peek_end[OF 1(2), of 0] by simp
    moreover have "\<not> in_str (ascii ''xX'') (-1)" by code_simp
    ultimately show ?thesis by blast
  next
    case (Cons c r)
    then have "i_peek_char ?a 0 = Some (schar c)" using ahead_peek[OF 1(2), of 0] by simp
    moreover have "\<not> in_str (ascii ''xX'') (schar c)"
    proof
      assume "in_str (ascii ''xX'') (schar c)"
      moreover have "schar ` set (ascii ''xX'') = {120, 88}" by code_simp
      ultimately have "schar c = 0 \<or> c = 120 \<or> c = 88"
        using schar_eq[of c 120] schar_eq[of c 88] by (simp add: in_str_def)
      then have "c \<in> {0, 120, 88}" by (auto simp: signed_eq_0_iff)
      with Cons assms(3) ds(3) show False by (cases ds') (auto simp: is_digit_def)
    qed
    ultimately show ?thesis by blast
  qed
  then have hex: "hex_ahead (schar d) ?a = Some False" by (auto simp: hex_ahead_def)
  let ?e = "advance (length ds') ?a"
  have "case t of [] \<Rightarrow> \<not> is_digit (-1) | c # _ \<Rightarrow> \<not> is_digit (schar c) \<and> schar c \<noteq> -1"
    using assms(3) by (auto simp: is_digit_def schar_brace split: list.splits)
  with ahead_span[OF 1(2), of is_digit] ds(3) have span: "i_get_span is_digit ?a = Some ?e"
    by (auto simp: list_all_iff)
  have "i_next_token rec st = Some (I_TOK_NUMBER, ?e\<lparr>curToken := I_TOK_NUMBER\<rparr>)"
    using 1(1) d hex span by (simp add: i_next_token_def i_do_next_token_def token_start_def tok_number_def)
  moreover have "ahead ?e t" by (rule ahead_advance[OF 1(2)])
  moreover have tok: "curStrToken ?e = \<lparr>i_ptr = i_ptr (parsePtr st), i_len = length ds\<rparr>"
    by (simp add: advance_def token_start_def i_reset_token_def ds)
  moreover have "script_bytes ?e (curStrToken ?e) = Some ds"
    unfolding tok script_bytes_def using ahead_take[OF assms(1)] by (simp add: token_start_def)
  moreover have "i_string_to_num ?e (curStrToken ?e) = in_int 64 (decimal 0 ds)"
  proof -
    have at: "\<forall>i < length ds. script_at ?e (i_ptr (parsePtr st) + i) = Some (schar (ds ! i))"
      using ahead_nth[OF assms(1)] assms(1) by (simp add: script_at_def ahead_def token_start_def nth_append)
    have "script_at ?e (i_ptr (parsePtr st)) = Some (schar d)" using at by (force simp: ds)
    moreover have "schar d \<noteq> 45" using ds(2) by (auto simp: is_digit_def)
    moreover have "digits_from ?e (i_ptr (parsePtr st)) (length ds) 0 = in_int 64 (decimal 0 ds)"
      by (rule digits_from_decimal[OF _ _ at]) (use ds in auto)
    ultimately show ?thesis
      unfolding i_string_to_num_def tok by simp
  qed
  moreover have "i_string_to_num (st\<lparr>curToken := x\<rparr>) s = i_string_to_num st s" for st x s
  proof -
    have "digits_from (st\<lparr>curToken := x\<rparr>) p n = digits_from st p n" for p n
      by (induction n arbitrary: p; rule ext) (simp_all add: script_at_def)
    then show ?thesis by (simp add: i_string_to_num_def script_at_def)
  qed
  ultimately show ?thesis by auto
qed

lemma number_token_value_witness:
  "\<exists>st'. i_next_token (interp no_client 1) (small_instance [49, 50, 55, 43]) = Some (I_TOK_NUMBER, st') \<and>
     i_string_to_num st' (curStrToken st') = Some 127"
proof -
  have "ahead (small_instance [49, 50, 55, 43]) ([49, 50, 55] @ [43])"
    using small_ahead[of "[49, 50, 55, 43]"] by simp
  from number_token_value[OF this] show ?thesis
    by (fastforce simp: is_digits_def is_digit_def decimal_def in_int_def)
qed

subsection \<open>Words as operators\<close>

lemma lookup_cong:
  "funs st' = funs st \<Longrightarrow> fresh st' = fresh st \<Longrightarrow> curScope st' = curScope st \<Longrightarrow> i_lookup_symbol key st' = i_lookup_symbol key st"
proof -
  assume *: "funs st' = funs st" "fresh st' = fresh st" "curScope st' = curScope st"
  have "lookup_from n f key st' = lookup_from n f key st" for n f
    by (induction n arbitrary: f) (simp_all add: * cong: option.case_cong)
  then show ?thesis by (simp add: i_lookup_symbol_def *)
qed

definition is_word :: "byte list \<Rightarrow> bool" where
  "is_word w \<longleftrightarrow> w \<noteq> [] \<and> is_alpha (schar (hd w)) \<and> list_all (\<lambda>c. is_identifier (schar c)) w"

text \<open>
  A word never carries the level of its operator: \<open>i_do_next_token\<close> keeps the low byte of
  a symbol's type for words (\<open>r = symbol->type & 0xff\<close>) and the whole type only for operators in
  punctuation. So \<open>is\<close>, \<open>isnot\<close>, \<open>lt\<close>, \<open>and\<close>, \<open>or\<close>, declared at levels 4 and 5, are
  read at level 0 and bind tighter than \<open>*\<close>.
\<close>

theorem word_operators_lose_level:
  assumes "ahead st (w @ t)" "is_word w" "t = [] \<or> \<not> is_identifier (schar (hd t)) \<and> hd t \<noteq> 255"
    and "take 6 (drop (i_ptr (parsePtr st)) (script st)) \<noteq> ascii ''lambda''"
    and "i_lookup_symbol w st = Some (Some s)" "syms st s = Some sy" "sym_type sy = BINOP level"
  shows "\<exists>st'. i_next_token rec st = Some (I_TOK_BINOP, st') \<and> curToken st' = I_TOK_BINOP \<and>
           level_of (curToken st') = 0 \<and> tokenValue st' = sym_value sy"
proof -
  obtain c w' where w: "w = c # w'" "is_alpha (schar c)" "\<forall>c \<in> set w'. is_identifier (schar c)"
    using assms(2) by (cases w) (auto simp: is_word_def list_all_iff)
  let ?s = "token_start st"
  let ?a = "advance 1 ?s"
  have st: "ahead st (c # (w' @ t))" using assms(1) w by simp
  have c: "schar c \<in> {65..90} \<union> {97..122}" using w(2) by (auto simp: is_alpha_def is_lower_def is_upper_def)
  have 1: "i_ignore_ws ?s = Some (schar c, ?a)" "ahead ?a (w' @ t)"
    using start_char[OF st] c by (auto simp: is_space_def)
  have kind: "schar c \<noteq> 92" "schar c \<noteq> 35" "schar c \<noteq> 39" "number_ahead (schar c) ?a = Some False"
    using c by (auto simp: number_ahead_def is_digit_def)
  let ?e = "advance (length w') ?a"
  have "case t of [] \<Rightarrow> \<not> is_identifier (-1) | c # _ \<Rightarrow> \<not> is_identifier (schar c) \<and> schar c \<noteq> -1"
  proof -
    have "\<not> is_identifier (-1)" by code_simp
    with assms(3) show ?thesis by (auto simp: schar_brace split: list.splits)
  qed
  with ahead_span[OF 1(2), of is_identifier] w(3) have span: "i_get_span is_identifier ?a = Some ?e" by auto
  have tok: "curStrToken ?e = \<lparr>i_ptr = i_ptr (parsePtr st), i_len = length w\<rparr>"
    by (simp add: advance_def token_start_def i_reset_token_def w)
  have key: "script_bytes ?e (curStrToken ?e) = Some w"
    unfolding tok script_bytes_def using ahead_take[OF assms(1)] by (simp add: token_start_def)
  have "i_lookup_symbol w ?e = Some (Some s)"
    using assms(5) lookup_cong[of ?e st w] by (simp add: advance_def token_start_def i_reset_token_def)
  moreover have "\<not> at_lambda ?e" unfolding at_lambda_def tok using assms(4) by (simp add: token_start_def)
  moreover have "syms ?e s = Some sy" using assms(6) by (simp add: advance_def token_start_def i_reset_token_def)
  ultimately have "\<exists>st'. tok_word rec False ?a = Some (True, I_TOK_BINOP, st') \<and> tokenValue st' = sym_value sy"
    using span key assms(7) by (simp add: tok_word_def BINOP_def)
  then obtain st' where st': "tok_word rec False ?a = Some (True, I_TOK_BINOP, st')" "tokenValue st' = sym_value sy" by blast
  have "i_next_token rec st = Some (I_TOK_BINOP, st'\<lparr>curToken := I_TOK_BINOP\<rparr>)"
    using 1(1) kind st'(1) w(2) by (simp add: i_next_token_def i_do_next_token_def token_start_def)
  then show ?thesis using st'(2) by (auto simp: level_of_def)
qed

text \<open>The small instance with the operator \<open>lt\<close> under its other name.\<close>

definition word_instance :: "byte list \<Rightarrow> i_t" where
  "word_instance buf = (small_instance buf)\<lparr>funs := [0 \<mapsto> (fun_new [103] None)\<lparr>symbols := Some [([108, 116], 3, False)]\<rparr>]\<rparr>"

lemma word_operators_lose_level_witness:
  "\<exists>st'. i_next_token (interp no_client 1) (word_instance [108, 116, 32, 49]) = Some (I_TOK_BINOP, st') \<and> level_of (curToken st') = 0 \<and>
     tokenValue st' = Op I_lt \<and> map_option sym_type (syms (word_instance []) 3) = Some (BINOP 4)"
proof -
  have a: "ahead (word_instance [108, 116, 32, 49]) ([108, 116] @ [32, 49])"
    using small_ahead[of "[108, 116, 32, 49]"] by (simp add: word_instance_def ahead_def)
  have "is_word [108, 116]" "\<not> is_identifier (schar (32 :: byte))"
    "take 6 (drop (i_ptr (parsePtr (word_instance [108, 116, 32, 49]))) (script (word_instance [108, 116, 32, 49]))) \<noteq> ascii ''lambda''"
    "i_lookup_symbol [108, 116] (word_instance [108, 116, 32, 49]) = Some (Some 3)"
    by code_simp+
  with word_operators_lose_level[OF a, where s = 3 and sy = "\<lparr>sym_type = BINOP 4, sym_const = False, sym_value = Op I_lt\<rparr>"]
  show ?thesis by (fastforce simp: word_instance_def small_instance_def)
qed

subsection \<open>Printing\<close>

text \<open>A print whose text is not ended never returns.\<close>

theorem print_unended: "i_len (parsePtr st) = 0 \<Longrightarrow> interp env n (Call_print fp prev err str) st = None"
proof (induction n arbitrary: prev str)
  case (Suc n)
  then show ?case by (simp add: interp_body_def print_turn_def i_get_char_def)
qed simp

text \<open>One that begins with a backslash reads before its string, which is still empty.\<close>

theorem print_begins_with_backslash:
  "prev \<noteq> 92 \<Longrightarrow> i_peek_char st 1 \<noteq> Some 36 \<Longrightarrow> print_backslash prev [] st = None"
  by (cases "i_peek_char st 1") (auto simp: print_backslash_def)

text \<open>The name of a symbol is read up to the closing brace.\<close>

lemma ahead_read_sym:
  assumes "ahead st (w @ 125 # r)" "0 \<notin> set w" "125 \<notin> set w" "255 \<notin> set w" "length key + length w < MAXLEN_SYMBOL_LEN" "length w < n"
  shows "\<exists>p. read_sym n key prev st = Some (Some (key @ w), p, advance (length w + 1) st)"
  using assms
proof (induction w arbitrary: n key prev st)
  case Nil
  then obtain m where n: "n = Suc m" by (cases n) auto
  have st: "ahead st (125 # r)" using Nil.prems(1) by simp
  show ?case using Nil.prems(5) by (simp add: n ahead_get_char(1)[OF st])
next
  case (Cons c w)
  then obtain m where n: "n = Suc m" by (cases n) auto
  have st: "ahead st (c # (w @ 125 # r))" using Cons.prems(1) by simp
  have c: "schar c \<noteq> -1" "schar c \<noteq> 125" "schar c \<noteq> 0" "word_of_int (schar c) = c"
    using Cons.prems(2-4) by (auto simp: schar_brace signed_eq_0_iff)
  obtain p where "read_sym m (key @ [c]) (schar c) (advance 1 st) = Some (Some ((key @ [c]) @ w), p, advance (length w + 1) (advance 1 st))"
    using Cons.IH[OF ahead_get_char(2)[OF st], of "key @ [c]" m "schar c"] Cons.prems n by auto
  then show ?case using Cons.prems(5) c by (simp add: n ahead_get_char(1)[OF st])
qed

text \<open>
  The manual has \<open>${%d, (i * 2)}\<close> print the value of the expression. Behind a directive the code looks at the
  percent sign instead of at the parenthesis, so what is in the braces is taken for the name of a symbol: there is none, and
  nothing is printed.
\<close>

theorem print_directive_expression:
  assumes "ahead st (123 # 37 # d # 44 # 32 # (40 # w @ 41 # 125 # r))" "d \<in> {115, 112, 100, 111, 120}"
    and "0 \<notin> set w" "125 \<notin> set w" "255 \<notin> set w" "length w < 60" "i_lookup_symbol (40 # w @ [41]) st = Some None"
  shows "\<exists>st'. print_dollar rec fp err str st = Some (err, None, st') \<and> printed st' = printed st"
proof -
  have 1: "i_get_char st = Some (123, advance 1 st)" "ahead (advance 1 st) (37 # d # 44 # 32 # (40 # w @ 41 # 125 # r))"
    using ahead_get_char[OF assms(1)] by simp_all
  have 2: "i_get_char (advance 1 st) = Some (37, advance 2 st)" "ahead (advance 2 st) (d # 44 # 32 # (40 # w @ 41 # 125 # r))"
    using ahead_get_char[OF 1(2)] by (simp_all add: numeral_2_eq_2)
  have 3: "i_get_char (advance 2 st) = Some (schar d, advance 3 st)" "ahead (advance 3 st) (44 # 32 # (40 # w @ 41 # 125 # r))"
    using ahead_get_char[OF 2(2)] by (simp_all add: numeral_3_eq_3)
  have 4: "i_get_char (advance 3 st) = Some (44, advance 4 st)" "ahead (advance 4 st) (32 # (40 # w @ 41 # 125 # r))"
    using ahead_get_char[OF 3(2)] by (simp_all add: eval_nat_numeral)
  have 5: "i_get_char (advance 4 st) = Some (32, advance 5 st)" "ahead (advance 5 st) ((40 # w @ [41]) @ 125 # r)"
    using ahead_get_char[OF 4(2)] by (simp_all add: eval_nat_numeral)
  have peek: "i_peek_char (advance 3 st) 0 = Some 44" using ahead_peek[OF 3(2), of 0] by simp
  have "schar d \<in> {115, 112, 100, 111, 120}" using assms(2) by auto
  then have dir: "print_directive 37 (advance 2 st) = Some (Some (schar d), advance 5 st)"
    using 3(1) 4(1) 5(1) peek by (simp add: print_directive_def)
  obtain p where p: "read_sym (MAXLEN_SYMBOL_LEN + 1) [] 37 (advance 5 st) = Some (Some (40 # w @ [41]), p, advance (length (40 # w @ [41]) + 1) (advance 5 st))"
    using ahead_read_sym[OF 5(2), of "[]" "MAXLEN_SYMBOL_LEN + 1" 37] assms(3-6) by (auto simp: MAXLEN_SYMBOL_LEN_def)
  have same: "i_lookup_symbol key (advance n st) = i_lookup_symbol key st" for key n
    by (rule lookup_cong) (simp_all add: advance_def)
  have "printed (advance n st) = printed st" for n by (simp add: advance_def)
  then show ?thesis
    using 1(1) 2(1) dir p assms(7) by (simp add: print_dollar_def no_value_def same del: read_sym.simps)
qed

text \<open>The small instance prints \<open>c=${c}\<close>, where \<open>c\<close> is 5.\<close>

definition print_client :: outside where
  "print_client = no_client\<lparr>format_value := (\<lambda>d v st. case v of Num n \<Rightarrow> Some (if n = 5 then [53] else []) | _ \<Rightarrow> None)\<rparr>"

lemma print_runs:
  "map_option (\<lambda>(r, _, st). (r, printed st)) (interp print_client 20 (Call_print False 34 I_NOTOK []) (small_instance (ascii ''c=${c}!'' @ [34] @ ascii '');''))) =
     Some (I_OK, [(False, ascii ''c=5!'')])"
  by code_simp

end
