(* ===== verification/Iscopes.thy ===== *)
theory Iscopes
  imports Ikeeps
begin

section \<open>The interpreter \<open>I\<close>: names and scopes\<close>

text \<open>A name means the symbol of the innermost scope around that has it.\<close>

inductive visible :: "i_t \<Rightarrow> nat \<Rightarrow> name \<Rightarrow> nat \<Rightarrow> bool" for st where
  here: "funs st f = Some fn \<Longrightarrow> symbols fn = Some es \<Longrightarrow> map_of es key = Some (s, c) \<Longrightarrow> visible st f key s"
| around: "funs st f = Some fn \<Longrightarrow> symbols fn = Some es \<Longrightarrow> map_of es key = None \<Longrightarrow> prev_fun fn = Some g \<Longrightarrow>
    visible st g key s \<Longrightarrow> visible st f key s"

inductive_simps visible_at: "visible st f key s"

text \<open>None of the scopes around has it; or, before one is found that does, a scope is met that was released.\<close>

inductive absent :: "i_t \<Rightarrow> nat \<Rightarrow> name \<Rightarrow> bool" for st where
  outermost: "funs st f = Some fn \<Longrightarrow> symbols fn = Some es \<Longrightarrow> map_of es key = None \<Longrightarrow> prev_fun fn = None \<Longrightarrow> absent st f key"
| outside: "funs st f = Some fn \<Longrightarrow> symbols fn = Some es \<Longrightarrow> map_of es key = None \<Longrightarrow> prev_fun fn = Some g \<Longrightarrow>
    absent st g key \<Longrightarrow> absent st f key"

inductive_simps absent_at: "absent st f key"

inductive dangling :: "i_t \<Rightarrow> nat \<Rightarrow> name \<Rightarrow> bool" for st where
  scope_gone: "funs st f = None \<Longrightarrow> dangling st f key"
| symbols_gone: "funs st f = Some fn \<Longrightarrow> symbols fn = None \<Longrightarrow> dangling st f key"
| around_gone: "funs st f = Some fn \<Longrightarrow> symbols fn = Some es \<Longrightarrow> map_of es key = None \<Longrightarrow> prev_fun fn = Some g \<Longrightarrow>
    dangling st g key \<Longrightarrow> dangling st f key"

inductive_simps dangling_at: "dangling st f key"

text \<open>Scopes are nested: a function lies in one that was made before it, and is live with it.\<close>

definition nested :: "i_t \<Rightarrow> bool" where
  "nested st \<longleftrightarrow> (\<forall>f fn. funs st f = Some fn \<longrightarrow> f < fresh st \<and> symbols fn \<noteq> None \<and>
     (\<forall>g. prev_fun fn = Some g \<longrightarrow> g < f \<and> funs st g \<noteq> None))"

lemma nestedD:
  "nested st \<Longrightarrow> funs st f = Some fn \<Longrightarrow> f < fresh st \<and> (\<exists>es. symbols fn = Some es) \<and>
     (\<forall>g. prev_fun fn = Some g \<longrightarrow> g < f \<and> (\<exists>gn. funs st g = Some gn))"
  by (fastforce simp: nested_def)

lemma lookup_from_visible:
  assumes "nested st" "funs st f = Some fn" "f + 1 < n"
  shows "\<exists>r. lookup_from n (Some f) key st = Some r \<and> (\<forall>s. r = Some s \<longleftrightarrow> visible st f key s)"
  using assms(2,3)
proof (induction n arbitrary: f fn)
  case (Suc n)
  note d = nestedD[OF assms(1) Suc.prems(1)]
  then obtain es where es: "symbols fn = Some es" by blast
  show ?case
  proof (cases "map_of es key")
    case (Some v)
    then obtain s c where "v = (s, c)" by (cases v)
    with Some Suc.prems(1) es show ?thesis by (simp add: visible_at[of st f])
  next
    case none: None
    show ?thesis
    proof (cases "prev_fun fn")
      case None
      with none Suc.prems es show ?thesis by (cases n) (simp_all add: visible_at[of st f])
    next
      case (Some g)
      with d obtain gn where g: "g < f" "funs st g = Some gn" by blast
      with Suc.prems have "g + 1 < n" by simp
      have "visible st f key s = visible st g key s" for s
        using none Some Suc.prems(1) es by (subst visible_at) simp
      with Suc.IH[OF g(2) \<open>g + 1 < n\<close>] none Some Suc.prems(1) es show ?thesis by simp
    qed
  qed
qed simp

lemma lookup_innermost':
  assumes "nested st" "funs st (curScope st) = Some fn"
  shows "\<exists>r. i_lookup_symbol key st = Some r \<and> (\<forall>s. r = Some s \<longleftrightarrow> visible st (curScope st) key s)"
  unfolding i_lookup_symbol_def
  by (rule lookup_from_visible[OF assms]) (use nestedD[OF assms] in simp)

text \<open>Functions lie in older ones, so the search is over after as many steps as there are objects.\<close>

lemma lookup_from_cases:
  assumes "wf_state st" "f + 1 < n"
  shows "(lookup_from n (Some f) key st = Some (Some s) \<longleftrightarrow> visible st f key s) \<and>
     (lookup_from n (Some f) key st = Some None \<longleftrightarrow> absent st f key) \<and>
     (lookup_from n (Some f) key st = None \<longleftrightarrow> dangling st f key)"
  using assms(2)
proof (induction n arbitrary: f)
  case (Suc n)
  show ?case
  proof (cases "\<exists>fn es. funs st f = Some fn \<and> symbols fn = Some es")
    case False
    then have "funs st f = None \<or> (\<exists>fn. funs st f = Some fn \<and> symbols fn = None)" by force
    then show ?thesis by (auto simp: visible_at[of st f] absent_at[of st f] dangling_at[of st f])
  next
    case True
    then obtain fn es where f: "funs st f = Some fn" "symbols fn = Some es" by blast
    show ?thesis
    proof (cases "map_of es key = None \<and> (\<exists>g. prev_fun fn = Some g)")
      case True
      then obtain g where g: "map_of es key = None" "prev_fun fn = Some g" by blast
      then have "g < f" using assms(1) f(1) by (auto simp: wf_state_def)
      with Suc have "g + 1 < n" by simp
      from Suc.IH[OF this] f g show ?thesis
        by (simp add: visible_at[of st f] absent_at[of st f] dangling_at[of st f])
    next
      case False
      with f Suc.prems show ?thesis
        by (cases "map_of es key"; cases n)
           (auto simp: visible_at[of st f] absent_at[of st f] dangling_at[of st f])
    qed
  qed
qed simp

text \<open>
  Property C21. The search for a name (\<open>i_lookup_symbol\<close>) finds a symbol if and only if it is the one of
  the innermost scope that has the name, and finds nothing if and only if none of the scopes around the current one has it. In a
  well-formed instance, which every script keeps well-formed (C13, whose invariant says that a function lies in one that is older), the
  search always ends: it has no answer in the model only where it meets a scope that was released, which is a
  read of freed memory, and never because the bound on its steps was too small.
\<close>

theorem lookup_innermost:
  assumes "wf_state st"
  shows "(i_lookup_symbol key st = Some (Some s) \<longleftrightarrow> visible st (curScope st) key s) \<and>
     (i_lookup_symbol key st = Some None \<longleftrightarrow> absent st (curScope st) key) \<and>
     (i_lookup_symbol key st = None \<longleftrightarrow> dangling st (curScope st) key)"
proof -
  have "curScope st + 1 < fresh st + 2" using assms by (simp add: wf_state_def)
  then show ?thesis unfolding i_lookup_symbol_def by (rule lookup_from_cases[OF assms])
qed

lemma map_of_put_symbol [simp]: "map_of (put_symbol k v es) = (map_of es)(k \<mapsto> v)"
  by (induction k v es rule: put_symbol.induct) auto
text \<open>An instance in the scope of a function that has \<open>c\<close>, inside a scope that has \<open>x\<close> and \<open>c\<close>.\<close>

definition scopes_instance :: i_t where
  "scopes_instance = (small_instance [])
     \<lparr>funs := [0 \<mapsto> (fun_new [103] None)\<lparr>symbols := Some [([120], 4, False), ([99], 3, False)]\<rparr>,
               6 \<mapsto> (fun_new [102] (Some 0))\<lparr>symbols := Some [([99], 5, True)]\<rparr>],
      fresh := 7, curScope := 6\<rparr>"

lemma scopes_nested: "nested scopes_instance"
  by (auto simp: nested_def scopes_instance_def fun_new_def split: if_splits)

lemma scopes_wf: "wf_state scopes_instance"
  by (auto simp: wf_state_def wf_fun_def scopes_instance_def small_instance_def i_new_def fun_new_def split: if_splits)

lemma lookup_innermost_witness:
  "i_lookup_symbol [99] scopes_instance = Some (Some 5) \<and> i_lookup_symbol [98] scopes_instance = Some None"
proof -
  have cur: "curScope scopes_instance = 6" by (simp add: scopes_instance_def)
  have "visible scopes_instance 6 [99] 5"
    by (subst visible_at) (auto simp: scopes_instance_def fun_new_def)
  moreover have "absent scopes_instance 0 [98]"
    by (subst absent_at) (simp add: scopes_instance_def fun_new_def)
  then have "absent scopes_instance 6 [98]"
    by (subst absent_at) (simp add: scopes_instance_def fun_new_def)
  ultimately show ?thesis
    using lookup_innermost[OF scopes_wf, of "[99]"] lookup_innermost[OF scopes_wf, of "[98]"] by (simp add: cur)
qed

lemma visible_below:
  assumes "nested st" "\<forall>g < f. funs st' g = funs st g"
  shows "g < f \<Longrightarrow> visible st' g key s = visible st g key s"
proof (induction g rule: less_induct)
  case (less g)
  have same: "funs st' g = funs st g" using assms(2) less.prems by blast
  have "visible st' h key s = visible st h key s" if "funs st g = Some fn" "prev_fun fn = Some h" for fn h
    using less nestedD[OF assms(1) that(1)] that(2) by fastforce
  then show ?case unfolding visible_at[of st' g] visible_at[of st g] same by blast
qed

text \<open>
  Defining a name that the current scope does not have (\<open>i_define_symbol\<close>) always
  succeeds: from then on the name means the new symbol, whatever it meant in the scopes around, and every
  other name means what it meant.
\<close>

theorem define_shadows:
  assumes "nested st" "funs st (curScope st) = Some fn" "symbols fn = Some es" "map_of es key = None"
  shows "\<exists>s st'. i_define_symbol (curScope st) key typ v is_const st = Some (Some s, st') \<and>
     syms st' s = Some \<lparr>sym_type = typ, sym_const = is_const, sym_value = v\<rparr> \<and>
     i_lookup_symbol key st' = Some (Some s) \<and> (\<forall>k \<in> - {key}. i_lookup_symbol k st' = i_lookup_symbol k st)"
proof -
  let ?f = "curScope st" and ?s = "fresh st"
  let ?fn = "fn\<lparr>symbols := Some (put_symbol key (?s, is_const) es)\<rparr>"
  let ?st = "st\<lparr>syms := (syms st)(?s \<mapsto> \<lparr>sym_type = typ, sym_const = is_const, sym_value = v\<rparr>), fresh := ?s + 1,
    funs := (funs st)(?f \<mapsto> ?fn)\<rparr>"
  have run: "i_define_symbol ?f key typ v is_const st = Some (Some ?s, ?st)"
    using assms(2-4) by (simp add: i_define_symbol_def scope_symbols_def new_sym_def set_symbols_def)
  have nest: "nested ?st"
    using assms(1,2) unfolding nested_def by (auto split: if_splits intro: less_SucI)
  have cur: "funs ?st (curScope ?st) = Some ?fn" by simp
  have "visible ?st ?f key ?s" by (subst visible_at) simp
  with lookup_innermost'[OF nest cur, of key] have new: "i_lookup_symbol key ?st = Some (Some ?s)" by auto
  have old: "i_lookup_symbol k ?st = i_lookup_symbol k st" if "k \<noteq> key" for k
  proof -
    have "visible ?st ?f k s = visible st ?f k s" for s
    proof -
      have "visible ?st h k s = visible st h k s" if "prev_fun fn = Some h" for h
        using visible_below[OF assms(1), of ?f ?st h] nestedD[OF assms(1,2)] that by simp
      with \<open>k \<noteq> key\<close> show ?thesis
        unfolding visible_at[of ?st ?f] visible_at[of st ?f] using assms(2,3) by auto
    qed
    with lookup_innermost'[OF nest cur, of k] lookup_innermost'[OF assms(1,2), of k] show ?thesis
      by (auto split: option.splits) (metis option.exhaust)
  qed
  from run new old show ?thesis by auto
qed

lemma define_shadows_witness:
  "\<exists>s st'. i_define_symbol (curScope scopes_instance) [120] INT_TYPE (Num 9) False scopes_instance = Some (Some s, st') \<and>
     i_lookup_symbol [120] st' = Some (Some s) \<and> i_lookup_symbol [99] st' = Some (Some 5)"
proof -
  have cur: "funs scopes_instance (curScope scopes_instance) = Some ((fun_new [102] (Some 0))\<lparr>symbols := Some [([99], 5, True)]\<rparr>)"
    by (simp add: scopes_instance_def)
  have old: "i_lookup_symbol [99] scopes_instance = Some (Some 5)" by code_simp
  have es: "symbols ((fun_new [102] (Some 0))\<lparr>symbols := Some [([99], 5, True)]\<rparr>) = Some [([99], 5, True)]" by simp
  obtain s st' where "i_define_symbol (curScope scopes_instance) [120] INT_TYPE (Num 9) False scopes_instance = Some (Some s, st')"
      "i_lookup_symbol [120] st' = Some (Some s)" "\<forall>k \<in> - {[120]}. i_lookup_symbol k st' = i_lookup_symbol k scopes_instance"
    using define_shadows[OF scopes_nested cur es, of "[120]" INT_TYPE "Num 9" False] by auto
  moreover from this(3) have "i_lookup_symbol [99] st' = Some (Some 5)" using old by simp
  ultimately show ?thesis by blast
qed

end
