(* ===== verification/Ckeys.thy ===== *)
theory Ckeys
  imports Utf8
begin

section \<open>Keys: \<open>term/term_getkey.c\<close>\<close>

text \<open>
  What \<open>read\<close> answers for one byte: the byte, 0 when nothing came in time, or the error -1; a routine that asks
  for more than the list of answers holds is \<open>None\<close>. The bytes of \<open>buf\<close> that were not read yet are \<open>None\<close>, and
  looking at one is undefined.
\<close>

datatype answer = Got byte | Timeout | Failed

subsection \<open>Sequences\<close>

abbreviation ESCAPE_KEY :: int where "ESCAPE_KEY \<equiv> 27"

definition FN_KEY :: "int \<Rightarrow> int" where "FN_KEY x = x + 264"

definition read_into :: "nat \<Rightarrow> byte option list \<Rightarrow> answer list \<Rightarrow> (int \<times> byte option list \<times> answer list) option" where
  "read_into i buf as =
     (case as of [] \<Rightarrow> None
      | Got b # as \<Rightarrow> Some (1, buf[i := Some b], as)
      | Timeout # as \<Rightarrow> Some (0, buf, as)
      | Failed # as \<Rightarrow> Some (- 1, buf, as))"

definition key_of :: "(int \<times> int) list \<Rightarrow> byte \<Rightarrow> int" where
  "key_of table b = (case map_of table (uint b) of None \<Rightarrow> 0 | Some k \<Rightarrow> k)"

text \<open>The tables of the sequences that end with a tilde, of the function keys, and of the letters.\<close>

definition tilde_keys :: "(int \<times> int) list" where
  "tilde_keys = [(49, 262), (50, 331), (51, 330), (52, 360), (53, 339), (54, 338), (55, 262), (56, 360)]"

definition fn_keys_1 :: "(int \<times> int) list" where
  "fn_keys_1 = [(49, FN_KEY 1), (50, FN_KEY 2), (51, FN_KEY 3), (52, FN_KEY 4), (53, FN_KEY 5), (55, FN_KEY 6), (56, FN_KEY 7), (57, FN_KEY 8)]"

definition fn_keys_2 :: "(int \<times> int) list" where
  "fn_keys_2 = [(48, FN_KEY 9), (49, FN_KEY 10), (51, FN_KEY 11), (52, FN_KEY 12)]"

definition fn_keys_console :: "(int \<times> int) list" where
  "fn_keys_console = [(65, FN_KEY 1), (66, FN_KEY 2), (67, FN_KEY 3), (68, FN_KEY 4), (69, FN_KEY 5)]"

definition arrow_keys :: "(int \<times> int) list" where
  "arrow_keys = [(65, 259), (66, 258), (67, 261), (68, 260), (72, 262), (70, 360)]"

text \<open>After \<open>ESC [\<close> and a byte.\<close>

definition bracket_keys :: "byte option list \<Rightarrow> answer list \<Rightarrow> (int \<times> answer list) option" where
  "bracket_keys buf as =
     do { b1 \<leftarrow> buf ! 1;
          (if 48 \<le> uint b1 \<and> uint b1 \<le> 57
           then do {
             (n, buf, as) \<leftarrow> read_into 2 buf as;
             (if n = 0 then Some (ESCAPE_KEY, as)
              else do {
                b2 \<leftarrow> buf ! 2;
                (if b2 = 126 then Some (key_of tilde_keys b1, as)
                 else if b1 = 49 \<or> b1 = 50
                 then do {
                   (n, buf, as) \<leftarrow> read_into 0 buf as;
                   Some (if n = 0 then ESCAPE_KEY else key_of (if b1 = 49 then fn_keys_1 else fn_keys_2) b2, as) }
                 else Some (if b2 = 104 then 331 else 0, as)) }) }
           else if b1 = 91
           then do {
             (n, buf, as) \<leftarrow> read_into 0 buf as;
             (if n = 0 then Some (ESCAPE_KEY, as)
              else do { b0 \<leftarrow> buf ! 0; Some (key_of fn_keys_console b0, as) }) }
           else Some (key_of (arrow_keys @ [(80, 330)]) b1, as)) }"

definition escape_keys :: "byte option list \<Rightarrow> answer list \<Rightarrow> (int \<times> answer list) option" where
  "escape_keys buf as =
     do { (n, buf, as) \<leftarrow> read_into 0 buf as;
          (if n = 0 then Some (ESCAPE_KEY, as)
           else do {
             b0 \<leftarrow> buf ! 0;
             (if 97 \<le> uint b0 \<and> uint b0 \<le> 122 then Some (0, as)
              else do {
                (n, buf, as) \<leftarrow> (if b0 = 27 then read_into 0 buf as else Some (1, buf, as));
                (if n = 0 then Some (0, as)
                 else do {
                   b0 \<leftarrow> buf ! 0;
                   (if b0 \<noteq> 91 \<and> b0 \<noteq> 79 then Some (0, as)
                    else do {
                      (n, buf, as) \<leftarrow> read_into 1 buf as;
                      (if n = 0 then Some (ESCAPE_KEY, as)
                       else if b0 = 91 then bracket_keys buf as
                       else do { b1 \<leftarrow> buf ! 1;
                                 Some (key_of (arrow_keys @ [(80, FN_KEY 1), (81, FN_KEY 2), (82, FN_KEY 3), (83, FN_KEY 4)]) b1, as) }) }) }) }) }) }"

text \<open>The bytes behind the first of a character; the last result tells an invalid one.\<close>

primrec read_tail :: "nat \<Rightarrow> int \<Rightarrow> bool \<Rightarrow> answer list \<Rightarrow> (int option \<times> bool \<times> answer list) option" where
  "read_tail 0 code invalid as = Some (Some code, invalid, as)"
| "read_tail (Suc n) code invalid as =
     (case as of [] \<Rightarrow> None
      | Got b # as \<Rightarrow>
          (if \<not> IS_UTF8 b then read_tail n code True as else code_step code b \<bind> (\<lambda>code. read_tail n code invalid as))
      | _ # as \<Rightarrow> Some (None, invalid, as))"

fun term_getkey :: "answer list \<Rightarrow> (int \<times> answer list) option" where
  "term_getkey [] = None"
| "term_getkey (Timeout # as) = term_getkey as"
| "term_getkey (Failed # as) = Some (- 1, as)"
| "term_getkey (Got c # as) =
     (if c = 27 then escape_keys [Some c, None, None, None, None] as
      else if uint c \<ge> 128
      then do {
        let len = utf8_charlen c;
        (code, invalid, as) \<leftarrow> read_tail (nat (len - 1)) (uint c) False as;
        (case code of None \<Rightarrow> Some (- 1, as)
         | Some code \<Rightarrow> if invalid then Some (- 1, as)
             else map_option (\<lambda>code. (code, as)) (in_int 32 (code - offsetsFromUTF8 ! nat (len - 1)))) }
      else Some (if c = 127 then 8 else uint c, as))"

subsection \<open>Characters that are typed\<close>

lemma read_tail_ok:
  "\<forall>t \<in> set ts. IS_UTF8 t \<Longrightarrow> code_steps code ts = Some r \<Longrightarrow> read_tail (length ts) code i (map Got ts @ as) = Some (Some r, i, as)"
  by (induction ts arbitrary: code) (auto simp: bind_eq_Some_conv)

lemma charlen_enc: "scalar c \<Longrightarrow> enc c = x # ts \<Longrightarrow> utf8_charlen x = int (Suc (length ts))"
  by (cases c rule: scalar_cases)
     (auto simp: enc_1 enc_2 enc_3 enc_4 utf8_charlen_def lead_iff word_less_def uint_byte_of)

lemma enc_first: "scalar c \<Longrightarrow> 128 \<le> c \<Longrightarrow> enc c = x # ts \<Longrightarrow> 128 \<le> uint x"
  by (cases c rule: scalar_cases) (auto simp: enc_1 enc_2 enc_3 enc_4 uint_byte_of)

lemma enc_ascii: "0 \<le> c \<Longrightarrow> c < 128 \<Longrightarrow> enc c = [byte_of c]"
  by (simp add: enc_1)

text \<open>Property C36. A character that is typed, of one byte or of several, is read as its code: \<open>term_getkey\<close> waits for its
  first byte, takes exactly its bytes and leaves what was typed after it. The escape key begins sequences, and
  the code 127 is given as the backspace key.\<close>

theorem typed_character_read:
  assumes "scalar c" "c \<noteq> 27" "c \<noteq> 127"
  shows "term_getkey (replicate k Timeout @ map Got (enc c) @ as) = Some (c, as)"
proof -
  obtain x ts where e: "enc c = x # ts" using enc_nonempty[OF assms(1)] by (cases "enc c") auto
  have "term_getkey (map Got (enc c) @ as) = Some (c, as)"
  proof (cases "c < 128")
    case True
    have c0: "0 \<le> c" using scalar_range[OF assms(1)] by simp
    have "uint (byte_of c) = c" "byte_of c \<noteq> 27" "byte_of c \<noteq> 127"
      using True c0 assms(2,3) by (auto simp: uint_byte_of word_uint_eq_iff)
    then show ?thesis using True c0 by (simp add: enc_ascii)
  next
    case False
    then have x: "128 \<le> uint x" using enc_first[OF assms(1) _ e] by simp
    then have "x \<noteq> 27" by auto
    have len: "utf8_charlen x = int (Suc (length ts))" using charlen_enc[OF assms(1) e] .
    have "code_step 0 x = Some (uint x)" by (simp add: code_step_id)
    then have "code_steps (uint x) ts = Some (c + offsetsFromUTF8 ! length ts)"
      using code_steps_enc[OF assms(1)] e by simp
    moreover have "\<forall>t \<in> set ts. IS_UTF8 t" using enc_tail[OF assms(1)] e by auto
    ultimately have "read_tail (length ts) (uint x) False (map Got ts @ as) = Some (Some (c + offsetsFromUTF8 ! length ts), False, as)"
      by (rule read_tail_ok[rotated])
    then show ?thesis using x \<open>x \<noteq> 27\<close> len e scalar_range[OF assms(1)] by (simp add: Let_def in_int_def)
  qed
  then show ?thesis by (induction k) auto
qed

lemma typed_character_read_witness:
  "term_getkey (replicate 2 Timeout @ map Got (enc 8364) @ [Got 113]) = Some (8364, [Got 113])"
  by (rule typed_character_read) (simp_all add: scalar_def)

text \<open>The keys of a terminal.\<close>

lemma arrows_read:
  "term_getkey (map Got (27 # ascii ''[A'')) = Some (259, [])" "term_getkey (map Got (27 # ascii ''OB'')) = Some (258, [])"
  "term_getkey (map Got (27 # ascii ''[5~'')) = Some (339, [])" "term_getkey (map Got (27 # ascii ''[15~'')) = Some (FN_KEY 5, [])"
  "term_getkey [Got 27, Timeout] = Some (27, [])"
  by code_simp+

text \<open>The sequence of an arrow key with a modifier is given up in its middle: its last letter is read as typed.\<close>

lemma modified_arrow_leaks:
  "term_getkey (map Got (27 # ascii ''[1;5C'') @ as) = Some (0, Got 67 # as)"
  by (simp add: ascii_def escape_keys_def read_into_def bracket_keys_def key_of_def fn_keys_1_def FN_KEY_def)

text \<open>An error of \<open>read\<close> inside a sequence is taken for an answer: bytes that were never read are looked at.\<close>

lemma read_error_in_sequence: "term_getkey (map Got (27 # ascii ''['') @ [Failed]) = None"
  by (simp add: ascii_def escape_keys_def read_into_def bracket_keys_def)

end
