(* ===== verification/Ctime.thy ===== *)
theory Ctime
  imports Prelude
begin

section \<open>Time: \<open>time/tp2tm.c\<close>, \<open>gmtime.c\<close>, \<open>localtime.c\<close>, \<open>tzset.c\<close>, \<open>strftime.c\<close>\<close>

text \<open>
  Seconds since 1970 are split into a date and a time of day by subtracting years and months, and a date is
  written into a buffer after a format. Division and remainder are those of C, which round towards zero, a
  \<open>long\<close> that is stored into an \<open>int\<close> loses its upper bits, and an overflow of an \<open>int\<close> is \<open>None\<close>. The minutes west
  of Greenwich, which \<open>sys_tzset\<close> asks the kernel for, are a parameter. No routine touches \<open>tm_zone\<close>, which is left out.
\<close>

definition as_int :: "int \<Rightarrow> int" where "as_int v = (v + 2 ^ 31) mod 2 ^ 32 - 2 ^ 31"

record tm =
  tm_sec :: int
  tm_min :: int
  tm_hour :: int
  tm_mday :: int
  tm_mon :: int
  tm_year :: int
  tm_wday :: int
  tm_yday :: int
  tm_isdst :: int
  tm_gmtoff :: int

subsection \<open>From seconds to a date\<close>

definition isleap :: "int \<Rightarrow> bool" where
  "isleap y \<longleftrightarrow> \<not> (y smod 4 \<noteq> 0 \<and> y smod 100 \<noteq> 0) \<or> y smod 400 = 0"

definition year_days :: "int \<Rightarrow> int" where "year_days y = 365 + (if isleap y then 1 else 0)"

definition dpm :: "int list" where "dpm = [31, 28, 31, 30, 31, 30, 31, 31, 30, 31, 30, 31]"

function year_loop :: "int \<Rightarrow> int \<Rightarrow> (int \<times> int) option" where
  "year_loop i days =
     (if days \<ge> year_days i then in_int 32 (i + 1) \<bind> (\<lambda>j. year_loop j (days - year_days i)) else Some (i, days))"
  by pat_completeness auto
termination by (relation "measure (\<lambda>(i, days). nat days)") (auto simp: year_days_def split: if_splits)

declare year_loop.simps [simp del]

primrec month_loop :: "int list \<Rightarrow> int \<Rightarrow> int \<Rightarrow> int \<times> int" where
  "month_loop [] i days = (i, days)"
| "month_loop (d # ds) i days = (if days \<ge> d then month_loop ds (i + 1) (days - d) else (i, days))"

definition tp2tm :: "tm \<Rightarrow> int \<Rightarrow> tm option" where
  "tp2tm tm t =
     do { let days = t sdiv 86400;
          let rem = t smod 86400;
          let tm = tm\<lparr>tm_sec := rem smod 60, tm_min := (rem sdiv 60) smod 60, tm_hour := (rem sdiv 60) sdiv 60, tm_wday := (4 + days) smod 7\<rparr>;
          (i, days) \<leftarrow> year_loop 1970 days;
          let tm = tm\<lparr>tm_year := i - 1900, tm_yday := as_int days, tm_mday := (if isleap i \<and> days = 59 then 2 else 1)\<rparr>;
          let (mon, days) = month_loop (take 11 dpm) 0 (if isleap i \<and> days \<ge> 59 then days - 1 else days);
          Some (tm\<lparr>tm_mon := mon, tm_mday := as_int (tm_mday tm + days)\<rparr>) }"

definition sys_gmtime :: "int \<Rightarrow> tm \<Rightarrow> tm option" where "sys_gmtime t tm = tp2tm tm t"

definition sys_tzset :: "int \<Rightarrow> int" where "sys_tzset minuteswest = minuteswest * 60"

definition sys_localtime :: "int \<Rightarrow> int \<Rightarrow> tm \<Rightarrow> tm option" where
  "sys_localtime minuteswest t tm = in_int 64 (t - sys_tzset minuteswest) \<bind> tp2tm tm"

subsection \<open>Writing a date\<close>

primrec puti :: "nat \<Rightarrow> nat \<Rightarrow> bool \<Rightarrow> bool \<Rightarrow> byte list" where
  "puti 0 n right zpad = []"
| "puti (Suc w) n right zpad =
     puti w (n div 10) False zpad @
     [if n = 0 then (if \<not> zpad \<and> \<not> right then 32 else 48) else 48 + of_nat (n mod 10)]"

text \<open>The number is an \<open>unsigned long\<close>; the rightmost column is always a digit.\<close>

definition put_number :: "int \<Rightarrow> nat \<Rightarrow> bool \<Rightarrow> byte list" where
  "put_number n wid zpad = puti wid (nat (n mod 2 ^ 64)) True zpad"

definition puttz :: "int \<Rightarrow> byte list" where
  "puttz minuteswest =
     (let d = as_int (sys_tzset minuteswest sdiv 60); a = (if d < 0 then - d else d) in
      (if d < 0 then 43 else 45) # put_number (a sdiv 60) 2 True @ put_number (a smod 60) 2 True)"

definition wday_ab :: "string list" where "wday_ab = [''Sun'', ''Mon'', ''Tue'', ''Wed'', ''Thu'', ''Fri'', ''Sat'']"

definition wday :: "string list" where
  "wday = [''Sunday'', ''Monday'', ''Tuesday'', ''Wednesday'', ''Thursday'', ''Friday'', ''Saturday'']"

definition mon_ab :: "string list" where
  "mon_ab = [''Jan'', ''Feb'', ''Mar'', ''Apr'', ''May'', ''Jun'', ''Jul'', ''Aug'', ''Sep'', ''Oct'', ''Nov'', ''Dec'']"

definition mon :: "string list" where
  "mon = [''January'', ''February'', ''March'', ''April'', ''May'', ''June'', ''July'', ''August'', ''September'', ''October'',
     ''November'', ''December'']"

definition table_entry :: "string list \<Rightarrow> int \<Rightarrow> byte list option" where
  "table_entry table i = (if 0 \<le> i \<and> i < int (length table) then Some (ascii (table ! nat i)) else None)"

text \<open>Directives that stand for a format of their own.\<close>

definition composed :: "byte \<Rightarrow> byte list option" where
  "composed c =
     (if c = 99 then Some (ascii ''%b %a %d %k:%M:%S %Z %Y'')
      else if c = 68 then Some (ascii ''%m-%d-%y'')
      else if c = 70 then Some (ascii ''%Y-%m-%d'')
      else if c = 114 then Some (ascii ''%I:%M:%S %p'')
      else if c = 82 then Some (ascii ''%H:%M'')
      else if c = 84 then Some (ascii ''%H:%M:%S'')
      else if c = 120 then Some (ascii ''%b %a %d'')
      else if c = 88 then Some (ascii ''%k:%M:%S'')
      else None)"

definition directive :: "int \<Rightarrow> tm \<Rightarrow> byte \<Rightarrow> byte list option" where
  "directive minuteswest tm c =
     (if c = 37 then Some [37]
      else if c = 97 then table_entry wday_ab (tm_wday tm)
      else if c = 65 then table_entry wday (tm_wday tm)
      else if c = 98 \<or> c = 104 then table_entry mon_ab (tm_mon tm)
      else if c = 66 then table_entry mon (tm_mon tm)
      else if c = 67 then map_option (\<lambda>y. put_number (y sdiv 100) 2 True) (in_int 32 (1900 + tm_year tm))
      else if c = 100 then Some (put_number (tm_mday tm) 2 True)
      else if c = 101 then Some (put_number (tm_mday tm) 2 False)
      else if c = 72 then Some (put_number (tm_hour tm) 2 True)
      else if c = 73 then
        (let val = (if tm_hour tm > 12 then tm_hour tm - 12 else tm_hour tm) in Some (put_number (if val \<noteq> 0 then val else 12) 2 True))
      else if c = 106 then map_option (\<lambda>d. put_number d 3 True) (in_int 32 (tm_yday tm + 1))
      else if c = 107 then Some (put_number (tm_hour tm) 2 True)
      else if c = 109 then map_option (\<lambda>m. put_number m 2 True) (in_int 32 (tm_mon tm + 1))
      else if c = 77 then Some (put_number (tm_min tm) 2 True)
      else if c = 110 then Some [10]
      else if c = 112 then Some (ascii (if tm_hour tm \<ge> 12 then ''PM'' else ''AM''))
      else if c = 80 then Some (ascii (if tm_hour tm \<ge> 12 then ''pm'' else ''am''))
      else if c = 83 then Some (put_number (tm_sec tm) 2 True)
      else if c = 116 then Some [9]
      else if c = 117 then Some (put_number (if tm_wday tm \<noteq> 0 then tm_wday tm else 7) 1 False)
      else if c = 119 then Some (put_number (tm_wday tm) 1 False)
      else if c = 121 then Some (put_number (tm_year tm smod 100) 2 True)
      else if c = 89 then map_option (\<lambda>y. put_number y 4 True) (in_int 32 (1900 + tm_year tm))
      else if c = 122 then Some (puttz minuteswest)
      else Some [])"

text \<open>
  The bytes written, without the terminator that follows them. Room is asked for once per step of the format. A
  format that ends with a percent sign is read beyond its end.
\<close>

lemma composed_flat:
  "composed c = Some g \<Longrightarrow> length (filter (\<lambda>x. composed x \<noteq> None) g) = 0 \<and> composed c \<noteq> None"
  by (auto simp: composed_def ascii_def split: if_splits)

function str_ftime :: "int \<Rightarrow> int \<Rightarrow> tm \<Rightarrow> byte list \<Rightarrow> byte list \<Rightarrow> byte list option" where
  "str_ftime minuteswest n tm out f =
     (if \<not> int (length out) + 1 < n then Some out
      else case f of
        [] \<Rightarrow> Some out
      | c # f \<Rightarrow>
          if c \<noteq> 37 then str_ftime minuteswest n tm (out @ [c]) f
          else (case f of
                  [] \<Rightarrow> None
                | c # f \<Rightarrow>
                    (case composed c of
                       Some g \<Rightarrow> str_ftime minuteswest (n - int (length out)) tm [] g \<bind>
                                  (\<lambda>s. str_ftime minuteswest n tm (out @ s) f)
                     | None \<Rightarrow> directive minuteswest tm c \<bind> (\<lambda>s. str_ftime minuteswest n tm (out @ s) f))))"
  by pat_completeness auto
termination
  by (relation "measures [\<lambda>(z, n, tm, out, f). length (filter (\<lambda>x. composed x \<noteq> None) f), \<lambda>(z, n, tm, out, f). length f]")
    (auto dest: composed_flat)

declare str_ftime.simps [simp del]

subsection \<open>The calendar\<close>

text \<open>
  The specification: days from 1970 to the first of January of a year, in closed form, and the months of a year.
  The rule of the code for leap years lets every fourth year be one; its days are counted by \<open>fourth_start\<close>.
\<close>

definition leap :: "int \<Rightarrow> bool" where "leap y \<longleftrightarrow> 4 dvd y \<and> (\<not> 100 dvd y \<or> 400 dvd y)"

definition year_start :: "int \<Rightarrow> int" where
  "year_start y = 365 * (y - 1970) + (y - 1) div 4 - (y - 1) div 100 + (y - 1) div 400 - 477"

definition fourth_start :: "int \<Rightarrow> int" where "fourth_start y = 365 * (y - 1970) + (y - 1) div 4 - 492"

definition month_lengths :: "bool \<Rightarrow> int list" where
  "month_lengths l = [31, if l then 29 else 28, 31, 30, 31, 30, 31, 31, 30, 31, 30, 31]"

definition civil_day :: "int \<Rightarrow> int \<Rightarrow> int \<Rightarrow> int" where
  "civil_day y m d = year_start y + sum_list (take (nat m) (month_lengths (leap y))) + d - 1"

definition civil_second :: "int \<Rightarrow> int \<Rightarrow> int \<Rightarrow> int \<Rightarrow> int \<Rightarrow> int \<Rightarrow> int" where
  "civil_second y m d h mi s = ((civil_day y m d * 24 + h) * 60 + mi) * 60 + s"

text \<open>A date that exists, with its day of the week and of the year.\<close>

definition tm_valid :: "tm \<Rightarrow> bool" where
  "tm_valid tm \<longleftrightarrow> 0 \<le> tm_sec tm \<and> tm_sec tm < 60 \<and> 0 \<le> tm_min tm \<and> tm_min tm < 60 \<and> 0 \<le> tm_hour tm \<and> tm_hour tm < 24 \<and>
     0 \<le> tm_mon tm \<and> tm_mon tm < 12 \<and> 1 \<le> tm_mday tm \<and> tm_mday tm \<le> month_lengths (leap (tm_year tm + 1900)) ! nat (tm_mon tm) \<and>
     tm_yday tm = civil_day (tm_year tm + 1900) (tm_mon tm) (tm_mday tm) - year_start (tm_year tm + 1900) \<and>
     tm_wday tm = (civil_day (tm_year tm + 1900) (tm_mon tm) (tm_mday tm) + 4) mod 7"

definition tm_second :: "tm \<Rightarrow> int" where
  "tm_second tm = civil_second (tm_year tm + 1900) (tm_mon tm) (tm_mday tm) (tm_hour tm) (tm_min tm) (tm_sec tm)"

lemma isleap_fourth: "0 \<le> y \<Longrightarrow> isleap y \<longleftrightarrow> 4 dvd y"
proof -
  assume "0 \<le> y"
  moreover have "400 dvd y \<Longrightarrow> 4 dvd y" "100 dvd y \<Longrightarrow> 4 dvd y"
    using dvd_trans[of 4 400 y] dvd_trans[of 4 100 y] by simp_all
  ultimately show ?thesis by (auto simp: isleap_def smod_pos simp flip: dvd_eq_mod_eq_0)
qed

lemma fourth_start_Suc: "fourth_start (y + 1) = fourth_start y + 365 + (if 4 dvd y then 1 else 0)"
  by (simp add: fourth_start_def) presburger

lemma fourth_start_same: "1970 \<le> y \<Longrightarrow> y \<le> 2100 \<Longrightarrow> fourth_start y = year_start y"
proof -
  assume a: "1970 \<le> y" "y \<le> 2100"
  have "(y - 1) div 100 - (y - 1) div 400 = 15"
  proof (cases "y \<le> 2000")
    case True
    then show ?thesis using a zdiv_mono1[of 1969 "y - 1" 100] zdiv_mono1[of "y - 1" 1999 100] zdiv_mono1[of 1969 "y - 1" 400]
      zdiv_mono1[of "y - 1" 1999 400] by simp
  next
    case False
    then show ?thesis using a zdiv_mono1[of 2000 "y - 1" 100] zdiv_mono1[of "y - 1" 2099 100] zdiv_mono1[of 2000 "y - 1" 400]
      zdiv_mono1[of "y - 1" 2099 400] by simp
  qed
  then show ?thesis by (simp add: fourth_start_def year_start_def)
qed

lemma fourth_start_later: "2100 < y \<Longrightarrow> year_start y < fourth_start y"
proof -
  assume a: "2100 < y"
  have "(y - 1) div 400 = (y - 1) div 100 div 4" using zdiv_zmult2_eq[of 4 "y - 1" 100] by simp
  moreover have "21 \<le> (y - 1) div 100" using a zdiv_mono1[of 2100 "y - 1" 100] by simp
  ultimately have "15 < (y - 1) div 100 - (y - 1) div 400" by linarith
  then show ?thesis by (simp add: fourth_start_def year_start_def)
qed

text \<open>The loop over the years ends in the year the day is in, if every fourth is a leap year.\<close>

lemma year_loop_ok:
  assumes "0 \<le> days" "0 \<le> i" "i < 2 ^ 31" "days + fourth_start i < fourth_start (2 ^ 31)"
  shows "\<exists>y r. year_loop i days = Some (y, r) \<and> i \<le> y \<and> y < 2 ^ 31 \<and> 0 \<le> r \<and> r < 365 + (if 4 dvd y then 1 else 0) \<and>
    r + fourth_start y = days + fourth_start i"
  using assms
proof (induction i days rule: year_loop.induct)
  case (1 i days)
  have yd: "year_days i = 365 + (if 4 dvd i then 1 else 0)" using 1 by (simp add: year_days_def isleap_fourth)
  show ?case
  proof (cases "days \<ge> year_days i")
    case True
    have "i + 1 \<noteq> 2 ^ 31"
    proof
      assume "i + 1 = 2 ^ 31"
      then have "fourth_start (2 ^ 31) = fourth_start i + year_days i" using fourth_start_Suc[of i] yd by simp
      then show False using 1(5) True by simp
    qed
    then have j: "in_int 32 (i + 1) = Some (i + 1)" using 1(3,4) by (simp add: in_int_def)
    have "\<exists>y r. year_loop (i + 1) (days - year_days i) = Some (y, r) \<and> i + 1 \<le> y \<and> y < 2 ^ 31 \<and> 0 \<le> r \<and>
      r < 365 + (if 4 dvd y then 1 else 0) \<and> r + fourth_start y = days - year_days i + fourth_start (i + 1)" (is "\<exists>y r. ?P y r")
    proof (rule "1.IH")
      show "days - year_days i + fourth_start (i + 1) < fourth_start (2 ^ 31)" using 1(5) fourth_start_Suc[of i] yd by simp
    qed (use True 1 \<open>i + 1 \<noteq> 2 ^ 31\<close> j in auto)
    then obtain y r where "?P y r" by blast
    then show ?thesis using True j fourth_start_Suc[of i] yd
      by (subst year_loop.simps) (intro exI[of _ y] exI[of _ r], simp add: algebra_simps)
  next
    case False
    then show ?thesis using 1 yd by (subst year_loop.simps) simp
  qed
qed

text \<open>The twenty-ninth of February is taken out of the loop over the months.\<close>

lemma month_loop_prefix:
  "0 \<le> d \<Longrightarrow> \<exists>m \<le> length ds. month_loop ds i d = (i + int m, d - sum_list (take m ds)) \<and> sum_list (take m ds) \<le> d \<and>
     (m < length ds \<longrightarrow> d < sum_list (take m ds) + ds ! m)"
proof (induction ds arbitrary: i d)
  case (Cons k ds)
  show ?case
  proof (cases "k \<le> d")
    case True
    then obtain m where "m \<le> length ds" "month_loop ds (i + 1) (d - k) = (i + 1 + int m, d - k - sum_list (take m ds))"
      "sum_list (take m ds) \<le> d - k" "m < length ds \<longrightarrow> d - k < sum_list (take m ds) + ds ! m"
      using Cons.IH[of "d - k" "i + 1"] by auto
    then show ?thesis using True by (intro exI[of _ "Suc m"]) auto
  qed (use Cons.prems in auto)
qed simp

lemma month_cases: "m \<le> (11 :: nat) \<Longrightarrow> m = 0 \<or> m = 1 \<or> m = 2 \<or> m = 3 \<or> m = 4 \<or> m = 5 \<or> m = 6 \<or> m = 7 \<or> m = 8 \<or> m = 9 \<or> m = 10 \<or> m = 11"
  by arith

definition month_start :: "nat \<Rightarrow> int" where "month_start m = sum_list (take m (take 11 dpm))"

lemma month_table:
  assumes "m \<le> 11"
  shows "sum_list (take m (month_lengths l)) = month_start m + (if l \<and> 2 \<le> m then 1 else 0)"
    "month_lengths l ! m = dpm ! m + (if l \<and> m = 1 then 1 else 0)"
    "2 \<le> m \<Longrightarrow> 59 \<le> month_start m" "m < 2 \<Longrightarrow> month_start m + dpm ! m \<le> 59" "m = 1 \<Longrightarrow> month_start m + dpm ! m = 59"
    "m = 0 \<Longrightarrow> month_start m + dpm ! m = 31" "m = 11 \<Longrightarrow> month_start m + dpm ! m = 365"
  using month_cases[OF assms] by (elim disjE; simp add: month_start_def month_lengths_def dpm_def)+

lemma month_loop_ok:
  assumes "0 \<le> r" "r < 365 + (if l then 1 else 0)"
  obtains m d where "month_loop (take 11 dpm) 0 (if l \<and> r \<ge> 59 then r - 1 else r) = (int m, d)" "m < 12" "0 \<le> d" "d < 31"
    "(if l \<and> r = 59 then 2 else 1) + d \<le> month_lengths l ! m"
    "r = sum_list (take m (month_lengths l)) + ((if l \<and> r = 59 then 2 else 1) + d) - 1"
    "2 \<le> m \<longleftrightarrow> r \<ge> 59 + (if l then 1 else 0)"
proof -
  define d where "d = (if l \<and> r \<ge> 59 then r - 1 else r)"
  have l: "length (take 11 dpm) = 11" by (simp add: dpm_def)
  have "0 \<le> d" using assms(1) by (simp add: d_def)
  then obtain m where m: "m \<le> 11" "month_loop (take 11 dpm) 0 d = (int m, d - month_start m)" "month_start m \<le> d"
    "m < 11 \<longrightarrow> d < month_start m + dpm ! m"
    using month_loop_prefix[of d "take 11 dpm" 0] unfolding l month_start_def by auto
  have up: "d < month_start m + dpm ! m"
    using m(1,4) month_table(7)[OF m(1)] assms by (cases "m = 11") (auto simp: d_def split: if_splits)
  note t = month_table[OF m(1)]
  have "dpm ! m \<le> 31" using month_cases[OF m(1)] by (elim disjE) (simp_all add: dpm_def)
  show ?thesis
  proof (rule that)
    show "month_loop (take 11 dpm) 0 (if l \<and> r \<ge> 59 then r - 1 else r) = (int m, d - month_start m)" using m(2) by (simp add: d_def)
    show "(if l \<and> r = 59 then 2 else 1) + (d - month_start m) \<le> month_lengths l ! m"
      using up t(3,4,5,6) m(3) unfolding t(2)[of l] d_def by (cases "m = 0"; cases "m = 1") (auto split: if_splits)
    show "r = sum_list (take m (month_lengths l)) + ((if l \<and> r = 59 then 2 else 1) + (d - month_start m)) - 1"
      using up t(3,4,5,6) m(3) unfolding t(1)[of l] d_def by (cases "2 \<le> m") (auto split: if_splits)
    show "2 \<le> m \<longleftrightarrow> r \<ge> 59 + (if l then 1 else 0)"
      using up t(3,4) m(3) unfolding d_def by (cases "2 \<le> m") (auto split: if_splits)
  qed (use m up \<open>dpm ! m \<le> 31\<close> in auto)
qed

subsection \<open>What the conversion gives\<close>

lemma as_int_small: "- (2 ^ 31) \<le> v \<Longrightarrow> v < 2 ^ 31 \<Longrightarrow> as_int v = v"
  by (simp add: as_int_def)

lemma tp2tm_ok:
  assumes "0 \<le> t" "t < 2 ^ 55"
  obtains y r m d where "tp2tm tm t = Some (tm\<lparr>tm_sec := t mod 60, tm_min := t div 60 mod 60, tm_hour := t div 3600 mod 24,
      tm_mday := d, tm_mon := int m, tm_year := y - 1900, tm_wday := (4 + t div 86400) mod 7, tm_yday := r\<rparr>)"
    "1970 \<le> y" "0 \<le> r" "r < 365 + (if 4 dvd y then 1 else 0)" "r + fourth_start y = t div 86400"
    "m < 12" "1 \<le> d" "d \<le> month_lengths (4 dvd y) ! m" "r = sum_list (take m (month_lengths (4 dvd y))) + d - 1"
    "2 \<le> m \<longleftrightarrow> r \<ge> 59 + (if 4 dvd y then 1 else 0)"
proof -
  have z: "fourth_start 1970 = 0" by (simp add: fourth_start_def)
  have "t div 86400 < fourth_start (2 ^ 31)" using assms(2) by (simp add: fourth_start_def)
  then obtain y r where y: "year_loop 1970 (t div 86400) = Some (y, r)" "1970 \<le> y" "0 \<le> r" "r < 365 + (if 4 dvd y then 1 else 0)"
    "r + fourth_start y = t div 86400"
    using year_loop_ok[of "t div 86400" 1970] assms(1) z pos_imp_zdiv_nonneg_iff[of 86400 t] by auto
  obtain m d where m: "month_loop (take 11 dpm) 0 (if 4 dvd y \<and> r \<ge> 59 then r - 1 else r) = (int m, d)" "m < 12" "0 \<le> d" "d < 31"
    "(if 4 dvd y \<and> r = 59 then 2 else 1) + d \<le> month_lengths (4 dvd y) ! m"
    "r = sum_list (take m (month_lengths (4 dvd y))) + ((if 4 dvd y \<and> r = 59 then 2 else 1) + d) - 1"
    "2 \<le> m \<longleftrightarrow> r \<ge> 59 + (if 4 dvd y then 1 else 0)"
    using month_loop_ok[OF y(3,4)] by blast
  have il: "isleap y \<longleftrightarrow> 4 dvd y" using y(2) by (simp add: isleap_fourth)
  have t1: "t mod 86400 mod 60 = t mod 60" by (simp add: mod_mod_cancel)
  have "t mod 86400 div 60 = t div 60 mod 1440" using mod_mult2_eq'[of t 60 1440] zmod_zmult2_eq[of 1440 t 60] by simp
  then have t2: "t mod 86400 div 60 mod 60 = t div 60 mod 60" "t mod 86400 div 60 div 60 = t div 3600 mod 24"
    using zmod_zmult2_eq[of 24 "t div 60" 60] zdiv_zmult2_eq[of 60 t 60] by (simp_all add: mod_mod_cancel)
  have p: "0 \<le> t mod 86400" "0 \<le> t mod 86400 div 60" "0 \<le> 4 + t div 86400" using assms(1) by (simp_all add: pos_imp_zdiv_nonneg_iff)
  have f: "t sdiv 86400 = t div 86400" "t smod 86400 = t mod 86400" "(t mod 86400) smod 60 = t mod 60"
    "(t mod 86400) sdiv 60 = t mod 86400 div 60" "(t mod 86400 div 60) smod 60 = t div 60 mod 60"
    "(t mod 86400 div 60) sdiv 60 = t div 3600 mod 24" "(4 + t div 86400) smod 7 = (4 + t div 86400) mod 7"
    using assms(1) p t1 t2 by (simp_all only: sdiv_pos smod_pos)
  have i: "as_int r = r" "as_int ((if 4 dvd y \<and> r = 59 then 2 else 1) + d) = (if 4 dvd y \<and> r = 59 then 2 else 1) + d" using y(3,4) m(3,4) by (auto intro!: as_int_small split: if_splits)
  have "tp2tm tm t = Some (tm\<lparr>tm_sec := t mod 60, tm_min := t div 60 mod 60, tm_hour := t div 3600 mod 24,
      tm_mday := (if 4 dvd y \<and> r = 59 then 2 else 1) + d, tm_mon := int m, tm_year := y - 1900, tm_wday := (4 + t div 86400) mod 7, tm_yday := r\<rparr>)"
    unfolding tp2tm_def f Let_def y(1) by (simp add: il m(1) i)
  then show ?thesis using that[OF _ y(2,3,4,5) m(2) _ m(5,6,7)] m(3) by simp
qed

lemma seconds_split: "((t div 86400 * 24 + t div 3600 mod 24) * 60 + t div 60 mod 60) * 60 + t mod 60 = (t :: int)"
proof -
  have "t div 86400 = t div 3600 div 24" "t div 3600 = t div 60 div 60"
    using zdiv_zmult2_eq[of 24 t 3600] zdiv_zmult2_eq[of 60 t 60] by simp_all
  then show ?thesis by (metis div_mult_mod_eq)
qed

lemma day_behind: "c < d \<Longrightarrow> ((d * 24 + h) * 60 + mi) * 60 + s = (t :: int) \<Longrightarrow> ((c * 24 + h) * 60 + mi) * 60 + s \<le> t - 86400"
  by simp

text \<open>Until the end of February 2100 every fourth year is a leap year, but for the first two months of 2100.\<close>

lemma gmtime_ok:
  assumes "0 \<le> t" "t < 4107542400"
  shows "\<exists>tm'. sys_gmtime t tm = Some tm' \<and> tm_valid tm' \<and> tm_second tm' = t \<and> 70 \<le> tm_year tm' \<and> tm_year tm' \<le> 200"
proof -
  have "t < 2 ^ 55" using assms(2) by simp
  then obtain y r m d where r: "tp2tm tm t = Some (tm\<lparr>tm_sec := t mod 60, tm_min := t div 60 mod 60, tm_hour := t div 3600 mod 24,
      tm_mday := d, tm_mon := int m, tm_year := y - 1900, tm_wday := (4 + t div 86400) mod 7, tm_yday := r\<rparr>)"
    "1970 \<le> y" "0 \<le> r" "r < 365 + (if 4 dvd y then 1 else 0)" "r + fourth_start y = t div 86400"
    "m < 12" "1 \<le> d" "d \<le> month_lengths (4 dvd y) ! m" "r = sum_list (take m (month_lengths (4 dvd y))) + d - 1"
    "2 \<le> m \<longleftrightarrow> r \<ge> 59 + (if 4 dvd y then 1 else 0)"
    by (rule tp2tm_ok[OF assms(1)])
  have days: "t div 86400 \<le> 47540" using zdiv_mono1[of t 4107542399 86400] assms(2) by simp
  have y: "y \<le> 2100"
  proof (rule ccontr)
    assume "\<not> y \<le> 2100"
    then have "fourth_start 2101 \<le> fourth_start y" using zdiv_mono1[of 2100 "y - 1" 4] by (simp add: fourth_start_def)
    then show False using r(3,5) days by (simp add: fourth_start_def)
  qed
  have same: "fourth_start y = year_start y" using fourth_start_same r(2) y by simp
  have "d \<le> month_lengths (leap y) ! m \<and> sum_list (take m (month_lengths (4 dvd y))) = sum_list (take m (month_lengths (leap y)))"
  proof (cases "y = 2100")
    case True
    then have r59: "r < 59" using r(5) days by (simp add: fourth_start_def)
    then have "m = 0 \<or> m = 1" using r(10) by (auto split: if_splits)
    moreover have "4 dvd y" "\<not> leap y" using True by (simp_all add: leap_def)
    ultimately show ?thesis using r(8,9) r59 by (auto simp: month_lengths_def)
  next
    case False
    have "y = 2000" if h: "100 dvd y"
    proof -
      obtain k where "y = 100 * k" using h by blast
      then show ?thesis using r(2) y False by simp
    qed
    then have "leap y \<longleftrightarrow> 4 dvd y" by (auto simp: leap_def)
    then show ?thesis using r(8) by simp
  qed
  note m = conjunct1[OF this] conjunct2[OF this]
  have day: "civil_day y (int m) d = t div 86400" using r(5,9) m(2) same by (simp add: civil_day_def)
  let ?tm = "tm\<lparr>tm_sec := t mod 60, tm_min := t div 60 mod 60, tm_hour := t div 3600 mod 24,
      tm_mday := d, tm_mon := int m, tm_year := y - 1900, tm_wday := (4 + t div 86400) mod 7, tm_yday := r\<rparr>"
  have "r = t div 86400 - year_start y" "(4 + t div 86400) mod 7 = (t div 86400 + 4) mod 7" using r(5) same by (simp_all add: add.commute)
  then have "tm_valid ?tm" using r(6,7) m(1) unfolding tm_valid_def by (simp add: day)
  moreover have "tm_second ?tm = t" using day seconds_split[of t] by (simp add: tm_second_def civil_second_def)
  moreover have "70 \<le> tm_year ?tm" "tm_year ?tm \<le> 200" using r(2) y by simp_all
  ultimately show ?thesis unfolding sys_gmtime_def using r(1) by blast
qed

text \<open>Property C31. From 1970 (for \<open>0 \<le> t\<close>) until the end of February 2100 \<open>sys_gmtime\<close> gives the date of the Gregorian calendar and the time of day:
  the fields are in range, the day of the week and of the year are those of the date, and counting the seconds of
  the date again gives the argument.\<close>

theorem gmtime_civil:
  assumes "0 \<le> t" "t < 4107542400"
  shows "\<exists>tm'. sys_gmtime t tm = Some tm' \<and> tm_valid tm' \<and> tm_second tm' = t"
  using gmtime_ok[OF assms, of tm] by blast

text \<open>Property C33. From the first of March 2100 on \<open>sys_gmtime\<close> never gives the date, because every fourth year is
  taken for a leap year: it calls that whole day the twenty-ninth of February 2100, and on every later day, as long as the year fits in an int
  (below \<open>2 ^ 55\<close> seconds), the date it gives is at least one day behind; only the day of the week stays right.\<close>

theorem gmtime_wrong_from_2100:
  assumes "4107542400 \<le> t" "t < 2 ^ 55"
  shows "\<exists>tm'. sys_gmtime t tm = Some tm' \<and> tm_wday tm' = (t div 86400 + 4) mod 7 \<and>
     (if t < 4107542400 + 86400 then tm_year tm' = 200 \<and> tm_mon tm' = 1 \<and> tm_mday tm' = 29 else tm_second tm' \<le> t - 86400)"
proof -
  have "0 \<le> t" using assms(1) by simp
  then obtain y r m d where r: "tp2tm tm t = Some (tm\<lparr>tm_sec := t mod 60, tm_min := t div 60 mod 60, tm_hour := t div 3600 mod 24,
      tm_mday := d, tm_mon := int m, tm_year := y - 1900, tm_wday := (4 + t div 86400) mod 7, tm_yday := r\<rparr>)"
    "1970 \<le> y" "0 \<le> r" "r < 365 + (if 4 dvd y then 1 else 0)" "r + fourth_start y = t div 86400"
    "m < 12" "1 \<le> d" "d \<le> month_lengths (4 dvd y) ! m" "r = sum_list (take m (month_lengths (4 dvd y))) + d - 1"
    "2 \<le> m \<longleftrightarrow> r \<ge> 59 + (if 4 dvd y then 1 else 0)"
    by (rule tp2tm_ok[OF _ assms(2)])
  have days: "47541 \<le> t div 86400" using zdiv_mono1[of 4107542400 t 86400] assms(1) by simp
  have y: "2100 \<le> y"
  proof (rule ccontr)
    assume "\<not> 2100 \<le> y"
    then have "fourth_start (y + 1) \<le> fourth_start 2100" using zdiv_mono1[of y 2099 4] by (simp add: fourth_start_def)
    then show False using r(4,5) days by (simp add: fourth_start_Suc) (simp add: fourth_start_def)
  qed
  have later: "fourth_start 2101 \<le> fourth_start y" if "y \<noteq> 2100"
    using that y zdiv_mono1[of 2100 "y - 1" 4] by (simp add: fourth_start_def)
  have start: "fourth_start 2100 = 47482" "year_start 2100 = 47482" "fourth_start 2101 = 47848" by (simp_all add: fourth_start_def year_start_def)
  have leaps: "4 dvd (2100 :: int)" "\<not> leap 2100" by (simp_all add: leap_def)
  have sums: "sum_list (take m (month_lengths l)) = month_start m + (if l \<and> 2 \<le> m then 1 else 0)" for l
    using month_table(1)[of m l] r(6) by simp
  let ?tm = "tm\<lparr>tm_sec := t mod 60, tm_min := t div 60 mod 60, tm_hour := t div 3600 mod 24,
      tm_mday := d, tm_mon := int m, tm_year := y - 1900, tm_wday := (4 + t div 86400) mod 7, tm_yday := r\<rparr>"
  have wday: "(4 + t div 86400) mod 7 = (t div 86400 + 4) mod 7" by (simp add: add.commute)
  show ?thesis
  proof (cases "t < 4107542400 + 86400")
    case True
    then have day: "t div 86400 = 47541" using days zdiv_mono1[of t "4107542400 + 86399" 86400] by simp
    then have "y = 2100" using later start r(3,5) by force
    with day r(5) start have r59: "r = 59" by simp
    have four: "4 dvd y" using \<open>y = 2100\<close> leaps by simp
    have "m = 0 \<or> m = 1" using r(10) r59 four by auto
    moreover have "m \<noteq> 0" using r(8,9) r59 four by (intro notI) (simp add: month_lengths_def)
    ultimately have md: "m = 1" by simp
    with r(9) r59 four have "d = 29" by (simp add: month_lengths_def)
    with True r(1) \<open>y = 2100\<close> wday md show ?thesis by (simp add: sys_gmtime_def)
  next
    case False
    then have "47542 \<le> t div 86400" using zdiv_mono1[of "4107542400 + 86400" t 86400] by simp
    then have "civil_day y (int m) d < t div 86400"
    proof (cases "y = 2100")
      case True
      then have "60 \<le> r" "r + 47482 = t div 86400" using \<open>47542 \<le> t div 86400\<close> r(5) start by simp_all
      moreover from this(1) have "2 \<le> m" using r(10) by simp
      moreover have "r = month_start m + 1 + d - 1" using r(9) sums[of True] True leaps \<open>2 \<le> m\<close> by simp
      moreover have "civil_day y (int m) d = 47482 + month_start m + d - 1"
        using True leaps start by (simp add: civil_day_def sums)
      ultimately show ?thesis by linarith
    next
      case False
      then have "year_start y < fourth_start y" using fourth_start_later y by simp
      moreover have "leap y \<Longrightarrow> 4 dvd y" by (simp add: leap_def)
      ultimately have "civil_day y (int m) d < fourth_start y + (month_start m + (if 4 dvd y \<and> 2 \<le> m then 1 else 0) + d - 1)"
        by (simp add: civil_day_def sums)
      then show ?thesis using r(5,9) sums[of "4 dvd y"] by linarith
    qed
    then have "civil_second y (int m) d (t div 3600 mod 24) (t div 60 mod 60) (t mod 60) \<le> t - 86400"
      unfolding civil_second_def by (rule day_behind[OF _ seconds_split])
    then have late: "tm_second ?tm \<le> t - 86400" unfolding tm_second_def by simp
    have day: "tm_wday ?tm = (t div 86400 + 4) mod 7" using wday by simp
    show ?thesis
      unfolding sys_gmtime_def r(1) if_not_P[OF False] by (intro exI[of _ ?tm] conjI refl late day)
  qed
qed

definition tm_zero :: tm where
  "tm_zero = \<lparr>tm_sec = 0, tm_min = 0, tm_hour = 0, tm_mday = 0, tm_mon = 0, tm_year = 0, tm_wday = 0, tm_yday = 0, tm_isdst = 0, tm_gmtoff = 0\<rparr>"

text \<open>An hour in 2024, and the first second of March 2100.\<close>

lemma gmtime_civil_witness:
  "\<exists>tm'. sys_gmtime 1709210096 (tm_zero) = Some tm' \<and> tm_valid tm' \<and> tm_second tm' = 1709210096"
  by (rule gmtime_civil) simp_all

lemma gmtime_wrong_from_2100_witness:
  "\<exists>tm'. sys_gmtime 4107542400 tm_zero = Some tm' \<and> tm_year tm' = 200 \<and> tm_mon tm' = 1 \<and> tm_mday tm' = 29"
  using gmtime_wrong_from_2100[of 4107542400 tm_zero] by auto

subsection \<open>What is written\<close>

lemma length_puti [simp]: "length (puti w n r z) = w"
  by (induction w arbitrary: n r) auto

lemma length_put_number [simp]: "length (put_number n w z) = w"
  by (simp add: put_number_def)

lemma table_entry_short: "table_entry ts i = Some s \<Longrightarrow> \<forall>t \<in> set ts. length t \<le> k \<Longrightarrow> length s \<le> k"
  by (auto simp: table_entry_def ascii_def split: if_splits)

lemma directive_short: "directive z tm c = Some s \<Longrightarrow> length s \<le> 9"
  unfolding directive_def
  by (auto simp: puttz_def Let_def ascii_def split: if_splits dest!: table_entry_short[where k = 9] simp: wday_ab_def wday_def mon_ab_def mon_def)

lemma str_ftime_bound:
  "str_ftime z n tm out f = Some s \<Longrightarrow> int (length s) \<le> max (int (length out)) (n + 7)"
proof (induction z n tm out f arbitrary: s rule: str_ftime.induct)
  case (1 z n tm out f)
  show ?case
  proof (cases "int (length out) + 1 < n")
    case False
    then show ?thesis using "1.prems" by (subst (asm) str_ftime.simps) simp
  next
    case room: True
    show ?thesis
    proof (cases f)
      case Nil
      then show ?thesis using "1.prems" room by (subst (asm) str_ftime.simps) simp
    next
      case f: (Cons c f')
      show ?thesis
      proof (cases "c = 37")
        case False
        then have "str_ftime z n tm (out @ [c]) f' = Some s" using "1.prems" room f by (subst (asm) str_ftime.simps) simp
        then show ?thesis using "1.IH"(1)[OF _ f] room False by fastforce
      next
        case c: True
        show ?thesis
        proof (cases f')
          case Nil
          then show ?thesis using "1.prems" room f c by (subst (asm) str_ftime.simps) simp
        next
          case f': (Cons d g)
          show ?thesis
          proof (cases "composed d")
            case None
            then obtain x where x: "directive z tm d = Some x" "str_ftime z n tm (out @ x) g = Some s"
              using "1.prems" room f c f' by (subst (asm) str_ftime.simps) (auto simp: bind_eq_Some_conv)
            have "int (length s) \<le> max (int (length (out @ x))) (n + 7)"
              using "1.IH"(2)[OF _ f _ f' None x(1) x(2)] room c by simp
            then show ?thesis using directive_short[OF x(1)] room by simp
          next
            case (Some h)
            then obtain x where x: "str_ftime z (n - int (length out)) tm [] h = Some x" "str_ftime z n tm (out @ x) g = Some s"
              using "1.prems" room f c f' by (subst (asm) str_ftime.simps) (auto simp: bind_eq_Some_conv)
            have "int (length x) \<le> max 0 (n - int (length out) + 7)" "int (length s) \<le> max (int (length (out @ x))) (n + 7)"
              using "1.IH"(3)[OF _ f _ f' Some x(1)] "1.IH"(4)[OF _ f _ f' Some x(1) x(2)] room c by simp_all
            then show ?thesis using room by simp
          qed
        qed
      qed
    qed
  qed
qed

lemma ftime_char: "int (length out) + 1 < n \<Longrightarrow> c \<noteq> 37 \<Longrightarrow> str_ftime z n tm out (c # f) = str_ftime z n tm (out @ [c]) f"
  by (subst str_ftime.simps) simp

lemma ftime_directive: "int (length out) + 1 < n \<Longrightarrow> composed c = None \<Longrightarrow> directive z tm c = Some s \<Longrightarrow>
  str_ftime z n tm out (37 # c # f) = str_ftime z n tm (out @ s) f"
  by (subst str_ftime.simps) simp

lemma ftime_end: "str_ftime z n tm out [] = Some out"
  by (subst str_ftime.simps) simp

lemma ftime_chars: "c \<noteq> 37 \<Longrightarrow> int (length out) + int k < n \<Longrightarrow> str_ftime z n tm out (replicate k c @ f) = str_ftime z n tm (out @ replicate k c) f"
  by (induction k arbitrary: out) (simp_all add: ftime_char)

text \<open>
  The room is only asked for before each step of the format, so the text, with its terminator, can go eight
  bytes beyond the buffer of \<open>n\<close> bytes, and never further: whatever the size, filling the buffer up to its last
  byte but one and asking for the name of a Wednesday does.\<close>

theorem strftime_overruns:
  assumes "2 \<le> n" "tm_wday tm = 3"
  shows "(\<exists>s. str_ftime z (int n) tm [] (replicate (n - 2) 120 @ ascii ''%A'') = Some s \<and> length s + 1 = n + 8) \<and>
    (\<forall>f s. str_ftime z (int n) tm [] f = Some s \<longrightarrow> length s + 1 \<le> n + 8)"
proof (intro conjI allI)
  have "directive z tm 65 = Some (ascii ''Wednesday'')"
    using assms(2) by (simp add: directive_def table_entry_def wday_def)
  then have "str_ftime z (int n) tm [] (replicate (n - 2) 120 @ ascii ''%A'') = Some (replicate (n - 2) 120 @ ascii ''Wednesday'')"
    using assms(1) by (simp add: ftime_chars ascii_def ftime_directive composed_def ftime_end)
  then show "\<exists>s. str_ftime z (int n) tm [] (replicate (n - 2) 120 @ ascii ''%A'') = Some s \<and> length s + 1 = n + 8"
    using assms(1) by (simp add: ascii_def)
  show "str_ftime z (int n) tm [] f = Some s \<longrightarrow> length s + 1 \<le> n + 8" for f s
    using str_ftime_bound[of z "int n" tm "[]" f s] by auto
qed

text \<open>Numbers are written with all their digits where the columns are enough.\<close>

definition digits_value :: "byte list \<Rightarrow> int" where
  "digits_value bs = foldl (\<lambda>a b. 10 * a + (uint b - 48)) 0 bs"

lemma digits_value_snoc: "digits_value (bs @ [b]) = 10 * digits_value bs + (uint b - 48)"
  by (simp add: digits_value_def)

lemma digit_byte: "d < 10 \<Longrightarrow> uint (48 + of_nat d :: byte) = 48 + int d"
  by (simp add: uint_word_ariths unsigned_of_nat take_bit_eq_mod)

lemma puti_value: "n < 10 ^ w \<Longrightarrow> digits_value (puti w n right True) = int n"
proof (induction w arbitrary: n right)
  case 0
  then show ?case by (simp add: digits_value_def)
next
  case (Suc w)
  have "n div 10 < 10 ^ w" using Suc.prems by (simp add: less_mult_imp_div_less mult.commute)
  then have IH: "digits_value (puti w (n div 10) False True) = int (n div 10)" by (rule Suc.IH)
  show ?case
  proof (cases "n = 0")
    case True
    then show ?thesis using IH by (simp add: digits_value_snoc)
  next
    case False
    have "uint (48 + of_nat (n mod 10) :: byte) = 48 + int (n mod 10)" by (rule digit_byte) simp
    then show ?thesis using IH False by (simp add: digits_value_snoc zdiv_int zmod_int)
  qed
qed

lemma put_number_value: "0 \<le> v \<Longrightarrow> v < 10 ^ w \<Longrightarrow> w \<le> 4 \<Longrightarrow> digits_value (put_number v w True) = v"
proof -
  assume a: "0 \<le> v" "v < 10 ^ w" "w \<le> 4"
  then have "v < 10 ^ 4" using power_increasing[of w 4 "10 :: int"] by simp
  then have "v mod 2 ^ 64 = v" using a(1) by simp
  moreover have "nat v < 10 ^ w" using a(1,2) by (simp add: nat_less_iff)
  ultimately show ?thesis using puti_value[of "nat v" w True] a(1) by (simp add: put_number_def)
qed

definition iso_second :: "byte list \<Rightarrow> int" where
  "iso_second s =
     (let f = (\<lambda>i w. digits_value (take w (drop i s))) in
      civil_second (f 0 4) (f 5 2 - 1) (f 8 2) (f 11 2) (f 14 2) (f 17 2))"

lemma month_length_max: "m < 12 \<Longrightarrow> month_lengths l ! m \<le> 31"
proof -
  assume "m < 12"
  then have "m \<le> 11" by simp
  from month_cases[OF this] show ?thesis by (elim disjE) (simp_all add: month_lengths_def)
qed

text \<open>Property C32. A time from 1970 on (\<open>0 \<le> t\<close>) and before March 2100, converted by \<open>sys_gmtime\<close> and written after \<open>%Y-%m-%d %H:%M:%S\<close> into a buffer of
  at least 20 bytes, is a text of 19 bytes from which the time can be read back.\<close>

theorem utc_text_round_trip:
  assumes "0 \<le> t" "t < 4107542400" "20 \<le> n"
  shows "\<exists>tm' s. sys_gmtime t tm = Some tm' \<and> str_ftime z n tm' [] (ascii ''%Y-%m-%d %H:%M:%S'') = Some s \<and>
    length s = 19 \<and> iso_second s = t"
proof -
  obtain tm' where tm': "sys_gmtime t tm = Some tm'" "tm_valid tm'" "tm_second tm' = t" "70 \<le> tm_year tm'" "tm_year tm' \<le> 200"
    using gmtime_ok[OF assms(1,2), of tm] by blast
  have "tm_mon tm' < 12" "0 \<le> tm_mon tm'" using tm'(2) by (simp_all add: tm_valid_def)
  then have "month_lengths (leap (tm_year tm' + 1900)) ! nat (tm_mon tm') \<le> 31" by (intro month_length_max) simp
  then have r: "0 \<le> tm_sec tm'" "tm_sec tm' < 60" "0 \<le> tm_min tm'" "tm_min tm' < 60" "0 \<le> tm_hour tm'" "tm_hour tm' < 24"
    "0 \<le> tm_mon tm'" "tm_mon tm' < 12" "1 \<le> tm_mday tm'" "tm_mday tm' \<le> 31" using tm'(2) by (auto simp: tm_valid_def)
  have d: "directive z tm' 89 = Some (put_number (1900 + tm_year tm') 4 True)" "directive z tm' 109 = Some (put_number (tm_mon tm' + 1) 2 True)"
    "directive z tm' 100 = Some (put_number (tm_mday tm') 2 True)" "directive z tm' 72 = Some (put_number (tm_hour tm') 2 True)"
    "directive z tm' 77 = Some (put_number (tm_min tm') 2 True)" "directive z tm' 83 = Some (put_number (tm_sec tm') 2 True)"
    using r tm'(4,5) by (simp_all add: directive_def in_int_def)
  define s where "s = put_number (1900 + tm_year tm') 4 True @ [45] @ put_number (tm_mon tm' + 1) 2 True @ [45] @ put_number (tm_mday tm') 2 True @ [32] @
    put_number (tm_hour tm') 2 True @ [58] @ put_number (tm_min tm') 2 True @ [58] @ put_number (tm_sec tm') 2 True"
  have "str_ftime z n tm' [] (ascii ''%Y-%m-%d %H:%M:%S'') = Some s"
    using assms(3) by (simp add: ascii_def ftime_directive ftime_char ftime_end composed_def d s_def)
  moreover have "length s = 19" by (simp add: s_def)
  moreover have "iso_second s = t"
    using r tm'(3,4,5) by (simp add: iso_second_def s_def put_number_value tm_second_def Let_def add.commute)
  ultimately show ?thesis using tm'(1) by blast
qed

lemma utc_text_round_trip_witness:
  "\<exists>tm' s. sys_gmtime 1709210096 tm_zero = Some tm' \<and> str_ftime 0 64 tm' [] (ascii ''%Y-%m-%d %H:%M:%S'') = Some s \<and>
    length s = 19 \<and> iso_second s = 1709210096"
  by (rule utc_text_round_trip) simp_all

lemma strftime_overruns_witness:
  "\<exists>s. str_ftime 0 (int 10) (tm_zero\<lparr>tm_wday := 3\<rparr>) [] (replicate (10 - 2) 120 @ ascii ''%A'') = Some s \<and> length s + 1 = 10 + (8 :: nat)"
  using strftime_overruns[of 10 "tm_zero\<lparr>tm_wday := 3\<rparr>" 0] by simp

end
