(* ===== verification/Cfdio.thy ===== *)
theory Cfdio
  imports Ctime
begin

section \<open>Reading and writing all of a buffer: \<open>unistd/read.c\<close>, \<open>unistd/write.c\<close>\<close>

text \<open>
  The kernel's answers to the calls are a list that is taken from the front; a routine that asks for more than the
  list holds is \<open>None\<close>.
\<close>

text \<open>The answers: bytes that were moved (for a read, which), the two errors that are tried again, any other
  error, and those of \<open>nanosleep\<close>.\<close>

datatype 'a io_answer = Moved 'a | Interrupted | Again | Broken | Slept | Sleep_interrupted | Sleep_broken

primrec nap :: "'a io_answer list \<Rightarrow> (bool \<times> 'a io_answer list) option" where
  "nap [] = None"
| "nap (a # as) =
     (case a of Slept \<Rightarrow> Some (True, as) | Sleep_interrupted \<Rightarrow> nap as | Sleep_broken \<Rightarrow> Some (False, as) | _ \<Rightarrow> None)"

lemma nap_shorter: "nap as = Some (b, as') \<Longrightarrow> length as' < length as"
  by (induction as) (auto split: io_answer.splits intro: less_SucI)

text \<open>\<open>tbts\<close> begins with the length that is to be written. The bytes that went out are the first result.\<close>

function fd_write_loop :: "nat \<Rightarrow> byte list \<Rightarrow> byte list \<Rightarrow> nat \<Rightarrow> nat io_answer list \<Rightarrow> (byte list \<times> int) option" where
  "fd_write_loop len out s tbts as =
     (case as of
        [] \<Rightarrow> None
      | Moved n # as \<Rightarrow>
          (if n = 0 then Some (out, as_int (int tbts))
           else if tbts + n = len then Some (out @ take n s, as_int (int (tbts + n)))
           else fd_write_loop len (out @ take n s) (drop n s) (tbts + n) as)
      | Interrupted # as \<Rightarrow> fd_write_loop len out s tbts as
      | Again # as \<Rightarrow>
          (case nap as of None \<Rightarrow> None
           | Some (slept, as') \<Rightarrow> if slept then fd_write_loop len out s tbts as' else Some (out, - 1))
      | _ # as \<Rightarrow> Some (out, - 1))"
  by pat_completeness auto
termination
  by (relation "measure (\<lambda>(len, out, s, tbts, as). length as)") (auto dest: nap_shorter)

declare fd_write_loop.simps [simp del]

definition fd_write :: "byte list \<Rightarrow> nat io_answer list \<Rightarrow> (byte list \<times> int) option" where
  "fd_write buf as = fd_write_loop (length buf) [] buf (length buf) as"

text \<open>The room is asked for as \<open>len - 1\<close>, which is the greatest \<open>size_t\<close> for no bytes.\<close>

function fd_read_loop :: "nat \<Rightarrow> byte list \<Rightarrow> byte list io_answer list \<Rightarrow> (byte list \<times> int) option" where
  "fd_read_loop len got as =
     (case as of
        [] \<Rightarrow> None
      | Moved bs # as \<Rightarrow>
          (if bs = [] then Some (got, if length got > len then - 1 else as_int (int (length got)))
           else if len \<noteq> 0 \<and> length got + length bs \<ge> len - 1
           then Some (got @ bs, if length got + length bs > len then - 1 else as_int (int (length got + length bs)))
           else fd_read_loop len (got @ bs) as)
      | Interrupted # as \<Rightarrow> fd_read_loop len got as
      | Again # as \<Rightarrow>
          (case nap as of None \<Rightarrow> None
           | Some (slept, as') \<Rightarrow> if slept then fd_read_loop len got as' else Some (got, - 1))
      | _ # as \<Rightarrow> Some (got, - 1))"
  by pat_completeness auto
termination
  by (relation "measure (\<lambda>(len, got, as). length as)") (auto dest: nap_shorter)

declare fd_read_loop.simps [simp del]

definition fd_read :: "nat \<Rightarrow> byte list io_answer list \<Rightarrow> (byte list \<times> int) option" where
  "fd_read len as = fd_read_loop len [] as"

text \<open>What the kernel documents for a file that takes all of \<open>n\<close> bytes, in pieces and with interruptions: no more
  than is asked for is written, and nothing where nothing is left.\<close>

fun takes_all :: "nat \<Rightarrow> nat io_answer list \<Rightarrow> bool" where
  "takes_all n (Moved k # as) \<longleftrightarrow> (if n = 0 then k = 0 else 0 < k \<and> k \<le> n \<and> takes_all (n - k) as)"
| "takes_all n (Interrupted # as) \<longleftrightarrow> takes_all n as"
| "takes_all n (Again # Slept # as) \<longleftrightarrow> takes_all n as"
| "takes_all n as \<longleftrightarrow> False"

lemma fd_write_loop_all:
  "takes_all (length s) as \<Longrightarrow> len = length out + length s \<Longrightarrow> tbts = len + length out \<Longrightarrow>
   fd_write_loop len out s tbts as = Some (out @ s, as_int (2 * int len))"
proof (induction "length s" as arbitrary: out s tbts rule: takes_all.induct)
  case (1 k as)
  show ?case
  proof (cases "s = []")
    case True
    then show ?thesis using 1 by (subst fd_write_loop.simps) simp
  next
    case False
    then have k: "0 < k" "k \<le> length s" "takes_all (length s - k) as" using 1(2) by auto
    have "fd_write_loop len (out @ take k s) (drop k s) (tbts + k) as = Some ((out @ take k s) @ drop k s, as_int (2 * int len))"
      using False k 1(3,4) by (intro 1(1)) auto
    then show ?thesis using k 1(3,4) by (subst fd_write_loop.simps) simp
  qed
next
  case (2 as)
  then show ?case by (subst fd_write_loop.simps) simp
next
  case (3 as)
  then show ?case by (subst fd_write_loop.simps) simp
qed auto

text \<open>Property C37. To a file that takes all the bytes, fewer than \<open>2 ^ 30\<close> of them and in whatever pieces, \<open>fd_write\<close> writes all of them in their order;
  but its counter begins with the length instead of zero, so it answers twice the number of bytes written.\<close>

theorem fd_write_doubles:
  assumes "takes_all (length buf) as" "length buf < 2 ^ 30"
  shows "fd_write buf as = Some (buf, 2 * int (length buf))"
  using fd_write_loop_all[OF assms(1), of "length buf" "[]" "length buf"] assms(2) by (simp add: fd_write_def as_int_def)

lemma fd_write_doubles_witness:
  "fd_write (ascii ''hello'') [Moved 2, Interrupted, Again, Slept, Moved 3, Moved 0] = Some (ascii ''hello'', 10)"
  using fd_write_doubles[of "ascii ''hello''" "[Moved 2, Interrupted, Again, Slept, Moved 3, Moved 0]"] by (simp add: ascii_def)

end
