(* ===== verification/Vterm.thy ===== *)
theory Vterm
  imports Prelude
begin

section \<open>The window manager \<open>Vwm\<close>: the screen of a frame (\<open>z/lib/Vwm/src/libvwm.c\<close>)\<close>

text \<open>
  A frame shows what a program writes to its terminal. It keeps the cells of the screen in
  \<open>videomem\<close> and \<open>colors\<close>, the cursor, the scroll region, the attributes and the state of the scanner
  of escape sequences. What is to be sent to the real terminal is appended to \<open>render\<close>, what goes back
  to the program to \<open>sent\<close>, and the lines that scroll out of a frame with a log to \<open>logfile\<close>. Positions
  count from 1. A row of cells is an array of \<open>num_cols\<close> elements of the size of a pointer, so it has room for
  twice as many \<open>int\<close>s; an access beyond that, as to any other array, is \<open>None\<close>.
\<close>

subsection \<open>Arrays\<close>

definition at :: "'a list \<Rightarrow> int \<Rightarrow> 'a option" where
  "at xs i = (if 0 \<le> i \<and> i < int (length xs) then Some (xs ! nat i) else None)"

definition put :: "'a list \<Rightarrow> int \<Rightarrow> 'a \<Rightarrow> 'a list option" where
  "put xs i v = (if 0 \<le> i \<and> i < int (length xs) then Some (xs[nat i := v]) else None)"

text \<open>A loop over the indices from \<open>i\<close> to \<open>j\<close>, or down from \<open>j\<close> to \<open>i\<close>.\<close>

primrec each :: "('i \<Rightarrow> 's \<Rightarrow> 's option) \<Rightarrow> 'i list \<Rightarrow> 's \<Rightarrow> 's option" where
  "each f [] s = Some s"
| "each f (i # is) s = Option.bind (f i s) (each f is)"

subsection \<open>What is sent to the terminal\<close>

fun decimal_digits :: "nat \<Rightarrow> byte list" where
  "decimal_digits n = (if n < 10 then [word_of_nat (48 + n)] else decimal_digits (n div 10) @ [word_of_nat (48 + n mod 10)])"

declare decimal_digits.simps [simp del]

definition dec :: "int \<Rightarrow> byte list" where
  "dec n = (if n < 0 then 45 # decimal_digits (nat (- n)) else decimal_digits (nat n))"

definition ESC :: "string \<Rightarrow> byte list" where "ESC s = 27 # ascii s"

definition vt_insline :: "byte list \<Rightarrow> int \<Rightarrow> byte list" where "vt_insline buf num = buf @ ESC ''['' @ dec num @ ascii ''L''"
definition vt_insertchar :: "byte list \<Rightarrow> int \<Rightarrow> byte list" where "vt_insertchar buf numcols = buf @ ESC ''['' @ dec numcols @ ascii ''@''"
definition vt_savecursor :: "byte list \<Rightarrow> byte list" where "vt_savecursor buf = buf @ ESC ''7''"
definition vt_restcursor :: "byte list \<Rightarrow> byte list" where "vt_restcursor buf = buf @ ESC ''8''"
definition vt_clreol :: "byte list \<Rightarrow> byte list" where "vt_clreol buf = buf @ ESC ''[K''"
definition vt_clrbgl :: "byte list \<Rightarrow> byte list" where "vt_clrbgl buf = buf @ ESC ''[1K''"
definition vt_clrline :: "byte list \<Rightarrow> byte list" where "vt_clrline buf = buf @ ESC ''[2K''"
definition vt_delunder :: "byte list \<Rightarrow> int \<Rightarrow> byte list" where "vt_delunder buf num = buf @ ESC ''['' @ dec num @ ascii ''P''"
definition vt_delline :: "byte list \<Rightarrow> int \<Rightarrow> byte list" where "vt_delline buf num = buf @ ESC ''['' @ dec num @ ascii ''M''"
definition vt_attr_reset :: "byte list \<Rightarrow> byte list" where "vt_attr_reset buf = buf @ ESC ''[m''"
definition vt_reverse :: "byte list \<Rightarrow> bool \<Rightarrow> byte list" where "vt_reverse buf on = buf @ ESC (if on then ''[7m'' else ''[27m'')"
definition vt_underline :: "byte list \<Rightarrow> bool \<Rightarrow> byte list" where "vt_underline buf on = buf @ ESC (if on then ''[4m'' else ''[24m'')"
definition vt_bold :: "byte list \<Rightarrow> bool \<Rightarrow> byte list" where "vt_bold buf on = buf @ ESC (if on then ''[1m'' else ''[22m'')"
definition vt_italic :: "byte list \<Rightarrow> bool \<Rightarrow> byte list" where "vt_italic buf on = buf @ ESC (if on then ''[3m'' else ''[23m'')"
definition vt_blink :: "byte list \<Rightarrow> bool \<Rightarrow> byte list" where "vt_blink buf on = buf @ ESC (if on then ''[5m'' else ''[25m'')"
definition vt_bell :: "byte list \<Rightarrow> byte list" where "vt_bell buf = buf @ [7]"
definition vt_setfg :: "byte list \<Rightarrow> int \<Rightarrow> byte list" where "vt_setfg buf color = buf @ ESC ''['' @ dec color @ ascii '';1m''"
definition vt_setbg :: "byte list \<Rightarrow> int \<Rightarrow> byte list" where "vt_setbg buf color = buf @ ESC ''['' @ dec color @ ascii '';1m''"
definition vt_left :: "byte list \<Rightarrow> int \<Rightarrow> byte list" where "vt_left buf count = buf @ ESC ''['' @ dec count @ ascii ''D''"
definition vt_right :: "byte list \<Rightarrow> int \<Rightarrow> byte list" where "vt_right buf count = buf @ ESC ''['' @ dec count @ ascii ''C''"
definition vt_up :: "byte list \<Rightarrow> int \<Rightarrow> byte list" where "vt_up buf numrows = buf @ ESC ''['' @ dec numrows @ ascii ''A''"
definition vt_down :: "byte list \<Rightarrow> int \<Rightarrow> byte list" where "vt_down buf numrows = buf @ ESC ''['' @ dec numrows @ ascii ''B''"
definition vt_irm :: "byte list \<Rightarrow> byte list" where "vt_irm buf = buf @ ESC ''[4l''"
definition vt_revscroll :: "byte list \<Rightarrow> byte list" where "vt_revscroll buf = buf @ ESC ''M''"
definition vt_setscroll :: "byte list \<Rightarrow> int \<Rightarrow> int \<Rightarrow> byte list" where
  "vt_setscroll buf row1 row2 =
     buf @ (if row1 = 0 \<and> row2 = 0 then ESC ''[r'' else ESC ''['' @ dec row1 @ ascii '';'' @ dec row2 @ ascii ''r'')"
definition vt_goto :: "byte list \<Rightarrow> int \<Rightarrow> int \<Rightarrow> byte list" where
  "vt_goto buf row col = buf @ ESC ''['' @ dec row @ ascii '';'' @ dec col @ ascii ''H''"

subsection \<open>Attributes\<close>

definition NORMAL :: byte where "NORMAL = 0"
definition BOLD :: byte where "BOLD = 1"
definition UNDERLINE :: byte where "UNDERLINE = 2"
definition BLINK :: byte where "BLINK = 4"
definition REVERSE :: byte where "REVERSE = 8"
definition ITALIC :: byte where "ITALIC = 16"
definition SELECTED :: byte where "SELECTED = 240"

unbundle bit_operations_syntax

definition has :: "byte \<Rightarrow> byte \<Rightarrow> bool" where "has a b \<longleftrightarrow> a AND b \<noteq> 0"

text \<open>\<open>simplepixel\<close> and \<open>lastpixel\<close>: the attributes of a cell, reversed when it is selected and not reversed.\<close>

definition shown_attributes :: "int \<Rightarrow> byte" where
  "shown_attributes pixel =
     (let a = drop_bit 8 pixel;
          simple = word_of_int (a AND NOT 240 AND NOT 8);
          selected = (a AND NOT 240 \<noteq> 0);
          reversed = (a AND NOT 8 \<noteq> 0) in
      if selected \<noteq> reversed then simple OR REVERSE else simple)"

text \<open>Switching one attribute, when it is among the changed ones.\<close>

definition switch_attr :: "(byte list \<Rightarrow> bool \<Rightarrow> byte list) \<Rightarrow> byte \<Rightarrow> byte \<Rightarrow> byte list \<times> byte \<Rightarrow> byte list \<times> byte" where
  "switch_attr vt b change s =
     (case s of (buf, cur) \<Rightarrow>
       if \<not> has change b then (buf, cur)
       else if has cur b then (vt buf False, cur AND NOT b)
       else (vt buf True, cur OR b))"

text \<open>The jump back to \<open>checkchange\<close> is taken at most once: it clears \<open>REVERSE\<close> in both.\<close>

definition vt_attr_check :: "byte list \<Rightarrow> int \<Rightarrow> int \<Rightarrow> byte \<Rightarrow> byte list \<times> byte" where
  "vt_attr_check buf pixel lastattr currattr =
     (let simplepixel = shown_attributes pixel;
          lastpixel = shown_attributes lastattr;
          change = lastpixel XOR simplepixel;
          (buf, cur, change) =
            (if has change REVERSE then
               (if has currattr REVERSE then (vt_attr_reset buf, currattr AND NOT REVERSE, lastpixel AND NOT REVERSE)
                else (vt_reverse buf True, currattr OR REVERSE, change))
             else (buf, currattr, change)) in
      (switch_attr vt_blink BLINK change (switch_attr vt_underline UNDERLINE change
        (switch_attr vt_italic ITALIC change (switch_attr vt_bold BOLD change (buf, cur))))))"

definition vt_attr_set :: "byte list \<Rightarrow> byte \<Rightarrow> byte list" where
  "vt_attr_set buf textattr =
     (let buf = vt_attr_reset buf;
          buf = (if has textattr BOLD then vt_bold buf True else buf);
          buf = (if has textattr UNDERLINE then vt_underline buf True else buf);
          buf = (if has textattr BLINK then vt_blink buf True else buf);
          buf = (if has textattr REVERSE then vt_reverse buf True else buf) in
      if has textattr ITALIC then vt_italic buf True else buf)"

subsection \<open>Frames\<close>

datatype vt_keystate = norm | appl

datatype scanner = vt_esc_scan | vt_esc_e | vt_esc_brace | vt_esc_brace_q | vt_esc_lparen | vt_esc_rparen | vt_esc_pound

record vwm_frame =
  mb_buf :: "byte list"
  charset :: "byte list"
  textattr :: byte
  saved_textattr :: byte
  mb_len :: int
  mb_curlen :: int
  mb_code :: int
  col_pos :: int
  row_pos :: int
  num_rows :: int
  num_cols :: int
  last_row :: int
  first_row :: int
  scroll_first_row :: int
  param_idx :: int
  saved_row_pos :: int
  saved_col_pos :: int
  colors :: "int list list"
  videomem :: "int list list"
  tabstops :: "int list"
  esc_param :: "int list"
  key_state :: vt_keystate
  logfile :: "byte list list option"
  render :: "byte list"
  sent :: "byte list"
  process_char_cb :: scanner

definition MAX_PARAMS :: nat where "MAX_PARAMS = 12"
definition TABWIDTH :: nat where "TABWIDTH = 8"
definition COLOR_FG_NORMAL :: int where "COLOR_FG_NORMAL = 39"
definition UK_CHARSET :: byte where "UK_CHARSET = 1"
definition US_CHARSET :: byte where "US_CHARSET = 2"
definition GRAPHICS :: byte where "GRAPHICS = 4"

definition emit :: "(byte list \<Rightarrow> byte list) \<Rightarrow> vwm_frame \<Rightarrow> vwm_frame" where
  "emit vt f = f\<lparr>render := vt (render f)\<rparr>"

definition emit_text :: "byte list \<Rightarrow> vwm_frame \<Rightarrow> vwm_frame" where
  "emit_text bs f = f\<lparr>render := render f @ bs\<rparr>"

text \<open>\<open>Alloc\<close> clears what it gives; the cells beyond \<open>cols\<close> are there but never meant.\<close>

definition vwm_alloc_ints :: "nat \<Rightarrow> nat \<Rightarrow> int \<Rightarrow> int list list" where
  "vwm_alloc_ints rows cols val = replicate rows (replicate cols val @ replicate cols 0)"

definition set_cell :: "int \<Rightarrow> int \<Rightarrow> int \<Rightarrow> int list list \<Rightarrow> int list list option" where
  "set_cell i j v m = do { row \<leftarrow> at m i; row \<leftarrow> put row j v; put m i row }"

definition get_cell :: "int \<Rightarrow> int \<Rightarrow> int list list \<Rightarrow> int option" where
  "get_cell i j m = do { row \<leftarrow> at m i; at row j }"

definition write_cell :: "int \<Rightarrow> int \<Rightarrow> int \<Rightarrow> int \<Rightarrow> vwm_frame \<Rightarrow> vwm_frame option" where
  "write_cell i j v clr f =
     do { vm \<leftarrow> set_cell i j v (videomem f); cm \<leftarrow> set_cell i j clr (colors f); Some (f\<lparr>videomem := vm, colors := cm\<rparr>) }"

definition vt_video_add :: "int \<Rightarrow> vwm_frame \<Rightarrow> vwm_frame option" where
  "vt_video_add c f =
     do { vm \<leftarrow> set_cell (row_pos f - 1) (col_pos f - 1) (c OR push_bit 8 (uint (textattr f))) (videomem f);
          Some (f\<lparr>videomem := vm\<rparr>) }"

definition vt_video_erase :: "int \<Rightarrow> int \<Rightarrow> int \<Rightarrow> int \<Rightarrow> vwm_frame \<Rightarrow> vwm_frame option" where
  "vt_video_erase x1 x2 y1 y2 f =
     each (\<lambda>i. each (\<lambda>j. write_cell i j 0 COLOR_FG_NORMAL) [y1 - 1..y2 - 1]) [x1 - 1..x2 - 1] f"

definition rshift_cell :: "int \<Rightarrow> int \<Rightarrow> vwm_frame \<Rightarrow> vwm_frame option" where
  "rshift_cell numcols i f =
     (let row = row_pos f - 1 in
      if i - numcols \<ge> 0
      then do { v \<leftarrow> get_cell row (i - numcols) (videomem f); c \<leftarrow> get_cell row (i - numcols) (colors f); write_cell row i v c f }
      else write_cell row i 0 COLOR_FG_NORMAL f)"

definition vt_frame_video_rshift :: "int \<Rightarrow> vwm_frame \<Rightarrow> vwm_frame option" where
  "vt_frame_video_rshift numcols f = each (rshift_cell numcols) (rev [col_pos f..num_cols f - 1]) f"

definition vt_frame_ech :: "int \<Rightarrow> vwm_frame \<Rightarrow> vwm_frame option" where
  "vt_frame_ech cols f =
     do { f \<leftarrow> each (\<lambda>i f. write_cell (row_pos f - 1) (col_pos f - i - 1) 0 COLOR_FG_NORMAL f)
            [0..min (num_cols f - col_pos f) (cols - 1)] f;
          Some (emit (\<lambda>buf. buf @ ESC ''['' @ dec cols @ ascii ''X'') f) }"

subsection \<open>Scrolling\<close>

text \<open>
  The text of a line for the log; the caller's buffer holds three bytes for each column and two more,
  a longer line is \<open>None\<close>. The low byte of a cell decides whether it is written as one byte.
\<close>

definition cell_bytes :: "int \<Rightarrow> byte list" where
  "cell_bytes c =
     (if c = 0 then []
      else if c AND 0xFF < 0x80 then [word_of_int (c AND 0xFF)]
      else if c < 0x800 then [word_of_int (drop_bit 6 c OR 0xC0), word_of_int ((c AND 0x3F) OR 0x80)]
      else if c < 0x10000 then
        [word_of_int (drop_bit 12 c OR 0xE0), word_of_int ((drop_bit 6 c AND 0x3F) OR 0x80), word_of_int ((c AND 0x3F) OR 0x80)]
      else if c < 0x110000 then
        [word_of_int (drop_bit 18 c OR 0xF0), word_of_int ((drop_bit 12 c AND 0x3F) OR 0x80),
         word_of_int ((drop_bit 6 c AND 0x3F) OR 0x80), word_of_int ((c AND 0x3F) OR 0x80)]
      else [])"

definition vt_video_line_to_str :: "int list \<Rightarrow> int \<Rightarrow> byte list option" where
  "vt_video_line_to_str line len =
     do { bs \<leftarrow> each (\<lambda>i bs. map_option (\<lambda>c. bs @ cell_bytes c) (at line i)) [0..len - 1] [];
          (if int (length bs) + 2 \<le> len * 3 + 2 then Some (bs @ [10]) else None) }"

text \<open>A row is cleared and taken out at one end of the region, and put in at the other end.\<close>

definition clear_row :: "int \<Rightarrow> int \<Rightarrow> int list \<Rightarrow> int list option" where
  "clear_row cols v row = each (\<lambda>j row. put row j v) [0..cols - 1] row"

definition move_row :: "int \<Rightarrow> int \<Rightarrow> vwm_frame \<Rightarrow> vwm_frame option" where
  "move_row dst src f =
     do { v \<leftarrow> at (videomem f) src; c \<leftarrow> at (colors f) src; vm \<leftarrow> put (videomem f) dst v; cm \<leftarrow> put (colors f) dst c;
          Some (f\<lparr>videomem := vm, colors := cm\<rparr>) }"

definition put_row :: "int \<Rightarrow> int list \<Rightarrow> int list \<Rightarrow> vwm_frame \<Rightarrow> vwm_frame option" where
  "put_row n v c f =
     do { vm \<leftarrow> put (videomem f) n v; cm \<leftarrow> put (colors f) n c; Some (f\<lparr>videomem := vm, colors := cm\<rparr>) }"

definition scroll_line :: "vwm_frame \<Rightarrow> vwm_frame option" where
  "scroll_line f =
     do { let first = scroll_first_row f - 1;
          tmpvideo \<leftarrow> at (videomem f) first;
          tmpcolors \<leftarrow> at (colors f) first;
          f \<leftarrow> (case logfile f of None \<Rightarrow> Some f
               | Some lines \<Rightarrow> map_option (\<lambda>l. f\<lparr>logfile := Some (lines @ [l])\<rparr>) (vt_video_line_to_str tmpvideo (num_cols f)));
          tmpvideo \<leftarrow> clear_row (num_cols f) 0 tmpvideo;
          tmpcolors \<leftarrow> clear_row (num_cols f) COLOR_FG_NORMAL tmpcolors;
          f \<leftarrow> each (\<lambda>n. move_row n (n + 1)) [first..last_row f - 2] f;
          put_row (max first (last_row f - 1)) tmpvideo tmpcolors f }"

definition vt_frame_video_scroll :: "int \<Rightarrow> vwm_frame \<Rightarrow> vwm_frame option" where
  "vt_frame_video_scroll numlines f = each (\<lambda>_. scroll_line) [0..numlines - 1] f"

definition scroll_back_line :: "vwm_frame \<Rightarrow> vwm_frame option" where
  "scroll_back_line f =
     do { let first = scroll_first_row f - 1;
          let final = last_row f - 1;
          tmpvideo \<leftarrow> at (videomem f) final;
          tmpcolors \<leftarrow> at (colors f) final;
          tmpvideo \<leftarrow> clear_row (num_cols f) 0 tmpvideo;
          tmpcolors \<leftarrow> clear_row (num_cols f) COLOR_FG_NORMAL tmpcolors;
          f \<leftarrow> each (\<lambda>n. move_row n (n - 1)) (rev [first + 1..final]) f;
          put_row (min first final) tmpvideo tmpcolors f }"

definition vt_frame_video_scroll_back :: "int \<Rightarrow> vwm_frame \<Rightarrow> vwm_frame option" where
  "vt_frame_video_scroll_back numlines f =
     (if row_pos f < scroll_first_row f then Some f else each (\<lambda>_. scroll_back_line) [0..numlines - 1] f)"

text \<open>The pixel is 0 and the attributes are not shifted to where \<open>vt_attr_check\<close> looks for them.\<close>

definition vt_frame_attr_set :: "vwm_frame \<Rightarrow> vwm_frame" where
  "vt_frame_attr_set f = emit (\<lambda>buf. fst (vt_attr_check (vt_attr_reset buf) 0 (uint (textattr f)) NORMAL)) f"

definition newline :: "vwm_frame \<Rightarrow> vwm_frame option" where
  "newline f = (if row_pos f < last_row f then Some (f\<lparr>row_pos := row_pos f + 1\<rparr>) else vt_frame_video_scroll 1 f)"

definition vt_append :: "int \<Rightarrow> vwm_frame \<Rightarrow> vwm_frame option" where
  "vt_append c f =
     do { f \<leftarrow> (if col_pos f > num_cols f
               then map_option (\<lambda>f. (emit_text [13, 10] f)\<lparr>col_pos := 1\<rparr>) (newline f) else Some f);
          f \<leftarrow> vt_video_add c f;
          bs \<leftarrow> (if mb_len f \<noteq> 0 then (if mb_len f \<le> 8 then Some (take (nat (mb_len f)) (mb_buf f)) else None)
                else Some [word_of_int c]);
          Some ((emit_text bs f)\<lparr>col_pos := col_pos f + 1\<rparr>) }"

definition vt_keystate_print :: "byte list \<Rightarrow> vt_keystate \<Rightarrow> byte list" where
  "vt_keystate_print buf k = buf @ (if k = appl then ESC ''='' @ ESC ''[?1h'' else ESC ''>'' @ ESC ''[?1l'')"

definition vt_altcharset :: "byte list \<Rightarrow> nat \<Rightarrow> byte \<Rightarrow> byte list" where
  "vt_altcharset buf g t =
     (let paren = (if g = 0 then ''('' else '')'') in
      if t = UK_CHARSET then buf @ ESC (paren @ ''A'')
      else if t = US_CHARSET then buf @ ESC (paren @ ''B'')
      else if t = GRAPHICS then buf @ ESC (paren @ ''0'')
      else buf)"

definition vt_frame_esc_set :: "vwm_frame \<Rightarrow> vwm_frame" where
  "vt_frame_esc_set f = f\<lparr>process_char_cb := vt_esc_scan, esc_param := replicate MAX_PARAMS 0, param_idx := 0\<rparr>"

definition frame_reset :: "vwm_frame \<Rightarrow> vwm_frame" where
  "frame_reset f = vt_frame_esc_set
     (f\<lparr>row_pos := 1, col_pos := 1, saved_row_pos := 1, saved_col_pos := 1, scroll_first_row := 1, last_row := num_rows f,
       key_state := norm, textattr := NORMAL, saved_textattr := NORMAL, charset := [US_CHARSET, US_CHARSET]\<rparr>)"

text \<open>A new frame of \<open>win_init_frame\<close>: the part that is the terminal.\<close>

definition new_frame :: "nat \<Rightarrow> nat \<Rightarrow> int \<Rightarrow> bool \<Rightarrow> vwm_frame" where
  "new_frame rows cols row log =
     frame_reset
       \<lparr>mb_buf = replicate 8 0, charset = [], textattr = 0, saved_textattr = 0, mb_len = 0, mb_curlen = 0, mb_code = 0,
        col_pos = 0, row_pos = 0, num_rows = int rows, num_cols = int cols, last_row = 0, first_row = row,
        scroll_first_row = 0, param_idx = 0, saved_row_pos = 0, saved_col_pos = 0,
        colors = vwm_alloc_ints rows cols COLOR_FG_NORMAL, videomem = vwm_alloc_ints rows cols 0,
        tabstops = map (\<lambda>i. if i mod TABWIDTH = 0 then 1 else 0) [0..<cols], esc_param = [], key_state = norm,
        logfile = (if log then Some [] else None), render = [], sent = [], process_char_cb = vt_esc_scan\<rparr>"

end
