(* ===== verification/Vesc.thy ===== *)
theory Vesc
  imports Vterm
begin

section \<open>The window manager \<open>Vwm\<close>: escape sequences\<close>

text \<open>
  The scanner of what a program writes: one handler for each state, called with the next byte. A handler
  changes the frame and may install another handler. \<open>unimplemented_cb\<close> only writes to a debugging
  file; it is left out.
\<close>

definition is_digit :: "int \<Rightarrow> bool" where "is_digit c \<longleftrightarrow> 48 \<le> c \<and> c \<le> 57"

definition param :: "nat \<Rightarrow> vwm_frame \<Rightarrow> int" where "param i f = esc_param f ! i"

definition set_param :: "nat \<Rightarrow> int \<Rightarrow> vwm_frame \<Rightarrow> vwm_frame" where
  "set_param i v f = f\<lparr>esc_param := (esc_param f)[i := v]\<rparr>"

text \<open>A digit of a parameter.\<close>

definition param_digit :: "int \<Rightarrow> vwm_frame \<Rightarrow> vwm_frame option" where
  "param_digit c f =
     do { p \<leftarrow> at (esc_param f) (param_idx f);
          p \<leftarrow> in_int 32 (p * 10);
          p \<leftarrow> in_int 32 (p + (c - 48));
          ps \<leftarrow> put (esc_param f) (param_idx f) p;
          Some (f\<lparr>esc_param := ps\<rparr>) }"

text \<open>\<open>ifnot (frame->esc_param[i]) frame->esc_param[i] = 1\<close>\<close>

definition default_one :: "nat \<Rightarrow> vwm_frame \<Rightarrow> vwm_frame" where
  "default_one i f = (if param i f = 0 then set_param i 1 f else f)"

subsection \<open>Private modes, character sets\<close>

definition set_mode :: "vwm_frame \<Rightarrow> vwm_frame" where
  "set_mode f =
     (let m = param 0 f in
      if m = 1 then emit (\<lambda>buf. vt_keystate_print buf appl) (f\<lparr>key_state := appl\<rparr>)
      else if m = 7 then emit_text (ESC ''[?7h'') f
      else if m = 25 then emit_text (ESC ''[?25h'') f
      else if m = 47 then emit_text (ESC ''[?47h'') f
      else f)"

definition reset_mode :: "vwm_frame \<Rightarrow> vwm_frame" where
  "reset_mode f =
     (let m = param 0 f in
      if m = 1 then emit (\<lambda>buf. vt_keystate_print buf norm) (f\<lparr>key_state := norm\<rparr>)
      else if m = 7 then emit_text (ESC ''[?7l'') f
      else if m = 25 then emit_text (ESC ''[?25l'') f
      else if m = 47 then emit_text (ESC ''[?47l'') f
      else f)"

definition do_esc_brace_q :: "int \<Rightarrow> vwm_frame \<Rightarrow> vwm_frame option" where
  "do_esc_brace_q c f =
     (if is_digit c then param_digit c f
      else if c = 104 then Some (vt_frame_esc_set (set_mode f))
      else if c = 108 then Some (vt_frame_esc_set (reset_mode f))
      else Some (vt_frame_esc_set f))"

definition select_charset :: "nat \<Rightarrow> int \<Rightarrow> vwm_frame \<Rightarrow> vwm_frame" where
  "select_charset g c f =
     (let set = (\<lambda>t. emit (\<lambda>buf. vt_altcharset buf g t) (f\<lparr>charset := (charset f)[g := t]\<rparr>)) in
      if c = 65 then set UK_CHARSET else if c = 66 then set US_CHARSET else if c = 48 then set GRAPHICS else f)"

definition do_esc_lparen :: "int \<Rightarrow> vwm_frame \<Rightarrow> vwm_frame option" where
  "do_esc_lparen c f = Some (vt_frame_esc_set (select_charset 0 c f))"

definition do_esc_rparen :: "int \<Rightarrow> vwm_frame \<Rightarrow> vwm_frame option" where
  "do_esc_rparen c f = Some (vt_frame_esc_set (select_charset 1 c f))"

definition do_esc_pound :: "int \<Rightarrow> vwm_frame \<Rightarrow> vwm_frame option" where
  "do_esc_pound c f = Some (vt_frame_esc_set f)"

subsection \<open>Attributes\<close>

unbundle bit_operations_syntax

definition color_rest :: "int \<Rightarrow> int \<Rightarrow> vwm_frame \<Rightarrow> vwm_frame option" where
  "color_rest n clr f =
     each (\<lambda>i f. map_option (\<lambda>cm. f\<lparr>colors := cm\<rparr>) (set_cell (row_pos f - 1) (col_pos f - 1 + i) clr (colors f))) [0..n - 1] f"

definition attr_on :: "byte \<Rightarrow> (byte list \<Rightarrow> bool \<Rightarrow> byte list) \<Rightarrow> vwm_frame \<Rightarrow> vwm_frame" where
  "attr_on b vt f = emit (\<lambda>buf. vt buf True) (f\<lparr>textattr := textattr f OR b\<rparr>)"

definition attr_off :: "byte \<Rightarrow> (byte list \<Rightarrow> bool \<Rightarrow> byte list) \<Rightarrow> vwm_frame \<Rightarrow> vwm_frame" where
  "attr_off b vt f = emit (\<lambda>buf. vt buf False) (f\<lparr>textattr := textattr f AND NOT b\<rparr>)"

definition vt_process_m :: "int \<Rightarrow> vwm_frame \<Rightarrow> vwm_frame option" where
  "vt_process_m c f =
     (if c = 0 then color_rest (num_cols f - col_pos f - 1) COLOR_FG_NORMAL (emit vt_attr_reset (f\<lparr>textattr := NORMAL\<rparr>))
      else if c = 1 then Some (attr_on BOLD vt_bold f)
      else if c = 3 then Some (attr_on ITALIC vt_italic f)
      else if c = 4 then Some (attr_on UNDERLINE vt_underline f)
      else if c = 5 then Some (attr_on BLINK vt_blink f)
      else if c = 7 then Some (attr_on REVERSE vt_reverse f)
      else if c = 22 then Some (attr_off BOLD vt_bold f)
      else if c = 23 then Some (attr_off ITALIC vt_italic f)
      else if c = 24 then Some (attr_off UNDERLINE vt_underline f)
      else if c = 25 then Some (attr_off BLINK vt_blink f)
      else if c = 27 then Some (attr_off REVERSE vt_reverse f)
      else if c = 39 \<or> 30 \<le> c \<and> c \<le> 37 then
        (let c = (if c = 39 then 30 else c) in
         color_rest (num_cols f - col_pos f + 1) c (emit (\<lambda>buf. vt_setfg buf c) f))
      else if c = 49 \<or> 40 \<le> c \<and> c \<le> 47 then
        (let c = (if c = 49 then 47 else c) in Some (emit (\<lambda>buf. vt_setbg buf c) f))
      else Some f)"

text \<open>The loop tests the parameter before the index, so a twelfth parameter is followed by a read behind
  the array.\<close>

primrec set_attributes :: "nat \<Rightarrow> nat \<Rightarrow> vwm_frame \<Rightarrow> vwm_frame option" where
  "set_attributes 0 i f = None"
| "set_attributes (Suc n) i f =
     do { p \<leftarrow> at (esc_param f) (int i);
          (if p = 0 then Some f else do { f \<leftarrow> vt_process_m p f; set_attributes n (i + 1) f }) }"

subsection \<open>Control sequences\<close>

definition goto_cursor :: "vwm_frame \<Rightarrow> vwm_frame" where
  "goto_cursor f = emit (\<lambda>buf. vt_goto buf (row_pos f + first_row f - 1) (col_pos f)) f"

definition set_scroll_region :: "vwm_frame \<Rightarrow> vwm_frame" where
  "set_scroll_region f =
     (let f = (if param 0 f = 0 \<and> param 1 f = 0 then f\<lparr>scroll_first_row := 1, last_row := num_rows f\<rparr>
               else
                 let top = (if param 0 f < 1 then 1 else param 0 f);
                     end_row = (if param 1 f > num_rows f then num_rows f else param 1 f) in
                 if top > end_row then f\<lparr>scroll_first_row := 1, last_row := num_rows f\<rparr>
                 else f\<lparr>scroll_first_row := top, last_row := end_row\<rparr>);
          f = f\<lparr>row_pos := 1, col_pos := 1\<rparr>;
          f = emit (\<lambda>buf. vt_setscroll buf (scroll_first_row f + first_row f - 1) (last_row f + first_row f - 1)) f in
      emit (\<lambda>buf. vt_goto buf (row_pos f + first_row f - 1) 1) f)"

definition cursor_up :: "vwm_frame \<Rightarrow> vwm_frame option" where
  "cursor_up f =
     (if row_pos f = first_row f then Some f
      else let f = default_one 0 f in
        do { newx \<leftarrow> in_int 32 (row_pos f - param 0 f);
             Some (if newx > scroll_first_row f then emit (\<lambda>buf. vt_up buf (param 0 f)) (f\<lparr>row_pos := newx\<rparr>)
                   else goto_cursor (f\<lparr>row_pos := scroll_first_row f\<rparr>)) })"

definition cursor_down :: "vwm_frame \<Rightarrow> vwm_frame option" where
  "cursor_down f =
     (if row_pos f = last_row f then Some f
      else let f = default_one 0 f in
        do { newx \<leftarrow> in_int 32 (row_pos f + param 0 f);
             Some (if newx \<le> last_row f then emit (\<lambda>buf. vt_down buf (param 0 f)) (f\<lparr>row_pos := newx\<rparr>)
                   else goto_cursor (f\<lparr>row_pos := last_row f\<rparr>)) })"

definition cursor_right :: "vwm_frame \<Rightarrow> vwm_frame option" where
  "cursor_right f =
     (if col_pos f = num_cols f then Some f
      else let f = default_one 0 f in
        do { newy \<leftarrow> in_int 32 (col_pos f + param 0 f);
             Some (if newy < num_cols f then emit (\<lambda>buf. vt_right buf (param 0 f)) (f\<lparr>col_pos := newy\<rparr>)
                   else goto_cursor (f\<lparr>col_pos := num_cols f\<rparr>)) })"

definition cursor_left :: "vwm_frame \<Rightarrow> vwm_frame option" where
  "cursor_left f =
     (if col_pos f = 1 then Some f
      else let f = default_one 0 f in
        do { newy \<leftarrow> in_int 32 (col_pos f - param 0 f);
             Some (if newy > 1 then emit (\<lambda>buf. vt_left buf (param 0 f)) (f\<lparr>col_pos := newy\<rparr>)
                   else emit_text [13] (f\<lparr>col_pos := 1\<rparr>)) })"

definition cursor_to :: "vwm_frame \<Rightarrow> vwm_frame" where
  "cursor_to f =
     (let f = default_one 1 (default_one 0 f) in
      goto_cursor (f\<lparr>row_pos := (if param 0 f > num_rows f then num_rows f else param 0 f),
                     col_pos := (if param 1 f > num_cols f then num_cols f else param 1 f)\<rparr>))"

definition clear_tabstops :: "vwm_frame \<Rightarrow> vwm_frame option" where
  "clear_tabstops f =
     (if param 0 f = 0 then map_option (\<lambda>ts. f\<lparr>tabstops := ts\<rparr>) (put (tabstops f) (col_pos f - 1) 0)
      else if param 0 f = 3 then
        map_option (\<lambda>ts. f\<lparr>tabstops := ts\<rparr>) (each (\<lambda>i ts. put ts i 0) [0..num_cols f - 1] (tabstops f))
      else Some f)"

definition repeat_text :: "int \<Rightarrow> byte list \<Rightarrow> byte list" where
  "repeat_text n bs = concat (replicate (nat n) bs)"

definition clear_screen :: "vwm_frame \<Rightarrow> vwm_frame option" where
  "clear_screen f =
     (let down = (\<lambda>f. emit vt_restcursor (emit vt_clreol
            (emit_text (repeat_text (num_rows f - row_pos f) (ESC ''[K'' @ [10])) (emit_text [13] (emit vt_savecursor f))))) in
      if param 0 f = 0 then map_option down (vt_video_erase (row_pos f) (num_rows f) 1 (num_cols f) f)
      else if param 0 f = 1 then
        do { f \<leftarrow> vt_video_erase 1 (row_pos f) 1 (num_cols f) f;
             Some (emit vt_restcursor (emit vt_clreol
               (emit_text (repeat_text (row_pos f - 1) (ESC ''[K'' @ ESC ''[1A'')) (emit_text [13] (emit vt_savecursor f))))) }
      else if param 0 f = 2 then
        do { f \<leftarrow> vt_video_erase 1 (num_rows f) 1 (num_cols f) f;
             let f = emit (\<lambda>buf. vt_goto buf (first_row f) 1) f;
             Some (down (f\<lparr>row_pos := 1, col_pos := 1\<rparr>)) }
      else Some f)"

definition clear_line :: "vwm_frame \<Rightarrow> vwm_frame option" where
  "clear_line f =
     (if param 0 f = 0 then map_option (emit vt_clreol) (vt_video_erase (row_pos f) (row_pos f) (col_pos f) (num_cols f) f)
      else if param 0 f = 1 then map_option (emit vt_clrbgl) (vt_video_erase (row_pos f) (row_pos f) 1 (col_pos f) f)
      else if param 0 f = 2 then map_option (emit vt_clrline) (vt_video_erase (row_pos f) (row_pos f) 1 (num_cols f) f)
      else Some f)"

definition send :: "byte list \<Rightarrow> vwm_frame \<Rightarrow> vwm_frame" where
  "send bs f = f\<lparr>sent := sent f @ bs\<rparr>"

definition report :: "vwm_frame \<Rightarrow> vwm_frame" where
  "report f =
     (if param 0 f = 5 then send (ESC ''[0n'') f
      else if param 0 f = 6 then send (ESC ''['' @ dec (row_pos f) @ ascii '';'' @ dec (col_pos f) @ ascii ''R'') f
      else f)"

text \<open>The sequences end here; \<open>G\<close>, which should move to a column, only swaps two parameters that
  are then reset.\<close>

definition control_sequence :: "int \<Rightarrow> vwm_frame \<Rightarrow> vwm_frame option" where
  "control_sequence c f =
     (if c = 108 then Some (if param 0 f = 4 then emit vt_irm f else f)
      else if c = 114 then Some (set_scroll_region f)
      else if c = 65 then cursor_up f
      else if c = 66 then cursor_down f
      else if c = 67 then cursor_right f
      else if c = 68 then cursor_left f
      else if c = 71 then
        Some (let row = (if param 1 f \<le> 1 then row_pos f else param 1 f) in set_param 1 (param 0 f) (set_param 0 row f))
      else if c = 102 \<or> c = 72 then Some (cursor_to f)
      else if c = 103 then clear_tabstops f
      else if c = 109 then vt_process_m (param 0 f) f \<bind> set_attributes (MAX_PARAMS + 1) 1
      else if c = 74 then clear_screen f
      else if c = 75 then clear_line f
      else if c = 80 then
        map_option (emit (\<lambda>buf. vt_delunder buf (param 0 f))) (vt_video_erase (row_pos f) (row_pos f) (col_pos f) (col_pos f) f)
      else if c = 77 then map_option (emit (\<lambda>buf. vt_delline buf (param 0 f))) (vt_frame_video_scroll_back 1 f)
      else if c = 76 then Some (emit (\<lambda>buf. vt_insline buf (param 0 f)) f)
      else if c = 64 then
        (let f = default_one 0 f in vt_frame_video_rshift (param 0 f) (emit (\<lambda>buf. vt_insertchar buf (param 0 f)) f))
      else if c = 110 then Some (report f)
      else if c = 99 then Some (send (ESC ''[?6c'') f)
      else if c = 88 then vt_frame_ech (param 0 f) f
      else Some f)"

definition do_esc_brace :: "int \<Rightarrow> vwm_frame \<Rightarrow> vwm_frame option" where
  "do_esc_brace c f =
     (if is_digit c then param_digit c f
      else if c = 24 \<or> c = 26 then Some (vt_frame_esc_set f)
      else if c = 63 then
        do { p \<leftarrow> at (esc_param f) (param_idx f);
             Some (if p \<noteq> 0 then vt_frame_esc_set f else f\<lparr>process_char_cb := vt_esc_brace_q\<rparr>) }
      else if c = 59 then
        Some (if param_idx f + 1 < int MAX_PARAMS then f\<lparr>param_idx := param_idx f + 1\<rparr> else f)
      else map_option vt_frame_esc_set (control_sequence c f))"

subsection \<open>Two-byte sequences\<close>

definition restore_cursor :: "vwm_frame \<Rightarrow> vwm_frame" where
  "restore_cursor f =
     (let f = f\<lparr>row_pos := saved_row_pos f, col_pos := col_pos f\<rparr>;
          f = (if row_pos f > num_rows f then f\<lparr>row_pos := num_rows f\<rparr> else f);
          f = (if col_pos f > num_cols f then f\<lparr>col_pos := num_cols f\<rparr> else f);
          f = goto_cursor f in
      vt_frame_attr_set (f\<lparr>textattr := saved_textattr f\<rparr>))"

definition escape_char :: "int \<Rightarrow> vwm_frame \<Rightarrow> vwm_frame option" where
  "escape_char c f =
     (if c = 68 then map_option (emit_text [10]) (newline f)
      else if c = 77 then
        map_option (emit vt_revscroll)
          (if row_pos f > scroll_first_row f then Some (f\<lparr>row_pos := row_pos f - 1\<rparr>) else vt_frame_video_scroll_back 1 f)
      else if c = 69 then map_option (\<lambda>f. emit_text [13, 10] (f\<lparr>col_pos := 1\<rparr>)) (newline f)
      else if c = 55 then
        Some (f\<lparr>saved_row_pos := row_pos f, saved_col_pos := col_pos f, saved_textattr := textattr f\<rparr>)
      else if c = 56 then Some (restore_cursor f)
      else if c = 61 then Some (emit (\<lambda>buf. vt_keystate_print buf appl) (f\<lparr>key_state := appl\<rparr>))
      else if c = 62 then Some (emit (\<lambda>buf. vt_keystate_print buf norm) (f\<lparr>key_state := norm\<rparr>))
      else if c = 72 then map_option (\<lambda>ts. f\<lparr>tabstops := ts\<rparr>) (put (tabstops f) (col_pos f - 1) 1)
      else if c = 90 then Some (send (ESC ''[?6c'') f)
      else if c = 99 then Some (frame_reset f)
      else Some f)"

definition do_esc_e :: "int \<Rightarrow> vwm_frame \<Rightarrow> vwm_frame option" where
  "do_esc_e c f =
     (if c = 91 then Some (f\<lparr>process_char_cb := vt_esc_brace\<rparr>)
      else if c = 40 then Some (f\<lparr>process_char_cb := vt_esc_lparen\<rparr>)
      else if c = 41 then Some (f\<lparr>process_char_cb := vt_esc_rparen\<rparr>)
      else if c = 35 then Some (f\<lparr>process_char_cb := vt_esc_pound\<rparr>)
      else map_option vt_frame_esc_set (escape_char c f))"

subsection \<open>Text\<close>

text \<open>
  A tab goes to the next tab stop; the loop is bounded by the distance to the last column. The array of
  tab stops is as long as the screen is wide.
\<close>

primrec to_tabstop :: "nat \<Rightarrow> vwm_frame \<Rightarrow> vwm_frame option" where
  "to_tabstop 0 f = None"
| "to_tabstop (Suc n) f =
     do { let f = f\<lparr>col_pos := col_pos f + 1\<rparr>;
          t \<leftarrow> at (tabstops f) (col_pos f - 1);
          (if t = 0 \<and> col_pos f < num_cols f then to_tabstop n f else Some f) }"

definition tab :: "vwm_frame \<Rightarrow> vwm_frame option" where
  "tab f = map_option (\<lambda>g. emit (\<lambda>buf. vt_right buf (col_pos g - col_pos f)) g) (to_tabstop (nat (num_cols f) + 1) f)"

definition vwm_offsetsFromUTF8 :: "int list" where
  "vwm_offsetsFromUTF8 = [0, 0x3080, 0xE2080, 0x3C82080, 0xFA082080 - 0x100000000, 0x82082080 - 0x100000000]"

text \<open>
  The length of a multibyte character from its first byte; -1 for what begins none, stored in an
  \<open>uchar\<close>.
\<close>

definition lead_length :: "int \<Rightarrow> int" where
  "lead_length c =
     (if c AND 0xE0 = 0xC0 then 2 else if c AND 0xF0 = 0xE0 then 3 else if c AND 0xF8 = 0xF0 then 4 else 255)"

definition multibyte :: "int \<Rightarrow> vwm_frame \<Rightarrow> vwm_frame option" where
  "multibyte c f =
     (if mb_len f > 0 then
        do { buf \<leftarrow> put (mb_buf f) (mb_curlen f) (word_of_int c);
             code \<leftarrow> in_int 32 (push_bit 6 (mb_code f));
             code \<leftarrow> in_int 32 (code + c);
             let f = f\<lparr>mb_buf := buf, mb_curlen := mb_curlen f + 1, mb_code := code\<rparr>;
             (if mb_curlen f \<noteq> mb_len f then Some f
              else do {
                offset \<leftarrow> at vwm_offsetsFromUTF8 (mb_len f - 1);
                code \<leftarrow> in_int 32 (mb_code f - offset);
                f \<leftarrow> vt_append code (f\<lparr>mb_code := code\<rparr>);
                buf \<leftarrow> put (mb_buf f) 0 0;
                Some (f\<lparr>mb_buf := buf, mb_curlen := 0, mb_len := 0, mb_code := 0\<rparr>) }) }
      else
        do { buf \<leftarrow> put (mb_buf f) 0 (word_of_int c);
             Some (f\<lparr>mb_code := c, mb_len := lead_length c, mb_buf := buf, mb_curlen := 1\<rparr>) })"

definition do_esc_scan :: "int \<Rightarrow> vwm_frame \<Rightarrow> vwm_frame option" where
  "do_esc_scan c f =
     (if c = 0 then Some f
      else if c \<in> {3, 4, 5, 14, 15, 17, 18} then Some (emit_text [word_of_int c] f)
      else if c = 7 then Some (emit vt_bell f)
      else if c = 8 then
        Some (if col_pos f = 1 then f else emit (\<lambda>buf. vt_left buf (param 0 f)) (f\<lparr>col_pos := col_pos f - 1\<rparr>))
      else if c = 9 then tab f
      else if c \<in> {10, 11, 12} then map_option (emit_text [10]) (newline f)
      else if c = 13 then Some (emit_text [13] (f\<lparr>col_pos := 1\<rparr>))
      else if c = 24 \<or> c = 26 then Some (vt_frame_esc_set f)
      else if c = 27 then Some (f\<lparr>process_char_cb := vt_esc_e\<rparr>)
      else if c \<ge> 0x80 \<or> mb_len f \<noteq> 0 then multibyte c f
      else vt_append c f)"

subsection \<open>The scanner\<close>

definition process_char :: "int \<Rightarrow> vwm_frame \<Rightarrow> vwm_frame option" where
  "process_char c f =
     (case process_char_cb f of
        vt_esc_scan \<Rightarrow> do_esc_scan c f
      | vt_esc_e \<Rightarrow> do_esc_e c f
      | vt_esc_brace \<Rightarrow> do_esc_brace c f
      | vt_esc_brace_q \<Rightarrow> do_esc_brace_q c f
      | vt_esc_lparen \<Rightarrow> do_esc_lparen c f
      | vt_esc_rparen \<Rightarrow> do_esc_rparen c f
      | vt_esc_pound \<Rightarrow> do_esc_pound c f)"

text \<open>Output of the program: \<open>render\<close> is cleared, filled, and written to the terminal.\<close>

definition frame_process_output_cb :: "byte list \<Rightarrow> vwm_frame \<Rightarrow> vwm_frame option" where
  "frame_process_output_cb buf f = each (\<lambda>b. process_char (uint b)) buf (f\<lparr>render := []\<rparr>)"

subsection \<open>A new size\<close>

primrec trim_rows :: "nat \<Rightarrow> int \<Rightarrow> int \<Rightarrow> vwm_frame \<Rightarrow> int option" where
  "trim_rows 0 rows l f = None"
| "trim_rows (Suc n) rows l f =
     (if l > rows then do { c \<leftarrow> get_cell (l - 1) 0 (videomem f); (if c = 0 then trim_rows n rows (l - 1) f else Some l) }
      else Some l)"

text \<open>The rows are taken over from the bottom up; \<open>pos\<close> is the row of the cursor, 0 as long as it has
  not been passed.\<close>

primrec take_over :: "nat \<Rightarrow> int \<Rightarrow> int \<Rightarrow> int \<Rightarrow> int \<Rightarrow> int \<Rightarrow> vwm_frame \<Rightarrow> int \<times> int list list \<times> int list list \<Rightarrow> (int \<times> int list list \<times> int list list) option" where
  "take_over 0 i ni rows cols l f s = None"
| "take_over (Suc n) i ni rows cols l f s =
     (case s of (pos, vm, cm) \<Rightarrow>
       if i = 0 \<or> ni = 0 then Some (pos, vm, cm)
       else do {
         let pos = (if row_pos f = i then max 1 (i + (num_rows f - l) + rows - num_rows f) else pos);
         (vm, cm) \<leftarrow> each (\<lambda>j (vm, cm).
           do { v \<leftarrow> get_cell (i - 1) j (videomem f); c \<leftarrow> get_cell (i - 1) j (colors f);
                vm \<leftarrow> set_cell (ni - 1) j v vm; cm \<leftarrow> set_cell (ni - 1) j c cm; Some (vm, cm) }) [0..min (num_cols f) cols - 1] (vm, cm);
         take_over n (i - 1) (ni - 1) rows cols l f (pos, vm, cm) })"

definition frame_on_resize :: "nat \<Rightarrow> nat \<Rightarrow> vwm_frame \<Rightarrow> vwm_frame option" where
  "frame_on_resize rows cols f =
     do { l \<leftarrow> (if int rows < num_rows f then trim_rows (nat (num_rows f) + 1) (int rows) (num_rows f) f else Some (num_rows f));
          (pos, vm, cm) \<leftarrow> take_over (nat l + 1) l (int rows) (int rows) (int cols) l f
            (0, vwm_alloc_ints rows cols 0, vwm_alloc_ints rows cols COLOR_FG_NORMAL);
          Some (f\<lparr>row_pos := (if pos = 0 then 1 else pos), col_pos := min (col_pos f) (int cols), videomem := vm, colors := cm\<rparr>) }"

end
