(* ===== verification/Vsafe.thy ===== *)
theory Vsafe
  imports Vesc
begin

section \<open>The window manager \<open>Vwm\<close>: what a program can do to its frame\<close>

text \<open>
  The invariant of a frame, the list of the bytes that break it, and the proof that no other byte
  does: handler by handler, each operation is shown to stay inside the arrays and to keep the invariant.
\<close>

subsection \<open>The invariant of a frame\<close>

definition grid :: "int \<Rightarrow> int \<Rightarrow> int list list \<Rightarrow> bool" where
  "grid r c m \<longleftrightarrow> int (length m) = r \<and> (\<forall>row \<in> set m. int (length row) = 2 * c)"

text \<open>A multibyte character in progress: its code so far is bounded by the number of bytes read.\<close>

primrec code_bound :: "nat \<Rightarrow> int" where
  "code_bound 0 = 0"
| "code_bound (Suc n) = 64 * code_bound n + 255"

definition multibyte_ok :: "vwm_frame \<Rightarrow> bool" where
  "multibyte_ok f \<longleftrightarrow> length (mb_buf f) = 8 \<and>
     (mb_len f = 0 \<or> mb_len f \<in> {2, 3, 4} \<and> 1 \<le> mb_curlen f \<and> mb_curlen f < mb_len f \<and>
        0 \<le> mb_code f \<and> mb_code f \<le> code_bound (nat (mb_curlen f)))"

definition cursor_ok :: "vwm_frame \<Rightarrow> bool" where
  "cursor_ok f \<longleftrightarrow> 1 \<le> num_rows f \<and> num_rows f < 2 ^ 16 \<and> 1 \<le> num_cols f \<and> num_cols f < 2 ^ 16 \<and>
     1 \<le> row_pos f \<and> row_pos f \<le> num_rows f \<and> 1 \<le> col_pos f \<and> col_pos f \<le> num_cols f + 1 \<and>
     1 \<le> scroll_first_row f \<and> scroll_first_row f \<le> last_row f \<and> last_row f \<le> num_rows f \<and> 1 \<le> saved_row_pos f"

definition params_ok :: "vwm_frame \<Rightarrow> bool" where
  "params_ok f \<longleftrightarrow> length (esc_param f) = MAX_PARAMS \<and> 0 \<le> param_idx f \<and> param_idx f < int MAX_PARAMS \<and>
     (\<forall>p \<in> set (esc_param f). 0 \<le> p \<and> p < 2 ^ 31)"

definition frame_ok :: "vwm_frame \<Rightarrow> bool" where
  "frame_ok f \<longleftrightarrow> cursor_ok f \<and> params_ok f \<and> multibyte_ok f \<and> int (length (tabstops f)) = num_cols f \<and> length (charset f) = 2 \<and>
     grid (num_rows f) (num_cols f) (videomem f) \<and> grid (num_rows f) (num_cols f) (colors f) \<and> logfile f = None"

lemmas frame_defs = frame_ok_def cursor_ok_def params_ok_def multibyte_ok_def

text \<open>A new frame without a log is one.\<close>

lemma new_frame_ok:
  assumes "0 < rows" "rows < 2 ^ 16" "0 < cols" "cols < 2 ^ 16"
  shows "frame_ok (new_frame rows cols row False)"
  using assms
  by (simp add: frame_defs new_frame_def frame_reset_def vt_frame_esc_set_def grid_def vwm_alloc_ints_def MAX_PARAMS_def
      set_replicate_conv_if)

subsection \<open>Cells\<close>

lemma at_Some: "0 \<le> i \<Longrightarrow> i < int (length xs) \<Longrightarrow> at xs i = Some (xs ! nat i)"
  by (simp add: at_def)

lemma put_Some: "0 \<le> i \<Longrightarrow> i < int (length xs) \<Longrightarrow> put xs i v = Some (xs[nat i := v])"
  by (simp add: put_def)

lemma grid_update: "grid r c m \<Longrightarrow> int (length row) = 2 * c \<Longrightarrow> grid r c (m[i := row])"
  by (auto simp: grid_def dest: set_update_subset_insert[THEN subsetD])

lemma grid_row: "grid r c m \<Longrightarrow> 0 \<le> i \<Longrightarrow> i < r \<Longrightarrow> int (length (m ! nat i)) = 2 * c"
  by (auto simp: grid_def intro!: nth_mem)

lemma set_cell_grid:
  assumes "grid r c m" "0 \<le> i" "i < r" "0 \<le> j" "j < 2 * c"
  shows "\<exists>m'. set_cell i j v m = Some m' \<and> grid r c m'"
  using assms grid_row[OF assms(1-3)] grid_update[OF assms(1), of "(m ! nat i)[nat j := v]" "nat i"]
  by (simp add: set_cell_def at_def put_def grid_def)

lemma get_cell_grid: "grid r c m \<Longrightarrow> 0 \<le> i \<Longrightarrow> i < r \<Longrightarrow> 0 \<le> j \<Longrightarrow> j < 2 * c \<Longrightarrow> \<exists>v. get_cell i j m = Some v"
  using grid_row[of r c m i] by (simp add: get_cell_def at_def grid_def)

text \<open>Something was drawn: only the cells changed.\<close>

definition drawn :: "vwm_frame \<Rightarrow> vwm_frame option \<Rightarrow> bool" where
  "drawn f m \<longleftrightarrow> (\<exists>vm cm. m = Some (f\<lparr>videomem := vm, colors := cm\<rparr>) \<and>
     grid (num_rows f) (num_cols f) vm \<and> grid (num_rows f) (num_cols f) cm)"

definition canvas :: "vwm_frame \<Rightarrow> bool" where
  "canvas f \<longleftrightarrow> grid (num_rows f) (num_cols f) (videomem f) \<and> grid (num_rows f) (num_cols f) (colors f)"

lemma drawn_again [simp]: "drawn (f\<lparr>videomem := vm, colors := cm\<rparr>) m = drawn f m"
  by (simp add: drawn_def)

lemma drawn_same: "canvas f \<Longrightarrow> drawn f (Some f)"
  unfolding drawn_def canvas_def by (intro exI[of _ "videomem f"] exI[of _ "colors f"]) simp

lemma drawn_each:
  assumes "\<And>i vm cm. i \<in> set is \<Longrightarrow> canvas (f\<lparr>videomem := vm, colors := cm\<rparr>) \<Longrightarrow> drawn f (g i (f\<lparr>videomem := vm, colors := cm\<rparr>))"
    and "canvas f"
  shows "drawn f (each g is f)"
  using assms
proof (induction "is" arbitrary: f)
  case Nil
  then show ?case by (simp add: drawn_same)
next
  case (Cons i js)
  have "drawn f (g i (f\<lparr>videomem := videomem f, colors := colors f\<rparr>))"
    using Cons.prems(2) by (intro Cons.prems(1)) (simp_all add: canvas_def)
  then obtain vm cm where g: "g i f = Some (f\<lparr>videomem := vm, colors := cm\<rparr>)" "canvas (f\<lparr>videomem := vm, colors := cm\<rparr>)"
    by (auto simp: drawn_def canvas_def)
  have "drawn (f\<lparr>videomem := vm, colors := cm\<rparr>) (each g js (f\<lparr>videomem := vm, colors := cm\<rparr>))"
    using Cons.prems(1) g(2) by (intro Cons.IH) simp_all
  then show ?case using g(1) by simp
qed

lemma drawn_bind:
  "drawn f m \<Longrightarrow> (\<And>vm cm. canvas (f\<lparr>videomem := vm, colors := cm\<rparr>) \<Longrightarrow> drawn f (g (f\<lparr>videomem := vm, colors := cm\<rparr>))) \<Longrightarrow>
   drawn f (Option.bind m g)"
  by (auto simp: drawn_def canvas_def)

lemma write_cell_drawn:
  assumes "canvas f" "0 \<le> i" "i < num_rows f" "0 \<le> j" "j < 2 * num_cols f"
  shows "drawn f (write_cell i j v c f)"
proof -
  obtain vm cm where "set_cell i j v (videomem f) = Some vm" "set_cell i j c (colors f) = Some cm"
    "grid (num_rows f) (num_cols f) vm" "grid (num_rows f) (num_cols f) cm"
    using assms set_cell_grid unfolding canvas_def by meson
  then show ?thesis unfolding drawn_def write_cell_def by (intro exI[of _ vm] exI[of _ cm]) simp
qed

text \<open>The same when the cells have been changed before.\<close>

lemma write_cell_drawn_again:
  assumes "canvas (f\<lparr>videomem := vm, colors := cm\<rparr>)" "0 \<le> i" "i < num_rows f" "0 \<le> j" "j < 2 * num_cols f"
  shows "drawn f (write_cell i j v c (f\<lparr>videomem := vm, colors := cm\<rparr>))"
  using write_cell_drawn[OF assms(1), of i j v c] assms by simp

lemma erase_drawn:
  assumes "canvas f" "1 \<le> x1" "x2 \<le> num_rows f" "1 \<le> y1" "y2 \<le> 2 * num_cols f"
  shows "drawn f (vt_video_erase x1 x2 y1 y2 f)"
proof -
  have row: "drawn h (each (\<lambda>j. write_cell i j 0 COLOR_FG_NORMAL) [y1 - 1..y2 - 1] h)"
    if "canvas h" "num_rows h = num_rows f" "num_cols h = num_cols f" "i \<in> set [x1 - 1..x2 - 1]" for h i
    using that assms by (intro drawn_each write_cell_drawn_again) auto
  show ?thesis
    unfolding vt_video_erase_def
  proof (rule drawn_each[OF _ assms(1)])
    fix i vm cm assume "i \<in> set [x1 - 1..x2 - 1]" "canvas (f\<lparr>videomem := vm, colors := cm\<rparr>)"
    then show "drawn f (each (\<lambda>j. write_cell i j 0 COLOR_FG_NORMAL) [y1 - 1..y2 - 1] (f\<lparr>videomem := vm, colors := cm\<rparr>))"
      using row[of "f\<lparr>videomem := vm, colors := cm\<rparr>" i] by simp
  qed
qed

lemma rshift_drawn:
  assumes "canvas f" "0 \<le> numcols" "cursor_ok f"
  shows "drawn f (vt_frame_video_rshift numcols f)"
  unfolding vt_frame_video_rshift_def
proof (rule drawn_each[OF _ assms(1)])
  fix i vm cm assume i: "i \<in> set (rev [col_pos f..num_cols f - 1])" and ok: "canvas (f\<lparr>videomem := vm, colors := cm\<rparr>)"
  let ?f = "f\<lparr>videomem := vm, colors := cm\<rparr>"
  have b: "0 \<le> row_pos f - 1" "row_pos f - 1 < num_rows f" "0 \<le> i" "i < 2 * num_cols f"
    using i assms(3) by (auto simp: cursor_ok_def)
  have w: "drawn f (write_cell (row_pos f - 1) i v c ?f)" for v c
    using write_cell_drawn[of ?f "row_pos f - 1" i v c] ok b by simp
  show "drawn f (rshift_cell numcols i ?f)"
  proof (cases "0 \<le> i - numcols")
    case True
    then have "0 \<le> i - numcols" "i - numcols < 2 * num_cols f" using b assms(2) by linarith+
    with b ok obtain v c where "get_cell (row_pos f - 1) (i - numcols) vm = Some v" "get_cell (row_pos f - 1) (i - numcols) cm = Some c"
      using get_cell_grid[of "num_rows f" "num_cols f" vm "row_pos f - 1" "i - numcols"]
        get_cell_grid[of "num_rows f" "num_cols f" cm "row_pos f - 1" "i - numcols"] by (auto simp: canvas_def)
    with w show ?thesis by (simp add: rshift_cell_def Let_def True)
  qed (use w in \<open>simp add: rshift_cell_def Let_def\<close>)
qed

lemma ech_drawn:
  assumes "canvas f" "cursor_ok f" "cols \<le> col_pos f \<or> num_cols f < 2 * col_pos f"
  shows "drawn f (each (\<lambda>i f. write_cell (row_pos f - 1) (col_pos f - i - 1) 0 COLOR_FG_NORMAL f) [0..min (num_cols f - col_pos f) (cols - 1)] f)"
proof (rule drawn_each[OF _ assms(1)])
  fix i vm cm assume "i \<in> set [0..min (num_cols f - col_pos f) (cols - 1)]" "canvas (f\<lparr>videomem := vm, colors := cm\<rparr>)"
  then show "drawn f (write_cell (row_pos (f\<lparr>videomem := vm, colors := cm\<rparr>) - 1) (col_pos (f\<lparr>videomem := vm, colors := cm\<rparr>) - i - 1) 0 COLOR_FG_NORMAL (f\<lparr>videomem := vm, colors := cm\<rparr>))"
    using assms(2,3) write_cell_drawn[of "f\<lparr>videomem := vm, colors := cm\<rparr>" "row_pos f - 1" "col_pos f - i - 1" 0 COLOR_FG_NORMAL]
    by (auto simp: cursor_ok_def)
qed

subsection \<open>Scrolling\<close>

lemma clear_row_length: "int (length row) = 2 * c \<Longrightarrow> \<exists>row'. clear_row c v row = Some row' \<and> int (length row') = 2 * c"
proof -
  assume len: "int (length row) = 2 * c"
  have "\<exists>row'. each (\<lambda>j row. put row j v) is row = Some row' \<and> length row' = n"
    if "\<forall>i \<in> set is. 0 \<le> i \<and> i < int n" "length row = n" for "is" row n
    using that by (induction "is" arbitrary: row) (simp_all add: put_Some)
  from this[of "[0..c - 1]" "length row" row] len show ?thesis by (auto simp: clear_row_def)
qed

lemma grid_at: "grid r c m \<Longrightarrow> 0 \<le> i \<Longrightarrow> i < r \<Longrightarrow> \<exists>row. at m i = Some row \<and> int (length row) = 2 * c"
  using grid_row[of r c m i] by (simp add: at_def grid_def)

lemma grid_put: "grid r c m \<Longrightarrow> 0 \<le> i \<Longrightarrow> i < r \<Longrightarrow> int (length row) = 2 * c \<Longrightarrow> \<exists>m'. put m i row = Some m' \<and> grid r c m'"
  using grid_update[of r c m row "nat i"] by (simp add: put_def grid_def)

lemma put_row_drawn:
  assumes "canvas f" "0 \<le> n" "n < num_rows f" "int (length v) = 2 * num_cols f" "int (length c) = 2 * num_cols f"
  shows "drawn f (put_row n v c f)"
proof -
  obtain vm cm where "put (videomem f) n v = Some vm" "put (colors f) n c = Some cm"
    "grid (num_rows f) (num_cols f) vm" "grid (num_rows f) (num_cols f) cm"
    using assms grid_put unfolding canvas_def by meson
  then show ?thesis unfolding drawn_def put_row_def by (intro exI[of _ vm] exI[of _ cm]) simp
qed

lemma move_row_drawn:
  assumes "canvas f" "0 \<le> dst" "dst < num_rows f" "0 \<le> src" "src < num_rows f"
  shows "drawn f (move_row dst src f)"
proof -
  obtain v c where "at (videomem f) src = Some v" "at (colors f) src = Some c"
    "int (length v) = 2 * num_cols f" "int (length c) = 2 * num_cols f"
    using assms grid_at unfolding canvas_def by meson
  then show ?thesis using put_row_drawn[of f dst v c] assms by (simp add: move_row_def put_row_def)
qed

lemma move_row_drawn_again:
  assumes "canvas (f\<lparr>videomem := vm, colors := cm\<rparr>)" "0 \<le> dst" "dst < num_rows f" "0 \<le> src" "src < num_rows f"
  shows "drawn f (move_row dst src (f\<lparr>videomem := vm, colors := cm\<rparr>))"
  using move_row_drawn[OF assms(1), of dst src] assms by simp

lemma scroll_line_drawn:
  assumes "canvas f" "cursor_ok f" "logfile f = None"
  shows "drawn f (scroll_line f)"
proof -
  have b: "0 \<le> scroll_first_row f - 1" "scroll_first_row f - 1 < num_rows f" using assms(2) by (auto simp: cursor_ok_def)
  then obtain v c where at: "at (videomem f) (scroll_first_row f - 1) = Some v" "at (colors f) (scroll_first_row f - 1) = Some c"
    "int (length v) = 2 * num_cols f" "int (length c) = 2 * num_cols f"
    using assms(1) grid_at unfolding canvas_def by meson
  obtain v' c' where cl: "clear_row (num_cols f) 0 v = Some v'" "clear_row (num_cols f) COLOR_FG_NORMAL c = Some c'"
    "int (length v') = 2 * num_cols f" "int (length c') = 2 * num_cols f"
    using at clear_row_length by meson
  have "drawn f (each (\<lambda>n. move_row n (n + 1)) [scroll_first_row f - 1..last_row f - 2] f \<bind>
          (\<lambda>g. put_row (max (scroll_first_row f - 1) (last_row g - 1)) v' c' g))"
  proof (rule drawn_bind)
    show "drawn f (each (\<lambda>n. move_row n (n + 1)) [scroll_first_row f - 1..last_row f - 2] f)"
      using assms(2) by (intro drawn_each[OF _ assms(1)] move_row_drawn_again) (auto simp: cursor_ok_def)
    fix vm cm assume c: "canvas (f\<lparr>videomem := vm, colors := cm\<rparr>)"
    show "drawn f (put_row (max (scroll_first_row f - 1) (last_row (f\<lparr>videomem := vm, colors := cm\<rparr>) - 1)) v' c' (f\<lparr>videomem := vm, colors := cm\<rparr>))"
      using put_row_drawn[OF c, of "max (scroll_first_row f - 1) (last_row f - 1)" v' c'] cl assms(2) by (simp add: cursor_ok_def)
  qed
  then show ?thesis using at cl assms(3) by (simp add: scroll_line_def Let_def)
qed

lemma scroll_back_line_drawn:
  assumes "canvas f" "cursor_ok f"
  shows "drawn f (scroll_back_line f)"
proof -
  have b: "0 \<le> last_row f - 1" "last_row f - 1 < num_rows f" using assms(2) by (auto simp: cursor_ok_def)
  then obtain v c where at: "at (videomem f) (last_row f - 1) = Some v" "at (colors f) (last_row f - 1) = Some c"
    "int (length v) = 2 * num_cols f" "int (length c) = 2 * num_cols f"
    using assms(1) grid_at unfolding canvas_def by meson
  obtain v' c' where cl: "clear_row (num_cols f) 0 v = Some v'" "clear_row (num_cols f) COLOR_FG_NORMAL c = Some c'"
    "int (length v') = 2 * num_cols f" "int (length c') = 2 * num_cols f"
    using at clear_row_length by meson
  have "drawn f (each (\<lambda>n. move_row n (n - 1)) (rev [scroll_first_row f - 1 + 1..last_row f - 1]) f \<bind>
          put_row (min (scroll_first_row f - 1) (last_row f - 1)) v' c')"
  proof (rule drawn_bind)
    show "drawn f (each (\<lambda>n. move_row n (n - 1)) (rev [scroll_first_row f - 1 + 1..last_row f - 1]) f)"
      using assms(2) by (intro drawn_each[OF _ assms(1)] move_row_drawn_again) (auto simp: cursor_ok_def)
    fix vm cm assume c: "canvas (f\<lparr>videomem := vm, colors := cm\<rparr>)"
    show "drawn f (put_row (min (scroll_first_row f - 1) (last_row f - 1)) v' c' (f\<lparr>videomem := vm, colors := cm\<rparr>))"
      using put_row_drawn[OF c, of "min (scroll_first_row f - 1) (last_row f - 1)" v' c'] cl assms(2) by (simp add: cursor_ok_def)
  qed
  then show ?thesis using at cl by (simp add: scroll_back_line_def Let_def)
qed

lemma cursor_ok_again [simp]: "cursor_ok (f\<lparr>videomem := vm, colors := cm\<rparr>) = cursor_ok f"
  by (simp add: cursor_ok_def)

lemma scroll_drawn: "canvas f \<Longrightarrow> cursor_ok f \<Longrightarrow> logfile f = None \<Longrightarrow> drawn f (vt_frame_video_scroll n f)"
  unfolding vt_frame_video_scroll_def
  using scroll_line_drawn[of "f\<lparr>videomem := _, colors := _\<rparr>"] by (intro drawn_each) simp_all

lemma scroll_back_drawn: "canvas f \<Longrightarrow> cursor_ok f \<Longrightarrow> drawn f (vt_frame_video_scroll_back n f)"
  unfolding vt_frame_video_scroll_back_def
  using scroll_back_line_drawn[of "f\<lparr>videomem := _, colors := _\<rparr>"] by (auto intro: drawn_each simp: drawn_same)

subsection \<open>The handlers\<close>

text \<open>An answer in which the frame is still a proper one.\<close>

definition safe :: "vwm_frame option \<Rightarrow> bool" where
  "safe m \<longleftrightarrow> (\<exists>f. m = Some f \<and> frame_ok f)"

lemma safe_Some [simp]: "safe (Some f) = frame_ok f"
  by (simp add: safe_def)

lemma safe_map: "safe m \<Longrightarrow> (\<And>f. frame_ok f \<Longrightarrow> frame_ok (g f)) \<Longrightarrow> safe (map_option g m)"
  by (auto simp: safe_def)

lemma frame_ok_canvas: "frame_ok f \<Longrightarrow> canvas f"
  by (simp add: frame_ok_def canvas_def)

lemma drawn_safe: "drawn f m \<Longrightarrow> frame_ok f \<Longrightarrow> safe m"
  by (auto simp: drawn_def safe_def frame_defs)

lemma frame_ok_quiet [simp]:
  "frame_ok (emit vt f) = frame_ok f" "frame_ok (emit_text bs f) = frame_ok f" "frame_ok (send bs f) = frame_ok f"
  "frame_ok (f\<lparr>textattr := a\<rparr>) = frame_ok f" "frame_ok (f\<lparr>process_char_cb := s\<rparr>) = frame_ok f" "frame_ok (f\<lparr>key_state := k\<rparr>) = frame_ok f"
  "frame_ok (f\<lparr>saved_textattr := a\<rparr>) = frame_ok f" "frame_ok (f\<lparr>saved_col_pos := n\<rparr>) = frame_ok f"
  by (simp_all add: frame_defs emit_def emit_text_def send_def)

lemma quiet_fields [simp]:
  "col_pos (emit vt f) = col_pos f" "row_pos (emit vt f) = row_pos f" "num_cols (emit vt f) = num_cols f" "num_rows (emit vt f) = num_rows f"
  "videomem (emit vt f) = videomem f" "colors (emit vt f) = colors f" "esc_param (emit vt f) = esc_param f"
  "esc_param (emit_text bs f) = esc_param f"
  by (simp_all add: emit_def emit_text_def)

lemma param_bounds: "frame_ok f \<Longrightarrow> i < MAX_PARAMS \<Longrightarrow> 0 \<le> param i f \<and> param i f < 2 ^ 31"
  by (simp add: frame_defs param_def)

lemma frame_ok_set_param: "frame_ok f \<Longrightarrow> 0 \<le> v \<Longrightarrow> v < 2 ^ 31 \<Longrightarrow> frame_ok (set_param i v f)"
  unfolding frame_ok_def params_ok_def
  by (auto simp: cursor_ok_def multibyte_ok_def set_param_def dest: set_update_subset_insert[THEN subsetD])

lemma frame_ok_default_one: "frame_ok f \<Longrightarrow> frame_ok (default_one i f)"
  by (simp add: default_one_def frame_ok_set_param)

lemma default_one_fields [simp]:
  "row_pos (default_one i f) = row_pos f" "col_pos (default_one i f) = col_pos f" "num_rows (default_one i f) = num_rows f"
  "num_cols (default_one i f) = num_cols f" "last_row (default_one i f) = last_row f" "scroll_first_row (default_one i f) = scroll_first_row f"
  by (simp_all add: default_one_def set_param_def)

lemma params_length: "frame_ok f \<Longrightarrow> length (esc_param f) = MAX_PARAMS"
  by (simp add: frame_ok_def params_ok_def)

lemma default_one_max: "frame_ok f \<Longrightarrow> i < MAX_PARAMS \<Longrightarrow> param i (default_one i f) = max 1 (param i f)"
  using param_bounds[of f i] params_length[of f] by (cases "param i f = 0") (simp_all add: default_one_def param_def set_param_def)

lemma frame_ok_esc_set: "frame_ok f \<Longrightarrow> frame_ok (vt_frame_esc_set f)"
  by (simp add: frame_defs vt_frame_esc_set_def set_replicate_conv_if MAX_PARAMS_def)

text \<open>A new place of the cursor.\<close>

lemma frame_ok_row: "frame_ok f \<Longrightarrow> 1 \<le> r \<Longrightarrow> r \<le> num_rows f \<Longrightarrow> frame_ok (f\<lparr>row_pos := r\<rparr>)"
  by (simp add: frame_defs)

lemma frame_ok_col: "frame_ok f \<Longrightarrow> 1 \<le> c \<Longrightarrow> c \<le> num_cols f + 1 \<Longrightarrow> frame_ok (f\<lparr>col_pos := c\<rparr>)"
  by (simp add: frame_defs)

lemma frame_ok_charset: "frame_ok f \<Longrightarrow> frame_ok (f\<lparr>charset := (charset f)[i := t]\<rparr>)"
  by (simp add: frame_defs)

lemma frame_ok_tabstops: "frame_ok f \<Longrightarrow> int (length ts) = num_cols f \<Longrightarrow> frame_ok (f\<lparr>tabstops := ts\<rparr>)"
  by (simp add: frame_defs)

lemma scroll_safe: "frame_ok f \<Longrightarrow> safe (vt_frame_video_scroll n f)"
  using drawn_safe[OF scroll_drawn] frame_ok_canvas by (simp add: frame_ok_def)

lemma scroll_back_safe: "frame_ok f \<Longrightarrow> safe (vt_frame_video_scroll_back n f)"
  using drawn_safe[OF scroll_back_drawn] frame_ok_canvas by (simp add: frame_ok_def)

lemma frame_ok_cursor: "frame_ok f \<Longrightarrow> cursor_ok f"
  by (simp add: frame_ok_def)

lemma newline_safe: "frame_ok f \<Longrightarrow> safe (newline f)"
  using frame_ok_row[of f "row_pos f + 1"] frame_ok_cursor[of f] by (simp add: newline_def scroll_safe cursor_ok_def)

lemma goto_cursor_ok [simp]: "frame_ok (goto_cursor f) = frame_ok f"
  by (simp add: goto_cursor_def)

subsubsection \<open>Parameters\<close>

definition digit_overflows :: "int \<Rightarrow> vwm_frame \<Rightarrow> bool" where
  "digit_overflows c f \<longleftrightarrow> is_digit c \<and> 2 ^ 31 \<le> esc_param f ! nat (param_idx f) * 10 + (c - 48)"

lemma in_int_Some: "- (2 ^ 31) \<le> v \<Longrightarrow> v < 2 ^ 31 \<Longrightarrow> in_int 32 v = Some v"
  by (simp add: in_int_def)

lemma param_digit_safe:
  assumes "frame_ok f" "is_digit c" "\<not> digit_overflows c f"
  shows "safe (param_digit c f)"
proof -
  have i: "0 \<le> param_idx f" "param_idx f < int (length (esc_param f))" using assms(1) by (simp_all add: frame_ok_def params_ok_def)
  let ?p = "esc_param f ! nat (param_idx f)"
  have p: "0 \<le> ?p" using assms(1) i by (simp add: frame_ok_def params_ok_def nat_less_iff)
  have b: "?p * 10 + (c - 48) < 2 ^ 31" "0 \<le> c - 48" using assms by (auto simp: digit_overflows_def is_digit_def)
  have "param_digit c f = Some (set_param (nat (param_idx f)) (?p * 10 + (c - 48)) f)"
    using i p b by (simp add: param_digit_def at_Some put_Some in_int_Some set_param_def)
  then show ?thesis using frame_ok_set_param[OF assms(1)] p b by simp
qed

subsubsection \<open>Colours and attributes\<close>

lemma color_rest_drawn:
  assumes "canvas f" "cursor_ok f" "n \<le> 2 * num_cols f - col_pos f + 1"
  shows "drawn f (color_rest n clr f)"
  unfolding color_rest_def
proof (rule drawn_each[OF _ assms(1)])
  fix i vm cm assume "i \<in> set [0..n - 1]" and c: "canvas (f\<lparr>videomem := vm, colors := cm\<rparr>)"
  then have "0 \<le> row_pos f - 1" "row_pos f - 1 < num_rows f" "0 \<le> col_pos f - 1 + i" "col_pos f - 1 + i < 2 * num_cols f"
    using assms(2,3) by (auto simp: cursor_ok_def)
  then obtain cm' where "set_cell (row_pos f - 1) (col_pos f - 1 + i) clr cm = Some cm'" "grid (num_rows f) (num_cols f) cm'"
    using c set_cell_grid[of "num_rows f" "num_cols f" cm "row_pos f - 1" "col_pos f - 1 + i" clr] by (auto simp: canvas_def)
  then show "drawn f (map_option (\<lambda>cm'. f\<lparr>videomem := vm, colors := cm, colors := cm'\<rparr>) (set_cell (row_pos (f\<lparr>videomem := vm, colors := cm\<rparr>) - 1)
      (col_pos (f\<lparr>videomem := vm, colors := cm\<rparr>) - 1 + i) clr (colors (f\<lparr>videomem := vm, colors := cm\<rparr>))))"
    using c unfolding drawn_def by (intro exI[of _ vm] exI[of _ cm']) (simp add: canvas_def)
qed

lemma color_rest_safe: "frame_ok f \<Longrightarrow> n \<le> num_cols f - col_pos f + 1 \<Longrightarrow> safe (color_rest n clr f)"
  using color_rest_drawn[of f n clr] drawn_safe[of f] frame_ok_canvas[of f] frame_ok_cursor[of f] by (simp add: cursor_ok_def)

lemma attr_ok: "frame_ok (attr_on b vt f) = frame_ok f" "frame_ok (attr_off b vt f) = frame_ok f"
  by (simp_all add: attr_on_def attr_off_def)

lemma process_m_safe: "frame_ok f \<Longrightarrow> safe (vt_process_m c f)"
  unfolding vt_process_m_def
  by (simp add: attr_ok Let_def color_rest_safe)

lemma each_keeps: "(\<And>i f f'. g i f = Some f' \<Longrightarrow> P f' = P f) \<Longrightarrow> each g is f = Some f' \<Longrightarrow> P f' = P f"
  by (induction "is" arbitrary: f) (auto simp: bind_eq_Some_conv)

lemma color_rest_params: "color_rest n clr f = Some f' \<Longrightarrow> esc_param f' = esc_param f"
  unfolding color_rest_def by (erule each_keeps[rotated]) auto

lemma color_rest_params_kept: "esc_param g = ps \<Longrightarrow> pred_option (\<lambda>f'. esc_param f' = ps) (color_rest n clr g)"
  using color_rest_params[of n clr g] by (cases "color_rest n clr g") simp_all

lemma process_m_params: "pred_option (\<lambda>f'. esc_param f' = esc_param f) (vt_process_m c f)"
  unfolding vt_process_m_def by (simp add: attr_on_def attr_off_def Let_def color_rest_params_kept)

lemma set_attributes_safe:
  "frame_ok f \<Longrightarrow> i < MAX_PARAMS \<Longrightarrow> 0 \<in> set (drop i (esc_param f)) \<Longrightarrow> MAX_PARAMS - i < n \<Longrightarrow> safe (set_attributes n i f)"
proof (induction n arbitrary: i f)
  case (Suc n)
  have len: "i < length (esc_param f)" using Suc.prems by (simp add: frame_defs)
  then have p: "at (esc_param f) (int i) = Some (esc_param f ! i)" by (simp add: at_def)
  show ?case
  proof (cases "esc_param f ! i = 0")
    case False
    obtain f' where f': "vt_process_m (esc_param f ! i) f = Some f'" "frame_ok f'"
      using process_m_safe[OF Suc.prems(1)] by (auto simp: safe_def)
    have rest: "0 \<in> set (drop (Suc i) (esc_param f))" using Suc.prems(3) len False by (simp add: Cons_nth_drop_Suc[symmetric])
    then have "Suc i < length (esc_param f)" by (metis drop_all empty_iff empty_set not_le)
    then have "Suc i < MAX_PARAMS" using Suc.prems(1) by (simp add: frame_defs)
    then have "safe (set_attributes n (Suc i) f')"
      using Suc.prems f' rest process_m_params[of f "esc_param f ! i"] by (intro Suc.IH) auto
    then show ?thesis using p f' False by simp
  qed (use Suc.prems p in simp)
qed simp

subsubsection \<open>Control sequences\<close>

lemma set_scroll_region_ok: "frame_ok f \<Longrightarrow> frame_ok (set_scroll_region f)"
  unfolding frame_ok_def
  by (simp add: set_scroll_region_def Let_def params_ok_def multibyte_ok_def emit_def cursor_ok_def)

lemma frame_ok_place: "frame_ok f \<Longrightarrow> 1 \<le> r \<Longrightarrow> r \<le> num_rows f \<Longrightarrow> 1 \<le> c \<Longrightarrow> c \<le> num_cols f + 1 \<Longrightarrow> frame_ok (f\<lparr>row_pos := r, col_pos := c\<rparr>)"
  using frame_ok_col[OF frame_ok_row, of f r c] by simp

lemma cursor_facts:
  "frame_ok f \<Longrightarrow> 1 \<le> num_rows f \<and> num_rows f < 2 ^ 16 \<and> 1 \<le> num_cols f \<and> num_cols f < 2 ^ 16 \<and>
     1 \<le> row_pos f \<and> row_pos f \<le> num_rows f \<and> 1 \<le> col_pos f \<and> col_pos f \<le> num_cols f + 1 \<and>
     1 \<le> scroll_first_row f \<and> scroll_first_row f \<le> last_row f \<and> last_row f \<le> num_rows f \<and> 1 \<le> saved_row_pos f"
  by (simp add: frame_ok_def cursor_ok_def)

text \<open>The sum or difference of a place and a parameter.\<close>

lemma back_in_int: "1 \<le> n \<Longrightarrow> n < 2 ^ 17 \<Longrightarrow> 0 \<le> p \<Longrightarrow> p < 2 ^ 31 \<Longrightarrow> in_int 32 (n - max 1 p) = Some (n - max 1 p)"
  by (rule in_int_Some) auto

lemma cursor_up_safe: "frame_ok f \<Longrightarrow> safe (cursor_up f)"
  using frame_ok_default_one[of f 0] cursor_facts[of f] default_one_max[of f 0] param_bounds[of f 0]
    back_in_int[of "row_pos f" "param 0 f"]
    frame_ok_row[of "default_one 0 f" "row_pos f - max 1 (param 0 f)"] frame_ok_row[of "default_one 0 f" "scroll_first_row f"]
  by (auto simp: cursor_up_def Let_def MAX_PARAMS_def)

lemma cursor_down_safe:
  "frame_ok f \<Longrightarrow> row_pos f = last_row f \<or> row_pos f + max 1 (param 0 f) < 2 ^ 31 \<Longrightarrow> safe (cursor_down f)"
  using frame_ok_default_one[of f 0] cursor_facts[of f] default_one_max[of f 0]
    frame_ok_row[of "default_one 0 f" "row_pos f + max 1 (param 0 f)"] frame_ok_row[of "default_one 0 f" "last_row f"]
  by (auto simp: cursor_down_def Let_def in_int_Some MAX_PARAMS_def)

lemma cursor_right_safe:
  "frame_ok f \<Longrightarrow> col_pos f = num_cols f \<or> col_pos f + max 1 (param 0 f) < 2 ^ 31 \<Longrightarrow> safe (cursor_right f)"
  using frame_ok_default_one[of f 0] cursor_facts[of f] default_one_max[of f 0]
    frame_ok_col[of "default_one 0 f" "col_pos f + max 1 (param 0 f)"] frame_ok_col[of "default_one 0 f" "num_cols f"]
  by (auto simp: cursor_right_def Let_def in_int_Some MAX_PARAMS_def)

lemma cursor_left_safe: "frame_ok f \<Longrightarrow> safe (cursor_left f)"
  using frame_ok_default_one[of f 0] cursor_facts[of f] default_one_max[of f 0] param_bounds[of f 0]
    back_in_int[of "col_pos f" "param 0 f"]
    frame_ok_col[of "default_one 0 f" "col_pos f - max 1 (param 0 f)"] frame_ok_col[of "default_one 0 f" 1]
  by (auto simp: cursor_left_def Let_def MAX_PARAMS_def)

lemma default_one_other: "i \<noteq> j \<Longrightarrow> param i (default_one j f) = param i f"
  by (simp add: default_one_def param_def set_param_def)

lemma cursor_to_ok: "frame_ok f \<Longrightarrow> frame_ok (cursor_to f)"
proof -
  assume f: "frame_ok f"
  let ?f = "default_one 1 (default_one 0 f)"
  have "1 \<le> param 0 ?f" "1 \<le> param 1 ?f"
    using f frame_ok_default_one[OF f, of 0] default_one_max[of f 0] default_one_max[of "default_one 0 f" 1]
    by (simp_all add: default_one_other MAX_PARAMS_def)
  then show ?thesis
    using f cursor_facts[OF f] unfolding cursor_to_def Let_def goto_cursor_ok
    by (intro frame_ok_place frame_ok_default_one) auto
qed

lemma clear_tabstops_safe:
  assumes "frame_ok f" "param 0 f = 0 \<Longrightarrow> col_pos f \<le> num_cols f"
  shows "safe (clear_tabstops f)"
proof -
  have len: "int (length (tabstops f)) = num_cols f" using assms(1) by (simp add: frame_ok_def)
  have "\<exists>ts'. each (\<lambda>i ts. put ts i 0) is ts = Some ts' \<and> length ts' = n"
    if "\<forall>i \<in> set is. 0 \<le> i \<and> i < int n" "length ts = n" for "is" and ts :: "int list" and n
    using that by (induction "is" arbitrary: ts) (simp_all add: put_Some)
  from this[of "[0..num_cols f - 1]" "length (tabstops f)" "tabstops f"] len
  have "\<exists>ts. each (\<lambda>i ts. put ts i 0) [0..num_cols f - 1] (tabstops f) = Some ts \<and> int (length ts) = num_cols f" by auto
  then show ?thesis
    using assms cursor_facts[of f] len by (auto simp: clear_tabstops_def put_Some frame_ok_tabstops)
qed

lemma erase_safe:
  "frame_ok f \<Longrightarrow> 1 \<le> x1 \<Longrightarrow> x2 \<le> num_rows f \<Longrightarrow> 1 \<le> y1 \<Longrightarrow> y2 \<le> 2 * num_cols f \<Longrightarrow> safe (vt_video_erase x1 x2 y1 y2 f)"
  using drawn_safe[OF erase_drawn] frame_ok_canvas by blast

lemma safe_bind: "safe m \<Longrightarrow> (\<And>f. frame_ok f \<Longrightarrow> safe (g f)) \<Longrightarrow> safe (m \<bind> g)"
  by (auto simp: safe_def)

lemma home_ok: "frame_ok f \<Longrightarrow> frame_ok (f\<lparr>row_pos := 1, col_pos := 1\<rparr>)"
  using cursor_facts[of f] by (intro frame_ok_place) auto

lemma clear_screen_safe: "frame_ok f \<Longrightarrow> safe (clear_screen f)"
  using cursor_facts[of f]
  by (auto simp: clear_screen_def Let_def intro!: safe_map safe_bind erase_safe home_ok)

lemma clear_line_safe: "frame_ok f \<Longrightarrow> safe (clear_line f)"
  using cursor_facts[of f] by (auto simp: clear_line_def intro!: safe_map erase_safe)

lemma report_ok [simp]: "frame_ok (report f) = frame_ok f"
  by (simp add: report_def)

lemma rshift_safe: "frame_ok f \<Longrightarrow> 0 \<le> n \<Longrightarrow> safe (vt_frame_video_rshift n f)"
  using drawn_safe[OF rshift_drawn] frame_ok_canvas frame_ok_cursor by blast

lemma ech_safe: "frame_ok f \<Longrightarrow> cols \<le> col_pos f \<or> num_cols f < 2 * col_pos f \<Longrightarrow> safe (vt_frame_ech cols f)"
  unfolding vt_frame_ech_def
  using drawn_safe[OF ech_drawn] frame_ok_canvas frame_ok_cursor by (intro safe_bind) auto

text \<open>The requests of a control sequence that leave the arrays or overflow an \<open>int\<close>.\<close>

definition sequence_overruns :: "int \<Rightarrow> vwm_frame \<Rightarrow> bool" where
  "sequence_overruns c f \<longleftrightarrow>
     c = 66 \<and> row_pos f \<noteq> last_row f \<and> 2 ^ 31 \<le> row_pos f + max 1 (param 0 f) \<or>
     c = 67 \<and> col_pos f \<noteq> num_cols f \<and> 2 ^ 31 \<le> col_pos f + max 1 (param 0 f) \<or>
     c = 103 \<and> param 0 f = 0 \<and> num_cols f < col_pos f \<or>
     c = 109 \<and> 0 \<notin> set (drop 1 (esc_param f)) \<or>
     c = 88 \<and> col_pos f < param 0 f \<and> 2 * col_pos f \<le> num_cols f"

lemma set_m_safe:
  assumes "frame_ok f" "0 \<in> set (drop 1 (esc_param f))"
  shows "safe (vt_process_m c f \<bind> set_attributes (MAX_PARAMS + 1) 1)"
proof -
  obtain g where "vt_process_m c f = Some g" "frame_ok g" using process_m_safe[OF assms(1)] by (auto simp: safe_def)
  moreover from this have "esc_param g = esc_param f" using process_m_params[of f c] by simp
  ultimately show ?thesis using assms set_attributes_safe[of g 1 "MAX_PARAMS + 1"] by (simp add: MAX_PARAMS_def)
qed

lemma swap_params_ok: "frame_ok f \<Longrightarrow> frame_ok (set_param 1 (param 0 f) (set_param 0 (if param 1 f \<le> 1 then row_pos f else param 1 f) f))"
  using param_bounds[of f 0] param_bounds[of f 1] cursor_facts[of f] by (auto simp: MAX_PARAMS_def intro!: frame_ok_set_param)

lemma control_sequence_safe:
  assumes "frame_ok f" "\<not> sequence_overruns c f"
  shows "safe (control_sequence c f)"
proof -
  have shift: "safe (vt_frame_video_rshift (param 0 (default_one 0 f)) (emit vt (default_one 0 f)))" for vt
    using assms(1) default_one_max[of f 0] by (intro rshift_safe) (simp_all add: frame_ok_default_one MAX_PARAMS_def)
  have erase: "safe (map_option (emit vt) (vt_video_erase (row_pos f) (row_pos f) (col_pos f) (col_pos f) f))" for vt
    using assms(1) cursor_facts[of f] by (intro safe_map erase_safe) auto
  have line: "safe (map_option (emit vt) (vt_frame_video_scroll_back 1 f))" for vt
    using assms(1) by (intro safe_map scroll_back_safe) auto
  have down: "c = 66 \<Longrightarrow> safe (cursor_down f)" and right: "c = 67 \<Longrightarrow> safe (cursor_right f)"
    and tabs: "c = 103 \<Longrightarrow> safe (clear_tabstops f)" and m: "c = 109 \<Longrightarrow> safe (vt_process_m (param 0 f) f \<bind> set_attributes (MAX_PARAMS + 1) 1)"
    and ech: "c = 88 \<Longrightarrow> safe (vt_frame_ech (param 0 f) f)"
    using assms unfolding sequence_overruns_def
    by (fastforce intro: cursor_down_safe cursor_right_safe clear_tabstops_safe set_m_safe ech_safe)+
  note always = cursor_up_safe cursor_left_safe clear_screen_safe clear_line_safe set_scroll_region_ok cursor_to_ok
  show ?thesis
    using down right tabs m ech erase line shift swap_params_ok[OF assms(1)] always[OF assms(1)] assms(1)
    unfolding control_sequence_def Let_def by (simp del: One_nat_def)
qed

subsubsection \<open>Escapes\<close>

lemma frame_ok_idx: "frame_ok f \<Longrightarrow> param_idx f + 1 < int MAX_PARAMS \<Longrightarrow> frame_ok (f\<lparr>param_idx := param_idx f + 1\<rparr>)"
  unfolding frame_ok_def by (simp add: params_ok_def cursor_ok_def multibyte_ok_def)

lemma do_esc_brace_safe:
  assumes "frame_ok f" "\<not> digit_overflows c f" "\<not> sequence_overruns c f"
  shows "safe (do_esc_brace c f)"
proof -
  have "0 \<le> param_idx f" "param_idx f < int (length (esc_param f))" using assms(1) by (simp_all add: frame_ok_def params_ok_def)
  then show ?thesis
    using assms unfolding do_esc_brace_def
    by (auto simp: at_Some param_digit_safe frame_ok_esc_set frame_ok_idx intro!: safe_map control_sequence_safe)
qed

lemma mode_ok: "frame_ok f \<Longrightarrow> frame_ok (set_mode f)" "frame_ok f \<Longrightarrow> frame_ok (reset_mode f)"
  by (simp_all add: set_mode_def reset_mode_def Let_def)

lemma do_esc_brace_q_safe: "frame_ok f \<Longrightarrow> \<not> digit_overflows c f \<Longrightarrow> safe (do_esc_brace_q c f)"
  by (simp add: do_esc_brace_q_def param_digit_safe frame_ok_esc_set mode_ok)

lemma select_charset_ok: "frame_ok f \<Longrightarrow> frame_ok (select_charset g c f)"
  by (simp add: select_charset_def Let_def frame_ok_charset)

lemma goto_cursor_attr [simp]: "saved_textattr (goto_cursor f) = saved_textattr f"
  by (simp add: goto_cursor_def emit_def)

lemma first_column_ok: "frame_ok f \<Longrightarrow> frame_ok (f\<lparr>col_pos := 1\<rparr>)"
  using cursor_facts[of f] by (intro frame_ok_col) auto

lemma restore_cursor_ok: "frame_ok f \<Longrightarrow> frame_ok (restore_cursor f)"
proof -
  assume f: "frame_ok f"
  have "restore_cursor f = vt_frame_attr_set ((goto_cursor (f\<lparr>row_pos := min (saved_row_pos f) (num_rows f),
          col_pos := min (col_pos f) (num_cols f)\<rparr>))\<lparr>textattr := saved_textattr f\<rparr>)"
    by (simp add: restore_cursor_def Let_def min_def)
  then show ?thesis using f cursor_facts[OF f] by (simp add: vt_frame_attr_set_def frame_ok_place)
qed

lemma frame_reset_ok: "frame_ok f \<Longrightarrow> frame_ok (frame_reset f)"
  unfolding frame_reset_def frame_ok_def
  by (intro frame_ok_esc_set[unfolded frame_ok_def]) (simp add: params_ok_def cursor_ok_def multibyte_ok_def)

lemma save_cursor_ok: "frame_ok f \<Longrightarrow> frame_ok (f\<lparr>saved_row_pos := row_pos f, saved_col_pos := col_pos f, saved_textattr := textattr f\<rparr>)"
  unfolding frame_ok_def by (simp add: params_ok_def cursor_ok_def multibyte_ok_def)

definition escape_overruns :: "int \<Rightarrow> vwm_frame \<Rightarrow> bool" where
  "escape_overruns c f \<longleftrightarrow> c = 72 \<and> num_cols f < col_pos f"

lemma escape_char_safe:
  assumes "frame_ok f" "\<not> escape_overruns c f"
  shows "safe (escape_char c f)"
proof -
  have tabs: "c = 72 \<Longrightarrow> safe (map_option (\<lambda>ts. f\<lparr>tabstops := ts\<rparr>) (put (tabstops f) (col_pos f - 1) 1))"
    using assms cursor_facts[OF assms(1)] by (auto simp: escape_overruns_def put_Some frame_ok_tabstops frame_ok_def[of f])
  have down: "safe (map_option (emit_text [10]) (newline f))" using assms(1) by (intro safe_map newline_safe) auto
  have crlf: "safe (map_option (\<lambda>f. emit_text [13, 10] (f\<lparr>col_pos := 1\<rparr>)) (newline f))"
    using assms(1) by (intro safe_map newline_safe) (auto simp: first_column_ok)
  have up: "scroll_first_row f < row_pos f \<Longrightarrow> frame_ok (f\<lparr>row_pos := row_pos f - 1\<rparr>)"
    using assms(1) cursor_facts[OF assms(1)] by (intro frame_ok_row) auto
  have rev_line: "safe (map_option (emit vt_revscroll) (vt_frame_video_scroll_back 1 f))"
    using assms(1) by (intro safe_map scroll_back_safe) auto
  show ?thesis
    using assms(1) tabs down crlf up rev_line save_cursor_ok[OF assms(1)] restore_cursor_ok[OF assms(1)] frame_reset_ok[OF assms(1)]
    unfolding escape_char_def by (simp del: One_nat_def)
qed

lemma do_esc_e_safe: "frame_ok f \<Longrightarrow> \<not> escape_overruns c f \<Longrightarrow> safe (do_esc_e c f)"
  unfolding do_esc_e_def by (simp add: safe_map[OF escape_char_safe] frame_ok_esc_set)

subsubsection \<open>Text\<close>

lemma to_tabstop_safe:
  "frame_ok f \<Longrightarrow> col_pos f < num_cols f \<Longrightarrow> num_cols f - col_pos f < int n \<Longrightarrow> safe (to_tabstop n f)"
proof (induction n arbitrary: f)
  case (Suc n)
  have "int (length (tabstops f)) = num_cols f" "frame_ok (f\<lparr>col_pos := col_pos f + 1\<rparr>)"
    using Suc.prems cursor_facts[of f] by (auto intro!: frame_ok_col) (simp add: frame_ok_def)
  moreover have "safe (to_tabstop n (f\<lparr>col_pos := col_pos f + 1\<rparr>))" if "col_pos f + 1 < num_cols f"
    using Suc.IH[of "f\<lparr>col_pos := col_pos f + 1\<rparr>"] Suc.prems calculation that by simp
  ultimately show ?case using Suc.prems cursor_facts[of f] by (simp add: at_Some Let_def)
qed simp

lemma tab_safe: "frame_ok f \<Longrightarrow> col_pos f < num_cols f \<Longrightarrow> safe (tab f)"
  using cursor_facts[of f] unfolding tab_def by (intro safe_map to_tabstop_safe) auto

text \<open>What one character changes: the cells, the place, and what is sent to the terminal.\<close>

definition appended :: "vwm_frame \<Rightarrow> vwm_frame \<Rightarrow> bool" where
  "appended f g \<longleftrightarrow> g\<lparr>row_pos := row_pos f, col_pos := col_pos f, videomem := videomem f, colors := colors f, render := render f\<rparr> = f \<and>
     1 \<le> row_pos g \<and> row_pos g \<le> num_rows f \<and> 1 \<le> col_pos g \<and> col_pos g \<le> num_cols f + 1 \<and> canvas g"

definition place_ok :: "vwm_frame \<Rightarrow> bool" where
  "place_ok f \<longleftrightarrow> cursor_ok f \<and> canvas f \<and> logfile f = None"

lemma appended_form: "appended f g \<Longrightarrow> f = g\<lparr>row_pos := row_pos f, col_pos := col_pos f, videomem := videomem f, colors := colors f, render := render f\<rparr>"
  by (simp add: appended_def)

lemma appended_fields:
  assumes "appended f g"
  shows "num_rows g = num_rows f" "num_cols g = num_cols f" "mb_len g = mb_len f" "mb_buf g = mb_buf f" "last_row g = last_row f"
    "scroll_first_row g = scroll_first_row f" "saved_row_pos g = saved_row_pos f" "logfile g = logfile f" "esc_param g = esc_param f"
    "param_idx g = param_idx f" "tabstops g = tabstops f" "charset g = charset f" "mb_curlen g = mb_curlen f" "mb_code g = mb_code f"
    "textattr g = textattr f" "process_char_cb g = process_char_cb f" "first_row g = first_row f"
  using arg_cong[OF appended_form[OF assms], of num_rows]
    arg_cong[OF appended_form[OF assms], of num_cols]
    arg_cong[OF appended_form[OF assms], of mb_len]
    arg_cong[OF appended_form[OF assms], of mb_buf]
    arg_cong[OF appended_form[OF assms], of last_row]
    arg_cong[OF appended_form[OF assms], of scroll_first_row]
    arg_cong[OF appended_form[OF assms], of saved_row_pos]
    arg_cong[OF appended_form[OF assms], of logfile]
    arg_cong[OF appended_form[OF assms], of esc_param]
    arg_cong[OF appended_form[OF assms], of param_idx]
    arg_cong[OF appended_form[OF assms], of tabstops]
    arg_cong[OF appended_form[OF assms], of charset]
    arg_cong[OF appended_form[OF assms], of mb_curlen]
    arg_cong[OF appended_form[OF assms], of mb_code]
    arg_cong[OF appended_form[OF assms], of textattr]
    arg_cong[OF appended_form[OF assms], of process_char_cb]
    arg_cong[OF appended_form[OF assms], of first_row]
  by simp_all

lemma appended_place: "place_ok f \<Longrightarrow> appended f g \<Longrightarrow> place_ok g"
  using appended_fields[of f g] by (simp add: appended_def place_ok_def cursor_ok_def)

lemma appended_trans:
  assumes "appended f g" "appended g h"
  shows "appended f h"
proof -
  have "h\<lparr>row_pos := row_pos f, col_pos := col_pos f, videomem := videomem f, colors := colors f, render := render f\<rparr> =
    (h\<lparr>row_pos := row_pos g, col_pos := col_pos g, videomem := videomem g, colors := colors g, render := render g\<rparr>)
      \<lparr>row_pos := row_pos f, col_pos := col_pos f, videomem := videomem f, colors := colors f, render := render f\<rparr>" by simp
  also have "\<dots> = f" using assms by (simp only: appended_def)
  finally show ?thesis using assms appended_fields[OF assms(1)] by (simp add: appended_def)
qed

lemma newline_appended:
  assumes "place_ok f"
  shows "\<exists>g. newline f = Some g \<and> appended f g"
proof (cases "row_pos f < last_row f")
  case True
  then show ?thesis using assms by (auto simp: newline_def appended_def place_ok_def cursor_ok_def canvas_def)
next
  case False
  have "drawn f (vt_frame_video_scroll 1 f)" using assms by (intro scroll_drawn) (simp_all add: place_ok_def)
  then show ?thesis
    using False assms by (auto simp: newline_def drawn_def appended_def place_ok_def cursor_ok_def canvas_def)
qed

lemma appended_draw: "place_ok f \<Longrightarrow> drawn f m \<Longrightarrow> \<exists>g. m = Some g \<and> appended f g"
  by (auto simp: drawn_def appended_def place_ok_def cursor_ok_def canvas_def)

lemma video_add_appended:
  assumes "place_ok f" "col_pos f \<le> num_cols f"
  shows "\<exists>g. vt_video_add c f = Some g \<and> appended f g \<and> col_pos g = col_pos f"
proof -
  obtain vm where "set_cell (row_pos f - 1) (col_pos f - 1) (c OR push_bit 8 (uint (textattr f))) (videomem f) = Some vm"
    "grid (num_rows f) (num_cols f) vm"
    using assms set_cell_grid[of "num_rows f" "num_cols f" "videomem f" "row_pos f - 1" "col_pos f - 1"]
    by (auto simp: place_ok_def canvas_def cursor_ok_def)
  then show ?thesis using assms by (simp add: vt_video_add_def appended_def place_ok_def canvas_def cursor_ok_def)
qed

lemma vt_append_appended:
  assumes "place_ok f" "mb_len f \<le> 8"
  shows "\<exists>g. vt_append c f = Some g \<and> appended f g"
proof -
  obtain g where g: "(if col_pos f > num_cols f then map_option (\<lambda>f. (emit_text [13, 10] f)\<lparr>col_pos := 1\<rparr>) (newline f) else Some f) = Some g"
    "appended f g" "col_pos g \<le> num_cols g"
  proof (cases "num_cols f < col_pos f")
    case True
    obtain h where h: "newline f = Some h" "appended f h" using newline_appended[OF assms(1)] by blast
    have "appended h ((emit_text [13, 10] h)\<lparr>col_pos := 1\<rparr>)"
      using appended_place[OF assms(1) h(2)] by (simp add: appended_def emit_text_def place_ok_def cursor_ok_def canvas_def)
    then show ?thesis
      using that[of "(emit_text [13, 10] h)\<lparr>col_pos := 1\<rparr>"] h True appended_trans[OF h(2)] appended_place[OF assms(1) h(2)]
      by (simp add: emit_text_def place_ok_def cursor_ok_def)
  next
    case False
    then show ?thesis using that[of f] assms(1) by (simp add: appended_def place_ok_def cursor_ok_def)
  qed
  have p: "place_ok g" by (rule appended_place[OF assms(1) g(2)])
  obtain h where h: "vt_video_add c g = Some h" "appended g h" "col_pos h = col_pos g" using video_add_appended[OF p g(3)] by blast
  have fh: "appended f h" by (rule appended_trans[OF g(2) h(2)])
  have "\<exists>bs. (if mb_len h \<noteq> 0 then (if mb_len h \<le> 8 then Some (take (nat (mb_len h)) (mb_buf h)) else None) else Some [word_of_int c]) = Some bs"
    using assms(2) appended_fields(3)[OF fh] by simp
  then obtain bs where bs: "(if mb_len h \<noteq> 0 then (if mb_len h \<le> 8 then Some (take (nat (mb_len h)) (mb_buf h)) else None) else Some [word_of_int c]) = Some bs" ..
  have "appended h ((emit_text bs h)\<lparr>col_pos := col_pos h + 1\<rparr>)"
    using h g(3) appended_place[OF p h(2)] appended_fields(2)[OF h(2)]
    by (simp add: appended_def emit_text_def place_ok_def cursor_ok_def canvas_def)
  moreover have "vt_append c f = Some ((emit_text bs h)\<lparr>col_pos := col_pos h + 1\<rparr>)"
    using bs by (simp only: vt_append_def g(1) h(1) Option.bind.bind_lunit)
  ultimately show ?thesis using appended_trans[OF fh] by blast
qed

lemma frame_ok_split: "frame_ok f \<longleftrightarrow> place_ok f \<and> params_ok f \<and> multibyte_ok f \<and> int (length (tabstops f)) = num_cols f \<and> length (charset f) = 2"
  by (auto simp: frame_ok_def place_ok_def canvas_def)

lemma appended_frame:
  "place_ok f \<Longrightarrow> params_ok f \<Longrightarrow> int (length (tabstops f)) = num_cols f \<Longrightarrow> length (charset f) = 2 \<Longrightarrow> appended f g \<Longrightarrow>
   frame_ok g = multibyte_ok g"
  using appended_fields[of f g] appended_place[of f g] by (simp add: frame_ok_split params_ok_def)

lemma vt_append_safe: "frame_ok f \<Longrightarrow> safe (vt_append c f)"
  using vt_append_appended[of f c] appended_frame[of f] appended_fields[of f]
  by (fastforce simp: frame_ok_split multibyte_ok_def safe_def)

text \<open>A byte \<open>0x80\<close> to \<open>0xBF\<close> or \<open>0xF8\<close> to \<open>0xFF\<close> begins no character; after it the frame waits for 255 bytes.\<close>

definition text_overruns :: "int \<Rightarrow> vwm_frame \<Rightarrow> bool" where
  "text_overruns c f \<longleftrightarrow> c = 9 \<and> num_cols f \<le> col_pos f \<or> 128 \<le> c \<and> mb_len f = 0 \<and> lead_length c = 255"

lemma lead_length_cases: "lead_length c = 255 \<or> lead_length c \<in> {2, 3, 4}"
  by (simp add: lead_length_def)

lemma multibyte_begin_safe:
  assumes "frame_ok f" "mb_len f = 0" "128 \<le> c" "c < 256" "lead_length c \<noteq> 255"
  shows "safe (multibyte c f)"
proof -
  have "frame_ok (f\<lparr>mb_code := c, mb_len := lead_length c, mb_buf := (mb_buf f)[0 := word_of_int c], mb_curlen := 1\<rparr>)"
    using assms lead_length_cases[of c]
    by (auto simp: frame_ok_split place_ok_def params_ok_def cursor_ok_def canvas_def multibyte_ok_def)
  moreover have "put (mb_buf f) 0 (word_of_int c) = Some ((mb_buf f)[0 := word_of_int c])"
    using assms(1) by (simp add: put_Some frame_ok_def multibyte_ok_def)
  ultimately show ?thesis using assms(2) by (simp add: multibyte_def Let_def)
qed

lemma multibyte_continue_safe:
  assumes "frame_ok f" "mb_len f \<noteq> 0" "0 \<le> c" "c < 256"
  shows "safe (multibyte c f)"
proof -
  have m: "mb_len f \<in> {2, 3, 4}" "1 \<le> mb_curlen f" "mb_curlen f < mb_len f" "0 \<le> mb_code f" "mb_code f \<le> code_bound (nat (mb_curlen f))"
    "length (mb_buf f) = 8" and place: "place_ok f" "params_ok f" "int (length (tabstops f)) = num_cols f" "length (charset f) = 2"
    using assms(1,2) by (auto simp: frame_ok_split multibyte_ok_def)
  define code where "code = mb_code f * 64 + c"
  have "nat (mb_curlen f) = 1 \<or> nat (mb_curlen f) = 2 \<or> nat (mb_curlen f) = 3" using m by auto
  then have "code_bound (nat (mb_curlen f)) \<le> code_bound 3" by (auto simp: numeral_2_eq_2 numeral_3_eq_3)
  then have small: "mb_code f \<le> 1061055" using m(5) by (simp add: numeral_3_eq_3)
  then have "in_int 32 (push_bit 6 (mb_code f)) = Some (mb_code f * 64)" "in_int 32 (mb_code f * 64 + c) = Some code"
    using m(4) assms(3,4) by (auto simp: in_int_def push_bit_eq_mult code_def)
  moreover have "put (mb_buf f) (mb_curlen f) (word_of_int c) = Some ((mb_buf f)[nat (mb_curlen f) := word_of_int c])"
    using m by (auto simp: put_Some)
  moreover have "code \<le> code_bound (nat (mb_curlen f + 1))" "0 \<le> code"
    using m assms(3,4) by (simp_all add: code_def nat_add_distrib)
  ultimately show ?thesis
  proof (cases "mb_curlen f + 1 = mb_len f")
    case True
    let ?f = "f\<lparr>mb_buf := (mb_buf f)[nat (mb_curlen f) := word_of_int c], mb_curlen := mb_curlen f + 1, mb_code := code\<rparr>"
    obtain offset where off: "at vwm_offsetsFromUTF8 (mb_len f - 1) = Some offset" "0 \<le> offset" "offset < 2 ^ 26"
      using m(1) by (auto simp: at_def vwm_offsetsFromUTF8_def)
    have in_code: "in_int 32 (code - offset) = Some (code - offset)"
      using off \<open>0 \<le> code\<close> small assms(4) by (intro in_int_Some) (auto simp: code_def)
    have p: "place_ok (?f\<lparr>mb_code := code - offset\<rparr>)" using place by (simp add: place_ok_def cursor_ok_def canvas_def)
    then obtain g where g: "vt_append (code - offset) (?f\<lparr>mb_code := code - offset\<rparr>) = Some g" "appended (?f\<lparr>mb_code := code - offset\<rparr>) g"
      using vt_append_appended[OF p, of "code - offset"] m(1) by auto
    have "place_ok g" by (rule appended_place[OF p g(2)])
    then have "frame_ok (g\<lparr>mb_buf := (mb_buf g)[0 := 0], mb_curlen := 0, mb_len := 0, mb_code := 0\<rparr>)"
      using place appended_fields[OF g(2)] m(6) by (simp add: frame_ok_split place_ok_def cursor_ok_def canvas_def params_ok_def multibyte_ok_def)
    moreover have "put (mb_buf g) 0 0 = Some ((mb_buf g)[0 := 0])"
      using appended_fields[OF g(2)] m(6) by (simp add: put_Some)
    ultimately show ?thesis
      using True m(1) off in_code g(1) \<open>in_int 32 (push_bit 6 (mb_code f)) = Some (mb_code f * 64)\<close>
        \<open>in_int 32 (mb_code f * 64 + c) = Some code\<close> \<open>put (mb_buf f) (mb_curlen f) (word_of_int c) = _\<close>
      by (auto simp: multibyte_def Let_def)
  next
    case False
    have "frame_ok (f\<lparr>mb_buf := (mb_buf f)[nat (mb_curlen f) := word_of_int c], mb_curlen := mb_curlen f + 1, mb_code := code\<rparr>)"
      using False m place \<open>0 \<le> code\<close> \<open>code \<le> _\<close>
      by (auto simp: frame_ok_split place_ok_def params_ok_def cursor_ok_def canvas_def multibyte_ok_def)
    then show ?thesis
      using False m(1) \<open>in_int 32 (push_bit 6 (mb_code f)) = Some (mb_code f * 64)\<close>
        \<open>in_int 32 (mb_code f * 64 + c) = Some code\<close> \<open>put (mb_buf f) (mb_curlen f) (word_of_int c) = _\<close>
      by (auto simp: multibyte_def Let_def)
  qed
qed

lemma do_esc_scan_safe:
  assumes "frame_ok f" "0 \<le> c" "c < 256" "\<not> text_overruns c f"
  shows "safe (do_esc_scan c f)"
proof -
  have mb: "128 \<le> c \<or> mb_len f \<noteq> 0 \<Longrightarrow> safe (multibyte c f)"
    using assms multibyte_begin_safe multibyte_continue_safe unfolding text_overruns_def by (cases "mb_len f = 0") auto
  have tab: "c = 9 \<Longrightarrow> safe (tab f)" using assms tab_safe[of f] by (auto simp: text_overruns_def)
  have line: "safe (map_option (emit_text [10]) (newline f))" using assms(1) by (intro safe_map newline_safe) auto
  have left: "col_pos f \<noteq> 1 \<Longrightarrow> frame_ok (f\<lparr>col_pos := col_pos f - 1\<rparr>)"
    using assms(1) cursor_facts[OF assms(1)] by (intro frame_ok_col) auto
  show ?thesis
    using assms(1) mb tab line left vt_append_safe[OF assms(1)] frame_ok_esc_set[OF assms(1)] first_column_ok[OF assms(1)]
    unfolding do_esc_scan_def by (simp del: One_nat_def)
qed

subsection \<open>Every byte\<close>

text \<open>The bytes that make the code leave an array or overflow an \<open>int\<close>, in the state it finds them in.\<close>

definition overruns :: "int \<Rightarrow> vwm_frame \<Rightarrow> bool" where
  "overruns c f =
     (case process_char_cb f of
        vt_esc_scan \<Rightarrow> text_overruns c f
      | vt_esc_e \<Rightarrow> escape_overruns c f
      | vt_esc_brace \<Rightarrow> digit_overflows c f \<or> sequence_overruns c f
      | vt_esc_brace_q \<Rightarrow> digit_overflows c f
      | _ \<Rightarrow> False)"

lemma process_char_safe: "frame_ok f \<Longrightarrow> 0 \<le> c \<Longrightarrow> c < 256 \<Longrightarrow> \<not> overruns c f \<Longrightarrow> safe (process_char c f)"
  unfolding process_char_def overruns_def
  by (auto split: scanner.splits simp: do_esc_scan_safe do_esc_e_safe do_esc_brace_safe do_esc_brace_q_safe
      do_esc_lparen_def do_esc_rparen_def do_esc_pound_def frame_ok_esc_set select_charset_ok)

text \<open>The bytes of a whole output, none of which overruns the frame it meets.\<close>

primrec tame :: "byte list \<Rightarrow> vwm_frame \<Rightarrow> bool" where
  "tame [] f \<longleftrightarrow> True"
| "tame (b # bs) f \<longleftrightarrow> \<not> overruns (uint b) f \<and> (case process_char (uint b) f of None \<Rightarrow> True | Some g \<Rightarrow> tame bs g)"

lemma uint_byte: "0 \<le> uint (b :: byte)" "uint (b :: byte) < 256"
  using uint_lt2p[of b] by simp_all

lemma tame_output: "frame_ok f \<Longrightarrow> tame bs f \<Longrightarrow> safe (each (\<lambda>b. process_char (uint b)) bs f)"
proof (induction bs arbitrary: f)
  case (Cons b bs)
  obtain g where g: "process_char (uint b) f = Some g" "frame_ok g"
    using process_char_safe[OF Cons.prems(1), of "uint b"] Cons.prems(2) uint_byte[of b] by (auto simp: safe_def)
  then show ?case using Cons.IH[OF g(2)] Cons.prems(2) by simp
qed simp

subsection \<open>The size of the screen\<close>

text \<open>Whatever a handler does, the frame has the rows and columns it had.\<close>

named_theorems sized_rules
named_theorems sized_simps

definition sized :: "int \<Rightarrow> int \<Rightarrow> vwm_frame option \<Rightarrow> bool" where
  "sized r c m \<longleftrightarrow> (\<forall>g. m = Some g \<longrightarrow> num_rows g = r \<and> num_cols g = c)"

lemma sized_None [sized_rules]: "sized r c None"
  by (simp add: sized_def)

lemma sized_Some [sized_rules]: "num_rows f = r \<Longrightarrow> num_cols f = c \<Longrightarrow> sized r c (Some f)"
  by (simp add: sized_def)

lemma sized_map [sized_rules]:
  "sized r c m \<Longrightarrow> (\<And>g. num_rows g = r \<Longrightarrow> num_cols g = c \<Longrightarrow> num_rows (h g) = r) \<Longrightarrow>
   (\<And>g. num_rows g = r \<Longrightarrow> num_cols g = c \<Longrightarrow> num_cols (h g) = c) \<Longrightarrow> sized r c (map_option h m)"
  by (auto simp: sized_def)

lemma sized_update [sized_rules]:
  "(\<And>a. num_rows (h a) = r) \<Longrightarrow> (\<And>a. num_cols (h a) = c) \<Longrightarrow> sized r c (map_option h m)"
  by (auto simp: sized_def)

lemma sized_bind [sized_rules]:
  "sized r c m \<Longrightarrow> (\<And>g. num_rows g = r \<Longrightarrow> num_cols g = c \<Longrightarrow> sized r c (h g)) \<Longrightarrow> sized r c (Option.bind m h)"
  by (auto simp: sized_def bind_eq_Some_conv)

lemma sized_let [sized_rules]: "sized r c (h a) \<Longrightarrow> sized r c (Let a h)"
  by simp

lemma sized_if [sized_rules]: "(b \<Longrightarrow> sized r c x) \<Longrightarrow> (\<not> b \<Longrightarrow> sized r c y) \<Longrightarrow> sized r c (if b then x else y)"
  by simp

lemma sized_option [sized_rules]: "sized r c x \<Longrightarrow> (\<And>a. sized r c (h a)) \<Longrightarrow> sized r c (case_option x h m)"
  by (cases m) simp_all

lemma sized_each [sized_rules]:
  "num_rows f = r \<Longrightarrow> num_cols f = c \<Longrightarrow> (\<And>i g. num_rows g = r \<Longrightarrow> num_cols g = c \<Longrightarrow> sized r c (h i g)) \<Longrightarrow> sized r c (each h is f)"
proof (induction "is" arbitrary: f)
  case (Cons i js)
  show ?case unfolding each.simps by (rule sized_bind[OF Cons.prems(3)[OF Cons.prems(1,2)]]) (rule Cons.IH[OF _ _ Cons.prems(3)])
next
  case Nil
  show ?case using Nil.prems(1,2) by (simp add: sized_def)
qed

lemma sized_any: "(\<And>a. sized r c (h a)) \<Longrightarrow> sized r c (Option.bind m h)"
  by (auto simp: sized_def bind_eq_Some_conv)

lemma sized_functions [sized_simps]:
  "num_rows (emit vt f) = num_rows f" "num_cols (emit vt f) = num_cols f"
  "num_rows (emit_text bs f) = num_rows f" "num_cols (emit_text bs f) = num_cols f"
  "num_rows (set_param i v f) = num_rows f" "num_cols (set_param i v f) = num_cols f"
  "num_rows (default_one i f) = num_rows f" "num_cols (default_one i f) = num_cols f"
  "num_rows (vt_frame_esc_set f) = num_rows f" "num_cols (vt_frame_esc_set f) = num_cols f"
  "num_rows (frame_reset f) = num_rows f" "num_cols (frame_reset f) = num_cols f"
  "num_rows (set_mode f) = num_rows f" "num_cols (set_mode f) = num_cols f"
  "num_rows (reset_mode f) = num_rows f" "num_cols (reset_mode f) = num_cols f"
  "num_rows (select_charset g c f) = num_rows f" "num_cols (select_charset g c f) = num_cols f"
  "num_rows (attr_on b av f) = num_rows f" "num_cols (attr_on b av f) = num_cols f"
  "num_rows (attr_off b av f) = num_rows f" "num_cols (attr_off b av f) = num_cols f"
  "num_rows (goto_cursor f) = num_rows f" "num_cols (goto_cursor f) = num_cols f"
  "num_rows (set_scroll_region f) = num_rows f" "num_cols (set_scroll_region f) = num_cols f"
  "num_rows (cursor_to f) = num_rows f" "num_cols (cursor_to f) = num_cols f"
  "num_rows (send bs f) = num_rows f" "num_cols (send bs f) = num_cols f"
  "num_rows (report f) = num_rows f" "num_cols (report f) = num_cols f"
  "num_rows (vt_frame_attr_set f) = num_rows f" "num_cols (vt_frame_attr_set f) = num_cols f"
  "num_rows (restore_cursor f) = num_rows f" "num_cols (restore_cursor f) = num_cols f"
  by (simp_all add: emit_def emit_text_def set_param_def default_one_def vt_frame_esc_set_def frame_reset_def set_mode_def reset_mode_def select_charset_def attr_on_def attr_off_def goto_cursor_def set_scroll_region_def cursor_to_def send_def report_def vt_frame_attr_set_def restore_cursor_def Let_def)

lemma sized_write_cell [sized_rules]: "num_rows f = r \<Longrightarrow> num_cols f = c \<Longrightarrow> sized r c (write_cell i j v clr f)"
  unfolding write_cell_def by (rule sized_rules sized_any | assumption | simp add: sized_simps)+

lemma sized_vt_video_add [sized_rules]: "num_rows f = r \<Longrightarrow> num_cols f = c \<Longrightarrow> sized r c (vt_video_add k f)"
  unfolding vt_video_add_def by (rule sized_rules sized_any | assumption | simp add: sized_simps)+

lemma sized_vt_video_erase [sized_rules]: "num_rows f = r \<Longrightarrow> num_cols f = c \<Longrightarrow> sized r c (vt_video_erase x1 x2 y1 y2 f)"
  unfolding vt_video_erase_def by (rule sized_rules sized_any | assumption | simp add: sized_simps)+

lemma sized_rshift_cell [sized_rules]: "num_rows f = r \<Longrightarrow> num_cols f = c \<Longrightarrow> sized r c (rshift_cell n i f)"
  unfolding rshift_cell_def by (rule sized_rules sized_any | assumption | simp add: sized_simps)+

lemma sized_vt_frame_video_rshift [sized_rules]: "num_rows f = r \<Longrightarrow> num_cols f = c \<Longrightarrow> sized r c (vt_frame_video_rshift n f)"
  unfolding vt_frame_video_rshift_def by (rule sized_rules sized_any | assumption | simp add: sized_simps)+

lemma sized_vt_frame_ech [sized_rules]: "num_rows f = r \<Longrightarrow> num_cols f = c \<Longrightarrow> sized r c (vt_frame_ech n f)"
  unfolding vt_frame_ech_def by (rule sized_rules sized_any | assumption | simp add: sized_simps)+

lemma sized_move_row [sized_rules]: "num_rows f = r \<Longrightarrow> num_cols f = c \<Longrightarrow> sized r c (move_row dst src f)"
  unfolding move_row_def by (rule sized_rules sized_any | assumption | simp add: sized_simps)+

lemma sized_put_row [sized_rules]: "num_rows f = r \<Longrightarrow> num_cols f = c \<Longrightarrow> sized r c (put_row n v w f)"
  unfolding put_row_def by (rule sized_rules sized_any | assumption | simp add: sized_simps)+

lemma sized_scroll_line [sized_rules]: "num_rows f = r \<Longrightarrow> num_cols f = c \<Longrightarrow> sized r c (scroll_line f)"
  unfolding scroll_line_def by (rule sized_rules sized_any | assumption | simp add: sized_simps)+

lemma sized_vt_frame_video_scroll [sized_rules]: "num_rows f = r \<Longrightarrow> num_cols f = c \<Longrightarrow> sized r c (vt_frame_video_scroll n f)"
  unfolding vt_frame_video_scroll_def by (rule sized_rules sized_any | assumption | simp add: sized_simps)+

lemma sized_scroll_back_line [sized_rules]: "num_rows f = r \<Longrightarrow> num_cols f = c \<Longrightarrow> sized r c (scroll_back_line f)"
  unfolding scroll_back_line_def by (rule sized_rules sized_any | assumption | simp add: sized_simps)+

lemma sized_vt_frame_video_scroll_back [sized_rules]: "num_rows f = r \<Longrightarrow> num_cols f = c \<Longrightarrow> sized r c (vt_frame_video_scroll_back n f)"
  unfolding vt_frame_video_scroll_back_def by (rule sized_rules sized_any | assumption | simp add: sized_simps)+

lemma sized_newline [sized_rules]: "num_rows f = r \<Longrightarrow> num_cols f = c \<Longrightarrow> sized r c (newline f)"
  unfolding newline_def by (rule sized_rules sized_any | assumption | simp add: sized_simps)+

lemma sized_vt_append [sized_rules]: "num_rows f = r \<Longrightarrow> num_cols f = c \<Longrightarrow> sized r c (vt_append k f)"
  unfolding vt_append_def by (rule sized_rules sized_any | assumption | simp add: sized_simps)+

lemma sized_param_digit [sized_rules]: "num_rows f = r \<Longrightarrow> num_cols f = c \<Longrightarrow> sized r c (param_digit k f)"
  unfolding param_digit_def by (rule sized_rules sized_any | assumption | simp add: sized_simps)+

lemma sized_color_rest [sized_rules]: "num_rows f = r \<Longrightarrow> num_cols f = c \<Longrightarrow> sized r c (color_rest n k f)"
  unfolding color_rest_def by (rule sized_rules sized_any | assumption | simp add: sized_simps)+

lemma sized_vt_process_m [sized_rules]: "num_rows f = r \<Longrightarrow> num_cols f = c \<Longrightarrow> sized r c (vt_process_m k f)"
  unfolding vt_process_m_def by (rule sized_rules sized_any | assumption | simp add: sized_simps)+

lemma sized_cursor_up [sized_rules]: "num_rows f = r \<Longrightarrow> num_cols f = c \<Longrightarrow> sized r c (cursor_up f)"
  unfolding cursor_up_def by (rule sized_rules sized_any | assumption | simp add: sized_simps)+

lemma sized_cursor_down [sized_rules]: "num_rows f = r \<Longrightarrow> num_cols f = c \<Longrightarrow> sized r c (cursor_down f)"
  unfolding cursor_down_def by (rule sized_rules sized_any | assumption | simp add: sized_simps)+

lemma sized_cursor_right [sized_rules]: "num_rows f = r \<Longrightarrow> num_cols f = c \<Longrightarrow> sized r c (cursor_right f)"
  unfolding cursor_right_def by (rule sized_rules sized_any | assumption | simp add: sized_simps)+

lemma sized_cursor_left [sized_rules]: "num_rows f = r \<Longrightarrow> num_cols f = c \<Longrightarrow> sized r c (cursor_left f)"
  unfolding cursor_left_def by (rule sized_rules sized_any | assumption | simp add: sized_simps)+

lemma sized_clear_tabstops [sized_rules]: "num_rows f = r \<Longrightarrow> num_cols f = c \<Longrightarrow> sized r c (clear_tabstops f)"
  unfolding clear_tabstops_def by (rule sized_rules sized_any | assumption | simp add: sized_simps)+

lemma sized_clear_screen [sized_rules]: "num_rows f = r \<Longrightarrow> num_cols f = c \<Longrightarrow> sized r c (clear_screen f)"
  unfolding clear_screen_def by (rule sized_rules sized_any | assumption | simp add: sized_simps)+

lemma sized_clear_line [sized_rules]: "num_rows f = r \<Longrightarrow> num_cols f = c \<Longrightarrow> sized r c (clear_line f)"
  unfolding clear_line_def by (rule sized_rules sized_any | assumption | simp add: sized_simps)+

lemma sized_set_attributes [sized_rules]: "num_rows f = r \<Longrightarrow> num_cols f = c \<Longrightarrow> sized r c (set_attributes n i f)"
proof (induction n arbitrary: i f)
  case (Suc n)
  then show ?case unfolding set_attributes.simps by (intro sized_any sized_if sized_Some sized_bind sized_vt_process_m Suc.IH) auto
qed (simp add: sized_None)

lemma sized_control_sequence [sized_rules]: "num_rows f = r \<Longrightarrow> num_cols f = c \<Longrightarrow> sized r c (control_sequence k f)"
  unfolding control_sequence_def by (rule sized_rules sized_any | assumption | simp add: sized_simps)+

lemma sized_do_esc_brace [sized_rules]: "num_rows f = r \<Longrightarrow> num_cols f = c \<Longrightarrow> sized r c (do_esc_brace k f)"
  unfolding do_esc_brace_def by (rule sized_rules sized_any | assumption | simp add: sized_simps)+

lemma sized_do_esc_brace_q [sized_rules]: "num_rows f = r \<Longrightarrow> num_cols f = c \<Longrightarrow> sized r c (do_esc_brace_q k f)"
  unfolding do_esc_brace_q_def by (rule sized_rules sized_any | assumption | simp add: sized_simps)+

lemma sized_escape_char [sized_rules]: "num_rows f = r \<Longrightarrow> num_cols f = c \<Longrightarrow> sized r c (escape_char k f)"
  unfolding escape_char_def by (rule sized_rules sized_any | assumption | simp add: sized_simps)+

lemma sized_do_esc_e [sized_rules]: "num_rows f = r \<Longrightarrow> num_cols f = c \<Longrightarrow> sized r c (do_esc_e k f)"
  unfolding do_esc_e_def by (rule sized_rules sized_any | assumption | simp add: sized_simps)+

lemma sized_to_tabstop [sized_rules]: "num_rows f = r \<Longrightarrow> num_cols f = c \<Longrightarrow> sized r c (to_tabstop n f)"
proof (induction n arbitrary: f)
  case (Suc n)
  then show ?case unfolding to_tabstop.simps Let_def by (intro sized_any sized_if sized_Some Suc.IH) auto
qed (simp add: sized_None)

lemma sized_tab [sized_rules]: "num_rows f = r \<Longrightarrow> num_cols f = c \<Longrightarrow> sized r c (tab f)"
  unfolding tab_def by (rule sized_rules sized_any | assumption | simp add: sized_simps)+

lemma sized_multibyte [sized_rules]: "num_rows f = r \<Longrightarrow> num_cols f = c \<Longrightarrow> sized r c (multibyte k f)"
  unfolding multibyte_def by (rule sized_rules sized_any | assumption | simp add: sized_simps)+

lemma sized_do_esc_scan [sized_rules]: "num_rows f = r \<Longrightarrow> num_cols f = c \<Longrightarrow> sized r c (do_esc_scan k f)"
  unfolding do_esc_scan_def by (rule sized_rules sized_any | assumption | simp add: sized_simps)+

lemma sized_process_char [sized_rules]: "num_rows f = r \<Longrightarrow> num_cols f = c \<Longrightarrow> sized r c (process_char k f)"
  unfolding process_char_def do_esc_lparen_def do_esc_rparen_def do_esc_pound_def
  by (cases "process_char_cb f"; simp only: scanner.case; (rule sized_rules | simp add: sized_simps)+)

lemma output_size: "frame_process_output_cb bs f = Some g \<Longrightarrow> num_rows g = num_rows f \<and> num_cols g = num_cols f"
proof -
  let ?r = "num_rows f" and ?c = "num_cols f"
  assume g: "frame_process_output_cb bs f = Some g"
  have "sized ?r ?c (frame_process_output_cb bs f)"
    unfolding frame_process_output_cb_def by (rule sized_each, simp, simp, rule sized_process_char)
  then show ?thesis unfolding g sized_def by blast
qed

subsection \<open>What is promised\<close>

text \<open>Property C23. A frame without a log is not harmed by what the program writes: as long as none of the bytes is one of the
  listed requests that overrun it (\<open>overruns\<close>), all of the output is processed, the cursor stays on the screen (or just
  behind its last column), the scroll region and the parameters stay in their bounds, the cells and the tab stops fit the screen,
  and the screen has the rows and columns it had. (With a log, ordinary text can overrun the buffer of a line: C26.)\<close>

theorem output_keeps_frame:
  assumes "frame_ok f" "tame bs (f\<lparr>render := []\<rparr>)"
  shows "\<exists>g. frame_process_output_cb bs f = Some g \<and> frame_ok g \<and> num_rows g = num_rows f \<and> num_cols g = num_cols f"
proof -
  have "frame_ok (f\<lparr>render := []\<rparr>)" using assms(1) by (simp add: frame_ok_split place_ok_def cursor_ok_def canvas_def params_ok_def multibyte_ok_def)
  then obtain g where "frame_process_output_cb bs f = Some g" "frame_ok g"
    using tame_output assms(2) by (auto simp: frame_process_output_cb_def safe_def)
  then show ?thesis using output_size by blast
qed

lemma output_keeps_frame_witness:
  "\<exists>g. frame_process_output_cb (ascii ''ab'' @ ESC ''[2;3H'' @ [0xC3, 0xA9] @ ESC ''[1;31m'' @ [13, 10, 10, 65]) (new_frame 3 5 1 False) = Some g \<and>
     frame_ok g \<and> num_rows g = num_rows (new_frame 3 5 1 False) \<and> num_cols g = num_cols (new_frame 3 5 1 False)"
  by (rule output_keeps_frame[OF new_frame_ok]) (simp_all, code_simp)

text \<open>A byte that begins no character has a length of 255: the next eight bytes of text overflow the \<open>int\<close> that collects
  the code, or leave the buffer of the character.\<close>

lemma waits_for_255:
  assumes "process_char_cb f = vt_esc_scan" "mb_len f = 255" "1 \<le> mb_curlen f" "mb_curlen f \<le> 8" "length (mb_buf f) = 8"
    "\<forall>b \<in> set bs. 32 \<le> uint b \<and> uint b < 127" "8 - mb_curlen f < int (length bs)"
  shows "each (\<lambda>b. process_char (uint b)) (bs :: byte list) f = None"
  using assms
proof (induction bs arbitrary: f)
  case (Cons b bs)
  have b: "32 \<le> uint b" "uint b < 127" using Cons.prems(6) by auto
  have "process_char (uint b) f = multibyte (uint b) f"
    using Cons.prems(1,2) b by (simp add: process_char_def do_esc_scan_def)
  moreover have "case multibyte (uint b) f of None \<Rightarrow> True | Some g \<Rightarrow> each (\<lambda>b. process_char (uint b)) bs g = None"
  proof (cases "mb_curlen f = 8")
    case True
    then show ?thesis using Cons.prems(2,5) by (simp add: multibyte_def put_def)
  next
    case False
    then have "put (mb_buf f) (mb_curlen f) (word_of_int (uint b)) = Some ((mb_buf f)[nat (mb_curlen f) := b])"
      using Cons.prems by (simp add: put_Some)
    then show ?thesis
      using Cons.prems False
      by (auto simp: multibyte_def Let_def bind_eq_Some_conv split: option.split intro!: Cons.IH)
  qed
  ultimately show ?case by (auto split: option.splits)
qed simp

text \<open>
  A stray byte of a multibyte character, or one of \<open>0xF8\<close> to \<open>0xFF\<close>, followed by eight printable characters
  takes the code out of what C defines: the \<open>int\<close> that collects the character overflows, and where it wraps instead the ninth
  byte is written behind the eight bytes that are kept of a character.\<close>

theorem stray_byte_harms:
  assumes "length (mb_buf f) = 8" "process_char_cb f = vt_esc_scan" "mb_len f = 0"
    "128 \<le> uint b" "lead_length (uint b) = 255" "8 \<le> length bs" "\<forall>x \<in> set bs. 32 \<le> uint x \<and> uint x < 127"
  shows "frame_process_output_cb (b # bs) f = None"
proof -
  have "process_char (uint b) (f\<lparr>render := []\<rparr>) =
      Some (f\<lparr>render := [], mb_code := uint b, mb_len := 255, mb_buf := (mb_buf f)[0 := b], mb_curlen := 1\<rparr>)"
    using assms(1-5) by (simp add: process_char_def do_esc_scan_def multibyte_def put_Some Let_def)
  then show ?thesis
    using assms waits_for_255[of "f\<lparr>render := [], mb_code := uint b, mb_len := 255, mb_buf := (mb_buf f)[0 := b], mb_curlen := 1\<rparr>" bs]
    by (simp add: frame_process_output_cb_def)
qed

lemma stray_byte_harms_witness:
  "frame_process_output_cb (0xA9 # ascii ''12345678'') (new_frame 3 20 1 False) = None"
  by (rule stray_byte_harms) code_simp+

end
