(* ===== verification/Vtext.thy ===== *)
theory Vtext
  imports Vsafe Utf8
begin

section \<open>The window manager \<open>Vwm\<close>: text on the screen\<close>

text \<open>
  What plain text and the characters of several bytes leave in the cells of a frame, and what a line of the
  log can hold.
\<close>

subsection \<open>Text appears\<close>

lemma set_cell_other: "set_cell i j v m = Some m' \<Longrightarrow> j' \<noteq> j \<Longrightarrow> get_cell i j' m' = get_cell i j' m"
  by (auto simp: set_cell_def get_cell_def at_def put_def bind_eq_Some_conv nth_list_update eq_nat_nat_iff split: if_splits)

lemma set_cell_same: "set_cell i j v m = Some m' \<Longrightarrow> get_cell i j m' = Some v"
  by (auto simp: set_cell_def get_cell_def at_def put_def bind_eq_Some_conv split: if_splits)

unbundle bit_operations_syntax

text \<open>A character in the middle of a row.\<close>

lemma append_plain:
  assumes "place_ok f" "mb_len f = 0" "col_pos f \<le> num_cols f"
  shows "\<exists>vm. vt_append c f = Some (f\<lparr>videomem := vm, render := render f @ [word_of_int c], col_pos := col_pos f + 1\<rparr>) \<and>
    grid (num_rows f) (num_cols f) vm \<and>
    set_cell (row_pos f - 1) (col_pos f - 1) (c OR push_bit 8 (uint (textattr f))) (videomem f) = Some vm"
proof -
  obtain vm where "set_cell (row_pos f - 1) (col_pos f - 1) (c OR push_bit 8 (uint (textattr f))) (videomem f) = Some vm"
    "grid (num_rows f) (num_cols f) vm"
    using assms set_cell_grid[of "num_rows f" "num_cols f" "videomem f" "row_pos f - 1" "col_pos f - 1"]
    by (auto simp: place_ok_def canvas_def cursor_ok_def)
  then show ?thesis using assms by (simp add: vt_append_def vt_video_add_def emit_text_def)
qed

lemma shown_text:
  assumes "frame_ok f" "process_char_cb f = vt_esc_scan" "mb_len f = 0" "col_pos f + int (length bs) \<le> num_cols f + 1"
    "\<forall>x \<in> set bs. 32 \<le> uint x \<and> uint x < 127"
  shows "\<exists>g. each (\<lambda>b. process_char (uint b)) bs f = Some g \<and> frame_ok g \<and> render g = render f @ bs \<and> row_pos g = row_pos f \<and>
    col_pos g = col_pos f + int (length bs) \<and>
    (\<forall>j. get_cell (row_pos f - 1) j (videomem g) =
       (if col_pos f - 1 \<le> j \<and> j < col_pos f - 1 + int (length bs)
        then Some (uint (bs ! nat (j - (col_pos f - 1))) OR push_bit 8 (uint (textattr f)))
        else get_cell (row_pos f - 1) j (videomem f)))"
  using assms
proof (induction bs arbitrary: f)
  case (Cons b bs)
  have b: "32 \<le> uint b" "uint b < 127" using Cons.prems(5) by auto
  have place: "place_ok f" using Cons.prems(1) by (simp add: frame_ok_split)
  obtain vm where vm: "vt_append (uint b) f = Some (f\<lparr>videomem := vm, render := render f @ [b], col_pos := col_pos f + 1\<rparr>)"
    "grid (num_rows f) (num_cols f) vm"
    "set_cell (row_pos f - 1) (col_pos f - 1) (uint b OR push_bit 8 (uint (textattr f))) (videomem f) = Some vm"
    using append_plain[OF place, of "uint b"] Cons.prems(3,4) by auto
  let ?f = "f\<lparr>videomem := vm, render := render f @ [b], col_pos := col_pos f + 1\<rparr>"
  have step: "process_char (uint b) f = Some ?f"
    using Cons.prems(2,3) b vm(1) by (simp add: process_char_def do_esc_scan_def)
  have ok: "frame_ok ?f" using vt_append_safe[OF Cons.prems(1), of "uint b"] vm(1) by simp
  obtain g where g: "each (\<lambda>b. process_char (uint b)) bs ?f = Some g" "frame_ok g" "render g = render ?f @ bs" "row_pos g = row_pos f"
    "col_pos g = col_pos f + 1 + int (length bs)"
    "\<forall>j. get_cell (row_pos f - 1) j (videomem g) =
       (if col_pos f \<le> j \<and> j < col_pos f + int (length bs)
        then Some (uint (bs ! nat (j - col_pos f)) OR push_bit 8 (uint (textattr f)))
        else get_cell (row_pos f - 1) j vm)"
    using Cons.IH[OF ok] Cons.prems by auto
  have "get_cell (row_pos f - 1) j (videomem g) =
       (if col_pos f - 1 \<le> j \<and> j < col_pos f - 1 + int (length (b # bs))
        then Some (uint ((b # bs) ! nat (j - (col_pos f - 1))) OR push_bit 8 (uint (textattr f)))
        else get_cell (row_pos f - 1) j (videomem f))" for j
  proof -
    consider "j = col_pos f - 1" | "col_pos f \<le> j" "j < col_pos f + int (length bs)" | "j < col_pos f - 1 \<or> col_pos f + int (length bs) \<le> j"
      by linarith
    then show ?thesis
    proof cases
      case 1 then show ?thesis using g(6) set_cell_same[OF vm(3)] by simp
    next
      case 2
      then have "nat (j - (col_pos f - 1)) = Suc (nat (j - col_pos f))" by simp
      then show ?thesis using g(6) 2 by simp
    next
      case 3 then show ?thesis using g(6) set_cell_other[OF vm(3), of j] by auto
    qed
  qed
  then show ?case using step g by auto
qed auto

text \<open>Property C24. In a frame without a log, printable text that fits into the rest of the row appears there, in the frame's
  attributes; the other cells of the row are as before, and exactly the text is sent to the terminal.\<close>

theorem text_appears:
  assumes "frame_ok f" "process_char_cb f = vt_esc_scan" "mb_len f = 0" "col_pos f + int (length bs) \<le> num_cols f + 1"
    "\<forall>x \<in> set bs. 32 \<le> uint x \<and> uint x < 127"
  shows "\<exists>g. frame_process_output_cb bs f = Some g \<and> render g = bs \<and> row_pos g = row_pos f \<and>
    col_pos g = col_pos f + int (length bs) \<and>
    (\<forall>j. get_cell (row_pos f - 1) j (videomem g) =
       (if col_pos f - 1 \<le> j \<and> j < col_pos f - 1 + int (length bs)
        then Some (uint (bs ! nat (j - (col_pos f - 1))) OR push_bit 8 (uint (textattr f)))
        else get_cell (row_pos f - 1) j (videomem f)))"
proof -
  have "frame_ok (f\<lparr>render := []\<rparr>)" using assms(1) by (simp add: frame_ok_split place_ok_def cursor_ok_def canvas_def params_ok_def multibyte_ok_def)
  then show ?thesis
    using shown_text[of "f\<lparr>render := []\<rparr>" bs] assms(2-5) unfolding frame_process_output_cb_def by auto
qed

lemma text_appears_witness:
  "\<exists>g. frame_process_output_cb (ascii ''ok'') (new_frame 2 4 1 False) = Some g \<and> get_cell 0 1 (videomem g) = Some 107"
proof -
  let ?f = "new_frame 2 4 1 False"
  have "frame_ok ?f" by (rule new_frame_ok) auto
  moreover have "process_char_cb ?f = vt_esc_scan" "mb_len ?f = 0"
    "col_pos ?f + int (length (ascii ''ok'')) \<le> num_cols ?f + 1"
    "\<forall>x \<in> set (ascii ''ok''). 32 \<le> uint x \<and> uint x < 127" by code_simp+
  ultimately obtain g where g: "frame_process_output_cb (ascii ''ok'') ?f = Some g"
    "\<forall>j. get_cell (row_pos ?f - 1) j (videomem g) =
       (if col_pos ?f - 1 \<le> j \<and> j < col_pos ?f - 1 + int (length (ascii ''ok''))
        then Some (uint (ascii ''ok'' ! nat (j - (col_pos ?f - 1))) OR push_bit 8 (uint (textattr ?f)))
        else get_cell (row_pos ?f - 1) j (videomem ?f))"
    using text_appears by blast
  have "row_pos ?f = 1" "col_pos ?f = 1" "textattr ?f = 0" by code_simp+
  then show ?thesis using g(1) g(2)[rule_format, of 1] by (intro exI[of _ g]) (simp add: ascii_def)
qed

subsection \<open>Characters of several bytes\<close>

lemma lead_2: "0 \<le> a \<Longrightarrow> a < 32 \<Longrightarrow> lead_length (0xC0 + a) = 2"
proof -
  have "\<forall>a \<in> set [0..31]. lead_length (0xC0 + a) = 2" by code_simp
  then show "0 \<le> a \<Longrightarrow> a < 32 \<Longrightarrow> lead_length (0xC0 + a) = 2" by simp
qed

lemma lead_3: "0 \<le> a \<Longrightarrow> a < 16 \<Longrightarrow> lead_length (0xE0 + a) = 3"
proof -
  have "\<forall>a \<in> set [0..15]. lead_length (0xE0 + a) = 3" by code_simp
  then show "0 \<le> a \<Longrightarrow> a < 16 \<Longrightarrow> lead_length (0xE0 + a) = 3" by simp
qed

lemma lead_4: "0 \<le> a \<Longrightarrow> a < 8 \<Longrightarrow> lead_length (0xF0 + a) = 4"
proof -
  have "\<forall>a \<in> set [0..7]. lead_length (0xF0 + a) = 4" by code_simp
  then show "0 \<le> a \<Longrightarrow> a < 8 \<Longrightarrow> lead_length (0xF0 + a) = 4" by simp
qed

lemma scan_high:
  "process_char_cb f = vt_esc_scan \<Longrightarrow> 128 \<le> c \<Longrightarrow> process_char c f = multibyte c f"
  by (simp add: process_char_def do_esc_scan_def)

lemma mb_begin:
  assumes "process_char_cb f = vt_esc_scan" "mb_len f = 0" "length (mb_buf f) = 8" "128 \<le> uint b"
  shows "process_char (uint b) f =
    Some (f\<lparr>mb_code := uint b, mb_len := lead_length (uint b), mb_buf := (mb_buf f)[0 := b], mb_curlen := 1\<rparr>)"
  using assms by (simp add: scan_high multibyte_def put_Some Let_def)

lemma code_in_int:
  assumes "0 \<le> code" "code < 2 ^ 24"
  shows "in_int 32 (push_bit 6 code) = Some (code * 64)" "in_int 32 (code * 64 + uint (b :: byte)) = Some (code * 64 + uint b)"
proof -
  have "code < 16777216" using assms(2) by simp
  then have "- 2147483648 \<le> code * 64" "code * 64 < 2147483648" "- 2147483648 \<le> code * 64 + uint b" "code * 64 + uint b < 2147483648"
    using assms(1) uint_byte[of b] by linarith+
  then show "in_int 32 (push_bit 6 code) = Some (code * 64)" "in_int 32 (code * 64 + uint b) = Some (code * 64 + uint b)"
    by (simp_all add: in_int_def push_bit_eq_mult)
qed

lemma each_Nil: "each f [] = Some"
  by (rule ext) simp

lemma mb_next:
  assumes "process_char_cb f = vt_esc_scan" "mb_curlen f + 1 < mb_len f" "1 \<le> mb_curlen f" "mb_len f \<le> 4" "length (mb_buf f) = 8"
    "0 \<le> mb_code f" "mb_code f < 2 ^ 24" "128 \<le> uint b"
  shows "process_char (uint b) f =
    Some (f\<lparr>mb_buf := (mb_buf f)[nat (mb_curlen f) := b], mb_curlen := mb_curlen f + 1, mb_code := mb_code f * 64 + uint b\<rparr>)"
  using assms code_in_int[of "mb_code f"] by (simp add: scan_high multibyte_def put_Some Let_def)

lemma mb_last:
  assumes "process_char_cb f = vt_esc_scan" "mb_curlen f + 1 = mb_len f" "1 \<le> mb_curlen f" "mb_len f \<le> 4" "length (mb_buf f) = 8"
    "0 \<le> mb_code f" "mb_code f < 2 ^ 24" "128 \<le> uint b" "place_ok f" "col_pos f \<le> num_cols f"
    "mb_code f * 64 + uint b = c + vwm_offsetsFromUTF8 ! nat (mb_len f - 1)" "0 \<le> c" "c < 2 ^ 31"
  shows "\<exists>g. process_char (uint b) f = Some g \<and> col_pos g = col_pos f + 1 \<and> row_pos g = row_pos f \<and> mb_len g = 0 \<and>
    render g = render f @ take (nat (mb_len f)) ((mb_buf f)[nat (mb_curlen f) := b]) \<and>
    get_cell (row_pos f - 1) (col_pos f - 1) (videomem g) = Some (c OR push_bit 8 (uint (textattr f)))"
proof -
  let ?buf = "(mb_buf f)[nat (mb_curlen f) := b]"
  let ?f = "f\<lparr>mb_buf := ?buf, mb_curlen := mb_curlen f + 1, mb_code := c\<rparr>"
  obtain vm where vm: "set_cell (row_pos f - 1) (col_pos f - 1) (c OR push_bit 8 (uint (textattr f))) (videomem f) = Some vm"
    using assms(9,10) set_cell_grid[of "num_rows f" "num_cols f" "videomem f" "row_pos f - 1" "col_pos f - 1"]
    by (auto simp: place_ok_def canvas_def cursor_ok_def)
  have add: "vt_append c ?f = Some (?f\<lparr>videomem := vm, render := render f @ take (nat (mb_len f)) ?buf, col_pos := col_pos f + 1\<rparr>)"
    using vm assms(2,3,4,10) by (simp add: vt_append_def vt_video_add_def emit_text_def)
  have "at vwm_offsetsFromUTF8 (mb_len f - 1) = Some (vwm_offsetsFromUTF8 ! nat (mb_len f - 1))"
    using assms(2,3,4) by (simp add: at_Some vwm_offsetsFromUTF8_def)
  moreover have "in_int 32 (mb_code f * 64 + uint b - vwm_offsetsFromUTF8 ! nat (mb_len f - 1)) = Some c"
    using assms(11-13) by (simp add: in_int_def)
  ultimately show ?thesis
    using assms(1-8) code_in_int[of "mb_code f"] add set_cell_same[OF vm]
    by (simp add: scan_high multibyte_def put_Some Let_def)
qed

lemma shown_character:
  assumes "place_ok f" "length (mb_buf f) = 8" "process_char_cb f = vt_esc_scan" "mb_len f = 0" "col_pos f \<le> num_cols f"
    "scalar c" "128 \<le> c"
  shows "\<exists>g. each (\<lambda>b. process_char (uint b)) (enc c) f = Some g \<and> col_pos g = col_pos f + 1 \<and> row_pos g = row_pos f \<and> mb_len g = 0 \<and>
    render g = render f @ enc c \<and> get_cell (row_pos f - 1) (col_pos f - 1) (videomem g) = Some (c OR push_bit 8 (uint (textattr f)))"
  using assms(6)
proof (cases c rule: scalar_cases)
  case one
  then show ?thesis using assms(7) by simp
next
  case (two a b)
  let ?x = "byte_of (0xC0 + a)" and ?y = "byte_of (0x80 + b)"
  have u: "uint ?x = 0xC0 + a" "uint ?y = 0x80 + b" using two by (auto intro!: uint_byte_of)
  let ?f = "f\<lparr>mb_code := uint ?x, mb_len := 2, mb_buf := (mb_buf f)[0 := ?x], mb_curlen := 1\<rparr>"
  have one: "process_char (uint ?x) f = Some ?f" using mb_begin[of f ?x] lead_2[of a] assms u two by simp
  have "place_ok ?f" using assms(1) by (simp add: place_ok_def cursor_ok_def canvas_def)
  then have "\<exists>g. process_char (uint ?y) ?f = Some g \<and> col_pos g = col_pos f + 1 \<and> row_pos g = row_pos f \<and> mb_len g = 0 \<and>
    render g = render f @ take 2 ((mb_buf f)[0 := ?x, 1 := ?y]) \<and>
    get_cell (row_pos f - 1) (col_pos f - 1) (videomem g) = Some (c OR push_bit 8 (uint (textattr f)))"
    using mb_last[of ?f ?y c] assms u two by (simp add: vwm_offsetsFromUTF8_def)
  moreover have "take 2 ((mb_buf f)[0 := ?x, 1 := ?y]) = [?x, ?y]" using assms(2) by (simp add: list_eq_iff_nth_eq less_Suc_eq numeral_2_eq_2)
  ultimately show ?thesis using one two by (simp add: enc_2 each_Nil)
next
  case (three a b d)
  let ?x = "byte_of (0xE0 + a)" and ?y = "byte_of (0x80 + b)" and ?z = "byte_of (0x80 + d)"
  have u: "uint ?x = 0xE0 + a" "uint ?y = 0x80 + b" "uint ?z = 0x80 + d" using three by (auto intro!: uint_byte_of)
  let ?f = "f\<lparr>mb_code := uint ?x, mb_len := 3, mb_buf := (mb_buf f)[0 := ?x], mb_curlen := 1\<rparr>"
  let ?g = "f\<lparr>mb_code := uint ?x * 64 + uint ?y, mb_len := 3, mb_buf := (mb_buf f)[0 := ?x, 1 := ?y], mb_curlen := 2\<rparr>"
  have one: "process_char (uint ?x) f = Some ?f" using mb_begin[of f ?x] lead_3[of a] assms u three by simp
  have two: "process_char (uint ?y) ?f = Some ?g" using mb_next[of ?f ?y] assms u three by simp
  have "place_ok ?g" using assms(1) by (simp add: place_ok_def cursor_ok_def canvas_def)
  then have "\<exists>g. process_char (uint ?z) ?g = Some g \<and> col_pos g = col_pos f + 1 \<and> row_pos g = row_pos f \<and> mb_len g = 0 \<and>
    render g = render f @ take 3 ((mb_buf f)[0 := ?x, 1 := ?y, 2 := ?z]) \<and>
    get_cell (row_pos f - 1) (col_pos f - 1) (videomem g) = Some (c OR push_bit 8 (uint (textattr f)))"
    using mb_last[of ?g ?z c] assms u three by (simp add: vwm_offsetsFromUTF8_def)
  moreover have "take 3 ((mb_buf f)[0 := ?x, 1 := ?y, 2 := ?z]) = [?x, ?y, ?z]"
    using assms(2) by (simp add: list_eq_iff_nth_eq less_Suc_eq numeral_3_eq_3 nth_list_update)
  ultimately show ?thesis using one two three by (simp add: enc_3 each_Nil)
next
  case (four e a b d)
  let ?w = "byte_of (0xF0 + e)" and ?x = "byte_of (0x80 + a)" and ?y = "byte_of (0x80 + b)" and ?z = "byte_of (0x80 + d)"
  have u: "uint ?w = 0xF0 + e" "uint ?x = 0x80 + a" "uint ?y = 0x80 + b" "uint ?z = 0x80 + d" using four by (auto intro!: uint_byte_of)
  let ?f = "f\<lparr>mb_code := uint ?w, mb_len := 4, mb_buf := (mb_buf f)[0 := ?w], mb_curlen := 1\<rparr>"
  let ?g = "f\<lparr>mb_code := uint ?w * 64 + uint ?x, mb_len := 4, mb_buf := (mb_buf f)[0 := ?w, 1 := ?x], mb_curlen := 2\<rparr>"
  let ?h = "f\<lparr>mb_code := (uint ?w * 64 + uint ?x) * 64 + uint ?y, mb_len := 4, mb_buf := (mb_buf f)[0 := ?w, 1 := ?x, 2 := ?y], mb_curlen := 3\<rparr>"
  have one: "process_char (uint ?w) f = Some ?f" using mb_begin[of f ?w] lead_4[of e] assms u four by simp
  have two: "process_char (uint ?x) ?f = Some ?g" using mb_next[of ?f ?x] assms u four by simp
  have three: "process_char (uint ?y) ?g = Some ?h" using mb_next[of ?g ?y] assms u four by simp
  have "place_ok ?h" using assms(1) by (simp add: place_ok_def cursor_ok_def canvas_def)
  then have "\<exists>g. process_char (uint ?z) ?h = Some g \<and> col_pos g = col_pos f + 1 \<and> row_pos g = row_pos f \<and> mb_len g = 0 \<and>
    render g = render f @ take 4 ((mb_buf f)[0 := ?w, 1 := ?x, 2 := ?y, 3 := ?z]) \<and>
    get_cell (row_pos f - 1) (col_pos f - 1) (videomem g) = Some (c OR push_bit 8 (uint (textattr f)))"
    using mb_last[of ?h ?z c] assms u four by (simp add: vwm_offsetsFromUTF8_def)
  moreover have "take 4 ((mb_buf f)[0 := ?w, 1 := ?x, 2 := ?y, 3 := ?z]) = [?w, ?x, ?y, ?z]"
    using assms(2) by (simp add: list_eq_iff_nth_eq less_Suc_eq eval_nat_numeral nth_list_update)
  ultimately show ?thesis using one two three four by (simp add: enc_4 each_Nil)
qed

text \<open>Property C25. In a frame without a log the bytes of the UTF-8 encoding of a code point beyond ASCII are put together again to that
  code point, and the bytes go to the terminal as they came. What is stored at the cursor is the code point or-ed with the
  attributes shifted by 8 bits, as for text: without attributes it is the code point itself, but from \<open>U+0100\<close> on
  the attributes share their bits with the code, and with one of them set another character is stored
  (in bold, U+20AC becomes U+21AC: the witness).\<close>

theorem character_appears:
  assumes "frame_ok f" "process_char_cb f = vt_esc_scan" "mb_len f = 0" "col_pos f \<le> num_cols f" "scalar c" "128 \<le> c"
  shows "\<exists>g. frame_process_output_cb (enc c) f = Some g \<and> render g = enc c \<and> row_pos g = row_pos f \<and> col_pos g = col_pos f + 1 \<and>
    mb_len g = 0 \<and> get_cell (row_pos f - 1) (col_pos f - 1) (videomem g) = Some (c OR push_bit 8 (uint (textattr f)))"
proof -
  have "place_ok (f\<lparr>render := []\<rparr>)" "length (mb_buf f) = 8"
    using assms(1) by (simp_all add: frame_ok_split place_ok_def cursor_ok_def canvas_def multibyte_ok_def)
  then show ?thesis
    using shown_character[of "f\<lparr>render := []\<rparr>" c] assms(2-6) unfolding frame_process_output_cb_def by auto
qed

lemma character_appears_witness:
  "(\<exists>g. frame_process_output_cb (enc 0x20AC) (new_frame 2 4 1 False) = Some g \<and> get_cell 0 0 (videomem g) = Some 0x20AC) \<and>
   (\<exists>g. frame_process_output_cb (enc 0x20AC) ((new_frame 2 4 1 False)\<lparr>textattr := BOLD\<rparr>) = Some g \<and> get_cell 0 0 (videomem g) = Some 0x21AC)"
proof -
  let ?f = "new_frame 2 4 1 False"
  let ?b = "?f\<lparr>textattr := BOLD\<rparr>"
  have "frame_ok ?f" by (rule new_frame_ok) auto
  moreover have "process_char_cb ?f = vt_esc_scan" "mb_len ?f = 0" "col_pos ?f \<le> num_cols ?f" "row_pos ?f = 1" "col_pos ?f = 1"
    "textattr ?f = 0" "scalar 0x20AC" by code_simp+
  moreover have "(0x20AC :: int) OR push_bit 8 (uint BOLD) = 0x21AC" by (simp add: BOLD_def push_bit_eq_mult)
  ultimately show ?thesis using character_appears[of ?f "0x20AC"] character_appears[of ?b "0x20AC"] by auto
qed

subsection \<open>The log\<close>

text \<open>Property C26. A row full of one character of four bytes, repeated, (the low byte of whose code is not ASCII) does
  not fit in the buffer that a line of the log is built in.\<close>

theorem wide_row_overruns_log:
  assumes "0 < n" "0x10000 \<le> c" "c < 0x110000" "128 \<le> c AND 0xFF" "row = replicate n c @ rest"
  shows "vt_video_line_to_str row (int n) = None"
proof -
  have four: "length (cell_bytes c) = 4" using assms by (simp add: cell_bytes_def)
  have run: "each (\<lambda>i bs. map_option (\<lambda>c. bs @ cell_bytes c) (at row i)) is bs = Some (bs @ concat (replicate (length is) (cell_bytes c)))"
    if "\<forall>i \<in> set is. 0 \<le> i \<and> i < int n" for "is" bs
    using that by (induction "is" arbitrary: bs) (auto simp: at_def assms(5) nth_append nat_less_iff)
  have "length (concat (replicate k (cell_bytes c))) = 4 * k" for k using four by (induction k) auto
  moreover have "int (length [0..int n - 1]) = int n" by simp
  ultimately show ?thesis using run[of "[0..int n - 1]" "[]"] assms(1) by (simp add: vt_video_line_to_str_def)
qed

lemma wide_row_overruns_log_witness: "vt_video_line_to_str (replicate 2 0x1F680 @ [0, 0]) (int 2) = None"
  by (rule wide_row_overruns_log[of 2 "0x1F680" _ "[0, 0]"]) simp_all

end
