(* ===== verification/Cterm.thy ===== *)
theory Cterm
  imports Ckeys Cfdio Vtext
begin

section \<open>The terminal: \<open>term/term.c\<close>\<close>

text \<open>
  The screen routines write fixed sequences. The position of the cursor is asked for with one and read from the
  terminal's reply; the window size is asked from the kernel, or, where the kernel does not know it, found by
  going to the last corner and asking for the position. Setting the modes of the line discipline is a call of
  the kernel whose success is an argument; writing to the terminal succeeds.
\<close>

record tty =
  tty_in :: "answer list"
  tty_out :: "byte list"

record term_t =
  orig_curs_row_pos :: int
  orig_curs_col_pos :: int
  num_rows :: int
  num_cols :: int
  donot_save_screen :: bool
  donot_clear_screen :: bool
  donot_restore_screen :: bool
  is_initialized :: bool

datatype size_answer = Size int int | Size_interrupted | Size_unknown

definition SEND :: "byte list \<Rightarrow> tty \<Rightarrow> tty" where "SEND bs t = t\<lparr>tty_out := tty_out t @ bs\<rparr>"

definition term_screen_bell :: "tty \<Rightarrow> tty" where "term_screen_bell = SEND (ESC ''[7'')"
definition term_screen_clear :: "tty \<Rightarrow> tty" where "term_screen_clear = SEND (ESC ''[2J'')"
definition term_screen_save :: "tty \<Rightarrow> tty" where "term_screen_save = SEND (ESC ''[?47h'')"
definition term_screen_restore :: "tty \<Rightarrow> tty" where "term_screen_restore t = SEND (ESC ''[?47l'') (SEND (ESC ''[r'') t)"
definition term_screen_clear_eol :: "tty \<Rightarrow> tty" where "term_screen_clear_eol = SEND (ESC ''[2K'')"
definition term_cursor_hide :: "tty \<Rightarrow> tty" where "term_cursor_hide = SEND (ESC ''[?25l'')"
definition term_cursor_show :: "tty \<Rightarrow> tty" where "term_cursor_show = SEND (ESC ''[?25h'')"
definition term_cursor_restore :: "tty \<Rightarrow> tty" where "term_cursor_restore = SEND (ESC ''8'')"
definition term_cursor_save :: "tty \<Rightarrow> tty" where "term_cursor_save = SEND (ESC ''7'')"

definition term_cursor_set_pos :: "int \<Rightarrow> int \<Rightarrow> tty \<Rightarrow> tty" where
  "term_cursor_set_pos row col = SEND (ESC ''['' @ dec row @ ascii '';'' @ dec col @ ascii ''H'')"

text \<open>The reply up to its \<open>R\<close>, in a buffer of 32 bytes; \<open>None\<close> in the pair when nothing more came.\<close>

primrec read_reply :: "nat \<Rightarrow> byte list \<Rightarrow> answer list \<Rightarrow> (byte list option \<times> answer list) option" where
  "read_reply 0 bs as = Some (Some bs, as)"
| "read_reply (Suc n) bs as =
     (case as of [] \<Rightarrow> None
      | Got b # as \<Rightarrow> if b = 82 then Some (Some bs, as) else read_reply n (bs @ [b]) as
      | _ # as \<Rightarrow> Some (None, as))"

text \<open>The digits of a number; both comparisons are strict.\<close>

primrec reply_number :: "int \<Rightarrow> byte list \<Rightarrow> (int \<times> byte list) option" where
  "reply_number r [] = Some (r, [])"
| "reply_number r (b # bs) =
     (if 48 < uint b \<and> uint b < 57
      then in_int 32 (10 * r) \<bind> (\<lambda>r. in_int 32 (r + (uint b - 48)) \<bind> (\<lambda>r. reply_number r bs))
      else Some (r, b # bs))"

definition reply_position :: "byte list \<Rightarrow> (int \<times> int) option option" where
  "reply_position bs =
     (case bs of
        b0 # b1 # sp \<Rightarrow>
          (if b0 \<noteq> 27 \<or> b1 \<noteq> 91 then Some None
           else do {
             (r, sp) \<leftarrow> reply_number 0 sp;
             (if sp = [] \<or> hd sp \<noteq> 59 then Some None
              else do { (c, sp) \<leftarrow> reply_number 0 (tl sp); Some (if sp = [] \<or> hd sp = 0 then Some (r, c) else None) }) })
      | _ \<Rightarrow> Some None)"

definition term_cursor_get_pos :: "tty \<Rightarrow> ((int \<times> int) option \<times> tty) option" where
  "term_cursor_get_pos t =
     do { let t = SEND (ESC ''[6n'') t;
          (bs, as) \<leftarrow> read_reply 31 [] (tty_in t);
          let t = t\<lparr>tty_in := as\<rparr>;
          (case bs of None \<Rightarrow> Some (None, t) | Some bs \<Rightarrow> map_option (\<lambda>p. (p, t)) (reply_position bs)) }"

text \<open>The size, when it was found. The old position is sent back even where it is not known.\<close>

primrec term_init_size :: "size_answer list \<Rightarrow> term_t \<Rightarrow> tty \<Rightarrow> (term_t \<times> tty) option" where
  "term_init_size [] this t = None"
| "term_init_size (a # as) this t =
     (case a of
        Size r c \<Rightarrow> Some (this\<lparr>num_rows := r, num_cols := c\<rparr>, t)
      | Size_interrupted \<Rightarrow> term_init_size as this t
      | Size_unknown \<Rightarrow>
          do { (orig, t) \<leftarrow> term_cursor_get_pos t;
               (p, t) \<leftarrow> term_cursor_get_pos (SEND (ESC ''[999C'' @ ESC ''[999B'') t);
               (r, c) \<leftarrow> orig;
               Some ((case p of None \<Rightarrow> this | Some (rows, cols) \<Rightarrow> this\<lparr>num_rows := rows, num_cols := cols\<rparr>), term_cursor_set_pos r c t) })"

text \<open>Answers -1 as false.\<close>

definition term_set :: "bool \<Rightarrow> size_answer list \<Rightarrow> term_t \<Rightarrow> tty \<Rightarrow> (bool \<times> term_t \<times> tty) option" where
  "term_set raw sizes this t =
     (if \<not> raw then Some (False, this, t)
      else do {
        (p, t) \<leftarrow> term_cursor_get_pos t;
        let this = (case p of None \<Rightarrow> this | Some (r, c) \<Rightarrow> this\<lparr>orig_curs_row_pos := r, orig_curs_col_pos := c\<rparr>);
        (this, t) \<leftarrow> term_init_size sizes this t;
        let t = (if donot_save_screen this then t else term_screen_save t);
        let t = (if donot_clear_screen this then t else term_screen_clear t);
        Some (True, this\<lparr>is_initialized := True\<rparr>, t) })"

definition term_reset :: "term_t \<Rightarrow> tty \<Rightarrow> term_t \<times> tty" where
  "term_reset this t =
     (if \<not> is_initialized this then (this, t)
      else let t = term_cursor_set_pos (orig_curs_row_pos this) (orig_curs_col_pos this) t;
               t = (if donot_restore_screen this then t else term_screen_restore t) in
           (this\<lparr>is_initialized := False\<rparr>, t))"

definition term_get_dim :: "term_t \<Rightarrow> int \<times> int" where "term_get_dim this = (num_rows this, num_cols this)"

definition term_new :: term_t where
  "term_new = \<lparr>orig_curs_row_pos = 0, orig_curs_col_pos = 0, num_rows = 24, num_cols = 78, donot_save_screen = False,
     donot_clear_screen = False, donot_restore_screen = False, is_initialized = False\<rparr>"

subsection \<open>Asking a frame of \<open>Vwm\<close> for the position\<close>

lemma decimal_digits_short: "n < 10 ^ k \<Longrightarrow> 0 < k \<Longrightarrow> length (decimal_digits n) \<le> k"
proof (induction n arbitrary: k rule: decimal_digits.induct)
  case (1 n)
  show ?case
  proof (cases "n < 10")
    case True
    then show ?thesis using 1(3) by (subst decimal_digits.simps) simp
  next
    case False
    then obtain j where j: "k = Suc j" using 1(3) by (cases k) auto
    then have "0 < j" using 1(2) False by (cases j) auto
    then have "length (decimal_digits (n div 10)) \<le> j" using 1(1)[OF False, of j] 1(2) \<open>0 < j\<close> j by (simp add: less_mult_imp_div_less mult.commute)
    then show ?thesis using False j by (subst decimal_digits.simps) simp
  qed
qed

definition digit_bytes :: "byte list \<Rightarrow> bool" where "digit_bytes ds \<longleftrightarrow> (\<forall>d \<in> set ds. 48 \<le> uint d \<and> uint d \<le> 57)"

lemma decimal_digit: "d < 10 \<Longrightarrow> uint (word_of_nat (48 + d) :: byte) = 48 + int d"
  using digit_byte[of d] by simp

lemma decimal_digits_bytes: "digit_bytes (decimal_digits n)"
proof (induction n rule: decimal_digits.induct)
  case (1 n)
  have "digit_bytes [word_of_nat (48 + d)]" if "d < 10" for d
    using decimal_digit[OF that] that by (simp add: digit_bytes_def)
  then show ?case using 1 by (subst decimal_digits.simps) (auto simp: digit_bytes_def)
qed

lemma decimal_digits_value: "digits_value (decimal_digits n) = int n"
proof (induction n rule: decimal_digits.induct)
  case (1 n)
  show ?case
  proof (cases "n < 10")
    case True
    then show ?thesis using decimal_digit[of n] by (subst decimal_digits.simps) (simp add: digits_value_def)
  next
    case False
    have "uint (word_of_nat (48 + n mod 10) :: byte) = 48 + int (n mod 10)" by (rule decimal_digit) simp
    then show ?thesis using False 1 by (subst decimal_digits.simps) (simp add: digits_value_snoc zdiv_int zmod_int)
  qed
qed

definition readable :: "byte list \<Rightarrow> bool" where "readable ds \<longleftrightarrow> (\<forall>d \<in> set ds. 48 < uint d \<and> uint d < 57)"

text \<open>A number of few digits is read up to the first zero or nine.\<close>

lemma reply_number_run:
  assumes "digit_bytes ds" "0 \<le> r" "(r + 1) * 10 ^ length ds \<le> 2 ^ 31" "uint b < 48 \<or> 57 < uint b"
  shows "reply_number r (ds @ rest) =
    (if readable ds then reply_number (foldl (\<lambda>a d. 10 * a + (uint d - 48)) r ds) rest
     else Some (foldl (\<lambda>a d. 10 * a + (uint d - 48)) r (takeWhile (\<lambda>d. 48 < uint d \<and> uint d < 57) ds), dropWhile (\<lambda>d. 48 < uint d \<and> uint d < 57) ds @ rest))"
  using assms(1-3)
proof (induction ds arbitrary: r)
  case (Cons d ds)
  show ?case
  proof (cases "48 < uint d \<and> uint d < 57")
    case True
    let ?r = "10 * r + (uint d - 48)"
    have "?r + 1 \<le> 10 * (r + 1)" "0 \<le> ?r" using True Cons.prems(2) by auto
    then have "(?r + 1) * 10 ^ length ds \<le> 10 * (r + 1) * 10 ^ length ds" by (intro mult_right_mono) auto
    also have "\<dots> = (r + 1) * 10 ^ length (d # ds)" by simp
    also have "\<dots> \<le> 2 ^ 31" by (rule Cons.prems(3))
    finally have b: "(?r + 1) * 10 ^ length ds \<le> 2 ^ 31" .
    have "?r + 1 \<le> (?r + 1) * 10 ^ length ds" using mult_left_mono[of 1 "10 ^ length ds" "?r + 1"] \<open>0 \<le> ?r\<close> by simp
    then have "?r + 1 \<le> 2 ^ 31" using b by (rule order_trans)
    then have "in_int 32 (10 * r) = Some (10 * r)" "in_int 32 ?r = Some ?r" using True \<open>0 \<le> ?r\<close> Cons.prems(2) by (simp_all add: in_int_def)
    then show ?thesis using True Cons.IH[OF _ \<open>0 \<le> ?r\<close> b] Cons.prems(1) by (simp add: digit_bytes_def readable_def)
  qed (auto simp: readable_def)
qed (simp add: readable_def)

lemma reply_number_stop: "uint b < 48 \<or> 57 < uint b \<Longrightarrow> reply_number r (b # bs) = Some (r, b # bs)"
  by auto

text \<open>What the position parser makes of a reply.\<close>

lemma dec_small:
  assumes "0 \<le> v" "v < 10 ^ 9"
  shows "digit_bytes (dec v)" "length (dec v) \<le> 9" "digits_value (dec v) = v"
  using assms decimal_digits_bytes decimal_digits_short[of "nat v" 9] decimal_digits_value[of "nat v"]
  by (simp_all add: dec_def nat_less_iff)

lemma digit_end: "digit_bytes ds \<Longrightarrow> \<not> readable ds \<Longrightarrow>
  \<exists>d ds'. dropWhile (\<lambda>d. 48 < uint d \<and> uint d < 57) ds = d # ds' \<and> (d = 48 \<or> d = 57)"
proof -
  assume a: "digit_bytes ds" "\<not> readable ds"
  let ?P = "\<lambda>d :: byte. 48 < uint d \<and> uint d < 57"
  have "dropWhile ?P ds \<noteq> []" using a(2) by (auto simp: readable_def dropWhile_eq_Nil_conv)
  then obtain d ds' where d: "dropWhile ?P ds = d # ds'" by (cases "dropWhile ?P ds") auto
  then have "\<not> ?P d" "d \<in> set ds" using hd_dropWhile[of ?P ds] set_dropWhileD[of d ?P ds] by auto
  then have "uint d = uint (48 :: byte) \<or> uint d = uint (57 :: byte)" using a(1) by (auto simp: digit_bytes_def)
  then show ?thesis using d by (auto simp: word_uint_eq_iff)
qed

lemma reply_position_dec:
  assumes "0 \<le> row" "row < 10 ^ 9" "0 \<le> col" "col < 10 ^ 9"
  shows "reply_position (ESC ''['' @ dec row @ ascii '';'' @ dec col) =
    Some (if readable (dec row) \<and> readable (dec col) then Some (row, col) else None)"
proof -
  have small: "(0 + 1) * 10 ^ length (dec v) \<le> (2 :: int) ^ 31" if "0 \<le> v" "v < 10 ^ 9" for v
    using dec_small(2)[OF that] power_increasing[of "length (dec v)" 9 "10 :: int"] by simp
  have semi: "uint (59 :: byte) < 48 \<or> 57 < uint (59 :: byte)" by simp
  have row: "reply_number 0 (dec row @ 59 # dec col) =
    (if readable (dec row) then Some (row, 59 # dec col)
     else Some (foldl (\<lambda>a d. 10 * a + (uint d - 48)) 0 (takeWhile (\<lambda>d. 48 < uint d \<and> uint d < 57) (dec row)),
       dropWhile (\<lambda>d. 48 < uint d \<and> uint d < 57) (dec row) @ 59 # dec col))"
    using reply_number_run[OF dec_small(1)[OF assms(1,2)] _ small[OF assms(1,2)] semi, of "59 # dec col"]
      reply_number_stop[OF semi, of row "dec col"] dec_small(3)[OF assms(1,2)] by (simp add: digits_value_def)
  have col: "reply_number 0 (dec col) =
    (if readable (dec col) then Some (col, [])
     else Some (foldl (\<lambda>a d. 10 * a + (uint d - 48)) 0 (takeWhile (\<lambda>d. 48 < uint d \<and> uint d < 57) (dec col)),
       dropWhile (\<lambda>d. 48 < uint d \<and> uint d < 57) (dec col)))"
    using reply_number_run[OF dec_small(1)[OF assms(3,4)] _ small[OF assms(3,4)] semi, of "[]"] dec_small(3)[OF assms(3,4)]
    by (simp add: digits_value_def)
  show ?thesis
  proof (cases "readable (dec row)")
    case False
    then obtain d ds' where "dropWhile (\<lambda>d. 48 < uint d \<and> uint d < 57) (dec row) = d # ds'" "d = 48 \<or> d = 57"
      using digit_end[OF dec_small(1)[OF assms(1,2)]] by blast
    then show ?thesis using row False by (auto simp: reply_position_def ESC_def ascii_def)
  next
    case True
    show ?thesis
    proof (cases "readable (dec col)")
      case False
      then obtain d ds' where "dropWhile (\<lambda>d. 48 < uint d \<and> uint d < 57) (dec col) = d # ds'" "d = 48 \<or> d = 57"
        using digit_end[OF dec_small(1)[OF assms(3,4)]] by blast
      then show ?thesis using row col True False by (auto simp: reply_position_def ESC_def ascii_def)
    qed (use row col True in \<open>simp add: reply_position_def ESC_def ascii_def\<close>)
  qed
qed

lemma read_reply_run: "82 \<notin> set bs \<Longrightarrow> length bs < n \<Longrightarrow>
  read_reply n acc (map Got bs @ Got 82 # as) = Some (Some (acc @ bs), as)"
proof (induction bs arbitrary: n acc)
  case Nil
  then show ?case by (cases n) auto
next
  case (Cons b bs)
  then show ?case by (cases n) auto
qed

text \<open>The frame's side.\<close>

lemma position_request:
  assumes "frame_ok f" "process_char_cb f = vt_esc_scan" "param_idx f = 0" "param 0 f = 0"
  shows "\<exists>g. frame_process_output_cb (ESC ''[6n'') f = Some g \<and>
    sent g = sent f @ ESC ''['' @ dec (row_pos f) @ ascii '';'' @ dec (col_pos f) @ ascii ''R''"
proof -
  have ps: "length (esc_param f) = MAX_PARAMS" using assms(1) by (simp add: frame_ok_def params_ok_def)
  then have p0: "esc_param f ! 0 = 0" "0 < length (esc_param f)" using assms(4) by (simp_all add: param_def MAX_PARAMS_def)
  show ?thesis
    using assms(2,3) p0
    by (simp add: frame_process_output_cb_def ESC_def ascii_def process_char_def do_esc_scan_def do_esc_e_def do_esc_brace_def
        is_digit_def param_digit_def at_def put_def in_int_def control_sequence_def report_def param_def send_def vt_frame_esc_set_def)
qed

text \<open>Property C34. A program in a frame of \<open>Vwm\<close> that asks for the position of the cursor gets the frame's position, row
  and column, when neither has a digit 0 or 9; else the reply, which is right, is refused, because
  \<open>term_cursor_get_pos\<close> only takes the digits that lie strictly between the two.\<close>

theorem cursor_position_read:
  assumes "frame_ok f" "process_char_cb f = vt_esc_scan" "param_idx f = 0" "param 0 f = 0" "sent f = []"
  shows "\<exists>g. frame_process_output_cb (tty_out (SEND (ESC ''[6n'') \<lparr>tty_in = [], tty_out = []\<rparr>)) f = Some g \<and>
    term_cursor_get_pos (t\<lparr>tty_in := map Got (sent g) @ as\<rparr>) =
      Some (if readable (dec (row_pos f)) \<and> readable (dec (col_pos f)) then Some (row_pos f, col_pos f) else None,
        t\<lparr>tty_in := as, tty_out := tty_out t @ ESC ''[6n''\<rparr>)"
proof -
  obtain g where g: "frame_process_output_cb (ESC ''[6n'') f = Some g"
    "sent g = ESC ''['' @ dec (row_pos f) @ ascii '';'' @ dec (col_pos f) @ ascii ''R''"
    using position_request[OF assms(1-4)] assms(5) by auto
  have b: "0 \<le> row_pos f" "row_pos f < 10 ^ 9" "0 \<le> col_pos f" "col_pos f < 10 ^ 9"
    using assms(1) by (auto simp: frame_ok_def cursor_ok_def)
  let ?bs = "ESC ''['' @ dec (row_pos f) @ ascii '';'' @ dec (col_pos f)"
  have "82 \<notin> set (dec v)" if "0 \<le> v" "v < 10 ^ 9" for v
    using dec_small(1)[OF that] by (auto simp: digit_bytes_def)
  then have "82 \<notin> set ?bs" "length ?bs < 31"
    using b dec_small(2)[OF b(1,2)] dec_small(2)[OF b(3,4)] by (auto simp: ESC_def ascii_def)
  then have "read_reply 31 [] (map Got (sent g) @ as) = Some (Some ?bs, as)"
    using read_reply_run[of ?bs 31 "[]" as] g(2) by (simp add: ascii_def)
  then show ?thesis using g(1) reply_position_dec[OF b] by (simp add: term_cursor_get_pos_def SEND_def)
qed

lemma cursor_position_read_witness:
  "\<exists>g. frame_process_output_cb (tty_out (SEND (ESC ''[6n'') \<lparr>tty_in = [], tty_out = []\<rparr>)) (new_frame 24 80 1 False) = Some g \<and>
    term_cursor_get_pos \<lparr>tty_in = map Got (sent g), tty_out = []\<rparr> = Some (Some (1, 1), \<lparr>tty_in = [], tty_out = ESC ''[6n''\<rparr>)"
proof -
  let ?f = "new_frame 24 80 1 False"
  have ok: "frame_ok ?f" by (rule new_frame_ok) auto
  have s: "process_char_cb ?f = vt_esc_scan" "param_idx ?f = 0" "param 0 ?f = 0" "sent ?f = []" "row_pos ?f = 1" "col_pos ?f = 1" by code_simp+
  have "readable (dec 1)" by code_simp
  then show ?thesis using cursor_position_read[OF ok s(1-4), where t = "\<lparr>tty_in = [], tty_out = []\<rparr>" and as = "[]"] s(5,6) by simp
qed

end
