(* ===== verification/Cformat.thy ===== *)
theory Cformat
  imports Utf8 Ctime
begin

section \<open>Formatted output (\<open>convert/format.c\<close>)\<close>

text \<open>
  The format is the list of its bytes before the terminator, which is read as 0 at its end. The arguments are the list of
  what \<open>va_arg\<close> takes, one after the other; an argument of another type than the directive's is undefined. Output
  goes to a buffer of a given size, or byte by byte to a descriptor. Floating point numbers and the names of errors
  are outside the model, \<open>None\<close>.
\<close>

datatype Directive =
  DT_EOF | DT_ORDINARY | DT_STRING | DT_NSTRING | DT_FSTRING | DT_U8STRING | DT_U8FSTRING | DT_INT_32 | DT_INT_64 |
  DT_UINT_32 | DT_UINT_64 | DT_FLOAT | DT_CHAR | DT_U8CHAR | DT_BINARY | DT_OCTAL | DT_HEX | DT_PTR | DT_ERRNO | DT_ESCAPED |
  DT_UNEXPECTED

record directive_t =
  d_type :: Directive
  d_alternate :: bool
  d_left :: bool
  d_width :: nat
  d_precision :: nat
  d_numchars :: int
  d_size :: nat

datatype fmt_error = No_error | FMT_OUT_OF_SPACE | FMT_UNEXPECTED_EOF | FMT_UNHANDLED_SPECIFIER | FMT_UNEXPECTED_DIRECTIVE

subsection \<open>Directives\<close>

text \<open>An answer of \<open>next_directive\<close>: -1 with what is then in \<open>error\<close>, or a directive and the rest of the format.\<close>

type_synonym directive_answer = "fmt_error + directive_t \<times> byte list"

definition next_byte :: "byte list \<Rightarrow> byte \<times> byte list" where
  "next_byte f = (case f of [] \<Rightarrow> (0, []) | c # f \<Rightarrow> (c, f))"

definition conversion :: "directive_t \<Rightarrow> byte \<Rightarrow> byte list \<Rightarrow> directive_answer" where
  "conversion d c f =
     (if c = 115 then Inr (d\<lparr>d_type := DT_STRING\<rparr>, f)
      else if c = 108 then
        (let (c, f) = next_byte f in
         if c = 100 then Inr (d\<lparr>d_type := DT_INT_64\<rparr>, f)
         else if c = 117 then Inr (d\<lparr>d_type := DT_UINT_64\<rparr>, f)
         else if c = 115 then Inr (d\<lparr>d_type := (if d_precision d = 0 \<and> d_width d = 0 then DT_STRING else DT_U8STRING)\<rparr>, f)
         else if c = 99 then Inr (d\<lparr>d_type := DT_U8CHAR\<rparr>, f)
         else Inl FMT_UNHANDLED_SPECIFIER)
      else if c = 100 then Inr (d\<lparr>d_type := DT_INT_32\<rparr>, f)
      else if c = 117 then Inr (d\<lparr>d_type := DT_UINT_32\<rparr>, f)
      else if c = 112 then Inr (d\<lparr>d_type := DT_PTR\<rparr>, f)
      else if c = 99 then Inr (d\<lparr>d_type := DT_CHAR\<rparr>, f)
      else if c = 98 then Inr (d\<lparr>d_type := DT_BINARY\<rparr>, f)
      else if c = 111 then Inr (d\<lparr>d_type := DT_OCTAL\<rparr>, f)
      else if c = 120 then Inr (d\<lparr>d_type := DT_HEX\<rparr>, f)
      else if c = 102 then Inr (d\<lparr>d_type := DT_FLOAT\<rparr>, f)
      else if c = 109 then Inr (d\<lparr>d_type := DT_ERRNO\<rparr>, f)
      else Inl FMT_UNEXPECTED_DIRECTIVE)"

text \<open>The digits of a precision; where they end wrongly no error is stored.\<close>

primrec precision_digits :: "directive_t \<Rightarrow> int \<Rightarrow> byte list \<Rightarrow> directive_answer option" where
  "precision_digits d n [] = Some (Inl No_error)"
| "precision_digits d n (c # f) =
     (if c = 115 \<or> c = 108 \<and> fst (next_byte f) = 115 \<or> c = 102 then Some (conversion (d\<lparr>d_precision := nat n\<rparr>) c f)
      else if 48 \<le> uint c \<and> uint c \<le> 57
      then in_int 32 (10 * n) \<bind> (\<lambda>n. in_int 32 (n + (uint c - 48)) \<bind> (\<lambda>n. precision_digits d n f))
      else Some (Inl No_error))"

primrec width_digits :: "directive_t \<Rightarrow> int \<Rightarrow> byte list \<Rightarrow> directive_answer option" where
  "width_digits d n [] = Some (Inl FMT_UNEXPECTED_DIRECTIVE)"
| "width_digits d n (c # f) =
     (if c = 115 then Some (Inr (d\<lparr>d_width := nat n, d_type := DT_STRING\<rparr>, f))
      else if c = 108
      then Some (if fst (next_byte f) = 115 then Inr (d\<lparr>d_width := nat n, d_type := DT_U8STRING\<rparr>, snd (next_byte f))
                 else Inl FMT_UNEXPECTED_DIRECTIVE)
      else if 48 \<le> uint c \<and> uint c \<le> 57
      then in_int 32 (10 * n) \<bind> (\<lambda>n. in_int 32 (n + (uint c - 48)) \<bind> (\<lambda>n. width_digits d n f))
      else Some (Inl FMT_UNEXPECTED_DIRECTIVE))"

definition starred :: "directive_t \<Rightarrow> byte list \<Rightarrow> directive_answer" where
  "starred d f =
     (let (c, f) = next_byte f in
      if c = 115 then Inr (d\<lparr>d_type := DT_FSTRING\<rparr>, f)
      else if c = 108 \<and> fst (next_byte f) = 115 then Inr (d\<lparr>d_type := DT_U8FSTRING\<rparr>, snd (next_byte f))
      else Inl FMT_UNHANDLED_SPECIFIER)"

definition precision_spec :: "directive_t \<Rightarrow> byte list \<Rightarrow> directive_answer option" where
  "precision_spec d f =
     (let (c, f) = next_byte f in
      if 49 \<le> uint c \<and> uint c \<le> 57 then precision_digits d (uint c - 48) f
      else if c = 42 then
        (let (c, f) = next_byte f in
         Some (if c = 115 then Inr (d\<lparr>d_type := DT_NSTRING\<rparr>, f) else Inl FMT_UNHANDLED_SPECIFIER))
      else Some (Inl FMT_UNHANDLED_SPECIFIER))"

primrec specifier :: "directive_t \<Rightarrow> nat \<Rightarrow> byte list \<Rightarrow> directive_answer option" where
  "specifier d awaiting [] = Some (Inl FMT_UNEXPECTED_EOF)"
| "specifier d awaiting (c # f) =
     (if c = 0 then Some (Inl FMT_UNEXPECTED_EOF)
      else if c = 35 then (if awaiting \<noteq> 0 then Some (Inl FMT_UNEXPECTED_DIRECTIVE) else specifier (d\<lparr>d_alternate := True\<rparr>) 1 f)
      else if c = 45 then (if awaiting \<noteq> 0 then Some (Inl FMT_UNEXPECTED_DIRECTIVE) else specifier (d\<lparr>d_left := True\<rparr>) 1 f)
      else if c = 46 then (if awaiting > 1 then Some (Inl FMT_UNEXPECTED_DIRECTIVE) else precision_spec d f)
      else if c = 42 then Some (if awaiting > 1 then Inl FMT_UNEXPECTED_DIRECTIVE else starred d f)
      else if 49 \<le> uint c \<and> uint c \<le> 57
      then (if awaiting > 1 then Some (Inl FMT_UNEXPECTED_DIRECTIVE) else width_digits d (uint c - 48) f)
      else Some (conversion d c f))"

definition blank_directive :: directive_t where
  "blank_directive = \<lparr>d_type = DT_EOF, d_alternate = False, d_left = False, d_width = 0, d_precision = 0, d_numchars = 0, d_size = 0\<rparr>"

text \<open>A run of ordinary bytes, or what begins with a percent sign.\<close>

definition next_directive :: "byte list \<Rightarrow> directive_answer option" where
  "next_directive f =
     (case f of
        [] \<Rightarrow> Some (Inr (blank_directive, []))
      | c # f' \<Rightarrow>
          (if c \<noteq> 37
           then let n = 1 + length (takeWhile (\<lambda>x. x \<noteq> 37) f') in
                Some (Inr (blank_directive\<lparr>d_type := DT_ORDINARY, d_size := n\<rparr>, drop n f))
           else if f' \<noteq> [] \<and> hd f' = 37
           then Some (Inr (blank_directive\<lparr>d_type := DT_ESCAPED, d_size := 2\<rparr>, tl f'))
           else specifier (blank_directive\<lparr>d_size := 1\<rparr>) 0 f'))"

subsection \<open>Arguments\<close>

datatype fmt_arg = A_int "32 word" | A_long "64 word" | A_str "byte list option"

definition NULL_STRING :: "byte list" where "NULL_STRING = ascii ''(nil)''"

definition str_or_nil :: "byte list option \<Rightarrow> byte list" where
  "str_or_nil s = (case s of None \<Rightarrow> NULL_STRING | Some s \<Rightarrow> s)"

text \<open>The bytes up to the asked for column, and the columns.\<close>

definition u8_prefix :: "byte list \<Rightarrow> nat \<Rightarrow> (nat \<times> int) option" where
  "u8_prefix s nth_char =
     (case utf8_string_after_nth_char [0 \<mapsto> s @ [0]] (Ptr 0 0) (as_int (int nth_char)) of
        Some (Ptr b n, numchars) \<Rightarrow> Some (n, numchars)
      | _ \<Rightarrow> None)"

definition fresh_decimal :: decimal where
  "fresh_decimal = \<lparr>dec_digits = replicate (DECIMAL_NUM_DIGITS + 1) 0, dec_size = 0, dec_base = 10\<rparr>"

definition prefixed :: "bool \<Rightarrow> byte list \<Rightarrow> decimal \<Rightarrow> byte list" where
  "prefixed alternate pre dec =
     (let s = get_decimal_string dec in
      if alternate \<and> s \<noteq> [] \<and> hd s \<noteq> 48 then get_decimal_string (fold (\<lambda>c dec. fst (decimal_prepend dec c)) (rev pre) dec) else s)"

text \<open>The five byte local buffer of a character; an invalid one has no bytes.\<close>

definition character_bytes :: "int \<Rightarrow> byte list option" where
  "character_bytes u =
     (case utf8_character [0 \<mapsto> replicate 8 0] u (Ptr 0 0) 8 of
        None \<Rightarrow> None
      | Some (m, n) \<Rightarrow> (if n < 0 then None else cstr m (Ptr 0 0)))"

text \<open>What a directive prints, with the directive as the arguments complete it and the arguments that are left.\<close>

definition string_text :: "directive_t \<Rightarrow> byte list option \<Rightarrow> byte list" where
  "string_text d s =
     (let s = str_or_nil s in if d_precision d > 0 \<and> length s > d_precision d then take (d_precision d) s else s)"

definition u8_text :: "directive_t \<Rightarrow> byte list option \<Rightarrow> (directive_t \<times> byte list) option" where
  "u8_text d s =
     (let s = str_or_nil s;
          p = (if d_precision d > 0 \<and> length s < d_precision d \<or> d_precision d = 0 then length s else d_precision d) in
      map_option (\<lambda>(n, numchars). (d\<lparr>d_precision := p, d_numchars := numchars\<rparr>, take n s)) (u8_prefix s p))"

fun directive_text :: "directive_t \<Rightarrow> byte list \<Rightarrow> fmt_arg list \<Rightarrow> (directive_t \<times> byte list \<times> fmt_arg list) option" where
  "directive_text d run args =
     (case d_type d of
        DT_ORDINARY \<Rightarrow> Some (d, run, args)
      | DT_ESCAPED \<Rightarrow> Some (d, [37], args)
      | DT_STRING \<Rightarrow> (case args of A_str s # args \<Rightarrow> Some (d, string_text d s, args) | _ \<Rightarrow> None)
      | DT_NSTRING \<Rightarrow>
          (case args of A_int w # A_str s # args \<Rightarrow> (let d = d\<lparr>d_precision := unat w\<rparr> in Some (d, string_text d s, args)) | _ \<Rightarrow> None)
      | DT_FSTRING \<Rightarrow> (case args of A_int w # A_str s # args \<Rightarrow> Some (d\<lparr>d_width := unat w\<rparr>, str_or_nil s, args) | _ \<Rightarrow> None)
      | DT_U8STRING \<Rightarrow> (case args of A_str s # args \<Rightarrow> map_option (\<lambda>(d, t). (d, t, args)) (u8_text d s) | _ \<Rightarrow> None)
      | DT_U8FSTRING \<Rightarrow>
          (case args of A_int w # A_str s # args \<Rightarrow> map_option (\<lambda>(d, t). (d, t, args)) (u8_text (d\<lparr>d_width := unat w\<rparr>) s) | _ \<Rightarrow> None)
      | DT_INT_32 \<Rightarrow>
          (case args of A_int i # args \<Rightarrow> map_option (\<lambda>dec. (d, get_decimal_string dec, args)) (int_to_string fresh_decimal i) | _ \<Rightarrow> None)
      | DT_INT_64 \<Rightarrow>
          (case args of A_long i # args \<Rightarrow> map_option (\<lambda>dec. (d, get_decimal_string dec, args)) (int64_to_string fresh_decimal i) | _ \<Rightarrow> None)
      | DT_UINT_32 \<Rightarrow> (case args of A_int u # args \<Rightarrow> Some (d, get_decimal_string (uint_to_string fresh_decimal u), args) | _ \<Rightarrow> None)
      | DT_UINT_64 \<Rightarrow> (case args of A_long u # args \<Rightarrow> Some (d, get_decimal_string (uint64_to_string fresh_decimal u), args) | _ \<Rightarrow> None)
      | DT_BINARY \<Rightarrow>
          (case args of A_long u # args \<Rightarrow> Some (d, prefixed (d_alternate d) (ascii ''0b'') (uint64_to_binary_string fresh_decimal u), args) | _ \<Rightarrow> None)
      | DT_OCTAL \<Rightarrow>
          (case args of A_long u # args \<Rightarrow> Some (d, prefixed (d_alternate d) (ascii ''0'') (uint64_to_octal_string fresh_decimal u), args) | _ \<Rightarrow> None)
      | DT_HEX \<Rightarrow>
          (case args of A_long u # args \<Rightarrow> Some (d, prefixed (d_alternate d) (ascii ''0x'') (uint64_to_hex_string fresh_decimal u), args) | _ \<Rightarrow> None)
      | DT_PTR \<Rightarrow>
          (case args of A_long p # args \<Rightarrow> Some (d, if p = 0 then NULL_STRING else get_decimal_string (ptr_to_string fresh_decimal p), args) | _ \<Rightarrow> None)
      | DT_CHAR \<Rightarrow> (case args of A_int c # args \<Rightarrow> Some (d, takeWhile (\<lambda>x. x \<noteq> 0) [ucast c], args) | _ \<Rightarrow> None)
      | DT_U8CHAR \<Rightarrow> (case args of A_int c # args \<Rightarrow> map_option (\<lambda>t. (d, t, args)) (character_bytes (sint c)) | _ \<Rightarrow> None)
      | _ \<Rightarrow> None)"

declare directive_text.simps [simp del]

subsection \<open>Output\<close>

text \<open>
  Where it goes, with what was put there. A buffer of \<open>mem_size\<close> bytes takes one less; a descriptor takes every byte, and the
  count of bytes stays 0. The last argument tells whether the buffer was ended with a terminator.
\<close>

datatype destination = Buffer nat | Descriptor

primrec put_bytes :: "destination \<Rightarrow> byte list \<Rightarrow> byte list \<Rightarrow> bool \<times> byte list" where
  "put_bytes k [] out = (True, out)"
| "put_bytes k (c # cs) out =
     (case k of
        Buffer mem_size \<Rightarrow> (if length out + 1 = mem_size then (False, out) else put_bytes k cs (out @ [c]))
      | Descriptor \<Rightarrow> put_bytes k cs (out @ [c]))"

text \<open>The count is a \<open>size_t\<close>, the answer an int.\<close>

definition num_bytes :: "destination \<Rightarrow> byte list \<Rightarrow> int" where
  "num_bytes k out = (case k of Buffer _ \<Rightarrow> as_int (int (length out)) | Descriptor \<Rightarrow> 0)"

definition padding :: "directive_t \<Rightarrow> nat \<Rightarrow> bool \<Rightarrow> byte list" where
  "padding d len columns =
     (if d_width d > 0 \<and> len < d_width d
      then replicate (if columns then (if d_numchars d < as_int (int (d_width d)) then nat ((int (d_width d) - d_numchars d) mod 2 ^ 32) else 0) else d_width d - len) 32
      else [])"

definition directive_output :: "directive_t \<Rightarrow> byte list \<Rightarrow> byte list" where
  "directive_output d s =
     (if d_left d then [] else padding d (length s) (d_type d = DT_U8STRING \<or> d_type d = DT_U8FSTRING)) @
     takeWhile (\<lambda>x. x \<noteq> 0) s @
     (if d_left d then padding d (length s) (d_type d = DT_U8STRING) else [])"

lemma conversion_shorter: "conversion d c f = Inr (d', f') \<Longrightarrow> length f' \<le> length f"
  by (auto simp: conversion_def next_byte_def Let_def split: if_splits list.splits prod.splits)

lemma precision_digits_shorter: "precision_digits d n f = Some (Inr (d', f')) \<Longrightarrow> length f' \<le> length f"
  by (induction f arbitrary: n) (auto simp: bind_eq_Some_conv split: if_splits dest!: conversion_shorter intro: le_SucI)

lemma width_digits_shorter: "width_digits d n f = Some (Inr (d', f')) \<Longrightarrow> length f' \<le> length f"
  by (induction f arbitrary: n) (auto simp: bind_eq_Some_conv next_byte_def split: if_splits list.splits intro: le_SucI)

lemma specifier_shorter: "specifier d a f = Some (Inr (d', f')) \<Longrightarrow> length f' \<le> length f"
proof (induction f arbitrary: d a)
  case (Cons c f)
  have "length f' \<le> length f" if "precision_spec d f = Some (Inr (d', f'))"
    using that precision_digits_shorter[of d "uint (fst (next_byte f)) - 48" "snd (next_byte f)" d' f']
    by (auto simp: precision_spec_def next_byte_def Let_def split: if_splits list.splits prod.splits)
  moreover have "length f' \<le> length f" if "starred d f = Inr (d', f')"
    using that by (auto simp: starred_def next_byte_def Let_def split: if_splits list.splits prod.splits)
  ultimately show ?case
    using Cons width_digits_shorter[of d "uint c - 48" f d' f'] conversion_shorter[of d c f d' f']
    by (fastforce split: if_splits)
qed simp

lemma next_directive_shorter:
  "next_directive f = Some (Inr (d, f')) \<Longrightarrow> d_type d \<noteq> DT_EOF \<Longrightarrow> length f' < length f"
  by (auto simp: next_directive_def blank_directive_def Let_def le_imp_less_Suc split: list.splits if_splits dest!: specifier_shorter)

lemma next_directive_rest: "next_directive f = Some (Inr (d, f')) \<Longrightarrow> f \<noteq> [] \<Longrightarrow> length f' < length f"
  by (auto simp: next_directive_def blank_directive_def Let_def le_imp_less_Suc split: list.splits if_splits dest!: specifier_shorter)

text \<open>The answer, what was written, whether a terminator was, and the error.\<close>

function vformat_loop :: "destination \<Rightarrow> byte list \<Rightarrow> fmt_arg list \<Rightarrow> byte list \<Rightarrow> (int \<times> byte list \<times> bool \<times> fmt_error) option" where
  "vformat_loop k f args out =
     (case next_directive f of
        None \<Rightarrow> None
      | Some (Inl e) \<Rightarrow> Some (- 1, out, False, e)
      | Some (Inr (d, f')) \<Rightarrow>
          (if f = [] then Some (num_bytes k out, out, True, No_error)
           else (case directive_text d (take (d_size d) f) args of
                   None \<Rightarrow> None
                 | Some (d, s, args) \<Rightarrow>
                     (case put_bytes k (directive_output d s) out of
                        (ok, out) \<Rightarrow> if ok then vformat_loop k f' args out else Some (- 1, out, False, FMT_OUT_OF_SPACE)))))"
  by pat_completeness auto
termination
  by (relation "measure (\<lambda>(k, f, args, out). length f)") (auto dest: next_directive_rest)

declare vformat_loop.simps [simp del]

definition vformat :: "destination \<Rightarrow> byte list \<Rightarrow> fmt_arg list \<Rightarrow> (int \<times> byte list \<times> bool \<times> fmt_error) option" where
  "vformat k fmt args =
     (case k of
        Buffer 0 \<Rightarrow> Some (0, [], False, No_error)
      | _ \<Rightarrow> if k = Buffer 1 then Some (0, [], True, No_error) else vformat_loop k fmt args [])"

text \<open>A descriptor is written a byte at a time; what the system answers is not looked at.\<close>

definition vformat_to_fd :: "byte list \<Rightarrow> fmt_arg list \<Rightarrow> (int \<times> byte list \<times> bool \<times> fmt_error) option" where
  "vformat_to_fd fmt args = vformat Descriptor fmt args"

definition format_to_fd :: "byte list \<Rightarrow> fmt_arg list \<Rightarrow> (int \<times> byte list \<times> bool \<times> fmt_error) option" where
  "format_to_fd fmt args = vformat Descriptor fmt args"

definition error_number :: "fmt_error \<Rightarrow> int" where
  "error_number e =
     (case e of No_error \<Rightarrow> 0 | FMT_OUT_OF_SPACE \<Rightarrow> - 2 | FMT_UNEXPECTED_EOF \<Rightarrow> - 3
      | FMT_UNHANDLED_SPECIFIER \<Rightarrow> - 4 | FMT_UNEXPECTED_DIRECTIVE \<Rightarrow> - 5)"

text \<open>The last component is what goes to the standard error.\<close>

definition format_to_string :: "nat \<Rightarrow> byte list \<Rightarrow> fmt_arg list \<Rightarrow> (int \<times> byte list \<times> bool \<times> fmt_error \<times> byte list) option" where
  "format_to_string bufsize fmt args =
     do { (n, out, ended, e) \<leftarrow> vformat (Buffer bufsize) fmt args;
          if n < 0
          then do { (_, message, _) \<leftarrow> format_to_fd (ascii ''error %d'' @ [10]) [A_int (word_of_int (error_number e))];
                    Some (n, out, ended, e, message) }
          else Some (n, out, ended, e, []) }"

subsection \<open>What a format of simple directives prints\<close>

text \<open>The reference: a format as a list of pieces, each with its directive, its arguments and its text.\<close>

datatype piece =
  Text "byte list" | Percent | Decimal "32 word" | Unsigned "32 word" | Decimal64 "64 word" | Unsigned64 "64 word" | Hex "64 word" | Str "byte list" |
  Char "32 word" | Code int

fun piece_format :: "piece \<Rightarrow> byte list" where
  "piece_format (Text t) = t"
| "piece_format Percent = ascii ''%%''"
| "piece_format (Decimal i) = ascii ''%d''"
| "piece_format (Unsigned i) = ascii ''%u''"
| "piece_format (Decimal64 i) = ascii ''%ld''"
| "piece_format (Unsigned64 i) = ascii ''%lu''"
| "piece_format (Hex i) = ascii ''%x''"
| "piece_format (Str s) = ascii ''%s''"
| "piece_format (Char c) = ascii ''%c''"
| "piece_format (Code c) = ascii ''%lc''"

fun piece_args :: "piece \<Rightarrow> fmt_arg list" where
  "piece_args (Decimal i) = [A_int i]"
| "piece_args (Unsigned i) = [A_int i]"
| "piece_args (Decimal64 i) = [A_long i]"
| "piece_args (Unsigned64 i) = [A_long i]"
| "piece_args (Hex i) = [A_long i]"
| "piece_args (Str s) = [A_str (Some s)]"
| "piece_args (Char c) = [A_int c]"
| "piece_args (Code c) = [A_int (word_of_int c)]"
| "piece_args _ = []"

fun piece_text :: "piece \<Rightarrow> byte list" where
  "piece_text (Text t) = t"
| "piece_text Percent = [37]"
| "piece_text (Decimal i) = sigstr (sint i)"
| "piece_text (Unsigned i) = numstr 10 (unat i)"
| "piece_text (Decimal64 i) = sigstr (sint i)"
| "piece_text (Unsigned64 i) = numstr 10 (unat i)"
| "piece_text (Hex i) = numstr 16 (unat i)"
| "piece_text (Str s) = s"
| "piece_text (Char c) = [ucast c]"
| "piece_text (Code c) = enc c"

fun piece_ok :: "piece \<Rightarrow> bool" where
  "piece_ok (Text t) \<longleftrightarrow> 0 \<notin> set t \<and> 37 \<notin> set t"
| "piece_ok (Decimal i) \<longleftrightarrow> sint i \<noteq> - (2 ^ 31)"
| "piece_ok (Decimal64 i) \<longleftrightarrow> sint i \<noteq> - (2 ^ 63)"
| "piece_ok (Str s) \<longleftrightarrow> 0 \<notin> set s"
| "piece_ok (Char c) \<longleftrightarrow> (ucast c :: byte) \<noteq> 0"
| "piece_ok (Code c) \<longleftrightarrow> scalar c \<and> c \<noteq> 0"
| "piece_ok _ \<longleftrightarrow> True"

lemma put_bytes_append: "put_bytes k (xs @ ys) out = (case put_bytes k xs out of (ok, out') \<Rightarrow> if ok then put_bytes k ys out' else (False, out'))"
  by (induction xs arbitrary: out) (auto split: destination.splits)

lemma put_bytes_buffer:
  "length out < n \<Longrightarrow> put_bytes (Buffer n) xs out =
     (length out + length xs < n, out @ take (n - 1 - length out) xs)"
proof (induction xs arbitrary: out)
  case (Cons x xs)
  show ?case
  proof (cases "length out + 1 = n")
    case False
    then have "n - 1 - length out = Suc (n - 1 - length (out @ [x]))" using Cons.prems by simp
    then show ?thesis using Cons.IH[of "out @ [x]"] Cons.prems False by simp
  qed (use Cons.prems in simp)
qed simp

text \<open>A step of the loop whose directive prints \<open>t\<close>.\<close>

definition prints :: "byte list \<Rightarrow> fmt_arg list \<Rightarrow> byte list \<Rightarrow> bool" where
  "prints g as t \<longleftrightarrow> g \<noteq> [] \<and> 0 \<notin> set t \<and>
     (\<forall>f args. \<exists>d d'. next_directive (g @ f) = Some (Inr (d, f)) \<and> directive_text d (take (d_size d) (g @ f)) (as @ args) = Some (d', t, args) \<and> d_width d' = 0)"

lemma no_padding: "d_width d = 0 \<Longrightarrow> 0 \<notin> set t \<Longrightarrow> directive_output d t = t"
  by (auto simp: directive_output_def padding_def intro!: takeWhile_eq_all_conv[THEN iffD2])

lemma prints_step:
  assumes "prints g as t"
  shows "vformat_loop k (g @ f) (as @ args) out =
    (case put_bytes k t out of (ok, out) \<Rightarrow> if ok then vformat_loop k f args out else Some (- 1, out, False, FMT_OUT_OF_SPACE))"
proof -
  obtain d d' where "next_directive (g @ f) = Some (Inr (d, f))" "directive_text d (take (d_size d) (g @ f)) (as @ args) = Some (d', t, args)" "d_width d' = 0"
    "g \<noteq> []" "0 \<notin> set t" using assms unfolding prints_def by blast
  then show ?thesis by (subst vformat_loop.simps) (simp add: no_padding)
qed

lemma ordinary_run:
  assumes "c \<noteq> 37" "0 \<notin> set (c # f)"
  shows "vformat_loop k (c # f) args out =
    (case put_bytes k (takeWhile (\<lambda>x. x \<noteq> 37) (c # f)) out of
       (ok, out) \<Rightarrow> if ok then vformat_loop k (dropWhile (\<lambda>x. x \<noteq> 37) (c # f)) args out else Some (- 1, out, False, FMT_OUT_OF_SPACE))"
proof -
  let ?P = "\<lambda>x :: byte. x \<noteq> 37"
  let ?d = "blank_directive\<lparr>d_type := DT_ORDINARY, d_size := 1 + length (takeWhile ?P f)\<rparr>"
  have r: "drop (length (takeWhile ?P f)) f = dropWhile ?P f" "take (length (takeWhile ?P f)) f = takeWhile ?P f"
    by (rule dropWhile_eq_drop[symmetric], rule takeWhile_eq_take[symmetric])
  have n: "next_directive (c # f) = Some (Inr (?d, dropWhile ?P (c # f)))"
    using assms(1) r(1) by (simp add: next_directive_def)
  have t: "directive_text ?d (take (d_size ?d) (c # f)) args = Some (?d, takeWhile ?P (c # f), args)"
    using assms(1) r(2) by (simp add: directive_text.simps)
  have "0 \<notin> set (takeWhile ?P (c # f))" using assms(2) set_takeWhileD[of 0 ?P "c # f"] by blast
  then have "directive_output ?d (takeWhile ?P (c # f)) = takeWhile ?P (c # f)"
    by (intro no_padding) (simp add: blank_directive_def)
  then show ?thesis using n t by (subst vformat_loop.simps) (simp del: takeWhile.simps dropWhile.simps)
qed

lemma ordinary_byte:
  assumes "c \<noteq> 37" "0 \<notin> set (c # f)"
  shows "vformat_loop k (c # f) args out =
    (case put_bytes k [c] out of (ok, out) \<Rightarrow> if ok then vformat_loop k f args out else Some (- 1, out, False, FMT_OUT_OF_SPACE))"
proof (cases "f = [] \<or> hd f = 37")
  case True
  then have "takeWhile (\<lambda>x. x \<noteq> 37) f = []" "dropWhile (\<lambda>x. x \<noteq> 37) f = f" by (cases f; simp)+
  then have "takeWhile (\<lambda>x. x \<noteq> 37) (c # f) = [c]" "dropWhile (\<lambda>x. x \<noteq> 37) (c # f) = f" using assms(1) by auto
  then show ?thesis using ordinary_run[OF assms, of k args out] by (simp only:)
next
  case False
  then obtain e g where f: "f = e # g" "e \<noteq> 37" by (cases f) auto
  have "vformat_loop k f args out' = (case put_bytes k (takeWhile (\<lambda>x. x \<noteq> 37) f) out' of
       (ok, out) \<Rightarrow> if ok then vformat_loop k (dropWhile (\<lambda>x. x \<noteq> 37) f) args out else Some (- 1, out, False, FMT_OUT_OF_SPACE))" for out'
    unfolding f(1) using ordinary_run[OF f(2), of g k args out'] assms(2) f(1) by simp
  then show ?thesis
    using assms(1) ordinary_run[OF assms, of k args out] put_bytes_append[of k "[c]" "takeWhile (\<lambda>x. x \<noteq> 37) f" out]
    by (simp del: put_bytes.simps split: prod.splits)
qed

lemma ordinary_text:
  "37 \<notin> set t \<Longrightarrow> 0 \<notin> set (t @ f) \<Longrightarrow> vformat_loop k (t @ f) args out =
    (case put_bytes k t out of (ok, out) \<Rightarrow> if ok then vformat_loop k f args out else Some (- 1, out, False, FMT_OUT_OF_SPACE))"
proof (induction t arbitrary: out)
  case (Cons c t)
  have "vformat_loop k (c # t @ f) args out =
    (case put_bytes k [c] out of (ok, out) \<Rightarrow> if ok then vformat_loop k (t @ f) args out else Some (- 1, out, False, FMT_OUT_OF_SPACE))"
    using Cons.prems by (intro ordinary_byte) auto
  then show ?case using Cons.IH Cons.prems put_bytes_append[of k "[c]" t out] by (simp del: put_bytes.simps split: prod.splits)
qed simp

lemma spec_simps: "next_directive (37 # c # f) = specifier (blank_directive\<lparr>d_size := 1\<rparr>) 0 (c # f)" if "c \<noteq> 37"
  using that by (simp add: next_directive_def)

lemma fresh_base [simp]: "dec_base fresh_decimal = 10"
  by (simp add: fresh_decimal_def)

lemma uint_text: "get_decimal_string (uint_to_string fresh_decimal u) = numstr 10 (unat u)"
proof -
  have "unat u < 2 ^ 32" using unsigned_less[of u] by simp
  then have "unat (ucast u :: 64 word) = unat u" by (simp add: unsigned_ucast_eq take_bit_nat_eq_self)
  then show ?thesis using uint64_to_string_eq[of fresh_decimal "ucast u"] by (simp add: uint64_to_string_def uint_to_string_def)
qed

lemma hex_text: "get_decimal_string (uint64_to_hex_string fresh_decimal u) = numstr 16 (unat u)"
proof -
  have "length (numstr 16 (unat u)) \<le> 63" using numstr_length_u64[of 16 u] by simp
  then show ?thesis using with_base_eq(1)[of 16 fresh_decimal u] by (simp add: uint64_to_hex_string_def take_last_all)
qed

lemma enc_no_nul: "scalar c \<Longrightarrow> c \<noteq> 0 \<Longrightarrow> 0 \<notin> set (enc c)"
  by (cases c rule: scalar_cases) (auto simp: enc_1 enc_2 enc_3 enc_4 word_uint_eq_iff uint_byte_of)

lemma character_text: "scalar c \<Longrightarrow> c \<noteq> 0 \<Longrightarrow> character_bytes c = Some (enc c)"
proof -
  assume c: "scalar c" "c \<noteq> 0"
  have len: "0 < length (enc c)" "length (enc c) \<le> 4" using enc_nonempty[OF c(1)] by auto
  let ?m = "[0 \<mapsto> replicate 8 (0 :: byte)]"
  have "store ?m (Ptr 0 0) (enc c @ [0]) \<noteq> None" using len store_fits[of ?m "Ptr 0 0" "enc c @ [0]"] by simp
  then obtain m' where m': "store ?m (Ptr 0 0) (enc c @ [0]) = Some m'" by blast
  have "utf8_bytes c = Some (enc c)" using utf8_bytes_scalar[OF c(1)] .
  then have "utf8_character ?m c (Ptr 0 0) 8 = Some (m', int (length (enc c)))" using c(2) m' by (simp add: utf8_character_def)
  moreover have "cstr m' (Ptr 0 0) = Some (enc c)" using cstr_store[OF m'] enc_no_nul[OF c] by simp
  ultimately show ?thesis by (simp add: character_bytes_def)
qed

lemma numstr_bytes: "2 \<le> b \<Longrightarrow> b \<le> 36 \<Longrightarrow> 0 \<notin> set (numstr b n)"
  using numstr_no_nul by blast

lemma sigstr_bytes: "0 \<notin> set (sigstr v)"
  by (simp add: sigstr_def numstr_bytes)

lemma int_text: "sint i \<noteq> - (2 ^ 31) \<Longrightarrow> \<exists>dec. int_to_string fresh_decimal i = Some dec \<and> get_decimal_string dec = sigstr (sint i)"
  using int_to_string_eq[of fresh_decimal i] by auto

lemma int64_text: "sint i \<noteq> - (2 ^ 63) \<Longrightarrow> \<exists>dec. int64_to_string fresh_decimal i = Some dec \<and> get_decimal_string dec = sigstr (sint i)"
  using int64_to_string_eq[of fresh_decimal i] by auto

lemma piece_prints:
  assumes "piece_ok p" "\<forall>t. p \<noteq> Text t"
  shows "prints (piece_format p) (piece_args p) (piece_text p)"
proof (cases p)
  case (Decimal i)
  then show ?thesis using assms(1) int_text[of i]
    by (auto simp: prints_def ascii_def spec_simps conversion_def directive_text.simps sigstr_bytes blank_directive_def)
next
  case (Decimal64 i)
  then show ?thesis using assms(1) int64_text[of i]
    by (auto simp: prints_def ascii_def spec_simps conversion_def directive_text.simps sigstr_bytes blank_directive_def next_byte_def)
next
  case (Code c)
  then have "- (2 ^ 31) \<le> c" "c < 2 ^ 31" using assms(1) scalar_range[of c] by auto
  then have "sint (word_of_int c :: 32 word) = c" by (simp add: signed_of_int signed_take_bit_int_eq_self)
  then show ?thesis using Code assms(1)
    by (auto simp: prints_def ascii_def spec_simps conversion_def directive_text.simps character_text enc_no_nul blank_directive_def next_byte_def)
qed (use assms in \<open>auto simp: prints_def ascii_def spec_simps conversion_def directive_text.simps next_byte_def blank_directive_def
    next_directive_def uint_text uint64_to_string_eq hex_text numstr_bytes string_text_def str_or_nil_def prefixed_def Let_def\<close>)

definition text_of :: "piece list \<Rightarrow> byte list" where "text_of ps = concat (map piece_text ps)"

lemma piece_format_no_nul: "piece_ok p \<Longrightarrow> 0 \<notin> set (piece_format p)"
  by (cases p) (auto simp: ascii_def)

lemma piece_step:
  assumes "piece_ok p" "\<forall>q \<in> set ps. piece_ok q"
  shows "vformat_loop k (piece_format p @ concat (map piece_format ps)) (piece_args p @ concat (map piece_args ps)) out =
    (case put_bytes k (piece_text p) out of
       (ok, out) \<Rightarrow> if ok then vformat_loop k (concat (map piece_format ps)) (concat (map piece_args ps)) out else Some (- 1, out, False, FMT_OUT_OF_SPACE))"
proof (cases "\<exists>t. p = Text t")
  case True
  have "0 \<notin> set (piece_format p @ concat (map piece_format ps))" using assms piece_format_no_nul by auto
  then show ?thesis using True ordinary_text assms(1) by auto
next
  case False
  then show ?thesis using prints_step[OF piece_prints[OF assms(1)]] by auto
qed

lemma loop_end: "vformat_loop k [] args out = Some (num_bytes k out, out, True, No_error)"
  by (subst vformat_loop.simps) (simp add: next_directive_def)

lemma text_of_simps [simp]: "text_of [] = []" "text_of (p # ps) = piece_text p @ text_of ps"
  by (simp_all add: text_of_def)

lemma pieces_to_buffer:
  "\<forall>p \<in> set ps. piece_ok p \<Longrightarrow> length out < n \<Longrightarrow>
   vformat_loop (Buffer n) (concat (map piece_format ps)) (concat (map piece_args ps)) out =
     Some (if length out + length (text_of ps) < n then (as_int (int (length out + length (text_of ps))), out @ text_of ps, True, No_error)
           else (- 1, out @ take (n - 1 - length out) (text_of ps), False, FMT_OUT_OF_SPACE))"
proof (induction ps arbitrary: out)
  case Nil
  then show ?case by (simp add: loop_end num_bytes_def)
next
  case (Cons p ps)
  note step = piece_step[of p ps "Buffer n" out] put_bytes_buffer[OF Cons.prems(2), of "piece_text p"]
  show ?case
  proof (cases "length out + length (piece_text p) < n")
    case True
    then show ?thesis using step Cons.IH[of "out @ piece_text p"] Cons.prems by (simp add: add.assoc)
  next
    case False
    then show ?thesis using step Cons.prems by simp
  qed
qed

lemma put_bytes_fd: "put_bytes Descriptor xs out = (True, out @ xs)"
  by (induction xs arbitrary: out) auto

lemma pieces_to_fd:
  "\<forall>p \<in> set ps. piece_ok p \<Longrightarrow>
   vformat_loop Descriptor (concat (map piece_format ps)) (concat (map piece_args ps)) out = Some (0, out @ text_of ps, True, No_error)"
proof (induction ps arbitrary: out)
  case Nil
  then show ?case by (simp add: loop_end num_bytes_def)
next
  case (Cons p ps)
  then show ?case using piece_step[of p ps Descriptor out] by (simp add: put_bytes_fd)
qed

lemma vformat_loops: "1 < n \<Longrightarrow> vformat (Buffer n) f args = vformat_loop (Buffer n) f args []"
  by (cases n) (auto simp: vformat_def)

lemma out_of_space_message: "format_to_fd (ascii ''error %d'' @ [10]) [A_int (word_of_int (error_number FMT_OUT_OF_SPACE))] = Some (0, ascii ''error -2'' @ [10], True, No_error)"
proof -
  let ?ps = "[Text (ascii ''error ''), Decimal (- 2), Text [10]]"
  have "text_of ?ps = ascii ''error -2'' @ [10]"
    by (simp add: sigstr_def ascii_def numstr_def digit_string_def to_digits.simps digit_chars_def)
  moreover have "\<forall>p \<in> set ?ps. piece_ok p" by (simp add: ascii_def)
  ultimately show ?thesis using pieces_to_fd[of ?ps "[]"] by (simp add: format_to_fd_def vformat_def ascii_def error_number_def)
qed

text \<open>Property C35. A format of text, numbers in base ten and sixteen, strings and characters prints what its pieces stand for,
  one after the other, when the buffer has room for it and the terminator, and answers the number of bytes. When it has not, the buffer is
  filled up to its last byte, the answer is -1, no terminator is written, and \<open>error -2\<close> goes to the standard error. A descriptor
  takes the whole text, and the answer is 0. The buffer has two bytes at least (one of a single byte gets a terminator and the answer
  0, whatever the text) and \<open>2 ^ 31\<close> at most, beyond which the count does not fit the answer, and the format is shorter than that;
  text holds no \<open>%\<close>, no piece holds a terminator, and a number in base ten is not the least int or the least 64 bit int
  (\<open>piece_ok\<close>).\<close>

theorem format_prints_pieces:
  assumes "\<forall>p \<in> set ps. piece_ok p" "1 < n" "n \<le> 2 ^ 31" "length (concat (map piece_format ps)) < 2 ^ 31"
  shows "format_to_string n (concat (map piece_format ps)) (concat (map piece_args ps)) =
    Some (if length (text_of ps) < n then (int (length (text_of ps)), text_of ps, True, No_error, [])
          else (- 1, take (n - 1) (text_of ps), False, FMT_OUT_OF_SPACE, ascii ''error -2'' @ [10])) \<and>
    format_to_fd (concat (map piece_format ps)) (concat (map piece_args ps)) = Some (0, text_of ps, True, No_error)"
proof
  show "format_to_string n (concat (map piece_format ps)) (concat (map piece_args ps)) =
    Some (if length (text_of ps) < n then (int (length (text_of ps)), text_of ps, True, No_error, [])
          else (- 1, take (n - 1) (text_of ps), False, FMT_OUT_OF_SPACE, ascii ''error -2'' @ [10]))"
    unfolding format_to_string_def vformat_loops[OF assms(2)]
    using pieces_to_buffer[OF assms(1), of "[]" n] assms(2,3) out_of_space_message as_int_small[of "int (length (text_of ps))"] by auto
  show "format_to_fd (concat (map piece_format ps)) (concat (map piece_args ps)) = Some (0, text_of ps, True, No_error)"
    using pieces_to_fd[OF assms(1), of "[]"] by (simp add: format_to_fd_def vformat_def)
qed

lemma format_prints_pieces_witness:
  "format_to_string 8 (ascii ''%s=%d'') [A_str (Some (ascii ''rows'')), A_int 24] = Some (7, ascii ''rows=24'', True, No_error, []) \<and>
   format_to_string 5 (ascii ''%s=%d'') [A_str (Some (ascii ''rows'')), A_int 24] = Some (- 1, ascii ''rows'', False, FMT_OUT_OF_SPACE, ascii ''error -2'' @ [10])"
proof -
  let ?ps = "[Str (ascii ''rows''), Text (ascii ''=''), Decimal 24]"
  have t: "text_of ?ps = ascii ''rows=24''"
    by (simp add: sigstr_def ascii_def numstr_def digit_string_def to_digits.simps digit_chars_def)
  have ok: "\<forall>p \<in> set ?ps. piece_ok p" by (simp add: ascii_def)
  show ?thesis using format_prints_pieces[OF ok, of 8] format_prints_pieces[OF ok, of 5] t by (simp add: ascii_def)
qed

end
