(* ===== verification/Dllist.thy ===== *)
theory Dllist
  imports Prelude Contracts
begin

section \<open>Linked lists: the macros of \<open>z/lib/list/src/list.h\<close>\<close>

text \<open>
  The editor, the window manager, the shell and the readline all keep their rows, frames, buffers and commands in lists
  that are handled by the macros of one header. The nodes are kept in an explicit store: a node is an address, a list has
  pointers to the first, the last and the current node, and every macro is the sequence of reads and writes
  that it expands to; a null or unknown pointer that is followed is \<open>None\<close>. What the macros do is then
  stated on a sequence with a cursor, which is what the models of the programs work with.
\<close>

subsection \<open>Nodes\<close>

record dnode =
  dprev :: "nat option"
  dnext :: "nat option"

type_synonym nodes = "nat \<Rightarrow> dnode option"

definition rd_prev :: "nodes \<Rightarrow> nat option \<Rightarrow> nat option option" where
  "rd_prev h p = map_option dprev (Option.bind p h)"

definition rd_next :: "nodes \<Rightarrow> nat option \<Rightarrow> nat option option" where
  "rd_next h p = map_option dnext (Option.bind p h)"

definition wr_prev :: "nodes \<Rightarrow> nat option \<Rightarrow> nat option \<Rightarrow> nodes option" where
  "wr_prev h p v = do { a \<leftarrow> p; n \<leftarrow> h a; Some (h(a \<mapsto> n\<lparr>dprev := v\<rparr>)) }"

definition wr_next :: "nodes \<Rightarrow> nat option \<Rightarrow> nat option \<Rightarrow> nodes option" where
  "wr_next h p v = do { a \<leftarrow> p; n \<leftarrow> h a; Some (h(a \<mapsto> n\<lparr>dnext := v\<rparr>)) }"

text \<open>A node as \<open>Alloc\<close> gives it.\<close>

definition blank :: dnode where "blank = \<lparr>dprev = None, dnext = None\<rparr>"

record dlist =
  dhead :: "nat option"
  dtail :: "nat option"
  dcurrent :: "nat option"
  dcur_idx :: int
  dnum_items :: int

definition EINDEX :: int where "EINDEX = - 10001"

subsection \<open>The macros\<close>

definition count_item :: "nodes \<times> dlist \<Rightarrow> nodes \<times> dlist" where
  "count_item s = (fst s, (snd s)\<lparr>dnum_items := dnum_items (snd s) + 1\<rparr>)"

definition DListAppend :: "nat \<Rightarrow> nodes \<times> dlist \<Rightarrow> (nodes \<times> dlist) option" where
  "DListAppend node s =
     (case s of (h, l) \<Rightarrow>
      do { (h, l) \<leftarrow>
             (if dhead l = None
              then do { h \<leftarrow> wr_prev h (Some node) None;
                        Some (h, l\<lparr>dhead := Some node, dtail := Some node, dcurrent := Some node, dcur_idx := 0\<rparr>) }
              else do { h \<leftarrow> wr_next h (dtail l) (Some node);
                        h \<leftarrow> wr_prev h (Some node) (dtail l);
                        Some (h, l\<lparr>dtail := Some node\<rparr>) });
           h \<leftarrow> wr_next h (Some node) None;
           Some (count_item (h, l)) })"

definition DListPush :: "nat \<Rightarrow> nodes \<times> dlist \<Rightarrow> (nodes \<times> dlist) option" where
  "DListPush node s =
     (case s of (h, l) \<Rightarrow>
      map_option count_item
       (if dhead l = None
        then do { h \<leftarrow> wr_prev h (Some node) None;
                  h \<leftarrow> wr_next h (Some node) None;
                  Some (h, l\<lparr>dhead := Some node, dtail := Some node, dcurrent := Some node\<rparr>) }
        else do { h \<leftarrow> wr_prev h (dhead l) (Some node);
                  h \<leftarrow> wr_next h (Some node) (dhead l);
                  h \<leftarrow> wr_prev h (dcurrent l) (Some node);
                  Some (h, l\<lparr>dhead := Some node, dcurrent := Some node\<rparr>) }))"

definition DListPopTail :: "nodes \<times> dlist \<Rightarrow> (nat option \<times> nodes \<times> dlist) option" where
  "DListPopTail s =
     (case s of (h, l) \<Rightarrow>
      do { (node, h, l) \<leftarrow>
             (if dtail l = None then Some (None, h, l)
              else if dnum_items l = 1 then Some (dtail l, h, l\<lparr>dhead := None, dtail := None, dcurrent := None\<rparr>)
              else do { prev \<leftarrow> rd_prev h (dtail l);
                        h \<leftarrow> wr_next h prev None;
                        prev \<leftarrow> rd_prev h (dtail l);
                        Some (dtail l, h, l\<lparr>dtail := prev\<rparr>) });
           Some (node, h, if dnum_items l \<noteq> 0 then l\<lparr>dnum_items := dnum_items l - 1\<rparr> else l) })"

definition DListPopCurrent :: "nodes \<times> dlist \<Rightarrow> (nat option \<times> nodes \<times> dlist) option" where
  "DListPopCurrent s =
     (case s of (h, l) \<Rightarrow>
      if dcurrent l = None then Some (None, h, l)
      else do {
        let node = dcurrent l;
        (h, l) \<leftarrow>
          (if dnum_items l = 1 then Some (h, l\<lparr>dhead := None, dtail := None, dcurrent := None\<rparr>)
           else if dcur_idx l = 0
           then do { c \<leftarrow> rd_next h node;
                     h \<leftarrow> wr_prev h c None;
                     Some (h, l\<lparr>dcurrent := c, dhead := c\<rparr>) }
           else if dcur_idx l = dnum_items l - 1
           then do { c \<leftarrow> rd_prev h node;
                     h \<leftarrow> wr_next h c None;
                     Some (h, l\<lparr>dcurrent := c, dcur_idx := dcur_idx l - 1, dtail := c\<rparr>) }
           else do { n \<leftarrow> rd_next h node;
                     p \<leftarrow> rd_prev h node;
                     h \<leftarrow> wr_prev h n p;
                     p \<leftarrow> rd_prev h node;
                     n \<leftarrow> rd_next h node;
                     h \<leftarrow> wr_next h p n;
                     n \<leftarrow> rd_next h node;
                     Some (h, l\<lparr>dcurrent := n\<rparr>) });
        Some (node, h, l\<lparr>dnum_items := dnum_items l - 1\<rparr>) })"

text \<open>Steps along one of the pointers.\<close>

primrec walk :: "nat \<Rightarrow> (dnode \<Rightarrow> nat option) \<Rightarrow> nodes \<Rightarrow> nat option \<Rightarrow> nat option option" where
  "walk 0 dir h p = Some p"
| "walk (Suc n) dir h p = do { a \<leftarrow> p; nd \<leftarrow> h a; walk n dir h (dir nd) }"

definition list_index :: "int \<Rightarrow> dlist \<Rightarrow> int" where
  "list_index idx l = (if idx < 0 then idx + dnum_items l else idx)"

definition DListSetCurrent :: "int \<Rightarrow> nodes \<times> dlist \<Rightarrow> (int \<times> nodes \<times> dlist) option" where
  "DListSetCurrent idx s =
     (case s of (h, l) \<Rightarrow>
      let idx = list_index idx l in
      if idx < 0 \<or> idx \<ge> dnum_items l then Some (EINDEX, h, l)
      else if idx = dcur_idx l then Some (idx, h, l)
      else do {
        c \<leftarrow> (if dcur_idx l < idx then walk (nat (idx - dcur_idx l)) dnext h (dcurrent l)
             else walk (nat (dcur_idx l - idx)) dprev h (dcurrent l));
        Some (idx, h, l\<lparr>dcur_idx := idx, dcurrent := c\<rparr>) })"

definition DListPopAt :: "int \<Rightarrow> nodes \<times> dlist \<Rightarrow> (nat option \<times> nodes \<times> dlist) option" where
  "DListPopAt idx s =
     do { let cur_idx = dcur_idx (snd s);
          (i, s) \<leftarrow> DListSetCurrent idx s;
          (if i = EINDEX then Some (None, s)
           else do { (cnode, s) \<leftarrow> DListPopCurrent s;
                     (if cur_idx = i then Some (cnode, s)
                      else do { (_, s) \<leftarrow> DListSetCurrent (if cur_idx > i then cur_idx - 1 else cur_idx) s;
                                Some (cnode, s) }) }) }"

definition DListGetAt :: "int \<Rightarrow> nodes \<times> dlist \<Rightarrow> nat option option" where
  "DListGetAt idx s =
     (case s of (h, l) \<Rightarrow>
      let idx = list_index idx l in
      if idx < 0 \<or> idx \<ge> dnum_items l then Some None
      else if dnum_items l div 2 < idx then walk (nat idx) dnext h (dhead l)
      else walk (nat (dnum_items l - 1 - idx)) dprev h (dtail l))"

text \<open>The search ends at the node or at the last one; in a list that is not well formed it may not end.\<close>

partial_function (option) find_node :: "nodes \<Rightarrow> nat option \<Rightarrow> nat option \<Rightarrow> nat option \<Rightarrow> int \<Rightarrow> int option" where
  "find_node h final node p idx =
     (if p = node \<or> p = final then Some idx
      else Option.bind (rd_next h p) (\<lambda>n. find_node h final node n (idx + 1)))"

definition DListGetIdx :: "nat option \<Rightarrow> nodes \<times> dlist \<Rightarrow> int option" where
  "DListGetIdx node s =
     (case s of (h, l) \<Rightarrow>
      if dnum_items l \<noteq> 0 \<and> dhead l \<noteq> None then find_node h (dtail l) node (dhead l) 0 else Some EINDEX)"

definition DListPrependCurrent :: "nat \<Rightarrow> nodes \<times> dlist \<Rightarrow> (nodes \<times> dlist) option" where
  "DListPrependCurrent node s =
     (case s of (h, l) \<Rightarrow>
      map_option count_item
       (if dcurrent l = None
        then Some (h, l\<lparr>dhead := Some node, dtail := Some node, dcur_idx := 0, dcurrent := Some node\<rparr>)
        else if dcur_idx l = 0
        then do { h \<leftarrow> wr_prev h (dhead l) (Some node);
                  h \<leftarrow> wr_next h (Some node) (dhead l);
                  Some (h, l\<lparr>dhead := Some node, dcurrent := Some node\<rparr>) }
        else do { p \<leftarrow> rd_prev h (dcurrent l);
                  h \<leftarrow> wr_next h p (Some node);
                  n \<leftarrow> rd_next h p;
                  h \<leftarrow> wr_next h n (dcurrent l);
                  h \<leftarrow> wr_prev h n p;
                  h \<leftarrow> wr_prev h (dcurrent l) n;
                  c \<leftarrow> rd_prev h (dcurrent l);
                  Some (h, l\<lparr>dcurrent := c\<rparr>) }))"

definition DListAppendCurrent :: "nat \<Rightarrow> nodes \<times> dlist \<Rightarrow> (nodes \<times> dlist) option" where
  "DListAppendCurrent node s =
     (case s of (h, l) \<Rightarrow>
      map_option count_item
       (if dcurrent l = None
        then Some (h, l\<lparr>dhead := Some node, dtail := Some node, dcur_idx := 0, dcurrent := Some node\<rparr>)
        else if dcur_idx l = dnum_items l - 1
        then do { h \<leftarrow> wr_next h (dcurrent l) (Some node);
                  h \<leftarrow> wr_prev h (Some node) (dcurrent l);
                  h \<leftarrow> wr_next h (Some node) None;
                  Some (h, l\<lparr>dcurrent := Some node, dcur_idx := dcur_idx l + 1, dtail := Some node\<rparr>) }
        else do { n \<leftarrow> rd_next h (dcurrent l);
                  h \<leftarrow> wr_next h (Some node) n;
                  h \<leftarrow> wr_next h (dcurrent l) (Some node);
                  h \<leftarrow> wr_prev h (Some node) (dcurrent l);
                  n \<leftarrow> rd_next h (Some node);
                  h \<leftarrow> wr_prev h n (Some node);
                  Some (h, l\<lparr>dcurrent := Some node, dcur_idx := dcur_idx l + 1\<rparr>) }))"

definition DListInsertAt :: "nat \<Rightarrow> int \<Rightarrow> nodes \<times> dlist \<Rightarrow> (int \<times> nodes \<times> dlist) option" where
  "DListInsertAt node idx s =
     (let idx = list_index idx (snd s) in
      if idx < 0 \<or> idx \<ge> dnum_items (snd s) then Some (EINDEX, s)
      else do { let cur_idx = dcur_idx (snd s);
                (_, s) \<leftarrow> DListSetCurrent idx s;
                s \<leftarrow> DListAppendCurrent node s;
                (_, s) \<leftarrow> DListSetCurrent (cur_idx + (if cur_idx > idx then 1 else 0)) s;
                Some (idx, s) })"

text \<open>Stacks, linked by \<open>next\<close> only.\<close>

definition ListStackPush :: "nat \<Rightarrow> nodes \<times> nat option \<Rightarrow> (nodes \<times> nat option) option" where
  "ListStackPush node s =
     (case s of (h, front) \<Rightarrow> map_option (\<lambda>h. (h, Some node)) (wr_next h (Some node) (if front = None then None else front)))"

definition ListStackPop :: "nodes \<times> nat option \<Rightarrow> (nat option \<times> nodes \<times> nat option) option" where
  "ListStackPop s =
     (case s of (h, front) \<Rightarrow> if front = None then Some (None, h, front) else map_option (\<lambda>n. (front, h, n)) (rd_next h front))"

partial_function (option) last_node :: "nodes \<Rightarrow> nat option \<Rightarrow> nat option \<Rightarrow> (nat option \<times> nat option) option" where
  "last_node h before p =
     Option.bind (rd_next h p) (\<lambda>n. if n = None then Some (before, p) else last_node h p n)"

definition ListStackPopTail :: "nodes \<times> nat option \<Rightarrow> (nat option \<times> nodes \<times> nat option) option" where
  "ListStackPopTail s =
     (case s of (h, front) \<Rightarrow>
      do { (before, node) \<leftarrow> last_node h None front;
           h \<leftarrow> (if before = None then Some h else wr_next h before None);
           Some (node, h, front) })"

definition ListStackAppend :: "nat \<Rightarrow> nodes \<times> nat option \<Rightarrow> (nodes \<times> nat option) option" where
  "ListStackAppend node s =
     (case s of (h, front) \<Rightarrow>
      do { (_, item) \<leftarrow> last_node h None (Some node);
           h \<leftarrow> wr_next h item None;
           (if front = None then Some (h, Some node)
            else do { (_, item) \<leftarrow> last_node h None front; h \<leftarrow> wr_next h item (Some node); Some (h, front) }) })"

subsection \<open>What a list holds\<close>

definition firstp :: "nat list \<Rightarrow> nat option \<Rightarrow> nat option" where
  "firstp xs n = (case xs of [] \<Rightarrow> n | x # _ \<Rightarrow> Some x)"

definition lastp :: "nat list \<Rightarrow> nat option \<Rightarrow> nat option" where
  "lastp xs p = (if xs = [] then p else Some (last xs))"

lemma firstp_simps [simp]: "firstp [] n = n" "firstp (x # xs) n = Some x" "firstp (xs @ ys) n = firstp xs (firstp ys n)"
  by (simp_all add: firstp_def split: list.split)

lemma lastp_simps [simp]: "lastp [] p = p" "lastp (x # xs) p = lastp xs (Some x)" "lastp (xs @ ys) p = lastp ys (lastp xs p)"
  by (simp_all add: lastp_def)

lemma firstp_ne: "ns \<noteq> [] \<Longrightarrow> firstp ns n = Some (ns ! 0)"
  by (cases ns) auto

lemma lastp_ne: "ns \<noteq> [] \<Longrightarrow> lastp ns p = Some (last ns)"
  by (simp add: lastp_def)

lemma firstp_Some: "\<exists>y. firstp ns (Some z) = Some y"
  by (cases ns) auto

primrec dseg :: "nodes \<Rightarrow> nat option \<Rightarrow> nat list \<Rightarrow> nat option \<Rightarrow> bool" where
  "dseg h p [] n \<longleftrightarrow> True"
| "dseg h p (x # xs) n \<longleftrightarrow> h x = Some \<lparr>dprev = p, dnext = firstp xs n\<rparr> \<and> dseg h (Some x) xs n"

lemma dseg_append [simp]: "dseg h p (xs @ ys) n \<longleftrightarrow> dseg h p xs (firstp ys n) \<and> dseg h (lastp xs p) ys n"
  by (induction xs arbitrary: p) auto

lemma dseg_frame [simp]: "a \<notin> set xs \<Longrightarrow> dseg (h(a := v)) p xs n = dseg h p xs n"
  by (induction xs arbitrary: p) auto

text \<open>A list with its nodes, the nodes in order and the index of the current one.\<close>

type_synonym 'a cursor = "'a list \<times> int"

definition cursor_wf :: "'a cursor \<Rightarrow> bool" where
  "cursor_wf c \<longleftrightarrow> fst c \<noteq> [] \<longrightarrow> 0 \<le> snd c \<and> snd c < int (length (fst c))"

definition holds :: "nodes \<times> dlist \<Rightarrow> nat cursor \<Rightarrow> bool" where
  "holds s c \<longleftrightarrow> (case s of (h, l) \<Rightarrow> case c of (ns, i) \<Rightarrow>
     distinct ns \<and> dseg h None ns None \<and> dhead l = firstp ns None \<and> dtail l = lastp ns None \<and>
     dnum_items l = int (length ns) \<and> dcur_idx l = i \<and> cursor_wf c \<and>
     dcurrent l = (if ns = [] then None else Some (ns ! nat i)))"

text \<open>Where a list is cut at the current node.\<close>

lemma holds_empty: "holds (h, l) ([], i) \<longleftrightarrow> dhead l = None \<and> dtail l = None \<and> dnum_items l = 0 \<and> dcur_idx l = i \<and> dcurrent l = None"
  by (auto simp: holds_def cursor_wf_def)

lemma holds_cut:
  "holds (h, l) (xs @ c # ys, i) \<and> i = int (length xs) \<longleftrightarrow>
     distinct (xs @ c # ys) \<and> dseg h None xs (Some c) \<and> h c = Some \<lparr>dprev = lastp xs None, dnext = firstp ys None\<rparr> \<and> dseg h (Some c) ys None \<and>
     dhead l = firstp xs (Some c) \<and> dtail l = lastp ys (Some c) \<and> dnum_items l = int (length xs + length ys) + 1 \<and> dcur_idx l = i \<and>
     i = int (length xs) \<and> dcurrent l = Some c"
  by (auto simp: holds_def cursor_wf_def)

lemma cut:
  assumes "holds s c" "fst c \<noteq> []"
  obtains xs b ys where "c = (xs @ b # ys, int (length xs))"
proof -
  obtain ns i where c: "c = (ns, i)" by (cases c)
  then have "0 \<le> i" "nat i < length ns" using assms by (auto simp: holds_def cursor_wf_def)
  then have "ns = take (nat i) ns @ ns ! nat i # drop (Suc (nat i)) ns" "i = int (length (take (nat i) ns))"
    by (simp_all add: id_take_nth_drop)
  then show thesis using that c by blast
qed

subsection \<open>The same on a sequence with a cursor\<close>

definition append_current :: "'a \<Rightarrow> 'a cursor \<Rightarrow> 'a cursor" where
  "append_current a c =
     (case c of (xs, i) \<Rightarrow> if xs = [] then ([a], 0) else (take (nat i + 1) xs @ a # drop (nat i + 1) xs, i + 1))"

definition prepend_current :: "'a \<Rightarrow> 'a cursor \<Rightarrow> 'a cursor" where
  "prepend_current a c = (case c of (xs, i) \<Rightarrow> if xs = [] then ([a], 0) else (take (nat i) xs @ a # drop (nat i) xs, i))"

definition pop_current :: "'a cursor \<Rightarrow> 'a option \<times> 'a cursor" where
  "pop_current c =
     (case c of (xs, i) \<Rightarrow>
      if xs = [] then (None, xs, i)
      else (Some (xs ! nat i), take (nat i) xs @ drop (nat i + 1) xs, if i \<noteq> 0 \<and> i = int (length xs) - 1 then i - 1 else i))"

definition index_of :: "int \<Rightarrow> 'a cursor \<Rightarrow> int" where
  "index_of idx c = (if idx < 0 then idx + int (length (fst c)) else idx)"

definition set_current :: "int \<Rightarrow> 'a cursor \<Rightarrow> int \<times> 'a cursor" where
  "set_current idx c =
     (let i = index_of idx c in if 0 \<le> i \<and> i < int (length (fst c)) then (i, fst c, i) else (EINDEX, c))"

definition pop_tail :: "'a cursor \<Rightarrow> 'a option \<times> 'a cursor" where
  "pop_tail c = (case c of (xs, i) \<Rightarrow> if xs = [] then (None, xs, i) else (Some (last xs), butlast xs, i))"

definition append_item :: "'a \<Rightarrow> 'a cursor \<Rightarrow> 'a cursor" where
  "append_item a c = (case c of (xs, i) \<Rightarrow> (xs @ [a], if xs = [] then 0 else i))"

lemma cut_ops:
  "append_current a (xs @ c # ys, int (length xs)) = (xs @ c # a # ys, int (length xs) + 1)"
  "prepend_current a (xs @ c # ys, int (length xs)) = (xs @ a # c # ys, int (length xs))"
  "pop_current (xs @ c # ys, int (length xs)) = (Some c, xs @ ys, if xs \<noteq> [] \<and> ys = [] then int (length xs) - 1 else int (length xs))"
  by (auto simp: append_current_def prepend_current_def pop_current_def nat_add_distrib)

subsection \<open>The macros do that\<close>

text \<open>Every node but those of the list and the new one is left alone, so that several lists live in one store.\<close>

definition agree_off :: "nat set \<Rightarrow> nodes \<Rightarrow> nodes \<Rightarrow> bool" where
  "agree_off A h h' \<longleftrightarrow> (\<forall>x. x \<notin> A \<longrightarrow> h' x = h x)"

lemmas macro_simps = rd_prev_def rd_next_def wr_prev_def wr_next_def count_item_def blank_def agree_off_def

lemma append_current_holds:
  assumes "holds (h, l) c" "h a = Some blank" "a \<notin> set (fst c)"
  shows "\<exists>h' l'. DListAppendCurrent a (h, l) = Some (h', l') \<and> holds (h', l') (append_current a c) \<and>
    agree_off (insert a (set (fst c))) h h'"
proof (cases "fst c = []")
  case True
  then show ?thesis
    using assms by (cases c) (auto simp: holds_empty DListAppendCurrent_def append_current_def holds_def cursor_wf_def macro_simps)
next
  case False
  then obtain xs b ys where c: "c = (xs @ b # ys, int (length xs))" using assms(1) by (blast elim: cut)
  note l = assms(1)[unfolded c, THEN conjI[OF _ refl], unfolded holds_cut]
  show ?thesis
  proof (cases ys)
    case Nil
    then show ?thesis using l assms(2,3) unfolding c cut_ops
      by (auto simp: DListAppendCurrent_def macro_simps holds_def cursor_wf_def nth_append)
  next
    case (Cons y zs)
    then show ?thesis using l assms(2,3) unfolding c cut_ops
      by (auto simp: DListAppendCurrent_def macro_simps holds_def cursor_wf_def nth_append)
  qed
qed

lemma prepend_current_holds:
  assumes "holds (h, l) c" "h a = Some blank" "a \<notin> set (fst c)"
  shows "\<exists>h' l'. DListPrependCurrent a (h, l) = Some (h', l') \<and> holds (h', l') (prepend_current a c) \<and>
    agree_off (insert a (set (fst c))) h h'"
proof (cases "fst c = []")
  case True
  then show ?thesis
    using assms by (cases c) (auto simp: holds_empty DListPrependCurrent_def prepend_current_def holds_def cursor_wf_def macro_simps)
next
  case False
  then obtain xs b ys where c: "c = (xs @ b # ys, int (length xs))" using assms(1) by (blast elim: cut)
  note l = assms(1)[unfolded c, THEN conjI[OF _ refl], unfolded holds_cut]
  show ?thesis
  proof (cases xs rule: rev_cases)
    case Nil
    then show ?thesis using l assms(2,3) unfolding c cut_ops
      by (auto simp: DListPrependCurrent_def macro_simps holds_def cursor_wf_def nth_append)
  next
    case (snoc zs z)
    then show ?thesis using l assms(2,3) unfolding c cut_ops
      by (auto simp: DListPrependCurrent_def macro_simps holds_def cursor_wf_def nth_append)
  qed
qed

lemma pop_current_holds:
  assumes "holds (h, l) c"
  shows "\<exists>h' l'. DListPopCurrent (h, l) = Some (fst (pop_current c), h', l') \<and>
    holds (h', l') (snd (pop_current c)) \<and> agree_off (set (fst c)) h h'"
proof (cases "fst c = []")
  case True
  then show ?thesis
    using assms by (cases c) (auto simp: holds_empty DListPopCurrent_def pop_current_def agree_off_def)
next
  case False
  then obtain xs b ys where c: "c = (xs @ b # ys, int (length xs))" using assms(1) by (blast elim: cut)
  note l = assms(1)[unfolded c, THEN conjI[OF _ refl], unfolded holds_cut]
  consider "xs = []" "ys = []" | y zs where "xs = []" "ys = y # zs" | x zs where "xs = zs @ [x]" "ys = []" | x zs y us where "xs = zs @ [x]" "ys = y # us"
    by (metis list.exhaust rev_exhaust)
  then show ?thesis
  proof cases
    case 1 then show ?thesis using l unfolding c cut_ops
      by (auto simp: DListPopCurrent_def macro_simps holds_def cursor_wf_def nth_append)
  next
    case 2 then show ?thesis using l unfolding c cut_ops
      by (auto simp: DListPopCurrent_def macro_simps holds_def cursor_wf_def nth_append)
  next
    case 3 then show ?thesis using l unfolding c cut_ops
      by (auto simp: DListPopCurrent_def macro_simps holds_def cursor_wf_def nth_append)
  next
    case 4 then show ?thesis using l unfolding c cut_ops
      by (auto simp: DListPopCurrent_def macro_simps holds_def cursor_wf_def nth_append)
  qed
qed

text \<open>The last node can only be taken when it is not the current one: \<open>current\<close> and \<open>cur_idx\<close> stay as they are.\<close>

lemma pop_tail_holds:
  assumes "holds (h, l) c" "snd c \<noteq> int (length (fst c)) - 1 \<or> length (fst c) = 1"
  shows "\<exists>h' l'. DListPopTail (h, l) = Some (fst (pop_tail c), h', l') \<and> holds (h', l') (snd (pop_tail c)) \<and> agree_off (set (fst c)) h h'"
proof (cases "length (fst c) \<le> 1")
  case True
  then consider "fst c = []" | a where "fst c = [a]" by (cases "fst c") auto
  then show ?thesis using assms by cases (cases c, auto simp: holds_def cursor_wf_def DListPopTail_def pop_tail_def agree_off_def)+
next
  case False
  then obtain xs b ys where c: "c = (xs @ b # ys, int (length xs))" using assms(1) by (fastforce elim: cut)
  note l = assms(1)[unfolded c, THEN conjI[OF _ refl], unfolded holds_cut]
  obtain zs z where ys: "ys = zs @ [z]" using assms(2) False c by (cases ys rule: rev_cases) auto
  show ?thesis
  proof (cases zs rule: rev_cases)
    case Nil
    then show ?thesis using l unfolding c ys
      by (auto simp: DListPopTail_def pop_tail_def macro_simps holds_def cursor_wf_def nth_append butlast_append)
  next
    case (snoc us u)
    then show ?thesis using l unfolding c ys
      by (auto simp: DListPopTail_def pop_tail_def macro_simps holds_def cursor_wf_def nth_append butlast_append)
  qed
qed

lemma append_holds:
  assumes "holds (h, l) c" "h a = Some blank" "a \<notin> set (fst c)"
  shows "\<exists>h' l'. DListAppend a (h, l) = Some (h', l') \<and> holds (h', l') (append_item a c) \<and> agree_off (insert a (set (fst c))) h h'"
proof (cases "fst c" rule: rev_cases)
  case Nil
  then show ?thesis
    using assms by (cases c) (auto simp: DListAppend_def append_item_def holds_def cursor_wf_def macro_simps)
next
  case (snoc zs z)
  then obtain i where c: "c = (zs @ [z], i)" by (cases c) auto
  then show ?thesis using assms
    by (auto simp: DListAppend_def append_item_def holds_def cursor_wf_def macro_simps nth_append firstp_Some)
qed

text \<open>The node at an index.\<close>

lemma dseg_nth:
  assumes "dseg h None ns None" "i < length ns"
  shows "h (ns ! i) = Some \<lparr>dprev = (if i = 0 then None else Some (ns ! (i - 1))), dnext = (if Suc i < length ns then Some (ns ! Suc i) else None)\<rparr>"
proof -
  let ?xs = "take i ns" and ?ys = "drop (Suc i) ns"
  have "dseg h None (?xs @ ns ! i # ?ys) None" using assms by (simp add: Cons_nth_drop_Suc)
  then have "h (ns ! i) = Some \<lparr>dprev = lastp ?xs None, dnext = firstp ?ys None\<rparr>" by simp
  moreover have "lastp ?xs None = (if i = 0 then None else Some (ns ! (i - 1)))"
    using assms(2) by (auto simp: lastp_def last_conv_nth min_def)
  moreover have "firstp ?ys None = (if Suc i < length ns then Some (ns ! Suc i) else None)"
    by (simp add: firstp_def Cons_nth_drop_Suc[symmetric] split: list.split)
  ultimately show ?thesis by simp
qed

lemma walk_next:
  "dseg h None ns None \<Longrightarrow> i + n < length ns \<Longrightarrow> walk n dnext h (Some (ns ! i)) = Some (Some (ns ! (i + n)))"
proof (induction n arbitrary: i)
  case (Suc n)
  then show ?case using Suc.IH[of "Suc i"] by (simp add: dseg_nth)
qed simp

lemma walk_prev:
  "dseg h None ns None \<Longrightarrow> n \<le> i \<Longrightarrow> i < length ns \<Longrightarrow> walk n dprev h (Some (ns ! i)) = Some (Some (ns ! (i - n)))"
proof (induction n arbitrary: i)
  case (Suc n)
  then show ?case using Suc.IH[of "i - 1"] by (simp add: dseg_nth)
qed simp

lemma set_current_holds:
  assumes "holds (h, l) c"
  shows "\<exists>l'. DListSetCurrent idx (h, l) = Some (fst (set_current idx c), h, l') \<and> holds (h, l') (snd (set_current idx c))"
proof -
  obtain ns i where c: "c = (ns, i)" by (cases c)
  define k where "k = index_of idx (ns, i)"
  have k: "list_index idx l = k" using assms c by (simp add: list_index_def index_of_def holds_def k_def)
  note inv = assms[unfolded c holds_def]
  show ?thesis
  proof (cases "0 \<le> k \<and> k < int (length ns)")
    case True
    then have ns: "ns \<noteq> []" by auto
    then have i: "0 \<le> i" "i < int (length ns)" using inv by (auto simp: cursor_wf_def)
    have walk: "(if i < k then walk (nat (k - i)) dnext h (dcurrent l) else walk (nat (i - k)) dprev h (dcurrent l)) = Some (Some (ns ! nat k))"
    proof (cases "i < k")
      case True
      then have "nat i + nat (k - i) = nat k" using i by simp
      then show ?thesis using True inv ns i walk_next[of h ns "nat i" "nat (k - i)"] \<open>0 \<le> k \<and> k < int (length ns)\<close> by simp
    next
      case False
      then have "nat i - nat (i - k) = nat k" using i \<open>0 \<le> k \<and> k < int (length ns)\<close> by simp
      then show ?thesis using False inv ns i walk_prev[of h ns "nat (i - k)" "nat i"] \<open>0 \<le> k \<and> k < int (length ns)\<close> by simp
    qed
    show ?thesis
    proof (cases "k = i")
      case True
      then show ?thesis using assms inv \<open>0 \<le> k \<and> k < int (length ns)\<close>
        by (auto simp: DListSetCurrent_def set_current_def k Let_def k_def[symmetric] c)
    next
      case False
      have "DListSetCurrent idx (h, l) = Some (k, h, l\<lparr>dcur_idx := k, dcurrent := Some (ns ! nat k)\<rparr>)"
        using True False inv walk ns by (cases "i < k") (simp_all add: DListSetCurrent_def k Let_def)
      moreover have "holds (h, l\<lparr>dcur_idx := k, dcurrent := Some (ns ! nat k)\<rparr>) (ns, k)"
        using inv True ns by (simp add: holds_def cursor_wf_def)
      ultimately show ?thesis using True by (simp add: set_current_def k_def[symmetric] c Let_def)
    qed
  next
    case False
    then show ?thesis using assms inv by (auto simp: DListSetCurrent_def set_current_def k Let_def k_def[symmetric] c)
  qed
qed

lemma get_at_holds:
  assumes "holds (h, l) c" "0 \<le> index_of idx c" "index_of idx c < int (length (fst c))"
  shows "DListGetAt idx (h, l) = Some (Some (fst c ! nat (index_of idx c)))"
proof -
  obtain ns i where c: "c = (ns, i)" by (cases c)
  note inv = assms(1)[unfolded c holds_def]
  define k where "k = index_of idx (ns, i)"
  have k: "list_index idx l = k" using inv c by (simp add: list_index_def index_of_def k_def)
  have r: "0 \<le> k" "k < int (length ns)" using assms c by (simp_all add: k_def)
  then have ns: "ns \<noteq> []" by auto
  have fst: "firstp ns None = Some (ns ! 0)" using ns by (cases ns) auto
  have lst: "lastp ns None = Some (ns ! (length ns - 1))" using ns by (simp add: lastp_def last_conv_nth)
  have "length ns - 1 - nat (int (length ns) - 1 - k) = nat k" using r by simp
  then show ?thesis
    using inv r ns fst lst walk_next[of h ns 0 "nat k"] walk_prev[of h ns "nat (int (length ns) - 1 - k)" "length ns - 1"]
    unfolding DListGetAt_def by (simp add: k Let_def c k_def[symmetric] nat_less_iff del: walk.simps)
qed

text \<open>The index of a node; of a node that is not in the list it is the index of the last one.\<close>

lemma find_node_run:
  assumes "dseg h None ns None" "ns \<noteq> []" "k \<le> j" "j < length ns" "distinct ns" "j = (if a \<in> set ns then j else length ns - 1)"
    "a \<in> set ns \<Longrightarrow> ns ! j = a"
  shows "find_node h (Some (last ns)) (Some a) (Some (ns ! k)) (int k) = Some (int j)"
  using assms(3)
proof (induction "j - k" arbitrary: k)
  case 0
  then have "k = j" by simp
  moreover have "ns ! j = a \<or> ns ! j = last ns" using assms by (auto simp: last_conv_nth split: if_splits)
  ultimately show ?case by (subst find_node.simps) auto
next
  case (Suc m)
  then have kj: "k < j" by simp
  have "ns ! k \<noteq> last ns" using kj assms(2,4,5) by (simp add: last_conv_nth nth_eq_iff_index_eq)
  moreover have "ns ! k \<noteq> a" using kj assms(4-7) by (metis nth_eq_iff_index_eq nth_mem order.strict_trans less_irrefl)
  moreover have "rd_next h (Some (ns ! k)) = Some (Some (ns ! Suc k))" using kj assms(1,4) by (simp add: rd_next_def dseg_nth)
  moreover have "find_node h (Some (last ns)) (Some a) (Some (ns ! Suc k)) (int (Suc k)) = Some (int j)"
    using Suc kj by (intro Suc.hyps(1)) auto
  ultimately show ?case by (subst find_node.simps) (simp add: add.commute)
qed

lemma get_idx_holds:
  assumes "holds (h, l) (ns, i)" "j < length ns"
  shows "DListGetIdx (Some (ns ! j)) (h, l) = Some (int j)"
proof -
  have ns: "ns \<noteq> []" using assms(2) by auto
  then have "firstp ns None = Some (ns ! 0)" "lastp ns None = Some (last ns)" by (simp_all add: firstp_ne lastp_ne)
  then show ?thesis
    using assms ns find_node_run[of h ns 0 j "ns ! j"] by (simp add: DListGetIdx_def holds_def)
qed

lemma get_idx_absent:
  assumes "holds (h, l) (ns, i)" "ns \<noteq> []" "a \<notin> set ns"
  shows "DListGetIdx (Some a) (h, l) = Some (int (length ns - 1))"
proof -
  have "firstp ns None = Some (ns ! 0)" "lastp ns None = Some (last ns)" using assms(2) by (simp_all add: firstp_ne lastp_ne)
  moreover have "0 < length ns" using assms(2) by simp
  ultimately show ?thesis
    using assms find_node_run[of h ns 0 "length ns - 1" a] by (simp add: DListGetIdx_def holds_def of_nat_diff)
qed

subsection \<open>Removing and inserting at an index\<close>

definition pop_at :: "int \<Rightarrow> 'a cursor \<Rightarrow> 'a option \<times> 'a cursor" where
  "pop_at idx c =
     (let (i, d) = set_current idx c in
      if i = EINDEX then (None, d)
      else let (x, d) = pop_current d in
        if snd c = i then (x, d) else (x, snd (set_current (if snd c > i then snd c - 1 else snd c) d)))"

definition insert_at :: "'a \<Rightarrow> int \<Rightarrow> 'a cursor \<Rightarrow> int \<times> 'a cursor" where
  "insert_at a idx c =
     (let i = index_of idx c in
      if i < 0 \<or> i \<ge> int (length (fst c)) then (EINDEX, c)
      else (i, snd (set_current (snd c + (if snd c > i then 1 else 0)) (append_current a (snd (set_current idx c))))))"

lemma pop_at_holds:
  assumes "holds (h, l) c"
  shows "\<exists>h' l'. DListPopAt idx (h, l) = Some (fst (pop_at idx c), h', l') \<and> holds (h', l') (snd (pop_at idx c)) \<and> agree_off (set (fst c)) h h'"
proof -
  obtain i d where d: "set_current idx c = (i, d)" by (cases "set_current idx c")
  obtain l1 where l1: "DListSetCurrent idx (h, l) = Some (i, h, l1)" "holds (h, l1) d" using set_current_holds[OF assms, of idx] d by auto
  have same: "fst d = fst c" using d by (auto simp: set_current_def Let_def split: if_splits)
  have cur: "dcur_idx l = snd c" using assms by (cases c) (simp add: holds_def)
  show ?thesis
  proof (cases "i = EINDEX")
    case True
    then show ?thesis using l1 by (auto simp: DListPopAt_def pop_at_def d agree_off_def)
  next
    case False
    obtain x e where e: "pop_current d = (x, e)" by (cases "pop_current d")
    obtain h2 l2 where l2: "DListPopCurrent (h, l1) = Some (x, h2, l2)" "holds (h2, l2) e" "agree_off (set (fst c)) h h2"
      using pop_current_holds[OF l1(2)] e same by auto
    obtain l3 where "DListSetCurrent (if snd c > i then snd c - 1 else snd c) (h2, l2) =
        Some (fst (set_current (if snd c > i then snd c - 1 else snd c) e), h2, l3)"
      "holds (h2, l3) (snd (set_current (if snd c > i then snd c - 1 else snd c) e))"
      using set_current_holds[OF l2(2)] by blast
    then show ?thesis using False l1 l2 cur by (auto simp: DListPopAt_def pop_at_def d e)
  qed
qed

lemma insert_at_holds:
  assumes "holds (h, l) c" "h a = Some blank" "a \<notin> set (fst c)"
  shows "\<exists>h' l'. DListInsertAt a idx (h, l) = Some (fst (insert_at a idx c), h', l') \<and> holds (h', l') (snd (insert_at a idx c)) \<and>
    agree_off (insert a (set (fst c))) h h'"
proof -
  have k: "list_index idx l = index_of idx c" "dnum_items l = int (length (fst c))" "dcur_idx l = snd c"
    using assms(1) by (cases c, simp add: holds_def list_index_def index_of_def)+
  obtain l1 where l1: "DListSetCurrent (index_of idx c) (h, l) = Some (fst (set_current (index_of idx c) c), h, l1)"
    "holds (h, l1) (snd (set_current (index_of idx c) c))"
    using set_current_holds[OF assms(1)] by blast
  show ?thesis
  proof (cases "index_of idx c < 0 \<or> index_of idx c \<ge> int (length (fst c))")
    case True
    then show ?thesis using assms(1) k by (auto simp: DListInsertAt_def insert_at_def Let_def agree_off_def)
  next
    case False
    then have same: "set_current (index_of idx c) c = set_current idx c" "fst (snd (set_current idx c)) = fst c"
      by (auto simp: set_current_def index_of_def Let_def)
    then obtain h2 l2 where l2: "DListAppendCurrent a (h, l1) = Some (h2, l2)" "holds (h2, l2) (append_current a (snd (set_current idx c)))"
      "agree_off (insert a (set (fst c))) h h2"
      using append_current_holds[OF l1(2) assms(2)] assms(3) by auto
    obtain l3 where "DListSetCurrent (snd c + (if snd c > index_of idx c then 1 else 0)) (h2, l2) =
        Some (fst (set_current (snd c + (if snd c > index_of idx c then 1 else 0)) (append_current a (snd (set_current idx c)))), h2, l3)"
      "holds (h2, l3) (snd (set_current (snd c + (if snd c > index_of idx c then 1 else 0)) (append_current a (snd (set_current idx c)))))"
      using set_current_holds[OF l2(2)] by blast
    then show ?thesis using False l1 l2 k by (auto simp: DListInsertAt_def insert_at_def Let_def)
  qed
qed

subsection \<open>Programs over a list\<close>

datatype list_op =
  Append nat | Append_current nat | Prepend_current nat | Insert_at nat int | Pop_current | Pop_at int | Set_current int

fun new_node :: "list_op \<Rightarrow> nat list" where
  "new_node (Append a) = [a]"
| "new_node (Append_current a) = [a]"
| "new_node (Prepend_current a) = [a]"
| "new_node (Insert_at a _) = [a]"
| "new_node _ = []"

fun macro_op :: "list_op \<Rightarrow> nodes \<times> dlist \<Rightarrow> (nodes \<times> dlist) option" where
  "macro_op (Append a) s = DListAppend a s"
| "macro_op (Append_current a) s = DListAppendCurrent a s"
| "macro_op (Prepend_current a) s = DListPrependCurrent a s"
| "macro_op (Insert_at a i) s = map_option snd (DListInsertAt a i s)"
| "macro_op Pop_current s = map_option snd (DListPopCurrent s)"
| "macro_op (Pop_at i) s = map_option snd (DListPopAt i s)"
| "macro_op (Set_current i) s = map_option snd (DListSetCurrent i s)"

fun cursor_op :: "list_op \<Rightarrow> nat cursor \<Rightarrow> nat cursor" where
  "cursor_op (Append a) c = append_item a c"
| "cursor_op (Append_current a) c = append_current a c"
| "cursor_op (Prepend_current a) c = prepend_current a c"
| "cursor_op (Insert_at a i) c = snd (insert_at a i c)"
| "cursor_op Pop_current c = snd (pop_current c)"
| "cursor_op (Pop_at i) c = snd (pop_at i c)"
| "cursor_op (Set_current i) c = snd (set_current i c)"

lemma append_current_nodes: "set (fst (append_current a c)) \<subseteq> insert a (set (fst c))"
  by (cases c) (auto simp: append_current_def dest: in_set_takeD in_set_dropD)

lemma prepend_current_nodes: "set (fst (prepend_current a c)) \<subseteq> insert a (set (fst c))"
  by (cases c) (auto simp: prepend_current_def dest: in_set_takeD in_set_dropD)

lemma pop_current_nodes: "set (fst (snd (pop_current c))) \<subseteq> set (fst c)"
  by (cases c) (auto simp: pop_current_def dest: in_set_takeD in_set_dropD)

lemma set_current_nodes [simp]: "fst (snd (set_current i c)) = fst c"
  by (simp add: set_current_def Let_def)

lemma insert_at_nodes: "set (fst (snd (insert_at a i c))) \<subseteq> insert a (set (fst c))"
  using append_current_nodes[of a "snd (set_current i c)"] by (simp add: insert_at_def Let_def subset_insertI)

lemma pop_at_nodes: "set (fst (snd (pop_at i c))) \<subseteq> set (fst c)"
proof -
  obtain k d where d: "set_current i c = (k, d)" by (cases "set_current i c")
  obtain x e where e: "pop_current d = (x, e)" by (cases "pop_current d")
  have "fst d = fst c" using set_current_nodes[of i c] d by simp
  then have "set (fst e) \<subseteq> set (fst c)" using pop_current_nodes[of d] e by simp
  then show ?thesis using \<open>fst d = fst c\<close> by (simp add: pop_at_def d e)
qed

lemma append_item_nodes: "set (fst (append_item a c)) \<subseteq> insert a (set (fst c))"
  by (cases c) (auto simp: append_item_def)

lemma cursor_op_nodes: "set (fst (cursor_op x c)) \<subseteq> set (new_node x) \<union> set (fst c)"
  by (cases x)
    (simp_all add: append_item_nodes append_current_nodes prepend_current_nodes insert_at_nodes pop_current_nodes pop_at_nodes)

lemma macro_op_holds:
  assumes "holds s c" "\<forall>a \<in> set (new_node x). fst s a = Some blank \<and> a \<notin> set (fst c)"
  shows "\<exists>s'. macro_op x s = Some s' \<and> holds s' (cursor_op x c) \<and> agree_off (set (new_node x) \<union> set (fst c)) (fst s) (fst s')"
proof (cases s)
  case (Pair h l)
  have hl: "holds (h, l) c" using assms(1) Pair by simp
  show ?thesis
  proof (cases x)
    case (Append a) then show ?thesis using append_holds[OF hl, of a] assms(2) Pair by auto
  next
    case (Append_current a) then show ?thesis using append_current_holds[OF hl, of a] assms(2) Pair by auto
  next
    case (Prepend_current a) then show ?thesis using prepend_current_holds[OF hl, of a] assms(2) Pair by auto
  next
    case (Insert_at a i) then show ?thesis using insert_at_holds[OF hl, of a i] assms(2) Pair by auto
  next
    case Pop_current then show ?thesis using pop_current_holds[OF hl] Pair by auto
  next
    case (Pop_at i) then show ?thesis using pop_at_holds[OF hl, of i] Pair by auto
  next
    case (Set_current i) then show ?thesis using set_current_holds[OF hl, of i] Pair by (auto simp: agree_off_def)
  qed
qed

definition fresh_nodes :: "list_op list \<Rightarrow> nodes \<times> dlist \<Rightarrow> nat cursor \<Rightarrow> bool" where
  "fresh_nodes ops s c \<longleftrightarrow> distinct (concat (map new_node ops)) \<and>
     (\<forall>a \<in> set (concat (map new_node ops)). fst s a = Some blank \<and> a \<notin> set (fst c))"

interpretation macros: simulation macro_op cursor_op holds fresh_nodes
proof
  fix x xs s c assume a: "holds s c" "fresh_nodes (x # xs) s c"
  obtain s1 where s1: "macro_op x s = Some s1" "holds s1 (cursor_op x c)" "agree_off (set (new_node x) \<union> set (fst c)) (fst s) (fst s1)"
    using macro_op_holds[of s c x] a by (auto simp: fresh_nodes_def)
  have "fresh_nodes xs s1 (cursor_op x c)"
    using a(2) s1(3) cursor_op_nodes[of x c] by (fastforce simp: agree_off_def fresh_nodes_def)
  then show "\<exists>s'. macro_op x s = Some s' \<and> holds s' (cursor_op x c) \<and> fresh_nodes xs s' (cursor_op x c)" using s1 by blast
qed

text \<open>Property C27. A program over a list made of seven of the macros, \<open>DListAppend\<close>, \<open>DListPopCurrent\<close>,
  \<open>DListSetCurrent\<close>, \<open>DListPopAt\<close>, \<open>DListPrependCurrent\<close>, \<open>DListAppendCurrent\<close> and \<open>DListInsertAt\<close>, in any
  order and with new nodes that it puts in once each, never follows a
  dangling pointer, and the doubly linked list it leaves holds what the same operations leave of a sequence with a
  cursor. (\<open>DListPush\<close> and \<open>DListPopTail\<close> are modelled too but left out here: the first gives the
  current node a wrong predecessor unless it is the head, the second leaves \<open>current\<close> on the node it takes out, \<open>pop_tail_leaves_current\<close>.)\<close>

theorem list_macros_refine:
  assumes "holds s c" "distinct (concat (map new_node ops))"
    "\<forall>a \<in> set (concat (map new_node ops)). fst s a = Some blank \<and> a \<notin> set (fst c)"
  shows "\<exists>s'. run_all macro_op ops s = Some s' \<and> holds s' (fold cursor_op ops c)"
  using assms by (intro macros.run_all_sim) (simp_all add: fresh_nodes_def)

definition empty_dlist :: dlist where
  "empty_dlist = \<lparr>dhead = None, dtail = None, dcurrent = None, dcur_idx = 0, dnum_items = 0\<rparr>"

lemma list_macros_refine_witness:
  "\<exists>s'. run_all macro_op [Append 1, Append 2, Set_current 1, Prepend_current 3, Pop_at 0, Insert_at 4 (- 1)] (\<lambda>_. Some blank, empty_dlist) = Some s' \<and>
    holds s' (fold cursor_op [Append 1, Append 2, Set_current 1, Prepend_current 3, Pop_at 0, Insert_at 4 (- 1)] ([], 0))"
  by (rule list_macros_refine) (simp_all add: holds_def cursor_wf_def empty_dlist_def)

subsection \<open>Where the macros fail\<close>

text \<open>Taking the last node while it is the current one leaves \<open>current\<close> pointing to it.\<close>

theorem pop_tail_leaves_current:
  assumes "holds (h, l) (ns, int (length ns) - 1)" "2 \<le> length ns"
  shows "\<exists>h' l'. DListPopTail (h, l) = Some (Some (last ns), h', l') \<and> dcurrent l' = Some (last ns) \<and> dtail l' \<noteq> Some (last ns)"
proof -
  obtain xs y z where ns: "ns = xs @ [y, z]"
    using assms(2) by (cases ns rule: rev_cases; cases "butlast ns" rule: rev_cases) auto
  show ?thesis using assms(1) unfolding ns holds_def
    by (auto simp: DListPopTail_def macro_simps nth_append)
qed

end
