(* ===== verification/Ebuf.thy ===== *)
theory Ebuf
  imports Dllist
begin

section \<open>The editor \<open>E\<close>: rows, cursor, view and marks (\<open>z/lib/E/src/libe.c\<close>)\<close>

text \<open>
  A buffer keeps its rows in a list with a current one, handled by the macros of \<open>list.h\<close>; here it is the
  sequence with a cursor that Dllist shows them to implement. A row has an address that is not used
  again, so that the pointers to rows that the view, the marks and the undo records keep can be told when they
  are stale: following one that is no row of the buffer is \<open>None\<close>, as is following a null pointer. Of the screen
  only the positions are kept; drawing sets the pointer to the first row shown. The bytes of a row do not hold NUL.
\<close>

record row =
  row_id :: nat
  bytes :: "byte list"
  first_col_idx :: int
  cur_col_idx :: int

text \<open>The state that marks and undo records save.\<close>

record saved =
  s_video_first_row :: "nat option"
  s_video_first_row_idx :: int
  s_row_pos :: int
  s_col_pos :: int
  s_cur_col_idx :: int
  s_first_col_idx :: int
  s_cur_idx :: int
  s_idx :: int

type_synonym mark_t = saved

datatype act_type = DELETE_LINE | REPLACE_LINE | INSERT_LINE

record action_t = saved +
  act_type :: act_type
  act_bytes :: "byte list"

record jumps_t =
  jumps :: "mark_t list"
  jump_cur_idx :: int
  jump_old_idx :: int

record buf =
  rows :: "row cursor"
  next_id :: nat
  video_first_row :: "nat option"
  video_first_row_idx :: int
  cur_video_row :: int
  cur_video_col :: int
  video_row_pos :: int
  video_col_pos :: int
  video_first_col :: int
  dim_first_row :: int
  dim_num_rows :: int
  buf_marks :: "mark_t list"
  buf_jumps :: jumps_t
  undo :: "action_t list cursor"
  redo :: "action_t list cursor"
  undo_reset :: bool
  max_num_undo_entries :: int
  modified :: bool

abbreviation row_list :: "buf \<Rightarrow> row list" where "row_list b \<equiv> fst (rows b)"
abbreviation cur_idx :: "buf \<Rightarrow> int" where "cur_idx b \<equiv> snd (rows b)"

definition num_items :: "buf \<Rightarrow> int" where "num_items b = int (length (row_list b))"

text \<open>The text: the bytes of the rows.\<close>

definition buf_text :: "buf \<Rightarrow> byte list list" where "buf_text b = map bytes (row_list b)"

definition cur_row :: "buf \<Rightarrow> row option" where
  "cur_row b = (if row_list b = [] then None else Some (row_list b ! nat (cur_idx b)))"

definition upd_cur :: "(row \<Rightarrow> row) \<Rightarrow> buf \<Rightarrow> buf option" where
  "upd_cur f b = map_option (\<lambda>r. b\<lparr>rows := ((row_list b)[nat (cur_idx b) := f r], cur_idx b)\<rparr>) (cur_row b)"

definition cur_ptr :: "buf \<Rightarrow> nat option" where "cur_ptr b = map_option row_id (cur_row b)"

text \<open>The bytes of a C string.\<close>

definition c_string :: "byte list \<Rightarrow> byte list" where "c_string = takeWhile (\<lambda>x. x \<noteq> 0)"

subsection \<open>Rows by their address\<close>

fun find_id :: "nat \<Rightarrow> row list \<Rightarrow> nat option" where
  "find_id a [] = None"
| "find_id a (r # rs) = (if row_id r = a then Some 0 else map_option Suc (find_id a rs))"

definition row_at_index :: "int \<Rightarrow> buf \<Rightarrow> nat option" where
  "row_at_index i b = (if 0 \<le> i \<and> i < num_items b then Some (row_id (row_list b ! nat i)) else None)"

definition row_prev :: "buf \<Rightarrow> nat option \<Rightarrow> nat option option" where
  "row_prev b p = do { a \<leftarrow> p; i \<leftarrow> find_id a (row_list b); Some (row_at_index (int i - 1) b) }"

definition row_next :: "buf \<Rightarrow> nat option \<Rightarrow> nat option option" where
  "row_next b p = do { a \<leftarrow> p; i \<leftarrow> find_id a (row_list b); Some (row_at_index (int i + 1) b) }"

primrec step_rows :: "nat \<Rightarrow> (nat option \<Rightarrow> nat option option) \<Rightarrow> nat option \<Rightarrow> nat option option" where
  "step_rows 0 dir p = Some p"
| "step_rows (Suc n) dir p = dir p \<bind> step_rows n dir"

subsection \<open>The current row\<close>

definition buf_row_new_with :: "byte list \<Rightarrow> buf \<Rightarrow> row \<times> buf" where
  "buf_row_new_with bs b =
     (\<lparr>row_id = next_id b, bytes = c_string bs, first_col_idx = 0, cur_col_idx = 0\<rparr>, b\<lparr>next_id := next_id b + 1\<rparr>)"

definition buf_row_new_with_len :: "byte list \<Rightarrow> nat \<Rightarrow> buf \<Rightarrow> row \<times> buf" where
  "buf_row_new_with_len bs len b =
     (\<lparr>row_id = next_id b, bytes = c_string (take len bs), first_col_idx = 0, cur_col_idx = 0\<rparr>, b\<lparr>next_id := next_id b + 1\<rparr>)"

definition buf_current_set :: "int \<Rightarrow> buf \<Rightarrow> int \<times> buf" where
  "buf_current_set idx b = (let (i, c) = set_current idx (rows b) in (i, b\<lparr>rows := c\<rparr>))"

definition buf_current_prepend :: "row \<Rightarrow> buf \<Rightarrow> buf" where
  "buf_current_prepend r b = b\<lparr>rows := prepend_current r (rows b)\<rparr>"

definition buf_current_append :: "row \<Rightarrow> buf \<Rightarrow> buf" where
  "buf_current_append r b = b\<lparr>rows := append_current r (rows b)\<rparr>"

definition buf_current_prepend_with :: "byte list \<Rightarrow> buf \<Rightarrow> buf" where
  "buf_current_prepend_with bs b = (let (r, b) = buf_row_new_with bs b in buf_current_prepend r b)"

definition buf_current_append_with :: "byte list \<Rightarrow> buf \<Rightarrow> buf" where
  "buf_current_append_with bs b = (let (r, b) = buf_row_new_with bs b in buf_current_append r b)"

definition buf_current_append_with_len :: "byte list \<Rightarrow> nat \<Rightarrow> buf \<Rightarrow> buf" where
  "buf_current_append_with_len bs len b = (let (r, b) = buf_row_new_with_len bs len b in buf_current_append r b)"

definition buf_append_with :: "byte list \<Rightarrow> buf \<Rightarrow> buf" where
  "buf_append_with bs b =
     (let (r, b) = buf_row_new_with bs b;
          i = cur_idx b;
          b = snd (buf_current_set (num_items b - 1) b);
          b = buf_current_append r b in
      snd (buf_current_set i b))"

definition buf_current_replace_with :: "byte list \<Rightarrow> buf \<Rightarrow> buf option" where
  "buf_current_replace_with bs = upd_cur (\<lambda>r. r\<lparr>bytes := c_string bs\<rparr>)"

definition buf_get_row_at :: "int \<Rightarrow> buf \<Rightarrow> row option" where
  "buf_get_row_at idx b =
     (let i = index_of idx (rows b) in if 0 \<le> i \<and> i < num_items b then Some (row_list b ! nat i) else None)"

text \<open>Unlike the macro, the editor's own removal leaves the index -1 in an empty buffer.\<close>

definition current_delete :: "buf \<Rightarrow> row option \<times> buf" where
  "current_delete b =
     (if row_list b = [] then (None, b)
      else let (r, c) = pop_current (rows b) in (r, b\<lparr>rows := (if fst c = [] then ([], -1) else c)\<rparr>))"

definition buf_current_delete :: "buf \<Rightarrow> buf" where "buf_current_delete b = snd (current_delete b)"

definition buf_current_pop :: "buf \<Rightarrow> row option \<times> buf" where "buf_current_pop b = current_delete b"

definition buf_current_pop_next :: "buf \<Rightarrow> (row option \<times> buf) option" where
  "buf_current_pop_next b =
     (if row_list b = [] then None
      else if cur_idx b + 1 \<ge> num_items b then Some (None, b)
      else let b = b\<lparr>rows := (row_list b, cur_idx b + 1)\<rparr>;
               islastidx = (cur_idx b + 1 = num_items b);
               (r, b) = current_delete b in
           Some (r, if islastidx then b else b\<lparr>rows := (row_list b, cur_idx b - 1)\<rparr>))"

definition buf_on_no_length :: "buf \<Rightarrow> buf option" where
  "buf_on_no_length b = upd_cur (\<lambda>r. r\<lparr>bytes := []\<rparr>) (buf_current_append_with [32] b)"

subsection \<open>The view\<close>

primrec view_up :: "nat \<Rightarrow> int \<Rightarrow> nat option \<Rightarrow> buf \<Rightarrow> (nat \<times> int \<times> nat option) option" where
  "view_up 0 idx p b = Some (0, idx, p)"
| "view_up (Suc n) idx p b =
     (if idx = 0 then Some (Suc n, idx, p) else do { p \<leftarrow> row_prev b p; view_up n (idx - 1) p b })"

definition one_page :: "buf \<Rightarrow> int" where "one_page b = dim_num_rows b - 1"

definition buf_adjust_view :: "buf \<Rightarrow> buf option" where
  "buf_adjust_view b =
     do { let half = nat (one_page b div 2);
          (num, idx, p) \<leftarrow> view_up half (cur_idx b) (cur_ptr b) b;
          b \<leftarrow> upd_cur (\<lambda>r. r\<lparr>first_col_idx := 0, cur_col_idx := 0\<rparr>) (b\<lparr>video_first_row := p, video_first_row_idx := idx\<rparr>);
          let pos = dim_first_row b + (int half - int num);
          Some (b\<lparr>video_row_pos := pos, cur_video_row := pos, video_col_pos := video_first_col b, cur_video_col := video_first_col b\<rparr>) }"

definition buf_set_video_first_row :: "int \<Rightarrow> buf \<Rightarrow> buf option" where
  "buf_set_video_first_row idx b =
     (if idx \<ge> num_items b \<or> idx < 0 \<or> idx = video_first_row_idx b then Some b
      else
        let b = (if video_first_row_idx b < 0 then b\<lparr>video_first_row := row_at_index 0 b, video_first_row_idx := 0\<rparr> else b) in
        do { p \<leftarrow> (if idx < video_first_row_idx b then step_rows (nat (video_first_row_idx b - idx)) (row_prev b) (video_first_row b)
                else step_rows (nat (idx - video_first_row_idx b)) (row_next b) (video_first_row b));
             Some (b\<lparr>video_first_row := p, video_first_row_idx := idx\<rparr>) })"

text \<open>The index is decreased until it is one of a row.\<close>

definition set_row_index :: "int \<Rightarrow> buf \<Rightarrow> int" where
  "set_row_index idx b = (if idx \<ge> num_items b then num_items b - 1 else idx)"

primrec row_offset :: "nat \<Rightarrow> int \<Rightarrow> buf \<Rightarrow> buf option" where
  "row_offset 0 idx b = Some b"
| "row_offset (Suc n) idx b =
     (if idx > 0
      then do { p \<leftarrow> row_prev b (video_first_row b);
                row_offset n (idx - 1)
                  (b\<lparr>video_first_row_idx := video_first_row_idx b - 1, video_first_row := p,
                    video_row_pos := cur_video_row b + 1, cur_video_row := cur_video_row b + 1\<rparr>) }
      else Some b)"

definition buf_set_row_idx :: "int \<Rightarrow> int \<Rightarrow> int \<Rightarrow> buf \<Rightarrow> (int \<times> buf) option" where
  "buf_set_row_idx idx ofs col b =
     (if row_list b = [] then None
      else do {
        let (i, b) = buf_current_set (set_row_index (max 0 idx) b) b;
        let b = b\<lparr>video_row_pos := dim_first_row b, cur_video_row := dim_first_row b, video_first_row := cur_ptr b, video_first_row_idx := i\<rparr>;
        b \<leftarrow> row_offset (nat ofs) i b;
        r \<leftarrow> cur_row b;
        let col = (if col > int (length (bytes r)) \<or> col < 1 then 1 else col);
        Some (cur_idx b, b\<lparr>video_col_pos := col, cur_video_col := col\<rparr>) })"

text \<open>Drawing corrects the pointer to the first row, from the current row and the two indices.\<close>

definition buf_to_video :: "buf \<Rightarrow> buf option" where
  "buf_to_video b =
     do { let idx = video_first_row_idx b;
          p \<leftarrow> (if idx = cur_idx b then Some (cur_ptr b)
               else if idx < cur_idx b then step_rows (nat (cur_idx b - idx)) (row_prev b) (cur_ptr b)
               else map_option (\<lambda>_. cur_ptr b) (row_next b (cur_ptr b)));
          Some (b\<lparr>video_first_row := p\<rparr>) }"

definition buf_draw :: "buf \<Rightarrow> buf option" where "buf_draw b = buf_to_video b"

subsection \<open>Saved states, marks and jumps\<close>

definition state_set :: "'a saved_scheme \<Rightarrow> buf \<Rightarrow> 'a saved_scheme option" where
  "state_set v b =
     map_option (\<lambda>r. v\<lparr>s_video_first_row := video_first_row b, s_video_first_row_idx := video_first_row_idx b,
        s_row_pos := cur_video_row b, s_col_pos := cur_video_col b, s_cur_col_idx := cur_col_idx r,
        s_first_col_idx := first_col_idx r, s_cur_idx := cur_idx b\<rparr>) (cur_row b)"

definition state_restore :: "'a saved_scheme \<Rightarrow> buf \<Rightarrow> buf option" where
  "state_restore s b =
     map_option (\<lambda>b. b\<lparr>video_row_pos := s_row_pos s, video_col_pos := s_col_pos s,
        video_first_row_idx := s_video_first_row_idx s, video_first_row := s_video_first_row s,
        cur_video_row := s_row_pos s, cur_video_col := s_col_pos s\<rparr>)
       (upd_cur (\<lambda>r. r\<lparr>first_col_idx := s_first_col_idx s, cur_col_idx := s_cur_col_idx s\<rparr>) b)"

definition blank_state :: saved where
  "blank_state = \<lparr>s_video_first_row = None, s_video_first_row_idx = 0, s_row_pos = 0, s_col_pos = 0,
     s_cur_col_idx = 0, s_first_col_idx = 0, s_cur_idx = 0, s_idx = 0\<rparr>"

text \<open>\<open>None\<close> where nothing was done.\<close>

definition buf_mark_restore :: "mark_t \<Rightarrow> buf \<Rightarrow> (bool \<times> buf) option" where
  "buf_mark_restore mark b =
     (if s_video_first_row mark = None \<or> s_cur_idx mark = cur_idx b \<or> s_cur_idx mark \<ge> num_items b then Some (False, b)
      else do {
        b \<leftarrow> state_restore mark (snd (buf_current_set (s_cur_idx mark) b));
        r \<leftarrow> cur_row b;
        (if first_col_idx r \<noteq> 0 \<or> cur_col_idx r \<ge> int (length (bytes r))
         then map_option (\<lambda>b. (True, b\<lparr>video_col_pos := video_first_col b, cur_video_col := video_first_col b\<rparr>))
                (upd_cur (\<lambda>r. r\<lparr>first_col_idx := 0, cur_col_idx := 0\<rparr>) b)
         else Some (True, b)) })"

text \<open>A mark in rows that were changed is dropped, one behind them moves, and its view is found again from the
  current row.\<close>

primrec mark_up :: "nat \<Rightarrow> mark_t \<Rightarrow> buf \<Rightarrow> mark_t" where
  "mark_up 0 mark b = mark"
| "mark_up (Suc n) mark b =
     (if s_video_first_row_idx mark > 0
      then (case row_prev b (s_video_first_row mark) of
              Some (Some p) \<Rightarrow>
                mark_up n (mark\<lparr>s_video_first_row := Some p, s_video_first_row_idx := s_video_first_row_idx mark - 1,
                  s_row_pos := s_row_pos mark + 1\<rparr>) b
            | _ \<Rightarrow> mark)
      else mark)"

definition adjust_mark :: "act_type \<Rightarrow> int \<Rightarrow> int \<Rightarrow> buf \<Rightarrow> mark_t \<Rightarrow> mark_t option" where
  "adjust_mark type fidx lidx b mark =
     (if s_video_first_row mark = None \<or> s_cur_idx mark < fidx then Some mark
      else if s_cur_idx mark \<le> lidx then Some (mark\<lparr>s_video_first_row := None\<rparr>)
      else do {
        let lcount = lidx - fidx + (if type = DELETE_LINE then 1 else 0);
        let idx = (if type = DELETE_LINE then s_cur_idx mark - lcount else s_cur_idx mark + lcount);
        p \<leftarrow> step_rows (nat (idx - cur_idx b)) (row_next b) (cur_ptr b);
        let mark = mark\<lparr>s_cur_idx := idx, s_video_first_row := p, s_video_first_row_idx := max idx (cur_idx b), s_row_pos := dim_first_row b\<rparr>;
        Some (mark_up (nat (min 5 (dim_num_rows b))) mark b) })"

primrec adjust_all :: "act_type \<Rightarrow> int \<Rightarrow> int \<Rightarrow> buf \<Rightarrow> mark_t list \<Rightarrow> mark_t list option" where
  "adjust_all type fidx lidx b [] = Some []"
| "adjust_all type fidx lidx b (m # ms) =
     do { m \<leftarrow> adjust_mark type fidx lidx b m; ms \<leftarrow> adjust_all type fidx lidx b ms; Some (m # ms) }"

definition buf_adjust_marks :: "act_type \<Rightarrow> int \<Rightarrow> int \<Rightarrow> buf \<Rightarrow> buf option" where
  "buf_adjust_marks type fidx lidx b =
     map_option (\<lambda>ms. b\<lparr>buf_marks := ms\<rparr>) (adjust_all type fidx lidx b (buf_marks b))"

text \<open>The jumps are a stack of at most 20.\<close>

definition buf_jump_push :: "mark_t \<Rightarrow> buf \<Rightarrow> buf" where
  "buf_jump_push mark b =
     (let j = buf_jumps b;
          js = (if 20 \<le> length (jumps j) then butlast (jumps j) else jumps j) in
      b\<lparr>buf_jumps := j\<lparr>jumps := mark # js, jump_cur_idx := 0\<rparr>\<rparr>)"

text \<open>The key that names a mark is the argument.\<close>

definition buf_mark_set :: "nat \<Rightarrow> buf \<Rightarrow> buf option" where
  "buf_mark_set m b =
     (if m < length (buf_marks b)
      then map_option (\<lambda>mk. buf_jump_push mk (b\<lparr>buf_marks := (buf_marks b)[m := mk]\<rparr>)) (state_set (buf_marks b ! m) b)
      else None)"

definition buf_mark_jump :: "nat option \<Rightarrow> buf \<Rightarrow> (bool \<times> buf) option" where
  "buf_mark_jump key b =
     (case key of
        None \<Rightarrow> Some (False, b)
      | Some m \<Rightarrow>
          (if m \<ge> length (buf_marks b) then None
           else do {
             t \<leftarrow> state_set (buf_marks b ! 0) b;
             (done, b) \<leftarrow> buf_mark_restore (buf_marks b ! m) b;
             (if done then map_option (\<lambda>b. (True, b)) (buf_draw (b\<lparr>buf_marks := (buf_marks b)[0 := t]\<rparr>)) else Some (False, b)) }))"

text \<open>The jump to follow is looked up before the present place is put on the stack.\<close>

definition jump_at :: "int \<Rightarrow> buf \<Rightarrow> mark_t option" where
  "jump_at i b = (let js = jumps (buf_jumps b) in if nat i < length js then Some (js ! nat i) else None)"

definition buf_jump_to :: "bool \<Rightarrow> buf \<Rightarrow> (bool \<times> buf) option" where
  "buf_jump_to leftwards b =
     (let j = buf_jumps b in
      if jumps j = [] then Some (False, b)
      else if \<not> leftwards \<and> jump_cur_idx j + 1 = int (length (jumps j)) \<and> jump_old_idx j + 1 = int (length (jumps j)) then Some (False, b)
      else do {
        (mark, b) \<leftarrow>
          (if leftwards
           then do { mark \<leftarrow> jump_at (jump_cur_idx j - 1) b;
                     Some (mark, b\<lparr>buf_jumps := j\<lparr>jump_old_idx := jump_cur_idx j,
                       jump_cur_idx := (if jump_cur_idx j \<noteq> 0 then jump_cur_idx j - 1 else jump_cur_idx j)\<rparr>\<rparr>) }
           else do { mark \<leftarrow> jump_at (jump_cur_idx j) b;
                     b \<leftarrow> (if jump_cur_idx j = 0 then map_option (\<lambda>m. buf_jump_push m b) (state_set blank_state b) else Some b);
                     let j = buf_jumps b;
                     Some (mark, b\<lparr>buf_jumps := j\<lparr>jump_old_idx := jump_cur_idx j,
                       jump_cur_idx := (if jump_cur_idx j + 1 \<noteq> int (length (jumps j)) then jump_cur_idx j + 1 else jump_cur_idx j)\<rparr>\<rparr>) });
        unnamed \<leftarrow> state_set (buf_marks b ! 0) b;
        (_, b) \<leftarrow> buf_mark_restore mark (b\<lparr>buf_marks := (buf_marks b)[0 := unnamed]\<rparr>);
        map_option (\<lambda>b. (True, b)) (buf_draw b) })"

subsection \<open>Iterators\<close>

record bufiter_t =
  iter_row :: "nat option"
  iter_line :: "byte list option"
  iter_idx :: int
  iter_num_lines :: int
  iter_col_idx :: int

definition row_of :: "nat \<Rightarrow> buf \<Rightarrow> row option" where
  "row_of a b = map_option (\<lambda>i. row_list b ! i) (find_id a (row_list b))"

definition buf_iter_new :: "int \<Rightarrow> buf \<Rightarrow> bufiter_t" where
  "buf_iter_new start b =
     (let start = (if start < 0 then cur_idx b else start);
          n = num_items b - start in
      case buf_get_row_at start b of
        None \<Rightarrow> \<lparr>iter_row = None, iter_line = None, iter_idx = -1, iter_num_lines = n, iter_col_idx = 0\<rparr>
      | Some r \<Rightarrow> \<lparr>iter_row = Some (row_id r), iter_line = Some (bytes r), iter_idx = start, iter_num_lines = n, iter_col_idx = cur_col_idx r\<rparr>)"

definition buf_iter_next :: "buf \<Rightarrow> bufiter_t \<Rightarrow> bufiter_t option" where
  "buf_iter_next b it =
     (case iter_row it of
        None \<Rightarrow> Some (it\<lparr>iter_line := None\<rparr>)
      | Some _ \<Rightarrow>
          do { p \<leftarrow> row_next b (iter_row it);
               (case p of
                  None \<Rightarrow> Some (it\<lparr>iter_row := None, iter_line := None\<rparr>)
                | Some a \<Rightarrow> map_option (\<lambda>r. it\<lparr>iter_row := Some a, iter_line := Some (bytes r), iter_idx := iter_idx it + 1,
                    iter_num_lines := iter_num_lines it - 1, iter_col_idx := cur_col_idx r\<rparr>) (row_of a b)) })"

end
