(* ===== verification/Eundo.thy ===== *)
theory Eundo
  imports Ebuf
begin

section \<open>The editor \<open>E\<close>: undo and redo\<close>

text \<open>
  An \<open>Action\<close> is a stack of steps, each with the row it is about and the state of the view. Undoing
  takes the steps off, reverts each and pushes the step that reverts the reversion on another stack, the
  \<open>Redoact\<close>; redoing does the same with the two exchanged. The undo and the redo list are lists of
  \<open>list.h\<close> that are only used at their head.
\<close>

subsection \<open>Steps\<close>

definition buf_action_new :: action_t where
  "buf_action_new = \<lparr>s_video_first_row = None, s_video_first_row_idx = 0, s_row_pos = 0, s_col_pos = 0,
     s_cur_col_idx = 0, s_first_col_idx = 0, s_cur_idx = 0, s_idx = 0, act_type = DELETE_LINE, act_bytes = []\<rparr>"

definition undo_set :: "action_t \<Rightarrow> act_type \<Rightarrow> buf \<Rightarrow> action_t option" where
  "undo_set a t b = state_set (a\<lparr>act_type := t\<rparr>) b"

text \<open>\<open>Cstring.dup\<close>\<close>

definition dup :: "byte list \<Rightarrow> nat \<Rightarrow> byte list" where "dup bs len = c_string (take len bs)"

definition buf_action_new_with :: "act_type \<Rightarrow> int \<Rightarrow> byte list \<Rightarrow> nat \<Rightarrow> buf \<Rightarrow> action_t option" where
  "buf_action_new_with t idx bs len b =
     map_option (\<lambda>a. a\<lparr>s_idx := idx, act_bytes := dup bs len\<rparr>) (undo_set buf_action_new t b)"

definition buf_Action_set_with_current :: "action_t list \<Rightarrow> act_type \<Rightarrow> buf \<Rightarrow> action_t list option" where
  "buf_Action_set_with_current Act t b =
     do { r \<leftarrow> cur_row b; a \<leftarrow> buf_action_new_with t (cur_idx b) (bytes r) (length (bytes r)) b; Some (a # Act) }"

definition buf_Action_set_with :: "action_t list \<Rightarrow> act_type \<Rightarrow> int \<Rightarrow> (byte list \<times> nat) option \<Rightarrow> buf \<Rightarrow> action_t list option" where
  "buf_Action_set_with Act t idx bs b =
     do { a \<leftarrow> undo_set buf_action_new t b;
          r \<leftarrow> cur_row b;
          let i = (if idx < 0 \<or> idx \<ge> num_items b then cur_idx b else idx);
          let text = (case bs of None \<Rightarrow> dup (bytes r) (length (bytes r)) | Some (s, n) \<Rightarrow> dup s n);
          Some (a\<lparr>s_idx := i, act_bytes := text\<rparr> # Act) }"

subsection \<open>The two lists\<close>

definition buf_undo_pop :: "buf \<Rightarrow> action_t list option \<times> buf" where
  "buf_undo_pop b = (let (a, u) = pop_current (undo b) in (a, b\<lparr>undo := u\<rparr>))"

definition buf_redo_pop :: "buf \<Rightarrow> action_t list option \<times> buf" where
  "buf_redo_pop b = (let (a, u) = pop_current (redo b) in (a, b\<lparr>redo := u\<rparr>))"

definition buf_redo_clear :: "buf \<Rightarrow> buf" where "buf_redo_clear b = b\<lparr>redo := ([], 0)\<rparr>"

definition buf_undo_clear :: "buf \<Rightarrow> buf" where "buf_undo_clear b = buf_redo_clear (b\<lparr>undo := ([], 0)\<rparr>)"

definition push_bounded :: "int \<Rightarrow> 'a \<Rightarrow> 'a cursor \<Rightarrow> 'a cursor" where
  "push_bounded max_entries a u =
     prepend_current a (if int (length (fst u)) > max_entries then snd (pop_tail u) else u)"

text \<open>A step that is not one of a redo makes what was undone before unreachable.\<close>

definition buf_undo_push :: "action_t list \<Rightarrow> buf \<Rightarrow> buf" where
  "buf_undo_push Act b =
     (let b' = (if undo_reset b then b\<lparr>undo_reset := False\<rparr> else buf_redo_clear b) in
      b'\<lparr>undo := push_bounded (max_num_undo_entries b) Act (undo b)\<rparr>)"

definition buf_redo_push :: "action_t list \<Rightarrow> buf \<Rightarrow> buf" where
  "buf_redo_push Act b = b\<lparr>redo := push_bounded (max_num_undo_entries b) Act (redo b)\<rparr>"

subsection \<open>Reverting a step\<close>

definition buf_undo_insert :: "action_t list \<Rightarrow> action_t \<Rightarrow> buf \<Rightarrow> (action_t list \<times> buf) option" where
  "buf_undo_insert Redoact act b =
     (if row_list b = [] then Some (Redoact, b)
      else do {
        b \<leftarrow> buf_adjust_view (snd (buf_current_set (s_idx act) b));
        ract \<leftarrow> undo_set buf_action_new DELETE_LINE b;
        r \<leftarrow> cur_row b;
        let ract = ract\<lparr>s_idx := cur_idx b, act_bytes := dup (bytes r) (length (bytes r))\<rparr>;
        let b = buf_current_delete b;
        (if row_list b = [] then Some (ract # Redoact, b)
         else do {
           b \<leftarrow> buf_adjust_marks DELETE_LINE (s_idx act) (s_idx act) (snd (buf_current_set (s_cur_idx act) b));
           b \<leftarrow> state_restore act b;
           Some (ract # Redoact, b) }) })"

definition buf_undo_delete_line :: "action_t list \<Rightarrow> action_t \<Rightarrow> buf \<Rightarrow> (action_t list \<times> buf) option" where
  "buf_undo_delete_line Redoact act b =
     (let (row, b) = buf_row_new_with (act_bytes act) b in
      if row_list b \<noteq> [] then do {
        (ract, b) \<leftarrow>
          (if s_idx act \<ge> num_items b
           then do { b \<leftarrow> buf_adjust_view (snd (buf_current_set (num_items b - 1) b));
                     ract \<leftarrow> undo_set buf_action_new INSERT_LINE b;
                     Some (ract, buf_current_append row b) }
           else do { b \<leftarrow> buf_adjust_view (snd (buf_current_set (s_idx act) b));
                     ract \<leftarrow> undo_set buf_action_new INSERT_LINE b;
                     Some (ract, buf_current_prepend row b) });
        let ract = ract\<lparr>s_idx := cur_idx b\<rparr>;
        b \<leftarrow> buf_adjust_marks INSERT_LINE (s_idx act) (s_idx act + 1) b;
        b \<leftarrow> state_restore act b;
        Some (ract # Redoact, b) }
      else do {
        b \<leftarrow> buf_adjust_view (b\<lparr>rows := ([row], 0)\<rparr>);
        ract \<leftarrow> undo_set buf_action_new INSERT_LINE b;
        Some (ract # Redoact, b) })"

definition buf_undo_replace_line :: "action_t list \<Rightarrow> action_t \<Rightarrow> buf \<Rightarrow> (action_t list \<times> buf) option" where
  "buf_undo_replace_line Redoact act b =
     do { let b = snd (buf_current_set (s_idx act) b);
          (_, b) \<leftarrow> buf_set_row_idx (s_idx act) (s_row_pos act - dim_first_row b) (s_col_pos act) b;
          ract \<leftarrow> undo_set buf_action_new REPLACE_LINE b;
          r \<leftarrow> cur_row b;
          let ract = ract\<lparr>s_idx := cur_idx b, act_bytes := dup (bytes r) (length (bytes r))\<rparr>;
          b \<leftarrow> buf_current_replace_with (act_bytes act) b;
          b \<leftarrow> state_restore act b;
          Some (ract # Redoact, b) }"

definition revert :: "action_t list \<Rightarrow> action_t \<Rightarrow> buf \<Rightarrow> (action_t list \<times> buf) option" where
  "revert Redoact act b =
     (case act_type act of
        DELETE_LINE \<Rightarrow> buf_undo_delete_line Redoact act b
      | REPLACE_LINE \<Rightarrow> buf_undo_replace_line Redoact act b
      | INSERT_LINE \<Rightarrow> buf_undo_insert Redoact act b)"

primrec revert_all :: "action_t list \<Rightarrow> action_t list \<Rightarrow> buf \<Rightarrow> (action_t list \<times> buf) option" where
  "revert_all [] Redoact b = Some (Redoact, b)"
| "revert_all (a # as) Redoact b = do { (Redoact, b) \<leftarrow> revert Redoact a b; revert_all as Redoact b }"

text \<open>\<open>u\<close> or the other; false where there is nothing to do.\<close>

definition buf_undo_exec :: "bool \<Rightarrow> buf \<Rightarrow> (bool \<times> buf) option" where
  "buf_undo_exec is_u b =
     (let (Act, b) = (if is_u then buf_undo_pop b else buf_redo_pop b) in
      case Act of
        None \<Rightarrow> Some (False, b)
      | Some Act \<Rightarrow> do {
          (Redoact, b) \<leftarrow> revert_all Act [] b;
          let b = (if is_u then buf_redo_push Redoact b else buf_undo_push Redoact (b\<lparr>undo_reset := True\<rparr>));
          map_option (\<lambda>b. (True, b)) (buf_draw (b\<lparr>modified := True\<rparr>)) })"

subsection \<open>Commands\<close>

text \<open>Deleting lines (\<open>buf_delete_line\<close>), without the registers. The loop over the rows records each removed row.\<close>

primrec delete_lines :: "nat \<Rightarrow> action_t list \<Rightarrow> buf \<Rightarrow> (action_t list \<times> buf) option" where
  "delete_lines 0 Act b = Some (Act, b)"
| "delete_lines (Suc n) Act b =
     do { r \<leftarrow> cur_row b;
          a \<leftarrow> buf_action_new_with DELETE_LINE (cur_idx b) (bytes r) (length (bytes r)) b;
          let b = buf_current_delete b;
          (if row_list b = [] then Some (a # Act, b) else delete_lines n (a # Act) b) }"

text \<open>\<open>adjust.col\<close> finds the column again from the widths of the characters of the line, which are those of
  the library \<open>Ustring\<close>: what it computes (\<open>cur_col_idx\<close>, \<open>first_col_idx\<close>, and the column on the screen) is an
  argument.\<close>

type_synonym columns = "buf \<Rightarrow> int \<times> int \<times> int"

definition buf_adjust_col :: "columns \<Rightarrow> buf \<Rightarrow> buf option" where
  "buf_adjust_col columns b =
     (if row_list b = [] then Some (b\<lparr>video_col_pos := 1, cur_video_col := 1\<rparr>)
      else (case columns b of (cur, first, col) \<Rightarrow>
        map_option (\<lambda>b. b\<lparr>video_col_pos := col, cur_video_col := col\<rparr>)
          (upd_cur (\<lambda>r. r\<lparr>first_col_idx := first, cur_col_idx := cur\<rparr>) b)))"

definition buf_delete_line :: "columns \<Rightarrow> int \<Rightarrow> buf \<Rightarrow> buf option" where
  "buf_delete_line columns count b =
     (if row_list b = [] then None
      else do {
        let fidx = cur_idx b;
        let count = (if count > num_items b - cur_idx b then num_items b - cur_idx b else count);
        (Act, b) \<leftarrow> delete_lines (nat count) [] b;
        b \<leftarrow> (if num_items b = 0 then buf_on_no_length b else Some b);
        b \<leftarrow> buf_adjust_col columns b;
        b \<leftarrow> buf_adjust_marks DELETE_LINE fidx (fidx + count - 1) b;
        let b = (if num_items b = 1 \<and> cur_video_row b \<noteq> dim_first_row b
                 then b\<lparr>video_row_pos := dim_first_row b, cur_video_row := dim_first_row b\<rparr> else b);
        b \<leftarrow> (if cur_idx b = fidx
             then Some (if video_first_row_idx b > fidx then b\<lparr>video_first_row_idx := cur_idx b\<rparr> else b)
             else if video_first_row_idx b \<noteq> cur_idx b then buf_adjust_view b else Some b);
        b \<leftarrow> buf_draw (b\<lparr>modified := True\<rparr>);
        Some (buf_undo_push Act b) })"

text \<open>Joining the current row with the next. The last byte of the current row is looked at without a
  look at its length.\<close>

definition rm_trailing_new_line :: "byte list \<Rightarrow> byte list option" where
  "rm_trailing_new_line bs = (if bs = [] then None else Some (if last bs = 10 \<or> last bs = 0 then butlast bs else bs))"

definition one_space :: "byte list \<Rightarrow> byte list" where
  "one_space bs = (if bs \<noteq> [] \<and> hd bs = 32 then 32 # dropWhile (\<lambda>x. x = 32) bs else bs)"

definition buf_normal_join :: "bool \<Rightarrow> buf \<Rightarrow> (bool \<times> buf) option" where
  "buf_normal_join draw b =
     (if num_items b = 0 \<or> num_items b - 1 = cur_idx b then Some (False, b)
      else do {
        Act \<leftarrow> buf_Action_set_with_current [] REPLACE_LINE b;
        (row, b) \<leftarrow> buf_current_pop_next b;
        row \<leftarrow> row;
        Act \<leftarrow> buf_Action_set_with Act DELETE_LINE (cur_idx b + 1) (Some (bytes row, length (bytes row))) b;
        let b = buf_undo_push Act b;
        b \<leftarrow> (if bytes row \<noteq> []
             then do { r \<leftarrow> cur_row b;
                       bs \<leftarrow> rm_trailing_new_line (bytes r);
                       upd_cur (\<lambda>r. r\<lparr>bytes := bs @ one_space (bytes row)\<rparr>) b }
             else Some b);
        b \<leftarrow> buf_adjust_marks DELETE_LINE (cur_idx b) (cur_idx b + 1) b;
        let b = b\<lparr>modified := True\<rparr>;
        (if draw then map_option (\<lambda>b. (True, b)) (buf_draw b) else Some (True, b)) })"

subsection \<open>Well-formed buffers\<close>

definition mark_ok :: "buf \<Rightarrow> mark_t \<Rightarrow> bool" where
  "mark_ok b m \<longleftrightarrow> s_video_first_row m \<noteq> None \<longrightarrow> 0 \<le> s_cur_idx m \<and> s_cur_idx m < max 1 (num_items b)"

definition rows_ok :: "nat \<Rightarrow> row list \<Rightarrow> bool" where
  "rows_ok n rs \<longleftrightarrow> distinct (map row_id rs) \<and> (\<forall>r \<in> set rs. row_id r < n \<and> 0 \<notin> set (bytes r))"

definition buf_ok :: "buf \<Rightarrow> bool" where
  "buf_ok b \<longleftrightarrow> cursor_wf (rows b) \<and> rows_ok (next_id b) (row_list b) \<and> 0 \<le> video_first_row_idx b \<and>
     (\<forall>m \<in> set (buf_marks b). mark_ok b m)"

text \<open>What a change of the view leaves alone.\<close>

definition history_of :: "buf \<Rightarrow> action_t list cursor \<times> action_t list cursor \<times> bool \<times> int" where
  "history_of b = (undo b, redo b, undo_reset b, max_num_undo_entries b)"

definition calm :: "buf \<Rightarrow> buf \<Rightarrow> bool" where
  "calm b b' \<longleftrightarrow> buf_ok b' \<and> buf_text b' = buf_text b \<and> history_of b' = history_of b \<and>
     map row_id (row_list b') = map row_id (row_list b) \<and> next_id b' = next_id b"

lemma calm_refl: "buf_ok b \<Longrightarrow> calm b b"
  by (simp add: calm_def)

lemma calm_trans: "calm a b \<Longrightarrow> calm b c \<Longrightarrow> calm a c"
  by (simp add: calm_def)

lemma calm_nonempty: "calm b b' \<Longrightarrow> row_list b \<noteq> [] \<Longrightarrow> row_list b' \<noteq> []"
  by (auto simp: calm_def buf_text_def)

lemma calm_items: "calm b b' \<Longrightarrow> num_items b' = num_items b"
  by (auto simp: calm_def buf_text_def num_items_def dest: arg_cong[of _ _ length])

lemma text_items: "length (buf_text b) = length (row_list b)" "int (length (buf_text b)) = num_items b"
  by (simp_all add: buf_text_def num_items_def)

lemma cur_in: "buf_ok b \<Longrightarrow> row_list b \<noteq> [] \<Longrightarrow> 0 \<le> cur_idx b \<and> cur_idx b < num_items b"
  by (simp add: buf_ok_def cursor_wf_def num_items_def)

subsubsection \<open>Pointers to rows\<close>

lemma find_id_nth: "distinct (map row_id rs) \<Longrightarrow> i < length rs \<Longrightarrow> find_id (row_id (rs ! i)) rs = Some i"
proof (induction rs arbitrary: i)
  case (Cons r rs)
  then show ?case by (cases i) (auto simp: image_iff)
qed simp

lemma row_prev_at: "buf_ok b \<Longrightarrow> 0 \<le> i \<Longrightarrow> i < num_items b \<Longrightarrow> row_prev b (row_at_index i b) = Some (row_at_index (i - 1) b)"
  by (simp add: row_prev_def row_at_index_def buf_ok_def rows_ok_def find_id_nth num_items_def nat_less_iff)

lemma row_next_at: "buf_ok b \<Longrightarrow> 0 \<le> i \<Longrightarrow> i < num_items b \<Longrightarrow> row_next b (row_at_index i b) = Some (row_at_index (i + 1) b)"
  by (simp add: row_next_def row_at_index_def buf_ok_def rows_ok_def find_id_nth num_items_def nat_less_iff)

lemma step_prev: "buf_ok b \<Longrightarrow> i < num_items b \<Longrightarrow> int k \<le> i \<Longrightarrow> step_rows k (row_prev b) (row_at_index i b) = Some (row_at_index (i - int k) b)"
proof (induction k arbitrary: i)
  case (Suc k)
  then show ?case using Suc.IH[of "i - 1"] by (simp add: row_prev_at algebra_simps)
qed simp

lemma step_next: "buf_ok b \<Longrightarrow> 0 \<le> i \<Longrightarrow> i + int k \<le> num_items b \<Longrightarrow> step_rows k (row_next b) (row_at_index i b) = Some (row_at_index (i + int k) b)"
proof (induction k arbitrary: i)
  case (Suc k)
  then show ?case using Suc.IH[of "i + 1"] by (simp add: row_next_at algebra_simps)
qed simp

lemma cur_ptr_at: "buf_ok b \<Longrightarrow> row_list b \<noteq> [] \<Longrightarrow> cur_ptr b = row_at_index (cur_idx b) b"
  using cur_in[of b] by (simp add: cur_ptr_def cur_row_def row_at_index_def)

lemma cur_row_Some: "buf_ok b \<Longrightarrow> row_list b \<noteq> [] \<Longrightarrow> cur_row b = Some (row_list b ! nat (cur_idx b)) \<and> row_list b ! nat (cur_idx b) \<in> set (row_list b)"
  using cur_in[of b] by (simp add: cur_row_def num_items_def nat_less_iff)

subsubsection \<open>Changes of the view\<close>

text \<open>A change of the columns of the current row.\<close>

lemma upd_cur_calm:
  assumes "buf_ok b" "row_list b \<noteq> []" "\<And>r. row_id (g r) = row_id r" "\<And>r. bytes (g r) = bytes r"
  shows "\<exists>b'. upd_cur g b = Some b' \<and> calm b b' \<and> cur_idx b' = cur_idx b \<and> b' = b\<lparr>rows := rows b'\<rparr>"
proof -
  let ?i = "nat (cur_idx b)"
  have i: "?i < length (row_list b)" using cur_in[OF assms(1,2)] by (simp add: num_items_def nat_less_iff)
  let ?rs = "(row_list b)[?i := g (row_list b ! ?i)]"
  have same: "map row_id ?rs = map row_id (row_list b)" "map bytes ?rs = map bytes (row_list b)"
    using i by (simp_all add: map_update assms(3,4) list_update_id[of _ ?i, symmetric] del: list_update_id)
      (metis list_update_id nth_map)+
  have "rows_ok (next_id b) ?rs"
    using assms(1) i unfolding buf_ok_def rows_ok_def same(1)
    by (auto simp: assms(3,4) dest!: set_update_subset_insert[THEN subsetD])
  then have "calm b (b\<lparr>rows := (?rs, cur_idx b)\<rparr>)"
    using assms(1) same by (simp add: calm_def buf_ok_def buf_text_def history_of_def cursor_wf_def mark_ok_def num_items_def)
  then show ?thesis using assms(2) by (simp add: upd_cur_def cur_row_def)
qed

lemma view_up_at:
  assumes "buf_ok b" "0 \<le> i" "i < num_items b"
  shows "\<exists>k j. view_up n i (row_at_index i b) b = Some (k, j, row_at_index j b) \<and> 0 \<le> j"
  using assms(2,3)
proof (induction n arbitrary: i)
  case (Suc n)
  then show ?case using Suc.IH[of "i - 1"] by (auto simp: row_prev_at[OF assms(1)])
qed simp

lemma calm_view:
  assumes "buf_ok b" "0 \<le> i"
  shows "calm b (b\<lparr>video_first_row := p, video_first_row_idx := i\<rparr>)"
  using assms by (simp add: calm_def buf_ok_def buf_text_def history_of_def mark_ok_def num_items_def)

lemma calm_place: "calm b (b'\<lparr>video_row_pos := x, cur_video_row := x, video_col_pos := y, cur_video_col := y\<rparr>) = calm b b'"
  by (simp add: calm_def buf_ok_def buf_text_def history_of_def mark_ok_def num_items_def)

lemma adjust_view_calm:
  assumes "buf_ok b" "row_list b \<noteq> []"
  shows "\<exists>b'. buf_adjust_view b = Some b' \<and> calm b b' \<and> cur_idx b' = cur_idx b"
proof -
  let ?half = "nat (one_page b div 2)"
  obtain k j where v: "view_up ?half (cur_idx b) (cur_ptr b) b = Some (k, j, row_at_index j b)" "0 \<le> j"
    using view_up_at[OF assms(1), of "cur_idx b" ?half] cur_in[OF assms] cur_ptr_at[OF assms] by auto
  let ?b = "b\<lparr>video_first_row := row_at_index j b, video_first_row_idx := j\<rparr>"
  have c: "calm b ?b" by (rule calm_view[OF assms(1) v(2)])
  obtain b' where b': "upd_cur (\<lambda>r. r\<lparr>first_col_idx := 0, cur_col_idx := 0\<rparr>) ?b = Some b'" "calm ?b b'" "cur_idx b' = cur_idx b"
    using upd_cur_calm[of ?b "\<lambda>r. r\<lparr>first_col_idx := 0, cur_col_idx := 0\<rparr>"] c assms(2) by (auto simp: calm_def)
  then show ?thesis using v calm_trans[OF c b'(2)] by (simp add: buf_adjust_view_def Let_def calm_place)
qed

lemma current_set_calm:
  assumes "buf_ok b"
  shows "calm b (snd (buf_current_set i b))"
  using assms
  by (auto simp: buf_current_set_def set_current_def Let_def calm_def buf_ok_def buf_text_def history_of_def cursor_wf_def mark_ok_def num_items_def
      split: prod.splits if_splits)

lemma current_set_at:
  "0 \<le> i \<Longrightarrow> i < num_items b \<Longrightarrow> buf_current_set i b = (i, b\<lparr>rows := (row_list b, i)\<rparr>)"
  by (simp add: buf_current_set_def set_current_def index_of_def num_items_def)

lemma state_set_Some: "buf_ok b \<Longrightarrow> row_list b \<noteq> [] \<Longrightarrow>
  \<exists>v'. state_set v b = Some v' \<and> saved.more v' = saved.more v \<and> s_video_first_row_idx v' = video_first_row_idx b \<and> s_cur_idx v' = cur_idx b \<and> s_idx v' = s_idx v"
  by (simp add: state_set_def cur_row_def)

lemma undo_set_Some: "buf_ok b \<Longrightarrow> row_list b \<noteq> [] \<Longrightarrow>
  \<exists>v'. undo_set v t b = Some v' \<and> act_type v' = t \<and> 0 \<le> s_video_first_row_idx v' \<and> s_cur_idx v' = cur_idx b \<and> s_idx v' = s_idx v"
  by (simp add: undo_set_def state_set_def cur_row_def buf_ok_def)

lemma state_restore_calm:
  assumes "buf_ok b" "row_list b \<noteq> []" "0 \<le> s_video_first_row_idx s"
  shows "\<exists>b'. state_restore s b = Some b' \<and> calm b b' \<and> cur_idx b' = cur_idx b"
proof -
  obtain b' where b': "upd_cur (\<lambda>r. r\<lparr>first_col_idx := s_first_col_idx s, cur_col_idx := s_cur_col_idx s\<rparr>) b = Some b'" "calm b b'" "cur_idx b' = cur_idx b"
    using upd_cur_calm[OF assms(1,2), of "\<lambda>r. r\<lparr>first_col_idx := s_first_col_idx s, cur_col_idx := s_cur_col_idx s\<rparr>"] by auto
  then show ?thesis using assms(3)
    by (auto simp: state_restore_def calm_def buf_ok_def buf_text_def history_of_def mark_ok_def num_items_def)
qed

lemma draw_calm:
  assumes "buf_ok b" "row_list b \<noteq> []"
  shows "\<exists>b'. buf_draw b = Some b' \<and> calm b b' \<and> cur_idx b' = cur_idx b"
proof -
  have c: "cur_ptr b = row_at_index (cur_idx b) b" "0 \<le> cur_idx b" "cur_idx b < num_items b"
    using cur_ptr_at[OF assms] cur_in[OF assms] by auto
  have "0 \<le> video_first_row_idx b" using assms(1) by (simp add: buf_ok_def)
  then have "\<exists>p. (if video_first_row_idx b = cur_idx b then Some (cur_ptr b)
               else if video_first_row_idx b < cur_idx b then step_rows (nat (cur_idx b - video_first_row_idx b)) (row_prev b) (cur_ptr b)
               else map_option (\<lambda>_. cur_ptr b) (row_next b (cur_ptr b))) = Some p"
    using c step_prev[OF assms(1), of "cur_idx b" "nat (cur_idx b - video_first_row_idx b)"] row_next_at[OF assms(1), of "cur_idx b"] by simp
  then obtain p where "buf_draw b = Some (b\<lparr>video_first_row := p\<rparr>)" by (auto simp: buf_draw_def buf_to_video_def Let_def)
  moreover have "calm b (b\<lparr>video_first_row := p\<rparr>)"
    using assms(1) by (simp add: calm_def buf_ok_def buf_text_def history_of_def mark_ok_def num_items_def)
  ultimately show ?thesis by simp
qed

subsubsection \<open>Marks\<close>

lemma mark_up_cur [simp]: "s_cur_idx (mark_up n m b) = s_cur_idx m"
  by (induction n arbitrary: m) (auto split: option.splits)

definition unmarked_ok :: "buf \<Rightarrow> bool" where "unmarked_ok b \<longleftrightarrow> buf_ok (b\<lparr>buf_marks := []\<rparr>)"

lemma unmarked_iff: "buf_ok b \<longleftrightarrow> unmarked_ok b \<and> (\<forall>m \<in> set (buf_marks b). mark_ok b m)"
  by (simp add: unmarked_ok_def buf_ok_def)

lemma adjust_mark_ok:
  assumes "unmarked_ok b" "row_list b \<noteq> []" "0 \<le> f \<and> f \<le> l"
    and "s_video_first_row m \<noteq> None \<Longrightarrow> 0 \<le> s_cur_idx m \<and> (s_cur_idx m < f \<longrightarrow> s_cur_idx m < num_items b) \<and>
      (l < s_cur_idx m \<longrightarrow> s_cur_idx m + (if type = DELETE_LINE then f - l - 1 else l - f) < num_items b)"
  shows "\<exists>m'. adjust_mark type f l b m = Some m' \<and> mark_ok b m'"
proof (cases "s_video_first_row m = None \<or> s_cur_idx m \<le> l")
  case True
  then show ?thesis using assms(4) by (auto simp: adjust_mark_def mark_ok_def)
next
  case False
  let ?b = "b\<lparr>buf_marks := []\<rparr>"
  define idx where "idx = (if type = DELETE_LINE then s_cur_idx m - (l - f + 1) else s_cur_idx m + (l - f))"
  have idx: "0 \<le> idx" "idx < num_items b" using False assms(3,4) by (auto simp: idx_def split: if_splits)
  have b: "buf_ok ?b" using assms(1) by (simp add: unmarked_ok_def)
  have c: "cur_ptr b = row_at_index (cur_idx b) b" "0 \<le> cur_idx b" "cur_idx b < num_items b"
    using cur_ptr_at[OF b] cur_in[OF b] assms(2) by (auto simp: cur_ptr_def cur_row_def row_at_index_def num_items_def)
  have "step_rows (nat (idx - cur_idx b)) (row_next ?b) (row_at_index (cur_idx b) ?b) = Some (row_at_index (cur_idx b + int (nat (idx - cur_idx b))) ?b)"
    using c idx by (intro step_next[OF b]) (auto simp: num_items_def)
  moreover have at: "row_at_index k ?b = row_at_index k b" for k by (simp add: row_at_index_def num_items_def)
  moreover have "row_next ?b = row_next b" by (rule ext) (simp add: row_next_def at)
  ultimately have "step_rows (nat (idx - cur_idx b)) (row_next b) (cur_ptr b) = Some (row_at_index (cur_idx b + int (nat (idx - cur_idx b))) b)"
    using c by simp
  moreover have "\<not> s_cur_idx m < f" using False assms(3) by auto
  ultimately show ?thesis using False idx by (auto simp: adjust_mark_def Let_def mark_ok_def idx_def split: if_splits)
qed

lemma adjust_all_ok:
  "(\<And>m. m \<in> set ms \<Longrightarrow> \<exists>m'. adjust_mark type f l b m = Some m' \<and> mark_ok b m') \<Longrightarrow>
   \<exists>ms'. adjust_all type f l b ms = Some ms' \<and> (\<forall>m \<in> set ms'. mark_ok b m)"
  by (induction ms) fastforce+

lemma adjust_marks_calm:
  assumes "unmarked_ok b" "\<And>m. m \<in> set (buf_marks b) \<Longrightarrow> \<exists>m'. adjust_mark type f l b m = Some m' \<and> mark_ok b m'"
  shows "\<exists>b'. buf_adjust_marks type f l b = Some b' \<and> buf_ok b' \<and> rows b' = rows b \<and> history_of b' = history_of b"
proof -
  obtain ms' where "adjust_all type f l b (buf_marks b) = Some ms'" "\<forall>m \<in> set ms'. mark_ok b m"
    using adjust_all_ok[of "buf_marks b" type f l b] assms(2) by blast
  then show ?thesis using assms(1)
    by (simp add: buf_adjust_marks_def unmarked_ok_def buf_ok_def history_of_def mark_ok_def num_items_def)
qed

subsection \<open>What a reverted step does to the text\<close>

definition revert_text :: "action_t \<Rightarrow> byte list list \<Rightarrow> byte list list" where
  "revert_text a t =
     (let i = nat (s_idx a) in
      case act_type a of
        INSERT_LINE \<Rightarrow> take i t @ drop (i + 1) t
      | DELETE_LINE \<Rightarrow> take i t @ act_bytes a # drop i t
      | REPLACE_LINE \<Rightarrow> t[i := act_bytes a])"

text \<open>A step that fits a text, and the step that reverts it.\<close>

definition fits :: "action_t \<Rightarrow> byte list list \<Rightarrow> bool" where
  "fits a t \<longleftrightarrow> 0 \<le> s_idx a \<and> 0 \<le> s_video_first_row_idx a \<and>
     (case act_type a of
        DELETE_LINE \<Rightarrow> 0 \<notin> set (act_bytes a)
      | REPLACE_LINE \<Rightarrow> s_idx a < int (length t) \<and> 0 \<notin> set (act_bytes a)
      | INSERT_LINE \<Rightarrow> s_idx a < int (length t))"

definition reverts :: "action_t \<Rightarrow> byte list list \<Rightarrow> action_t \<Rightarrow> bool" where
  "reverts a t r \<longleftrightarrow> fits r (revert_text a t) \<and> revert_text r (revert_text a t) = t"

lemma dup_id: "0 \<notin> set bs \<Longrightarrow> dup bs (length bs) = bs"
  by (auto simp: dup_def c_string_def takeWhile_eq_all_conv)

lemma c_string_id: "0 \<notin> set bs \<Longrightarrow> c_string bs = bs"
  by (auto simp: c_string_def takeWhile_eq_all_conv)

lemma cur_text:
  assumes "buf_ok b" "row_list b \<noteq> []"
  shows "cur_row b = Some (row_list b ! nat (cur_idx b))" "bytes (row_list b ! nat (cur_idx b)) = buf_text b ! nat (cur_idx b)"
    "0 \<notin> set (buf_text b ! nat (cur_idx b))"
  using cur_row_Some[OF assms] cur_in[OF assms] assms(1)
  by (auto simp: buf_text_def num_items_def nat_less_iff buf_ok_def rows_ok_def)

lemma distinct_drop_nth: "distinct (map row_id rs) \<Longrightarrow> distinct (map row_id (take i rs @ drop (Suc i) rs))"
  using set_take_disj_set_drop_if_distinct[of "map row_id rs" i "Suc i"]
  by (simp add: take_map[symmetric] drop_map[symmetric])

text \<open>The row at the cursor is taken out.\<close>

lemma current_delete_ok:
  assumes "buf_ok b" "row_list b \<noteq> []"
  defines "i \<equiv> nat (cur_idx b)"
  shows "unmarked_ok (buf_current_delete b)" "buf_text (buf_current_delete b) = take i (buf_text b) @ drop (i + 1) (buf_text b)"
    "history_of (buf_current_delete b) = history_of b" "buf_marks (buf_current_delete b) = buf_marks b"
    "num_items (buf_current_delete b) = num_items b - 1"
proof -
  have i: "i < length (row_list b)" "cur_idx b = int i" using cur_in[OF assms(1,2)] by (auto simp: i_def num_items_def)
  have c: "row_list (buf_current_delete b) = take i (row_list b) @ drop (i + 1) (row_list b)"
    using assms(2) i by (auto simp: buf_current_delete_def current_delete_def pop_current_def Let_def split: prod.splits)
  have "rows_ok (next_id b) (take i (row_list b) @ drop (i + 1) (row_list b))"
    using assms(1) distinct_drop_nth[of "row_list b" i] unfolding buf_ok_def rows_ok_def
    by (auto dest: in_set_takeD in_set_dropD)
  moreover have "next_id (buf_current_delete b) = next_id b" "video_first_row_idx (buf_current_delete b) = video_first_row_idx b"
    by (simp_all add: buf_current_delete_def current_delete_def Let_def split: prod.splits)
  moreover have "cursor_wf (rows (buf_current_delete b))"
    using assms(2) i by (auto simp: buf_current_delete_def current_delete_def pop_current_def cursor_wf_def Let_def split: prod.splits)
  ultimately show "unmarked_ok (buf_current_delete b)" using assms(1) c by (simp add: unmarked_ok_def buf_ok_def)
  show "buf_text (buf_current_delete b) = take i (buf_text b) @ drop (i + 1) (buf_text b)"
    using c by (simp add: buf_text_def take_map drop_map)
  show "history_of (buf_current_delete b) = history_of b" "buf_marks (buf_current_delete b) = buf_marks b"
    by (simp_all add: buf_current_delete_def current_delete_def history_of_def Let_def split: prod.splits)
  show "num_items (buf_current_delete b) = num_items b - 1" using c i by (simp add: num_items_def)
qed

lemma take_drop_nth: "i < length t \<Longrightarrow> take i (take i t @ drop (Suc i) t) @ t ! i # drop i (take i t @ drop (Suc i) t) = t"
  by (simp add: id_take_nth_drop[symmetric] min_def)

lemma insert_reverts:
  assumes "buf_ok b" "act_type act = INSERT_LINE" "fits act (buf_text b)"
  shows "\<exists>r b'. buf_undo_insert R act b = Some (r # R, b') \<and> buf_ok b' \<and> history_of b' = history_of b \<and>
    buf_text b' = revert_text act (buf_text b) \<and> reverts act (buf_text b) r"
proof -
  have i: "0 \<le> s_idx act" "s_idx act < num_items b" "0 \<le> s_video_first_row_idx act" "nat (s_idx act) < length (buf_text b)"
    using assms(2,3) by (auto simp: fits_def text_items num_items_def nat_less_iff)
  then have ne: "row_list b \<noteq> []" by (auto simp: num_items_def)
  define b1 where "b1 = snd (buf_current_set (s_idx act) b)"
  have b1: "calm b b1" "cur_idx b1 = s_idx act"
    using current_set_calm[OF assms(1), of "s_idx act"] current_set_at[OF i(1,2)] by (simp_all add: b1_def)
  obtain b2 where b2: "buf_adjust_view b1 = Some b2" "calm b b2" "cur_idx b2 = s_idx act"
    using adjust_view_calm[of b1] b1 calm_nonempty[OF b1(1) ne] calm_trans[OF b1(1)] by (auto simp: calm_def)
  have ok2: "buf_ok b2" "row_list b2 \<noteq> []" "buf_text b2 = buf_text b" "history_of b2 = history_of b"
    using b2(2) calm_nonempty[OF b2(2) ne] by (auto simp: calm_def)
  obtain r where r: "undo_set buf_action_new DELETE_LINE b2 = Some r" "act_type r = DELETE_LINE" "0 \<le> s_video_first_row_idx r"
    using undo_set_Some[OF ok2(1,2)] by blast
  let ?r = "r\<lparr>s_idx := s_idx act, act_bytes := buf_text b ! nat (s_idx act)\<rparr>"
  have dupd: "dup (bytes (row_list b2 ! nat (s_idx act))) (length (bytes (row_list b2 ! nat (s_idx act)))) = buf_text b ! nat (s_idx act)"
    using cur_text[OF ok2(1,2)] dup_id ok2(3) b2(3) by metis
  have no_nul: "0 \<notin> set (buf_text b ! nat (s_idx act))" using cur_text(3)[OF ok2(1,2)] ok2(3) b2(3) by metis
  define b3 where "b3 = buf_current_delete b2"
  note b3 = current_delete_ok[OF ok2(1,2), folded b3_def, unfolded b2(3) ok2(3,4)]
  have rev: "reverts act (buf_text b) ?r"
    using i assms(2) r no_nul take_drop_nth[OF i(4)] by (simp add: reverts_def fits_def revert_text_def Let_def)
  have t3: "buf_text b3 = revert_text act (buf_text b)" using b3(2) assms(2) by (simp add: revert_text_def Let_def)
  have old: "\<forall>m \<in> set (buf_marks b3). s_video_first_row m \<noteq> None \<longrightarrow> 0 \<le> s_cur_idx m \<and> s_cur_idx m < max 1 (num_items b)"
    using ok2(1) b3(4) calm_items[OF b2(2)] by (auto simp: buf_ok_def mark_ok_def)
  show ?thesis
  proof (cases "row_list b3 = []")
    case True
    then have "buf_ok b3" using b3(1,5) old calm_items[OF b2(2)] unfolding unmarked_iff mark_ok_def by (auto simp: num_items_def)
    then show ?thesis using ne b2(1,3) r(1) dupd True rev t3 b3(3)
      by (auto simp: buf_undo_insert_def b1_def[symmetric] b3_def[symmetric] cur_text(1)[OF ok2(1,2)] Let_def)
  next
    case False
    define b4 where "b4 = snd (buf_current_set (s_cur_idx act) b3)"
    have b4: "unmarked_ok b4" "row_list b4 = row_list b3" "history_of b4 = history_of b3" "buf_marks b4 = buf_marks b3" "num_items b4 = num_items b - 1"
      using b3(1,5) calm_items[OF b2(2)]
      by (auto simp: b4_def buf_current_set_def set_current_def Let_def unmarked_ok_def buf_ok_def cursor_wf_def history_of_def num_items_def split: prod.splits if_splits)
    have "\<exists>b5. buf_adjust_marks DELETE_LINE (s_idx act) (s_idx act) b4 = Some b5 \<and> buf_ok b5 \<and> rows b5 = rows b4 \<and> history_of b5 = history_of b4"
      using b4 False i old by (intro adjust_marks_calm adjust_mark_ok) (auto simp: max_def split: if_splits)
    then obtain b5 where b5: "buf_adjust_marks DELETE_LINE (s_idx act) (s_idx act) b4 = Some b5" "buf_ok b5" "rows b5 = rows b4" "history_of b5 = history_of b4"
      by blast
    obtain b6 where b6: "state_restore act b5 = Some b6" "calm b5 b6" using state_restore_calm[OF b5(2)] b5(3) b4(2) False i(3) by auto
    have "buf_text b6 = buf_text b3" using b6(2) b5(3) b4(2) by (simp add: calm_def buf_text_def)
    then show ?thesis using ne b2(1,3) r(1) dupd False rev t3 b3(3) b4(3) b5 b6
      by (auto simp: buf_undo_insert_def b1_def[symmetric] b3_def[symmetric] b4_def[symmetric] cur_text(1)[OF ok2(1,2)] Let_def calm_def)
  qed
qed

text \<open>A new row before or after the current one.\<close>

lemma unmarked_rows:
  assumes "unmarked_ok b" "cursor_wf c" "rows_ok (next_id b) (fst c)"
  shows "unmarked_ok (b\<lparr>rows := c\<rparr>)"
  using assms by (simp add: unmarked_ok_def buf_ok_def)

lemma rows_ok_insert:
  assumes "rows_ok n rs" "row_id r = n" "0 \<notin> set (bytes r)"
  shows "rows_ok (n + 1) (take i rs @ r # drop i rs)"
proof -
  have s: "set (take i rs) \<subseteq> set rs" "set (drop i rs) \<subseteq> set rs" by (rule set_take_subset, rule set_drop_subset)
  have "distinct (map row_id (take i rs) @ map row_id (drop i rs))"
    using assms(1) by (simp only: map_append[symmetric] append_take_drop_id rows_ok_def)
  then have "distinct (map row_id (take i rs @ r # drop i rs))"
    using assms(1,2) s by (auto simp: rows_ok_def)
  then show ?thesis using assms s by (force simp: rows_ok_def)
qed

lemma insert_at_text: "i \<le> length t \<Longrightarrow> take i (take i t @ x # drop i t) @ drop (Suc i) (take i t @ x # drop i t) = t"
  by (simp add: min_def)

lemma delete_reverts:
  assumes "buf_ok b" "act_type act = DELETE_LINE" "fits act (buf_text b)"
  shows "\<exists>r b'. buf_undo_delete_line R act b = Some (r # R, b') \<and> buf_ok b' \<and> history_of b' = history_of b \<and>
    buf_text b' = revert_text act (buf_text b) \<and> reverts act (buf_text b) r \<and> row_list b' \<noteq> []"
proof -
  have i: "0 \<le> s_idx act" "0 \<le> s_video_first_row_idx act" and nul: "0 \<notin> set (act_bytes act)"
    using assms(2,3) by (auto simp: fits_def)
  define row where "row = \<lparr>row_id = next_id b, bytes = act_bytes act, first_col_idx = 0, cur_col_idx = 0\<rparr>"
  define b1 where "b1 = b\<lparr>next_id := next_id b + 1\<rparr>"
  have new: "buf_row_new_with (act_bytes act) b = (row, b1)" using nul by (simp add: buf_row_new_with_def row_def b1_def c_string_id)
  have ok1: "buf_ok b1" "row_list b1 = row_list b" "history_of b1 = history_of b" "buf_text b1 = buf_text b" "num_items b1 = num_items b" "buf_marks b1 = buf_marks b"
    using assms(1) by (auto simp: b1_def buf_ok_def rows_ok_def mark_ok_def num_items_def history_of_def buf_text_def)
  define k where "k = (if s_idx act \<ge> num_items b then length (row_list b) else nat (s_idx act))"
  have k: "k \<le> length (buf_text b)" using i by (auto simp: k_def num_items_def text_items)
  have same: "take k (buf_text b) @ act_bytes act # drop k (buf_text b) = revert_text act (buf_text b)"
    using assms(2) i by (auto simp: revert_text_def k_def Let_def num_items_def text_items)
  have rev: "reverts act (buf_text b) r" if "act_type r = INSERT_LINE" "s_idx r = int k" "0 \<le> s_video_first_row_idx r" for r
  proof -
    have "length (revert_text act (buf_text b)) = length (buf_text b) + 1" using k by (simp flip: same)
    moreover have "take k (revert_text act (buf_text b)) @ drop (Suc k) (revert_text act (buf_text b)) = buf_text b"
      unfolding same[symmetric] by (rule insert_at_text[OF k])
    ultimately show ?thesis using that k by (simp add: reverts_def fits_def revert_text_def[of r] Let_def)
  qed
  show ?thesis
  proof (cases "row_list b = []")
    case True
    let ?b = "b1\<lparr>rows := ([row], 0)\<rparr>"
    have "buf_ok ?b" using ok1(1) True nul assms(1)
      by (auto simp: buf_ok_def rows_ok_def cursor_wf_def mark_ok_def num_items_def row_def b1_def)
    then obtain b2 where b2: "buf_adjust_view ?b = Some b2" "calm ?b b2" using adjust_view_calm[of ?b] by auto
    have ok2: "buf_ok b2" "row_list b2 \<noteq> []" "buf_text b2 = [act_bytes act]" "history_of b2 = history_of b"
      using b2(2) calm_nonempty[OF b2(2)] ok1(3) by (auto simp: calm_def buf_text_def history_of_def row_def)
    obtain r where r: "undo_set buf_action_new INSERT_LINE b2 = Some r" "act_type r = INSERT_LINE" "0 \<le> s_video_first_row_idx r" "s_idx r = 0"
      using undo_set_Some[OF ok2(1,2), of buf_action_new INSERT_LINE] by (auto simp: buf_action_new_def)
    have "revert_text act (buf_text b) = [act_bytes act]" using True assms(2) by (simp add: buf_text_def revert_text_def Let_def)
    then show ?thesis using True new b2(1) r ok2 ok1(2) rev[of r] by (simp add: buf_undo_delete_line_def k_def num_items_def)
  next
    case False
    then have ne: "row_list b1 \<noteq> []" using ok1 by simp
    define at where "at = (if s_idx act \<ge> num_items b then num_items b - 1 else s_idx act)"
    have at: "0 \<le> at" "at < num_items b" using i False by (auto simp: at_def num_items_def)
    define b2 where "b2 = snd (buf_current_set at b1)"
    have b2: "calm b1 b2" "cur_idx b2 = at"
      using current_set_calm[OF ok1(1), of at] current_set_at[of at b1] at ok1(5) by (simp_all add: b2_def)
    obtain b3 where b3: "buf_adjust_view b2 = Some b3" "calm b1 b3" "cur_idx b3 = at"
      using adjust_view_calm[of b2] b2 calm_nonempty[OF b2(1) ne] calm_trans[OF b2(1)] by (auto simp: calm_def)
    have ok3: "buf_ok b3" "row_list b3 \<noteq> []" "buf_text b3 = buf_text b" "history_of b3 = history_of b" "num_items b3 = num_items b"
      using b3(2) calm_nonempty[OF b3(2) ne] calm_items[OF b3(2)] ok1 by (auto simp: calm_def)
    obtain r where r: "undo_set buf_action_new INSERT_LINE b3 = Some r" "act_type r = INSERT_LINE" "0 \<le> s_video_first_row_idx r"
      using undo_set_Some[OF ok3(1,2)] by blast
    have nxt: "next_id b3 = next_id b + 1" "rows_ok (next_id b) (row_list b3)"
    proof -
      show "next_id b3 = next_id b + 1" using b3(2) by (simp add: calm_def b1_def)
      have ids: "map row_id (row_list b3) = map row_id (row_list b)" using b3(2) ok1(2) by (simp add: calm_def)
      have "row_id r < next_id b" if "r \<in> set (row_list b3)" for r
      proof -
        have "row_id r \<in> set (map row_id (row_list b))" using that by (simp flip: ids)
        then show ?thesis using assms(1) by (auto simp: buf_ok_def rows_ok_def)
      qed
      then show "rows_ok (next_id b) (row_list b3)" using ok3(1) by (simp add: buf_ok_def rows_ok_def)
    qed
    define b4 where "b4 = b3\<lparr>rows := (take k (row_list b3) @ row # drop k (row_list b3), int k)\<rparr>"
    have k3: "k \<le> length (row_list b3)" using k ok3(3) by (simp flip: text_items(1))
    have "unmarked_ok b4" unfolding b4_def
    proof (rule unmarked_rows)
      show "unmarked_ok b3" using ok3(1) by (simp add: unmarked_iff)
      show "cursor_wf (take k (row_list b3) @ row # drop k (row_list b3), int k)" using k3 by (simp add: cursor_wf_def)
      show "rows_ok (next_id b3) (fst (take k (row_list b3) @ row # drop k (row_list b3), int k))"
        using rows_ok_insert[OF nxt(2), of row k] nul nxt(1) by (simp add: row_def)
    qed
    moreover have "buf_text b4 = take k (buf_text b3) @ act_bytes act # drop k (buf_text b3)"
      by (simp add: b4_def buf_text_def row_def take_map drop_map)
    then have t4: "buf_text b4 = revert_text act (buf_text b)" using ok3(3) same by simp
    moreover have b4: "row_list b4 \<noteq> []" "num_items b4 = num_items b + 1" "buf_marks b4 = buf_marks b3" "history_of b4 = history_of b"
      "cur_idx b4 = int k"
      using ok3 k3 by (auto simp: b4_def num_items_def history_of_def)
    moreover have "\<forall>m \<in> set (buf_marks b3). s_video_first_row m \<noteq> None \<longrightarrow> 0 \<le> s_cur_idx m \<and> s_cur_idx m < num_items b"
      using ok3(1,5) at by (auto simp: buf_ok_def mark_ok_def)
    ultimately have "\<exists>b5. buf_adjust_marks INSERT_LINE (s_idx act) (s_idx act + 1) b4 = Some b5 \<and> buf_ok b5 \<and> rows b5 = rows b4 \<and> history_of b5 = history_of b4"
      using i by (intro adjust_marks_calm adjust_mark_ok) auto
    then obtain b5 where b5: "buf_adjust_marks INSERT_LINE (s_idx act) (s_idx act + 1) b4 = Some b5" "buf_ok b5" "rows b5 = rows b4" "history_of b5 = history_of b4"
      by blast
    obtain b6 where b6: "state_restore act b5 = Some b6" "calm b5 b6" using state_restore_calm[OF b5(2)] b5(3) b4(1) i(2) by auto
    have six: "buf_text b6 = buf_text b4" "row_list b6 \<noteq> []"
      using b6(2) b5(3) b4(1) calm_nonempty[OF b6(2)] by (auto simp: calm_def buf_text_def)
    have put: "(if s_idx act \<ge> num_items b1 then buf_current_append row b3 else buf_current_prepend row b3) = b4"
      using ok3(2,5) b3(3) at ok1(5) i unfolding b4_def
      by (auto simp: buf_current_append_def buf_current_prepend_def append_current_def prepend_current_def at_def k_def num_items_def split: prod.split)
    have "buf_undo_delete_line R act b = Some (r\<lparr>s_idx := int k\<rparr> # R, b6)"
      using put ne new b3(1) r(1) b4(5) b5(1) b6(1) ok1(5)
      by (simp add: buf_undo_delete_line_def at_def b2_def Let_def split: if_splits)
    then show ?thesis using six t4 b4 b5 b6 rev[of "r\<lparr>s_idx := int k\<rparr>"] r by (simp add: calm_def)
  qed
qed

lemma row_offset_calm:
  "buf_ok b \<Longrightarrow> i < num_items b \<Longrightarrow> 0 \<le> i \<Longrightarrow> video_first_row b = row_at_index i b \<Longrightarrow> video_first_row_idx b = i \<Longrightarrow>
   \<exists>b'. row_offset k i b = Some b' \<and> calm b b' \<and> cur_idx b' = cur_idx b"
proof (induction k arbitrary: i b)
  case 0
  then show ?case by (simp add: calm_refl)
next
  case (Suc k)
  show ?case
  proof (cases "0 < i")
    case True
    let ?b = "b\<lparr>video_first_row_idx := i - 1, video_first_row := row_at_index (i - 1) b,
      video_row_pos := cur_video_row b + 1, cur_video_row := cur_video_row b + 1\<rparr>"
    have c: "calm b ?b" using Suc.prems(1) True by (simp add: calm_def buf_ok_def buf_text_def history_of_def mark_ok_def num_items_def)
    have "row_at_index (i - 1) ?b = row_at_index (i - 1) b" "num_items ?b = num_items b" by (simp_all add: row_at_index_def num_items_def)
    then obtain b' where "row_offset k (i - 1) ?b = Some b'" "calm ?b b'" "cur_idx b' = cur_idx b"
      using Suc.IH[of ?b "i - 1"] c Suc.prems(2) True by (auto simp: calm_def)
    then show ?thesis using True Suc.prems calm_trans[OF c] row_prev_at[of b i] by simp
  qed (use Suc.prems(1) in \<open>simp add: calm_refl\<close>)
qed

lemma set_row_idx_calm:
  assumes "buf_ok b" "0 \<le> i" "i < num_items b"
  shows "\<exists>b'. buf_set_row_idx i ofs col b = Some (i, b') \<and> calm b b' \<and> cur_idx b' = i"
proof -
  have ne: "row_list b \<noteq> []" using assms(2,3) by (auto simp: num_items_def)
  define b1 where "b1 = b\<lparr>rows := (row_list b, i)\<rparr>"
  have set: "buf_current_set (set_row_index (max 0 i) b) b = (i, b1)"
    using current_set_at[OF assms(2,3)] assms(2,3) by (simp add: set_row_index_def b1_def)
  have b1: "calm b b1" "cur_idx b1 = i" "row_list b1 \<noteq> []"
    using current_set_calm[OF assms(1), of i] current_set_at[OF assms(2,3)] ne by (simp_all add: b1_def)
  let ?b = "b1\<lparr>video_row_pos := dim_first_row b1, cur_video_row := dim_first_row b1, video_first_row := cur_ptr b1, video_first_row_idx := i\<rparr>"
  have c: "calm b1 ?b" using b1(1) assms(2) by (auto simp: calm_def buf_ok_def buf_text_def history_of_def mark_ok_def num_items_def)
  have "cur_ptr b1 = row_at_index i ?b"
    using cur_ptr_at[of b1] b1 by (simp add: calm_def row_at_index_def num_items_def)
  then obtain b2 where b2: "row_offset (nat ofs) i ?b = Some b2" "calm ?b b2" "cur_idx b2 = i"
    using row_offset_calm[of ?b i "nat ofs"] c b1 assms calm_items[OF b1(1)] by (auto simp: calm_def num_items_def)
  have c2: "calm b b2" using calm_trans[OF calm_trans[OF b1(1) c] b2(2)] .
  obtain r where "cur_row b2 = Some r" using calm_nonempty[OF c2 ne] by (auto simp: cur_row_def)
  then have "buf_set_row_idx i ofs col b =
      Some (i, b2\<lparr>video_col_pos := (if col > int (length (bytes r)) \<or> col < 1 then 1 else col),
        cur_video_col := (if col > int (length (bytes r)) \<or> col < 1 then 1 else col)\<rparr>)"
    using set ne b2 by (simp add: buf_set_row_idx_def Let_def)
  moreover have "calm b (b2\<lparr>video_col_pos := y, cur_video_col := y\<rparr>)" for y
    using c2 by (auto simp: calm_def buf_ok_def buf_text_def history_of_def mark_ok_def num_items_def)
  ultimately show ?thesis using b2(3) by simp
qed

lemma replace_reverts:
  assumes "buf_ok b" "act_type act = REPLACE_LINE" "fits act (buf_text b)"
  shows "\<exists>r b'. buf_undo_replace_line R act b = Some (r # R, b') \<and> buf_ok b' \<and> history_of b' = history_of b \<and>
    buf_text b' = revert_text act (buf_text b) \<and> reverts act (buf_text b) r"
proof -
  have i: "0 \<le> s_idx act" "s_idx act < num_items b" "0 \<le> s_video_first_row_idx act" "0 \<notin> set (act_bytes act)" "nat (s_idx act) < length (buf_text b)"
    using assms(2,3) by (auto simp: fits_def text_items num_items_def nat_less_iff)
  then have ne: "row_list b \<noteq> []" by (auto simp: num_items_def)
  define b1 where "b1 = snd (buf_current_set (s_idx act) b)"
  have b1: "calm b b1" using current_set_calm[OF assms(1), of "s_idx act"] by (simp add: b1_def)
  then obtain b2 where b2: "buf_set_row_idx (s_idx act) (s_row_pos act - dim_first_row b1) (s_col_pos act) b1 = Some (s_idx act, b2)"
    "calm b b2" "cur_idx b2 = s_idx act"
    using set_row_idx_calm[of b1 "s_idx act"] i calm_items[OF b1] calm_trans[OF b1] by (fastforce simp: calm_def)
  have ok2: "buf_ok b2" "row_list b2 \<noteq> []" "buf_text b2 = buf_text b" "history_of b2 = history_of b"
    using b2(2) calm_nonempty[OF b2(2) ne] by (auto simp: calm_def)
  obtain r where r: "undo_set buf_action_new REPLACE_LINE b2 = Some r" "act_type r = REPLACE_LINE" "0 \<le> s_video_first_row_idx r"
    using undo_set_Some[OF ok2(1,2)] by blast
  let ?j = "nat (s_idx act)"
  let ?r = "r\<lparr>s_idx := s_idx act, act_bytes := buf_text b ! ?j\<rparr>"
  have dupd: "dup (bytes (row_list b2 ! ?j)) (length (bytes (row_list b2 ! ?j))) = buf_text b ! ?j"
    using cur_text[OF ok2(1,2)] dup_id ok2(3) b2(3) by metis
  have no_nul: "0 \<notin> set (buf_text b ! ?j)" using cur_text(3)[OF ok2(1,2)] ok2(3) b2(3) by metis
  define b3 where "b3 = b2\<lparr>rows := ((row_list b2)[?j := (row_list b2 ! ?j)\<lparr>bytes := act_bytes act\<rparr>], s_idx act)\<rparr>"
  have j: "?j < length (row_list b2)" using i(5) ok2(3) by (simp flip: text_items(1))
  have repl: "buf_current_replace_with (act_bytes act) b2 = Some b3"
    using ok2(2) b2(3) i(4) by (simp add: buf_current_replace_with_def upd_cur_def cur_row_def b3_def c_string_id)
  have ids: "map row_id (row_list b3) = map row_id (row_list b2)" using j
    by (simp add: b3_def map_update) (metis list_update_id nth_map)
  have "rows_ok (next_id b3) (row_list b3)"
    using ok2(1) j i(4) ids unfolding buf_ok_def rows_ok_def by (auto simp: b3_def dest!: set_update_subset_insert[THEN subsetD])
  then have ok3: "buf_ok b3" "row_list b3 \<noteq> []" "history_of b3 = history_of b"
    using ok2 b2(3) by (auto simp: b3_def buf_ok_def cursor_wf_def mark_ok_def num_items_def history_of_def)
  have "buf_text b3 = (buf_text b2)[?j := act_bytes act]" by (simp add: b3_def buf_text_def map_update)
  then have t3: "buf_text b3 = revert_text act (buf_text b)" using assms(2) ok2(3) by (simp add: revert_text_def Let_def)
  obtain b4 where b4: "state_restore act b3 = Some b4" "calm b3 b4" using state_restore_calm[OF ok3(1,2) i(3)] by blast
  have "reverts act (buf_text b) ?r"
    using i assms(2) r no_nul by (simp add: reverts_def fits_def revert_text_def Let_def)
  moreover have "buf_undo_replace_line R act b = Some (?r # R, b4)"
    using b2(1,3) r(1) dupd repl b4(1) by (simp add: buf_undo_replace_line_def b1_def[symmetric] cur_text(1)[OF ok2(1,2)] Let_def)
  ultimately show ?thesis using b4(2) ok3 t3 by (auto simp: calm_def)
qed

subsection \<open>Undo and redo\<close>

lemma revert_ok:
  assumes "buf_ok b" "fits a (buf_text b)"
  shows "\<exists>r b'. revert R a b = Some (r # R, b') \<and> buf_ok b' \<and> history_of b' = history_of b \<and>
    buf_text b' = revert_text a (buf_text b) \<and> reverts a (buf_text b) r"
  using insert_reverts[OF assms(1) _ assms(2), of R] delete_reverts[OF assms(1) _ assms(2), of R] replace_reverts[OF assms(1) _ assms(2), of R]
  by (cases "act_type a") (auto simp: revert_def)

primrec all_fit :: "action_t list \<Rightarrow> byte list list \<Rightarrow> bool" where
  "all_fit [] t \<longleftrightarrow> True"
| "all_fit (a # as) t \<longleftrightarrow> fits a t \<and> all_fit as (revert_text a t)"

lemma all_fit_append [simp]: "all_fit (xs @ ys) t \<longleftrightarrow> all_fit xs t \<and> all_fit ys (fold revert_text xs t)"
  by (induction xs arbitrary: t) auto

text \<open>All the steps of an action: the stack that is left reverts them in the opposite order.\<close>

lemma revert_all_ok:
  "buf_ok b \<Longrightarrow> all_fit as (buf_text b) \<Longrightarrow>
   \<exists>rs b'. revert_all as R b = Some (rs @ R, b') \<and> buf_ok b' \<and> history_of b' = history_of b \<and>
     buf_text b' = fold revert_text as (buf_text b) \<and> all_fit rs (buf_text b') \<and> fold revert_text rs (buf_text b') = buf_text b"
proof (induction as arbitrary: b R)
  case Nil
  then show ?case by (intro exI[of _ "[]"]) simp
next
  case (Cons a as)
  obtain r b1 where b1: "revert R a b = Some (r # R, b1)" "buf_ok b1" "history_of b1 = history_of b"
    "buf_text b1 = revert_text a (buf_text b)" "reverts a (buf_text b) r"
    using revert_ok[of b a R] Cons.prems by auto
  obtain rs b2 where b2: "revert_all as (r # R) b1 = Some (rs @ r # R, b2)" "buf_ok b2" "history_of b2 = history_of b1"
    "buf_text b2 = fold revert_text as (buf_text b1)" "all_fit rs (buf_text b2)" "fold revert_text rs (buf_text b2) = buf_text b1"
    using Cons.IH[OF b1(2), of "r # R"] Cons.prems(2) b1(4) by auto
  show ?case
    using b1 b2 by (intro exI[of _ "rs @ [r]"] exI[of _ b2]) (simp add: reverts_def)
qed

lemma stack_cursor: "pop_current (prepend_current a (xs, 0)) = (Some a, xs, 0)"
  by (simp add: prepend_current_def pop_current_def)

lemma pop_head: "xs \<noteq> [] \<Longrightarrow> pop_current (xs, 0) = (Some (hd xs), tl xs, 0)"
  by (cases xs) (simp_all add: pop_current_def)

lemma push_bounded_zero: "push_bounded n a (xs, 0) = (a # (if int (length xs) > n then butlast xs else xs), 0)"
  by (auto simp: push_bounded_def prepend_current_def pop_tail_def)

lemma buf_ok_history: "buf_ok (b\<lparr>undo := u, redo := r, undo_reset := x, modified := y\<rparr>) = buf_ok b"
  by (simp add: buf_ok_def mark_ok_def num_items_def)

lemma history_changes [simp]:
  "buf_ok (b\<lparr>undo := u\<rparr>) = buf_ok b" "buf_ok (b\<lparr>redo := u\<rparr>) = buf_ok b" "buf_ok (b\<lparr>undo_reset := x\<rparr>) = buf_ok b" "buf_ok (b\<lparr>modified := y\<rparr>) = buf_ok b"
  "buf_text (b\<lparr>undo := u\<rparr>) = buf_text b" "buf_text (b\<lparr>redo := u\<rparr>) = buf_text b" "buf_text (b\<lparr>undo_reset := x\<rparr>) = buf_text b" "buf_text (b\<lparr>modified := y\<rparr>) = buf_text b"
  by (simp_all add: buf_ok_def mark_ok_def num_items_def buf_text_def)

text \<open>One undo.\<close>

lemma undo_exec_ok:
  assumes "buf_ok b" "undo b = (Act # us, 0)" "redo b = (rs, 0)" "all_fit Act (buf_text b)" "fold revert_text Act (buf_text b) \<noteq> []"
  shows "\<exists>Redoact b'. buf_undo_exec True b = Some (True, b') \<and> buf_ok b' \<and> buf_text b' = fold revert_text Act (buf_text b) \<and>
    undo b' = (us, 0) \<and> redo b' = (Redoact # (if int (length rs) > max_num_undo_entries b then butlast rs else rs), 0) \<and> undo_reset b' = undo_reset b \<and> max_num_undo_entries b' = max_num_undo_entries b \<and>
    all_fit Redoact (buf_text b') \<and> fold revert_text Redoact (buf_text b') = buf_text b"
proof -
  let ?b = "b\<lparr>undo := (us, 0)\<rparr>"
  obtain Redoact b1 where b1: "revert_all Act [] ?b = Some (Redoact @ [], b1)" "buf_ok b1" "history_of b1 = history_of ?b"
    "buf_text b1 = fold revert_text Act (buf_text ?b)" "all_fit Redoact (buf_text b1)" "fold revert_text Redoact (buf_text b1) = buf_text ?b"
    using revert_all_ok[of ?b Act "[]"] assms(1,4) by auto
  let ?b2 = "(buf_redo_push Redoact b1)\<lparr>modified := True\<rparr>"
  have "row_list b1 \<noteq> []" using b1(4) assms(5) by (auto simp: buf_text_def)
  then obtain b3 where b3: "buf_draw ?b2 = Some b3" "calm ?b2 b3"
    using draw_calm[of ?b2] b1(2) by (auto simp: buf_redo_push_def)
  have pop: "buf_undo_pop b = (Some Act, ?b)" using assms(2) by (simp add: buf_undo_pop_def pop_head)
  have red: "redo b1 = (rs, 0)" "undo b1 = (us, 0)" using b1(3) assms(3) by (simp_all add: history_of_def)
  have "buf_undo_exec True b = Some (True, b3)" using pop b1(1) b3(1) by (simp add: buf_undo_exec_def)
  moreover have "buf_text b3 = buf_text b1" "history_of b3 = history_of ?b2" "buf_ok b3" using b3(2) by (simp_all add: calm_def buf_redo_push_def)
  ultimately show ?thesis using b1 red
    by (auto simp: history_of_def buf_redo_push_def push_bounded_zero)
qed

text \<open>One redo.\<close>

lemma redo_exec_ok:
  assumes "buf_ok b" "undo b = (us, 0)" "redo b = (Act # rs, 0)" "all_fit Act (buf_text b)" "fold revert_text Act (buf_text b) \<noteq> []"
  shows "\<exists>Undoact b'. buf_undo_exec False b = Some (True, b') \<and> buf_ok b' \<and> buf_text b' = fold revert_text Act (buf_text b) \<and>
    redo b' = (rs, 0) \<and> undo b' = (Undoact # (if int (length us) > max_num_undo_entries b then butlast us else us), 0) \<and>
    \<not> undo_reset b' \<and> max_num_undo_entries b' = max_num_undo_entries b \<and>
    all_fit Undoact (buf_text b') \<and> fold revert_text Undoact (buf_text b') = buf_text b"
proof -
  let ?b = "b\<lparr>redo := (rs, 0)\<rparr>"
  obtain Undoact b1 where b1: "revert_all Act [] ?b = Some (Undoact @ [], b1)" "buf_ok b1" "history_of b1 = history_of ?b"
    "buf_text b1 = fold revert_text Act (buf_text ?b)" "all_fit Undoact (buf_text b1)" "fold revert_text Undoact (buf_text b1) = buf_text ?b"
    using revert_all_ok[of ?b Act "[]"] assms(1,4) by auto
  let ?b2 = "(buf_undo_push Undoact (b1\<lparr>undo_reset := True\<rparr>))\<lparr>modified := True\<rparr>"
  have "row_list b1 \<noteq> []" using b1(4) assms(5) by (auto simp: buf_text_def)
  then obtain b3 where b3: "buf_draw ?b2 = Some b3" "calm ?b2 b3"
    using draw_calm[of ?b2] b1(2) by (auto simp: buf_undo_push_def Let_def)
  have pop: "buf_redo_pop b = (Some Act, ?b)" using assms(3) by (simp add: buf_redo_pop_def pop_head)
  have red: "redo b1 = (rs, 0)" "undo b1 = (us, 0)" using b1(3) assms(2) by (simp_all add: history_of_def)
  have "buf_undo_exec False b = Some (True, b3)" using pop b1(1) b3(1) by (simp add: buf_undo_exec_def)
  moreover have "buf_text b3 = buf_text b1" "history_of b3 = history_of ?b2" "buf_ok b3" using b3(2) by (simp_all add: calm_def buf_undo_push_def Let_def)
  ultimately show ?thesis using b1 red
    by (auto simp: history_of_def buf_undo_push_def Let_def push_bounded_zero)
qed

subsection \<open>The history of the text\<close>

text \<open>
  The specification: the texts before the present one, and those that were undone. A stack of actions
  realises a list of texts when each action, reverted, leads to the next of them.
\<close>

type_synonym history = "byte list list list \<times> byte list list \<times> byte list list list"

fun undo_text :: "history \<Rightarrow> history" where
  "undo_text (p # ps, t, fs) = (ps, p, t # fs)"
| "undo_text h = h"

fun redo_text :: "history \<Rightarrow> history" where
  "redo_text (ps, t, f # fs) = (t # ps, f, fs)"
| "redo_text h = h"

primrec realises :: "action_t list list \<Rightarrow> byte list list \<Rightarrow> byte list list list \<Rightarrow> bool" where
  "realises [] t ps \<longleftrightarrow> ps = []"
| "realises (A # As) t ps \<longleftrightarrow> all_fit A t \<and> fold revert_text A t \<noteq> [] \<and>
     (case ps of [] \<Rightarrow> False | p # ps \<Rightarrow> p = fold revert_text A t \<and> realises As p ps)"

definition has_history :: "buf \<Rightarrow> history \<Rightarrow> bool" where
  "has_history b h \<longleftrightarrow> (case h of (ps, t, fs) \<Rightarrow> buf_ok b \<and> buf_text b = t \<and> t \<noteq> [] \<and> \<not> undo_reset b \<and>
     snd (undo b) = 0 \<and> snd (redo b) = 0 \<and> realises (fst (undo b)) t ps \<and> realises (fst (redo b)) t fs)"

lemma realises_length: "realises As t ps \<Longrightarrow> length As = length ps"
  by (induction As arbitrary: t ps) (auto split: list.splits)

lemma has_history_cases:
  assumes "has_history b (ps, t, fs)"
  obtains us rs where "undo b = (us, 0)" "redo b = (rs, 0)" "realises us t ps" "realises rs t fs" "buf_ok b" "buf_text b = t" "t \<noteq> []"
    "\<not> undo_reset b" "length us = length ps" "length rs = length fs"
  using assms realises_length by (cases "undo b"; cases "redo b") (auto simp: has_history_def)

lemma undo_step:
  assumes "has_history b (ps, t, fs)" "int (length ps + length fs) \<le> max_num_undo_entries b"
  shows "\<exists>d b'. buf_undo_exec True b = Some (d, b') \<and> has_history b' (undo_text (ps, t, fs)) \<and> max_num_undo_entries b' = max_num_undo_entries b"
proof -
  obtain us rs where h: "undo b = (us, 0)" "redo b = (rs, 0)" "realises us t ps" "realises rs t fs" "buf_ok b" "buf_text b = t" "t \<noteq> []"
    "\<not> undo_reset b" "length us = length ps" "length rs = length fs" using assms(1) by (rule has_history_cases)
  show ?thesis
  proof (cases us)
    case Nil
    then have "buf_undo_exec True b = Some (False, b\<lparr>undo := ([], 0)\<rparr>)" "ps = []"
      using h by (simp_all add: buf_undo_exec_def buf_undo_pop_def pop_current_def)
    then show ?thesis using h Nil by (intro exI[of _ False]) (simp add: has_history_def)
  next
    case (Cons A As)
    then obtain p qs where p: "ps = p # qs" "all_fit A t" "p = fold revert_text A t" "p \<noteq> []" "realises As p qs"
      using h by (auto split: list.splits)
    have "\<not> int (length rs) > max_num_undo_entries b" using assms(2) h p by simp
    then obtain R b' where b': "buf_undo_exec True b = Some (True, b')" "buf_ok b'" "buf_text b' = p" "undo b' = (As, 0)"
      "redo b' = (R # rs, 0)" "undo_reset b' = undo_reset b" "max_num_undo_entries b' = max_num_undo_entries b"
      "all_fit R p" "fold revert_text R p = t"
      using undo_exec_ok[OF h(5) h(1)[unfolded Cons] h(2)] h p by auto
    then show ?thesis using h p by (intro exI[of _ True]) (simp add: has_history_def)
  qed
qed

lemma redo_step:
  assumes "has_history b (ps, t, fs)" "int (length ps + length fs) \<le> max_num_undo_entries b"
  shows "\<exists>d b'. buf_undo_exec False b = Some (d, b') \<and> has_history b' (redo_text (ps, t, fs)) \<and> max_num_undo_entries b' = max_num_undo_entries b"
proof -
  obtain us rs where h: "undo b = (us, 0)" "redo b = (rs, 0)" "realises us t ps" "realises rs t fs" "buf_ok b" "buf_text b = t" "t \<noteq> []"
    "\<not> undo_reset b" "length us = length ps" "length rs = length fs" using assms(1) by (rule has_history_cases)
  show ?thesis
  proof (cases rs)
    case Nil
    then have "buf_undo_exec False b = Some (False, b\<lparr>redo := ([], 0)\<rparr>)" "fs = []"
      using h by (simp_all add: buf_undo_exec_def buf_redo_pop_def pop_current_def)
    then show ?thesis using h Nil by (intro exI[of _ False]) (simp add: has_history_def)
  next
    case (Cons A As)
    then obtain p qs where p: "fs = p # qs" "all_fit A t" "p = fold revert_text A t" "p \<noteq> []" "realises As p qs"
      using h by (auto split: list.splits)
    have "\<not> int (length us) > max_num_undo_entries b" using assms(2) h p by simp
    then obtain R b' where b': "buf_undo_exec False b = Some (True, b')" "buf_ok b'" "buf_text b' = p" "redo b' = (As, 0)"
      "undo b' = (R # us, 0)" "\<not> undo_reset b'" "max_num_undo_entries b' = max_num_undo_entries b"
      "all_fit R p" "fold revert_text R p = t"
      using redo_exec_ok[OF h(5) h(1) h(2)[unfolded Cons]] h p by auto
    then show ?thesis using h p by (intro exI[of _ True]) (simp add: has_history_def)
  qed
qed

definition undo_key :: "bool \<Rightarrow> buf \<Rightarrow> buf option" where
  "undo_key k b = map_option snd (buf_undo_exec k b)"

definition key_text :: "bool \<Rightarrow> history \<Rightarrow> history" where
  "key_text k = (if k then undo_text else redo_text)"

lemma key_text_length: "length (fst (key_text k h)) + length (snd (snd (key_text k h))) = length (fst h) + length (snd (snd h))"
  by (cases h; cases "fst h"; cases "snd (snd h)") (auto simp: key_text_def)

definition room_for :: "buf \<Rightarrow> history \<Rightarrow> bool" where
  "room_for b h \<longleftrightarrow> int (length (fst h) + length (snd (snd h))) \<le> max_num_undo_entries b"

interpretation keys: simulation undo_key key_text has_history "\<lambda>_. room_for"
proof
  fix k ks b and h :: history
  assume a: "has_history b h" "room_for b h"
  obtain ps t fs where h: "h = (ps, t, fs)" by (cases h)
  obtain d b1 where b1: "buf_undo_exec k b = Some (d, b1)" "has_history b1 (key_text k h)" "max_num_undo_entries b1 = max_num_undo_entries b"
    using undo_step[of b ps t fs] redo_step[of b ps t fs] a unfolding h key_text_def room_for_def by (cases k) auto
  then show "\<exists>b'. undo_key k b = Some b' \<and> has_history b' (key_text k h) \<and> room_for b' (key_text k h)"
    using a(2) key_text_length[of k h] by (simp add: undo_key_def room_for_def)
qed

text \<open>Property C28. Undo and redo move along the history of the text. Provided that the records of the buffer realise a history of texts
  (\<open>has_history\<close>: each record, undone, gives the text before it, no text is empty, and nothing is half done) and that the history is no longer than the
  buffer's limit of undo entries, whatever the keys \<open>u\<close> and redo that are typed, and
  in whatever order, every one of them returns, and the text is the one that the history with a cursor has there,
  down to its first and up to its last text, at which the keys do nothing. (What makes a record realise a step is shown for
  deleting lines, C29; the record of joining the last two lines does not, C30.)\<close>

theorem undo_redo_refine_history:
  assumes "has_history b h" "int (length (fst h) + length (snd (snd h))) \<le> max_num_undo_entries b"
  shows "\<exists>b'. run_all undo_key ks b = Some b' \<and> has_history b' (fold key_text ks h) \<and> buf_text b' = fst (snd (fold key_text ks h))"
proof -
  obtain b' where "run_all undo_key ks b = Some b'" "has_history b' (fold key_text ks h)"
    using keys.run_all_sim[OF assms(1)] assms(2) by (auto simp: room_for_def)
  then show ?thesis by (cases "fold key_text ks h") (simp add: has_history_def)
qed

subsection \<open>Commands and their undo\<close>

text \<open>An action that fits the text after a command and leads back to the one before is a step of the history.\<close>

lemma push_history:
  assumes "has_history b (ps, t, fs)" "buf_ok b1" "history_of b1 = history_of b" "all_fit Act (buf_text b1)"
    "fold revert_text Act (buf_text b1) = t" "buf_text b1 \<noteq> []" "int (length ps) \<le> max_num_undo_entries b"
  shows "has_history (buf_undo_push Act b1) (t # ps, buf_text b1, [])"
proof -
  obtain us rs where h: "undo b = (us, 0)" "redo b = (rs, 0)" "realises us t ps" "realises rs t fs" "buf_ok b" "buf_text b = t" "t \<noteq> []"
    "\<not> undo_reset b" "length us = length ps" "length rs = length fs" using assms(1) by (rule has_history_cases)
  have "undo b1 = (us, 0)" "\<not> undo_reset b1" "max_num_undo_entries b1 = max_num_undo_entries b"
    using assms(3) h by (simp_all add: history_of_def)
  then show ?thesis using assms(2,4-7) h
    by (simp add: has_history_def buf_undo_push_def push_bounded_zero buf_redo_clear_def)
qed

text \<open>Marks in front of what is deleted.\<close>

definition marks_below :: "int \<Rightarrow> buf \<Rightarrow> bool" where
  "marks_below n b \<longleftrightarrow> (\<forall>m \<in> set (buf_marks b). s_video_first_row m \<noteq> None \<longrightarrow> 0 \<le> s_cur_idx m \<and> s_cur_idx m < max 1 n)"

lemma action_new_with_Some:
  assumes "buf_ok b" "row_list b \<noteq> []"
  shows "\<exists>a. buf_action_new_with t idx bs len b = Some a \<and> act_type a = t \<and> s_idx a = idx \<and> act_bytes a = dup bs len \<and> 0 \<le> s_video_first_row_idx a"
  using undo_set_Some[OF assms, of buf_action_new t] by (auto simp: buf_action_new_with_def)

lemma delete_lines_ok:
  assumes "buf_ok b" "int n \<le> num_items b - cur_idx b" "int n < num_items b" "marks_below (num_items b - int n) b"
  shows "\<exists>As b'. delete_lines n Act b = Some (As @ Act, b') \<and> buf_ok b' \<and> history_of b' = history_of b \<and> buf_text b' \<noteq> [] \<and>
    buf_text b' = take (nat (cur_idx b)) (buf_text b) @ drop (nat (cur_idx b) + n) (buf_text b) \<and>
    all_fit As (buf_text b') \<and> fold revert_text As (buf_text b') = buf_text b"
  using assms
proof (induction n arbitrary: b Act)
  case 0
  then have "row_list b \<noteq> []" by (auto simp: num_items_def)
  then show ?case using 0 by (intro exI[of _ "[]"] exI[of _ b]) (simp add: buf_text_def)
next
  case (Suc n)
  let ?i = "nat (cur_idx b)"
  have ne: "row_list b \<noteq> []" using Suc.prems(3) by (auto simp: num_items_def)
  have i: "0 \<le> cur_idx b" "cur_idx b < num_items b" "?i < length (buf_text b)"
    using cur_in[OF Suc.prems(1) ne] by (auto simp: text_items num_items_def)
  let ?row = "row_list b ! ?i"
  obtain a where a: "buf_action_new_with DELETE_LINE (cur_idx b) (bytes ?row) (length (bytes ?row)) b = Some a"
    "act_type a = DELETE_LINE" "s_idx a = cur_idx b" "act_bytes a = buf_text b ! ?i" "0 \<le> s_video_first_row_idx a"
    using action_new_with_Some[OF Suc.prems(1) ne] cur_text[OF Suc.prems(1) ne] dup_id by metis
  define b1 where "b1 = buf_current_delete b"
  note d = current_delete_ok[OF Suc.prems(1) ne, folded b1_def]
  have ne1: "row_list b1 \<noteq> []" using d(5) Suc.prems(3) by (auto simp: num_items_def)
  have ok1: "buf_ok b1" using d(1,4,5) Suc.prems(3,4) by (auto simp: unmarked_iff mark_ok_def marks_below_def)
  have rv: "fits a (buf_text b1)" "revert_text a (buf_text b1) = buf_text b"
    using a i d(2) cur_text(3)[OF Suc.prems(1) ne] take_drop_nth[OF i(3)] by (simp_all add: fits_def revert_text_def Let_def)
  show ?case
  proof (cases "n = 0")
    case True
    then show ?thesis using a(1) ne1 ok1 d rv cur_text(1)[OF Suc.prems(1) ne]
      by (intro exI[of _ "[a]"] exI[of _ b1]) (auto simp: b1_def[symmetric] Let_def buf_text_def)
  next
    case False
    have cur: "cur_idx b1 = cur_idx b"
      using False Suc.prems(2) ne ne1 i
      by (auto simp: b1_def buf_current_delete_def current_delete_def pop_current_def num_items_def Let_def split: prod.splits if_splits)
    have "int n \<le> num_items b1 - cur_idx b1" "int n < num_items b1" "marks_below (num_items b1 - int n) b1"
      using Suc.prems d(4,5) cur by (auto simp: marks_below_def)
    then obtain As b' where b': "delete_lines n (a # Act) b1 = Some (As @ a # Act, b')" "buf_ok b'" "history_of b' = history_of b1" "buf_text b' \<noteq> []"
      "buf_text b' = take (nat (cur_idx b1)) (buf_text b1) @ drop (nat (cur_idx b1) + n) (buf_text b1)"
      "all_fit As (buf_text b')" "fold revert_text As (buf_text b') = buf_text b1"
      using Suc.IH[OF ok1, of "a # Act"] by blast
    have "buf_text b' = take ?i (buf_text b) @ drop (?i + Suc n) (buf_text b)"
      using b'(5) d(2) cur i(3) by (simp add: min_def add.commute)
    then show ?thesis using a(1) ne1 d(3) rv b' cur_text(1)[OF Suc.prems(1) ne]
      by (intro exI[of _ "As @ [a]"] exI[of _ b']) (auto simp: b1_def[symmetric] Let_def)
  qed
qed

text \<open>The loop does not look at the marks; what comes behind it moves them to the rows that are left, and keeps the
  text.\<close>

lemma delete_lines_marks:
  "delete_lines n Act (b\<lparr>buf_marks := ms\<rparr>) = map_option (\<lambda>(Act, b). (Act, b\<lparr>buf_marks := ms\<rparr>)) (delete_lines n Act b)"
proof (induction n arbitrary: Act b)
  case (Suc n)
  have 1: "buf_current_delete (b\<lparr>buf_marks := ms\<rparr>) = (buf_current_delete b)\<lparr>buf_marks := ms\<rparr>"
    by (simp add: buf_current_delete_def current_delete_def Let_def split: prod.split)
  have 2: "cur_row (b\<lparr>buf_marks := ms\<rparr>) = cur_row b" by (simp add: cur_row_def)
  have 3: "buf_action_new_with t i x l (b\<lparr>buf_marks := ms\<rparr>) = buf_action_new_with t i x l b" for t i x l
    by (simp add: buf_action_new_with_def undo_set_def state_set_def 2)
  show ?case
    unfolding delete_lines.simps 1 2 3
    by (cases "cur_row b"; cases "buf_action_new_with DELETE_LINE (cur_idx b) (bytes (the (cur_row b))) (length (bytes (the (cur_row b)))) b")
       (simp_all add: Suc.IH Let_def 3)
qed simp

lemma calm_outside:
  "calm b (b'\<lparr>video_col_pos := x, cur_video_col := y\<rparr>) = calm b b'" "calm b (b'\<lparr>modified := m\<rparr>) = calm b b'"
  by (simp_all add: calm_def buf_ok_def buf_text_def history_of_def mark_ok_def num_items_def)

lemma adjust_col_calm:
  assumes "buf_ok b" "row_list b \<noteq> []"
  shows "\<exists>b'. buf_adjust_col columns (b\<lparr>buf_marks := ms\<rparr>) = Some (b'\<lparr>buf_marks := ms\<rparr>) \<and> calm b b'"
proof -
  obtain c f v where col: "columns (b\<lparr>buf_marks := ms\<rparr>) = (c, f, v)" by (cases "columns (b\<lparr>buf_marks := ms\<rparr>)") auto
  obtain b' where b': "upd_cur (\<lambda>r. r\<lparr>first_col_idx := f, cur_col_idx := c\<rparr>) b = Some b'" "calm b b'"
    using upd_cur_calm[OF assms, of "\<lambda>r. r\<lparr>first_col_idx := f, cur_col_idx := c\<rparr>"] by auto
  have "upd_cur g (b\<lparr>buf_marks := ms\<rparr>) = map_option (\<lambda>b. b\<lparr>buf_marks := ms\<rparr>) (upd_cur g b)" for g
    by (cases "row_list b = []") (simp_all add: upd_cur_def cur_row_def)
  moreover have "calm b (b'\<lparr>video_col_pos := v, cur_video_col := v\<rparr>)" using b'(2) by (simp add: calm_outside)
  ultimately show ?thesis
    using col b'(1) assms(2) by (intro exI[of _ "b'\<lparr>video_col_pos := v, cur_video_col := v\<rparr>"]) (simp add: buf_adjust_col_def)
qed

lemma after_deletion:
  assumes "buf_ok b" "row_list b \<noteq> []"
  shows "\<exists>b'. (if cur_idx b = fidx
             then Some (if video_first_row_idx b > fidx then b\<lparr>video_first_row_idx := cur_idx b\<rparr> else b)
             else if video_first_row_idx b \<noteq> cur_idx b then buf_adjust_view b else Some b) \<bind> (\<lambda>b. buf_draw (b\<lparr>modified := True\<rparr>)) = Some b' \<and> calm b b'"
proof -
  have "\<exists>b'. (if cur_idx b = fidx
             then Some (if video_first_row_idx b > fidx then b\<lparr>video_first_row_idx := cur_idx b\<rparr> else b)
             else if video_first_row_idx b \<noteq> cur_idx b then buf_adjust_view b else Some b) = Some b' \<and> calm b b'"
    using adjust_view_calm[OF assms] calm_refl[OF assms(1)] cur_in[OF assms] assms(1)
    by (auto simp: calm_def buf_ok_def buf_text_def history_of_def mark_ok_def num_items_def)
  then obtain b1 where b1: "(if cur_idx b = fidx
             then Some (if video_first_row_idx b > fidx then b\<lparr>video_first_row_idx := cur_idx b\<rparr> else b)
             else if video_first_row_idx b \<noteq> cur_idx b then buf_adjust_view b else Some b) = Some b1" "calm b b1" by blast
  then have "calm b (b1\<lparr>modified := True\<rparr>)" by (simp add: calm_outside)
  moreover from this have "buf_ok (b1\<lparr>modified := True\<rparr>)" "row_list (b1\<lparr>modified := True\<rparr>) \<noteq> []"
    using calm_nonempty[OF b1(2) assms(2)] by (simp_all add: calm_def)
  ultimately show ?thesis using draw_calm[of "b1\<lparr>modified := True\<rparr>"] b1(1) by (auto intro: calm_trans)
qed

lemma delete_line_ok:
  assumes "buf_ok b" "row_list b \<noteq> []" "1 \<le> count" "0 < cur_idx b \<or> count < num_items b"
  shows "\<exists>As b1. buf_delete_line columns count b = Some (buf_undo_push As b1) \<and> buf_ok b1 \<and> history_of b1 = history_of b \<and> buf_text b1 \<noteq> [] \<and>
    buf_text b1 = take (nat (cur_idx b)) (buf_text b) @ drop (nat (cur_idx b) + nat count) (buf_text b) \<and>
    all_fit As (buf_text b1) \<and> fold revert_text As (buf_text b1) = buf_text b"
proof -
  have cur: "0 \<le> cur_idx b" "cur_idx b < num_items b" using cur_in[OF assms(1,2)] by auto
  define c where "c = (if count > num_items b - cur_idx b then num_items b - cur_idx b else count)"
  have c: "1 \<le> c" "c \<le> num_items b - cur_idx b" "c < num_items b" using assms(3,4) cur by (auto simp: c_def)
  let ?u = "b\<lparr>buf_marks := []\<rparr>"
  have u: "buf_ok ?u" "num_items ?u = num_items b" "buf_text ?u = buf_text b" "history_of ?u = history_of b"
    using assms(1) by (simp_all add: buf_ok_def num_items_def buf_text_def history_of_def)
  obtain As b0 where d: "delete_lines (nat c) [] ?u = Some (As @ [], b0)" "buf_ok b0" "history_of b0 = history_of b" "buf_text b0 \<noteq> []"
    "buf_text b0 = take (nat (cur_idx b)) (buf_text b) @ drop (nat (cur_idx b) + nat c) (buf_text b)"
    "all_fit As (buf_text b0)" "fold revert_text As (buf_text b0) = buf_text b"
    using delete_lines_ok[OF u(1), of "nat c" "[]"] c u(2-4) by (auto simp: marks_below_def)
  have items: "num_items b0 = num_items b - c"
    using arg_cong[OF d(5), of length] c cur by (simp add: text_items(1) num_items_def)
  have del: "delete_lines (nat c) [] b = Some (As, b0\<lparr>buf_marks := buf_marks b\<rparr>)"
    using delete_lines_marks[of "nat c" "[]" "buf_marks b" ?u] d(1) by simp
  have ne0: "row_list b0 \<noteq> []" using d(4) by (simp add: buf_text_def)
  obtain b2 where b2: "buf_adjust_col columns (b0\<lparr>buf_marks := buf_marks b\<rparr>) = Some (b2\<lparr>buf_marks := buf_marks b\<rparr>)" "calm b0 b2"
    using adjust_col_calm[OF d(2) ne0] by blast
  let ?m = "b2\<lparr>buf_marks := buf_marks b\<rparr>"
  have m: "unmarked_ok ?m" "row_list ?m \<noteq> []" "num_items ?m = num_items b0"
    using b2(2) calm_nonempty[OF b2(2) ne0] calm_items[OF b2(2)] by (auto simp: calm_def unmarked_ok_def buf_ok_def num_items_def)
  have "\<exists>m'. adjust_mark DELETE_LINE (cur_idx b) (cur_idx b + c - 1) ?m mk = Some m' \<and> mark_ok ?m m'" if "mk \<in> set (buf_marks ?m)" for mk
  proof (rule adjust_mark_ok[OF m(1,2)])
    assume "s_video_first_row mk \<noteq> None"
    then have "0 \<le> s_cur_idx mk \<and> s_cur_idx mk < num_items b" using that assms(1) cur by (auto simp: buf_ok_def mark_ok_def)
    then show "0 \<le> s_cur_idx mk \<and> (s_cur_idx mk < cur_idx b \<longrightarrow> s_cur_idx mk < num_items ?m) \<and>
      (cur_idx b + c - 1 < s_cur_idx mk \<longrightarrow>
       s_cur_idx mk + (if DELETE_LINE = DELETE_LINE then cur_idx b - (cur_idx b + c - 1) - 1 else cur_idx b + c - 1 - cur_idx b) < num_items ?m)"
      using m(3) items c by auto
  qed (use cur c in auto)
  then obtain b3 where b3: "buf_adjust_marks DELETE_LINE (cur_idx b) (cur_idx b + c - 1) ?m = Some b3" "buf_ok b3" "rows b3 = rows ?m" "history_of b3 = history_of ?m"
    using adjust_marks_calm[OF m(1)] by blast
  define b4 where "b4 = (if num_items b3 = 1 \<and> cur_video_row b3 \<noteq> dim_first_row b3
                 then b3\<lparr>video_row_pos := dim_first_row b3, cur_video_row := dim_first_row b3\<rparr> else b3)"
  have b4: "buf_ok b4" "rows b4 = rows b2" "history_of b4 = history_of b2"
    using b3 by (auto simp: b4_def buf_ok_def history_of_def mark_ok_def num_items_def)
  then have ne4: "row_list b4 \<noteq> []" using m(2) by simp
  obtain b5 where b5: "(if cur_idx b4 = cur_idx b
             then Some (if video_first_row_idx b4 > cur_idx b then b4\<lparr>video_first_row_idx := cur_idx b4\<rparr> else b4)
             else if video_first_row_idx b4 \<noteq> cur_idx b4 then buf_adjust_view b4 else Some b4) \<bind> (\<lambda>b. buf_draw (b\<lparr>modified := True\<rparr>)) = Some b5" "calm b4 b5"
    using after_deletion[OF b4(1) ne4, of "cur_idx b"] by blast
  have tx: "buf_text b5 = buf_text b0" "history_of b5 = history_of b" "buf_ok b5"
    using b5(2) b4(2,3) b2(2) d(3) by (simp_all add: calm_def buf_text_def)
  have "num_items (b0\<lparr>buf_marks := buf_marks b\<rparr>) \<noteq> 0" using ne0 by (simp add: num_items_def)
  then have "buf_delete_line columns count b = Some (buf_undo_push As b5)"
    using assms(2) del b2(1) b3(1) b5(1)
    unfolding buf_delete_line_def by (simp add: c_def[symmetric] Let_def b4_def[symmetric] bind_eq_Some_conv) (auto simp: bind_eq_Some_conv split: if_splits)
  moreover have "drop (nat (cur_idx b) + nat c) (buf_text b) = drop (nat (cur_idx b) + nat count) (buf_text b)"
    using cur c assms(3) by (auto simp: c_def text_items(1) num_items_def nat_diff_distrib)
  ultimately show ?thesis using tx d(4-7) by (intro exI[of _ As] exI[of _ b5]) simp
qed

text \<open>Property C29. Deleting lines is a step of the history. In a buffer that has a history (\<open>has_history\<close>) of fewer texts than
  its limit of undo entries, deleting \<open>count\<close> lines from the current one on (as many as there are, but not all of the buffer: then the editor
  puts an empty line in, which is not part of the action) leaves the text without them, with the text before as the next step back,
  and \<open>u\<close> brings them back, in
  their order and at their place, however many they are, also at the end of the buffer, wherever the marks are, and whatever column
  \<open>adjust.col\<close> finds for the cursor.\<close>

theorem deleted_lines_come_back:
  assumes "has_history b (ps, t, fs)" "1 \<le> count" "0 < cur_idx b \<or> count < num_items b" "int (length ps) < max_num_undo_entries b"
  shows "\<exists>b1 b2. buf_delete_line columns count b = Some b1 \<and>
    buf_text b1 = take (nat (cur_idx b)) t @ drop (nat (cur_idx b) + nat count) t \<and> has_history b1 (t # ps, buf_text b1, []) \<and>
    buf_undo_exec True b1 = Some (True, b2) \<and> buf_text b2 = t"
proof -
  have b: "buf_ok b" "buf_text b = t" "t \<noteq> []" using assms(1) by (auto simp: has_history_def)
  then have ne: "row_list b \<noteq> []" by (auto simp: buf_text_def)
  obtain As b1 where d: "buf_delete_line columns count b = Some (buf_undo_push As b1)" "buf_ok b1" "history_of b1 = history_of b" "buf_text b1 \<noteq> []"
    "buf_text b1 = take (nat (cur_idx b)) t @ drop (nat (cur_idx b) + nat count) t" "all_fit As (buf_text b1)" "fold revert_text As (buf_text b1) = t"
    using delete_line_ok[OF b(1) ne assms(2,3)] b(2) by blast
  have h: "has_history (buf_undo_push As b1) (t # ps, buf_text b1, [])"
    using push_history[OF assms(1) d(2,3,6,7,4)] assms(4) by simp
  obtain us rs where u: "undo (buf_undo_push As b1) = (us, 0)" "redo (buf_undo_push As b1) = (rs, 0)" "realises us (buf_text b1) (t # ps)"
    using h by (rule has_history_cases)
  obtain A us' where us: "us = A # us'" using u(3) by (cases us) auto
  have "all_fit A (buf_text b1)" "fold revert_text A (buf_text b1) = t" using u(3) us by auto
  moreover have "buf_ok (buf_undo_push As b1)" "buf_text (buf_undo_push As b1) = buf_text b1" using h by (auto simp: has_history_def)
  ultimately obtain b2 where "buf_undo_exec True (buf_undo_push As b1) = Some (True, b2)" "buf_text b2 = t"
    using undo_exec_ok[of "buf_undo_push As b1" A us' rs] u us b(3) by auto
  moreover have "buf_text (buf_undo_push As b1) = buf_text b1" using h by (simp add: has_history_def)
  ultimately show ?thesis using d(1,5) h by (intro exI[of _ "buf_undo_push As b1"] exI[of _ b2]) simp
qed

subsection \<open>Joining lines\<close>

text \<open>What the current line is after the join; a current line without a byte is outside the model.\<close>

definition join_text :: "byte list \<Rightarrow> byte list \<Rightarrow> byte list" where
  "join_text a c = (if c = [] then a else (if last a = 10 \<or> last a = 0 then butlast a else a) @ one_space c)"

lemma join_text_no_nul: "0 \<notin> set a \<Longrightarrow> 0 \<notin> set c \<Longrightarrow> 0 \<notin> set (join_text a c)"
  by (auto simp: join_text_def one_space_def dest: in_set_butlastD set_dropWhileD)

lemma nth_two_split: "Suc i < length xs \<Longrightarrow> xs = take i xs @ xs ! i # xs ! Suc i # drop (i + 2) xs"
  by (metis Cons_nth_drop_Suc Suc_eq_plus1 Suc_lessD add_2_eq_Suc' append_take_drop_id)

lemma pop_next_ok:
  assumes "buf_ok b" "cur_idx b + 1 < num_items b" "row_list b = xs @ r # s # ys" "nat (cur_idx b) = length xs"
  shows "buf_current_pop_next b = Some (Some s, b\<lparr>rows := (xs @ r # ys, cur_idx b)\<rparr>)"
proof -
  have c: "cur_idx b = int (length xs)" using assms(1,3,4) cur_in[OF assms(1)] by auto
  have at: "(xs @ r # s # ys) ! Suc (length xs) = s" by (simp add: nth_append)
  show ?thesis
    using assms(2,3) c at
    by (auto simp: buf_current_pop_next_def current_delete_def pop_current_def num_items_def Let_def nat_add_distrib)
qed

lemma join_steps:
  assumes "buf_ok b" "Suc (nat (cur_idx b)) < length (buf_text b)" "buf_text b ! nat (cur_idx b) \<noteq> []"
  defines "i \<equiv> nat (cur_idx b)" and "t \<equiv> buf_text b"
  shows "\<exists>p q b'. buf_normal_join d b = Some (True, b') \<and> buf_ok b' \<and>
    buf_text b' = take i t @ join_text (t ! i) (t ! Suc i) # drop (i + 2) t \<and>
    history_of b' = history_of (buf_undo_push [q, p] b) \<and>
    act_type p = REPLACE_LINE \<and> s_idx p = int i \<and> act_bytes p = t ! i \<and> 0 \<le> s_video_first_row_idx p \<and>
    act_type q = DELETE_LINE \<and> s_idx q = (if i + 2 < length t then int i + 1 else int i) \<and> act_bytes q = t ! Suc i \<and>
    0 \<le> s_video_first_row_idx q"
proof -
  have ne: "row_list b \<noteq> []" using assms(2) by (auto simp: buf_text_def)
  have i: "cur_idx b = int i" "Suc i < length (row_list b)" "Suc i < length t" "cur_idx b + 1 < num_items b"
    using cur_in[OF assms(1) ne] assms(2) by (auto simp: i_def num_items_def t_def text_items)
  let ?rs = "row_list b"
  let ?xs = "take i ?rs" and ?r = "?rs ! i" and ?s = "?rs ! Suc i" and ?ys = "drop (i + 2) ?rs"
  have split: "?rs = ?xs @ ?r # ?s # ?ys" by (rule nth_two_split[OF i(2)])
  have tb: "bytes ?r = t ! i" "bytes ?s = t ! Suc i" using i(2) by (simp_all add: t_def buf_text_def)
  have nul: "0 \<notin> set (t ! i)" "0 \<notin> set (t ! Suc i)"
    using assms(1) i(2) tb by (auto simp: buf_ok_def rows_ok_def) (metis Suc_lessD nth_mem)+
  obtain p where p: "buf_Action_set_with_current [] REPLACE_LINE b = Some [p]" "act_type p = REPLACE_LINE" "s_idx p = int i"
    "act_bytes p = t ! i" "0 \<le> s_video_first_row_idx p"
    using action_new_with_Some[OF assms(1) ne, of REPLACE_LINE "cur_idx b" "bytes ?r" "length (bytes ?r)"] cur_text(1)[OF assms(1) ne] i(1) tb(1) nul
    by (auto simp: buf_Action_set_with_current_def dup_id)
  define b1 where "b1 = b\<lparr>rows := (?xs @ ?r # ?ys, int i)\<rparr>"
  have pop: "buf_current_pop_next b = Some (Some ?s, b1)"
    using pop_next_ok[OF assms(1) i(4) split] i by (simp add: b1_def)
  have c1: "cur_row b1 = Some ?r" "num_items b1 = num_items b - 1" "cur_idx b1 = int i"
    using i(2) by (simp_all add: b1_def cur_row_def nth_append num_items_def)
  obtain q where q: "buf_Action_set_with [p] DELETE_LINE (cur_idx b1 + 1) (Some (bytes ?s, length (bytes ?s))) b1 = Some [q, p]"
    "act_type q = DELETE_LINE" "s_idx q = (if i + 2 < length t then int i + 1 else int i)" "act_bytes q = t ! Suc i" "0 \<le> s_video_first_row_idx q"
  proof -
    have "0 \<le> video_first_row_idx b1" using assms(1) by (simp add: b1_def buf_ok_def)
    moreover have "(int i + 1 \<ge> num_items b1) = (\<not> i + 2 < length t)" using c1(2) i(2) by (auto simp: t_def buf_text_def num_items_def)
    ultimately show ?thesis using that c1 tb(2) nul(2)
      by (auto simp: buf_Action_set_with_def undo_set_def state_set_def Let_def dup_id)
  qed
  define b2 where "b2 = buf_undo_push [q, p] b1"
  have b2: "rows b2 = rows b1" "history_of b2 = history_of (buf_undo_push [q, p] b)" "buf_marks b2 = buf_marks b" "next_id b2 = next_id b"
    "video_first_row_idx b2 = video_first_row_idx b" "cur_row b2 = Some ?r"
    using c1(1) by (simp_all add: b2_def b1_def buf_undo_push_def buf_redo_clear_def history_of_def Let_def cur_row_def)
  let ?j = "join_text (t ! i) (t ! Suc i)"
  define b3 where "b3 = b2\<lparr>rows := (?xs @ ?r\<lparr>bytes := ?j\<rparr> # ?ys, int i)\<rparr>"
  have jn: "(if bytes ?s \<noteq> []
             then do { r \<leftarrow> cur_row b2; bs \<leftarrow> rm_trailing_new_line (bytes r); upd_cur (\<lambda>r. r\<lparr>bytes := bs @ one_space (bytes ?s)\<rparr>) b2 }
             else Some b2) = Some b3"
  proof (cases "t ! Suc i = []")
    case True
    have "?r\<lparr>bytes := t ! i\<rparr> = ?r" by (simp flip: tb(1))
    then have "b3 = b2" using True b2(1) by (simp add: b3_def join_text_def b1_def)
    then show ?thesis using True tb by simp
  next
    case False
    have rm: "rm_trailing_new_line (t ! i) = Some (if last (t ! i) = 10 \<or> last (t ! i) = 0 then butlast (t ! i) else t ! i)"
      using assms(3) by (simp add: rm_trailing_new_line_def i_def t_def)
    have len: "length ?xs = i" using i(2) by simp
    then have "(row_list b2)[i := x] = ?xs @ x # ?ys" "cur_idx b2 = int i" for x
      using b2(1) by (simp_all add: b1_def list_update_append)
    then show ?thesis using False tb rm b2(6) by (simp add: upd_cur_def b3_def join_text_def)
  qed
  have "rows_ok (next_id b) (?xs @ ?r # ?s # ?ys)" using assms(1) split by (simp add: buf_ok_def)
  then have ok: "rows_ok (next_id b) (?xs @ ?r\<lparr>bytes := ?j\<rparr> # ?ys)"
    using join_text_no_nul[OF nul] unfolding rows_ok_def by (auto simp: ball_Un)
  have un3: "unmarked_ok b3"
    using ok assms(1) i(2) b2 by (simp add: unmarked_ok_def buf_ok_def b3_def cursor_wf_def)
  have n3: "num_items b3 = num_items b - 1" "row_list b3 \<noteq> []" "buf_marks b3 = buf_marks b" "history_of b3 = history_of b2" "cur_idx b3 = int i"
    using i(2) b2 by (simp_all add: b3_def num_items_def history_of_def)
  have marks: "\<exists>m'. adjust_mark DELETE_LINE (cur_idx b3) (cur_idx b3 + 1) b3 m = Some m' \<and> mark_ok b3 m'" if "m \<in> set (buf_marks b3)" for m
  proof (rule adjust_mark_ok[OF un3 n3(2)])
    have "s_video_first_row m \<noteq> None \<Longrightarrow> 0 \<le> s_cur_idx m \<and> s_cur_idx m < max 1 (num_items b)"
      using that assms(1) n3(3) by (auto simp: buf_ok_def mark_ok_def)
    then show "s_video_first_row m \<noteq> None \<Longrightarrow> 0 \<le> s_cur_idx m \<and> (s_cur_idx m < cur_idx b3 \<longrightarrow> s_cur_idx m < num_items b3) \<and>
      (cur_idx b3 + 1 < s_cur_idx m \<longrightarrow> s_cur_idx m + (if DELETE_LINE = DELETE_LINE then cur_idx b3 - (cur_idx b3 + 1) - 1 else cur_idx b3 + 1 - cur_idx b3) < num_items b3)"
      using n3(1,5) i by (auto simp: num_items_def)
  qed (use n3(5) in simp)
  obtain b4 where b4: "buf_adjust_marks DELETE_LINE (cur_idx b3) (cur_idx b3 + 1) b3 = Some b4" "buf_ok b4" "rows b4 = rows b3" "history_of b4 = history_of b3"
    using adjust_marks_calm[OF un3 marks] by blast
  let ?b5 = "b4\<lparr>modified := True\<rparr>"
  have t5: "buf_text ?b5 = take i t @ ?j # drop (i + 2) t" "row_list ?b5 \<noteq> []"
    using b4(3) by (simp_all add: b3_def buf_text_def t_def take_map drop_map)
  have all: "buf_normal_join d b = (if d then map_option (\<lambda>b. (True, b)) (buf_draw ?b5) else Some (True, ?b5))"
    using ne i(4) p(1) pop q(1) jn b4(1) unfolding b2_def
    by (simp add: buf_normal_join_def num_items_def Let_def)
  have h5: "history_of ?b5 = history_of (buf_undo_push [q, p] b)" using b4(4) n3(4) b2(2) by (simp add: history_of_def)
  obtain b6 where b6: "buf_draw ?b5 = Some b6" "calm ?b5 b6" using draw_calm[of ?b5] b4(2) t5(2) by auto
  have "\<exists>b'. buf_normal_join d b = Some (True, b') \<and> buf_ok b' \<and> buf_text b' = take i t @ ?j # drop (i + 2) t \<and> history_of b' = history_of (buf_undo_push [q, p] b)"
    using all b6 b4(2) t5(1) h5 by (cases d) (auto simp: calm_def)
  then show ?thesis using p q by blast
qed

text \<open>Property C30. Joining a current line that is not empty with the next makes one of the two; after that \<open>u\<close> brings the two back when a
  line follows them. When they are the last two lines of the buffer it does not: the index behind the cursor is no
  longer one of a row, so the record of the removed line is put at the cursor, it is written over by the current
  line, and the joined line stays where the second was. The buffer has a history that is within its limit of undo entries. (An empty
  current line is read before its first byte, which is outside the model.)\<close>

theorem join_undo:
  assumes "has_history b (ps, t, fs)" "Suc (nat (cur_idx b)) < length t" "t ! nat (cur_idx b) \<noteq> []"
    "int (length ps) \<le> max_num_undo_entries b"
  shows "\<exists>b1 b2. buf_normal_join d b = Some (True, b1) \<and>
    buf_text b1 = take (nat (cur_idx b)) t @ join_text (t ! nat (cur_idx b)) (t ! Suc (nat (cur_idx b))) # drop (nat (cur_idx b) + 2) t \<and>
    buf_undo_exec True b1 = Some (True, b2) \<and>
    buf_text b2 = (if nat (cur_idx b) + 2 < length t then t
                   else take (nat (cur_idx b)) t @ [t ! nat (cur_idx b), join_text (t ! nat (cur_idx b)) (t ! Suc (nat (cur_idx b)))])"
proof -
  let ?i = "nat (cur_idx b)"
  let ?j = "join_text (t ! ?i) (t ! Suc ?i)"
  obtain us rs where h: "undo b = (us, 0)" "redo b = (rs, 0)" "realises us t ps" "realises rs t fs" "buf_ok b" "buf_text b = t" "t \<noteq> []"
    "\<not> undo_reset b" "length us = length ps" "length rs = length fs" using assms(1) by (rule has_history_cases)
  obtain p q b1 where j: "buf_normal_join d b = Some (True, b1)" "buf_ok b1" "buf_text b1 = take ?i t @ ?j # drop (?i + 2) t"
    "history_of b1 = history_of (buf_undo_push [q, p] b)"
    and p: "act_type p = REPLACE_LINE" "s_idx p = int ?i" "act_bytes p = t ! ?i" "0 \<le> s_video_first_row_idx p"
    and q: "act_type q = DELETE_LINE" "s_idx q = (if ?i + 2 < length t then int ?i + 1 else int ?i)" "act_bytes q = t ! Suc ?i" "0 \<le> s_video_first_row_idx q"
    using join_steps[OF h(5), of d] assms(2,3) h(6) by auto
  have undo1: "undo b1 = ([q, p] # us, 0)" "redo b1 = ([], 0)"
    using j(4) h assms(4) by (simp_all add: history_of_def buf_undo_push_def buf_redo_clear_def push_bounded_zero)
  have nul: "0 \<notin> set (t ! k)" if "k < length t" for k
    using h(5,6) that by (auto simp: buf_ok_def rows_ok_def buf_text_def)
  define u where "u = take ?i t"
  have u: "length u = ?i" using assms(2) by (simp add: u_def)
  have t: "t = u @ t ! ?i # t ! Suc ?i # drop (?i + 2) t" unfolding u_def by (rule nth_two_split[OF assms(2)])
  have fit: "all_fit [q, p] (buf_text b1)"
    using p q nul[OF assms(2)] nul[of ?i] assms(2) u
    by (auto simp: fits_def revert_text_def Let_def j(3) u_def[symmetric])
  have rev: "fold revert_text [q, p] (buf_text b1) =
      (if ?i + 2 < length t then t else u @ [t ! ?i, ?j])"
  proof -
    have "nat (s_idx p) = ?i" "nat (s_idx q) = (if ?i + 2 < length t then Suc ?i else ?i)" using p(2) q(2) by auto
    then show ?thesis using p(1,3) q(1,3) u t
      by (cases "?i + 2 < length t") (simp_all add: revert_text_def Let_def j(3) u_def[symmetric] list_update_append)
  qed
  then have ne: "fold revert_text [q, p] (buf_text b1) \<noteq> []" using h(7) by auto
  obtain b2 where "buf_undo_exec True b1 = Some (True, b2)" "buf_text b2 = fold revert_text [q, p] (buf_text b1)"
    using undo_exec_ok[OF j(2) undo1 fit ne] by auto
  then show ?thesis using j(1,3) rev u_def by auto
qed

subsection \<open>The properties on a buffer of three lines\<close>

definition three_lines :: "action_t list list \<Rightarrow> int \<Rightarrow> buf" where
  "three_lines us i =
    \<lparr>rows = ([\<lparr>row_id = 0, bytes = ascii ''ab'', first_col_idx = 0, cur_col_idx = 0\<rparr>,
       \<lparr>row_id = 1, bytes = ascii ''c'', first_col_idx = 0, cur_col_idx = 0\<rparr>,
       \<lparr>row_id = 2, bytes = ascii '' d'', first_col_idx = 0, cur_col_idx = 0\<rparr>], i), next_id = 3,
     video_first_row = Some 0, video_first_row_idx = 0, cur_video_row = 2, cur_video_col = 1, video_row_pos = 2, video_col_pos = 1,
     video_first_col = 1, dim_first_row = 2, dim_num_rows = 20, buf_marks = [blank_state],
     buf_jumps = \<lparr>jumps = [], jump_cur_idx = 0, jump_old_idx = 0\<rparr>, undo = (us, 0), redo = ([], 0), undo_reset = False,
     max_num_undo_entries = 40, modified = False\<rparr>"

definition removed :: action_t where
  "removed = buf_action_new\<lparr>s_idx := 1, act_bytes := ascii ''x''\<rparr>"

lemmas three_lines_simps = three_lines_def has_history_def buf_ok_def cursor_wf_def rows_ok_def num_items_def mark_ok_def blank_state_def
  buf_text_def removed_def buf_action_new_def fits_def revert_text_def marks_below_def ascii_def

lemma undo_redo_refine_history_witness:
  "\<exists>b'. run_all undo_key [True, True, False] (three_lines [[removed]] 0) = Some b' \<and>
     buf_text b' = [ascii ''ab'', ascii ''c'', ascii '' d'']"
proof -
  have "has_history (three_lines [[removed]] 0)
      ([[ascii ''ab'', ascii ''x'', ascii ''c'', ascii '' d'']], [ascii ''ab'', ascii ''c'', ascii '' d''], [])"
    by (simp add: three_lines_simps)
  from undo_redo_refine_history[OF this, of "[True, True, False]"] show ?thesis
    by (auto simp: three_lines_def key_text_def)
qed

lemma deleted_lines_come_back_witness:
  "\<exists>b1 b2. buf_delete_line (\<lambda>_. (0, 0, 1)) 2 (three_lines [] 1) = Some b1 \<and> buf_text b1 = [ascii ''ab''] \<and>
     buf_undo_exec True b1 = Some (True, b2) \<and> buf_text b2 = [ascii ''ab'', ascii ''c'', ascii '' d'']"
proof -
  have h: "has_history (three_lines [] 1) ([], [ascii ''ab'', ascii ''c'', ascii '' d''], [])"
    by (simp add: three_lines_simps)
  have c: "cur_idx (three_lines [] 1) = 1" "max_num_undo_entries (three_lines [] 1) > 0" by (simp_all add: three_lines_def)
  show ?thesis
    using deleted_lines_come_back[OF h, of 2 "\<lambda>_. (0, 0, 1)"] c by auto
qed

lemma join_undo_witness:
  "\<exists>b1 b2. buf_normal_join True (three_lines [] 1) = Some (True, b1) \<and> buf_text b1 = [ascii ''ab'', ascii ''c d''] \<and>
     buf_undo_exec True b1 = Some (True, b2) \<and> buf_text b2 = [ascii ''ab'', ascii ''c'', ascii ''c d'']"
proof -
  have "has_history (three_lines [] 1) ([], [ascii ''ab'', ascii ''c'', ascii '' d''], [])"
    by (simp add: three_lines_simps)
  from join_undo[OF this, of True] show ?thesis
    by (simp add: three_lines_def join_text_def one_space_def ascii_def)
qed

end
