(* ===== verification/Spec2Isabelle.thy ===== *)
theory Spec2Isabelle
  imports Utf8 Arena Hashmap Paths Codings Qsort Environ Iexpr Ikeeps Itokens Iscopes Cterm Cformat Eundo
begin

text \<open>
  A model of system-zero: its C library (\<open>src/src/y/pkg/libc/libc\<close>, in the following \<open>libc/\<close>), and of the
  libraries under \<open>src/src/z/lib\<close> the linked lists (\<open>list\<close>), the interpreter of small scripts (\<open>I\<close>), the terminal of a
  frame of the window manager (\<open>Vwm\<close>), and the rows, marks and undo of the editor (\<open>E\<close>). This theory imports
  all others.

  The parts and how they interact. Every program is built on \<open>libc\<close>, which uses no other C library: strings
  are NUL-terminated bytes, blocks come from \<open>Alloc\<close>, growable strings, hash maps and the environment are made of both.
  The libraries of \<open>z/lib\<close> handle their rows, frames, buffers and undo records with the macros of \<open>list.h\<close>. \<open>E\<close> is an editor whose
  buffers are such lists of rows; \<open>I\<close> runs scripts for it; \<open>Vwm\<close> runs programs in frames, each of which is a terminal:
  it scans what the program writes, keeps the cells of the screen and writes to the real terminal; a program
  in a frame reads keys and asks for the position of the cursor with \<open>libc/term\<close>.

  Conventions. A definition has the name of the function it models where it can; a helper for a part of a
  function, such as the body of a loop, has a name of its own and the manifest names the lines. \<open>None\<close> as an answer is
  undefined behaviour: an access outside an object or through a null pointer, an overflow of a signed integer, a
  value that was never written, or a question that a finite list of answers of the kernel does not
  contain. So a theorem that says \<open>f x = Some y\<close> also says that the call ends and does none of this. Errors that the code
  reports are values: -1, \<open>Inl\<close> or an empty option inside the answer. Signed integers are \<open>int\<close> with \<open>in_int w\<close>
  at every operation that may overflow, unsigned ones words or \<open>nat\<close> with the modulus written out. Where a length or an index of
  the code is an \<open>int\<close>, the model has the overflow and the theorem the bound (Qsort, Codings, Strbuf, Cformat).

  The theories, the code, and what their lemmas show.

  Prelude: memory as blocks of bytes, pointers, reads and writes (\<open>rd\<close>, \<open>wr\<close>), C strings (\<open>cstr\<close>), the collections
  \<open>cstr_simps\<close> and \<open>store_simps\<close>, and the integers. Contracts: the locales that several theories interpret: a map
  from strings (Hashmap), a coding with its decoder (Codings), and a simulation of a specification by a sequence of operations
  (Dllist, Eundo), with what follows from each.

  Cstrings, Cmemory (\<open>libc/string\<close>): the readers and the writers; copies within overlapping blocks, by words and backwards, are
  the move of the bytes. Ctype (\<open>libc/ctype\<close>). Numbers (\<open>libc/convert/decimal*\<close>, \<open>libc/stdlib/atoi.c\<close>, \<open>strtol.c\<close>,
  \<open>strtoul.c\<close>): what is written in a base is read back, and what is read is the value of the digits with its
  clamping. Strbuf (\<open>libc/string/string*.c\<close>): insertion, deletion, replacement and trimming refine the operations on lists
  of bytes and keep the capacity. Unicode, Utf8 (\<open>libc/utf8\<close>): widths by bisection are membership in the
  tables, the case maps are inverse to each other, the decoder reads what the encoder writes, and validation accepts exactly the well-formed
  sequences. Arena (\<open>libc/stdlib/alloc.c\<close>, \<open>libc/sys/brk.c\<close>): the list of chunks is well formed in every reachable state,
  and \<open>malloc\<close>, \<open>free\<close> and \<open>realloc\<close> refine a finite set of disjoint blocks. Hashmap (\<open>libc/map\<close>): the operations refine a
  partial function, and every value is released exactly once. Paths (\<open>libc/path\<close>): normal forms of names, and the walk of
  \<open>path_real\<close> over symbolic links, which ends by its count of links. Codings (\<open>libc/crypt/base64.c\<close>, hexadecimal).
  Qsort (\<open>libc/stdlib/qsort.c\<close>): sorting with any total preorder gives a sorted permutation. Environ (\<open>libc/env\<close>): who owns
  which string, and where setting a variable releases one that is still in use. Ctime (\<open>libc/time\<close>): dates are
  right from 1970 until the end of February 2100, one day behind or more after it (and the fields of a time
  before 1970 are out of range), written dates can be read back, and how far a buffer can be overrun. Cfdio (\<open>libc/unistd/read.c\<close>, \<open>write.c\<close>), Ckeys (\<open>libc/term/term_getkey.c\<close>), Cterm (\<open>libc/term/term.c\<close>):
  reading and writing over any sequence of answers of the kernel, keys of several bytes, and the position that the terminal of Vterm
  reports to a program that asks for it. Cformat (\<open>libc/convert/format.c\<close>): the directives of a format, their arguments and the
  padding, and that a format made of pieces prints the pieces' texts, as far as there is room.

  Dllist (\<open>z/lib/list/src/list.h\<close>): every macro over an explicit store of nodes; sequences of macros refine a sequence with a
  cursor. Ebuf, Eundo (\<open>z/lib/E/src/libe.c\<close>): the rows with their current one, the view, marks, jumps and iterators; undo and redo
  refine a history of texts with a cursor, lines deleted by \<open>buf_delete_line\<close> come back, and the join of the last two lines
  does not. The columns that the view computes after a deletion are an argument there.

  Ilex, Interp, Istart (\<open>z/lib/I/src/libi.c\<close>): tokens, scopes, expressions, statements, calls, arrays and printing of the interpreter, with
  the table of names of a new instance. The scripts that an instance has run are kept one behind the other, so that the body of a
  function is still the text it was defined with. What the client registers, the format of a value, and the
  stream that is printed to are arguments (\<open>outside\<close>); what has been printed is kept in the state. Imono: a greater bound on the depth of calls never changes an answer.
  Iexpr: a parsed expression has the value of the reference, an operator tree. Ikeeps: what no script that comes to an end can change, with builtins of the client
  that keep the same contract: the types of the state, the chain of scopes, which has no cycle, and constants. Itokens:
  what the tokens are, and where printing leaves the manual. Iscopes: in a state that Ikeeps keeps, lookup ends and finds
  exactly the innermost definition.

  Vterm, Vesc (\<open>z/lib/Vwm/src/libvwm.c\<close>): the cells, the cursor, attributes, scrolling, and the scanner of escape sequences with
  every handler. Vsafe: the invariant of a frame, kept by all output but of the bytes it lists. Vtext: text
  and characters of several bytes appear in the cells.

  Bounds and fuel. Loops over memory end with the block they read (the measure \<open>room\<close>). \<open>interp\<close> of Interp is bounded by the depth of
  calls, because a script may loop; Imono shows that an answer does not depend on a bound that is enough, and
  the theorems about scripts hold for every bound. The search of Iscopes is bounded by the number of objects and shown to
  be enough in every state that Ikeeps keeps; the tab of Vesc by the distance to the last column; the steps of Ebuf along the rows by the indices of the code's own
  loops. The loops of Ctime end by their measure.

  Not modelled. System calls and what only wraps them (\<open>libc/syscall\<close>, \<open>sys\<close>, \<open>file\<close>, \<open>dir\<close>, \<open>stdio\<close>, most of \<open>unistd\<close>): their answers are parameters
  where a modelled function asks for one. The other formatter (\<open>string/vsnprintf.c\<close>) and what is built on
  it, floating point numbers (\<open>strtod\<close>, \<open>float_to_string\<close>, \<open>math\<close>), and the three allocators of \<open>libc/mem\<close>, which are
  variants of the one of Arena. Of \<open>E\<close>: input, modes, the remaining commands, registers, windows, syntax and files.
  Of \<open>Vwm\<close>: windows and their layout, the event loop, and processes. Of \<open>I\<close>: the list of instances, files, and the builtins of its own that read and write memory by address. The
  larger interpreters \<open>La\<close> and \<open>libl\<close>, the read line, the shell, the virtual objects, regular
  expressions, URLs, JSON and the other libraries of \<open>z/lib\<close>, the preprocessor and the paragraph formatter (which are of other origin), and the
  applications are left to themselves: they are large or call mostly what is outside.
\<close>

end
